(* ===== verification/Prelude.thy ===== *)
theory Prelude
  imports Main "HOL-Library.Word" "HOL-Library.Signed_Division" "HOL-Library.Monad_Syntax"
begin

text \<open>
  Shared notions of the development.

  A kernel function that can panic (a failed ASSERT, a read or write through a null
  pointer, a division trap) or that may not return is a function into an option type:
  None stands for the panic or for not returning.  \<open>ASSERT\<close> is the macro of lib/debug.h.
  C's \<open>int\<close> and \<open>int64_t\<close> are integers kept in range by \<open>wrap32\<close> and \<open>wrap64\<close>
  (two's complement, as the kernel's compiler and the x86 conversions do it), and
  C's \<open>/\<close> and \<open>%\<close>, which truncate towards zero, are \<open>sdiv\<close> and \<open>smod\<close>.
\<close>

section \<open>Collections of facts\<close>

named_theorems c_int "arithmetic of C integers"
named_theorems panic_simps "unfolding of functions that may panic"
named_theorems wf_intros "preservation of well-formedness invariants"

section \<open>Assertions\<close>

definition ASSERT :: "bool \<Rightarrow> unit option" where
  "ASSERT c = (if c then Some () else None)"

lemma ASSERT_True [simp]: "ASSERT True = Some ()"
  by (simp add: ASSERT_def)

lemma ASSERT_False [simp]: "ASSERT False = None"
  by (simp add: ASSERT_def)

lemma ASSERT_eq_Some [simp]: "ASSERT c = Some u \<longleftrightarrow> c"
  by (simp add: ASSERT_def)

lemma ASSERT_eq_None [simp]: "ASSERT c = None \<longleftrightarrow> \<not> c"
  by (simp add: ASSERT_def)

lemma bind_ASSERT [simp]: "Option.bind (ASSERT c) f = (if c then f () else None)"
  by (simp add: ASSERT_def)

section \<open>C integers\<close>

definition wrap32 :: "int \<Rightarrow> int" where
  "wrap32 x = signed_take_bit 31 x"

definition wrap64 :: "int \<Rightarrow> int" where
  "wrap64 x = signed_take_bit 63 x"

abbreviation (input) INT_MAX :: int where "INT_MAX \<equiv> 2147483647"
abbreviation (input) INT_MIN :: int where "INT_MIN \<equiv> -2147483648"

definition in_int :: "int \<Rightarrow> bool" where
  "in_int x \<longleftrightarrow> INT_MIN \<le> x \<and> x \<le> INT_MAX"

lemma wrap32_id [c_int]: "INT_MIN \<le> x \<Longrightarrow> x \<le> INT_MAX \<Longrightarrow> wrap32 x = x"
  unfolding wrap32_def by (rule signed_take_bit_int_eq_self) auto

lemma wrap64_id [c_int]: "- (2 ^ 63) \<le> x \<Longrightarrow> x < 2 ^ 63 \<Longrightarrow> wrap64 x = x"
  unfolding wrap64_def by (rule signed_take_bit_int_eq_self) auto

lemma wrap32_bounds: "INT_MIN \<le> wrap32 x \<and> wrap32 x \<le> INT_MAX"
proof -
  have "- (2 ^ 31) \<le> signed_take_bit 31 x" by (rule signed_take_bit_int_greater_eq_minus_exp)
  moreover have "signed_take_bit 31 x < 2 ^ 31" by (rule signed_take_bit_int_less_exp)
  ultimately show ?thesis by (simp add: wrap32_def)
qed

lemma in_int_wrap32 [simp]: "in_int (wrap32 x)"
  using wrap32_bounds by (simp add: in_int_def)

text \<open>Truncating division: sign and size.\<close>

lemma sdiv_nonneg [c_int]: "0 \<le> x \<Longrightarrow> 0 < y \<Longrightarrow> (x::int) sdiv y = x div y"
  by (cases "x = 0") (simp_all add: signed_divide_int_def)

lemma sdiv_neg [c_int]: "x < 0 \<Longrightarrow> 0 < y \<Longrightarrow> (x::int) sdiv y = - ((- x) div y)"
  by (simp add: signed_divide_int_def)

lemma sdiv_lower: "0 < y \<Longrightarrow> - \<bar>x\<bar> \<le> (x::int) sdiv y"
proof (cases "0 \<le> x")
  case True
  assume "0 < y"
  with True show ?thesis by (simp add: sdiv_nonneg pos_imp_zdiv_nonneg_iff order_trans [of _ 0])
next
  case False
  assume "0 < y"
  moreover from this have "(- x) div y \<le> - x"
    using False zdiv_mono2 [of "- x" 1 y] by simp
  ultimately show ?thesis using False by (simp add: sdiv_neg)
qed

lemma sdiv_upper: "0 < y \<Longrightarrow> (x::int) sdiv y \<le> \<bar>x\<bar>"
proof (cases "0 \<le> x")
  case True
  assume "0 < y"
  moreover from this have "x div y \<le> x"
    using True zdiv_mono2 [of x 1 y] by simp
  ultimately show ?thesis using True by (simp add: sdiv_nonneg)
next
  case False
  assume "0 < y"
  moreover from this have "0 \<le> (- x) div y" using False by (simp add: pos_imp_zdiv_nonneg_iff)
  ultimately show ?thesis using False by (simp add: sdiv_neg)
qed

lemma sdiv_mono: "0 < z \<Longrightarrow> x \<le> y \<Longrightarrow> (x::int) sdiv z \<le> y sdiv z"
proof -
  assume z: "0 < z" and le: "x \<le> y"
  consider "0 \<le> x" | "x < 0" "0 \<le> y" | "y < 0" using le by linarith
  then show ?thesis
  proof cases
    case 1
    with z le show ?thesis by (simp add: sdiv_nonneg zdiv_mono1)
  next
    case 2
    with z have "0 \<le> (- x) div z" and "0 \<le> y div z"
      by (simp_all add: pos_imp_zdiv_nonneg_iff)
    with 2 z show ?thesis by (simp add: sdiv_neg sdiv_nonneg)
  next
    case 3
    with z le show ?thesis by (simp add: sdiv_neg zdiv_mono1)
  qed
qed

lemma int_div_less: "0 < b \<Longrightarrow> (a::int) < c * b \<Longrightarrow> a div b < c"
proof (rule ccontr)
  assume b: "0 < b" and a: "a < c * b" and "\<not> a div b < c"
  then have "c * b \<le> a div b * b" by (intro mult_right_mono) simp_all
  also have "\<dots> \<le> a" using b
    by (simp add: minus_mod_eq_div_mult [symmetric])
  finally show False using a by simp
qed

section \<open>Lists\<close>

text \<open>Chained comparison along a list, with the comparison an arbitrary predicate.\<close>

lemma sorted_wrt_append_iff:
  "sorted_wrt P (xs @ ys) \<longleftrightarrow>
     sorted_wrt P xs \<and> sorted_wrt P ys \<and> (\<forall>x\<in>set xs. \<forall>y\<in>set ys. P x y)"
  by (rule sorted_wrt_append)

lemma takeWhile_dropWhile_split:
  "xs = takeWhile P xs @ dropWhile P xs"
  by simp

lemma remove1_append_notin: "x \<notin> set xs \<Longrightarrow> remove1 x (xs @ x # ys) = xs @ ys"
  by (simp add: remove1_append)

end
