(* ===== verification/FixedPoint.thy ===== *)
theory FixedPoint
  imports Prelude
begin

text \<open>
  The 17.14 fixed-point arithmetic of threads/fixed_point.h and the three formulas of the
  multi-level feedback queue scheduler in threads/thread.c that use it: new_priority,
  new_load_avg and new_recent_cpu.  Fixed-point numbers are C ints; a division that traps
  (by zero, or INT_MIN by -1) is None.
\<close>

section \<open>threads/fixed_point.h\<close>

abbreviation (input) F :: int where "F \<equiv> 16384"

definition int_to_fp :: "int \<Rightarrow> int" where
  "int_to_fp n = wrap32 (n * F)"

definition round_toward_zero :: "int \<Rightarrow> int" where
  "round_toward_zero x = x sdiv F"

definition round_to_nearest :: "int \<Rightarrow> int" where
  "round_to_nearest x =
     (if x \<ge> 0 then wrap32 (x + F sdiv 2) sdiv F else wrap32 (x - F sdiv 2) sdiv F)"

definition fp_add_fp :: "int \<Rightarrow> int \<Rightarrow> int" where
  "fp_add_fp x y = wrap32 (x + y)"

definition fp_sub_fp :: "int \<Rightarrow> int \<Rightarrow> int" where
  "fp_sub_fp x y = wrap32 (x - y)"

definition fp_add_int :: "int \<Rightarrow> int \<Rightarrow> int" where
  "fp_add_int x n = wrap32 (x + wrap32 (n * F))"

definition fp_sub_int :: "int \<Rightarrow> int \<Rightarrow> int" where
  "fp_sub_int x n = wrap32 (x - wrap32 (n * F))"

definition fp_mul_fp :: "int \<Rightarrow> int \<Rightarrow> int" where
  "fp_mul_fp x y = wrap32 (wrap64 (x * y) sdiv F)"

definition fp_mul_int :: "int \<Rightarrow> int \<Rightarrow> int" where
  "fp_mul_int x n = wrap32 (x * n)"

definition fp_div_fp :: "int \<Rightarrow> int \<Rightarrow> int option" where
  "fp_div_fp x y = (if y = 0 then None else Some (wrap32 (wrap64 (x * F) sdiv y)))"

definition fp_div_int :: "int \<Rightarrow> int \<Rightarrow> int option" where
  "fp_div_int x n =
     (if n = 0 \<or> (x = INT_MIN \<and> n = - 1) then None else Some (x sdiv n))"

lemmas fp_defs [c_int] = int_to_fp_def round_toward_zero_def round_to_nearest_def fp_add_fp_def
  fp_sub_fp_def fp_add_int_def fp_sub_int_def fp_mul_fp_def fp_mul_int_def fp_div_fp_def
  fp_div_int_def

section \<open>The feedback queue formulas of threads/thread.c\<close>

abbreviation (input) PRI_MIN :: int where "PRI_MIN \<equiv> 0"
abbreviation (input) PRI_DEFAULT :: int where "PRI_DEFAULT \<equiv> 31"
abbreviation (input) PRI_MAX :: int where "PRI_MAX \<equiv> 63"

definition new_priority :: "int \<Rightarrow> int \<Rightarrow> int option" where
  "new_priority recent_cpu nice = do {
     quarter \<leftarrow> fp_div_int recent_cpu 4;
     let new_pri = round_toward_zero
           (fp_sub_fp (fp_sub_fp (int_to_fp PRI_MAX) quarter) (fp_mul_int (int_to_fp nice) 2));
     Some (if new_pri > PRI_MAX then PRI_MAX else if new_pri < PRI_MIN then PRI_MIN else new_pri)
   }"

definition new_load_avg :: "int \<Rightarrow> int \<Rightarrow> int option" where
  "new_load_avg old_load_avg ready_threads = do {
     c59 \<leftarrow> fp_div_fp (int_to_fp 59) (int_to_fp 60);
     c1 \<leftarrow> fp_div_fp (int_to_fp 1) (int_to_fp 60);
     Some (fp_add_fp (fp_mul_fp c59 old_load_avg) (fp_mul_int c1 ready_threads))
   }"

text \<open>The static variable load_avg, which the code reads, is the first argument.\<close>

definition new_recent_cpu :: "int \<Rightarrow> int \<Rightarrow> int \<Rightarrow> int option" where
  "new_recent_cpu load_avg recent_cpu nice = do {
     coeff \<leftarrow> fp_div_fp (fp_mul_int load_avg 2) (fp_add_int (fp_mul_int load_avg 2) 1);
     Some (fp_add_int (fp_mul_fp coeff recent_cpu) nice)
   }"

section \<open>Properties\<close>

lemma wrap32_numeral_F [simp]: "wrap32 (63 * F) = 1032192" "wrap32 (59 * F) = 966656"
    "wrap32 (60 * F) = 983040" "wrap32 F = F"
  by (simp_all add: wrap32_id)

lemma fp_div_int_4 [simp]: "fp_div_int x 4 = Some (x sdiv 4)"
  by (simp add: fp_div_int_def)

lemma new_load_avg_eq:
  "new_load_avg la rt = Some (wrap32 (wrap32 (wrap64 (16110 * la) sdiv F) + wrap32 (273 * rt)))"
  by (simp add: new_load_avg_def c_int)

text \<open>Inside the int range, conversion and both roundings are exact.\<close>

lemma int_to_fp_exact:
  assumes "\<bar>n\<bar> < 131072"
  shows "int_to_fp n = n * F"
  using assms by (simp add: c_int)

text \<open>Converting an integer of less than 18 bits to fixed point and back, by either
  rounding, gives the integer.\<close>

theorem fixed_point_roundtrip:
  assumes "\<bar>n\<bar> < 131071"
  shows "round_toward_zero (int_to_fp n) = n \<and> round_to_nearest (int_to_fp n) = n"
proof (cases "0 \<le> n")
  case True
  then show ?thesis
    using assms by (simp add: int_to_fp_exact round_toward_zero_def round_to_nearest_def c_int sdiv_nonneg)
next
  case False
  obtain m where m: "n = - m" "0 < m" using False by (intro that [of "- n"]) simp_all
  then show ?thesis
    using assms by (simp add: int_to_fp_exact round_toward_zero_def round_to_nearest_def c_int sdiv_neg)
qed

theorem fixed_point_roundtrip_witness:
  "round_toward_zero (int_to_fp (- 20)) = - 20 \<and> round_to_nearest (int_to_fp (- 20)) = - 20"
  using fixed_point_roundtrip [of "- 20"] by simp

lemma round_toward_zero_int_to_fp:
  assumes "\<bar>n\<bar> < 131072"
  shows "round_toward_zero (int_to_fp n) = n"
  using assms by (cases "0 \<le> n") (simp_all add: int_to_fp_exact round_toward_zero_def c_int)

text \<open>Round_to_nearest is at most half a unit away from its argument, except for the
  arguments within half a unit of the ends of the int range, where the sum overflows.\<close>

theorem round_to_nearest_bounds:
  assumes "INT_MIN + 8192 \<le> x" "x \<le> INT_MAX - 8192"
  shows "2 * \<bar>x - round_to_nearest x * F\<bar> \<le> F"
proof (cases "0 \<le> x")
  case True
  with assms have "round_to_nearest x = (x + 8192) div F"
    by (simp add: round_to_nearest_def c_int)
  then show ?thesis using True by simp
next
  case False
  with assms have "round_to_nearest x = - ((8192 - x) div F)"
    by (simp add: round_to_nearest_def c_int)
  then show ?thesis using False by simp
qed

theorem round_to_nearest_bounds_witness: "2 * \<bar>40000 - round_to_nearest 40000 * F\<bar> \<le> F"
  using round_to_nearest_bounds [of 40000] by simp

lemma new_priority_Some:
  "\<exists>p. new_priority r n = Some p \<and> PRI_MIN \<le> p \<and> p \<le> PRI_MAX"
  by (simp add: new_priority_def Let_def)

lemma new_priority_formula:
  assumes "in_int recent_cpu" "\<bar>nice\<bar> \<le> 1000"
  shows "new_priority recent_cpu nice =
    Some (max PRI_MIN (min PRI_MAX ((PRI_MAX * F - recent_cpu sdiv 4 - nice * 2 * F) sdiv F)))"
proof -
  have q: "- 536870912 \<le> recent_cpu sdiv 4" "recent_cpu sdiv 4 \<le> 536870911"
  proof -
    have "INT_MIN sdiv 4 \<le> recent_cpu sdiv 4"
      using assms(1) by (intro sdiv_mono) (simp_all add: in_int_def)
    then show "- 536870912 \<le> recent_cpu sdiv 4" by (simp add: sdiv_neg)
    have "recent_cpu sdiv 4 \<le> INT_MAX sdiv 4"
      using assms(1) by (intro sdiv_mono) (simp_all add: in_int_def)
    then show "recent_cpu sdiv 4 \<le> 536870911" by (simp add: sdiv_nonneg)
  qed
  have "int_to_fp nice = nice * F" using assms(2) by (intro int_to_fp_exact) simp
  moreover from this have "fp_mul_int (int_to_fp nice) 2 = nice * 2 * F"
    using assms(2) by (simp add: fp_mul_int_def wrap32_id)
  moreover have "fp_sub_fp (int_to_fp PRI_MAX) (recent_cpu sdiv 4) = PRI_MAX * F - recent_cpu sdiv 4"
    using q by (simp add: fp_sub_fp_def int_to_fp_def wrap32_id)
  moreover have "fp_sub_fp (PRI_MAX * F - recent_cpu sdiv 4) (nice * 2 * F)
     = PRI_MAX * F - recent_cpu sdiv 4 - nice * 2 * F"
    using q assms(2) by (simp add: fp_sub_fp_def wrap32_id)
  ultimately show ?thesis
    by (simp add: new_priority_def Let_def round_toward_zero_def max_def min_def)
qed

text \<open>The priority of the feedback queue never rises when recent_cpu or nice rise.\<close>

theorem new_priority_antimono:
  assumes "in_int r" "in_int r'" "r \<le> r'" "\<bar>n\<bar> \<le> 1000" "\<bar>n'\<bar> \<le> 1000" "n \<le> n'"
    and "new_priority r n = Some p" "new_priority r' n' = Some p'"
  shows "p' \<le> p"
proof -
  have "r sdiv 4 \<le> r' sdiv 4" using assms(3) by (intro sdiv_mono) simp_all
  then have "(PRI_MAX * F - r' sdiv 4 - n' * 2 * F) sdiv F \<le> (PRI_MAX * F - r sdiv 4 - n * 2 * F) sdiv F"
    using assms(6) by (intro sdiv_mono) simp_all
  with assms show ?thesis by (auto simp: new_priority_formula)
qed

theorem new_priority_antimono_witness:
  "\<exists>p p'. new_priority 16384 0 = Some p \<and> new_priority 1638400 5 = Some p' \<and> p' \<le> p"
  using new_priority_antimono [of 16384 1638400 0 5] new_priority_Some [of 16384 0]
    new_priority_Some [of 1638400 5] by (fastforce simp: in_int_def)

text \<open>The load average is a weighted mean whose weights add up to just under one: the
  computation does not overflow, and it never exceeds the largest number of ready threads
  seen.\<close>

theorem new_load_avg_bound:
  assumes "0 \<le> la" "la \<le> n * F" "0 \<le> rt" "rt \<le> n" "n \<le> 100000"
  shows "\<exists>la'. new_load_avg la rt = Some la' \<and> 0 \<le> la' \<and> la' \<le> n * F"
proof -
  have n: "0 \<le> n" using assms by linarith
  have m: "0 \<le> 16110 * la" "16110 * la \<le> n * F * 16110" using assms by simp_all
  have "wrap64 (16110 * la) = 16110 * la" using m n assms by (intro wrap64_id) simp_all
  then have e1: "wrap64 (16110 * la) sdiv F = 16110 * la div F" using m by (simp add: sdiv_nonneg)
  have b1: "16110 * la div F \<le> n * 16110" using m by simp
  have b0: "0 \<le> 16110 * la div F" using m by simp
  have "wrap32 (16110 * la div F) = 16110 * la div F"
    using b0 b1 assms by (intro wrap32_id) simp_all
  moreover have "wrap32 (273 * rt) = 273 * rt" using assms by (intro wrap32_id) simp_all
  moreover have "wrap32 (16110 * la div F + 273 * rt) = 16110 * la div F + 273 * rt"
    using b0 b1 assms by (intro wrap32_id) simp_all
  ultimately have "new_load_avg la rt = Some (16110 * la div F + 273 * rt)"
    by (simp add: new_load_avg_eq e1)
  then show ?thesis using b0 b1 assms by simp
qed

theorem new_load_avg_bound_witness:
  "\<exists>la'. new_load_avg 16384 3 = Some la' \<and> 0 \<le> la' \<and> la' \<le> 3 * F"
  using new_load_avg_bound [of 16384 3 3] by simp

text \<open>
  The decay coefficient 2*load_avg / (2*load_avg + 1) lies in [0, 1), so a thread's
  recent_cpu decays towards its nice value.
\<close>

lemma decay_coeff:
  assumes "0 \<le> la" "la \<le> 1073725000"
  shows "\<exists>c. fp_div_fp (fp_mul_int la 2) (fp_add_int (fp_mul_int la 2) 1) = Some c \<and> 0 \<le> c \<and> c < F"
proof -
  have 1: "fp_mul_int la 2 = 2 * la" using assms by (simp add: fp_mul_int_def wrap32_id)
  have 2: "fp_add_int (2 * la) 1 = 2 * la + F" using assms by (simp add: fp_add_int_def wrap32_id)
  have 3: "wrap64 (2 * la * F) = 2 * la * F" using assms by (intro wrap64_id) simp_all
  have pos: "0 < 2 * la + F" using assms by simp
  have 4: "2 * la * F sdiv (2 * la + F) = 2 * la * F div (2 * la + F)"
    using assms pos by (simp add: sdiv_nonneg)
  have 5: "2 * la * F < F * (2 * la + F)" using assms by simp
  have up: "2 * la * F div (2 * la + F) < F"
    using pos 5 by (rule int_div_less)
  have lo: "0 \<le> 2 * la * F div (2 * la + F)" using assms pos by (simp add: pos_imp_zdiv_nonneg_iff)
  have "wrap32 (2 * la * F div (2 * la + F)) = 2 * la * F div (2 * la + F)"
    using up lo by (intro wrap32_id) simp_all
  with 1 2 3 4 up lo pos show ?thesis by (simp add: fp_div_fp_def)
qed

text \<open>The update of recent_cpu does not overflow and decays towards the nice value: the
  result lies between nice and the old value plus nice.\<close>

theorem new_recent_cpu_decay:
  assumes la: "0 \<le> la" "la \<le> 1073725000"
    and r: "0 \<le> r" "r \<le> 2000000000" and n: "\<bar>n\<bar> \<le> 1000"
  shows "\<exists>r'. new_recent_cpu la r n = Some r' \<and> n * F \<le> r' \<and> r' \<le> r + n * F"
proof -
  obtain c where c: "fp_div_fp (fp_mul_int la 2) (fp_add_int (fp_mul_int la 2) 1) = Some c"
      "0 \<le> c" "c < F"
    using decay_coeff [OF la] by blast
  have cr: "0 \<le> c * r" "c * r \<le> F * r" using c r by (simp_all add: mult_right_mono)
  have b1: "c * r div F \<le> r"
    using zdiv_mono1 [OF cr(2), of F] by simp
  have b0: "0 \<le> c * r div F" using cr by simp
  have "wrap64 (c * r) = c * r" using cr r by (intro wrap64_id) simp_all
  then have "fp_mul_fp c r = c * r div F"
    using cr b0 b1 r by (simp add: fp_mul_fp_def sdiv_nonneg wrap32_id)
  moreover have "wrap32 (n * F) = n * F" using n by (intro wrap32_id) simp_all
  moreover have "wrap32 (c * r div F + n * F) = c * r div F + n * F"
    using b0 b1 r n by (intro wrap32_id) simp_all
  ultimately have "new_recent_cpu la r n = Some (c * r div F + n * F)"
    using c by (simp add: new_recent_cpu_def fp_add_int_def)
  then show ?thesis using b0 b1 by simp
qed

theorem new_recent_cpu_decay_witness:
  "\<exists>r'. new_recent_cpu 16384 163840 2 = Some r' \<and> 2 * F \<le> r' \<and> r' \<le> 163840 + 2 * F"
  using new_recent_cpu_decay [of 16384 163840 2] by simp

end
