(* ===== verification/KList.thy ===== *)
theory KList
  imports Prelude
begin

text \<open>
  The doubly linked lists of lib/kernel/list.c, at the level of their prev and next
  pointers.  A heap holds the two links of every list element; addresses are numbers and
  0 is the null pointer.  A list is the pair of its two sentinel elements.  Every
  operation is the source's sequence of pointer assignments, with its ASSERTs: None is a
  failing ASSERT or a loop that does not end.  KListRefine, KListSort and KListMore show
  that each operation computes, on the sequence of elements that a list holds, the function
  on HOL lists that its name promises; the kernel's theories use these functions.
\<close>

section \<open>The store\<close>

type_synonym ptr = nat

abbreviation (input) NULL :: ptr where "NULL \<equiv> 0"

record lheap =
  prv :: "ptr \<Rightarrow> ptr"
  nxt :: "ptr \<Rightarrow> ptr"

record klist =
  head :: ptr
  tail :: ptr

definition set_prv :: "ptr \<Rightarrow> ptr \<Rightarrow> lheap \<Rightarrow> lheap" where
  "set_prv p v h = h\<lparr>prv := (prv h)(p := v)\<rparr>"

definition set_nxt :: "ptr \<Rightarrow> ptr \<Rightarrow> lheap \<Rightarrow> lheap" where
  "set_nxt p v h = h\<lparr>nxt := (nxt h)(p := v)\<rparr>"

section \<open>Element classification and traversal\<close>

definition is_head :: "lheap \<Rightarrow> ptr \<Rightarrow> bool" where
  "is_head h elem \<longleftrightarrow> elem \<noteq> NULL \<and> prv h elem = NULL \<and> nxt h elem \<noteq> NULL"

definition is_interior :: "lheap \<Rightarrow> ptr \<Rightarrow> bool" where
  "is_interior h elem \<longleftrightarrow> elem \<noteq> NULL \<and> prv h elem \<noteq> NULL \<and> nxt h elem \<noteq> NULL"

definition is_tail :: "lheap \<Rightarrow> ptr \<Rightarrow> bool" where
  "is_tail h elem \<longleftrightarrow> elem \<noteq> NULL \<and> prv h elem \<noteq> NULL \<and> nxt h elem = NULL"

text \<open>The list's own address is that of its first member, the head.\<close>

definition list_init :: "klist \<Rightarrow> lheap \<Rightarrow> lheap option" where
  "list_init l h = do {
     ASSERT (head l \<noteq> NULL);
     let h = set_prv (head l) NULL h;
     let h = set_nxt (head l) (tail l) h;
     let h = set_prv (tail l) (head l) h;
     Some (set_nxt (tail l) NULL h)
   }"

definition list_begin :: "klist \<Rightarrow> lheap \<Rightarrow> ptr option" where
  "list_begin l h = do { ASSERT (head l \<noteq> NULL); Some (nxt h (head l)) }"

definition list_next :: "lheap \<Rightarrow> ptr \<Rightarrow> ptr option" where
  "list_next h elem = do { ASSERT (is_head h elem \<or> is_interior h elem); Some (nxt h elem) }"

definition list_end :: "klist \<Rightarrow> ptr option" where
  "list_end l = do { ASSERT (head l \<noteq> NULL); Some (tail l) }"

definition list_rbegin :: "klist \<Rightarrow> lheap \<Rightarrow> ptr option" where
  "list_rbegin l h = do { ASSERT (head l \<noteq> NULL); Some (prv h (tail l)) }"

definition list_prev :: "lheap \<Rightarrow> ptr \<Rightarrow> ptr option" where
  "list_prev h elem = do { ASSERT (is_interior h elem \<or> is_tail h elem); Some (prv h elem) }"

definition list_rend :: "klist \<Rightarrow> ptr option" where
  "list_rend l = do { ASSERT (head l \<noteq> NULL); Some (head l) }"

definition list_head :: "klist \<Rightarrow> ptr option" where
  "list_head l = do { ASSERT (head l \<noteq> NULL); Some (head l) }"

definition list_tail :: "klist \<Rightarrow> ptr option" where
  "list_tail l = do { ASSERT (head l \<noteq> NULL); Some (tail l) }"

section \<open>Insertion and removal\<close>

definition list_insert :: "ptr \<Rightarrow> ptr \<Rightarrow> lheap \<Rightarrow> lheap option" where
  "list_insert before elem h = do {
     ASSERT (is_interior h before \<or> is_tail h before);
     ASSERT (elem \<noteq> NULL);
     let h = set_prv elem (prv h before) h;
     let h = set_nxt elem before h;
     let h = set_nxt (prv h before) elem h;
     Some (set_prv before elem h)
   }"

definition list_splice :: "ptr \<Rightarrow> ptr \<Rightarrow> ptr \<Rightarrow> lheap \<Rightarrow> lheap option" where
  "list_splice before first last' h = do {
     ASSERT (is_interior h before \<or> is_tail h before);
     if first = last' then Some h
     else do {
       last' \<leftarrow> list_prev h last';
       ASSERT (is_interior h first);
       ASSERT (is_interior h last');
       let h = set_nxt (prv h first) (nxt h last') h;
       let h = set_prv (nxt h last') (prv h first) h;
       let h = set_prv first (prv h before) h;
       let h = set_nxt last' before h;
       let h = set_nxt (prv h before) first h;
       Some (set_prv before last' h)
     }
   }"

definition list_push_front :: "klist \<Rightarrow> ptr \<Rightarrow> lheap \<Rightarrow> lheap option" where
  "list_push_front l elem h = do { b \<leftarrow> list_begin l h; list_insert b elem h }"

definition list_push_back :: "klist \<Rightarrow> ptr \<Rightarrow> lheap \<Rightarrow> lheap option" where
  "list_push_back l elem h = do { e \<leftarrow> list_end l; list_insert e elem h }"

definition list_remove :: "ptr \<Rightarrow> lheap \<Rightarrow> (ptr \<times> lheap) option" where
  "list_remove elem h = do {
     ASSERT (is_interior h elem);
     let h = set_nxt (prv h elem) (nxt h elem) h;
     let h = set_prv (nxt h elem) (prv h elem) h;
     Some (nxt h elem, h)
   }"

definition list_empty :: "klist \<Rightarrow> lheap \<Rightarrow> bool option" where
  "list_empty l h = do { b \<leftarrow> list_begin l h; e \<leftarrow> list_end l; Some (b = e) }"

definition list_front :: "klist \<Rightarrow> lheap \<Rightarrow> ptr option" where
  "list_front l h = do { e \<leftarrow> list_empty l h; ASSERT (\<not> e); Some (nxt h (head l)) }"

definition list_back :: "klist \<Rightarrow> lheap \<Rightarrow> ptr option" where
  "list_back l h = do { e \<leftarrow> list_empty l h; ASSERT (\<not> e); Some (prv h (tail l)) }"

definition list_pop_front :: "klist \<Rightarrow> lheap \<Rightarrow> (ptr \<times> lheap) option" where
  "list_pop_front l h = do {
     front \<leftarrow> list_front l h;
     (_, h) \<leftarrow> list_remove front h;
     Some (front, h)
   }"

definition list_pop_back :: "klist \<Rightarrow> lheap \<Rightarrow> (ptr \<times> lheap) option" where
  "list_pop_back l h = do {
     back \<leftarrow> list_back l h;
     (_, h) \<leftarrow> list_remove back h;
     Some (back, h)
   }"

text \<open>
  Loops over a list may not end on a store that holds no well-formed list, so they are
  partial functions: None is also the result of not returning.
\<close>

partial_function (option) list_size_loop :: "klist \<Rightarrow> lheap \<Rightarrow> ptr \<Rightarrow> nat \<Rightarrow> nat option" where
  "list_size_loop l h e cnt =
     (if e = tail l then Some cnt
      else do { e' \<leftarrow> list_next h e; list_size_loop l h e' (cnt + 1) })"

definition list_size :: "klist \<Rightarrow> lheap \<Rightarrow> nat option" where
  "list_size l h = do { e \<leftarrow> list_begin l h; list_size_loop l h e 0 }"

definition swap_links :: "ptr \<Rightarrow> lheap \<Rightarrow> lheap" where
  "swap_links e h = h\<lparr>prv := (prv h)(e := nxt h e), nxt := (nxt h)(e := prv h e)\<rparr>"

partial_function (option) list_reverse_loop :: "klist \<Rightarrow> lheap \<Rightarrow> ptr \<Rightarrow> lheap option" where
  "list_reverse_loop l h e =
     (if e = tail l then Some h
      else if e = NULL then None
      else list_reverse_loop l (swap_links e h) (prv (swap_links e h) e))"

definition list_reverse :: "klist \<Rightarrow> lheap \<Rightarrow> lheap option" where
  "list_reverse l h = do {
     empty \<leftarrow> list_empty l h;
     if empty then Some h
     else do {
       b \<leftarrow> list_begin l h;
       h \<leftarrow> list_reverse_loop l h b;
       let hn = nxt h (head l);
       let tp = prv h (tail l);
       let h = set_prv (tail l) hn (set_nxt (head l) tp h);
       let f = nxt h (head l);
       let g = prv h (tail l);
       ASSERT (f \<noteq> NULL \<and> g \<noteq> NULL);
       let fp = prv h f;
       let gn = nxt h g;
       Some (set_nxt g fp (set_prv f gn h))
     }
   }"

section \<open>Sorting\<close>

text \<open>
  A comparison \<open>less a b aux\<close> is a predicate on elements; what it reads besides the two
  elements (their containing structures, aux) is not changed by the list operations.
\<close>

partial_function (option) is_sorted_loop ::
    "(ptr \<Rightarrow> ptr \<Rightarrow> bool) \<Rightarrow> lheap \<Rightarrow> ptr \<Rightarrow> ptr \<Rightarrow> bool option" where
  "is_sorted_loop lt h a b = do {
     a \<leftarrow> list_next h a;
     if a = b then Some True
     else do {
       p \<leftarrow> list_prev h a;
       if lt a p then Some False else is_sorted_loop lt h a b
     }
   }"

definition is_sorted :: "(ptr \<Rightarrow> ptr \<Rightarrow> bool) \<Rightarrow> lheap \<Rightarrow> ptr \<Rightarrow> ptr \<Rightarrow> bool option" where
  "is_sorted lt h a b = (if a \<noteq> b then is_sorted_loop lt h a b else Some True)"

partial_function (option) find_end_loop ::
    "(ptr \<Rightarrow> ptr \<Rightarrow> bool) \<Rightarrow> lheap \<Rightarrow> ptr \<Rightarrow> ptr \<Rightarrow> ptr option" where
  "find_end_loop lt h a b = do {
     a \<leftarrow> list_next h a;
     if a = b then Some a
     else do {
       p \<leftarrow> list_prev h a;
       if \<not> lt a p then find_end_loop lt h a b else Some a
     }
   }"

definition find_end_of_run :: "(ptr \<Rightarrow> ptr \<Rightarrow> bool) \<Rightarrow> lheap \<Rightarrow> ptr \<Rightarrow> ptr \<Rightarrow> ptr option" where
  "find_end_of_run lt h a b = do {
     ASSERT (a \<noteq> NULL);
     ASSERT (b \<noteq> NULL);
     ASSERT (a \<noteq> b);
     find_end_loop lt h a b
   }"

partial_function (option) inplace_merge_loop ::
    "(ptr \<Rightarrow> ptr \<Rightarrow> bool) \<Rightarrow> lheap \<Rightarrow> ptr \<Rightarrow> ptr \<Rightarrow> ptr \<Rightarrow> lheap option" where
  "inplace_merge_loop lt h a0 a1b0 b1 =
     (if a0 \<noteq> a1b0 \<and> a1b0 \<noteq> b1 then
        if \<not> lt a1b0 a0 then do {
          a0' \<leftarrow> list_next h a0;
          inplace_merge_loop lt h a0' a1b0 b1
        }
        else do {
          a1b0' \<leftarrow> list_next h a1b0;
          p \<leftarrow> list_prev h a1b0';
          h' \<leftarrow> list_splice a0 p a1b0' h;
          inplace_merge_loop lt h' a0 a1b0' b1
        }
      else Some h)"

definition inplace_merge ::
    "(ptr \<Rightarrow> ptr \<Rightarrow> bool) \<Rightarrow> lheap \<Rightarrow> ptr \<Rightarrow> ptr \<Rightarrow> ptr \<Rightarrow> lheap option" where
  "inplace_merge lt h a0 a1b0 b1 = do {
     ASSERT (a0 \<noteq> NULL);
     ASSERT (a1b0 \<noteq> NULL);
     ASSERT (b1 \<noteq> NULL);
     s1 \<leftarrow> is_sorted lt h a0 a1b0;
     ASSERT s1;
     s2 \<leftarrow> is_sorted lt h a1b0 b1;
     ASSERT s2;
     inplace_merge_loop lt h a0 a1b0 b1
   }"

partial_function (option) list_sort_pass ::
    "(ptr \<Rightarrow> ptr \<Rightarrow> bool) \<Rightarrow> klist \<Rightarrow> lheap \<Rightarrow> ptr \<Rightarrow> nat \<Rightarrow> (lheap \<times> nat) option" where
  "list_sort_pass lt l h a0 cnt =
     (if a0 = tail l then Some (h, cnt)
      else do {
        a1b0 \<leftarrow> find_end_of_run lt h a0 (tail l);
        if a1b0 = tail l then Some (h, cnt + 1)
        else do {
          b1 \<leftarrow> find_end_of_run lt h a1b0 (tail l);
          h' \<leftarrow> inplace_merge lt h a0 a1b0 b1;
          list_sort_pass lt l h' b1 (cnt + 1)
        }
      })"

partial_function (option) list_sort_loop ::
    "(ptr \<Rightarrow> ptr \<Rightarrow> bool) \<Rightarrow> klist \<Rightarrow> lheap \<Rightarrow> lheap option" where
  "list_sort_loop lt l h = do {
     a0 \<leftarrow> list_begin l h;
     (h', output_run_cnt) \<leftarrow> list_sort_pass lt l h a0 0;
     if output_run_cnt > 1 then list_sort_loop lt l h' else Some h'
   }"

definition list_sort :: "(ptr \<Rightarrow> ptr \<Rightarrow> bool) \<Rightarrow> klist \<Rightarrow> lheap \<Rightarrow> lheap option" where
  "list_sort lt l h = do {
     ASSERT (head l \<noteq> NULL);
     h \<leftarrow> list_sort_loop lt l h;
     b \<leftarrow> list_begin l h;
     s \<leftarrow> is_sorted lt h b (tail l);
     ASSERT s;
     Some h
   }"

partial_function (option) insert_ordered_loop ::
    "(ptr \<Rightarrow> ptr \<Rightarrow> bool) \<Rightarrow> klist \<Rightarrow> ptr \<Rightarrow> lheap \<Rightarrow> ptr \<Rightarrow> ptr option" where
  "insert_ordered_loop lt l elem h e =
     (if e = tail l then Some e
      else if lt elem e then Some e
      else do { e' \<leftarrow> list_next h e; insert_ordered_loop lt l elem h e' })"

definition list_insert_ordered ::
    "(ptr \<Rightarrow> ptr \<Rightarrow> bool) \<Rightarrow> klist \<Rightarrow> ptr \<Rightarrow> lheap \<Rightarrow> lheap option" where
  "list_insert_ordered lt l elem h = do {
     ASSERT (head l \<noteq> NULL);
     ASSERT (elem \<noteq> NULL);
     b \<leftarrow> list_begin l h;
     e \<leftarrow> insert_ordered_loop lt l elem h b;
     list_insert e elem h
   }"

partial_function (option) list_unique_loop ::
    "(ptr \<Rightarrow> ptr \<Rightarrow> bool) \<Rightarrow> klist \<Rightarrow> klist option \<Rightarrow> lheap \<Rightarrow> ptr \<Rightarrow> lheap option" where
  "list_unique_loop lt l duplicates h elem = do {
     next \<leftarrow> list_next h elem;
     if next = tail l then Some h
     else if \<not> lt elem next \<and> \<not> lt next elem then do {
       (_, h') \<leftarrow> list_remove next h;
       h'' \<leftarrow> (case duplicates of None \<Rightarrow> Some h' | Some d \<Rightarrow> list_push_back d next h');
       list_unique_loop lt l duplicates h'' elem
     }
     else list_unique_loop lt l duplicates h next
   }"

definition list_unique ::
    "(ptr \<Rightarrow> ptr \<Rightarrow> bool) \<Rightarrow> klist \<Rightarrow> klist option \<Rightarrow> lheap \<Rightarrow> lheap option" where
  "list_unique lt l duplicates h = do {
     ASSERT (head l \<noteq> NULL);
     empty \<leftarrow> list_empty l h;
     if empty then Some h
     else do { elem \<leftarrow> list_begin l h; list_unique_loop lt l duplicates h elem }
   }"

partial_function (option) list_max_loop ::
    "(ptr \<Rightarrow> ptr \<Rightarrow> bool) \<Rightarrow> klist \<Rightarrow> lheap \<Rightarrow> ptr \<Rightarrow> ptr \<Rightarrow> ptr option" where
  "list_max_loop lt l h mx e =
     (if e = tail l then Some mx
      else do {
        e' \<leftarrow> list_next h e;
        list_max_loop lt l h (if lt mx e then e else mx) e'
      })"

definition list_max :: "(ptr \<Rightarrow> ptr \<Rightarrow> bool) \<Rightarrow> klist \<Rightarrow> lheap \<Rightarrow> ptr option" where
  "list_max lt l h = do {
     mx \<leftarrow> list_begin l h;
     if mx \<noteq> tail l then do { e \<leftarrow> list_next h mx; list_max_loop lt l h mx e }
     else Some mx
   }"

partial_function (option) list_min_loop ::
    "(ptr \<Rightarrow> ptr \<Rightarrow> bool) \<Rightarrow> klist \<Rightarrow> lheap \<Rightarrow> ptr \<Rightarrow> ptr \<Rightarrow> ptr option" where
  "list_min_loop lt l h mn e =
     (if e = tail l then Some mn
      else do {
        e' \<leftarrow> list_next h e;
        list_min_loop lt l h (if lt e mn then e else mn) e'
      })"

definition list_min :: "(ptr \<Rightarrow> ptr \<Rightarrow> bool) \<Rightarrow> klist \<Rightarrow> lheap \<Rightarrow> ptr option" where
  "list_min lt l h = do {
     mn \<leftarrow> list_begin l h;
     if mn \<noteq> tail l then do { e \<leftarrow> list_next h mn; list_min_loop lt l h mn e }
     else Some mn
   }"

end
