(* ===== verification/KListRefine.thy ===== *)
theory KListRefine
  imports KList
begin

text \<open>
  The refinement relation \<open>dll\<close> between a store and a HOL list, and the lemmas that each
  pointer operation of KList computes the function on HOL lists it stands for.  Every
  lemma has a frame part: which links the operation leaves alone.
\<close>

section \<open>Chains of linked elements\<close>

fun chain :: "lheap \<Rightarrow> ptr list \<Rightarrow> bool" where
  "chain h [] \<longleftrightarrow> True"
| "chain h (a # as) \<longleftrightarrow> (as = [] \<or> (nxt h a = hd as \<and> prv h (hd as) = a)) \<and> chain h as"

lemma chain_append:
  "chain h (xs @ ys) \<longleftrightarrow> chain h xs \<and> chain h ys \<and>
     (xs \<noteq> [] \<longrightarrow> ys \<noteq> [] \<longrightarrow> nxt h (last xs) = hd ys \<and> prv h (hd ys) = last xs)"
  by (induction xs) auto

lemma chain_cong:
  assumes "\<And>p. p \<in> set (butlast xs) \<Longrightarrow> nxt h' p = nxt h p"
    and "\<And>p. p \<in> set (tl xs) \<Longrightarrow> prv h' p = prv h p"
  shows "chain h' xs = chain h xs"
  using assms
proof (induction xs)
  case Nil
  then show ?case by simp
next
  case (Cons a as)
  have IH: "chain h' as = chain h as"
  proof (rule Cons.IH)
    show "nxt h' p = nxt h p" if "p \<in> set (butlast as)" for p
      using that Cons.prems(1) [of p] by (cases as) auto
    show "prv h' p = prv h p" if "p \<in> set (tl as)" for p
      using that Cons.prems(2) [of p] by (cases as) auto
  qed
  show ?case
    using IH Cons.prems(1) [of a] Cons.prems(2) [of "hd as"] by (cases as) auto
qed

text \<open>
  In a chain without repetitions the next link of the last element and the prev link of
  the first one are free.
\<close>

lemma chain_frame:
  assumes "chain h xs" "distinct xs"
    and n: "\<And>p. p \<in> set xs \<Longrightarrow> p \<noteq> last xs \<Longrightarrow> nxt h' p = nxt h p"
    and q: "\<And>p. p \<in> set xs \<Longrightarrow> p \<noteq> hd xs \<Longrightarrow> prv h' p = prv h p"
  shows "chain h' xs"
proof (cases "xs = []")
  case False
  have "last xs \<notin> set (butlast xs)"
    using assms(2) False by (metis append_butlast_last_id distinct_append not_distinct_conv_prefix)
  moreover have "hd xs \<notin> set (tl xs)"
    using assms(2) False by (cases xs) auto
  ultimately have "chain h' xs = chain h xs"
    using n q by (intro chain_cong) (metis in_set_butlastD, metis list.set_sel(2) list.sel(2))
  then show ?thesis using assms(1) by simp
qed simp

text \<open>A full list: both sentinels and the elements between them.\<close>

definition full :: "klist \<Rightarrow> ptr list \<Rightarrow> ptr list" where
  "full l xs = head l # xs @ [tail l]"

definition dll :: "lheap \<Rightarrow> klist \<Rightarrow> ptr list \<Rightarrow> bool" where
  "dll h l xs \<longleftrightarrow> chain h (full l xs) \<and> distinct (full l xs) \<and> NULL \<notin> set (full l xs) \<and>
     prv h (head l) = NULL \<and> nxt h (tail l) = NULL"

lemma full_not_Nil [simp]: "full l xs \<noteq> []" "hd (full l xs) = head l" "last (full l xs) = tail l"
  by (simp_all add: full_def)

lemma dllD:
  assumes "dll h l xs"
  shows "head l \<noteq> NULL" "tail l \<noteq> NULL" "head l \<noteq> tail l" "distinct xs" "NULL \<notin> set xs"
    "head l \<notin> set xs" "tail l \<notin> set xs" "prv h (head l) = NULL" "nxt h (tail l) = NULL"
  using assms by (auto simp: dll_def full_def)

text \<open>Any store that agrees on the list's own links holds the same list.\<close>

lemma dll_frame:
  assumes "dll h l xs" "\<And>p. p \<in> set (full l xs) \<Longrightarrow> nxt h' p = nxt h p \<and> prv h' p = prv h p"
  shows "dll h' l xs"
proof -
  have "chain h' (full l xs) = chain h (full l xs)"
    using assms(2) by (intro chain_cong) (auto dest: in_set_butlastD list.set_sel(2) [rotated])
  then show ?thesis using assms by (auto simp: dll_def full_def)
qed

section \<open>Reading\<close>

lemma dll_at:
  assumes "dll h l (xs @ ys)"
  shows "nxt h (last (head l # xs)) = hd (ys @ [tail l])"
    and "prv h (hd (ys @ [tail l])) = last (head l # xs)"
proof -
  have "full l (xs @ ys) = (head l # xs) @ (ys @ [tail l])" by (simp add: full_def)
  with assms have "chain h ((head l # xs) @ (ys @ [tail l]))" by (simp add: dll_def)
  then show "nxt h (last (head l # xs)) = hd (ys @ [tail l])"
    and "prv h (hd (ys @ [tail l])) = last (head l # xs)"
    unfolding chain_append by auto
qed

lemma dll_elem:
  assumes "dll h l (xs @ x # ys)"
  shows "nxt h x = hd (ys @ [tail l])" "prv h x = last (head l # xs)" "is_interior h x"
    "prv h (hd (ys @ [tail l])) = x"
proof -
  show 1: "nxt h x = hd (ys @ [tail l])" using dll_at(1) [of h l "xs @ [x]" ys] assms by simp
  show 2: "prv h x = last (head l # xs)" using dll_at(2) [of h l xs "x # ys"] assms by simp
  show "is_interior h x"
    unfolding is_interior_def 1 2 using dllD [OF assms]
    by (cases ys; cases xs rule: rev_cases) auto
  show "prv h (hd (ys @ [tail l])) = x"
    using dll_at(2) [of h l "xs @ [x]" ys] assms by simp
qed

lemma dll_tail: "dll h l xs \<Longrightarrow> prv h (tail l) = last (head l # xs)"
  using dll_at(2) [of h l xs "[]"] by simp

lemma dll_is_tail: "dll h l xs \<Longrightarrow> is_tail h (tail l)"
  unfolding is_tail_def using dllD [of h l xs] dll_tail [of h l xs]
  by (cases xs rule: rev_cases) auto

lemma dll_is_head: "dll h l xs \<Longrightarrow> is_head h (head l)"
  unfolding is_head_def using dllD [of h l xs] dll_at(1) [of h l "[]" xs]
  by (cases xs) auto

lemma list_begin_dll: "dll h l xs \<Longrightarrow> list_begin l h = Some (hd (xs @ [tail l]))"
  using dll_at(1) [of h l "[]" xs] dllD [of h l xs] by (simp add: list_begin_def)

lemma list_end_dll: "dll h l xs \<Longrightarrow> list_end l = Some (tail l)"
  using dllD [of h l xs] by (simp add: list_end_def)

lemma list_rbegin_dll: "dll h l xs \<Longrightarrow> list_rbegin l h = Some (last (head l # xs))"
  using dll_tail [of h l xs] dllD [of h l xs] by (simp add: list_rbegin_def)

lemma list_next_dll: "dll h l (xs @ x # ys) \<Longrightarrow> list_next h x = Some (hd (ys @ [tail l]))"
  using dll_elem [of h l xs x ys] by (simp add: list_next_def)

text \<open>The element before a position: the next position's prev link.\<close>

lemma list_prev_dll:
  assumes "dll h l (xs @ x # ys)"
  shows "list_prev h (hd (ys @ [tail l])) = Some x"
proof (cases ys)
  case Nil
  with assms dll_elem [of h l xs x ys] dll_is_tail [OF assms] show ?thesis
    by (simp add: list_prev_def)
next
  case (Cons y zs)
  with assms dll_elem [of h l xs x ys] dll_elem(3) [of h l "xs @ [x]" y zs] show ?thesis
    by (simp add: list_prev_def)
qed

lemma list_empty_dll: "dll h l xs \<Longrightarrow> list_empty l h = Some (xs = [])"
  using dllD [of h l xs] by (cases xs) (auto simp: list_empty_def list_begin_dll list_end_dll)

lemma list_size_loop_dll:
  "dll h l (xs @ ys) \<Longrightarrow> list_size_loop l h (hd (ys @ [tail l])) n = Some (n + length ys)"
proof (induction ys arbitrary: xs n)
  case Nil
  then show ?case by (simp add: list_size_loop.simps)
next
  case (Cons y ys)
  have "y \<noteq> tail l" using dllD [OF Cons.prems] by auto
  moreover have "list_size_loop l h (hd (ys @ [tail l])) (n + 1) = Some (n + 1 + length ys)"
    using Cons.prems by (intro Cons.IH [of "xs @ [y]"]) simp
  ultimately show ?case
    using list_next_dll [OF Cons.prems] by (subst list_size_loop.simps) simp
qed

lemma list_size_dll: "dll h l xs \<Longrightarrow> list_size l h = Some (length xs)"
  using list_size_loop_dll [of h l "[]" xs 0] by (simp add: list_size_def list_begin_dll)

lemma list_front_dll: "dll h l (x # xs) \<Longrightarrow> list_front l h = Some x"
  using dll_at(1) [of h l "[]" "x # xs"] by (simp add: list_front_def list_empty_dll)

lemma list_back_dll: "dll h l (xs @ [x]) \<Longrightarrow> list_back l h = Some x"
  using dll_tail [of h l "xs @ [x]"] by (simp add: list_back_def list_empty_dll)

section \<open>Initialisation, insertion, removal\<close>

lemma list_init_dll:
  assumes "head l \<noteq> NULL" "tail l \<noteq> NULL" "head l \<noteq> tail l"
  shows "\<exists>h'. list_init l h = Some h' \<and> dll h' l []"
  using assms by (auto simp: list_init_def dll_def full_def set_prv_def set_nxt_def)

text \<open>Inserting between the last element of \<open>A\<close> and the first of \<open>b # B\<close>.\<close>

lemma list_insert_chain:
  assumes ch: "chain h (A @ b # B)" and di: "distinct (A @ b # B)" and A: "A \<noteq> []"
    and nn: "NULL \<notin> set (A @ b # B)" and e: "e \<noteq> NULL" "e \<notin> set (A @ b # B)"
  shows "\<exists>h'. list_insert b e h = Some h' \<and> chain h' (A @ e # b # B) \<and>
    (\<forall>p. p \<noteq> e \<longrightarrow> p \<noteq> last A \<longrightarrow> nxt h' p = nxt h p) \<and>
    (\<forall>p. p \<noteq> e \<longrightarrow> p \<noteq> b \<longrightarrow> prv h' p = prv h p)"
proof -
  have pb: "prv h b = last A" and cA: "chain h A" and cB: "chain h (b # B)"
    using ch A unfolding chain_append by auto
  have lA: "last A \<in> set A" using A by simp
  have l0: "last A \<noteq> NULL" using lA nn by (metis Un_iff set_append)
  have pre: "is_interior h b \<or> is_tail h b"
    using pb l0 nn by (auto simp: is_interior_def is_tail_def)
  let ?h = "set_prv b e (set_nxt (last A) e (set_nxt e b (set_prv e (last A) h)))"
  have ins: "list_insert b e h = Some ?h"
    using pre e pb di A lA by (auto simp: list_insert_def set_nxt_def set_prv_def Let_def)
  have f1: "\<forall>p. p \<noteq> e \<longrightarrow> p \<noteq> last A \<longrightarrow> nxt ?h p = nxt h p"
    and f2: "\<forall>p. p \<noteq> e \<longrightarrow> p \<noteq> b \<longrightarrow> prv ?h p = prv h p"
    by (simp_all add: set_nxt_def set_prv_def)
  have "chain ?h A"
    using cA di e by (rule_tac chain_frame [of h]) (auto simp: set_nxt_def set_prv_def)
  moreover have "chain ?h (b # B)"
    using cB di e lA by (rule_tac chain_frame [of h]) (auto simp: set_nxt_def set_prv_def)
  moreover have "nxt ?h (last A) = e" "nxt ?h e = b" "prv ?h e = last A" "prv ?h b = e"
    using e lA di by (auto simp: set_nxt_def set_prv_def)
  ultimately have "chain ?h (A @ e # b # B)"
    using A by (simp add: chain_append)
  with ins f1 f2 show ?thesis by blast
qed

text \<open>Removing \<open>e\<close> from between the last element of \<open>A\<close> and the first of \<open>b # B\<close>.\<close>

lemma list_remove_chain:
  assumes ch: "chain h (A @ e # b # B)" and di: "distinct (A @ e # b # B)" and A: "A \<noteq> []"
    and nn: "NULL \<notin> set (A @ e # b # B)"
  shows "\<exists>h'. list_remove e h = Some (b, h') \<and> chain h' (A @ b # B) \<and>
    (\<forall>p. p \<noteq> last A \<longrightarrow> nxt h' p = nxt h p) \<and> (\<forall>p. p \<noteq> b \<longrightarrow> prv h' p = prv h p)"
proof -
  have pe: "prv h e = last A" and ne: "nxt h e = b" and cA: "chain h A" and cB: "chain h (b # B)"
    using ch A unfolding chain_append by auto
  have lA: "last A \<in> set A" using A by simp
  have l0: "last A \<noteq> NULL" using lA nn by (metis Un_iff set_append)
  have pre: "is_interior h e" using pe ne l0 nn by (auto simp: is_interior_def)
  let ?h = "set_prv b (last A) (set_nxt (last A) b h)"
  have rem: "list_remove e h = Some (b, ?h)"
    using pre pe ne di lA by (auto simp: list_remove_def set_nxt_def set_prv_def Let_def)
  have f1: "\<forall>p. p \<noteq> last A \<longrightarrow> nxt ?h p = nxt h p" and f2: "\<forall>p. p \<noteq> b \<longrightarrow> prv ?h p = prv h p"
    by (simp_all add: set_nxt_def set_prv_def)
  have "chain ?h A"
    using cA di by (rule_tac chain_frame [of h]) (auto simp: set_nxt_def set_prv_def)
  moreover have "chain ?h (b # B)"
    using cB di lA by (rule_tac chain_frame [of h]) (auto simp: set_nxt_def set_prv_def)
  moreover have "nxt ?h (last A) = b" "prv ?h b = last A"
    by (auto simp: set_nxt_def set_prv_def)
  ultimately have "chain ?h (A @ b # B)" using A by (simp add: chain_append)
  with rem f1 f2 show ?thesis by blast
qed

lemma full_split: "full l (xs @ ys) = (head l # xs) @ hd (ys @ [tail l]) # tl (ys @ [tail l])"
  by (cases ys) (simp_all add: full_def)

definition pos :: "klist \<Rightarrow> ptr list \<Rightarrow> ptr" where
  "pos l ys = hd (ys @ [tail l])"

lemma pos_simps [simp]: "pos l [] = tail l" "pos l (y # ys) = y"
  by (simp_all add: pos_def)

lemma list_insert_dll:
  assumes d: "dll h l (xs @ ys)" and e: "e \<noteq> NULL" "e \<notin> set (full l (xs @ ys))"
  shows "\<exists>h'. list_insert (pos l ys) e h = Some h' \<and> dll h' l (xs @ e # ys) \<and>
    (\<forall>p. p \<notin> set (e # full l (xs @ ys)) \<longrightarrow> nxt h' p = nxt h p \<and> prv h' p = prv h p)"
proof -
  let ?A = "head l # xs" and ?b = "pos l ys" and ?B = "tl (ys @ [tail l])"
  have f: "full l (xs @ ys) = ?A @ ?b # ?B" by (simp add: full_split pos_def)
  have f': "full l (xs @ e # ys) = ?A @ e # ?b # ?B" by (cases ys) (simp_all add: full_def)
  obtain h' where h': "list_insert ?b e h = Some h'" "chain h' (?A @ e # ?b # ?B)"
    and n: "\<And>p. p \<noteq> e \<Longrightarrow> p \<noteq> last ?A \<Longrightarrow> nxt h' p = nxt h p"
    and p: "\<And>p. p \<noteq> e \<Longrightarrow> p \<noteq> ?b \<Longrightarrow> prv h' p = prv h p"
    using list_insert_chain [of h ?A ?b ?B e] d e unfolding dll_def f by auto
  have t: "tail l \<noteq> last ?A" "tail l \<noteq> e" "head l \<noteq> ?b" "head l \<noteq> e"
    using d e dllD [OF d] by (auto simp: full_def pos_def hd_append)
  have "dll h' l (xs @ e # ys)"
    unfolding dll_def f' using h'(2) d e n [of "tail l"] p [of "head l"] t
    by (auto simp: dll_def f)
  moreover have "last ?A \<in> set (full l (xs @ ys))" "?b \<in> set (full l (xs @ ys))"
    by (auto simp: f)
  ultimately show ?thesis using h'(1) n p by (intro exI [of _ h']) (metis list.set_intros)
qed

lemma list_remove_dll:
  assumes d: "dll h l (xs @ e # ys)"
  shows "\<exists>h'. list_remove e h = Some (pos l ys, h') \<and> dll h' l (xs @ ys) \<and>
    (\<forall>p. p \<notin> set (full l (xs @ ys)) \<longrightarrow> nxt h' p = nxt h p \<and> prv h' p = prv h p)"
proof -
  let ?A = "head l # xs" and ?b = "pos l ys" and ?B = "tl (ys @ [tail l])"
  have f: "full l (xs @ ys) = ?A @ ?b # ?B" by (simp add: full_split pos_def)
  have f': "full l (xs @ e # ys) = ?A @ e # ?b # ?B" by (cases ys) (simp_all add: full_def)
  obtain h' where h': "list_remove e h = Some (?b, h')" "chain h' (?A @ ?b # ?B)"
    and n: "\<And>p. p \<noteq> last ?A \<Longrightarrow> nxt h' p = nxt h p"
    and p: "\<And>p. p \<noteq> ?b \<Longrightarrow> prv h' p = prv h p"
    using list_remove_chain [of h ?A e ?b ?B] d unfolding dll_def f' by auto
  have t: "tail l \<noteq> last ?A" "head l \<noteq> ?b"
    using dllD [OF d] by (auto simp: pos_def hd_append)
  have "dll h' l (xs @ ys)"
    unfolding dll_def f using h'(2) d n [of "tail l"] p [of "head l"] t
    by (auto simp: dll_def f')
  moreover have "last ?A \<in> set (full l (xs @ ys))" "?b \<in> set (full l (xs @ ys))"
    by (auto simp: f)
  ultimately show ?thesis using h'(1) n p by (intro exI [of _ h']) metis
qed

lemma list_push_back_dll:
  assumes "dll h l xs" "e \<noteq> NULL" "e \<notin> set (full l xs)"
  shows "\<exists>h'. list_push_back l e h = Some h' \<and> dll h' l (xs @ [e]) \<and>
    (\<forall>p. p \<notin> set (e # full l xs) \<longrightarrow> nxt h' p = nxt h p \<and> prv h' p = prv h p)"
  using list_insert_dll [of h l xs "[]" e] assms by (simp add: list_push_back_def list_end_dll)

lemma list_push_front_dll:
  assumes "dll h l xs" "e \<noteq> NULL" "e \<notin> set (full l xs)"
  shows "\<exists>h'. list_push_front l e h = Some h' \<and> dll h' l (e # xs) \<and>
    (\<forall>p. p \<notin> set (e # full l xs) \<longrightarrow> nxt h' p = nxt h p \<and> prv h' p = prv h p)"
  using list_insert_dll [of h l "[]" xs e] assms
  by (simp add: list_push_front_def list_begin_dll pos_def)

lemma list_pop_front_dll:
  assumes "dll h l (x # xs)"
  shows "\<exists>h'. list_pop_front l h = Some (x, h') \<and> dll h' l xs \<and>
    (\<forall>p. p \<notin> set (full l xs) \<longrightarrow> nxt h' p = nxt h p \<and> prv h' p = prv h p)"
  using list_remove_dll [of h l "[]" x xs] assms
  by (auto simp: list_pop_front_def list_front_dll)

lemma list_pop_back_dll:
  assumes "dll h l (xs @ [x])"
  shows "\<exists>h'. list_pop_back l h = Some (x, h') \<and> dll h' l xs \<and>
    (\<forall>p. p \<notin> set (full l xs) \<longrightarrow> nxt h' p = nxt h p \<and> prv h' p = prv h p)"
  using list_remove_dll [of h l xs x "[]"] assms
  by (auto simp: list_pop_back_def list_back_dll)

lemma list_pop_empty: "dll h l [] \<Longrightarrow> list_pop_front l h = None \<and> list_pop_back l h = None"
  by (simp add: list_pop_front_def list_pop_back_def list_front_def list_back_def list_empty_dll)

section \<open>Ordered insertion, maximum and minimum\<close>

fun insert_ordered :: "('a \<Rightarrow> 'a \<Rightarrow> bool) \<Rightarrow> 'a \<Rightarrow> 'a list \<Rightarrow> 'a list" where
  "insert_ordered lt x [] = [x]"
| "insert_ordered lt x (y # ys) = (if lt x y then x # y # ys else y # insert_ordered lt x ys)"

lemma insert_ordered_split:
  "insert_ordered lt x ys = takeWhile (\<lambda>y. \<not> lt x y) ys @ x # dropWhile (\<lambda>y. \<not> lt x y) ys"
  by (induction ys) auto

lemma set_insert_ordered [simp]: "set (insert_ordered lt x ys) = insert x (set ys)"
  by (induction ys) auto

lemma distinct_insert_ordered [simp]:
  "distinct (insert_ordered lt x ys) \<longleftrightarrow> x \<notin> set ys \<and> distinct ys"
  by (induction ys) auto

lemma insert_ordered_loop_dll:
  "dll h l (xs @ ys) \<Longrightarrow>
   insert_ordered_loop lt l e h (pos l ys) = Some (pos l (dropWhile (\<lambda>y. \<not> lt e y) ys))"
proof (induction ys arbitrary: xs)
  case Nil
  then show ?case by (simp add: insert_ordered_loop.simps)
next
  case (Cons y ys)
  have "y \<noteq> tail l" using dllD [OF Cons.prems] by auto
  moreover have "insert_ordered_loop lt l e h (pos l ys) = Some (pos l (dropWhile (\<lambda>y. \<not> lt e y) ys))"
    using Cons.prems by (intro Cons.IH [of "xs @ [y]"]) simp
  ultimately show ?case
    using list_next_dll [OF Cons.prems] by (subst insert_ordered_loop.simps) (simp add: pos_def)
qed

lemma list_insert_ordered_dll:
  assumes d: "dll h l xs" and e: "e \<noteq> NULL" "e \<notin> set (full l xs)"
  shows "\<exists>h'. list_insert_ordered lt l e h = Some h' \<and> dll h' l (insert_ordered lt e xs) \<and>
    (\<forall>p. p \<notin> set (e # full l xs) \<longrightarrow> nxt h' p = nxt h p \<and> prv h' p = prv h p)"
proof -
  let ?T = "takeWhile (\<lambda>y. \<not> lt e y) xs" and ?D = "dropWhile (\<lambda>y. \<not> lt e y) xs"
  have "insert_ordered_loop lt l e h (pos l xs) = Some (pos l ?D)"
    using insert_ordered_loop_dll [of h l "[]" xs] d by simp
  moreover have "\<exists>h'. list_insert (pos l ?D) e h = Some h' \<and> dll h' l (?T @ e # ?D) \<and>
      (\<forall>p. p \<notin> set (e # full l (?T @ ?D)) \<longrightarrow> nxt h' p = nxt h p \<and> prv h' p = prv h p)"
    using d e by (intro list_insert_dll) simp_all
  ultimately show ?thesis
    using e d dllD(1) [OF d]
    by (simp add: list_insert_ordered_def list_begin_dll insert_ordered_split
        flip: pos_def)
qed

fun max_by :: "('a \<Rightarrow> 'a \<Rightarrow> bool) \<Rightarrow> 'a \<Rightarrow> 'a list \<Rightarrow> 'a" where
  "max_by lt m [] = m"
| "max_by lt m (y # ys) = max_by lt (if lt m y then y else m) ys"

fun min_by :: "('a \<Rightarrow> 'a \<Rightarrow> bool) \<Rightarrow> 'a \<Rightarrow> 'a list \<Rightarrow> 'a" where
  "min_by lt m [] = m"
| "min_by lt m (y # ys) = min_by lt (if lt y m then y else m) ys"

lemma list_max_loop_dll:
  "dll h l (xs @ ys) \<Longrightarrow> list_max_loop lt l h m (pos l ys) = Some (max_by lt m ys)"
proof (induction ys arbitrary: xs m)
  case Nil
  then show ?case by (simp add: list_max_loop.simps)
next
  case (Cons y ys)
  have "y \<noteq> tail l" using dllD [OF Cons.prems] by auto
  moreover have "list_max_loop lt l h m' (pos l ys) = Some (max_by lt m' ys)" for m'
    using Cons.prems by (intro Cons.IH [of "xs @ [y]"]) simp
  ultimately show ?case
    using list_next_dll [OF Cons.prems] by (subst list_max_loop.simps) (simp add: pos_def)
qed

lemma list_min_loop_dll:
  "dll h l (xs @ ys) \<Longrightarrow> list_min_loop lt l h m (pos l ys) = Some (min_by lt m ys)"
proof (induction ys arbitrary: xs m)
  case Nil
  then show ?case by (simp add: list_min_loop.simps)
next
  case (Cons y ys)
  have "y \<noteq> tail l" using dllD [OF Cons.prems] by auto
  moreover have "list_min_loop lt l h m' (pos l ys) = Some (min_by lt m' ys)" for m'
    using Cons.prems by (intro Cons.IH [of "xs @ [y]"]) simp
  ultimately show ?case
    using list_next_dll [OF Cons.prems] by (subst list_min_loop.simps) (simp add: pos_def)
qed

lemma list_max_dll:
  "dll h l (x # xs) \<Longrightarrow> list_max lt l h = Some (max_by lt x xs)"
  "dll h l [] \<Longrightarrow> list_max lt l h = Some (tail l)"
  using list_max_loop_dll [of h l "[x]" xs] dllD [of h l "x # xs"] list_next_dll [of h l "[]" x xs]
  by (auto simp: list_max_def list_begin_dll pos_def)

lemma list_min_dll:
  "dll h l (x # xs) \<Longrightarrow> list_min lt l h = Some (min_by lt x xs)"
  "dll h l [] \<Longrightarrow> list_min lt l h = Some (tail l)"
  using list_min_loop_dll [of h l "[x]" xs] dllD [of h l "x # xs"] list_next_dll [of h l "[]" x xs]
  by (auto simp: list_min_def list_begin_dll pos_def)

end
