(* ===== verification/KListSort.thy ===== *)
theory KListSort
  imports KListRefine "HOL-Library.Multiset"
begin

text \<open>
  The natural merge sort of lib/kernel/list.c: splicing, run detection, in-place merging
  and the sorting loop, shown to compute a stable sort.  The contract of a comparison
  function (list.h's list_less_func: a strict weak order) is the locale \<open>list_less\<close>;
  whoever sorts or inserts in order interprets it for its own comparison.
\<close>

section \<open>Splicing\<close>

lemma list_splice_heap:
  assumes "b \<noteq> NULL" "prv h b \<noteq> NULL" "f \<noteq> r" "list_prev h r = Some la"
    "is_interior h f" "is_interior h la" "b \<noteq> nxt h la"
  shows "list_splice b f r h =
    Some (set_prv b la (set_nxt (prv h b) f (set_nxt la b (set_prv f (prv h b)
      (set_prv (nxt h la) (prv h f) (set_nxt (prv h f) (nxt h la) h))))))"
proof -
  have "is_interior h b \<or> is_tail h b" using assms(1,2) by (auto simp: is_interior_def is_tail_def)
  moreover have "prv (set_prv f (prv h b) h') b = prv h' b" if "prv h' b = prv h b" for h'
    using that by (simp add: set_prv_def)
  ultimately show ?thesis
    using assms by (simp add: list_splice_def Let_def set_nxt_def set_prv_def)
qed

text \<open>Moving the range \<open>Fs\<close> to an earlier place of the same list.\<close>

lemma list_splice_chain:
  assumes ch: "chain h (A @ (b # W) @ Fs @ r # B)" and di: "distinct (A @ (b # W) @ Fs @ r # B)"
    and ne: "A \<noteq> []" "Fs \<noteq> []" and nn: "NULL \<notin> set (A @ (b # W) @ Fs @ r # B)"
    and pr: "list_prev h r = Some (last Fs)"
  shows "\<exists>h'. list_splice b (hd Fs) r h = Some h' \<and> chain h' (A @ Fs @ (b # W) @ r # B) \<and>
    (\<forall>p. p \<notin> set (A @ (b # W) @ Fs) \<longrightarrow> nxt h' p = nxt h p) \<and>
    (\<forall>p. p \<notin> set ((b # W) @ Fs @ [r]) \<longrightarrow> prv h' p = prv h p)"
proof -
  let ?q = "last (b # W)" and ?la = "last Fs" and ?f = "hd Fs" and ?a = "last A"
  have c: "chain h A" "chain h (b # W)" "chain h Fs" "chain h (r # B)"
    and l: "prv h b = ?a" "nxt h ?q = ?f" "prv h ?f = ?q" "nxt h ?la = r" "prv h r = ?la"
    using ch ne unfolding chain_append by auto
  have s: "?a \<in> set A" "?q \<in> set (b # W)" "?la \<in> set Fs" "?f \<in> set Fs"
    using ne last_in_set [of "b # W"] by auto
  have z: "?a \<noteq> NULL" "?q \<noteq> NULL" "?la \<noteq> NULL" "?f \<noteq> NULL" "r \<noteq> NULL" "b \<noteq> NULL"
    using s nn by (metis Un_iff list.set_intros(1) set_append)+
  have if': "is_interior h ?f"
  proof (cases "tl Fs = []")
    case True
    then have "?f = ?la" using ne by (cases Fs) auto
    with l z show ?thesis by (simp add: is_interior_def)
  next
    case False
    have "Fs = ?f # tl Fs" using ne by simp
    then have "nxt h ?f = hd (tl Fs)"
      using c(3) False by (metis chain.simps(2))
    moreover have "hd (tl Fs) \<in> set Fs" using False by (metis hd_in_set list.set_sel(2) ne(2))
    ultimately show ?thesis using l z nn unfolding is_interior_def
      by (metis Un_iff set_append)
  qed
  have ila: "is_interior h ?la"
  proof (cases "butlast Fs = []")
    case True
    then have "?la = ?f" using ne by (cases Fs rule: rev_cases) auto
    with if' show ?thesis by simp
  next
    case False
    have "Fs = butlast Fs @ [?la]" using ne by simp
    then have "prv h ?la = last (butlast Fs)"
      using c(3) chain_append [of h "butlast Fs" "[?la]"] False by simp
    moreover have "last (butlast Fs) \<in> set Fs" using False by (meson in_set_butlastD last_in_set)
    ultimately show ?thesis using l z nn unfolding is_interior_def
      by (metis Un_iff set_append)
  qed
  define h' where "h' = set_prv b ?la (set_nxt ?a ?f (set_nxt ?la b (set_prv ?f ?a
      (set_prv r ?q (set_nxt ?q r h)))))"
  have "?f \<noteq> r" "b \<noteq> r" using s di by auto
  then have sp: "list_splice b ?f r h = Some h'"
    using list_splice_heap [of b h ?f r ?la] z pr if' ila l by (simp add: h'_def)
  have N: "nxt h' = (nxt h)(?q := r, ?la := b, ?a := ?f)"
    and Q: "prv h' = (prv h)(r := ?q, ?f := ?a, b := ?la)"
    by (simp_all add: h'_def set_nxt_def set_prv_def)
  have out: "p \<in> set A \<Longrightarrow> p \<notin> set (b # W) \<union> set Fs \<union> set (r # B)"
    "p \<in> set (b # W) \<Longrightarrow> p \<notin> set A \<union> set Fs \<union> set (r # B)"
    "p \<in> set Fs \<Longrightarrow> p \<notin> set A \<union> set (b # W) \<union> set (r # B)"
    "p \<in> set (r # B) \<Longrightarrow> p \<notin> set A \<union> set (b # W) \<union> set Fs" for p
    using di by auto
  have ds: "distinct A" "distinct (b # W)" "distinct Fs" "distinct (r # B)" using di by auto
  have sub: "{?q, b, ?la, ?f, r} \<subseteq> set (b # W) \<union> set Fs \<union> set (r # B)"
    "{?a, ?la, ?f, r} \<subseteq> set A \<union> set Fs \<union> set (r # B)"
    "{?a, ?q, b, r} \<subseteq> set A \<union> set (b # W) \<union> set (r # B)"
    "{?a, ?q, b, ?la, ?f} \<subseteq> set A \<union> set (b # W) \<union> set Fs"
    using s by auto
  have o1: "p \<in> set A \<Longrightarrow> p \<notin> {?q, b, ?la, ?f, r}" for p
    using out(1) sub(1) by (meson subset_iff)
  have o2: "p \<in> set (b # W) \<Longrightarrow> p \<notin> {?a, ?la, ?f, r}" for p
    using out(2) sub(2) by (meson subset_iff)
  have o3: "p \<in> set Fs \<Longrightarrow> p \<notin> {?a, ?q, b, r}" for p
    using out(3) sub(3) by (meson subset_iff)
  have o4: "p \<in> set (r # B) \<Longrightarrow> p \<notin> {?a, ?q, b, ?la, ?f}" for p
    using out(4) sub(4) by (meson subset_iff)
  have c1: "chain h' A"
    by (rule chain_frame [OF c(1) ds(1)]) (drule o1, simp add: N Q del: last.simps)+
  have c2: "chain h' (b # W)"
    by (rule chain_frame [OF c(2) ds(2)]) (drule o2, simp add: N Q del: last.simps)+
  have c3: "chain h' Fs"
    by (rule chain_frame [OF c(3) ds(3)]) (drule o3, simp add: N Q del: last.simps)+
  have c4: "chain h' (r # B)"
    by (rule chain_frame [OF c(4) ds(4)]) (drule o4, simp add: N Q del: last.simps)+
  note c' = c1 c2 c3 c4
  have "nxt h' ?a = ?f" "prv h' b = ?la" by (simp_all add: N Q del: last.simps)
  moreover have "prv h' ?f = ?a" using o3 [OF s(4)] by (simp add: Q)
  moreover have "nxt h' ?la = b" using o1 [OF s(1)] by (simp add: N del: last.simps)
  moreover have "nxt h' ?q = r" using o2 [OF s(2)] by (simp add: N del: last.simps)
  moreover have "prv h' r = ?q" using o4 [of r] by (simp add: Q del: last.simps)
  ultimately have k: "nxt h' ?a = ?f" "prv h' ?f = ?a" "nxt h' ?la = b" "prv h' b = ?la"
      "nxt h' ?q = r" "prv h' r = ?q" by blast+
  have "chain h' ((b # W) @ r # B)" using c' k unfolding chain_append by simp
  then have "chain h' (Fs @ (b # W) @ r # B)" using c' k unfolding chain_append by simp
  then have "chain h' (A @ Fs @ (b # W) @ r # B)" using c' k ne unfolding chain_append by simp
  moreover have "nxt h' p = nxt h p" if "p \<notin> set (A @ (b # W) @ Fs)" for p
  proof -
    have "p \<noteq> ?a" "p \<noteq> ?la" "p \<noteq> ?q" using that s by (metis Un_iff set_append)+
    then show ?thesis by (simp add: N del: last.simps)
  qed
  moreover have "prv h' p = prv h p" if "p \<notin> set ((b # W) @ Fs @ [r])" for p
    using that s(4) by (auto simp: Q)
  ultimately show ?thesis using sp by blast
qed

lemma list_splice_dll:
  assumes d: "dll h l (P @ (b # W) @ Fs @ S)" and ne: "Fs \<noteq> []"
  shows "\<exists>h'. list_splice b (hd Fs) (pos l S) h = Some h' \<and> dll h' l (P @ Fs @ (b # W) @ S) \<and>
    (\<forall>p. p \<notin> set (full l (P @ (b # W) @ Fs @ S)) \<longrightarrow> nxt h' p = nxt h p \<and> prv h' p = prv h p)"
proof -
  let ?A = "head l # P" and ?B = "tl (S @ [tail l])" and ?r = "pos l S"
  have f: "full l (P @ (b # W) @ Fs @ S) = ?A @ (b # W) @ Fs @ ?r # ?B"
    and f': "full l (P @ Fs @ (b # W) @ S) = ?A @ Fs @ (b # W) @ ?r # ?B"
    by (cases S; simp add: full_def pos_def)+
  have "Fs @ S = butlast Fs @ last Fs # S"
    using ne by (metis append_Cons append_Nil append_assoc append_butlast_last_id)
  then have "P @ (b # W) @ Fs @ S = (P @ (b # W) @ butlast Fs) @ last Fs # S" by simp
  with d have "dll h l ((P @ (b # W) @ butlast Fs) @ last Fs # S)" by (rule subst [rotated])
  then have pr: "list_prev h ?r = Some (last Fs)"
    by (metis list_prev_dll pos_def)
  obtain h' where h': "list_splice b (hd Fs) ?r h = Some h'" "chain h' (?A @ Fs @ (b # W) @ ?r # ?B)"
    and n: "\<And>p. p \<notin> set (?A @ (b # W) @ Fs) \<Longrightarrow> nxt h' p = nxt h p"
    and q: "\<And>p. p \<notin> set ((b # W) @ Fs @ [?r]) \<Longrightarrow> prv h' p = prv h p"
  proof -
    have "chain h (?A @ (b # W) @ Fs @ ?r # ?B)" "distinct (?A @ (b # W) @ Fs @ ?r # ?B)"
      "NULL \<notin> set (?A @ (b # W) @ Fs @ ?r # ?B)"
      using d unfolding dll_def f by blast+
    from list_splice_chain [OF this(1,2) _ ne this(3) pr] show thesis
      using that by (metis list.distinct(1))
  qed
  have "tail l \<notin> set (?A @ (b # W) @ Fs)" "head l \<notin> set ((b # W) @ Fs @ [?r])"
    using dllD [OF d] by (cases S; auto)+
  then have "dll h' l (P @ Fs @ (b # W) @ S)"
    using h'(2) d n [of "tail l"] q [of "head l"] unfolding dll_def f f' by auto
  moreover have "nxt h' p = nxt h p \<and> prv h' p = prv h p"
    if "p \<notin> set (full l (P @ (b # W) @ Fs @ S))" for p
    using that unfolding f by (intro conjI n q) auto
  ultimately show ?thesis using h'(1) by blast
qed

section \<open>Runs\<close>

abbreviation (input) ordered :: "('a \<Rightarrow> 'a \<Rightarrow> bool) \<Rightarrow> 'a list \<Rightarrow> bool" where
  "ordered lt \<equiv> successively (\<lambda>x y. \<not> lt y x)"

lemma is_sorted_loop_dll:
  "dll h l (P @ y # ys @ S) \<Longrightarrow> is_sorted_loop lt h y (pos l S) = Some (ordered lt (y # ys))"
proof (induction ys arbitrary: P y)
  case Nil
  then show ?case
    using list_next_dll [of h l P y S] by (subst is_sorted_loop.simps) (simp add: pos_def)
next
  case (Cons z zs)
  have nx: "list_next h y = Some z" using list_next_dll [of h l P y "z # zs @ S"] Cons.prems by simp
  have pv: "list_prev h z = Some y" using list_prev_dll [of h l P y "z # zs @ S"] Cons.prems by simp
  have "z \<noteq> pos l S" using dllD [OF Cons.prems] by (cases S) auto
  moreover have "is_sorted_loop lt h z (pos l S) = Some (ordered lt (z # zs))"
    using Cons.prems by (intro Cons.IH [of "P @ [y]"]) simp
  ultimately show ?case using nx pv by (subst is_sorted_loop.simps) simp
qed

lemma is_sorted_dll:
  assumes "dll h l (P @ ys @ S)"
  shows "is_sorted lt h (pos l (ys @ S)) (pos l S) = Some (ordered lt ys)"
proof (cases ys)
  case Nil
  then show ?thesis by (simp add: is_sorted_def)
next
  case (Cons z zs)
  moreover have "z \<noteq> pos l S" using dllD [OF assms] Cons by (cases S) auto
  ultimately show ?thesis
    using is_sorted_loop_dll [of h l P z zs S] assms by (simp add: is_sorted_def)
qed

fun run_pre :: "('a \<Rightarrow> 'a \<Rightarrow> bool) \<Rightarrow> 'a \<Rightarrow> 'a list \<Rightarrow> 'a list" where
  "run_pre lt y [] = [y]"
| "run_pre lt y (z # zs) = (if \<not> lt z y then y # run_pre lt z zs else [y])"

fun run_rest :: "('a \<Rightarrow> 'a \<Rightarrow> bool) \<Rightarrow> 'a \<Rightarrow> 'a list \<Rightarrow> 'a list" where
  "run_rest lt y [] = []"
| "run_rest lt y (z # zs) = (if \<not> lt z y then run_rest lt z zs else z # zs)"

lemma run_split: "run_pre lt y ys @ run_rest lt y ys = y # ys"
  by (induction lt y ys rule: run_pre.induct) auto

lemma run_pre_Cons: "\<exists>t. run_pre lt y ys = y # t"
  by (cases ys) auto

lemma run_pre_not_Nil [simp]: "run_pre lt y ys \<noteq> []"
  using run_pre_Cons [of lt y ys] by auto

lemma ordered_run_pre: "ordered lt (run_pre lt y ys)"
proof (induction lt y ys rule: run_pre.induct)
  case (2 lt y z zs)
  then show ?case using run_pre_Cons [of lt z zs] by auto
qed simp

lemma length_run_rest: "length (run_rest lt y ys) \<le> length ys"
  by (induction lt y ys rule: run_rest.induct) auto

lemma run_rest_shorter:
  assumes "run_rest lt x xs = z # zs"
  shows "length (run_rest lt z zs) < Suc (length xs)"
  using length_run_rest [of lt x xs] length_run_rest [of lt z zs] assms by simp

lemma find_end_loop_dll:
  "dll h l (P @ y # ys) \<Longrightarrow> find_end_loop lt h y (tail l) = Some (pos l (run_rest lt y ys))"
proof (induction ys arbitrary: P y)
  case Nil
  then show ?case
    using list_next_dll [of h l P y "[]"] by (subst find_end_loop.simps) simp
next
  case (Cons z zs)
  have nx: "list_next h y = Some z" using list_next_dll [of h l P y "z # zs"] Cons.prems by simp
  have pv: "list_prev h z = Some y" using list_prev_dll [of h l P y "z # zs"] Cons.prems by simp
  have "z \<noteq> tail l" using dllD [OF Cons.prems] by auto
  moreover have "find_end_loop lt h z (tail l) = Some (pos l (run_rest lt z zs))"
    using Cons.prems by (intro Cons.IH [of "P @ [y]"]) simp
  ultimately show ?case using nx pv by (subst find_end_loop.simps) simp
qed

lemma find_end_of_run_dll:
  assumes "dll h l (P @ y # ys)"
  shows "find_end_of_run lt h y (tail l) = Some (pos l (run_rest lt y ys))"
proof -
  have "y \<noteq> NULL" "tail l \<noteq> NULL" "y \<noteq> tail l" using dllD [OF assms] by auto
  then show ?thesis using find_end_loop_dll [OF assms] by (simp add: find_end_of_run_def)
qed

section \<open>Merging\<close>

fun kmerge :: "('a \<Rightarrow> 'a \<Rightarrow> bool) \<Rightarrow> 'a list \<Rightarrow> 'a list \<Rightarrow> 'a list" where
  "kmerge lt [] ys = ys"
| "kmerge lt xs [] = xs"
| "kmerge lt (x # xs) (y # ys) =
     (if \<not> lt y x then x # kmerge lt xs (y # ys) else y # kmerge lt (x # xs) ys)"

lemma kmerge_induct:
  fixes lt :: "'a \<Rightarrow> 'a \<Rightarrow> bool"
  assumes "\<And>ys. P [] ys" "\<And>x xs. P (x # xs) []"
    and "\<And>x xs y ys. (\<not> lt y x \<Longrightarrow> P xs (y # ys)) \<Longrightarrow> (lt y x \<Longrightarrow> P (x # xs) ys) \<Longrightarrow>
      P (x # xs) (y # ys)"
  shows "P xs ys"
  using kmerge.induct [of "\<lambda>l xs ys. l = lt \<longrightarrow> P xs ys" lt xs ys] assms by auto

lemma set_kmerge [simp]: "set (kmerge lt xs ys) = set xs \<union> set ys"
  by (induction lt xs ys rule: kmerge.induct) auto

lemma length_kmerge [simp]: "length (kmerge lt xs ys) = length xs + length ys"
  by (induction lt xs ys rule: kmerge.induct) auto

lemma kmerge_Nil2 [simp]: "kmerge lt xs [] = xs"
  by (cases xs) auto

lemma set_full: "set (full l xs) = insert (head l) (insert (tail l) (set xs))"
  by (auto simp: full_def)

lemma inplace_merge_loop_dll:
  "dll h l (P @ xs @ ys @ S) \<Longrightarrow>
   \<exists>h'. inplace_merge_loop lt h (pos l (xs @ ys @ S)) (pos l (ys @ S)) (pos l S) = Some h' \<and>
     dll h' l (P @ kmerge lt xs ys @ S) \<and>
     (\<forall>p. p \<notin> set (full l (P @ xs @ ys @ S)) \<longrightarrow> nxt h' p = nxt h p \<and> prv h' p = prv h p)"
proof (induction lt xs ys arbitrary: h P rule: kmerge.induct)
  case (1 lt ys)
  then show ?case by (auto simp: inplace_merge_loop.simps)
next
  case (2 lt x xs)
  then show ?case by (auto simp: inplace_merge_loop.simps)
next
  case (3 lt x xs y ys)
  have d: "dll h l (P @ x # xs @ y # ys @ S)" using "3.prems" by simp
  have neq: "x \<noteq> y" "y \<noteq> pos l S" using dllD [OF d] by (cases S; auto)+
  show ?case
  proof (cases "lt y x")
    case False
    have "list_next h x = Some (pos l (xs @ y # ys @ S))"
      using list_next_dll [OF d] by (simp add: pos_def)
    moreover have "dll h l ((P @ [x]) @ xs @ (y # ys) @ S)" using d by simp
    from "3.IH"(1) [OF False this] obtain h' where
      "inplace_merge_loop lt h (pos l (xs @ y # ys @ S)) y (pos l S) = Some h'"
      "dll h' l (P @ x # kmerge lt xs (y # ys) @ S)"
      "\<forall>p. p \<notin> set (full l (P @ x # xs @ y # ys @ S)) \<longrightarrow> nxt h' p = nxt h p \<and> prv h' p = prv h p"
      by auto
    ultimately show ?thesis
      using False neq by (subst inplace_merge_loop.simps) simp
  next
    case True
    have n: "list_next h y = Some (pos l (ys @ S))"
      using list_next_dll [of h l "P @ x # xs" y "ys @ S"] d by (simp add: pos_def)
    have p: "list_prev h (pos l (ys @ S)) = Some y"
      using list_prev_dll [of h l "P @ x # xs" y "ys @ S"] d by (simp add: pos_def)
    obtain h1 where h1: "list_splice x y (pos l (ys @ S)) h = Some h1"
      "dll h1 l ((P @ [y]) @ (x # xs) @ ys @ S)"
      and f1: "\<forall>p. p \<notin> set (full l (P @ x # xs @ y # ys @ S)) \<longrightarrow> nxt h1 p = nxt h p \<and> prv h1 p = prv h p"
      using list_splice_dll [of h l P x xs "[y]" "ys @ S"] d by auto
    have "\<not> \<not> lt y x" using True by simp
    from "3.IH"(2) [OF this h1(2)] obtain h' where h':
      "inplace_merge_loop lt h1 x (pos l (ys @ S)) (pos l S) = Some h'"
      "dll h' l (P @ y # kmerge lt (x # xs) ys @ S)"
      and f2: "\<forall>p. p \<notin> set (full l ((P @ [y]) @ (x # xs) @ ys @ S)) \<longrightarrow>
         nxt h' p = nxt h1 p \<and> prv h' p = prv h1 p"
      by auto
    have "set (full l ((P @ [y]) @ (x # xs) @ ys @ S)) = set (full l (P @ x # xs @ y # ys @ S))"
      by (auto simp: set_full)
    then have "\<forall>p. p \<notin> set (full l (P @ x # xs @ y # ys @ S)) \<longrightarrow> nxt h' p = nxt h p \<and> prv h' p = prv h p"
      using f1 f2 by simp
    then show ?thesis
      using True neq n p h1(1) h' by (subst inplace_merge_loop.simps) simp
  qed
qed

lemma inplace_merge_dll:
  assumes d: "dll h l (P @ xs @ ys @ S)" and s: "ordered lt xs" "ordered lt ys"
  shows "\<exists>h'. inplace_merge lt h (pos l (xs @ ys @ S)) (pos l (ys @ S)) (pos l S) = Some h' \<and>
     dll h' l (P @ kmerge lt xs ys @ S) \<and>
     (\<forall>p. p \<notin> set (full l (P @ xs @ ys @ S)) \<longrightarrow> nxt h' p = nxt h p \<and> prv h' p = prv h p)"
proof -
  have nn: "pos l zs \<noteq> NULL" if "set zs \<subseteq> set (P @ xs @ ys @ S)" for zs
  proof (cases zs)
    case (Cons a as)
    then have "a \<in> set (P @ xs @ ys @ S)" using that by auto
    then show ?thesis using dllD(5) [OF d] Cons by (metis pos_simps(2))
  qed (use dllD [OF d] in simp)
  have n1: "pos l (xs @ ys @ S) \<noteq> NULL" and n2: "pos l (ys @ S) \<noteq> NULL" and n3: "pos l S \<noteq> NULL"
    by (rule nn; auto)+
  have "is_sorted lt h (pos l (xs @ ys @ S)) (pos l (ys @ S)) = Some True"
    using is_sorted_dll [of h l P xs "ys @ S" lt] d s by simp
  moreover have "is_sorted lt h (pos l (ys @ S)) (pos l S) = Some True"
    using is_sorted_dll [of h l "P @ xs" ys S lt] d s by simp
  ultimately show ?thesis
    using inplace_merge_loop_dll [OF d, of lt] n1 n2 n3
    by (simp add: inplace_merge_def)
qed

section \<open>Passes\<close>

function kpass :: "('a \<Rightarrow> 'a \<Rightarrow> bool) \<Rightarrow> 'a list \<Rightarrow> 'a list \<times> nat" where
  "kpass lt [] = ([], 0)"
| "kpass lt (x # xs) =
     (case run_rest lt x xs of
        [] \<Rightarrow> (x # xs, 1)
      | z # zs \<Rightarrow>
          (kmerge lt (run_pre lt x xs) (run_pre lt z zs) @ fst (kpass lt (run_rest lt z zs)),
           snd (kpass lt (run_rest lt z zs)) + 1))"
  by pat_completeness auto
termination
  by (relation "measure (\<lambda>(lt, xs). length xs)") (auto dest: run_rest_shorter)

lemma set_kpass [simp]: "set (fst (kpass lt xs)) = set xs"
proof (induction lt xs rule: kpass.induct)
  case (2 lt x xs)
  have s: "set (run_pre lt y ys) \<union> set (run_rest lt y ys) = set (y # ys)" for y :: 'a and ys
    unfolding run_split [of lt y ys, symmetric] by auto
  show ?case
    using 2 s [of x xs] by (cases "run_rest lt x xs") (use s in fastforce)+
qed simp

lemma list_sort_pass_dll:
  "dll h l (P @ xs) \<Longrightarrow>
   \<exists>h'. list_sort_pass lt l h (pos l xs) cnt = Some (h', cnt + snd (kpass lt xs)) \<and>
     dll h' l (P @ fst (kpass lt xs)) \<and>
     (\<forall>p. p \<notin> set (full l (P @ xs)) \<longrightarrow> nxt h' p = nxt h p \<and> prv h' p = prv h p)"
proof (induction lt xs arbitrary: h P cnt rule: kpass.induct)
  case (1 lt)
  then show ?case by (simp add: list_sort_pass.simps)
next
  case (2 lt x xs)
  have xt: "x \<noteq> tail l" using dllD [OF "2.prems"] by auto
  have e1: "find_end_of_run lt h x (tail l) = Some (pos l (run_rest lt x xs))"
    using find_end_of_run_dll [OF "2.prems"] .
  show ?case
  proof (cases "run_rest lt x xs")
    case Nil
    then show ?thesis using xt e1 "2.prems" by (simp add: list_sort_pass.simps)
  next
    case (Cons z zs)
    let ?r1 = "run_pre lt x xs" and ?r2 = "run_pre lt z zs" and ?S = "run_rest lt z zs"
    have sp: "x # xs = ?r1 @ ?r2 @ ?S"
      using run_split [of lt x xs] run_split [of lt z zs] Cons by simp
    have d: "dll h l (P @ ?r1 @ ?r2 @ ?S)" using "2.prems" sp by simp
    have dz: "dll h l ((P @ ?r1) @ z # zs)"
      using "2.prems" run_split [of lt x xs] Cons by (metis append_assoc)
    have e2: "find_end_of_run lt h z (tail l) = Some (pos l ?S)"
      using find_end_of_run_dll [OF dz] .
    have zt: "z \<noteq> tail l" using dllD [OF dz] by auto
    have p: "pos l (?r1 @ ?r2 @ ?S) = x" "pos l (?r2 @ ?S) = z"
      using run_pre_Cons [of lt x xs] run_pre_Cons [of lt z zs] by auto
    obtain h1 where h1: "inplace_merge lt h x z (pos l ?S) = Some h1"
      "dll h1 l ((P @ kmerge lt ?r1 ?r2) @ ?S)"
      and f1: "\<forall>p. p \<notin> set (full l (P @ ?r1 @ ?r2 @ ?S)) \<longrightarrow> nxt h1 p = nxt h p \<and> prv h1 p = prv h p"
      using inplace_merge_dll [OF d ordered_run_pre ordered_run_pre] unfolding p by auto
    from "2.IH" [OF Cons h1(2), of "cnt + 1"] obtain h' where h':
      "list_sort_pass lt l h1 (pos l ?S) (cnt + 1) = Some (h', cnt + 1 + snd (kpass lt ?S))"
      "dll h' l ((P @ kmerge lt ?r1 ?r2) @ fst (kpass lt ?S))"
      and f2: "\<forall>p. p \<notin> set (full l ((P @ kmerge lt ?r1 ?r2) @ ?S)) \<longrightarrow>
         nxt h' p = nxt h1 p \<and> prv h' p = prv h1 p"
      by auto
    have "set (full l ((P @ kmerge lt ?r1 ?r2) @ ?S)) = set (full l (P @ x # xs))"
      unfolding sp by (auto simp: set_full)
    then have "\<forall>p. p \<notin> set (full l (P @ x # xs)) \<longrightarrow> nxt h' p = nxt h p \<and> prv h' p = prv h p"
      using f1 f2 unfolding sp by simp
    then show ?thesis
      using Cons xt zt e1 e2 h1(1) h' by (subst list_sort_pass.simps) simp
  qed
qed

section \<open>Comparison functions\<close>

text \<open>
  The contract of a list_less_func: a strict weak order.  Elements neither of which is
  less than the other are equivalent.
\<close>

definition equiv_of :: "('a \<Rightarrow> 'a \<Rightarrow> bool) \<Rightarrow> 'a \<Rightarrow> 'a \<Rightarrow> bool" where
  "equiv_of lt a b \<longleftrightarrow> \<not> lt a b \<and> \<not> lt b a"

definition ksort :: "('a \<Rightarrow> 'a \<Rightarrow> bool) \<Rightarrow> 'a list \<Rightarrow> 'a list" where
  "ksort lt xs = foldl (\<lambda>acc x. insert_ordered lt x acc) [] xs"

text \<open>The number of maximal runs.\<close>

fun nruns_from :: "('a \<Rightarrow> 'a \<Rightarrow> bool) \<Rightarrow> 'a \<Rightarrow> 'a list \<Rightarrow> nat" where
  "nruns_from lt x [] = 1"
| "nruns_from lt x (y # ys) = (if lt y x then 1 + nruns_from lt y ys else nruns_from lt y ys)"

definition nruns :: "('a \<Rightarrow> 'a \<Rightarrow> bool) \<Rightarrow> 'a list \<Rightarrow> nat" where
  "nruns lt xs = (case xs of [] \<Rightarrow> 0 | x # xs \<Rightarrow> nruns_from lt x xs)"

lemma nruns_simps [simp]: "nruns lt [] = 0" "nruns lt (x # xs) = nruns_from lt x xs"
  by (simp_all add: nruns_def)

lemma nruns_from_rest: "nruns_from lt x xs = 1 + nruns lt (run_rest lt x xs)"
  by (induction lt x xs rule: nruns_from.induct) auto

lemma nruns_append: "nruns lt (xs @ ys) \<le> nruns lt xs + nruns lt ys"
proof (cases xs)
  case (Cons x xs')
  have "nruns lt ((x # xs') @ ys) \<le> nruns lt (x # xs') + nruns lt ys"
  proof (induction xs' arbitrary: x)
    case Nil
    then show ?case by (cases ys) auto
  next
    case (Cons a as)
    from Cons.IH [of a] show ?case by simp
  qed
  then show ?thesis using Cons by simp
qed simp

lemma ordered_nruns: "ordered lt xs \<longleftrightarrow> nruns lt xs \<le> 1"
proof (cases xs)
  case (Cons x xs')
  have pos: "0 < nruns_from lt y ys" for y ys by (induction lt y ys rule: nruns_from.induct) auto
  have "ordered lt (x # xs') \<longleftrightarrow> nruns_from lt x xs' \<le> 1"
    using pos by (induction lt x xs' rule: nruns_from.induct) (auto simp: not_le)
  then show ?thesis using Cons by simp
qed simp

lemma kpass_count: "snd (kpass lt xs) = (nruns lt xs + 1) div 2"
proof (induction lt xs rule: kpass.induct)
  case (2 lt x xs)
  show ?case
    using 2 nruns_from_rest [of lt x xs] by (cases "run_rest lt x xs") (auto simp: nruns_from_rest)
qed simp

locale list_less =
  fixes lt :: "'a \<Rightarrow> 'a \<Rightarrow> bool"
  assumes asym: "lt x y \<Longrightarrow> \<not> lt y x"
    and neg_trans: "\<not> lt x y \<Longrightarrow> \<not> lt y z \<Longrightarrow> \<not> lt x z"
begin

lemma irrefl [simp]: "\<not> lt x x"
  using asym by blast

lemma lt_trans: "lt x y \<Longrightarrow> lt y z \<Longrightarrow> lt x z"
  using asym neg_trans by blast

lemma ordered_iff: "ordered lt xs \<longleftrightarrow> sorted_wrt (\<lambda>x y. \<not> lt y x) xs"
proof -
  have "transp (\<lambda>x y. \<not> lt y x)" using neg_trans by (auto intro!: transpI)
  then show ?thesis by (rule successively_conv_sorted_wrt)
qed

lemma sorted_insert_ordered:
  "sorted_wrt (\<lambda>x y. \<not> lt y x) xs \<Longrightarrow> sorted_wrt (\<lambda>x y. \<not> lt y x) (insert_ordered lt a xs)"
  by (induction xs) (auto dest: asym intro: neg_trans lt_trans)

lemma sorted_foldl_insert:
  "sorted_wrt (\<lambda>x y. \<not> lt y x) acc \<Longrightarrow>
   sorted_wrt (\<lambda>x y. \<not> lt y x) (foldl (\<lambda>acc x. insert_ordered lt x acc) acc xs)"
  by (induction xs arbitrary: acc) (auto intro: sorted_insert_ordered)

lemma sorted_ksort: "sorted_wrt (\<lambda>x y. \<not> lt y x) (ksort lt xs)"
  by (simp add: ksort_def sorted_foldl_insert)

lemma filter_insert_ordered:
  "sorted_wrt (\<lambda>x y. \<not> lt y x) xs \<Longrightarrow>
   filter (equiv_of lt a) (insert_ordered lt x xs) =
     filter (equiv_of lt a) xs @ (if equiv_of lt a x then [x] else [])"
proof (induction xs)
  case (Cons y ys)
  have "equiv_of lt a x \<Longrightarrow> lt x y \<Longrightarrow> z \<in> set (y # ys) \<Longrightarrow> \<not> equiv_of lt a z" for z
    using Cons.prems neg_trans unfolding equiv_of_def by (metis list.set_cases set_ConsD sorted_wrt.simps(2))
  then have "equiv_of lt a x \<Longrightarrow> lt x y \<Longrightarrow> filter (equiv_of lt a) (y # ys) = []"
    by (simp add: filter_empty_conv)
  then show ?case using Cons by auto
qed simp

lemma filter_foldl_insert:
  "sorted_wrt (\<lambda>x y. \<not> lt y x) acc \<Longrightarrow>
   filter (equiv_of lt a) (foldl (\<lambda>acc x. insert_ordered lt x acc) acc xs) =
     filter (equiv_of lt a) acc @ filter (equiv_of lt a) xs"
  by (induction xs arbitrary: acc) (auto simp: filter_insert_ordered sorted_insert_ordered)

lemma filter_ksort: "filter (equiv_of lt a) (ksort lt xs) = filter (equiv_of lt a) xs"
  by (simp add: ksort_def filter_foldl_insert)

lemma equiv_refl [simp]: "equiv_of lt x x"
  by (simp add: equiv_of_def)

text \<open>A stable sorted arrangement is unique.\<close>

lemma stable_sorted_unique:
  assumes "sorted_wrt (\<lambda>x y. \<not> lt y x) xs" "sorted_wrt (\<lambda>x y. \<not> lt y x) ys"
    and "\<And>a. filter (equiv_of lt a) xs = filter (equiv_of lt a) ys"
  shows "xs = ys"
  using assms
proof (induction xs arbitrary: ys)
  case Nil
  show ?case
  proof (cases ys)
    case (Cons y ys')
    then show ?thesis using Nil.prems(3) [of y] by simp
  qed simp
next
  case (Cons x xs)
  have "x \<in> set (filter (equiv_of lt x) (x # xs))" by simp
  then have xin: "x \<in> set ys" unfolding Cons.prems(3) by simp
  then obtain y ys' where ys: "ys = y # ys'" by (cases ys) auto
  have "y \<in> set (filter (equiv_of lt y) (x # xs))" unfolding Cons.prems(3) ys by simp
  then have yin: "y \<in> set (x # xs)" unfolding set_filter by blast
  have "equiv_of lt x y"
    using Cons.prems(1,2) xin yin unfolding ys equiv_of_def by auto
  then have "x = y" using Cons.prems(3) [of x] ys by simp
  moreover have "xs = ys'"
  proof (rule Cons.IH)
    show "filter (equiv_of lt a) xs = filter (equiv_of lt a) ys'" for a
      using Cons.prems(3) [of a] ys \<open>x = y\<close> by (simp split: if_splits)
  qed (use Cons.prems ys in auto)
  ultimately show ?case using ys by simp
qed

lemma sorted_kmerge:
  "sorted_wrt (\<lambda>x y. \<not> lt y x) xs \<Longrightarrow> sorted_wrt (\<lambda>x y. \<not> lt y x) ys \<Longrightarrow>
   sorted_wrt (\<lambda>x y. \<not> lt y x) (kmerge lt xs ys)"
proof (induction xs ys rule: kmerge_induct [where lt = lt])
  case (3 x xs y ys)
  show ?case
  proof (cases "lt y x")
    case True
    then have "\<forall>z \<in> set (x # xs) \<union> set ys. \<not> lt z y"
      using 3 asym [OF True] neg_trans by auto
    then show ?thesis using True 3 by simp
  next
    case False
    then have "\<forall>z \<in> set xs \<union> set (y # ys). \<not> lt z x"
      using 3 neg_trans by auto
    then show ?thesis using False 3 by simp
  qed
qed simp_all

lemma filter_kmerge:
  "sorted_wrt (\<lambda>x y. \<not> lt y x) xs \<Longrightarrow>
   filter (equiv_of lt a) (kmerge lt xs ys) = filter (equiv_of lt a) xs @ filter (equiv_of lt a) ys"
proof (induction xs ys rule: kmerge_induct [where lt = lt])
  case (3 x xs y ys)
  have "filter (equiv_of lt a) (x # xs) = []" if "lt y x" "equiv_of lt a y"
    using 3 that neg_trans asym unfolding equiv_of_def filter_empty_conv
    by (metis set_ConsD sorted_wrt.simps(2))
  then show ?case using 3 by auto
qed simp_all

lemma sorted_run_pre: "sorted_wrt (\<lambda>x y. \<not> lt y x) (run_pre lt x xs)"
  using ordered_run_pre [of lt x xs] by (simp add: ordered_iff)

lemma filter_kpass: "filter (equiv_of lt a) (fst (kpass lt xs)) = filter (equiv_of lt a) xs"
proof (induction xs rule: length_induct)
  case (1 xs)
  show ?case
  proof (cases xs)
    case (Cons y ys)
    have y: "filter (equiv_of lt a) (y # ys) =
        filter (equiv_of lt a) (run_pre lt y ys) @ filter (equiv_of lt a) (run_rest lt y ys)"
      by (simp only: run_split flip: filter_append)
    show ?thesis
    proof (cases "run_rest lt y ys")
      case Nil
      then show ?thesis using Cons by simp
    next
      case (Cons z zs)
      have "filter (equiv_of lt a) (fst (kpass lt (run_rest lt z zs))) =
          filter (equiv_of lt a) (run_rest lt z zs)"
        using 1 run_rest_shorter [OF Cons] \<open>xs = y # ys\<close> by simp
      moreover have "filter (equiv_of lt a) (z # zs) =
          filter (equiv_of lt a) (run_pre lt z zs) @ filter (equiv_of lt a) (run_rest lt z zs)"
        by (simp only: run_split flip: filter_append)
      ultimately show ?thesis
        using Cons y \<open>xs = y # ys\<close> by (simp add: filter_kmerge sorted_run_pre)
    qed
  qed simp
qed

lemma nruns_kpass: "nruns lt (fst (kpass lt xs)) \<le> snd (kpass lt xs)"
proof (induction xs rule: length_induct)
  case (1 xs)
  show ?case
  proof (cases xs)
    case (Cons y ys)
    show ?thesis
    proof (cases "run_rest lt y ys")
      case Nil
      then show ?thesis using Cons nruns_from_rest [of lt y ys] by simp
    next
      case (Cons z zs)
      let ?m = "kmerge lt (run_pre lt y ys) (run_pre lt z zs)" and ?r = "fst (kpass lt (run_rest lt z zs))"
      have "nruns lt ?m \<le> 1"
        unfolding ordered_nruns [symmetric] ordered_iff by (intro sorted_kmerge sorted_run_pre)
      moreover have "nruns lt ?r \<le> snd (kpass lt (run_rest lt z zs))"
        using 1 run_rest_shorter [OF Cons] \<open>xs = y # ys\<close> by simp
      ultimately show ?thesis
        using nruns_append [of lt ?m ?r] Cons \<open>xs = y # ys\<close> by simp
    qed
  qed simp
qed

end

section \<open>The sorting loop\<close>

lemma list_sort_loop_dll:
  assumes "list_less lt"
  shows "dll h l xs \<Longrightarrow>
   \<exists>h'. list_sort_loop lt l h = Some h' \<and> dll h' l (ksort lt xs) \<and>
     (\<forall>p. p \<notin> set (full l xs) \<longrightarrow> nxt h' p = nxt h p \<and> prv h' p = prv h p)"
proof (induction "nruns lt xs" arbitrary: h xs rule: less_induct)
  case less
  note order = list_less.stable_sorted_unique [OF assms] list_less.sorted_ksort [OF assms]
    list_less.filter_ksort [OF assms] list_less.filter_kpass [OF assms]
    list_less.nruns_kpass [OF assms] list_less.ordered_iff [OF assms]
  let ?ys = "fst (kpass lt xs)" and ?n = "snd (kpass lt xs)"
  obtain h1 where h1: "list_sort_pass lt l h (pos l xs) 0 = Some (h1, ?n)" "dll h1 l ?ys"
    and f1: "\<forall>p. p \<notin> set (full l xs) \<longrightarrow> nxt h1 p = nxt h p \<and> prv h1 p = prv h p"
    using list_sort_pass_dll [of h l "[]" xs lt 0] less.prems by auto
  have b: "list_begin l h = Some (pos l xs)"
    using less.prems by (simp add: list_begin_dll pos_def)
  have eq: "ksort lt ?ys = ksort lt xs"
    by (rule order(1)) (simp_all add: order)
  have sf: "set (full l ?ys) = set (full l xs)" by (simp add: set_full)
  show ?case
  proof (cases "?n > 1")
    case True
    then have "nruns lt ?ys < nruns lt xs"
      using order(5) [of xs] kpass_count [of lt xs] by linarith
    from less.hyps [OF this h1(2)] obtain h' where
      "list_sort_loop lt l h1 = Some h'" "dll h' l (ksort lt ?ys)"
      "\<forall>p. p \<notin> set (full l ?ys) \<longrightarrow> nxt h' p = nxt h1 p \<and> prv h' p = prv h1 p"
      by blast
    then show ?thesis
      using True b h1(1) f1 eq sf by (subst list_sort_loop.simps) simp
  next
    case False
    have "nruns lt ?ys \<le> 1" using False order(5) [of xs] by linarith
    then have "sorted_wrt (\<lambda>x y. \<not> lt y x) ?ys" unfolding order(6) [symmetric] ordered_nruns .
    then have "?ys = ksort lt xs" by (rule order(1)) (simp_all add: order)
    then show ?thesis using False b h1 f1 by (subst list_sort_loop.simps) simp
  qed
qed

lemma list_sort_dll:
  assumes "list_less lt" "dll h l xs"
  shows "\<exists>h'. list_sort lt l h = Some h' \<and> dll h' l (ksort lt xs) \<and>
     (\<forall>p. p \<notin> set (full l xs) \<longrightarrow> nxt h' p = nxt h p \<and> prv h' p = prv h p)"
proof -
  obtain h' where h': "list_sort_loop lt l h = Some h'" "dll h' l (ksort lt xs)"
    and f: "\<forall>p. p \<notin> set (full l xs) \<longrightarrow> nxt h' p = nxt h p \<and> prv h' p = prv h p"
    using list_sort_loop_dll [OF assms] by blast
  have "ordered lt (ksort lt xs)"
    using assms(1) by (simp add: list_less.ordered_iff list_less.sorted_ksort)
  then have "is_sorted lt h' (pos l (ksort lt xs)) (tail l) = Some True"
    using is_sorted_dll [of h' l "[]" "ksort lt xs" "[]" lt] h'(2) by simp
  then show ?thesis
    using h' f dllD(1) [OF assms(2)] list_begin_dll [OF h'(2)] by (auto simp: list_sort_def pos_def)
qed

lemma mset_insert_ordered [simp]: "mset (insert_ordered lt x xs) = add_mset x (mset xs)"
  by (induction xs) auto

lemma mset_ksort [simp]: "mset (ksort lt xs) = mset xs"
proof -
  have "mset (foldl (\<lambda>acc x. insert_ordered lt x acc) acc xs) = mset acc + mset xs" for acc
    by (induction xs arbitrary: acc) auto
  then show ?thesis by (simp add: ksort_def)
qed

lemma set_ksort [simp]: "set (ksort lt xs) = set xs"
  by (metis mset_ksort set_mset_mset)

lemma distinct_ksort [simp]: "distinct (ksort lt xs) = distinct xs"
  by (metis mset_ksort mset_eq_imp_distinct_iff)

end
