(* ===== verification/Kernel.thy ===== *)
theory Kernel
  imports FixedPoint KListSort
begin

text \<open>
  The kernel state that threads/thread.c, threads/synch.c, threads/interrupt.c and
  devices/timer.c share, and the scheduler of threads/thread.c.

  A thread is known by the address of its page.  The lists the kernel keeps through a
  thread's \<open>elem\<close>, \<open>allelem\<close> and \<open>child_elem\<close> members are HOL lists of threads: KListRefine
  and KListSort show that list.c computes these list functions on its links.

  Code that blocks or yields in the middle of a function continues later, after other
  threads have run.  What is left to run is on the thread's kernel stack: here a list of
  \<open>frame\<close>s, one for the remainder of each C function that is waiting for a call to
  return.  A function that switches threads pushes the frames of its remainder first.
\<close>

section \<open>Threads\<close>

type_synonym tptr = nat
type_synonym fptr = nat

datatype thread_status = THREAD_RUNNING | THREAD_READY | THREAD_BLOCKED | THREAD_DYING

datatype intr_level = INTR_OFF | INTR_ON

text \<open>The semaphores of the kernel: stand-alone ones (syscall.c's mutex is one of them),
  the one inside a lock, a thread's fd_wait, and the one cond_wait puts on the waiting
  thread's stack.\<close>

datatype sema_id = Sema nat | LockSema nat | FdWait tptr | CondWaiter tptr

datatype tfunc = IdleFn sema_id | StartProcess bool | KernelFn

datatype frame =
    SetLevel intr_level
  | KernelThread tfunc
  | SemaDownLoop sema_id
  | LockAcquired nat
  | LockReleaseUp nat
  | CondWaitDown
  | CondWaitLock nat
  | CondBroadcast nat nat
  | TidBump
  | CreateRest tptr tfunc
  | StartRest sema_id
  | ReturnVal int
  | IdleInit sema_id
  | IdleLoop
  | IdleSti
  | IdleHalted
  | ThreadExit
  | ExitWait
  | ExitTail
  | Loaded bool
  | ExecCreated
  | ExecWaitLoad int
  | ExecResult
  | WaitChild tptr

record thread =
  tid :: int
  status :: thread_status
  tname :: string
  priority :: int
  alarm_ticks :: int
  recent_cpu :: int
  nice :: int
  pagedir :: nat
  parent :: tptr
  exit_status :: int
  ready_to_exit :: bool
  deleted_from_parent :: bool
  child_list :: "tptr list"
  load_finish :: bool
  child_load_success :: bool
  files :: "fptr list"
  fd_used :: "bool list"
  frames :: "frame list"
  retval :: int

definition TID_ERROR :: int where "TID_ERROR = - 1"

record semaphore =
  sem_value :: nat
  waiters :: "tptr list"

record kstate =
  threads :: "tptr \<rightharpoonup> thread"
  running :: tptr
  ready_list :: "tptr list"
  all_list :: "tptr list"
  sleep_list :: "tptr list"
  idle_thread :: tptr
  initial_thread :: tptr
  next_tid :: int
  load_avg :: int
  thread_ticks :: nat
  idle_ticks :: int
  kernel_ticks :: int
  user_ticks :: int
  ticks :: int
  intr_level_of :: intr_level
  in_external_intr :: bool
  yield_on_return :: bool
  thread_mlfqs :: bool
  thread_prior_aging :: bool
  userprog :: bool
  semas :: "sema_id \<Rightarrow> semaphore"
  lock_holder :: "nat \<Rightarrow> tptr"
  cond_waiters :: "nat \<Rightarrow> tptr list"

definition upd_thread :: "tptr \<Rightarrow> (thread \<Rightarrow> thread) \<Rightarrow> kstate \<Rightarrow> kstate" where
  "upd_thread t f k =
     (case threads k t of None \<Rightarrow> k | Some th \<Rightarrow> k\<lparr>threads := (threads k)(t \<mapsto> f th)\<rparr>)"

definition set_status :: "thread_status \<Rightarrow> tptr \<Rightarrow> kstate \<Rightarrow> kstate" where
  "set_status st t = upd_thread t (\<lambda>th. th\<lparr>status := st\<rparr>)"

definition push :: "frame \<Rightarrow> kstate \<Rightarrow> kstate" where
  "push f k = upd_thread (running k) (\<lambda>th. th\<lparr>frames := f # frames th\<rparr>) k"

definition ret :: "int \<Rightarrow> kstate \<Rightarrow> kstate" where
  "ret v k = upd_thread (running k) (\<lambda>th. th\<lparr>retval := v\<rparr>) k"

text \<open>Field readers for the comparison functions; a list holds threads only.\<close>

definition prio :: "kstate \<Rightarrow> tptr \<Rightarrow> int" where
  "prio k t = (case threads k t of None \<Rightarrow> 0 | Some th \<Rightarrow> priority th)"

definition alarm :: "kstate \<Rightarrow> tptr \<Rightarrow> int" where
  "alarm k t = (case threads k t of None \<Rightarrow> 0 | Some th \<Rightarrow> alarm_ticks th)"

section \<open>Interrupt level (threads/interrupt.c)\<close>

definition intr_disable :: "kstate \<Rightarrow> kstate" where
  "intr_disable k = k\<lparr>intr_level_of := INTR_OFF\<rparr>"

definition intr_enable :: "kstate \<Rightarrow> kstate option" where
  "intr_enable k = do { ASSERT (\<not> in_external_intr k); Some (k\<lparr>intr_level_of := INTR_ON\<rparr>) }"

definition intr_set_level :: "intr_level \<Rightarrow> kstate \<Rightarrow> kstate option" where
  "intr_set_level level k = (if level = INTR_ON then intr_enable k else Some (intr_disable k))"

definition intr_yield_on_return :: "kstate \<Rightarrow> kstate option" where
  "intr_yield_on_return k = do {
     ASSERT (in_external_intr k);
     Some (k\<lparr>yield_on_return := True\<rparr>)
   }"

section \<open>Scheduling (threads/thread.c)\<close>

definition priority_comp :: "kstate \<Rightarrow> tptr \<Rightarrow> tptr \<Rightarrow> bool" where
  "priority_comp k t1 t2 \<longleftrightarrow> prio k t1 > prio k t2"

definition alarm_ticks_comp :: "kstate \<Rightarrow> tptr \<Rightarrow> tptr \<Rightarrow> bool" where
  "alarm_ticks_comp k t1 t2 \<longleftrightarrow> alarm k t1 < alarm k t2"

text \<open>running_thread and is_thread: the stack's page is a live thread structure.\<close>

definition thread_current :: "kstate \<Rightarrow> tptr option" where
  "thread_current k = do {
     th \<leftarrow> threads k (running k);
     ASSERT (status th = THREAD_RUNNING);
     Some (running k)
   }"

definition cur_thread :: "kstate \<Rightarrow> thread option" where
  "cur_thread k = do { cur \<leftarrow> thread_current k; threads k cur }"

definition next_thread_to_run :: "kstate \<Rightarrow> tptr \<times> kstate" where
  "next_thread_to_run k =
     (case ready_list k of
        [] \<Rightarrow> (idle_thread k, k)
      | t # ts \<Rightarrow> (t, k\<lparr>ready_list := ts\<rparr>))"

definition thread_schedule_tail :: "tptr \<Rightarrow> kstate \<Rightarrow> kstate option" where
  "thread_schedule_tail prev k = do {
     ASSERT (intr_level_of k = INTR_OFF);
     let k = set_status THREAD_RUNNING (running k) k;
     let k = k\<lparr>thread_ticks := 0\<rparr>;
     (case (if prev = 0 then None else threads k prev) of
        None \<Rightarrow> Some k
      | Some p \<Rightarrow>
          if status p = THREAD_DYING \<and> prev \<noteq> initial_thread k then do {
            ASSERT (prev \<noteq> running k);
            Some (k\<lparr>threads := (threads k)(prev := None)\<rparr>)
          }
          else Some k)
   }"

definition schedule :: "kstate \<Rightarrow> kstate option" where
  "schedule k = do {
     let cur = running k;
     let next = fst (next_thread_to_run k);
     let k = snd (next_thread_to_run k);
     ASSERT (intr_level_of k = INTR_OFF);
     th \<leftarrow> threads k cur;
     ASSERT (status th \<noteq> THREAD_RUNNING);
     _ \<leftarrow> threads k next;
     (if cur \<noteq> next then thread_schedule_tail cur (k\<lparr>running := next\<rparr>)
      else thread_schedule_tail 0 k)
   }"

definition thread_block :: "kstate \<Rightarrow> kstate option" where
  "thread_block k = do {
     ASSERT (\<not> in_external_intr k);
     ASSERT (intr_level_of k = INTR_OFF);
     cur \<leftarrow> thread_current k;
     schedule (set_status THREAD_BLOCKED cur k)
   }"

definition thread_unblock :: "tptr \<Rightarrow> kstate \<Rightarrow> kstate option" where
  "thread_unblock t k = do {
     th \<leftarrow> threads k t;
     ASSERT (status th = THREAD_BLOCKED);
     let k = k\<lparr>ready_list := insert_ordered (priority_comp k) t (ready_list k)\<rparr>;
     Some (set_status THREAD_READY t k)
   }"

definition thread_yield :: "kstate \<Rightarrow> kstate option" where
  "thread_yield k = do {
     cur \<leftarrow> thread_current k;
     ASSERT (\<not> in_external_intr k);
     let old_level = intr_level_of k;
     let k = intr_disable k;
     let k = (if cur \<noteq> idle_thread k
              then k\<lparr>ready_list := insert_ordered (priority_comp k) cur (ready_list k)\<rparr> else k);
     schedule (set_status THREAD_READY cur (push (SetLevel old_level) k))
   }"

text \<open>The code reads the priority behind the first link; the list must not be empty.\<close>

definition max_priority_in_ready :: "kstate \<Rightarrow> int option" where
  "max_priority_in_ready k =
     (case ready_list k of [] \<Rightarrow> None | t # _ \<Rightarrow> Some (prio k t))"

definition ready_preempts :: "int \<Rightarrow> kstate \<Rightarrow> bool option" where
  "ready_preempts p k =
     (if ready_list k = [] then Some False
      else do { m \<leftarrow> max_priority_in_ready k; Some (p < m) })"

definition thread_set_priority :: "int \<Rightarrow> kstate \<Rightarrow> kstate option" where
  "thread_set_priority new_pri k = do {
     cur \<leftarrow> thread_current k;
     let k = upd_thread cur (\<lambda>th. th\<lparr>priority := new_pri\<rparr>) k;
     b \<leftarrow> ready_preempts new_pri k;
     (if b then thread_yield k else Some k)
   }"

definition thread_get_priority :: "kstate \<Rightarrow> int option" where
  "thread_get_priority k = do { th \<leftarrow> cur_thread k; Some (priority th) }"

definition thread_set_nice :: "int \<Rightarrow> kstate \<Rightarrow> kstate option" where
  "thread_set_nice n k = do {
     cur \<leftarrow> thread_current k;
     th \<leftarrow> threads k cur;
     p \<leftarrow> new_priority (recent_cpu th) n;
     let k = upd_thread cur (\<lambda>th. th\<lparr>nice := n, priority := p\<rparr>) k;
     b \<leftarrow> ready_preempts p k;
     (if b then thread_yield k else Some k)
   }"

definition thread_get_nice :: "kstate \<Rightarrow> int option" where
  "thread_get_nice k = do { th \<leftarrow> cur_thread k; Some (nice th) }"

definition thread_get_load_avg :: "kstate \<Rightarrow> int" where
  "thread_get_load_avg k = round_to_nearest (fp_mul_int (load_avg k) 100)"

definition thread_get_recent_cpu :: "kstate \<Rightarrow> int option" where
  "thread_get_recent_cpu k = do {
     th \<leftarrow> cur_thread k;
     Some (round_to_nearest (fp_mul_int (recent_cpu th) 100))
   }"

subsection \<open>Sleeping and the periodic updates\<close>

text \<open>The member alarm_ticks is an int: the 64-bit wake-up time is truncated.\<close>

definition thread_sleep :: "int \<Rightarrow> kstate \<Rightarrow> kstate option" where
  "thread_sleep at k = do {
     cur \<leftarrow> thread_current k;
     let k = upd_thread cur (\<lambda>th. th\<lparr>alarm_ticks := wrap32 at\<rparr>) k;
     let k = k\<lparr>sleep_list := insert_ordered (alarm_ticks_comp k) cur (sleep_list k)\<rparr>;
     thread_block k
   }"

fun alarm_loop :: "tptr list \<Rightarrow> int \<Rightarrow> kstate \<Rightarrow> kstate option" where
  "alarm_loop [] now k = Some k"
| "alarm_loop (t # ts) now k =
     (if alarm k t > now then Some k
      else do {
        k \<leftarrow> thread_unblock t (k\<lparr>sleep_list := ts\<rparr>);
        alarm_loop ts now k
      })"

definition thread_alarm :: "int \<Rightarrow> kstate \<Rightarrow> kstate option" where
  "thread_alarm now k = do {
     k \<leftarrow> alarm_loop (sleep_list k) now k;
     intr_yield_on_return k
   }"

text \<open>The loop over the ready list changes the priority of each thread on it.\<close>

definition aged :: "int \<Rightarrow> int" where
  "aged p = (let p' = wrap32 (p + 1) in if p' > PRI_MAX then PRI_MAX else p')"

fun aging_loop :: "tptr list \<Rightarrow> kstate \<Rightarrow> kstate" where
  "aging_loop [] k = k"
| "aging_loop (t # ts) k =
     aging_loop ts (upd_thread t (\<lambda>th. th\<lparr>priority := aged (priority th)\<rparr>) k)"

definition yield_if_preempted :: "kstate \<Rightarrow> kstate option" where
  "yield_if_preempted k =
     (if ready_list k = [] then Some k
      else do {
        th \<leftarrow> cur_thread k;
        m \<leftarrow> max_priority_in_ready k;
        (if priority th < m then intr_yield_on_return k else Some k)
      })"

definition thread_priority_aging :: "kstate \<Rightarrow> kstate option" where
  "thread_priority_aging k = yield_if_preempted (aging_loop (ready_list k) k)"

fun priority_loop :: "tptr list \<Rightarrow> kstate \<Rightarrow> kstate option" where
  "priority_loop [] k = Some k"
| "priority_loop (t # ts) k = do {
     th \<leftarrow> threads k t;
     p \<leftarrow> new_priority (recent_cpu th) (nice th);
     priority_loop ts (upd_thread t (\<lambda>th. th\<lparr>priority := p\<rparr>) k)
   }"

definition update_priority :: "kstate \<Rightarrow> kstate option" where
  "update_priority k = do {
     k \<leftarrow> priority_loop (all_list k) k;
     let k = k\<lparr>ready_list := ksort (priority_comp k) (ready_list k)\<rparr>;
     yield_if_preempted k
   }"

definition update_load_avg :: "kstate \<Rightarrow> kstate option" where
  "update_load_avg k = do {
     cur \<leftarrow> thread_current k;
     let ready_threads = int (length (ready_list k)) + (if cur = idle_thread k then 0 else 1);
     la \<leftarrow> new_load_avg (load_avg k) ready_threads;
     Some (k\<lparr>load_avg := la\<rparr>)
   }"

definition update_periodic_recent_cpu :: "kstate \<Rightarrow> kstate option" where
  "update_periodic_recent_cpu k = do {
     cur \<leftarrow> thread_current k;
     Some (if cur \<noteq> idle_thread k
           then upd_thread cur (\<lambda>th. th\<lparr>recent_cpu := fp_add_int (recent_cpu th) 1\<rparr>) k
           else k)
   }"

fun recent_cpu_loop :: "tptr list \<Rightarrow> kstate \<Rightarrow> kstate option" where
  "recent_cpu_loop [] k = Some k"
| "recent_cpu_loop (t # ts) k = do {
     th \<leftarrow> threads k t;
     (if status th \<noteq> THREAD_DYING \<and> t \<noteq> idle_thread k then do {
        r \<leftarrow> new_recent_cpu (load_avg k) (recent_cpu th) (nice th);
        recent_cpu_loop ts (upd_thread t (\<lambda>th. th\<lparr>recent_cpu := r\<rparr>) k)
      }
      else recent_cpu_loop ts k)
   }"

definition update_recent_cpu :: "kstate \<Rightarrow> kstate option" where
  "update_recent_cpu k = recent_cpu_loop (all_list k) k"

definition TIME_SLICE :: nat where "TIME_SLICE = 4"

text \<open>The statistics of thread_tick.\<close>

definition count_tick :: "tptr \<Rightarrow> thread \<Rightarrow> kstate \<Rightarrow> kstate" where
  "count_tick t th k =
     (if t = idle_thread k then k\<lparr>idle_ticks := idle_ticks k + 1\<rparr>
      else if userprog k \<and> pagedir th \<noteq> 0 then k\<lparr>user_ticks := user_ticks k + 1\<rparr>
      else k\<lparr>kernel_ticks := kernel_ticks k + 1\<rparr>)"

definition thread_tick :: "kstate \<Rightarrow> kstate option" where
  "thread_tick k = do {
     t \<leftarrow> thread_current k;
     th \<leftarrow> threads k t;
     let k = count_tick t th k;
     let k = k\<lparr>thread_ticks := thread_ticks k + 1\<rparr>;
     (if thread_ticks k \<ge> TIME_SLICE then intr_yield_on_return k else Some k)
   }"

end
