(* ===== verification/Synch.thy ===== *)
theory Synch
  imports Kernel
begin

text \<open>
  Semaphores, locks and condition variables of threads/synch.c.  A function that may
  sleep pushes the frames of its remainder before it blocks.
\<close>

section \<open>Semaphores\<close>

definition set_sema :: "sema_id \<Rightarrow> semaphore \<Rightarrow> kstate \<Rightarrow> kstate" where
  "set_sema s v k = k\<lparr>semas := (semas k)(s := v)\<rparr>"

definition sema_init :: "sema_id \<Rightarrow> nat \<Rightarrow> kstate \<Rightarrow> kstate" where
  "sema_init s v k = set_sema s \<lparr>sem_value = v, waiters = []\<rparr> k"

text \<open>One test of the while loop of sema_down, with interrupts off.\<close>

definition sema_down_loop :: "sema_id \<Rightarrow> kstate \<Rightarrow> kstate option" where
  "sema_down_loop s k =
     (let sem = semas k s in
      if sem_value sem = 0 then do {
        cur \<leftarrow> thread_current k;
        let k = set_sema s (sem\<lparr>waiters := insert_ordered (priority_comp k) cur (waiters sem)\<rparr>) k;
        thread_block (push (SemaDownLoop s) k)
      }
      else Some (set_sema s (sem\<lparr>sem_value := sem_value sem - 1\<rparr>) k))"

definition sema_down :: "sema_id \<Rightarrow> kstate \<Rightarrow> kstate option" where
  "sema_down s k = do {
     ASSERT (\<not> in_external_intr k);
     let old_level = intr_level_of k;
     sema_down_loop s (push (SetLevel old_level) (intr_disable k))
   }"

definition sema_try_down :: "sema_id \<Rightarrow> kstate \<Rightarrow> bool \<times> kstate" where
  "sema_try_down s k =
     (let sem = semas k s in
      if sem_value sem > 0
      then (True, set_sema s (sem\<lparr>sem_value := sem_value sem - 1\<rparr>) k)
      else (False, k))"

text \<open>The unsigned counter wraps at 2 ^ 32.\<close>

definition sema_up :: "sema_id \<Rightarrow> kstate \<Rightarrow> kstate option" where
  "sema_up s k = do {
     let old_level = intr_level_of k;
     let k = intr_disable k;
     k \<leftarrow> (case waiters (semas k s) of
            [] \<Rightarrow> Some k
          | t # ts \<Rightarrow> thread_unblock t (set_sema s ((semas k s)\<lparr>waiters := ts\<rparr>) k));
     let k = set_sema s ((semas k s)\<lparr>sem_value := (sem_value (semas k s) + 1) mod 2 ^ 32\<rparr>) k;
     thread_yield (push (SetLevel old_level) k)
   }"

section \<open>Locks\<close>

definition lock_init :: "nat \<Rightarrow> kstate \<Rightarrow> kstate" where
  "lock_init l k = sema_init (LockSema l) 1 (k\<lparr>lock_holder := (lock_holder k)(l := 0)\<rparr>)"

definition lock_held_by_current_thread :: "nat \<Rightarrow> kstate \<Rightarrow> bool option" where
  "lock_held_by_current_thread l k = do {
     cur \<leftarrow> thread_current k;
     Some (lock_holder k l = cur)
   }"

definition lock_acquire :: "nat \<Rightarrow> kstate \<Rightarrow> kstate option" where
  "lock_acquire l k = do {
     ASSERT (\<not> in_external_intr k);
     held \<leftarrow> lock_held_by_current_thread l k;
     ASSERT (\<not> held);
     sema_down (LockSema l) (push (LockAcquired l) k)
   }"

text \<open>What lock_acquire does after sema_down returns.\<close>

definition lock_acquired :: "nat \<Rightarrow> kstate \<Rightarrow> kstate option" where
  "lock_acquired l k = do {
     cur \<leftarrow> thread_current k;
     Some (k\<lparr>lock_holder := (lock_holder k)(l := cur)\<rparr>)
   }"

definition lock_try_acquire :: "nat \<Rightarrow> kstate \<Rightarrow> (bool \<times> kstate) option" where
  "lock_try_acquire l k = do {
     held \<leftarrow> lock_held_by_current_thread l k;
     ASSERT (\<not> held);
     let success = fst (sema_try_down (LockSema l) k);
     let k = snd (sema_try_down (LockSema l) k);
     (if success then do { k \<leftarrow> lock_acquired l k; Some (True, k) } else Some (False, k))
   }"

text \<open>An interrupt may arrive between the two statements of lock_release, so the call of
  sema_up is a frame of its own.\<close>

definition lock_release :: "nat \<Rightarrow> kstate \<Rightarrow> kstate option" where
  "lock_release l k = do {
     held \<leftarrow> lock_held_by_current_thread l k;
     ASSERT held;
     Some (push (LockReleaseUp l) (k\<lparr>lock_holder := (lock_holder k)(l := 0)\<rparr>))
   }"

section \<open>Condition variables\<close>

text \<open>The semaphore_elem of a waiting thread lives on its stack: the waiter is known by
  the thread.\<close>

definition set_cond :: "nat \<Rightarrow> tptr list \<Rightarrow> kstate \<Rightarrow> kstate" where
  "set_cond c ts k = k\<lparr>cond_waiters := (cond_waiters k)(c := ts)\<rparr>"

definition cond_init :: "nat \<Rightarrow> kstate \<Rightarrow> kstate" where
  "cond_init c k = set_cond c [] k"

definition cond_wait :: "nat \<Rightarrow> nat \<Rightarrow> kstate \<Rightarrow> kstate option" where
  "cond_wait c l k = do {
     ASSERT (\<not> in_external_intr k);
     held \<leftarrow> lock_held_by_current_thread l k;
     ASSERT held;
     cur \<leftarrow> thread_current k;
     let k = sema_init (CondWaiter cur) 0 k;
     let k = set_cond c (cond_waiters k c @ [cur]) k;
     lock_release l (push CondWaitDown (push (CondWaitLock l) k))
   }"

definition cond_wait_down :: "kstate \<Rightarrow> kstate option" where
  "cond_wait_down k = do { cur \<leftarrow> thread_current k; sema_down (CondWaiter cur) k }"

definition cond_signal :: "nat \<Rightarrow> nat \<Rightarrow> kstate \<Rightarrow> kstate option" where
  "cond_signal c l k = do {
     ASSERT (\<not> in_external_intr k);
     held \<leftarrow> lock_held_by_current_thread l k;
     ASSERT held;
     (case cond_waiters k c of
        [] \<Rightarrow> Some k
      | t # ts \<Rightarrow> sema_up (CondWaiter t) (set_cond c ts k))
   }"

text \<open>The loop of cond_broadcast: each signal may yield, the rest of the loop is a frame.\<close>

definition cond_broadcast :: "nat \<Rightarrow> nat \<Rightarrow> kstate \<Rightarrow> kstate option" where
  "cond_broadcast c l k =
     (if cond_waiters k c = [] then Some k else cond_signal c l (push (CondBroadcast c l) k))"

end
