(* ===== verification/Timer.thy ===== *)
theory Timer
  imports Kernel
begin

text \<open>
  The clock of devices/timer.c: the tick handler with the wake-ups, the aging and the
  feedback-queue updates, and timer_sleep.  The delay loops are counted iterations.
\<close>

definition TIMER_FREQ :: int where "TIMER_FREQ = 100"

definition timer_ticks :: "kstate \<Rightarrow> int" where
  "timer_ticks k = ticks k"

definition timer_elapsed :: "int \<Rightarrow> kstate \<Rightarrow> int" where
  "timer_elapsed since k = wrap64 (timer_ticks k - since)"

definition timer_sleep :: "int \<Rightarrow> kstate \<Rightarrow> kstate option" where
  "timer_sleep n k = do {
     let start = timer_ticks k;
     ASSERT (intr_level_of k = INTR_ON);
     let k = push (SetLevel (intr_level_of k)) k;
     thread_sleep (wrap64 (start + n)) (intr_disable k)
   }"

text \<open>The handler proper: devices/timer.c's timer_interrupt.\<close>

definition mlfqs_updates :: "kstate \<Rightarrow> kstate option" where
  "mlfqs_updates k = do {
     k \<leftarrow> update_periodic_recent_cpu k;
     k \<leftarrow> (if ticks k smod TIMER_FREQ = 0
          then do { k \<leftarrow> update_load_avg k; update_recent_cpu k } else Some k);
     (if ticks k smod 4 = 0 then update_priority k else Some k)
   }"

definition timer_interrupt :: "kstate \<Rightarrow> kstate option" where
  "timer_interrupt k = do {
     let k = k\<lparr>ticks := wrap64 (ticks k + 1)\<rparr>;
     k \<leftarrow> thread_tick k;
     let old_level = intr_level_of k;
     let k = intr_disable k;
     k \<leftarrow> thread_alarm (ticks k) k;
     k \<leftarrow> (if thread_prior_aging k then thread_priority_aging k else Some k);
     k \<leftarrow> (if thread_mlfqs k then mlfqs_updates k else Some k);
     intr_set_level old_level k
   }"

text \<open>intr_handler for the timer's vector 0x20, an external interrupt: the CPU disables
  interrupts on entry, and the iret at the end enables them again.\<close>

definition intr_handler_timer :: "kstate \<Rightarrow> kstate option" where
  "intr_handler_timer k = do {
     ASSERT (intr_level_of k = INTR_OFF);
     ASSERT (\<not> in_external_intr k);
     let k = k\<lparr>in_external_intr := True, yield_on_return := False\<rparr>;
     k \<leftarrow> timer_interrupt k;
     ASSERT (intr_level_of k = INTR_OFF);
     ASSERT (in_external_intr k);
     let k = k\<lparr>in_external_intr := False\<rparr>;
     (if yield_on_return k then thread_yield k else Some k)
   }"

definition timer_irq :: "kstate \<Rightarrow> kstate option" where
  "timer_irq k = do {
     ASSERT (intr_level_of k = INTR_ON);
     intr_handler_timer (intr_disable (push (SetLevel INTR_ON) k))
   }"

section \<open>Delays\<close>

text \<open>The number of iterations of busy_wait, and how many ticks or iterations a delay asks
  for; \<open>lpt\<close> is loops_per_tick (an unsigned).  The product is an int64_t.\<close>

fun busy_wait :: "nat \<Rightarrow> nat" where
  "busy_wait 0 = 0"
| "busy_wait (Suc n) = Suc (busy_wait n)"

definition real_time_delay :: "int \<Rightarrow> int \<Rightarrow> int \<Rightarrow> nat option" where
  "real_time_delay lpt num denom = do {
     ASSERT (denom smod 1000 = 0);
     ASSERT (denom sdiv 1000 \<noteq> 0);
     let loops = wrap64 (wrap64 (lpt * num) sdiv 1000 * TIMER_FREQ) sdiv (denom sdiv 1000);
     Some (busy_wait (nat loops))
   }"

datatype sleep_kind = SleepTicks int | Delay nat

definition real_time_sleep :: "int \<Rightarrow> int \<Rightarrow> int \<Rightarrow> kstate \<Rightarrow> sleep_kind option" where
  "real_time_sleep lpt num denom k = do {
     let n = wrap64 (num * TIMER_FREQ) sdiv denom;
     ASSERT (intr_level_of k = INTR_ON);
     (if n > 0 then Some (SleepTicks n)
      else do { d \<leftarrow> real_time_delay lpt num denom; Some (Delay d) })
   }"

definition timer_msleep :: "int \<Rightarrow> int \<Rightarrow> kstate \<Rightarrow> sleep_kind option" where
  "timer_msleep lpt ms k = real_time_sleep lpt ms 1000 k"

definition timer_usleep :: "int \<Rightarrow> int \<Rightarrow> kstate \<Rightarrow> sleep_kind option" where
  "timer_usleep lpt us k = real_time_sleep lpt us (1000 * 1000) k"

definition timer_nsleep :: "int \<Rightarrow> int \<Rightarrow> kstate \<Rightarrow> sleep_kind option" where
  "timer_nsleep lpt ns k = real_time_sleep lpt ns (1000 * 1000 * 1000) k"

text \<open>timer_calibrate, given which loop counts overrun a tick (too_many_loops).  The
  first loop doubles until the next value would overrun; an overflow to 0 fails an ASSERT.
  The second one refines the next bits.\<close>

partial_function (option) calibrate_double :: "(nat \<Rightarrow> bool) \<Rightarrow> nat \<Rightarrow> nat option" where
  "calibrate_double too_many lpt =
     (if too_many (lpt * 2 mod 2 ^ 32) then Some lpt
      else if lpt * 2 mod 2 ^ 32 = 0 then None
      else calibrate_double too_many (lpt * 2 mod 2 ^ 32))"

fun calibrate_refine :: "(nat \<Rightarrow> bool) \<Rightarrow> nat list \<Rightarrow> nat \<Rightarrow> nat" where
  "calibrate_refine too_many [] lpt = lpt"
| "calibrate_refine too_many (b # bs) lpt =
     calibrate_refine too_many bs (if \<not> too_many (or lpt b) then or lpt b else lpt)"

definition timer_calibrate :: "(nat \<Rightarrow> bool) \<Rightarrow> nat option" where
  "timer_calibrate too_many = do {
     high_bit \<leftarrow> calibrate_double too_many (2 ^ 10);
     Some (calibrate_refine too_many (map (\<lambda>i. high_bit div 2 ^ i) [1..<10]) high_bit)
   }"

end
