(* ===== verification/Lifecycle.thy ===== *)
theory Lifecycle
  imports Synch Timer
begin

text \<open>
  The life of a thread: thread_init, thread_create, thread_start, idle, kernel_thread and
  thread_exit of threads/thread.c, and the parts of userprog/process.c that synchronise a
  parent with its child: process_execute, the hand-over at the end of load and in
  start_process, and process_wait.

  \<open>exec_frame\<close> runs one frame of the running thread and \<open>kstep\<close> is the step relation of
  the whole kernel: the running thread runs its next frame or calls a kernel function, or
  the timer interrupts it.
\<close>

section \<open>Creation\<close>

text \<open>memset (t, 0, sizeof *t).\<close>

definition zero_thread :: thread where
  "zero_thread = \<lparr>tid = 0, status = THREAD_RUNNING, tname = [], priority = 0, alarm_ticks = 0,
     recent_cpu = 0, nice = 0, pagedir = 0, parent = 0, exit_status = 0, ready_to_exit = False,
     deleted_from_parent = False, child_list = [], load_finish = False,
     child_load_success = False, files = replicate 130 0, fd_used = replicate 130 False, frames = [], retval = 0\<rparr>"

definition init_thread :: "tptr \<Rightarrow> string \<Rightarrow> int \<Rightarrow> kstate \<Rightarrow> kstate option" where
  "init_thread t name pri k = do {
     ASSERT (t \<noteq> 0);
     ASSERT (PRI_MIN \<le> pri \<and> pri \<le> PRI_MAX);
     let th = zero_thread\<lparr>status := THREAD_BLOCKED, tname := take 15 name, priority := pri\<rparr>;
     Some (k\<lparr>threads := (threads k)(t \<mapsto> th), all_list := all_list k @ [t]\<rparr>)
   }"

text \<open>tid_lock is lock number 0.\<close>

definition tid_lock :: nat where "tid_lock = 0"

text \<open>allocate_tid up to the return of lock_acquire, and its rest.\<close>

definition allocate_tid :: "kstate \<Rightarrow> kstate option" where
  "allocate_tid k = lock_acquire tid_lock (push TidBump k)"

definition tid_bump :: "kstate \<Rightarrow> kstate option" where
  "tid_bump k =
     lock_release tid_lock (ret (next_tid k) (k\<lparr>next_tid := wrap32 (next_tid k + 1)\<rparr>))"

text \<open>The page for the new thread is what palloc_get_page returned, None for no memory.\<close>

definition thread_create :: "tptr option \<Rightarrow> string \<Rightarrow> int \<Rightarrow> tfunc \<Rightarrow> kstate \<Rightarrow> kstate option" where
  "thread_create page name pri fn k =
     (case page of
        None \<Rightarrow> Some (ret TID_ERROR k)
      | Some t \<Rightarrow> do {
          k \<leftarrow> init_thread t name pri k;
          allocate_tid (push (CreateRest t fn) k)
        })"

text \<open>The members that the user program support adds, in thread_init and thread_create.\<close>

definition user_init :: "tptr \<Rightarrow> tptr \<Rightarrow> kstate \<Rightarrow> kstate" where
  "user_init t par k =
     (let k = upd_thread t (\<lambda>th. th\<lparr>parent := par, child_list := []\<rparr>) k;
          k = upd_thread par (\<lambda>th. th\<lparr>child_list := child_list th @ [t]\<rparr>) k;
          k = upd_thread t (\<lambda>th. th\<lparr>ready_to_exit := False, deleted_from_parent := False,
              files := replicate 130 0, fd_used := replicate 130 False\<rparr>) k;
          k = sema_init (FdWait t) 1 k
      in upd_thread t (\<lambda>th. th\<lparr>load_finish := False, child_load_success := True\<rparr>) k)"

text \<open>The members that thread_create sets after allocate_tid has returned: the tid, those of
  user_init, the inherited ones of the feedback queue, and the first stack frames.\<close>

definition inherit_mlfqs :: "tptr \<Rightarrow> thread \<Rightarrow> kstate \<Rightarrow> kstate" where
  "inherit_mlfqs t cur k =
     (if thread_mlfqs k
      then upd_thread t (\<lambda>th. th\<lparr>nice := nice cur, recent_cpu := recent_cpu cur\<rparr>) k else k)"

definition set_members :: "tptr \<Rightarrow> tfunc \<Rightarrow> thread \<Rightarrow> kstate \<Rightarrow> kstate" where
  "set_members t fn cur k =
     upd_thread t (\<lambda>th. th\<lparr>frames := [KernelThread fn, ThreadExit]\<rparr>)
       (inherit_mlfqs t cur
         (if userprog k
          then user_init t (running k) (upd_thread t (\<lambda>th. th\<lparr>tid := retval cur\<rparr>) k)
          else upd_thread t (\<lambda>th. th\<lparr>tid := retval cur\<rparr>) k))"

definition create_rest :: "tptr \<Rightarrow> tfunc \<Rightarrow> kstate \<Rightarrow> kstate option" where
  "create_rest t fn k = do {
     cur \<leftarrow> threads k (running k);
     k \<leftarrow> thread_unblock t (set_members t fn cur k);
     thread_yield (push (ReturnVal (retval cur)) k)
   }"

text \<open>thread_init, up to the call of allocate_tid; \<open>init_rest\<close> is what follows it.\<close>

definition thread_init :: "tptr \<Rightarrow> kstate \<Rightarrow> kstate option" where
  "thread_init t k = do {
     ASSERT (intr_level_of k = INTR_OFF);
     let k = lock_init tid_lock k;
     let k = k\<lparr>ready_list := [], all_list := [], sleep_list := [], running := t, initial_thread := t\<rparr>;
     k \<leftarrow> init_thread t ''main'' PRI_DEFAULT k;
     let k = set_status THREAD_RUNNING t k;
     allocate_tid k
   }"

definition init_rest :: "kstate \<Rightarrow> kstate option" where
  "init_rest k = do {
     let t = initial_thread k;
     th \<leftarrow> threads k t;
     let k = upd_thread t (\<lambda>x. x\<lparr>tid := retval th\<rparr>) k;
     let k = (if userprog k then user_init t t k else k);
     Some (if thread_mlfqs k then upd_thread t (\<lambda>x. x\<lparr>nice := 0, recent_cpu := 0\<rparr>) k else k)
   }"

text \<open>thread_start, up to the return of thread_create, and its rest.  \<open>s\<close> is idle_started.\<close>

definition thread_start :: "tptr option \<Rightarrow> sema_id \<Rightarrow> kstate \<Rightarrow> kstate option" where
  "thread_start page s k =
     thread_create page ''idle'' PRI_MIN (IdleFn s) (push (StartRest s) (sema_init s 0 k))"

definition start_rest :: "sema_id \<Rightarrow> kstate \<Rightarrow> kstate option" where
  "start_rest s k = do { k \<leftarrow> intr_enable k; sema_down s k }"

section \<open>Bodies and exit\<close>

definition kernel_thread :: "tfunc \<Rightarrow> kstate \<Rightarrow> kstate option" where
  "kernel_thread fn k = do {
     k \<leftarrow> intr_enable k;
     Some (case fn of
        IdleFn s \<Rightarrow> push (IdleInit s) k
      | StartProcess ok \<Rightarrow> push (Loaded ok) k
      | KernelFn \<Rightarrow> k)
   }"

definition idle_init :: "sema_id \<Rightarrow> kstate \<Rightarrow> kstate option" where
  "idle_init s k = do {
     cur \<leftarrow> thread_current k;
     let k = k\<lparr>idle_thread := cur\<rparr>;
     sema_up s (push IdleLoop k)
   }"

definition idle_loop :: "kstate \<Rightarrow> kstate option" where
  "idle_loop k = thread_block (push IdleSti (intr_disable k))"

definition thread_exit :: "kstate \<Rightarrow> kstate option" where
  "thread_exit k = do {
     ASSERT (\<not> in_external_intr k);
     cur \<leftarrow> thread_current k;
     Some (if userprog k
           then push ExitWait (upd_thread cur (\<lambda>th. th\<lparr>ready_to_exit := True\<rparr>) k)
           else push ExitTail k)
   }"

text \<open>while (!thread_current()->deleted_from_parent) thread_yield();\<close>

definition exit_wait :: "kstate \<Rightarrow> kstate option" where
  "exit_wait k = do {
     th \<leftarrow> cur_thread k;
     (if deleted_from_parent th then Some (push ExitTail k) else thread_yield (push ExitWait k))
   }"

text \<open>process_exit frees the page directory; then the thread leaves all_list and dies.\<close>

definition exit_tail :: "kstate \<Rightarrow> kstate option" where
  "exit_tail k = do {
     cur \<leftarrow> thread_current k;
     let k = (if userprog k then upd_thread cur (\<lambda>th. th\<lparr>pagedir := 0\<rparr>) k else k);
     let k = intr_disable k;
     let k = k\<lparr>all_list := remove1 cur (all_list k)\<rparr>;
     schedule (set_status THREAD_DYING cur k)
   }"

section \<open>Parents and children (userprog/process.c)\<close>

text \<open>
  process_execute after its own allocations: the name is the command, \<open>ok\<close> is whether load
  will succeed in the child.  After thread_create it spins until load_finish is set, and
  returns the tid.
\<close>

definition process_execute :: "tptr option \<Rightarrow> string \<Rightarrow> bool \<Rightarrow> kstate \<Rightarrow> kstate option" where
  "process_execute page command ok k =
     thread_create page command PRI_DEFAULT (StartProcess ok) (push ExecCreated k)"

text \<open>while (!thread_current()->load_finish) thread_yield(); the tid is a local variable.\<close>

definition exec_created :: "kstate \<Rightarrow> kstate option" where
  "exec_created k = do { th \<leftarrow> cur_thread k; Some (push (ExecWaitLoad (retval th)) k) }"

definition exec_wait_load :: "int \<Rightarrow> kstate \<Rightarrow> kstate option" where
  "exec_wait_load t k = do {
     th \<leftarrow> cur_thread k;
     (if load_finish th then Some (ret t k) else thread_yield (push (ExecWaitLoad t) k))
   }"

text \<open>The end of load (on failure) and start_process up to its jump to user code.  A parent
  whose page has been freed is a use after free: no result.\<close>

definition loaded :: "bool \<Rightarrow> kstate \<Rightarrow> kstate option" where
  "loaded ok k = do {
     th \<leftarrow> cur_thread k;
     _ \<leftarrow> threads k (parent th);
     let k = (if \<not> ok then upd_thread (parent th) (\<lambda>p. p\<lparr>child_load_success := False\<rparr>) k else k);
     let k = upd_thread (parent th) (\<lambda>p. p\<lparr>load_finish := True\<rparr>) k;
     (if \<not> ok then thread_exit k else Some k)
   }"

definition find_child :: "kstate \<Rightarrow> int \<Rightarrow> tptr list \<Rightarrow> tptr option" where
  "find_child k child_tid cs =
     find (\<lambda>c. case threads k c of None \<Rightarrow> False | Some th \<Rightarrow> tid th = child_tid) cs"

definition process_wait :: "int \<Rightarrow> kstate \<Rightarrow> kstate option" where
  "process_wait child_tid k = do {
     th \<leftarrow> cur_thread k;
     Some (case find_child k child_tid (child_list th) of
        None \<Rightarrow> ret (- 1) k
      | Some c \<Rightarrow> push (WaitChild c) k)
   }"

text \<open>while (!child->ready_to_exit) thread_yield(); and what follows it.\<close>

definition wait_child :: "tptr \<Rightarrow> kstate \<Rightarrow> kstate option" where
  "wait_child c k = do {
     ch \<leftarrow> threads k c;
     (if \<not> ready_to_exit ch then thread_yield (push (WaitChild c) k)
      else do {
        cur \<leftarrow> thread_current k;
        let k = upd_thread cur (\<lambda>th. th\<lparr>child_list := remove1 c (child_list th)\<rparr>) k;
        let k = upd_thread c (\<lambda>th. th\<lparr>deleted_from_parent := True\<rparr>) k;
        Some (ret (exit_status ch) k)
      })
   }"

text \<open>syscall.c's exec after process_execute has returned.\<close>

definition exec_result :: "kstate \<Rightarrow> kstate option" where
  "exec_result k = do {
     th \<leftarrow> cur_thread k;
     Some (if \<not> child_load_success th then ret (- 1) k else k)
   }"

section \<open>The kernel's steps\<close>

fun exec_frame :: "frame \<Rightarrow> kstate \<Rightarrow> kstate option" where
  "exec_frame (SetLevel lvl) k = intr_set_level lvl k"
| "exec_frame (KernelThread fn) k = kernel_thread fn k"
| "exec_frame (SemaDownLoop s) k = sema_down_loop s k"
| "exec_frame (LockAcquired l) k = lock_acquired l k"
| "exec_frame (LockReleaseUp l) k = sema_up (LockSema l) k"
| "exec_frame CondWaitDown k = cond_wait_down k"
| "exec_frame (CondWaitLock l) k = lock_acquire l k"
| "exec_frame (CondBroadcast c l) k = cond_broadcast c l k"
| "exec_frame TidBump k = tid_bump k"
| "exec_frame (CreateRest t fn) k = create_rest t fn k"
| "exec_frame (StartRest s) k = start_rest s k"
| "exec_frame (ReturnVal v) k = Some (ret v k)"
| "exec_frame (IdleInit s) k = idle_init s k"
| "exec_frame IdleLoop k = idle_loop k"
| "exec_frame IdleSti k = do { k \<leftarrow> intr_enable k; Some (push IdleHalted k) }"
| "exec_frame IdleHalted k = Some (push IdleLoop k)"
| "exec_frame ThreadExit k = thread_exit k"
| "exec_frame ExitWait k = exit_wait k"
| "exec_frame ExitTail k = exit_tail k"
| "exec_frame (Loaded ok) k = loaded ok k"
| "exec_frame ExecCreated k = exec_created k"
| "exec_frame (ExecWaitLoad t) k = exec_wait_load t k"
| "exec_frame ExecResult k = exec_result k"
| "exec_frame (WaitChild c) k = wait_child c k"

text \<open>The functions a thread's own code may call between its frames.\<close>

datatype call =
    SemaDown nat
  | SemaUp nat
  | LockAcquire nat
  | LockRelease nat
  | CondWait nat nat
  | CondSignal nat nat
  | CondBcast nat nat
  | Yield
  | SetPriority int
  | SetNice int
  | Sleep int
  | Create "tptr option" string int
  | Exec "tptr option" string bool
  | Wait int
  | Exit int

fun call_fn :: "call \<Rightarrow> kstate \<Rightarrow> kstate option" where
  "call_fn (SemaDown s) k = sema_down (Sema s) k"
| "call_fn (SemaUp s) k = sema_up (Sema s) k"
| "call_fn (LockAcquire l) k = lock_acquire l k"
| "call_fn (LockRelease l) k = lock_release l k"
| "call_fn (CondWait c l) k = cond_wait c l k"
| "call_fn (CondSignal c l) k = cond_signal c l k"
| "call_fn (CondBcast c l) k = cond_broadcast c l k"
| "call_fn Yield k = thread_yield k"
| "call_fn (SetPriority p) k = thread_set_priority p k"
| "call_fn (SetNice n) k = thread_set_nice n k"
| "call_fn (Sleep n) k = timer_sleep n k"
| "call_fn (Create page name pri) k = thread_create page name pri KernelFn k"
| "call_fn (Exec page name ok) k = process_execute page name ok (push ExecResult k)"
| "call_fn (Wait t) k = process_wait t k"
| "call_fn (Exit st) k = do {
     cur \<leftarrow> thread_current k;
     thread_exit (upd_thread cur (\<lambda>th. th\<lparr>exit_status := st\<rparr>) k)
   }"

text \<open>What a call may assume: a page that palloc hands out is none that a thread lives in,
  and not the null page.  thread_set_priority, which checks nothing, is given any int but INT_MAX,
  which the aging of the ready list would wrap around (\<open>int_max_breaks_order\<close> of theory KernelProps).\<close>

fun call_pre :: "call \<Rightarrow> kstate \<Rightarrow> bool" where
  "call_pre (Create (Some t) name pri) k \<longleftrightarrow> t \<noteq> 0 \<and> threads k t = None"
| "call_pre (Exec (Some t) name ok) k \<longleftrightarrow> t \<noteq> 0 \<and> threads k t = None"
| "call_pre (SetPriority p) k \<longleftrightarrow> INT_MIN \<le> p \<and> p < INT_MAX"
| "call_pre _ k \<longleftrightarrow> True"

definition pop_frame :: "kstate \<Rightarrow> (frame \<times> kstate) option" where
  "pop_frame k =
     (case threads k (running k) of
        None \<Rightarrow> None
      | Some th \<Rightarrow>
          (case frames th of
             [] \<Rightarrow> None
           | f # fs \<Rightarrow> Some (f, upd_thread (running k) (\<lambda>th. th\<lparr>frames := fs\<rparr>) k)))"

text \<open>
  A thread is in its own code (its thread function or user code) when nothing is left on
  its stack but the call of thread_exit that follows the thread function.
\<close>

definition in_own_code :: "kstate \<Rightarrow> bool" where
  "in_own_code k \<longleftrightarrow>
     (case threads k (running k) of
        None \<Rightarrow> False
      | Some th \<Rightarrow> frames th = [] \<or> frames th = [ThreadExit])"

inductive kstep :: "kstate \<Rightarrow> kstate \<Rightarrow> bool" where
  step_frame: "pop_frame k = Some (f, k1) \<Longrightarrow> exec_frame f k1 = Some k' \<Longrightarrow> kstep k k'"
| step_call: "in_own_code k \<Longrightarrow> intr_level_of k = INTR_ON \<Longrightarrow> call_pre c k \<Longrightarrow>
     call_fn c k = Some k' \<Longrightarrow> kstep k k'"
| step_tick: "intr_level_of k = INTR_ON \<Longrightarrow> timer_irq k = Some k' \<Longrightarrow> kstep k k'"

inductive_cases kstepE: "kstep k k'"

inductive kreach :: "kstate \<Rightarrow> kstate \<Rightarrow> bool" for k0 where
  kreach_refl: "kreach k0 k0"
| kreach_step: "kreach k0 k \<Longrightarrow> kstep k k' \<Longrightarrow> kreach k0 k'"

end
