(* ===== verification/KernelInv.thy ===== *)
theory KernelInv
  imports Lifecycle
begin

text \<open>
  The invariant of the scheduler and of the wait lists, and its preservation.

  The invariant reads a state only through five views: the status, the priority and the
  wake-up time of each thread, the threads under construction on each kernel stack, and
  the lists that link threads through their \<open>elem\<close> member.  One simp rule per state
  transformer and view carries the proofs.
\<close>

section \<open>Views of the state\<close>

text \<open>The lists a thread's \<open>elem\<close> member can be on, and the status of their members.\<close>

datatype place = PReady | PSleep | PWait sema_id

fun on_list :: "kstate \<Rightarrow> place \<Rightarrow> tptr list" where
  "on_list k PReady = ready_list k"
| "on_list k PSleep = sleep_list k"
| "on_list k (PWait s) = waiters (semas k s)"

fun place_status :: "place \<Rightarrow> thread_status" where
  "place_status PReady = THREAD_READY"
| "place_status PSleep = THREAD_BLOCKED"
| "place_status (PWait s) = THREAD_BLOCKED"

definition st :: "kstate \<Rightarrow> tptr \<Rightarrow> thread_status option" where
  "st k t = map_option status (threads k t)"

text \<open>The threads whose thread_create has not finished: the frame of its remainder is on
  the creator's stack.\<close>

fun creates :: "frame list \<Rightarrow> tptr list" where
  "creates [] = []"
| "creates (f # fs) = (case f of CreateRest t fn \<Rightarrow> t # creates fs | _ \<Rightarrow> creates fs)"

definition cr :: "kstate \<Rightarrow> tptr \<Rightarrow> tptr list" where
  "cr k u = (case threads k u of None \<Rightarrow> [] | Some th \<Rightarrow> creates (frames th))"

definition off_lists :: "kstate \<Rightarrow> tptr \<Rightarrow> bool" where
  "off_lists k t \<longleftrightarrow> (\<forall>p. t \<notin> set (on_list k p))"

lemma off_lists_iff:
  "off_lists k t \<longleftrightarrow> t \<notin> set (ready_list k) \<and> t \<notin> set (sleep_list k) \<and>
     (\<forall>s. t \<notin> set (waiters (semas k s)))"
  unfolding off_lists_def by (metis on_list.elims on_list.simps)

section \<open>The invariant\<close>

definition elems_ok :: "kstate \<Rightarrow> bool" where
  "elems_ok k \<longleftrightarrow>
     (\<forall>p. distinct (on_list k p)) \<and>
     (\<forall>p. \<forall>t \<in> set (on_list k p). st k t = Some (place_status p)) \<and>
     (\<forall>p q t. t \<in> set (on_list k p) \<longrightarrow> t \<in> set (on_list k q) \<longrightarrow> p = q)"

definition sorted_ok :: "kstate \<Rightarrow> bool" where
  "sorted_ok k \<longleftrightarrow>
     sorted_wrt (\<lambda>a b. prio k a \<ge> prio k b) (ready_list k) \<and>
     sorted_wrt (\<lambda>a b. alarm k a \<le> alarm k b) (sleep_list k)"

definition all_ok :: "kstate \<Rightarrow> bool" where
  "all_ok k \<longleftrightarrow> distinct (all_list k) \<and>
     (\<forall>t. t \<in> set (all_list k) \<longleftrightarrow> st k t \<noteq> None \<and> st k t \<noteq> Some THREAD_DYING)"

definition embryo_ok :: "kstate \<Rightarrow> bool" where
  "embryo_ok k \<longleftrightarrow>
     (\<forall>u. \<forall>t \<in> set (cr k u). st k t = Some THREAD_BLOCKED \<and> off_lists k t \<and> t \<noteq> idle_thread k) \<and>
     (\<forall>u. distinct (cr k u)) \<and>
     (\<forall>u v t. t \<in> set (cr k u) \<longrightarrow> t \<in> set (cr k v) \<longrightarrow> u = v)"

definition idle_ok :: "kstate \<Rightarrow> bool" where
  "idle_ok k \<longleftrightarrow> st k 0 = None \<and> off_lists k (idle_thread k) \<and>
     st k (idle_thread k) \<noteq> Some THREAD_DYING \<and>
     (\<forall>t. st k t = Some THREAD_READY \<longrightarrow> t \<in> set (ready_list k) \<or> t = idle_thread k)"

definition kinv :: "kstate \<Rightarrow> bool" where
  "kinv k \<longleftrightarrow> elems_ok k \<and> sorted_ok k \<and> all_ok k \<and> embryo_ok k \<and> idle_ok k"

lemmas kinv_defs = kinv_def elems_ok_def sorted_ok_def all_ok_def embryo_ok_def idle_ok_def

definition run_ok :: "kstate \<Rightarrow> bool" where
  "run_ok k \<longleftrightarrow> st k (running k) = Some THREAD_RUNNING \<and>
     (\<forall>t. st k t = Some THREAD_RUNNING \<longrightarrow> t = running k) \<and>
     (\<forall>t. st k t = Some THREAD_DYING \<longrightarrow> t = initial_thread k)"

definition kwf :: "kstate \<Rightarrow> bool" where
  "kwf k \<longleftrightarrow> kinv k \<and> run_ok k"

text \<open>Between leaving the running thread and switching to the next one: no thread runs,
  and only the thread being left may be dying.\<close>

definition switch_ok :: "kstate \<Rightarrow> bool" where
  "switch_ok k \<longleftrightarrow> st k (running k) \<noteq> None \<and>
     (\<forall>t. st k t \<noteq> Some THREAD_RUNNING) \<and>
     (\<forall>t. st k t = Some THREAD_DYING \<longrightarrow> t = initial_thread k \<or> t = running k)"

section \<open>The views under the state transformers\<close>

named_theorems view "how the state transformers change the views"

lemma upd_thread_fields [simp]:
  "running (upd_thread t f k) = running k" "ready_list (upd_thread t f k) = ready_list k"
  "all_list (upd_thread t f k) = all_list k" "sleep_list (upd_thread t f k) = sleep_list k"
  "idle_thread (upd_thread t f k) = idle_thread k"
  "initial_thread (upd_thread t f k) = initial_thread k"
  "semas (upd_thread t f k) = semas k" "lock_holder (upd_thread t f k) = lock_holder k"
  "cond_waiters (upd_thread t f k) = cond_waiters k"
  "intr_level_of (upd_thread t f k) = intr_level_of k"
  "in_external_intr (upd_thread t f k) = in_external_intr k"
  "yield_on_return (upd_thread t f k) = yield_on_return k"
  "thread_mlfqs (upd_thread t f k) = thread_mlfqs k" "userprog (upd_thread t f k) = userprog k"
  "thread_prior_aging (upd_thread t f k) = thread_prior_aging k"
  "load_avg (upd_thread t f k) = load_avg k" "ticks (upd_thread t f k) = ticks k"
  "thread_ticks (upd_thread t f k) = thread_ticks k" "next_tid (upd_thread t f k) = next_tid k"
  by (simp_all add: upd_thread_def split: option.splits)

lemma threads_upd_thread [simp]:
  "threads (upd_thread t f k) = (threads k)(t := map_option f (threads k t))"
  by (auto simp: upd_thread_def split: option.splits)

lemma on_list_upd_thread [simp]: "on_list (upd_thread t f k) = on_list k"
  by (rule ext, rename_tac p, case_tac p) simp_all

lemma st_upd_thread [view]:
  "(\<And>th. status (f th) = status th) \<Longrightarrow> st (upd_thread t f k) = st k"
  by (rule ext) (auto simp: st_def option.map_comp o_def)

lemma prio_upd_thread [view]:
  "(\<And>th. priority (f th) = priority th) \<Longrightarrow> prio (upd_thread t f k) = prio k"
  by (rule ext) (auto simp: prio_def split: option.splits)

lemma alarm_upd_thread [view]:
  "(\<And>th. alarm_ticks (f th) = alarm_ticks th) \<Longrightarrow> alarm (upd_thread t f k) = alarm k"
  by (rule ext) (auto simp: alarm_def split: option.splits)

lemma cr_upd_thread [view]:
  "(\<And>th. creates (frames (f th)) = creates (frames th)) \<Longrightarrow> cr (upd_thread t f k) = cr k"
  by (rule ext) (auto simp: cr_def split: option.splits)

lemma set_status_fields [simp]:
  "running (set_status s t k) = running k" "ready_list (set_status s t k) = ready_list k"
  "all_list (set_status s t k) = all_list k" "sleep_list (set_status s t k) = sleep_list k"
  "idle_thread (set_status s t k) = idle_thread k"
  "initial_thread (set_status s t k) = initial_thread k"
  "semas (set_status s t k) = semas k" "intr_level_of (set_status s t k) = intr_level_of k"
  "in_external_intr (set_status s t k) = in_external_intr k"
  "on_list (set_status s t k) = on_list k"
  by (simp_all add: set_status_def)

lemma st_set_status [view]: "st (set_status s t k) = (st k)(t := map_option (\<lambda>_. s) (st k t))"
  by (rule ext) (auto simp: st_def set_status_def option.map_comp o_def)

lemma views_set_status [view]:
  "prio (set_status s t k) = prio k" "alarm (set_status s t k) = alarm k"
  "cr (set_status s t k) = cr k"
  by (simp_all add: set_status_def view)

lemma push_fields [simp]:
  "running (push f k) = running k" "ready_list (push f k) = ready_list k"
  "all_list (push f k) = all_list k" "sleep_list (push f k) = sleep_list k"
  "idle_thread (push f k) = idle_thread k" "initial_thread (push f k) = initial_thread k"
  "semas (push f k) = semas k" "intr_level_of (push f k) = intr_level_of k"
  "in_external_intr (push f k) = in_external_intr k"
  "yield_on_return (push f k) = yield_on_return k"
  "lock_holder (push f k) = lock_holder k" "cond_waiters (push f k) = cond_waiters k"
  "on_list (push f k) = on_list k"
  by (simp_all add: push_def)

lemma views_push [view]: "st (push f k) = st k" "prio (push f k) = prio k" "alarm (push f k) = alarm k"
  by (simp_all add: push_def view)

text \<open>Frames other than CreateRest leave the threads under construction alone.\<close>

definition plain_frame :: "frame \<Rightarrow> bool" where
  "plain_frame f \<longleftrightarrow> creates [f] = []"

lemma plain_frame_simps [simp]:
  "plain_frame (SetLevel v)" "plain_frame (KernelThread fn)" "plain_frame (SemaDownLoop s)"
  "plain_frame (LockAcquired l)" "plain_frame (LockReleaseUp l)" "plain_frame CondWaitDown"
  "plain_frame (CondWaitLock l)" "plain_frame (CondBroadcast c l)" "plain_frame TidBump"
  "plain_frame (StartRest s)" "plain_frame (ReturnVal r)" "plain_frame (IdleInit s)" "plain_frame IdleLoop"
  "plain_frame IdleSti" "plain_frame IdleHalted" "plain_frame ThreadExit" "plain_frame ExitWait"
  "plain_frame ExitTail" "plain_frame (Loaded ok)" "plain_frame ExecCreated"
  "plain_frame (ExecWaitLoad w)" "plain_frame ExecResult" "plain_frame (WaitChild c)"
  "\<not> plain_frame (CreateRest t fn)"
  by (simp_all add: plain_frame_def)

lemma creates_plain: "plain_frame f \<Longrightarrow> creates (f # fs) = creates fs"
  by (cases f) simp_all

lemma cr_push [view]: "plain_frame f \<Longrightarrow> cr (push f k) = cr k"
  unfolding push_def by (rule cr_upd_thread) (simp add: creates_plain del: creates.simps)

lemma cr_push_create:
  "threads k (running k) \<noteq> None \<Longrightarrow>
   cr (push (CreateRest t fn) k) = (cr k)(running k := t # cr k (running k))"
  by (rule ext) (auto simp: cr_def push_def)

lemma ret_fields [simp]:
  "running (ret v k) = running k" "ready_list (ret v k) = ready_list k"
  "all_list (ret v k) = all_list k" "sleep_list (ret v k) = sleep_list k"
  "idle_thread (ret v k) = idle_thread k" "initial_thread (ret v k) = initial_thread k"
  "semas (ret v k) = semas k" "on_list (ret v k) = on_list k"
  "lock_holder (ret v k) = lock_holder k"
  by (simp_all add: ret_def)

lemma views_ret [view]: "st (ret v k) = st k" "prio (ret v k) = prio k" "alarm (ret v k) = alarm k"
  "cr (ret v k) = cr k"
  by (simp_all add: ret_def view)

lemma intr_disable_fields [simp]:
  "running (intr_disable k) = running k" "ready_list (intr_disable k) = ready_list k"
  "all_list (intr_disable k) = all_list k" "sleep_list (intr_disable k) = sleep_list k"
  "idle_thread (intr_disable k) = idle_thread k" "initial_thread (intr_disable k) = initial_thread k"
  "semas (intr_disable k) = semas k" "threads (intr_disable k) = threads k"
  "in_external_intr (intr_disable k) = in_external_intr k"
  "intr_level_of (intr_disable k) = INTR_OFF" "userprog (intr_disable k) = userprog k"
  "lock_holder (intr_disable k) = lock_holder k" "cond_waiters (intr_disable k) = cond_waiters k"
  by (simp_all add: intr_disable_def)

text \<open>A state that agrees on the views and the lists satisfies the same invariants.\<close>

definition same_view :: "kstate \<Rightarrow> kstate \<Rightarrow> bool" where
  "same_view k k' \<longleftrightarrow> st k' = st k \<and> prio k' = prio k \<and> alarm k' = alarm k \<and> cr k' = cr k \<and>
     on_list k' = on_list k \<and> all_list k' = all_list k \<and> idle_thread k' = idle_thread k \<and>
     running k' = running k \<and> initial_thread k' = initial_thread k"

lemma on_list_eqI:
  "ready_list k' = ready_list k \<Longrightarrow> sleep_list k' = sleep_list k \<Longrightarrow>
   (\<And>s. waiters (semas k' s) = waiters (semas k s)) \<Longrightarrow> on_list k' = on_list k"
  by (rule ext, rename_tac p, case_tac p) simp_all

lemma threads_views:
  "threads k' = threads k \<Longrightarrow> st k' = st k"
  "threads k' = threads k \<Longrightarrow> prio k' = prio k"
  "threads k' = threads k \<Longrightarrow> alarm k' = alarm k"
  "threads k' = threads k \<Longrightarrow> cr k' = cr k"
  by (rule ext, simp add: st_def prio_def alarm_def cr_def)+

lemma same_view_refl [simp]: "same_view k k"
  by (simp add: same_view_def)

lemma same_view_trans [trans]: "same_view k1 k2 \<Longrightarrow> same_view k2 k3 \<Longrightarrow> same_view k1 k3"
  by (simp add: same_view_def)

lemma on_list_place: "on_list k' = on_list k \<Longrightarrow> ready_list k' = ready_list k \<and> sleep_list k' = sleep_list k"
  by (metis on_list.simps(1,2))

lemma kinv_cong:
  assumes "st k' = st k" "prio k' = prio k" "alarm k' = alarm k" "cr k' = cr k"
    "on_list k' = on_list k" "all_list k' = all_list k" "idle_thread k' = idle_thread k"
  shows "kinv k' = kinv k"
  using assms on_list_place [of k' k] by (simp add: kinv_defs off_lists_def)

lemma kinv_same_view: "same_view k k' \<Longrightarrow> kinv k \<Longrightarrow> kinv k'"
  using kinv_cong [of k' k] by (simp add: same_view_def)

lemma kwf_same_view: "same_view k k' \<Longrightarrow> kwf k \<Longrightarrow> kwf k'"
  using kinv_same_view [of k k'] by (simp add: kwf_def run_ok_def same_view_def)

lemma same_view_threads:
  assumes "threads k' = threads k" "ready_list k' = ready_list k" "sleep_list k' = sleep_list k"
    "\<And>s. waiters (semas k' s) = waiters (semas k s)" "all_list k' = all_list k"
    "idle_thread k' = idle_thread k" "running k' = running k" "initial_thread k' = initial_thread k"
  shows "same_view k k'"
  using assms threads_views [of k' k] on_list_eqI [of k' k] by (simp add: same_view_def)

lemma same_view_upd:
  assumes "\<And>th. status (f th) = status th" "\<And>th. priority (f th) = priority th"
    "\<And>th. alarm_ticks (f th) = alarm_ticks th"
    "\<And>th. creates (frames (f th)) = creates (frames th)"
  shows "same_view k (upd_thread t f k)"
  using assms by (simp add: same_view_def view)

lemma same_view_push: "plain_frame f \<Longrightarrow> same_view k (push f k)"
  by (simp add: same_view_def view)

lemma same_view_ret: "same_view k (ret v k)"
  by (simp add: same_view_def view)

lemma same_view_intr_disable: "same_view k (intr_disable k)"
  by (rule same_view_threads) (simp_all add: intr_disable_def)

lemma views_intr_disable [view]:
  "st (intr_disable k) = st k" "prio (intr_disable k) = prio k" "alarm (intr_disable k) = alarm k"
  "cr (intr_disable k) = cr k" "on_list (intr_disable k) = on_list k"
  using same_view_intr_disable [of k] by (simp_all add: same_view_def)

section \<open>Switching threads\<close>

lemma sorted_wrt_prio_cong:
  "(\<And>x. x \<in> set xs \<Longrightarrow> f x = g x) \<Longrightarrow>
   sorted_wrt (\<lambda>a b. f a \<ge> (f b :: int)) xs = sorted_wrt (\<lambda>a b. g a \<ge> g b) xs"
  by (induction xs) auto

lemma sorted_wrt_alarm_cong:
  "(\<And>x. x \<in> set xs \<Longrightarrow> f x = g x) \<Longrightarrow>
   sorted_wrt (\<lambda>a b. f a \<le> (f b :: int)) xs = sorted_wrt (\<lambda>a b. g a \<le> g b) xs"
  by (induction xs) auto

lemma kinv_off_status:
  "kinv k \<Longrightarrow> t \<in> set (on_list k p) \<Longrightarrow> st k t = Some (place_status p)"
  by (simp add: kinv_defs)

lemma kinv_place:
  assumes "kinv k" "t \<in> set (on_list k p)" "t \<in> set (on_list k q)"
  shows "p = q"
proof -
  have "\<forall>p q t. t \<in> set (on_list k p) \<longrightarrow> t \<in> set (on_list k q) \<longrightarrow> p = q"
    using assms(1) by (simp add: kinv_def elems_ok_def)
  then show ?thesis using assms(2,3) by blast
qed

lemma kinv_distinct:
  assumes "kinv k"
  shows "distinct (on_list k p)" "distinct (ready_list k)" "distinct (sleep_list k)"
    "distinct (waiters (semas k s))"
proof -
  have d: "distinct (on_list k p)" for p using assms by (simp add: kinv_defs)
  show "distinct (on_list k p)" "distinct (ready_list k)" "distinct (sleep_list k)"
    "distinct (waiters (semas k s))"
    using d [of p] d [of PReady] d [of PSleep] d [of "PWait s"] by simp_all
qed

lemma kinv_idle:
  assumes "kinv k"
  shows "st k 0 = None" "off_lists k (idle_thread k)" "st k (idle_thread k) \<noteq> Some THREAD_DYING"
    "st k t = Some THREAD_READY \<Longrightarrow> t \<in> set (ready_list k) \<or> t = idle_thread k"
  using assms by (auto simp: kinv_def idle_ok_def)

lemma kinv_not_null: "kinv k \<Longrightarrow> st k t = Some x \<Longrightarrow> t \<noteq> 0"
  using kinv_idle(1) [of k] by (metis option.distinct(1))

lemma kinv_off_lists:
  assumes "kinv k" "st k t = None \<or> st k t = Some THREAD_DYING \<or> st k t = Some THREAD_RUNNING"
  shows "off_lists k t"
  unfolding off_lists_def
proof (intro allI notI)
  fix p
  assume "t \<in> set (on_list k p)"
  with assms(1) have "st k t = Some (place_status p)" by (rule kinv_off_status)
  then show False using assms(2) by (cases p) auto
qed

text \<open>Running the first ready thread.\<close>

lemma place_cases_on: "set (on_list (k\<lparr>ready_list := ts\<rparr>) p) = (if p = PReady then set ts else set (on_list k p))"
  by (cases p) simp_all

lemma st_ready_upd [view]: "st (k\<lparr>ready_list := ts\<rparr>) = st k" "prio (k\<lparr>ready_list := ts\<rparr>) = prio k"
  "alarm (k\<lparr>ready_list := ts\<rparr>) = alarm k" "cr (k\<lparr>ready_list := ts\<rparr>) = cr k"
  by (rule threads_views; simp)+

lemma kinv_run_head:
  assumes k: "kinv k" and r: "ready_list k = t # ts"
  shows "kinv (set_status THREAD_RUNNING t (k\<lparr>ready_list := ts\<rparr>))" (is "kinv ?k")
proof -
  have on: "set (on_list ?k p) = (if p = PReady then set ts else set (on_list k p))" for p
    by (simp add: place_cases_on)
  have don: "distinct (on_list ?k p)" for p
    using kinv_distinct [OF k] r by (cases p) simp_all
  have tst: "st k t = Some THREAD_READY" using kinv_off_status [OF k, of t PReady] r by simp
  have tp: "t \<in> set (on_list k p) \<longleftrightarrow> p = PReady" for p
  proof
    assume "t \<in> set (on_list k p)"
    moreover have "t \<in> set (on_list k PReady)" using r by simp
    ultimately show "p = PReady" by (rule kinv_place [OF k])
  qed (use r in simp)
  have tts: "t \<notin> set ts" using kinv_distinct(2) [OF k] r by simp
  have s: "st ?k = (st k)(t \<mapsto> THREAD_RUNNING)" using tst by (simp add: view)
  have "elems_ok ?k"
    unfolding elems_ok_def
  proof (intro conjI allI impI ballI don)
    fix p u
    assume u: "u \<in> set (on_list ?k p)"
    then have "u \<noteq> t \<and> u \<in> set (on_list k p)"
      using on [of p] tp [of p] tts r by (cases "p = PReady") auto
    then have "u \<noteq> t" "u \<in> set (on_list k p)" by blast+
    then show "st ?k u = Some (place_status p)" using k s by (simp add: kinv_defs)
  next
    fix p q u
    assume "u \<in> set (on_list ?k p)" "u \<in> set (on_list ?k q)"
    moreover have "set (on_list ?k p) \<subseteq> set (on_list k p)" for p
      using on [of p] r by (cases "p = PReady") auto
    ultimately have "u \<in> set (on_list k p)" "u \<in> set (on_list k q)" by blast+
    then show "p = q" by (rule kinv_place [OF k])
  qed
  moreover have "sorted_ok ?k" using k r by (simp add: kinv_defs view)
  moreover have "all_ok ?k" using k tst by (auto simp: kinv_defs s)
  moreover have "embryo_ok ?k"
    unfolding embryo_ok_def
  proof (intro conjI allI ballI impI)
    fix u v
    assume "v \<in> set (cr ?k u)"
    then have v: "st k v = Some THREAD_BLOCKED" "off_lists k v" "v \<noteq> idle_thread k"
      using k by (auto simp: kinv_defs view)
    show "st ?k v = Some THREAD_BLOCKED" using v tst by (auto simp: s)
    show "off_lists ?k v" using v r by (simp add: off_lists_iff)
    show "v \<noteq> idle_thread ?k" using v by simp
  qed (use k in \<open>auto simp: kinv_defs view\<close>)
  moreover have "idle_ok ?k"
  proof -
    have "t \<noteq> 0" "t \<noteq> idle_thread k"
      using kinv_not_null [OF k tst] kinv_idle(2) [OF k] r unfolding off_lists_iff by auto
    then show ?thesis
      using kinv_idle [OF k] r unfolding idle_ok_def off_lists_iff by (auto simp: s)
  qed
  ultimately show ?thesis by (simp add: kinv_def)
qed

text \<open>Running the idle thread when no thread is ready.\<close>

lemma kinv_run_idle:
  assumes k: "kinv k" and r: "ready_list k = []" and i: "st k (idle_thread k) \<noteq> None"
  shows "kinv (set_status THREAD_RUNNING (idle_thread k) k)" (is "kinv ?k")
proof -
  let ?i = "idle_thread k"
  have s: "st ?k = (st k)(?i \<mapsto> THREAD_RUNNING)" using i by (auto simp: view)
  have off: "?i \<notin> set (on_list k p)" for p using k by (simp add: kinv_defs off_lists_def)
  have nz: "?i \<noteq> 0" using k i by (metis idle_ok_def kinv_def)
  have "elems_ok ?k" using k off by (auto simp: kinv_defs s)
  moreover have "sorted_ok ?k" using k by (simp add: kinv_defs view)
  moreover have "all_ok ?k" using k i by (auto simp: kinv_defs s)
  moreover have "embryo_ok ?k" using k by (auto simp: kinv_defs view off_lists_def)
  moreover have "idle_ok ?k"
    using kinv_idle [OF k] r nz unfolding idle_ok_def off_lists_iff by (auto simp: s)
  ultimately show ?thesis by (simp add: kinv_def)
qed

text \<open>Freeing the page of a dead thread.\<close>

lemma kinv_free:
  assumes k: "kinv k" and d: "st k t = Some THREAD_DYING"
  shows "kinv (k\<lparr>threads := (threads k)(t := None)\<rparr>)" (is "kinv ?k")
proof -
  have off: "t \<notin> set (on_list k p)" for p
    using kinv_off_lists [OF k] d by (simp add: off_lists_def)
  have on: "on_list ?k = on_list k" by (rule on_list_eqI) simp_all
  have s: "st ?k = (st k)(t := None)" by (auto simp: st_def)
  have c: "cr ?k = (cr k)(t := [])" by (auto simp: cr_def)
  have p: "prio ?k u = prio k u" "alarm ?k u = alarm k u" if "u \<noteq> t" for u
    using that by (simp_all add: prio_def alarm_def)
  have "elems_ok ?k" using k off unfolding kinv_defs by (auto simp: s on)
  moreover have "sorted_ok ?k"
  proof -
    have "t \<notin> set (ready_list k)" "t \<notin> set (sleep_list k)" using off [of PReady] off [of PSleep] by simp_all
    then have "sorted_wrt (\<lambda>a b. prio ?k a \<ge> prio ?k b) (ready_list k) =
        sorted_wrt (\<lambda>a b. prio k a \<ge> prio k b) (ready_list k)"
      "sorted_wrt (\<lambda>a b. alarm ?k a \<le> alarm ?k b) (sleep_list k) =
        sorted_wrt (\<lambda>a b. alarm k a \<le> alarm k b) (sleep_list k)"
      by (intro sorted_wrt_prio_cong sorted_wrt_alarm_cong; metis p)+
    then show ?thesis using k by (simp add: kinv_defs)
  qed
  moreover have "all_ok ?k" using k d by (auto simp: kinv_defs s)
  moreover have "embryo_ok ?k" using k d unfolding kinv_defs off_lists_def by (auto simp: s c on)
  moreover have "idle_ok ?k"
    using kinv_idle [OF k] d unfolding idle_ok_def off_lists_iff by (auto simp: s)
  ultimately show ?thesis by (simp add: kinv_def)
qed

text \<open>What a completed switch leaves: the thread chosen runs, at the start of a time slice.\<close>

definition chosen :: "kstate \<Rightarrow> tptr" where
  "chosen k = (case ready_list k of [] \<Rightarrow> idle_thread k | t # ts \<Rightarrow> t)"

lemma schedule_running: "schedule k = Some k' \<Longrightarrow> running k' = chosen k"
  by (auto simp: schedule_def next_thread_to_run_def chosen_def thread_schedule_tail_def Let_def
      bind_eq_Some_conv split: list.splits if_splits option.splits)

lemma schedule_ready: "schedule k = Some k' \<Longrightarrow> ready_list k' = tl (ready_list k)"
  by (auto simp: schedule_def next_thread_to_run_def thread_schedule_tail_def Let_def
      bind_eq_Some_conv split: list.splits if_splits option.splits)

lemma schedule_fields:
  assumes "schedule k = Some k'"
  shows "idle_thread k' = idle_thread k" "initial_thread k' = initial_thread k"
    "sleep_list k' = sleep_list k" "semas k' = semas k" "all_list k' = all_list k"
    "intr_level_of k' = intr_level_of k" "intr_level_of k = INTR_OFF" "lock_holder k' = lock_holder k"
    "in_external_intr k' = in_external_intr k" "userprog k' = userprog k"
  using assms
  by (auto simp: schedule_def next_thread_to_run_def thread_schedule_tail_def Let_def set_status_def
      bind_eq_Some_conv split: list.splits if_splits option.splits)

text \<open>The state a switch leaves, before the previous thread's page is freed.\<close>

definition switched :: "kstate \<Rightarrow> kstate" where
  "switched k = (set_status THREAD_RUNNING (chosen k)
     (k\<lparr>ready_list := tl (ready_list k), running := chosen k\<rparr>))\<lparr>thread_ticks := 0\<rparr>"

lemma schedule_eq:
  assumes "schedule k = Some k'" "running k \<noteq> 0"
  shows "k' = (if running k \<noteq> chosen k \<and> st k (running k) = Some THREAD_DYING \<and>
                  running k \<noteq> initial_thread k
               then (switched k)\<lparr>threads := (threads (switched k))(running k := None)\<rparr>
               else switched k)"
    and "st k (chosen k) \<noteq> None"
proof -
  obtain th nt where c: "threads k (running k) = Some th" "threads k (chosen k) = Some nt"
    using assms(1) by (auto simp: schedule_def next_thread_to_run_def chosen_def Let_def
        bind_eq_Some_conv split: list.splits if_splits)
  then show "st k (chosen k) \<noteq> None" by (simp add: st_def)
  have r: "\<And>ts. k\<lparr>ready_list := ts, running := n\<rparr> = k\<lparr>running := n, ready_list := ts\<rparr>" for n by simp
  show "k' = (if running k \<noteq> chosen k \<and> st k (running k) = Some THREAD_DYING \<and>
                  running k \<noteq> initial_thread k
               then (switched k)\<lparr>threads := (threads (switched k))(running k := None)\<rparr>
               else switched k)"
  proof (cases "ready_list k")
    case Nil
    then have e: "k\<lparr>ready_list := []\<rparr> = k" by (cases k) simp
    show ?thesis
      using assms c Nil
      by (cases "running k = idle_thread k")
        (auto simp: schedule_def next_thread_to_run_def chosen_def thread_schedule_tail_def Let_def
          switched_def st_def set_status_def upd_thread_def bind_eq_Some_conv split: if_splits)
  next
    case (Cons t ts)
    then show ?thesis
      using assms c
      by (cases "running k = t")
        (auto simp: schedule_def next_thread_to_run_def chosen_def thread_schedule_tail_def Let_def
          switched_def st_def set_status_def upd_thread_def bind_eq_Some_conv split: if_splits)
  qed
qed

lemma schedule_kwf:
  assumes k: "kinv k" and sw: "switch_ok k" and s: "schedule k = Some k'"
  shows "kwf k'"
proof -
  let ?n = "chosen k" and ?c = "running k"
  have c0: "?c \<noteq> 0" using k sw by (metis idle_ok_def kinv_def switch_ok_def)
  have n: "st k ?n \<noteq> None" using schedule_eq(2) [OF s c0] .
  let ?k1 = "set_status THREAD_RUNNING ?n (k\<lparr>ready_list := tl (ready_list k)\<rparr>)"
  let ?k2 = "switched k"
  have k1: "kinv ?k1"
  proof (cases "ready_list k")
    case Nil
    then have e: "k\<lparr>ready_list := []\<rparr> = k" by (cases k) simp
    have "kinv (set_status THREAD_RUNNING (idle_thread k) k)"
      using kinv_run_idle [OF k Nil] n Nil by (simp add: chosen_def)
    then show ?thesis unfolding chosen_def Nil list.case list.sel e .
  next
    case (Cons t ts)
    then show ?thesis using kinv_run_head [OF k Cons] by (simp add: chosen_def)
  qed
  have t2: "threads ?k2 = threads ?k1" by (simp add: switched_def set_status_def)
  have f2: "ready_list ?k2 = ready_list ?k1" "sleep_list ?k2 = sleep_list ?k1" "semas ?k2 = semas ?k1"
    "all_list ?k2 = all_list ?k1" "idle_thread ?k2 = idle_thread ?k1" "running ?k2 = ?n"
    "initial_thread ?k2 = initial_thread k"
    by (simp_all add: switched_def)
  have k2: "kinv ?k2"
    using k1 kinv_cong [of ?k2 ?k1] threads_views [OF t2] on_list_eqI [of ?k2 ?k1] f2 by simp
  have st2: "st ?k2 = (st k)(?n \<mapsto> THREAD_RUNNING)"
    using threads_views(1) [OF t2] n by (auto simp: view)
  have dy: "st k u = Some THREAD_DYING \<Longrightarrow> u = initial_thread k \<or> u = ?c" for u
    using sw by (simp add: switch_ok_def)
  have nr: "st k u \<noteq> Some THREAD_RUNNING" for u using sw by (simp add: switch_ok_def)
  show ?thesis
  proof (cases "?c \<noteq> ?n \<and> st k ?c = Some THREAD_DYING \<and> ?c \<noteq> initial_thread k")
    case True
    then have e: "k' = ?k2\<lparr>threads := (threads ?k2)(?c := None)\<rparr>"
      using schedule_eq(1) [OF s c0] by simp
    have "st ?k2 ?c = Some THREAD_DYING" using True st2 by simp
    then have "kinv k'" using kinv_free [OF k2] e by simp
    moreover have "st k' = (st ?k2)(?c := None)" unfolding e by (auto simp: st_def)
    ultimately show ?thesis
      using True dy nr f2 unfolding kwf_def run_ok_def by (auto simp: st2 e)
  next
    case False
    then have e: "k' = ?k2" using schedule_eq(1) [OF s c0] by auto
    show ?thesis
      using k2 False dy nr f2 unfolding kwf_def run_ok_def e by (auto simp: st2)
  qed
qed

end
