(* ===== verification/KernelOps.thy ===== *)
theory KernelOps
  imports KernelInv
begin

text \<open>
  Every operation of the scheduler, of the synchronisation primitives and of the timer
  keeps the kernel invariant \<open>kwf\<close>.  Three generic lemmas do the work: putting a thread on
  a list, taking one off, and changing the status of a thread that is on no list.
\<close>

section \<open>Generic state changes\<close>

lemma elems_okI:
  assumes "\<And>p. distinct (on_list k p)"
    "\<And>p t. t \<in> set (on_list k p) \<Longrightarrow> st k t = Some (place_status p)"
    "\<And>p q t. t \<in> set (on_list k p) \<Longrightarrow> t \<in> set (on_list k q) \<Longrightarrow> p = q"
  shows "elems_ok k"
  using assms unfolding elems_ok_def by blast

lemma kinv_embryo:
  assumes "kinv k"
  shows "t \<in> set (cr k u) \<Longrightarrow> st k t = Some THREAD_BLOCKED \<and> off_lists k t \<and> t \<noteq> idle_thread k"
    "distinct (cr k u)" "t \<in> set (cr k u) \<Longrightarrow> t \<in> set (cr k v) \<Longrightarrow> u = v"
  using assms by (auto simp: kinv_def embryo_ok_def)

lemma kinv_all:
  assumes "kinv k"
  shows "distinct (all_list k)"
    "t \<in> set (all_list k) \<longleftrightarrow> st k t \<noteq> None \<and> st k t \<noteq> Some THREAD_DYING"
  using assms by (auto simp: kinv_def all_ok_def)

lemma kinv_sorted: "kinv k \<Longrightarrow> sorted_ok k"
  by (simp add: kinv_def)

definition not_embryo :: "kstate \<Rightarrow> tptr \<Rightarrow> bool" where
  "not_embryo k t \<longleftrightarrow> (\<forall>u. t \<notin> set (cr k u))"

lemma not_embryo_status: "kinv k \<Longrightarrow> st k t \<noteq> Some THREAD_BLOCKED \<Longrightarrow> not_embryo k t"
  using kinv_embryo(1) [of k t] by (auto simp: not_embryo_def)

lemma not_embryo_listed: "kinv k \<Longrightarrow> t \<in> set (on_list k p) \<Longrightarrow> not_embryo k t"
  using kinv_embryo(1) [of k t] by (auto simp: not_embryo_def off_lists_def)

lemma place_status_live [simp]:
  "place_status p \<noteq> THREAD_DYING" "place_status p \<noteq> THREAD_RUNNING"
  "THREAD_DYING \<noteq> place_status p" "THREAD_RUNNING \<noteq> place_status p"
  by (cases p; simp)+

lemma kinv_insert:
  assumes k: "kinv k" and t: "st k t = Some x" "x \<noteq> THREAD_DYING" "off_lists k t"
      "t \<noteq> idle_thread k" "not_embryo k t"
    and s: "st k' = (st k)(t \<mapsto> place_status p)"
    and on: "\<And>q. on_list k' q = (if q = p then L else on_list k q)"
    and L: "set L = insert t (set (on_list k p))" "distinct L" "sorted_ok k'"
    and same: "cr k' = cr k" "all_list k' = all_list k" "idle_thread k' = idle_thread k"
  shows "kinv k'"
proof -
  have off: "t \<notin> set (on_list k q)" for q using t(3) by (simp add: off_lists_def)
  have in': "u \<in> set (on_list k' q) \<longleftrightarrow> u \<in> set (on_list k q) \<or> (u = t \<and> q = p)" for u q
    using on [of q] L(1) by auto
  have tnz: "t \<noteq> 0" using kinv_not_null [OF k t(1)] .
  have "elems_ok k'"
  proof (rule elems_okI)
    show "distinct (on_list k' q)" for q using on L(2) kinv_distinct(1) [OF k] by simp
    show "st k' u = Some (place_status q)" if "u \<in> set (on_list k' q)" for u q
      using that in' [of u q] off [of q] kinv_off_status [OF k, of u q] by (auto simp: s)
    show "q = r" if "u \<in> set (on_list k' q)" "u \<in> set (on_list k' r)" for u q r
      using that in' [of u q] in' [of u r] off [of q] off [of r] kinv_place [OF k, of u q r] by auto
  qed
  moreover have "all_ok k'" using kinv_all [OF k] t by (auto simp: all_ok_def s same)
  moreover have "embryo_ok k'"
  proof -
    have "off_lists k' v" if "off_lists k v" "v \<noteq> t" for v
      using that in' by (simp add: off_lists_def)
    moreover have "v \<noteq> t" if "v \<in> set (cr k u)" for u v using that t(5) by (auto simp: not_embryo_def)
    ultimately show ?thesis
      using kinv_embryo [OF k] unfolding embryo_ok_def same s by (metis fun_upd_other)
  qed
  moreover have "idle_ok k'"
  proof -
    have r: "u \<in> set (ready_list k') \<longleftrightarrow> u \<in> set (ready_list k) \<or> (u = t \<and> PReady = p)" for u
      using in' [of u PReady] by simp
    have "off_lists k' (idle_thread k')" using kinv_idle(2) [OF k] t(4) in' same by (simp add: off_lists_def)
    moreover have "u \<in> set (ready_list k') \<or> u = idle_thread k'" if "st k' u = Some THREAD_READY" for u
    proof (cases "u = t")
      case True
      with that have "place_status p = THREAD_READY" by (simp add: s)
      then have "p = PReady" by (cases p) simp_all
      with r True show ?thesis by blast
    next
      case False
      with that have "st k u = Some THREAD_READY" by (simp add: s)
      with kinv_idle(4) [OF k] r same show ?thesis by auto
    qed
    ultimately show ?thesis
      using kinv_idle(1,3) [OF k] tnz t(4) by (simp add: idle_ok_def s same)
  qed
  ultimately show ?thesis using L(3) by (simp add: kinv_def)
qed

lemma kinv_status:
  assumes k: "kinv k" and t: "st k t = Some y" "y \<noteq> THREAD_DYING" "off_lists k t" "not_embryo k t"
    and x: "x = THREAD_READY \<Longrightarrow> t = idle_thread k" "x = THREAD_DYING \<Longrightarrow> t \<noteq> idle_thread k"
    and s: "st k' = (st k)(t \<mapsto> x)"
    and al: "all_list k' = (if x = THREAD_DYING then remove1 t (all_list k) else all_list k)"
    and same: "on_list k' = on_list k" "cr k' = cr k" "idle_thread k' = idle_thread k"
      "prio k' = prio k" "alarm k' = alarm k"
  shows "kinv k'"
proof -
  have off: "t \<notin> set (on_list k q)" for q using t(3) by (simp add: off_lists_def)
  have tnz: "t \<noteq> 0" using kinv_not_null [OF k t(1)] .
  have ol: "off_lists k' = off_lists k" by (rule ext) (simp add: off_lists_def same)
  have rl: "ready_list k' = ready_list k" "sleep_list k' = sleep_list k"
    using on_list_place [OF same(1)] by simp_all
  have "elems_ok k'"
  proof (rule elems_okI)
    show "distinct (on_list k' q)" for q using kinv_distinct(1) [OF k] by (simp add: same)
    show "st k' u = Some (place_status q)" if "u \<in> set (on_list k' q)" for u q
      using that off [of q] kinv_off_status [OF k, of u q] by (auto simp: s same)
    show "q = r" if "u \<in> set (on_list k' q)" "u \<in> set (on_list k' r)" for u q r
      using that kinv_place [OF k, of u q r] by (simp add: same)
  qed
  moreover have "sorted_ok k'" using kinv_sorted [OF k] by (simp add: sorted_ok_def rl same)
  moreover have "all_ok k'"
    using kinv_all [OF k] t by (auto simp: all_ok_def s al)
  moreover have "embryo_ok k'"
  proof -
    have "v \<noteq> t" if "v \<in> set (cr k u)" for u v using that t(4) by (auto simp: not_embryo_def)
    then show ?thesis
      using kinv_embryo [OF k] unfolding embryo_ok_def same s ol by (metis fun_upd_other)
  qed
  moreover have "idle_ok k'"
  proof -
    have "u \<in> set (ready_list k) \<or> u = idle_thread k" if "st k' u = Some THREAD_READY" for u
      using that x(1) kinv_idle(4) [OF k, of u] by (cases "u = t") (simp_all add: s)
    moreover have "st k' (idle_thread k) \<noteq> Some THREAD_DYING"
      using x(2) kinv_idle(3) [OF k] by (cases "idle_thread k = t") (auto simp: s)
    ultimately show ?thesis
      using kinv_idle(1,2) [OF k] tnz by (simp add: idle_ok_def ol same rl s)
  qed
  ultimately show ?thesis by (simp add: kinv_def)
qed

text \<open>Taking elements off a list.\<close>

lemma kinv_remove:
  assumes k: "kinv k" and p: "p \<noteq> PReady"
    and on: "\<And>q. on_list k' q = (if q = p then L else on_list k q)"
    and L: "set L \<subseteq> set (on_list k p)" "distinct L" "sorted_ok k'"
    and same: "st k' = st k" "cr k' = cr k" "all_list k' = all_list k" "idle_thread k' = idle_thread k"
  shows "kinv k'"
proof -
  have in': "u \<in> set (on_list k q)" if "u \<in> set (on_list k' q)" for u q
    using that on [of q] L(1) by (cases "q = p") auto
  have ol: "off_lists k' u" if "off_lists k u" for u using that in' by (auto simp: off_lists_def)
  have rl: "ready_list k' = ready_list k" using on [of PReady] p by simp
  have "elems_ok k'"
  proof (rule elems_okI)
    show "distinct (on_list k' q)" for q using on L(2) kinv_distinct(1) [OF k] by simp
    show "st k' u = Some (place_status q)" if "u \<in> set (on_list k' q)" for u q
      using in' [OF that] kinv_off_status [OF k, of u q] by (simp add: same)
    show "q = r" if "u \<in> set (on_list k' q)" "u \<in> set (on_list k' r)" for u q r
      using in' [OF that(1)] in' [OF that(2)] kinv_place [OF k, of u q r] by simp
  qed
  moreover have "all_ok k'" using kinv_all [OF k] by (auto simp: all_ok_def same)
  moreover have "embryo_ok k'"
    using kinv_embryo [OF k] ol unfolding embryo_ok_def same by blast
  moreover have "idle_ok k'"
    using kinv_idle [OF k] ol unfolding idle_ok_def same rl by blast
  ultimately show ?thesis using L(3) by (simp add: kinv_def)
qed

section \<open>Comparison functions are strict weak orders\<close>

interpretation ready_order: list_less "priority_comp k" for k
  by unfold_locales (auto simp: priority_comp_def)

interpretation sleep_order: list_less "alarm_ticks_comp k" for k
  by unfold_locales (auto simp: alarm_ticks_comp_def)

lemma ready_sorted_insert:
  "sorted_wrt (\<lambda>a b. prio k a \<ge> prio k b) xs \<Longrightarrow>
   sorted_wrt (\<lambda>a b. prio k a \<ge> prio k b) (insert_ordered (priority_comp k) t xs)"
  using ready_order.sorted_insert_ordered [of k xs t] by (simp add: priority_comp_def not_less)

lemma sleep_sorted_insert:
  "sorted_wrt (\<lambda>a b. alarm k a \<le> alarm k b) xs \<Longrightarrow>
   sorted_wrt (\<lambda>a b. alarm k a \<le> alarm k b) (insert_ordered (alarm_ticks_comp k) t xs)"
  using sleep_order.sorted_insert_ordered [of k xs t] by (simp add: alarm_ticks_comp_def not_less)

lemma ready_sorted_ksort:
  "sorted_wrt (\<lambda>a b. prio k a \<ge> prio k b) (ksort (priority_comp k) xs)"
  using ready_order.sorted_ksort [of k xs] by (simp add: priority_comp_def not_less)

section \<open>The scheduler's operations\<close>

lemma thread_current_eq: "thread_current k = Some c \<longleftrightarrow> c = running k \<and> st k c = Some THREAD_RUNNING"
  by (auto simp: thread_current_def st_def bind_eq_Some_conv)

lemma kwf_current: "kwf k \<Longrightarrow> thread_current k = Some (running k)"
  by (simp add: thread_current_eq kwf_def run_ok_def)

lemma kwf_running:
  assumes "kwf k"
  shows "kinv k" "st k (running k) = Some THREAD_RUNNING" "off_lists k (running k)"
    "not_embryo k (running k)" "st k t = Some THREAD_RUNNING \<Longrightarrow> t = running k"
    "st k t = Some THREAD_DYING \<Longrightarrow> t = initial_thread k" "running k \<noteq> 0"
  using assms kinv_off_lists [of k "running k"] not_embryo_status [of k "running k"]
    kinv_not_null [of k "running k"]
  by (auto simp: kwf_def run_ok_def)

lemma switch_okI:
  assumes k: "kwf k" and s: "st k' = (st k)(running k \<mapsto> x)" "x \<noteq> THREAD_RUNNING"
    and same: "running k' = running k" "initial_thread k' = initial_thread k"
  shows "switch_ok k'"
proof -
  have "st k' u \<noteq> Some THREAD_RUNNING" for u
    using kwf_running(5) [OF k, of u] s by (cases "u = running k") auto
  moreover have "u = initial_thread k \<or> u = running k" if "st k' u = Some THREAD_DYING" for u
    using kwf_running(6) [OF k, of u] s that by (cases "u = running k") auto
  ultimately show ?thesis using s(1) same by (simp add: switch_ok_def)
qed

lemma thread_unblock_kwf:
  assumes k: "kwf k" and t: "off_lists k t" "t \<noteq> idle_thread k" "not_embryo k t"
    and u: "thread_unblock t k = Some k'"
  shows "kwf k'" "st k' = (st k)(t \<mapsto> THREAD_READY)"
    "ready_list k' = insert_ordered (priority_comp k) t (ready_list k)"
proof -
  have b: "st k t = Some THREAD_BLOCKED"
    and e: "k' = set_status THREAD_READY t (k\<lparr>ready_list := insert_ordered (priority_comp k) t (ready_list k)\<rparr>)"
    using u by (auto simp: thread_unblock_def st_def Let_def bind_eq_Some_conv split: if_splits)
  show s: "st k' = (st k)(t \<mapsto> THREAD_READY)" using b by (simp add: e view)
  show r: "ready_list k' = insert_ordered (priority_comp k) t (ready_list k)" by (simp add: e)
  have "kinv k'"
  proof (rule kinv_insert [where p = PReady and L = "ready_list k'", OF kwf_running(1) [OF k] b _ t])
    show "on_list k' q = (if q = PReady then ready_list k' else on_list k q)" for q
      by (cases q) (simp_all add: e)
    show "set (ready_list k') = insert t (set (on_list k PReady))" by (simp add: r)
    show "distinct (ready_list k')"
      using kinv_distinct(2) [OF kwf_running(1) [OF k]] t(1) by (simp add: r off_lists_iff)
    show "sorted_ok k'"
      using kinv_sorted [OF kwf_running(1) [OF k]] ready_sorted_insert [of k "ready_list k" t]
      by (simp add: sorted_ok_def e view)
  qed (simp_all add: s, simp_all add: e view)
  moreover have "run_ok k'"
  proof -
    have f: "running k' = running k" "initial_thread k' = initial_thread k" by (simp_all add: e)
    have "t \<noteq> running k" using b kwf_running(2) [OF k] by auto
    moreover have "u = running k" if "st k' u = Some THREAD_RUNNING" for u
      using that kwf_running(5) [OF k, of u] by (cases "u = t") (simp_all add: s)
    moreover have "u = initial_thread k" if "st k' u = Some THREAD_DYING" for u
      using that kwf_running(6) [OF k, of u] by (cases "u = t") (simp_all add: s)
    ultimately show ?thesis using kwf_running(2) [OF k] by (simp add: run_ok_def f s)
  qed
  ultimately show "kwf k'" by (simp add: kwf_def)
qed

text \<open>Leaving the CPU for a list: the thread is put on it, its status follows, and the
  next thread is scheduled.\<close>

lemma leave_to_list:
  assumes k: "kwf k" and ni: "running k \<noteq> idle_thread k"
    and s: "st k' = (st k)(running k \<mapsto> place_status p)"
    and on: "\<And>q. on_list k' q = (if q = p then L else on_list k q)"
    and L: "set L = insert (running k) (set (on_list k p))" "distinct L" "sorted_ok k'"
    and same: "cr k' = cr k" "all_list k' = all_list k" "idle_thread k' = idle_thread k"
      "running k' = running k" "initial_thread k' = initial_thread k"
    and sch: "schedule k' = Some k''"
  shows "kwf k''"
proof -
  have "kinv k'"
    by (rule kinv_insert [OF kwf_running(1) [OF k] kwf_running(2) [OF k] _ kwf_running(3) [OF k] ni
          kwf_running(4) [OF k] s on L same(1-3)]) simp
  moreover have "switch_ok k'"
    by (rule switch_okI [OF k s _ same(4,5)]) (cases p, simp_all)
  ultimately show ?thesis using sch by (rule schedule_kwf)
qed

lemma leave_status:
  assumes k: "kwf k" and x: "x \<noteq> THREAD_RUNNING" "x = THREAD_READY \<Longrightarrow> running k = idle_thread k"
      "x = THREAD_DYING \<Longrightarrow> running k \<noteq> idle_thread k"
    and s: "st k' = (st k)(running k \<mapsto> x)"
    and al: "all_list k' = (if x = THREAD_DYING then remove1 (running k) (all_list k) else all_list k)"
    and same: "on_list k' = on_list k" "cr k' = cr k" "idle_thread k' = idle_thread k"
      "prio k' = prio k" "alarm k' = alarm k"
      "running k' = running k" "initial_thread k' = initial_thread k"
    and sch: "schedule k' = Some k''"
  shows "kwf k''"
proof -
  have "kinv k'"
    by (rule kinv_status [OF kwf_running(1) [OF k] kwf_running(2) [OF k] _ kwf_running(3,4) [OF k]
          x(2,3) s al same(1-5)]) simp_all
  moreover have "switch_ok k'" by (rule switch_okI [OF k s x(1) same(6,7)])
  ultimately show ?thesis using sch by (rule schedule_kwf)
qed

lemma thread_yield_kwf:
  assumes k: "kwf k" and y: "thread_yield k = Some k'"
  shows "kwf k'"
proof -
  let ?c = "running k"
  have c: "thread_current k = Some ?c" by (rule kwf_current [OF k])
  let ?k1 = "push (SetLevel (intr_level_of k))
      (if ?c \<noteq> idle_thread k
       then intr_disable k\<lparr>ready_list := insert_ordered (priority_comp (intr_disable k)) ?c (ready_list k)\<rparr>
       else intr_disable k)"
  have sch: "schedule (set_status THREAD_READY ?c ?k1) = Some k'"
    using y c by (auto simp: thread_yield_def Let_def split: if_splits)
  have pc: "priority_comp (intr_disable k) = priority_comp k"
    by (intro ext) (simp add: priority_comp_def prio_def)
  have v: "st ?k1 = st k" "prio ?k1 = prio k" "alarm ?k1 = alarm k" "cr ?k1 = cr k"
    by (simp_all add: view)
  show ?thesis
  proof (cases "?c = idle_thread k")
    case True
    show ?thesis
      by (rule leave_status [OF k _ _ _ _ _ _ _ _ _ _ _ _ sch, where x = THREAD_READY])
        (use True v kwf_running(2) [OF k] in \<open>auto simp: view intro!: on_list_eqI\<close>)
  next
    case False
    let ?L = "insert_ordered (priority_comp k) ?c (ready_list k)"
    show ?thesis
    proof (rule leave_to_list [OF k False _ _ _ _ _ _ _ _ _ _ sch, where p = PReady and L = ?L])
      show "st (set_status THREAD_READY ?c ?k1) = (st k)(?c \<mapsto> place_status PReady)"
        using v kwf_running(2) [OF k] by (simp add: st_set_status)
      show "on_list (set_status THREAD_READY ?c ?k1) q = (if q = PReady then ?L else on_list k q)" for q
        using False by (cases q) (simp_all add: pc)
      show "distinct ?L"
        using kinv_distinct(2) kwf_running(1,3) [OF k] by (simp add: off_lists_iff)
      show "sorted_ok (set_status THREAD_READY ?c ?k1)"
        using kinv_sorted [OF kwf_running(1) [OF k]] ready_sorted_insert [of k "ready_list k" ?c] False v
        by (simp add: sorted_ok_def view pc)
    qed (use False v in \<open>simp_all add: view\<close>)
  qed
qed


section \<open>Blocking\<close>

lemma thread_blockD:
  "thread_block k = Some k' \<Longrightarrow>
   schedule (set_status THREAD_BLOCKED (running k) k) = Some k' \<and> \<not> in_external_intr k"
  by (auto simp: thread_block_def thread_current_eq bind_eq_Some_conv split: if_splits)

text \<open>Blocking the running thread after it has been put on a wait list.\<close>

lemma block_on_list:
  assumes k: "kwf k" and ni: "running k \<noteq> idle_thread k"
    and p: "place_status p = THREAD_BLOCKED" and s: "st k' = st k"
    and on: "\<And>q. on_list k' q = (if q = p then insert_ordered lt (running k) (on_list k p) else on_list k q)"
    and srt: "sorted_ok k'"
    and same: "cr k' = cr k" "all_list k' = all_list k" "idle_thread k' = idle_thread k"
      "running k' = running k" "initial_thread k' = initial_thread k"
    and b: "thread_block k' = Some k''"
  shows "kwf k''"
proof -
  let ?k = "set_status THREAD_BLOCKED (running k') k'"
  have sch: "schedule ?k = Some k''" using thread_blockD [OF b] by simp
  show ?thesis
  proof (rule leave_to_list [OF k ni _ _ _ _ _ _ _ _ _ _ sch,
        where p = p and L = "insert_ordered lt (running k) (on_list k p)"])
    show "st ?k = (st k)(running k \<mapsto> place_status p)"
      using kwf_running(2) [OF k] by (simp add: view s same p)
    show "on_list ?k q = (if q = p then insert_ordered lt (running k) (on_list k p) else on_list k q)" for q
      by (simp add: on)
    show "distinct (insert_ordered lt (running k) (on_list k p))"
      using kinv_distinct(1) [OF kwf_running(1) [OF k]] kwf_running(3) [OF k] by (simp add: off_lists_def)
    show "sorted_ok ?k" using srt by (simp add: sorted_ok_def view)
  qed (simp_all add: same view)
qed

lemma set_sema_fields [simp]:
  "running (set_sema s v k) = running k" "ready_list (set_sema s v k) = ready_list k"
  "all_list (set_sema s v k) = all_list k" "sleep_list (set_sema s v k) = sleep_list k"
  "idle_thread (set_sema s v k) = idle_thread k" "initial_thread (set_sema s v k) = initial_thread k"
  "threads (set_sema s v k) = threads k" "semas (set_sema s v k) = (semas k)(s := v)"
  "in_external_intr (set_sema s v k) = in_external_intr k"
  "intr_level_of (set_sema s v k) = intr_level_of k" "lock_holder (set_sema s v k) = lock_holder k"
  by (simp_all add: set_sema_def)

lemma views_set_sema [view]:
  "st (set_sema s v k) = st k" "prio (set_sema s v k) = prio k" "alarm (set_sema s v k) = alarm k"
  "cr (set_sema s v k) = cr k"
  by (rule threads_views; simp)+

lemma on_list_set_sema:
  "on_list (set_sema s v k) q = (if q = PWait s then waiters v else on_list k q)"
  by (cases q) simp_all

lemma same_view_set_sema: "waiters v = waiters (semas k s) \<Longrightarrow> same_view k (set_sema s v k)"
  by (rule same_view_threads) simp_all

text \<open>Steps that leave the views alone, followed by steps that keep the invariant.\<close>

lemma sema_down_loop_kwf:
  assumes k: "kwf k" and ni: "running k \<noteq> idle_thread k" and d: "sema_down_loop s k = Some k'"
  shows "kwf k'"
proof (cases "sem_value (semas k s) = 0")
  case True
  let ?v = "(semas k s)\<lparr>waiters := insert_ordered (priority_comp k) (running k) (waiters (semas k s))\<rparr>"
  have b: "thread_block (push (SemaDownLoop s) (set_sema s ?v k)) = Some k'"
    using d True kwf_current [OF k] by (simp add: sema_down_loop_def Let_def)
  show ?thesis
  proof (rule block_on_list [OF k ni _ _ _ _ _ _ _ _ _ b, where p = "PWait s" and lt = "priority_comp k"])
    show "on_list (push (SemaDownLoop s) (set_sema s ?v k)) q =
        (if q = PWait s then insert_ordered (priority_comp k) (running k) (on_list k (PWait s))
         else on_list k q)" for q
      by (simp add: on_list_set_sema)
    show "sorted_ok (push (SemaDownLoop s) (set_sema s ?v k))"
      using kinv_sorted [OF kwf_running(1) [OF k]] by (simp add: sorted_ok_def view)
  qed (simp_all add: view)
next
  case False
  then have "k' = set_sema s ((semas k s)\<lparr>sem_value := sem_value (semas k s) - 1\<rparr>) k"
    using d by (simp add: sema_down_loop_def Let_def)
  then show ?thesis using kwf_same_view [OF same_view_set_sema k] by simp
qed

lemma sema_down_kwf:
  assumes k: "kwf k" and ni: "running k \<noteq> idle_thread k" and d: "sema_down s k = Some k'"
  shows "kwf k'"
proof -
  let ?k = "push (SetLevel (intr_level_of k)) (intr_disable k)"
  have "same_view k ?k"
    by (rule same_view_trans [OF same_view_intr_disable same_view_push]) simp
  then have "kwf ?k" using k by (rule kwf_same_view)
  moreover have "sema_down_loop s ?k = Some k'"
    using d by (auto simp: sema_down_def Let_def split: if_splits)
  ultimately show ?thesis using sema_down_loop_kwf [of ?k s k'] ni by simp
qed

section \<open>Waking a thread\<close>

text \<open>Taking the head off a wait list and making it ready.\<close>

lemma wake_kwf:
  assumes k: "kwf k" and p: "place_status p = THREAD_BLOCKED" and h: "on_list k p = t # ts"
    and on: "\<And>q. on_list k1 q = (if q = p then ts else on_list k q)"
    and same: "st k1 = st k" "prio k1 = prio k" "alarm k1 = alarm k" "cr k1 = cr k"
      "all_list k1 = all_list k" "idle_thread k1 = idle_thread k" "running k1 = running k"
      "initial_thread k1 = initial_thread k"
    and u: "thread_unblock t k1 = Some k'"
  shows "kwf k'"
proof -
  note K = kwf_running(1) [OF k]
  have tp: "t \<in> set (on_list k p)" by (simp add: h)
  have d: "distinct (t # ts)" using kinv_distinct(1) [OF K, of p] by (simp add: h)
  have pr: "p \<noteq> PReady" using p by auto
  have srt: "sorted_ok k1"
  proof -
    have "ready_list k1 = ready_list k" using on [of PReady] pr by simp
    moreover have "sleep_list k1 = (if p = PSleep then tl (sleep_list k) else sleep_list k)"
      using on [of PSleep] h by auto
    ultimately show ?thesis
      using kinv_sorted [OF K] by (cases "sleep_list k") (auto simp: sorted_ok_def same)
  qed
  have "kinv k1"
    by (rule kinv_remove [OF K pr on _ _ srt same(1,4,5,6)]) (use d in \<open>auto simp: h\<close>)
  moreover have "run_ok k1" using k by (simp add: kwf_def run_ok_def same)
  ultimately have k1: "kwf k1" by (simp add: kwf_def)
  have off: "off_lists k1 t"
    unfolding off_lists_def on using d kinv_place [OF K tp] by auto
  have ni: "t \<noteq> idle_thread k1" using kinv_idle(2) [OF K] tp by (auto simp: off_lists_def same)
  have ne: "not_embryo k1 t" using not_embryo_listed [OF K tp] by (simp add: not_embryo_def same)
  show ?thesis by (rule thread_unblock_kwf(1) [OF k1 off ni ne u])
qed

lemma sema_up_kwf:
  assumes k: "kwf k" and d: "sema_up s k = Some k'"
  shows "kwf k'"
proof -
  let ?k0 = "intr_disable k"
  have k0: "kwf ?k0" by (rule kwf_same_view [OF same_view_intr_disable k])
  obtain k1 where k1: "(case waiters (semas ?k0 s) of [] \<Rightarrow> Some ?k0
      | t # ts \<Rightarrow> thread_unblock t (set_sema s ((semas ?k0 s)\<lparr>waiters := ts\<rparr>) ?k0)) = Some k1"
    and y: "thread_yield (push (SetLevel (intr_level_of k)) (set_sema s
        ((semas k1 s)\<lparr>sem_value := (sem_value (semas k1 s) + 1) mod 2 ^ 32\<rparr>) k1)) = Some k'"
    using d unfolding sema_up_def Let_def by (auto simp: bind_eq_Some_conv)
  have "kwf k1"
  proof (cases "waiters (semas ?k0 s)")
    case Nil
    then show ?thesis using k1 k0 by simp
  next
    case (Cons t ts)
    have "thread_unblock t (set_sema s ((semas ?k0 s)\<lparr>waiters := ts\<rparr>) ?k0) = Some k1"
      using k1 unfolding Cons by simp
    then show ?thesis
      by (rule wake_kwf [OF k0, of "PWait s" t ts, rotated -1]) (use Cons in \<open>simp_all add: on_list_set_sema view\<close>)
  qed
  then have "kwf (push (SetLevel (intr_level_of k)) (set_sema s
        ((semas k1 s)\<lparr>sem_value := (sem_value (semas k1 s) + 1) mod 2 ^ 32\<rparr>) k1))"
    by (rule kwf_same_view [OF same_view_trans [OF same_view_set_sema same_view_push], rotated -1]) simp_all
  then show ?thesis using y by (rule thread_yield_kwf)
qed

end
