(* ===== verification/KernelSteps.thy ===== *)
theory KernelSteps
  imports KernelOps
begin

text \<open>
  The invariant \<open>kwf\<close> for the operations that change the values the lists are ordered by
  (sleeping, aging, the priority updates) and for the creation and the end of a thread.
\<close>

section \<open>Changing the order keys\<close>

lemma kinv_perm:
  assumes k: "kinv k" and on: "\<And>p. set (on_list k' p) = set (on_list k p)" "\<And>p. distinct (on_list k' p)"
    and srt: "sorted_ok k'"
    and same: "st k' = st k" "cr k' = cr k" "all_list k' = all_list k" "idle_thread k' = idle_thread k"
  shows "kinv k'"
proof -
  have ol: "off_lists k' = off_lists k" by (rule ext) (simp add: off_lists_def on)
  have r: "set (ready_list k') = set (ready_list k)" using on(1) [of PReady] by simp
  have "elems_ok k'"
  proof (rule elems_okI)
    show "st k' t = Some (place_status p)" if "t \<in> set (on_list k' p)" for t p
      using that kinv_off_status [OF k, of t p] by (simp add: on same)
    show "p = q" if "t \<in> set (on_list k' p)" "t \<in> set (on_list k' q)" for t p q
      using that kinv_place [OF k, of t p q] by (simp add: on)
  qed (rule on(2))
  moreover have "all_ok k'" using k by (simp add: kinv_def all_ok_def same)
  moreover have "embryo_ok k'" using k by (simp add: kinv_def embryo_ok_def same ol)
  moreover have "idle_ok k'" using k by (simp add: kinv_def idle_ok_def same ol r)
  ultimately show ?thesis using srt by (simp add: kinv_def)
qed

lemma kwf_perm:
  assumes k: "kwf k" and on: "\<And>p. set (on_list k' p) = set (on_list k p)" "\<And>p. distinct (on_list k' p)"
    and srt: "sorted_ok k'"
    and same: "st k' = st k" "cr k' = cr k" "all_list k' = all_list k" "idle_thread k' = idle_thread k"
      "running k' = running k" "initial_thread k' = initial_thread k"
  shows "kwf k'"
  using kinv_perm [OF kwf_running(1) [OF k] on srt same(1-4)] k
  by (simp add: kwf_def run_ok_def same)

text \<open>The keys may change where no list looks.\<close>

lemma kwf_keys:
  assumes k: "kwf k" and on: "on_list k' = on_list k"
    and keys: "\<And>t. t \<in> set (ready_list k) \<Longrightarrow> prio k' t = prio k t"
      "\<And>t. t \<in> set (sleep_list k) \<Longrightarrow> alarm k' t = alarm k t"
    and same: "st k' = st k" "cr k' = cr k" "all_list k' = all_list k" "idle_thread k' = idle_thread k"
      "running k' = running k" "initial_thread k' = initial_thread k"
  shows "kwf k'"
proof (rule kwf_perm [OF k _ _ _ same])
  have l: "ready_list k' = ready_list k" "sleep_list k' = sleep_list k"
    using on_list_place [OF on] by simp_all
  show "sorted_ok k'"
    using kinv_sorted [OF kwf_running(1) [OF k]]
      sorted_wrt_prio_cong [of "ready_list k" "prio k'" "prio k", OF keys(1)]
      sorted_wrt_alarm_cong [of "sleep_list k" "alarm k'" "alarm k", OF keys(2)]
    by (simp add: sorted_ok_def l)
  show "distinct (on_list k' p)" for p using kinv_distinct(1) [OF kwf_running(1) [OF k]] by (simp add: on)
qed (simp add: on)

lemma prio_upd: "prio (upd_thread t f k) u =
    (if u = t then (case threads k t of None \<Rightarrow> 0 | Some th \<Rightarrow> priority (f th)) else prio k u)"
  by (auto simp: prio_def split: option.splits)

lemma alarm_upd: "alarm (upd_thread t f k) u =
    (if u = t then (case threads k t of None \<Rightarrow> 0 | Some th \<Rightarrow> alarm_ticks (f th)) else alarm k u)"
  by (auto simp: alarm_def split: option.splits)

lemma kwf_not_listed: "kwf k \<Longrightarrow> running k \<notin> set (ready_list k) \<and> running k \<notin> set (sleep_list k)"
  using kwf_running(3) [of k] by (simp add: off_lists_iff)

text \<open>A change of the running thread's own members keeps the invariant.\<close>

lemma kwf_upd_running:
  assumes k: "kwf k" and f: "\<And>th. status (f th) = status th"
    "\<And>th. creates (frames (f th)) = creates (frames th)"
  shows "kwf (upd_thread (running k) f k)"
  by (rule kwf_keys [OF k]) (use kwf_not_listed [OF k] f in \<open>auto simp: view prio_upd alarm_upd\<close>)

lemma thread_set_priority_kwf:
  assumes k: "kwf k" and s: "thread_set_priority p k = Some k'"
  shows "kwf k'"
proof -
  let ?k = "upd_thread (running k) (\<lambda>th. th\<lparr>priority := p\<rparr>) k"
  have "kwf ?k" by (rule kwf_upd_running [OF k]) simp_all
  moreover have "k' = ?k \<or> thread_yield ?k = Some k'"
    using s kwf_current [OF k] by (auto simp: thread_set_priority_def Let_def bind_eq_Some_conv split: if_splits)
  ultimately show ?thesis using thread_yield_kwf by blast
qed

lemma thread_set_nice_kwf:
  assumes k: "kwf k" and s: "thread_set_nice n k = Some k'"
  shows "kwf k'"
proof -
  obtain p where y: "k' = upd_thread (running k) (\<lambda>th. th\<lparr>nice := n, priority := p\<rparr>) k \<or>
      thread_yield (upd_thread (running k) (\<lambda>th. th\<lparr>nice := n, priority := p\<rparr>) k) = Some k'"
    using s kwf_current [OF k] by (auto simp: thread_set_nice_def Let_def bind_eq_Some_conv split: if_splits)
  have "kwf (upd_thread (running k) (\<lambda>th. th\<lparr>nice := n, priority := p\<rparr>) k)"
    by (rule kwf_upd_running [OF k]) simp_all
  then show ?thesis using y thread_yield_kwf by blast
qed

lemma thread_sleep_kwf:
  assumes k: "kwf k" and ni: "running k \<noteq> idle_thread k" and s: "thread_sleep at k = Some k'"
  shows "kwf k'"
proof -
  let ?c = "running k"
  let ?k1 = "upd_thread ?c (\<lambda>th. th\<lparr>alarm_ticks := wrap32 at\<rparr>) k"
  let ?L = "insert_ordered (alarm_ticks_comp ?k1) ?c (sleep_list k)"
  have k1: "kwf ?k1" by (rule kwf_upd_running [OF k]) simp_all
  have b: "thread_block (?k1\<lparr>sleep_list := ?L\<rparr>) = Some k'"
    using s kwf_current [OF k] by (simp add: thread_sleep_def Let_def)
  have v: "st (?k1\<lparr>sleep_list := ?L\<rparr>) = st ?k1" "prio (?k1\<lparr>sleep_list := ?L\<rparr>) = prio ?k1"
    "alarm (?k1\<lparr>sleep_list := ?L\<rparr>) = alarm ?k1" "cr (?k1\<lparr>sleep_list := ?L\<rparr>) = cr ?k1"
    by (rule threads_views; simp)+
  show ?thesis
  proof (rule block_on_list [OF k1 _ _ _ _ _ _ _ _ _ _ b, where p = PSleep and lt = "alarm_ticks_comp ?k1"])
    show "on_list (?k1\<lparr>sleep_list := ?L\<rparr>) q = (if q = PSleep
        then insert_ordered (alarm_ticks_comp ?k1) (running ?k1) (on_list ?k1 PSleep) else on_list ?k1 q)" for q
      by (cases q) simp_all
    show "sorted_ok (?k1\<lparr>sleep_list := ?L\<rparr>)"
      using kinv_sorted [OF kwf_running(1) [OF k1]] sleep_sorted_insert [of ?k1 "sleep_list k" ?c]
      by (simp add: sorted_ok_def v)
  qed (use ni v in simp_all)
qed

section \<open>Wake-ups\<close>

lemma alarm_loop_kwf:
  "kwf k \<Longrightarrow> sleep_list k = ts \<Longrightarrow> alarm_loop ts now k = Some k' \<Longrightarrow> kwf k'"
proof (induction ts arbitrary: k)
  case (Cons t ts)
  show ?case
  proof (cases "alarm k t > now")
    case False
    then obtain k1 where u: "thread_unblock t (k\<lparr>sleep_list := ts\<rparr>) = Some k1"
      and l: "alarm_loop ts now k1 = Some k'"
      using Cons.prems(3) by (auto simp: bind_eq_Some_conv)
    have v: "st (k\<lparr>sleep_list := ts\<rparr>) = st k" "prio (k\<lparr>sleep_list := ts\<rparr>) = prio k"
      "alarm (k\<lparr>sleep_list := ts\<rparr>) = alarm k" "cr (k\<lparr>sleep_list := ts\<rparr>) = cr k"
      by (rule threads_views; simp)+
    have on: "on_list (k\<lparr>sleep_list := ts\<rparr>) q = (if q = PSleep then ts else on_list k q)" for q
      by (cases q) simp_all
    have "kwf k1"
      by (rule wake_kwf [OF Cons.prems(1) _ _ on v _ _ _ _ u])
        (use Cons.prems(2) in simp_all)
    moreover have "sleep_list k1 = ts"
      using u by (auto simp: thread_unblock_def Let_def bind_eq_Some_conv split: if_splits)
    ultimately show ?thesis using l by (rule Cons.IH)
  qed (use Cons.prems in simp)
qed simp

lemma yield_flag_kwf: "intr_yield_on_return k = Some k' \<Longrightarrow> kwf k \<Longrightarrow> kwf k'"
  by (rule kwf_same_view [OF same_view_threads])
    (auto simp: intr_yield_on_return_def split: if_splits)

lemma thread_alarm_kwf: "kwf k \<Longrightarrow> thread_alarm now k = Some k' \<Longrightarrow> kwf k'"
  using alarm_loop_kwf [of k "sleep_list k" now] yield_flag_kwf
  by (auto simp: thread_alarm_def bind_eq_Some_conv)

section \<open>Priorities\<close>

text \<open>
  thread_set_priority stores any int.  Aging adds one to it, which wraps around at INT_MAX and would
  then move the first thread of the ready list behind the others; \<open>prio_ok\<close> leaves this value out.
  The bounds \<open>lo\<close> and \<open>hi\<close> that contain the range of the scheduler are kept by all operations
  that do not set a priority outside of them.
\<close>

definition prio_in :: "int \<Rightarrow> int \<Rightarrow> kstate \<Rightarrow> bool" where
  "prio_in lo hi k \<longleftrightarrow> (\<forall>t. lo \<le> prio k t \<and> prio k t \<le> hi)"

definition wide :: "int \<Rightarrow> int \<Rightarrow> bool" where
  "wide lo hi \<longleftrightarrow> INT_MIN \<le> lo \<and> lo \<le> PRI_MIN \<and> PRI_MAX \<le> hi \<and> hi < INT_MAX"

definition prio_ok :: "kstate \<Rightarrow> bool" where
  "prio_ok k \<longleftrightarrow> prio_in INT_MIN (INT_MAX - 1) k"

definition prio_keep :: "kstate \<Rightarrow> kstate \<Rightarrow> bool" where
  "prio_keep k k' \<longleftrightarrow> (\<forall>lo hi. wide lo hi \<longrightarrow> prio_in lo hi k \<longrightarrow> prio_in lo hi k')"

lemma wide_range: "wide PRI_MIN PRI_MAX" "wide INT_MIN (INT_MAX - 1)"
  by (simp_all add: wide_def)

lemma prio_keepD: "prio_keep k k' \<Longrightarrow> wide lo hi \<Longrightarrow> prio_in lo hi k \<Longrightarrow> prio_in lo hi k'"
  by (simp add: prio_keep_def)

lemma prio_keep_ok: "prio_keep k k' \<Longrightarrow> prio_ok k \<Longrightarrow> prio_ok k'"
  using prio_keepD wide_range(2) by (auto simp: prio_ok_def)

lemma prio_keep_refl [simp]: "prio_keep k k"
  by (simp add: prio_keep_def)

lemma prio_keep_trans: "prio_keep k1 k2 \<Longrightarrow> prio_keep k2 k3 \<Longrightarrow> prio_keep k1 k3"
  by (simp add: prio_keep_def)

lemma prio_keep_cong: "prio k2 = prio k1 \<Longrightarrow> prio_keep k k2 = prio_keep k k1"
  by (simp add: prio_keep_def prio_in_def)

lemma prio_in_ok: "wide lo hi \<Longrightarrow> prio_in lo hi k \<Longrightarrow> prio_ok k"
proof -
  assume w: "wide lo hi" and r: "prio_in lo hi k"
  have "INT_MIN \<le> prio k t \<and> prio k t \<le> INT_MAX - 1" for t
  proof -
    have "lo \<le> prio k t \<and> prio k t \<le> hi" using r unfolding prio_in_def by blast
    then show ?thesis using w by (simp add: wide_def)
  qed
  then show "prio_ok k" by (simp add: prio_ok_def prio_in_def)
qed

lemma prio_okD: "prio_ok k \<Longrightarrow> INT_MIN \<le> prio k t \<and> prio k t < INT_MAX"
proof -
  assume "prio_ok k"
  then have "INT_MIN \<le> prio k t \<and> prio k t \<le> INT_MAX - 1" unfolding prio_ok_def prio_in_def by blast
  then show ?thesis by simp
qed

lemma prio_ok_cong: "prio k' = prio k \<Longrightarrow> prio_ok k' = prio_ok k"
  by (simp add: prio_ok_def prio_in_def)

lemma same_view_prio_ok: "same_view k k' \<Longrightarrow> prio_ok k' = prio_ok k"
  unfolding same_view_def using prio_ok_cong [of k' k] by blast

lemma prio_in_upd:
  "prio_in lo hi k \<Longrightarrow> wide lo hi \<Longrightarrow> (\<And>th. threads k t = Some th \<Longrightarrow> lo \<le> priority (f th) \<and> priority (f th) \<le> hi) \<Longrightarrow>
   prio_in lo hi (upd_thread t f k)"
  by (auto simp: prio_in_def prio_upd wide_def split: option.splits)

lemma prio_some: "threads k t = Some th \<Longrightarrow> prio k t = priority th"
  by (simp add: prio_def)

lemma aged_range: "INT_MIN \<le> p \<Longrightarrow> p < INT_MAX \<Longrightarrow> aged p = min (p + 1) PRI_MAX"
  by (auto simp: aged_def Let_def wrap32_id in_int_def)

lemma aging_loop_fields [simp]:
  "running (aging_loop ts k) = running k" "ready_list (aging_loop ts k) = ready_list k"
  "all_list (aging_loop ts k) = all_list k" "sleep_list (aging_loop ts k) = sleep_list k"
  "idle_thread (aging_loop ts k) = idle_thread k" "initial_thread (aging_loop ts k) = initial_thread k"
  "semas (aging_loop ts k) = semas k" "on_list (aging_loop ts k) = on_list k"
  by (induction ts arbitrary: k) simp_all

lemma aging_loop_views [view]:
  "st (aging_loop ts k) = st k" "alarm (aging_loop ts k) = alarm k" "cr (aging_loop ts k) = cr k"
  by (induction ts arbitrary: k) (simp_all add: view)

lemma aging_loop_prio:
  "distinct ts \<Longrightarrow> (\<And>t. t \<in> set ts \<Longrightarrow> st k t \<noteq> None) \<Longrightarrow>
   prio (aging_loop ts k) t = (if t \<in> set ts then aged (prio k t) else prio k t)"
proof (induction ts arbitrary: k)
  case (Cons u us)
  let ?k = "upd_thread u (\<lambda>th. th\<lparr>priority := aged (priority th)\<rparr>) k"
  obtain th where th: "threads k u = Some th" using Cons.prems(2) [of u] by (auto simp: st_def)
  have "prio ?k v = (if v = u then aged (prio k u) else prio k v)" for v
    using th by (simp add: prio_upd prio_some)
  moreover have "prio (aging_loop us ?k) t = (if t \<in> set us then aged (prio ?k t) else prio ?k t)"
    by (rule Cons.IH) (use Cons.prems in \<open>auto simp: view\<close>)
  ultimately show ?case using Cons.prems(1) by auto
qed simp

lemma sorted_wrt_mapped:
  "sorted_wrt (\<lambda>a b. f a \<ge> (f b :: int)) xs \<Longrightarrow> (\<And>a b. a \<in> set xs \<Longrightarrow> b \<in> set xs \<Longrightarrow> f a \<ge> f b \<Longrightarrow> g a \<ge> g b) \<Longrightarrow>
   sorted_wrt (\<lambda>a b. g a \<ge> (g b :: int)) xs"
  by (induction xs) auto

lemma kwf_listed_live: "kwf k \<Longrightarrow> t \<in> set (ready_list k) \<Longrightarrow> st k t \<noteq> None"
  using kinv_off_status [OF kwf_running(1), of k t PReady] by simp

lemma aging_loop_kwf:
  assumes k: "kwf k" and p: "prio_ok k"
  shows "kwf (aging_loop (ready_list k) k)" "prio_keep k (aging_loop (ready_list k) k)"
proof -
  let ?k = "aging_loop (ready_list k) k"
  have pr: "prio ?k t = (if t \<in> set (ready_list k) then aged (prio k t) else prio k t)" for t
    by (rule aging_loop_prio) (use kinv_distinct(2) [OF kwf_running(1) [OF k]] kwf_listed_live [OF k] in auto)
  have a: "aged (prio k t) = min (prio k t + 1) PRI_MAX" for t
    using aged_range prio_okD [OF p, of t] by simp
  show "prio_keep k ?k"
    unfolding prio_keep_def prio_in_def pr
  proof (intro allI impI)
    fix lo hi t assume w: "wide lo hi" and r: "\<forall>t. lo \<le> prio k t \<and> prio k t \<le> hi"
    have "lo \<le> prio k t" "prio k t \<le> hi" using r by blast+
    then show "lo \<le> (if t \<in> set (ready_list k) then aged (prio k t) else prio k t) \<and>
        (if t \<in> set (ready_list k) then aged (prio k t) else prio k t) \<le> hi"
      using w by (auto simp: a wide_def min_def)
  qed
  show "kwf ?k"
  proof (rule kwf_perm [OF k])
    have "sorted_wrt (\<lambda>x y. prio ?k x \<ge> prio ?k y) (ready_list k)"
      by (rule sorted_wrt_mapped [of "prio k"])
        (use kinv_sorted [OF kwf_running(1) [OF k]] in \<open>auto simp: sorted_ok_def pr a\<close>)
    then show "sorted_ok ?k"
      using kinv_sorted [OF kwf_running(1) [OF k]] by (simp add: sorted_ok_def view)
    show "distinct (on_list ?k p)" for p using kinv_distinct(1) [OF kwf_running(1) [OF k]] by simp
  qed (simp_all add: view)
qed

lemma yield_if_preempted_kwf: "yield_if_preempted k = Some k' \<Longrightarrow> kwf k \<Longrightarrow> kwf k'"
  using yield_flag_kwf by (auto simp: yield_if_preempted_def bind_eq_Some_conv split: if_splits)

lemma thread_priority_aging_kwf:
  "kwf k \<Longrightarrow> prio_ok k \<Longrightarrow> thread_priority_aging k = Some k' \<Longrightarrow> kwf k'"
  using yield_if_preempted_kwf [OF _ aging_loop_kwf(1)] by (simp add: thread_priority_aging_def)

lemma priority_loop_views:
  "priority_loop ts k = Some k' \<Longrightarrow> st k' = st k \<and> alarm k' = alarm k \<and> cr k' = cr k \<and>
     on_list k' = on_list k \<and> all_list k' = all_list k \<and> idle_thread k' = idle_thread k \<and>
     running k' = running k \<and> initial_thread k' = initial_thread k"
proof (induction ts arbitrary: k)
  case (Cons t ts)
  then obtain p where "priority_loop ts (upd_thread t (\<lambda>th. th\<lparr>priority := p\<rparr>) k) = Some k'"
    by (auto simp: bind_eq_Some_conv)
  from Cons.IH [OF this] show ?case by (simp add: view)
qed simp

lemma resort_kwf:
  assumes k: "kwf k"
    and v: "st k1 = st k" "alarm k1 = alarm k" "cr k1 = cr k" "on_list k1 = on_list k" "all_list k1 = all_list k"
      "idle_thread k1 = idle_thread k" "running k1 = running k" "initial_thread k1 = initial_thread k"
  shows "kwf (k1\<lparr>ready_list := ksort (priority_comp k1) (ready_list k1)\<rparr>)" (is "kwf ?k")
proof (rule kwf_perm [OF k])
  have l: "ready_list k1 = ready_list k" "sleep_list k1 = sleep_list k" using on_list_place [OF v(4)] by simp_all
  have on: "on_list ?k p = (if p = PReady then ksort (priority_comp k1) (ready_list k1) else on_list k p)" for p
    using fun_cong [OF v(4), of p] by (cases p) simp_all
  show "set (on_list ?k p) = set (on_list k p)" for p
    unfolding on by (cases p) (simp_all add: l)
  show "distinct (on_list ?k p)" for p
    unfolding on using kinv_distinct(1) [OF kwf_running(1) [OF k], of p]
      kinv_distinct(2) [OF kwf_running(1) [OF k]] by (cases p) (simp_all add: l)
  show "sorted_ok ?k"
    using kinv_sorted [OF kwf_running(1) [OF k]] ready_sorted_ksort [of k1 "ready_list k1"]
    by (simp add: sorted_ok_def st_ready_upd v l)
qed (simp_all add: v st_ready_upd)

lemma update_priority_kwf:
  assumes k: "kwf k" and u: "update_priority k = Some k'"
  shows "kwf k'"
proof -
  obtain k1 where l: "priority_loop (all_list k) k = Some k1"
    and y: "yield_if_preempted (k1\<lparr>ready_list := ksort (priority_comp k1) (ready_list k1)\<rparr>) = Some k'"
    using u by (auto simp: update_priority_def Let_def bind_eq_Some_conv)
  show ?thesis
    by (rule yield_if_preempted_kwf [OF y resort_kwf [OF k]]) (use priority_loop_views [OF l] in simp_all)
qed

section \<open>The timer interrupt\<close>

lemma upd_periodic_kwf: "kwf k \<Longrightarrow> update_periodic_recent_cpu k = Some k' \<Longrightarrow> kwf k'"
  by (auto simp: update_periodic_recent_cpu_def kwf_current split: if_splits intro: kwf_upd_running)

lemma update_load_avg_same: "update_load_avg k = Some k' \<Longrightarrow> same_view k k'"
  by (auto simp: update_load_avg_def Let_def bind_eq_Some_conv intro!: same_view_threads)

lemma recent_cpu_loop_same: "recent_cpu_loop ts k = Some k' \<Longrightarrow> same_view k k'"
proof (induction ts arbitrary: k)
  case (Cons t ts)
  then obtain th where th: "threads k t = Some th" by (auto simp: bind_eq_Some_conv)
  show ?case
  proof (cases "status th \<noteq> THREAD_DYING \<and> t \<noteq> idle_thread k")
    case True
    with Cons.prems th obtain r where
      l: "recent_cpu_loop ts (upd_thread t (\<lambda>th. th\<lparr>recent_cpu := r\<rparr>) k) = Some k'"
      by (auto simp: bind_eq_Some_conv)
    have "same_view k (upd_thread t (\<lambda>th. th\<lparr>recent_cpu := r\<rparr>) k)" by (rule same_view_upd) simp_all
    then show ?thesis using Cons.IH [OF l] by (rule same_view_trans)
  qed (use Cons th in auto)
qed simp

lemma same_view_yield_flag: "intr_yield_on_return k = Some k' \<Longrightarrow> same_view k k'"
  by (rule same_view_threads) (auto simp: intr_yield_on_return_def split: if_splits)

lemma thread_tick_same:
  assumes "thread_tick k = Some k'"
  shows "same_view k k'"
proof -
  obtain t th where tt: "thread_current k = Some t" "threads k t = Some th"
    using assms by (auto simp: thread_tick_def bind_eq_Some_conv)
  obtain k1 where k1: "k1 = count_tick t th k" and y: "(if thread_ticks k1 + 1 \<ge> TIME_SLICE
             then intr_yield_on_return (k1\<lparr>thread_ticks := thread_ticks k1 + 1\<rparr>)
             else Some (k1\<lparr>thread_ticks := thread_ticks k1 + 1\<rparr>)) = Some k'"
    using assms by (simp add: thread_tick_def Let_def tt cong: if_cong)
  have s: "same_view k (k1\<lparr>thread_ticks := thread_ticks k1 + 1\<rparr>)"
    by (rule same_view_threads) (simp_all add: k1 count_tick_def)
  show ?thesis
  proof (cases "thread_ticks k1 + 1 \<ge> TIME_SLICE")
    case True
    with y have "intr_yield_on_return (k1\<lparr>thread_ticks := thread_ticks k1 + 1\<rparr>) = Some k'" by simp
    from s same_view_yield_flag [OF this] show ?thesis by (rule same_view_trans)
  next
    case False
    with y have "k' = k1\<lparr>thread_ticks := thread_ticks k1 + 1\<rparr>" by simp
    with s show ?thesis by simp
  qed
qed

lemma intr_set_level_same: "intr_set_level lvl k = Some k' \<Longrightarrow> same_view k k'"
  by (auto simp: intr_set_level_def intr_enable_def intr_disable_def split: if_splits
      intro!: same_view_threads)

lemma intr_enable_same: "intr_enable k = Some k' \<Longrightarrow> same_view k k'"
  by (auto simp: intr_enable_def split: if_splits intro!: same_view_threads)

lemma mlfqs_updates_kwf: "kwf k \<Longrightarrow> mlfqs_updates k = Some k' \<Longrightarrow> kwf k'"
proof -
  assume k: "kwf k" and m: "mlfqs_updates k = Some k'"
  obtain k1 k2 where s1: "update_periodic_recent_cpu k = Some k1"
    and s2: "(if ticks k1 smod TIMER_FREQ = 0 then do { k \<leftarrow> update_load_avg k1; update_recent_cpu k }
        else Some k1) = Some k2"
    and s3: "(if ticks k2 smod 4 = 0 then update_priority k2 else Some k2) = Some k'"
    using m unfolding mlfqs_updates_def bind_eq_Some_conv by blast
  have k1: "kwf k1" by (rule upd_periodic_kwf [OF k s1])
  have "kwf k2"
  proof (cases "ticks k1 smod TIMER_FREQ = 0")
    case True
    with s2 obtain y where y: "update_load_avg k1 = Some y" "update_recent_cpu y = Some k2"
      by (auto simp: bind_eq_Some_conv)
    have "kwf y" by (rule kwf_same_view [OF update_load_avg_same [OF y(1)] k1])
    then show ?thesis
      using kwf_same_view [OF recent_cpu_loop_same] y(2) by (simp add: update_recent_cpu_def)
  qed (use s2 k1 in simp)
  then show "kwf k'" using s3 update_priority_kwf by (simp split: if_splits)
qed

lemma timer_interrupt_kwf:
  assumes k: "kwf k" and p: "prio_ok k" and t: "timer_interrupt k = Some k'"
  shows "kwf k'"
proof -
  let ?k = "k\<lparr>ticks := wrap64 (ticks k + 1)\<rparr>"
  obtain k1 k2 k3 k4 where s1: "thread_tick ?k = Some k1"
    and s2: "thread_alarm (ticks k1) (intr_disable k1) = Some k2"
    and s3: "(if thread_prior_aging k2 then thread_priority_aging k2 else Some k2) = Some k3"
    and s4: "(if thread_mlfqs k3 then mlfqs_updates k3 else Some k3) = Some k4"
    and s5: "intr_set_level (intr_level_of k1) k4 = Some k'"
    using t by (auto simp: timer_interrupt_def Let_def bind_eq_Some_conv intr_disable_def)
  have sv: "same_view k (intr_disable k1)"
    by (rule same_view_trans [OF same_view_threads same_view_trans [OF thread_tick_same [OF s1] same_view_intr_disable]]) simp_all
  then have k1: "kwf (intr_disable k1)" using k by (rule kwf_same_view)
  have p1: "prio_ok (intr_disable k1)" using same_view_prio_ok [OF sv] p by simp
  have k2: "kwf k2" by (rule thread_alarm_kwf [OF k1 s2])
  have "prio k2 = prio (intr_disable k1)"
  proof -
    have a: "alarm_loop ts n x = Some y \<Longrightarrow> prio y = prio x" for ts n x y
    proof (induction ts arbitrary: x)
      case (Cons t ts)
      show ?case
      proof (cases "alarm x t > n")
        case False
        with Cons.prems obtain z where z: "thread_unblock t (x\<lparr>sleep_list := ts\<rparr>) = Some z"
          and l: "alarm_loop ts n z = Some y" by (auto simp: bind_eq_Some_conv)
        have "prio z = prio (x\<lparr>sleep_list := ts\<rparr>)"
          using z by (auto simp: thread_unblock_def Let_def bind_eq_Some_conv view split: if_splits)
        moreover have "prio (x\<lparr>sleep_list := ts\<rparr>) = prio x" by (rule threads_views) simp
        ultimately show ?thesis using Cons.IH [OF l] by simp
      qed (use Cons.prems in simp)
    qed simp
    obtain y where y: "alarm_loop (sleep_list (intr_disable k1)) (ticks k1) (intr_disable k1) = Some y"
      and f: "intr_yield_on_return y = Some k2"
      using s2 by (auto simp: thread_alarm_def bind_eq_Some_conv)
    have "prio k2 = prio y"
      using f by (auto simp: intr_yield_on_return_def split: if_splits intro: threads_views)
    with a [OF y] show ?thesis by simp
  qed
  then have p2: "prio_ok k2" using p1 prio_ok_cong by blast
  have "kwf k3" using s3 k2 thread_priority_aging_kwf [OF k2 p2] by (auto split: if_splits)
  then have "kwf k4" using s4 mlfqs_updates_kwf by (auto split: if_splits)
  then show ?thesis by (rule kwf_same_view [OF intr_set_level_same [OF s5]])
qed

lemma intr_handler_timer_kwf:
  assumes k: "kwf k" and p: "prio_ok k" and t: "intr_handler_timer k = Some k'"
  shows "kwf k'"
proof -
  let ?k = "k\<lparr>in_external_intr := True, yield_on_return := False\<rparr>"
  obtain k1 where s: "timer_interrupt ?k = Some k1"
    and y: "(if yield_on_return k1 then thread_yield (k1\<lparr>in_external_intr := False\<rparr>)
             else Some (k1\<lparr>in_external_intr := False\<rparr>)) = Some k'"
    using t by (auto simp: intr_handler_timer_def Let_def bind_eq_Some_conv split: if_splits)
  have sv: "same_view k ?k" by (rule same_view_threads) simp_all
  have "prio_ok ?k" using same_view_prio_ok [OF sv] p by simp
  then have "kwf k1" using timer_interrupt_kwf [OF kwf_same_view [OF sv k] _ s] by simp
  then have "kwf (k1\<lparr>in_external_intr := False\<rparr>)"
    by (rule kwf_same_view [rotated]) (rule same_view_threads, simp_all)
  then show ?thesis using y thread_yield_kwf by (auto split: if_splits)
qed

lemma timer_irq_kwf:
  assumes k: "kwf k" and p: "prio_ok k" and t: "timer_irq k = Some k'"
  shows "kwf k'"
proof -
  let ?k = "intr_disable (push (SetLevel INTR_ON) k)"
  have sv: "same_view k ?k" by (rule same_view_trans [OF same_view_push same_view_intr_disable]) simp
  have "prio_ok ?k" using same_view_prio_ok [OF sv] p by simp
  moreover have "intr_handler_timer ?k = Some k'" using t by (auto simp: timer_irq_def split: if_splits)
  ultimately show ?thesis using intr_handler_timer_kwf [OF kwf_same_view [OF sv k]] by simp
qed

end
