(* ===== verification/KernelLife.thy ===== *)
theory KernelLife
  imports KernelSteps
begin

text \<open>
  The invariant \<open>kwf\<close> for locks, condition variables, creation, exit and the hand-over
  between parents and children.
\<close>

section \<open>Locks and condition variables\<close>

lemma kwf_view_cong:
  "threads k' = threads k \<Longrightarrow> ready_list k' = ready_list k \<Longrightarrow> sleep_list k' = sleep_list k \<Longrightarrow>
   semas k' = semas k \<Longrightarrow> all_list k' = all_list k \<Longrightarrow> idle_thread k' = idle_thread k \<Longrightarrow>
   running k' = running k \<Longrightarrow> initial_thread k' = initial_thread k \<Longrightarrow> kwf k \<Longrightarrow> kwf k'"
  by (rule kwf_same_view [OF same_view_threads]) simp_all

lemma kwf_push: "plain_frame f \<Longrightarrow> kwf k \<Longrightarrow> kwf (push f k)"
  by (rule kwf_same_view [OF same_view_push])

lemma kwf_ret: "kwf k \<Longrightarrow> kwf (ret v k)"
  by (rule kwf_same_view [OF same_view_ret])

lemma kwf_disable: "kwf k \<Longrightarrow> kwf (intr_disable k)"
  by (rule kwf_same_view [OF same_view_intr_disable])

text \<open>Initialising a semaphore empties its wait list.\<close>

lemma sema_init_kwf:
  assumes k: "kwf k"
  shows "kwf (sema_init s v k)"
proof -
  have "kinv (sema_init s v k)"
  proof (rule kinv_remove [OF kwf_running(1) [OF k], of "PWait s"])
    show "on_list (sema_init s v k) q = (if q = PWait s then [] else on_list k q)" for q
      by (simp add: sema_init_def on_list_set_sema)
    show "sorted_ok (sema_init s v k)"
      using kinv_sorted [OF kwf_running(1) [OF k]] by (simp add: sema_init_def sorted_ok_def view)
  qed (simp_all add: sema_init_def view)
  then show ?thesis
    using k by (simp add: kwf_def run_ok_def sema_init_def view)
qed

lemma lock_acquire_kwf:
  assumes k: "kwf k" and ni: "running k \<noteq> idle_thread k" and a: "lock_acquire l k = Some k'"
  shows "kwf k'"
proof -
  have "sema_down (LockSema l) (push (LockAcquired l) k) = Some k'"
    using a by (auto simp: lock_acquire_def bind_eq_Some_conv split: if_splits)
  moreover have "kwf (push (LockAcquired l) k)" by (rule kwf_push [OF _ k]) simp
  ultimately show ?thesis using sema_down_kwf ni by simp
qed

lemma lock_acquired_kwf: "kwf k \<Longrightarrow> lock_acquired l k = Some k' \<Longrightarrow> kwf k'"
  by (auto simp: lock_acquired_def bind_eq_Some_conv elim: kwf_view_cong [rotated -1])

lemma lock_release_eq: "lock_release l k = Some k' \<Longrightarrow>
    k' = push (LockReleaseUp l) (k\<lparr>lock_holder := (lock_holder k)(l := 0)\<rparr>)"
  by (auto simp: lock_release_def bind_eq_Some_conv split: if_splits)

lemma lock_release_kwf: "kwf k \<Longrightarrow> lock_release l k = Some k' \<Longrightarrow> kwf k'"
  by (auto dest!: lock_release_eq intro!: kwf_push elim: kwf_view_cong [rotated -1])

lemma cond_wait_kwf:
  assumes k: "kwf k" and w: "cond_wait c l k = Some k'"
  shows "kwf k'"
proof -
  let ?k1 = "sema_init (CondWaiter (running k)) 0 k"
  let ?k2 = "set_cond c (cond_waiters ?k1 c @ [running k]) ?k1"
  have "lock_release l (push CondWaitDown (push (CondWaitLock l) ?k2)) = Some k'"
    using w kwf_current [OF k] by (auto simp: cond_wait_def Let_def bind_eq_Some_conv split: if_splits)
  moreover have "kwf ?k2"
    by (rule kwf_view_cong [OF _ _ _ _ _ _ _ _ sema_init_kwf [OF k]]) (simp_all add: set_cond_def)
  then have "kwf (push CondWaitDown (push (CondWaitLock l) ?k2))" by (intro kwf_push) simp_all
  ultimately show ?thesis using lock_release_kwf by blast
qed

lemma cond_wait_down_kwf:
  "kwf k \<Longrightarrow> running k \<noteq> idle_thread k \<Longrightarrow> cond_wait_down k = Some k' \<Longrightarrow> kwf k'"
  using sema_down_kwf by (auto simp: cond_wait_down_def bind_eq_Some_conv)

lemma cond_signal_kwf:
  assumes k: "kwf k" and s: "cond_signal c l k = Some k'"
  shows "kwf k'"
proof (cases "cond_waiters k c")
  case Nil
  then show ?thesis using s k by (auto simp: cond_signal_def bind_eq_Some_conv split: if_splits)
next
  case (Cons t ts)
  have "kwf (set_cond c ts k)" by (rule kwf_view_cong [OF _ _ _ _ _ _ _ _ k]) (simp_all add: set_cond_def)
  then show ?thesis
    using s Cons sema_up_kwf by (auto simp: cond_signal_def bind_eq_Some_conv split: if_splits)
qed

lemma cond_broadcast_kwf: "kwf k \<Longrightarrow> cond_broadcast c l k = Some k' \<Longrightarrow> kwf k'"
  using cond_signal_kwf kwf_push [of "CondBroadcast c l" k]
  by (simp add: cond_broadcast_def split: if_splits)

section \<open>Creation\<close>

lemma kinv_create:
  assumes k: "kinv k" and t: "st k t = None" "t \<noteq> 0" "t \<noteq> idle_thread k"
    and s: "st k' = (st k)(t \<mapsto> THREAD_BLOCKED)" and c: "cr k' = (cr k)(u := t # cr k u)"
    and al: "all_list k' = all_list k @ [t]" and on: "on_list k' = on_list k"
    and i: "idle_thread k' = idle_thread k"
    and keys: "\<And>v. v \<noteq> t \<Longrightarrow> prio k' v = prio k v" "\<And>v. v \<noteq> t \<Longrightarrow> alarm k' v = alarm k v"
  shows "kinv k'"
proof -
  have toff: "off_lists k t" using kinv_off_lists [OF k] t(1) by simp
  have off: "t \<notin> set (on_list k p)" for p using toff by (simp add: off_lists_def)
  have ol: "off_lists k' = off_lists k" by (rule ext) (simp add: off_lists_def on)
  have l: "ready_list k' = ready_list k" "sleep_list k' = sleep_list k" using on_list_place [OF on] by simp_all
  have kp: "prio k' v = prio k v" if "v \<in> set (ready_list k)" for v
    using that off [of PReady] keys(1) [of v] by (cases "v = t") auto
  have ka: "alarm k' v = alarm k v" if "v \<in> set (sleep_list k)" for v
    using that off [of PSleep] keys(2) [of v] by (cases "v = t") auto
  have tc: "t \<notin> set (cr k v)" for v using kinv_embryo(1) [OF k, of t v] t(1) by auto
  have "elems_ok k'"
  proof (rule elems_okI)
    show "distinct (on_list k' p)" for p using kinv_distinct(1) [OF k] by (simp add: on)
    show "st k' v = Some (place_status p)" if "v \<in> set (on_list k' p)" for v p
      using that off [of p] kinv_off_status [OF k, of v p] by (auto simp: on s)
    show "p = q" if "v \<in> set (on_list k' p)" "v \<in> set (on_list k' q)" for v p q
      using that kinv_place [OF k, of v p q] by (simp add: on)
  qed
  moreover have "sorted_ok k'"
    using kinv_sorted [OF k] sorted_wrt_prio_cong [of "ready_list k" "prio k'" "prio k"] kp
      sorted_wrt_alarm_cong [of "sleep_list k" "alarm k'" "alarm k"] ka
    by (simp add: sorted_ok_def l)
  moreover have "all_ok k'" using kinv_all [OF k] t(1) by (auto simp: all_ok_def s al)
  moreover have "embryo_ok k'"
    unfolding embryo_ok_def
  proof (intro conjI allI ballI impI)
    fix v w assume w: "w \<in> set (cr k' v)"
    then have "w = t \<or> (w \<noteq> t \<and> w \<in> set (cr k v))" using tc by (auto simp: c split: if_splits)
    then show "st k' w = Some THREAD_BLOCKED" "off_lists k' w" "w \<noteq> idle_thread k'"
      using kinv_embryo(1) [OF k, of w v] toff t(3) by (auto simp: s ol i)
  next
    show "distinct (cr k' v)" for v using kinv_embryo(2) [OF k] tc by (simp add: c)
  next
    fix v w x assume "x \<in> set (cr k' v)" "x \<in> set (cr k' w)"
    then show "v = w" using kinv_embryo(3) [OF k, of x v w] tc by (auto simp: c split: if_splits)
  qed
  moreover have "idle_ok k'"
    using kinv_idle [OF k] t by (auto simp: idle_ok_def ol i l s)
  ultimately show ?thesis by (simp add: kinv_def)
qed

lemma kinv_cr_less:
  assumes k: "kinv k" and c: "\<And>u. set (cr k' u) \<subseteq> set (cr k u)" "\<And>u. distinct (cr k' u)"
    and same: "st k' = st k" "on_list k' = on_list k" "all_list k' = all_list k"
      "idle_thread k' = idle_thread k" "prio k' = prio k" "alarm k' = alarm k"
  shows "kinv k'"
proof -
  have ol: "off_lists k' = off_lists k" by (rule ext) (simp add: off_lists_def same)
  have l: "ready_list k' = ready_list k" "sleep_list k' = sleep_list k" using on_list_place [OF same(2)] by simp_all
  have "embryo_ok k'"
    unfolding embryo_ok_def ol same using kinv_embryo(1,3) [OF k] c by (meson subsetD)
  then show ?thesis
    using k by (simp add: kinv_def elems_ok_def sorted_ok_def all_ok_def idle_ok_def same ol l)
qed

lemma creates_distinct_tl: "distinct (creates (f # fs)) \<Longrightarrow> distinct (creates fs)"
  by (cases f) simp_all

lemma creates_subset: "set (creates fs) \<subseteq> set (creates (f # fs))"
  by (cases f) auto

text \<open>thread_create up to its call of allocate_tid.\<close>

lemma init_thread_eq: "init_thread t name pri k = Some k' \<Longrightarrow>
    k' = k\<lparr>threads := (threads k)(t \<mapsto> zero_thread\<lparr>status := THREAD_BLOCKED, tname := take 15 name, priority := pri\<rparr>),
            all_list := all_list k @ [t]\<rparr> \<and> PRI_MIN \<le> pri \<and> pri \<le> PRI_MAX"
  by (auto simp: init_thread_def Let_def split: if_splits)

lemma thread_create_kwf:
  assumes k: "kwf k" and ni: "running k \<noteq> idle_thread k"
    and t: "\<And>t. page = Some t \<Longrightarrow> t \<noteq> 0 \<and> threads k t = None \<and> t \<noteq> idle_thread k"
    and c: "thread_create page name pri fn k = Some k'"
  shows "kwf k'"
proof (cases page)
  case None
  then show ?thesis using c kwf_ret [OF k, of TID_ERROR] by (simp add: thread_create_def)
next
  case (Some t)
  note T = t [OF Some]
  let ?th = "zero_thread\<lparr>status := THREAD_BLOCKED, tname := take 15 name, priority := pri\<rparr>"
  let ?k1 = "k\<lparr>threads := (threads k)(t \<mapsto> ?th), all_list := all_list k @ [t]\<rparr>"
  let ?k2 = "push (CreateRest t fn) ?k1"
  obtain k1 where i: "init_thread t name pri k = Some k1"
    and a: "allocate_tid (push (CreateRest t fn) k1) = Some k'"
    using c Some by (auto simp: thread_create_def bind_eq_Some_conv)
  have "k1 = ?k1" using init_thread_eq [OF i] by simp
  with a have a: "lock_acquire tid_lock (push TidBump ?k2) = Some k'" by (simp add: allocate_tid_def)
  have rt: "running k \<noteq> t" using kwf_running(2) [OF k] T by (auto simp: st_def)
  obtain thr where thr: "threads k (running k) = Some thr"
    using kwf_running(2) [OF k] by (auto simp: st_def)
  have s: "st ?k2 = (st k)(t \<mapsto> THREAD_BLOCKED)" by (rule ext) (simp add: views_push st_def)
  have cr1: "cr ?k1 = cr k" using T by (auto simp: cr_def zero_thread_def)
  have "kinv ?k2"
  proof (rule kinv_create [OF kwf_running(1) [OF k] _ _ _ s, of "running k"])
    show "cr ?k2 = (cr k)(running k := t # cr k (running k))"
      by (subst cr_push_create) (use thr rt cr1 in simp_all)
    show "on_list ?k2 = on_list k" by (rule on_list_eqI) simp_all
    show "prio ?k2 v = prio k v" if "v \<noteq> t" for v using that by (simp add: views_push prio_def)
    show "alarm ?k2 v = alarm k v" if "v \<noteq> t" for v using that by (simp add: views_push alarm_def)
  qed (use T in \<open>simp_all add: st_def\<close>)
  moreover have "run_ok ?k2"
    using k T rt by (auto simp: kwf_def run_ok_def s)
  ultimately have "kwf ?k2" by (simp add: kwf_def)
  then have "kwf (push TidBump ?k2)" by (rule kwf_push [rotated]) simp
  then show ?thesis by (rule lock_acquire_kwf [OF _ _ a]) (simp add: ni)
qed

text \<open>The rest of thread_create, for a thread that is under construction by no one else.\<close>

lemma kwf_upd_other:
  assumes k: "kwf k" and f: "\<And>th. status (f th) = status th" "\<And>th. priority (f th) = priority th"
    "\<And>th. alarm_ticks (f th) = alarm_ticks th" "\<And>th. creates (frames (f th)) = creates (frames th)"
  shows "kwf (upd_thread t f k)"
  by (rule kwf_same_view [OF same_view_upd k]) (simp_all add: f)

lemma user_init_kwf: "kwf k \<Longrightarrow> kwf (user_init t par k)"
  unfolding user_init_def Let_def by (intro kwf_upd_other sema_init_kwf) simp_all

lemma user_init_views:
  "st (user_init t par k) = st k" "cr (user_init t par k) = cr k"
  "idle_thread (user_init t par k) = idle_thread k" "running (user_init t par k) = running k"
  "off_lists k u \<Longrightarrow> off_lists (user_init t par k) u"
  by (auto simp: user_init_def Let_def view sema_init_def off_lists_iff)

lemma set_members_kwf:
  assumes k: "kwf k" and o: "off_lists k t"
  shows "kwf (set_members t fn cur k)" "off_lists (set_members t fn cur k) t"
    "set (cr (set_members t fn cur k) u) \<subseteq> set (cr k u)"
    "idle_thread (set_members t fn cur k) = idle_thread k" "running (set_members t fn cur k) = running k"
proof -
  let ?k1 = "upd_thread t (\<lambda>th. th\<lparr>tid := retval cur\<rparr>) k"
  define k2 where "k2 = (if userprog k then user_init t (running k) ?k1 else ?k1)"
  define k3 where "k3 = inherit_mlfqs t cur k2"
  let ?k4 = "upd_thread t (\<lambda>th. th\<lparr>frames := [KernelThread fn, ThreadExit]\<rparr>) k3"
  have e: "set_members t fn cur k = ?k4" by (simp add: set_members_def k2_def k3_def)
  have k1: "kwf ?k1" by (rule kwf_upd_other [OF k]) simp_all
  have o1: "off_lists ?k1 t" using o by (simp add: off_lists_def)
  have k2: "kwf k2" "off_lists k2 t" "cr k2 = cr k" "idle_thread k2 = idle_thread k" "running k2 = running k"
    using k1 user_init_kwf [OF k1] o1 user_init_views(5) [OF o1]
    by (simp_all add: k2_def user_init_views(1-4) view)
  have "kwf (upd_thread t (\<lambda>th. th\<lparr>nice := nice cur, recent_cpu := recent_cpu cur\<rparr>) k2)"
    by (rule kwf_upd_other [OF k2(1)]) simp_all
  then have k3: "kwf k3" "off_lists k3 t" "cr k3 = cr k" "idle_thread k3 = idle_thread k" "running k3 = running k"
    using k2 by (auto simp: k3_def inherit_mlfqs_def off_lists_def view)
  have c4: "cr ?k4 v = (if v = t then [] else cr k3 v)" for v
    by (simp add: cr_def split: option.splits)
  have "kinv ?k4"
    by (rule kinv_cr_less [OF kwf_running(1) [OF k3(1)]])
      (use kinv_embryo(2) [OF kwf_running(1) [OF k3(1)]] c4 in \<open>simp_all add: view\<close>)
  then show "kwf (set_members t fn cur k)" using k3(1) by (simp add: kwf_def run_ok_def view e)
  show "off_lists (set_members t fn cur k) t" using k3(2) by (simp add: off_lists_def e)
  show "set (cr (set_members t fn cur k) u) \<subseteq> set (cr k u)" unfolding e c4 using k3(3) by simp
  show "idle_thread (set_members t fn cur k) = idle_thread k" "running (set_members t fn cur k) = running k"
    using k3 by (simp_all add: e)
qed

lemma create_rest_kwf:
  assumes k: "kwf k" and t: "off_lists k t" "t \<noteq> idle_thread k" "not_embryo k t"
    and c: "create_rest t fn k = Some k'"
  shows "kwf k'"
proof -
  obtain cur k1 where u: "thread_unblock t (set_members t fn cur k) = Some k1"
    and y: "thread_yield (push (ReturnVal (retval cur)) k1) = Some k'"
    using c by (auto simp: create_rest_def bind_eq_Some_conv)
  note m = set_members_kwf [OF k t(1), of fn cur]
  have "kwf k1"
    by (rule thread_unblock_kwf(1) [OF m(1,2) _ _ u])
      (use t(2,3) m(3,4) in \<open>auto simp: not_embryo_def\<close>)
  then have "kwf (push (ReturnVal (retval cur)) k1)" by (rule kwf_push [rotated]) simp
  then show ?thesis using y by (rule thread_yield_kwf)
qed

section \<open>Exit\<close>

lemma exit_tail_kwf:
  assumes k: "kwf k" and ni: "running k \<noteq> idle_thread k" and e: "exit_tail k = Some k'"
  shows "kwf k'"
proof -
  define k1 where "k1 = (if userprog k then upd_thread (running k) (\<lambda>th. th\<lparr>pagedir := 0\<rparr>) k else k)"
  let ?k2 = "intr_disable k1\<lparr>all_list := remove1 (running k) (all_list (intr_disable k1))\<rparr>"
  have sch: "schedule (set_status THREAD_DYING (running k) ?k2) = Some k'"
    using e kwf_current [OF k] by (simp add: exit_tail_def Let_def k1_def)
  have "same_view k k1" unfolding k1_def using same_view_upd by simp
  then have v1: "same_view k (intr_disable k1)" using same_view_intr_disable same_view_trans by blast
  have v2: "st ?k2 = st (intr_disable k1)" "prio ?k2 = prio (intr_disable k1)"
    "alarm ?k2 = alarm (intr_disable k1)" "cr ?k2 = cr (intr_disable k1)"
    by (rule threads_views; simp)+
  have on: "on_list ?k2 = on_list (intr_disable k1)" by (rule on_list_eqI) simp_all
  show ?thesis
    by (rule leave_status [OF k _ _ _ _ _ _ _ _ _ _ _ _ sch, of THREAD_DYING])
      (use ni v1 v2 on kwf_running(2) [OF k] in \<open>simp_all add: same_view_def view\<close>)
qed

lemma thread_exit_kwf:
  assumes k: "kwf k" and e: "thread_exit k = Some k'"
  shows "kwf k'"
proof -
  have "kwf (upd_thread (running k) (\<lambda>th. th\<lparr>ready_to_exit := True\<rparr>) k)"
    by (rule kwf_upd_running [OF k]) simp_all
  then show ?thesis
    using e k kwf_current [OF k] by (auto simp: thread_exit_def split: if_splits intro: kwf_push)
qed

lemma exit_wait_kwf: "kwf k \<Longrightarrow> exit_wait k = Some k' \<Longrightarrow> kwf k'"
  using thread_yield_kwf kwf_push [of ExitWait k] kwf_push [of ExitTail k]
  by (auto simp: exit_wait_def bind_eq_Some_conv split: if_splits)

section \<open>Parents and children\<close>

lemma exec_wait_load_kwf: "kwf k \<Longrightarrow> exec_wait_load t k = Some k' \<Longrightarrow> kwf k'"
  using thread_yield_kwf kwf_push [of "ExecWaitLoad t" k] kwf_ret [of k t]
  by (auto simp: exec_wait_load_def bind_eq_Some_conv split: if_splits)

lemma exec_created_kwf: "kwf k \<Longrightarrow> exec_created k = Some k' \<Longrightarrow> kwf k'"
  by (auto simp: exec_created_def bind_eq_Some_conv intro: kwf_push)

lemma exec_result_kwf: "kwf k \<Longrightarrow> exec_result k = Some k' \<Longrightarrow> kwf k'"
  using kwf_ret [of k] by (auto simp: exec_result_def bind_eq_Some_conv split: if_splits)

lemma loaded_kwf:
  assumes k: "kwf k" and l: "loaded ok k = Some k'"
  shows "kwf k'"
proof -
  obtain th where "cur_thread k = Some th"
    and l': "(if \<not> ok then thread_exit (upd_thread (parent th) (\<lambda>p. p\<lparr>load_finish := True\<rparr>)
              (upd_thread (parent th) (\<lambda>p. p\<lparr>child_load_success := False\<rparr>) k))
             else Some (upd_thread (parent th) (\<lambda>p. p\<lparr>load_finish := True\<rparr>) k)) = Some k'"
    using l by (cases ok) (auto simp: loaded_def Let_def bind_eq_Some_conv)
  have "kwf (upd_thread (parent th) (\<lambda>p. p\<lparr>load_finish := True\<rparr>) k)"
    "kwf (upd_thread (parent th) (\<lambda>p. p\<lparr>load_finish := True\<rparr>)
       (upd_thread (parent th) (\<lambda>p. p\<lparr>child_load_success := False\<rparr>) k))"
    by (intro kwf_upd_other k; simp)+
  then show ?thesis using l' thread_exit_kwf by (auto split: if_splits)
qed

lemma process_wait_kwf: "kwf k \<Longrightarrow> process_wait t k = Some k' \<Longrightarrow> kwf k'"
  using kwf_ret [of k] by (auto simp: process_wait_def bind_eq_Some_conv kwf_push split: option.splits)

lemma wait_child_kwf:
  assumes k: "kwf k" and w: "wait_child c k = Some k'"
  shows "kwf k'"
proof -
  obtain ch where "threads k c = Some ch"
    and w': "(if \<not> ready_to_exit ch then thread_yield (push (WaitChild c) k)
       else Some (ret (exit_status ch) (upd_thread c (\<lambda>th. th\<lparr>deleted_from_parent := True\<rparr>)
         (upd_thread (running k) (\<lambda>th. th\<lparr>child_list := remove1 c (child_list th)\<rparr>) k)))) = Some k'"
    using w kwf_current [OF k] by (auto simp: wait_child_def Let_def bind_eq_Some_conv cong: if_cong)
  have "kwf (ret (exit_status ch) (upd_thread c (\<lambda>th. th\<lparr>deleted_from_parent := True\<rparr>)
         (upd_thread (running k) (\<lambda>th. th\<lparr>child_list := remove1 c (child_list th)\<rparr>) k)))"
    by (intro kwf_ret kwf_upd_other k) simp_all
  moreover have "kwf (push (WaitChild c) k)" by (rule kwf_push [OF _ k]) simp
  ultimately show ?thesis using w' thread_yield_kwf by (auto split: if_splits)
qed

end
