(* ===== verification/KernelSafety.thy ===== *)
theory KernelSafety
  imports KernelLife
begin

text \<open>
  The invariant of the whole kernel: \<open>kwf\<close>, priorities below INT_MAX, and the shape of the
  kernel stacks (the idle thread runs only its loop, so it never sleeps on a list; no other
  thread runs the idle loop).  Every step keeps it.
\<close>

section \<open>The stacks\<close>

fun idle_frame :: "frame \<Rightarrow> bool" where
  "idle_frame (IdleInit s) = True"
| "idle_frame IdleLoop = True"
| "idle_frame IdleSti = True"
| "idle_frame IdleHalted = True"
| "idle_frame (KernelThread (IdleFn s)) = True"
| "idle_frame (CreateRest t (IdleFn s)) = True"
| "idle_frame f = False"

fun idle_stack :: "frame list \<Rightarrow> bool" where
  "idle_stack [] = False"
| "idle_stack (f # fs) =
     (case f of SetLevel l \<Rightarrow> idle_stack fs
      | IdleLoop \<Rightarrow> fs = [ThreadExit] | IdleSti \<Rightarrow> fs = [ThreadExit] | IdleHalted \<Rightarrow> fs = [ThreadExit]
      | _ \<Rightarrow> False)"

definition fr :: "kstate \<Rightarrow> tptr \<Rightarrow> frame list option" where
  "fr k t = map_option frames (threads k t)"

definition stack_ok :: "kstate \<Rightarrow> bool" where
  "stack_ok k \<longleftrightarrow>
     (\<exists>fs. fr k (idle_thread k) = Some fs \<and> idle_stack fs) \<and>
     (\<forall>t fs. t \<noteq> idle_thread k \<longrightarrow> fr k t = Some fs \<longrightarrow> (\<forall>f \<in> set fs. \<not> idle_frame f))"

text \<open>What an operation may do to stacks and priorities.\<close>

definition grow :: "kstate \<Rightarrow> kstate \<Rightarrow> bool" where
  "grow k k' \<longleftrightarrow> idle_thread k' = idle_thread k \<and> prio_keep k k' \<and>
     (\<forall>fs. fr k (idle_thread k) = Some fs \<longrightarrow> idle_stack fs \<longrightarrow>
        (\<exists>fs'. fr k' (idle_thread k) = Some fs' \<and> idle_stack fs')) \<and>
     (\<forall>t fs' f. t \<noteq> idle_thread k \<longrightarrow> fr k' t = Some fs' \<longrightarrow> f \<in> set fs' \<longrightarrow> idle_frame f \<longrightarrow>
        (\<exists>fs. fr k t = Some fs \<and> f \<in> set fs))"

lemma grow_refl [simp]: "grow k k"
  by (simp add: grow_def)

lemma grow_trans: "grow k1 k2 \<Longrightarrow> grow k2 k3 \<Longrightarrow> grow k1 k3"
  using prio_keep_trans [of k1 k2 k3] unfolding grow_def by (elim conjE, intro conjI; metis)

lemma growD:
  assumes "grow k k'"
  shows "idle_thread k' = idle_thread k" "prio_ok k \<Longrightarrow> prio_ok k'" "stack_ok k \<Longrightarrow> stack_ok k'" "prio_keep k k'"
proof -
  show i: "idle_thread k' = idle_thread k" and p: "prio_keep k k'"
    using assms unfolding grow_def by blast+
  show "prio_ok k \<Longrightarrow> prio_ok k'" by (rule prio_keep_ok [OF p])
  show "stack_ok k \<Longrightarrow> stack_ok k'"
    using assms unfolding grow_def stack_ok_def i by (metis (no_types, lifting))
qed

lemma grow_prio:
  assumes g: "grow k0 k" and p: "prio_keep k k'" and e: "fr k' = fr k" "idle_thread k' = idle_thread k"
  shows "grow k0 k'"
proof -
  have "prio_keep k0 k'" using g p prio_keep_trans unfolding grow_def by blast
  then show ?thesis using g unfolding grow_def e by blast
qed

text \<open>The rules are in composed form: they extend a chain of changes by one.\<close>

named_theorems growI "what keeps the stacks in shape"

lemma grow_threads:
  "threads k' = threads k \<Longrightarrow> idle_thread k' = idle_thread k \<Longrightarrow> grow k0 k \<Longrightarrow> grow k0 k'"
  unfolding grow_def fr_def using prio_keep_cong [OF threads_views(2), of k' k] by simp

lemma grow_disable [growI]: "grow k0 k \<Longrightarrow> grow k0 (intr_disable k)"
  by (rule grow_threads) simp_all

lemma grow_set_sema [growI]: "grow k0 k \<Longrightarrow> grow k0 (set_sema s v k)"
  by (rule grow_threads) simp_all

lemma grow_upd_range:
  assumes g: "grow k0 k" and f: "\<And>th. frames (f th) = frames th"
    and p: "\<And>th. priority (f th) = priority th \<or> PRI_MIN \<le> priority (f th) \<and> priority (f th) \<le> PRI_MAX"
  shows "grow k0 (upd_thread t f k)"
proof -
  have "fr (upd_thread t f k) = fr k" by (rule ext) (simp add: fr_def option.map_comp o_def f)
  moreover have "prio_keep k (upd_thread t f k)"
    unfolding prio_keep_def
  proof (intro allI impI)
    fix lo hi assume w: "wide lo hi" and r: "prio_in lo hi k"
    show "prio_in lo hi (upd_thread t f k)"
    proof (rule prio_in_upd [OF r w])
      fix th assume "threads k t = Some th"
      then have "lo \<le> priority th \<and> priority th \<le> hi" using r prio_some [of k t th] unfolding prio_in_def by metis
      then show "lo \<le> priority (f th) \<and> priority (f th) \<le> hi" using p [of th] w unfolding wide_def by linarith
    qed
  qed
  ultimately show ?thesis by (intro grow_prio [OF g]) simp_all
qed

lemma grow_upd [growI]:
  "grow k0 k \<Longrightarrow> (\<And>th. frames (f th) = frames th) \<Longrightarrow> (\<And>th. priority (f th) = priority th) \<Longrightarrow>
   grow k0 (upd_thread t f k)"
  by (rule grow_upd_range) simp_all

lemma grow_status [growI]: "grow k0 k \<Longrightarrow> grow k0 (set_status s t k)"
  unfolding set_status_def by (rule grow_upd) simp_all

lemma grow_ret [growI]: "grow k0 k \<Longrightarrow> grow k0 (ret v k)"
  unfolding ret_def by (rule grow_upd) simp_all

lemma fr_push: "fr (push f k) t = (if t = running k then map_option ((#) f) (fr k t) else fr k t)"
  by (simp add: fr_def push_def option.map_comp o_def)

lemma prio_keep_push [simp]: "prio_keep k0 (push f k) = prio_keep k0 k"
  by (rule prio_keep_cong) (simp add: view)

lemma grow_push [growI]:
  "grow k0 k \<Longrightarrow> running k \<noteq> idle_thread k0 \<Longrightarrow> \<not> idle_frame f \<Longrightarrow> grow k0 (push f k)"
  unfolding grow_def by (auto simp: fr_push prio_keep_push split: if_splits)

lemma grow_level [growI]: "grow k0 k \<Longrightarrow> grow k0 (push (SetLevel l) k)"
  unfolding grow_def by (auto simp: fr_push prio_keep_push split: if_splits)

lemma grow_free:
  assumes "grow k0 k" "t \<noteq> idle_thread k0" "idle_thread k' = idle_thread k"
    "threads k' = (threads k)(t := None)"
  shows "grow k0 k'"
proof -
  have "prio_keep k k'" using assms(4) by (auto simp: prio_keep_def prio_in_def prio_def wide_def)
  then have "prio_keep k0 k'" using assms(1) prio_keep_trans unfolding grow_def by blast
  then show ?thesis using assms unfolding grow_def fr_def by (auto split: if_splits)
qed

lemma grow_schedule:
  assumes s: "schedule k = Some k'" and g: "grow k0 k" and r: "running k \<noteq> 0"
    and d: "st k (running k) = Some THREAD_DYING \<Longrightarrow> running k \<noteq> idle_thread k0"
  shows "grow k0 k'"
proof -
  have "grow k0 (switched k)"
    unfolding switched_def
    by (rule grow_threads [of _ "set_status THREAD_RUNNING (chosen k) (k\<lparr>ready_list := tl (ready_list k), running := chosen k\<rparr>)"])
      (auto intro!: grow_status grow_threads [OF _ _ g])
  then show ?thesis
    using schedule_eq(1) [OF s r] d grow_free [of k0 "switched k" "running k" k'] by (auto split: if_splits)
qed

section \<open>Scheduler and synchronisation\<close>

lemma kwf_nz: "kwf k \<Longrightarrow> running k \<noteq> 0"
  by (rule kwf_running(7))

lemma grow_block:
  assumes b: "thread_block k = Some k'" and g: "grow k0 k" and r: "running k \<noteq> 0"
  shows "grow k0 k'"
proof -
  have "schedule (set_status THREAD_BLOCKED (running k) k) = Some k'" using thread_blockD [OF b] by simp
  then show ?thesis
    by (rule grow_schedule) (use g r in \<open>auto intro: grow_status simp: view\<close>)
qed

lemma grow_yield:
  assumes y: "thread_yield k = Some k'" and g: "grow k0 k" and r: "running k \<noteq> 0"
  shows "grow k0 k'"
proof -
  obtain k1 where k1: "schedule (set_status THREAD_READY (running k) (push (SetLevel (intr_level_of k)) k1)) = Some k'"
    and e: "threads k1 = threads k" "idle_thread k1 = idle_thread k" "running k1 = running k"
    using y by (auto simp: thread_yield_def thread_current_eq Let_def bind_eq_Some_conv split: if_splits)
  have "grow k0 k1" by (rule grow_threads [OF e(1,2) g])
  then show ?thesis
    by (intro grow_schedule [OF k1] growI) (use e r in \<open>auto simp: view\<close>)
qed

lemma grow_unblock: "thread_unblock t k = Some k' \<Longrightarrow> grow k0 k \<Longrightarrow> grow k0 k'"
  by (auto simp: thread_unblock_def Let_def bind_eq_Some_conv split: if_splits
      intro!: grow_status intro: grow_threads)

lemma running_unblock [simp]: "thread_unblock t k = Some k' \<Longrightarrow> running k' = running k"
  by (auto simp: thread_unblock_def Let_def bind_eq_Some_conv split: if_splits)

lemma grow_down_loop:
  assumes d: "sema_down_loop s k = Some k'" and g: "grow k0 k"
    and r: "running k \<noteq> 0" "running k \<noteq> idle_thread k0"
  shows "grow k0 k'"
proof (cases "sem_value (semas k s) = 0")
  case True
  then obtain v where b: "thread_block (push (SemaDownLoop s) (set_sema s v k)) = Some k'"
    using d by (auto simp: sema_down_loop_def Let_def bind_eq_Some_conv)
  show ?thesis by (rule grow_block [OF b]) (use r g in \<open>auto intro!: growI\<close>)
next
  case False
  then show ?thesis using d g by (auto simp: sema_down_loop_def Let_def intro!: growI)
qed

lemma grow_down:
  assumes d: "sema_down s k = Some k'" and g: "grow k0 k"
    and r: "running k \<noteq> 0" "running k \<noteq> idle_thread k0"
  shows "grow k0 k'"
proof -
  have "sema_down_loop s (push (SetLevel (intr_level_of k)) (intr_disable k)) = Some k'"
    using d by (auto simp: sema_down_def Let_def split: if_splits)
  then show ?thesis by (rule grow_down_loop) (use r g in \<open>auto intro!: growI\<close>)
qed

lemma grow_up:
  assumes u: "sema_up s k = Some k'" and g: "grow k0 k" and r: "running k \<noteq> 0"
  shows "grow k0 k'"
proof -
  obtain k1 v where k1: "(case waiters (semas (intr_disable k) s) of [] \<Rightarrow> Some (intr_disable k)
      | t # ts \<Rightarrow> thread_unblock t (set_sema s ((semas (intr_disable k) s)\<lparr>waiters := ts\<rparr>) (intr_disable k))) = Some k1"
    and y: "thread_yield (push (SetLevel (intr_level_of k)) (set_sema s v k1)) = Some k'"
    using u unfolding sema_up_def Let_def by (auto simp: bind_eq_Some_conv)
  have "grow k0 k1 \<and> running k1 = running k"
  proof (cases "waiters (semas (intr_disable k) s)")
    case Nil
    then show ?thesis using k1 g by (auto intro!: growI)
  next
    case (Cons t ts)
    then have "thread_unblock t (set_sema s ((semas (intr_disable k) s)\<lparr>waiters := ts\<rparr>) (intr_disable k)) = Some k1"
      using k1 by simp
    then show ?thesis using grow_unblock running_unblock g by (fastforce intro!: growI)
  qed
  then show ?thesis by (intro grow_yield [OF y] growI) (use r in simp_all)
qed

lemma grow_lock_acquire:
  "lock_acquire l k = Some k' \<Longrightarrow> grow k0 k \<Longrightarrow> running k \<noteq> 0 \<Longrightarrow> running k \<noteq> idle_thread k0 \<Longrightarrow> grow k0 k'"
  by (auto simp: lock_acquire_def bind_eq_Some_conv split: if_splits
      intro!: grow_down [where k = "push (LockAcquired l) k"] growI)

lemma grow_lock_release:
  assumes "lock_release l k = Some k'" "grow k0 k" "running k \<noteq> idle_thread k0"
  shows "grow k0 k'"
proof -
  have "grow k0 (k\<lparr>lock_holder := (lock_holder k)(l := 0)\<rparr>)"
    by (rule grow_threads [OF _ _ assms(2)]) simp_all
  then show ?thesis using lock_release_eq [OF assms(1)] assms(3) by (auto intro!: growI)
qed

lemma set_cond_fields [simp]:
  "threads (set_cond c ts k) = threads k" "idle_thread (set_cond c ts k) = idle_thread k"
  "running (set_cond c ts k) = running k"
  by (simp_all add: set_cond_def)

lemma grow_set_cond [growI]: "grow k0 k \<Longrightarrow> grow k0 (set_cond c ts k)"
  by (rule grow_threads) simp_all

lemma grow_cond_wait:
  assumes w: "cond_wait c l k = Some k'" and g: "grow k0 k" and r: "running k \<noteq> idle_thread k0"
  shows "grow k0 k'"
proof -
  obtain ts k1 where k1: "k1 = set_cond c ts (sema_init (CondWaiter (running k)) 0 k)"
    and l: "lock_release l (push CondWaitDown (push (CondWaitLock l) k1)) = Some k'"
    using w by (auto simp: cond_wait_def Let_def thread_current_eq bind_eq_Some_conv split: if_splits)
  have "grow k0 k1 \<and> running k1 = running k" using g by (auto simp: k1 sema_init_def intro!: growI)
  then show ?thesis by (intro grow_lock_release [OF l] growI) (use r in simp_all)
qed

lemma grow_cond_signal:
  "cond_signal c l k = Some k' \<Longrightarrow> grow k0 k \<Longrightarrow> running k \<noteq> 0 \<Longrightarrow> grow k0 k'"
  by (auto simp: cond_signal_def bind_eq_Some_conv split: if_splits list.splits
      intro: grow_up [where k = "set_cond c _ k"] growI)

lemma grow_cond_broadcast:
  "cond_broadcast c l k = Some k' \<Longrightarrow> grow k0 k \<Longrightarrow> running k \<noteq> 0 \<Longrightarrow> running k \<noteq> idle_thread k0 \<Longrightarrow> grow k0 k'"
  by (auto simp: cond_broadcast_def split: if_splits
      intro!: grow_cond_signal [where k = "push (CondBroadcast c l) k"] growI)

section \<open>Priorities, sleeping and the timer\<close>

lemma grow_set_priority:
  assumes s: "thread_set_priority p k = Some k'" and g: "grow k0 k" and r: "running k \<noteq> 0"
    and p: "PRI_MIN \<le> p" "p \<le> PRI_MAX"
  shows "grow k0 k'"
proof -
  let ?k = "upd_thread (running k) (\<lambda>th. th\<lparr>priority := p\<rparr>) k"
  have "grow k0 ?k" by (rule grow_upd_range [OF g]) (use p in simp_all)
  moreover have "k' = ?k \<or> thread_yield ?k = Some k'"
    using s by (auto simp: thread_set_priority_def thread_current_eq Let_def bind_eq_Some_conv split: if_splits)
  ultimately show ?thesis using grow_yield [of ?k k' k0] r by auto
qed

lemma grow_set_nice:
  assumes s: "thread_set_nice n k = Some k'" and g: "grow k0 k" and r: "running k \<noteq> 0"
  shows "grow k0 k'"
proof -
  obtain th p where p: "new_priority (recent_cpu th) n = Some p" "threads k (running k) = Some th"
    and y: "k' = upd_thread (running k) (\<lambda>th. th\<lparr>nice := n, priority := p\<rparr>) k \<or>
      thread_yield (upd_thread (running k) (\<lambda>th. th\<lparr>nice := n, priority := p\<rparr>) k) = Some k'"
    using s by (auto simp: thread_set_nice_def thread_current_eq Let_def bind_eq_Some_conv split: if_splits)
  have "grow k0 (upd_thread (running k) (\<lambda>th. th\<lparr>nice := n, priority := p\<rparr>) k)"
    by (rule grow_upd_range [OF g]) (use new_priority_Some [of "recent_cpu th" n] p in simp_all)
  then show ?thesis using y grow_yield [of _ k' k0] r by auto
qed

lemma grow_sleep:
  assumes s: "thread_sleep at k = Some k'" and g: "grow k0 k" and r: "running k \<noteq> 0"
  shows "grow k0 k'"
proof -
  obtain k1 where b: "thread_block k1 = Some k'"
    and e: "threads k1 = threads (upd_thread (running k) (\<lambda>th. th\<lparr>alarm_ticks := wrap32 at\<rparr>) k)"
      "idle_thread k1 = idle_thread k" "running k1 = running k"
    using s by (auto simp: thread_sleep_def thread_current_eq Let_def bind_eq_Some_conv)
  have "grow k0 (upd_thread (running k) (\<lambda>th. th\<lparr>alarm_ticks := wrap32 at\<rparr>) k)"
    using g by (auto intro!: growI)
  then have "grow k0 k1" by (rule grow_threads [rotated 2]) (use e in simp_all)
  then show ?thesis by (rule grow_block [OF b]) (use r e in simp)
qed

lemma grow_timer_sleep:
  assumes s: "timer_sleep n k = Some k'" and g: "grow k0 k" and r: "running k \<noteq> 0"
  shows "grow k0 k'"
proof -
  have "thread_sleep (wrap64 (timer_ticks k + n)) (intr_disable (push (SetLevel (intr_level_of k)) k)) = Some k'"
    using s by (auto simp: timer_sleep_def Let_def split: if_splits)
  then show ?thesis by (rule grow_sleep) (use g r in \<open>auto intro!: growI\<close>)
qed

text \<open>The parts of the timer interrupt: stacks, the running thread and the idle thread.\<close>

lemma thread_tick_threads: 
  assumes "thread_tick k = Some k'"
  shows "threads k' = threads k" "idle_thread k' = idle_thread k" "running k' = running k"
proof -
  obtain t th where "thread_current k = Some t" "threads k t = Some th"
    using assms by (auto simp: thread_tick_def bind_eq_Some_conv)
  then show "threads k' = threads k" "idle_thread k' = idle_thread k" "running k' = running k"
    using assms by (auto simp: thread_tick_def Let_def intr_yield_on_return_def count_tick_def split: if_splits)
qed

lemma yield_flag_threads:
  assumes "intr_yield_on_return k = Some k'"
  shows "threads k' = threads k" "idle_thread k' = idle_thread k" "running k' = running k"
  using assms by (auto simp: intr_yield_on_return_def split: if_splits)

lemma grow_alarm_loop:
  "alarm_loop ts now k = Some k' \<Longrightarrow> grow k0 k \<Longrightarrow> grow k0 k' \<and> running k' = running k"
proof (induction ts arbitrary: k)
  case (Cons t ts)
  show ?case
  proof (cases "alarm k t > now")
    case False
    then obtain k1 where u: "thread_unblock t (k\<lparr>sleep_list := ts\<rparr>) = Some k1"
      and l: "alarm_loop ts now k1 = Some k'" using Cons.prems(1) by (auto simp: bind_eq_Some_conv)
    have "grow k0 (k\<lparr>sleep_list := ts\<rparr>)" by (rule grow_threads [OF _ _ Cons.prems(2)]) simp_all
    then have "grow k0 k1" by (rule grow_unblock [OF u])
    with Cons.IH [OF l] running_unblock [OF u] show ?thesis by simp
  qed (use Cons.prems in simp)
qed simp

lemma grow_alarm:
  assumes "thread_alarm now k = Some k'" "grow k0 k"
  shows "grow k0 k' \<and> running k' = running k"
proof -
  obtain k1 where a: "alarm_loop (sleep_list k) now k = Some k1" and y: "intr_yield_on_return k1 = Some k'"
    using assms(1) by (auto simp: thread_alarm_def bind_eq_Some_conv)
  have "grow k0 k1 \<and> running k1 = running k" by (rule grow_alarm_loop [OF a assms(2)])
  then show ?thesis using yield_flag_threads [OF y] grow_threads [of k' k1 k0] by simp
qed

lemma grow_preempted:
  "yield_if_preempted k = Some k' \<Longrightarrow> grow k0 k \<Longrightarrow> grow k0 k' \<and> running k' = running k"
  using yield_flag_threads [of k k'] grow_threads [of k' k k0]
  by (auto simp: yield_if_preempted_def bind_eq_Some_conv split: if_splits)

lemma fr_aging_loop: "fr (aging_loop ts k) = fr k"
proof (induction ts arbitrary: k)
  case (Cons t ts)
  have "fr (upd_thread t (\<lambda>th. th\<lparr>priority := aged (priority th)\<rparr>) k) = fr k"
    by (rule ext) (simp add: fr_def option.map_comp o_def)
  then show ?case using Cons.IH by simp
qed simp

lemma grow_aging:
  assumes a: "thread_priority_aging k = Some k'" and g: "grow k0 k" and k: "kwf k" "prio_ok k"
  shows "grow k0 k' \<and> running k' = running k"
proof -
  let ?k = "aging_loop (ready_list k) k"
  have "grow k0 ?k"
    by (rule grow_prio [OF g aging_loop_kwf(2) [OF k] fr_aging_loop]) simp
  moreover have "yield_if_preempted ?k = Some k'" using a by (simp add: thread_priority_aging_def)
  ultimately show ?thesis using grow_preempted [of ?k k' k0] by simp
qed

lemma grow_priority_loop: "priority_loop ts k = Some k' \<Longrightarrow> grow k0 k \<Longrightarrow> grow k0 k'"
proof (induction ts arbitrary: k)
  case (Cons t ts)
  then obtain th p where "threads k t = Some th" and p: "new_priority (recent_cpu th) (nice th) = Some p"
    and l: "priority_loop ts (upd_thread t (\<lambda>th. th\<lparr>priority := p\<rparr>) k) = Some k'"
    by (simp add: bind_eq_Some_conv) blast
  show ?case
    by (rule Cons.IH [OF l], rule grow_upd_range [OF Cons.prems(2)])
      (use p new_priority_Some [of "recent_cpu th" "nice th"] in simp_all)
qed simp

lemma grow_recent_cpu_loop: "recent_cpu_loop ts k = Some k' \<Longrightarrow> grow k0 k \<Longrightarrow> grow k0 k'"
proof (induction ts arbitrary: k)
  case (Cons t ts)
  obtain th where th: "threads k t = Some th" using Cons.prems(1) by (auto simp: bind_eq_Some_conv)
  show ?case
  proof (cases "status th \<noteq> THREAD_DYING \<and> t \<noteq> idle_thread k")
    case True
    with Cons.prems(1) th obtain r where
      l: "recent_cpu_loop ts (upd_thread t (\<lambda>th. th\<lparr>recent_cpu := r\<rparr>) k) = Some k'"
      by (auto simp: bind_eq_Some_conv)
    show ?thesis by (rule Cons.IH [OF l]) (use Cons.prems(2) in \<open>auto intro!: growI\<close>)
  qed (use Cons th in auto)
qed simp

lemma grow_mlfqs:
  assumes m: "mlfqs_updates k = Some k'" and g: "grow k0 k" and k: "kwf k"
  shows "grow k0 k' \<and> running k' = running k"
proof -
  obtain k1 k2 where s1: "update_periodic_recent_cpu k = Some k1"
    and s2: "(if ticks k1 smod TIMER_FREQ = 0 then do { k \<leftarrow> update_load_avg k1; update_recent_cpu k }
        else Some k1) = Some k2"
    and s3: "(if ticks k2 smod 4 = 0 then update_priority k2 else Some k2) = Some k'"
    using m unfolding mlfqs_updates_def bind_eq_Some_conv by blast
  have g1: "grow k0 k1 \<and> running k1 = running k"
    using s1 g by (auto simp: update_periodic_recent_cpu_def bind_eq_Some_conv intro!: growI)
  have g2: "grow k0 k2 \<and> running k2 = running k1"
  proof (cases "ticks k1 smod TIMER_FREQ = 0")
    case True
    with s2 obtain y where y: "update_load_avg k1 = Some y" "recent_cpu_loop (all_list y) y = Some k2"
      by (auto simp: bind_eq_Some_conv update_recent_cpu_def)
    have e: "threads y = threads k1" "idle_thread y = idle_thread k1" "running y = running k1"
      using y(1) by (auto simp: update_load_avg_def Let_def bind_eq_Some_conv)
    have "running k2 = running y" using recent_cpu_loop_same [OF y(2)] by (simp add: same_view_def)
    then show ?thesis using grow_recent_cpu_loop [OF y(2)] grow_threads [OF e(1,2)] g1 e(3) by auto
  qed (use s2 g1 in simp)
  show ?thesis
  proof (cases "ticks k2 smod 4 = 0")
    case True
    with s3 obtain k3 where l: "priority_loop (all_list k2) k2 = Some k3"
      and y: "yield_if_preempted (k3\<lparr>ready_list := ksort (priority_comp k3) (ready_list k3)\<rparr>) = Some k'"
      by (auto simp: update_priority_def Let_def bind_eq_Some_conv)
    have "grow k0 k3" using grow_priority_loop [OF l] g2 by blast
    then have "grow k0 (k3\<lparr>ready_list := ksort (priority_comp k3) (ready_list k3)\<rparr>)"
      by (rule grow_threads [rotated 2]) simp_all
    then show ?thesis using grow_preempted [OF y] priority_loop_views [OF l] g2 g1 by simp
  qed (use s3 g1 g2 in simp)
qed

lemma grow_timer_interrupt:
  assumes t: "timer_interrupt k = Some k'" and k: "kwf k" "prio_ok k"
  shows "grow k k' \<and> running k' = running k"
proof -
  let ?k = "k\<lparr>ticks := wrap64 (ticks k + 1)\<rparr>"
  obtain k1 k2 k3 k4 where s1: "thread_tick ?k = Some k1"
    and s2: "thread_alarm (ticks k1) (intr_disable k1) = Some k2"
    and s3: "(if thread_prior_aging k2 then thread_priority_aging k2 else Some k2) = Some k3"
    and s4: "(if thread_mlfqs k3 then mlfqs_updates k3 else Some k3) = Some k4"
    and s5: "intr_set_level (intr_level_of k1) k4 = Some k'"
    using t by (auto simp: timer_interrupt_def Let_def bind_eq_Some_conv intr_disable_def)
  have "grow k ?k" by (rule grow_threads [OF _ _ grow_refl]) simp_all
  then have "grow k k1" by (rule grow_threads [rotated 2]) (use thread_tick_threads [OF s1] in simp_all)
  then have g1: "grow k (intr_disable k1)" by (rule grow_disable)
  have sv: "same_view k (intr_disable k1)"
    by (rule same_view_trans [OF same_view_threads same_view_trans [OF thread_tick_same [OF s1] same_view_intr_disable]]) simp_all
  have k2: "kwf k2" by (rule thread_alarm_kwf [OF kwf_same_view [OF sv k(1)] s2])
  have g2: "grow k k2" "running k2 = running k"
    using grow_alarm [OF s2 g1] thread_tick_threads(3) [OF s1] by simp_all
  have p2: "prio_ok k2" using growD(2) [OF g2(1)] k(2) by simp
  have k3: "kwf k3" using s3 k2 thread_priority_aging_kwf [OF k2 p2] by (auto split: if_splits)
  have g3: "grow k k3 \<and> running k3 = running k"
    using s3 g2 grow_aging [OF _ g2(1) k2 p2] by (auto split: if_splits)
  have g4: "grow k k4 \<and> running k4 = running k"
    using s4 g3 grow_mlfqs [OF _ _ k3] by (auto split: if_splits)
  have "threads k' = threads k4 \<and> idle_thread k' = idle_thread k4 \<and> running k' = running k4"
    using s5 by (auto simp: intr_set_level_def intr_enable_def intr_disable_def split: if_splits)
  then show ?thesis using g4 grow_threads [of k' k4 k] by simp
qed

lemma grow_timer_irq:
  assumes t: "timer_irq k = Some k'" and k: "kwf k" "prio_ok k"
  shows "grow k k'"
proof -
  let ?k = "(intr_disable (push (SetLevel INTR_ON) k))\<lparr>in_external_intr := True, yield_on_return := False\<rparr>"
  have sv: "same_view k ?k"
    by (rule same_view_trans [OF same_view_push same_view_trans [OF same_view_intr_disable same_view_threads]]) simp_all
  have g: "grow k ?k"
    by (rule grow_threads [of _ "intr_disable (push (SetLevel INTR_ON) k)"]) (auto intro!: growI)
  obtain k1 where s: "timer_interrupt ?k = Some k1"
    and y: "(if yield_on_return k1 then thread_yield (k1\<lparr>in_external_intr := False\<rparr>)
             else Some (k1\<lparr>in_external_intr := False\<rparr>)) = Some k'"
    using t by (auto simp: timer_irq_def intr_handler_timer_def Let_def bind_eq_Some_conv split: if_splits)
  have gr: "grow ?k k1 \<and> running k1 = running ?k"
    by (rule grow_timer_interrupt [OF s kwf_same_view [OF sv k(1)]]) (use same_view_prio_ok [OF sv] k(2) in simp)
  have "grow k k1" by (rule grow_trans [OF g]) (use gr in blast)
  then have g2: "grow k (k1\<lparr>in_external_intr := False\<rparr>)" by (rule grow_threads [rotated 2]) simp_all
  have "running k1 = running k" using gr by simp
  show ?thesis
  proof (cases "yield_on_return k1")
    case True
    then have "thread_yield (k1\<lparr>in_external_intr := False\<rparr>) = Some k'" using y by simp
    then show ?thesis by (rule grow_yield [OF _ g2]) (use \<open>running k1 = running k\<close> kwf_nz [OF k(1)] in simp)
  next
    case False
    then show ?thesis using y g2 by simp
  qed
qed

section \<open>Creation and exit\<close>

lemma grow_init_thread:
  assumes i: "init_thread t name pri k = Some k'" and t: "threads k t = None" and g: "grow k0 k"
    and n: "t \<noteq> idle_thread k0"
  shows "grow k0 k'"
proof -
  let ?th = "zero_thread\<lparr>status := THREAD_BLOCKED, tname := take 15 name, priority := pri\<rparr>"
  have e: "threads k' = (threads k)(t \<mapsto> ?th)" "idle_thread k' = idle_thread k" "PRI_MIN \<le> pri" "pri \<le> PRI_MAX"
    using init_thread_eq [OF i] by simp_all
  have "prio_keep k k'" using e by (auto simp: prio_keep_def prio_in_def prio_def wide_def)
  then have "prio_keep k0 k'" using g prio_keep_trans unfolding grow_def by blast
  moreover have "fr k' u = (if u = t then Some [] else fr k u)" for u
    by (simp add: fr_def e zero_thread_def)
  ultimately show ?thesis using g e(2) n unfolding grow_def by (auto split: if_splits)
qed

lemma grow_create:
  assumes c: "thread_create page name pri fn k = Some k'" and g: "grow k0 k"
    and r: "running k \<noteq> 0" "running k \<noteq> idle_thread k0"
    and t: "\<And>t. page = Some t \<Longrightarrow> threads k t = None \<and> t \<noteq> idle_thread k0"
    and f: "\<not> idle_frame (CreateRest 0 fn)"
  shows "grow k0 k'"
proof (cases page)
  case None
  then show ?thesis using c g by (auto simp: thread_create_def intro!: growI)
next
  case (Some t)
  then obtain k1 where i: "init_thread t name pri k = Some k1"
    and a: "lock_acquire tid_lock (push TidBump (push (CreateRest t fn) k1)) = Some k'"
    using c by (auto simp: thread_create_def allocate_tid_def bind_eq_Some_conv)
  have "running k1 = running k" using init_thread_eq [OF i] by simp
  moreover have "\<not> idle_frame (CreateRest t fn)" using f by (cases fn) simp_all
  ultimately show ?thesis
    by (intro grow_lock_acquire [OF a] growI grow_init_thread [OF i]) (use t [OF Some] g r in simp_all)
qed

lemma grow_user_init: "grow k0 k \<Longrightarrow> grow k0 (user_init t par k)"
  unfolding user_init_def Let_def sema_init_def by (intro growI) simp_all

lemma grow_set_frames:
  assumes "grow k0 k" "t \<noteq> idle_thread k0" "\<forall>f \<in> set fs. \<not> idle_frame f"
  shows "grow k0 (upd_thread t (\<lambda>th. th\<lparr>frames := fs\<rparr>) k)"
proof -
  have "fr (upd_thread t (\<lambda>th. th\<lparr>frames := fs\<rparr>) k) u = (if u = t then map_option (\<lambda>_. fs) (fr k t) else fr k u)" for u
    by (simp add: fr_def option.map_comp o_def)
  moreover have "prio_keep k0 (upd_thread t (\<lambda>th. th\<lparr>frames := fs\<rparr>) k) = prio_keep k0 k"
    by (rule prio_keep_cong) (simp add: view)
  ultimately show ?thesis using assms unfolding grow_def by (auto split: if_splits)
qed

lemma grow_set_members:
  assumes g: "grow k0 k" and t: "t \<noteq> idle_thread k0" and f: "\<not> idle_frame (CreateRest 0 fn)"
  shows "grow k0 (set_members t fn cur k)"
proof -
  let ?k1 = "upd_thread t (\<lambda>th. th\<lparr>tid := retval cur\<rparr>) k"
  have "grow k0 ?k1" using g by (intro growI) simp_all
  then have "grow k0 (if userprog k then user_init t (running k) ?k1 else ?k1)" using grow_user_init by simp
  then have "grow k0 (inherit_mlfqs t cur (if userprog k then user_init t (running k) ?k1 else ?k1))"
    using g unfolding inherit_mlfqs_def by (auto intro!: growI)
  then show ?thesis
    unfolding set_members_def by (rule grow_set_frames) (use t f in \<open>auto split: tfunc.splits intro: tfunc.exhaust [of fn]\<close>)
qed

lemma grow_create_rest:
  assumes c: "create_rest t fn k = Some k'" and g: "grow k0 k" and r: "running k \<noteq> 0" "running k \<noteq> idle_thread k0"
    and t: "t \<noteq> idle_thread k0" and f: "\<not> idle_frame (CreateRest 0 fn)"
  shows "grow k0 k'"
proof -
  obtain cur k1 where u: "thread_unblock t (set_members t fn cur k) = Some k1"
    and y: "thread_yield (push (ReturnVal (retval cur)) k1) = Some k'"
    using c by (auto simp: create_rest_def bind_eq_Some_conv)
  have "running (set_members t fn cur k) = running k"
    by (simp add: set_members_def inherit_mlfqs_def user_init_views)
  then have e: "running k1 = running k" using running_unblock [OF u] by simp
  have "grow k0 k1" by (rule grow_unblock [OF u grow_set_members [OF g t f]])
  then show ?thesis by (intro grow_yield [OF y] growI) (use e r in simp_all)
qed

lemma grow_thread_exit:
  "thread_exit k = Some k' \<Longrightarrow> grow k0 k \<Longrightarrow> running k \<noteq> idle_thread k0 \<Longrightarrow> grow k0 k'"
  by (auto simp: thread_exit_def thread_current_eq bind_eq_Some_conv split: if_splits intro!: growI)

lemma grow_exit_tail:
  assumes e: "exit_tail k = Some k'" and g: "grow k0 k" and r: "running k \<noteq> 0" "running k \<noteq> idle_thread k0"
  shows "grow k0 k'"
proof -
  define k1 where "k1 = (if userprog k then upd_thread (running k) (\<lambda>th. th\<lparr>pagedir := 0\<rparr>) k else k)"
  let ?k2 = "intr_disable k1\<lparr>all_list := remove1 (running k) (all_list (intr_disable k1))\<rparr>"
  have sch: "schedule (set_status THREAD_DYING (running k) ?k2) = Some k'"
    using e by (auto simp: exit_tail_def thread_current_eq Let_def k1_def bind_eq_Some_conv)
  have "grow k0 k1" using g by (auto simp: k1_def intro!: growI)
  then have "grow k0 ?k2" by (rule grow_threads [OF _ _ grow_disable, rotated 2]) simp_all
  then show ?thesis by (intro grow_schedule [OF sch] growI) (use r in \<open>simp_all add: k1_def\<close>)
qed

lemma grow_exit_wait:
  "exit_wait k = Some k' \<Longrightarrow> grow k0 k \<Longrightarrow> running k \<noteq> 0 \<Longrightarrow> running k \<noteq> idle_thread k0 \<Longrightarrow> grow k0 k'"
  by (auto simp: exit_wait_def bind_eq_Some_conv split: if_splits
      intro!: grow_yield [where k = "push ExitWait k"] growI)

lemma grow_exec_wait_load:
  "exec_wait_load t k = Some k' \<Longrightarrow> grow k0 k \<Longrightarrow> running k \<noteq> 0 \<Longrightarrow> running k \<noteq> idle_thread k0 \<Longrightarrow> grow k0 k'"
  by (auto simp: exec_wait_load_def bind_eq_Some_conv split: if_splits
      intro!: grow_yield [where k = "push (ExecWaitLoad t) k"] growI)

lemma grow_loaded:
  assumes l: "loaded ok k = Some k'" and g: "grow k0 k" and r: "running k \<noteq> idle_thread k0"
  shows "grow k0 k'"
proof -
  obtain th where "cur_thread k = Some th"
    and l': "(if \<not> ok then thread_exit (upd_thread (parent th) (\<lambda>p. p\<lparr>load_finish := True\<rparr>)
              (upd_thread (parent th) (\<lambda>p. p\<lparr>child_load_success := False\<rparr>) k))
             else Some (upd_thread (parent th) (\<lambda>p. p\<lparr>load_finish := True\<rparr>) k)) = Some k'"
    using l by (cases ok) (auto simp: loaded_def Let_def bind_eq_Some_conv)
  have "grow k0 (upd_thread (parent th) (\<lambda>p. p\<lparr>load_finish := True\<rparr>) k)"
    "grow k0 (upd_thread (parent th) (\<lambda>p. p\<lparr>load_finish := True\<rparr>)
       (upd_thread (parent th) (\<lambda>p. p\<lparr>child_load_success := False\<rparr>) k))"
    using g by (auto intro!: growI)
  then show ?thesis using l' grow_thread_exit [of _ k' k0] r by (auto split: if_splits)
qed

lemma grow_wait_child:
  assumes w: "wait_child c k = Some k'" and g: "grow k0 k" and r: "running k \<noteq> 0" "running k \<noteq> idle_thread k0"
  shows "grow k0 k'"
proof -
  obtain ch cur where "threads k c = Some ch"
    and w': "thread_yield (push (WaitChild c) k) = Some k' \<or>
       k' = ret (exit_status ch) (upd_thread c (\<lambda>th. th\<lparr>deleted_from_parent := True\<rparr>)
         (upd_thread cur (\<lambda>th. th\<lparr>child_list := remove1 c (child_list th)\<rparr>) k))"
    using w by (auto simp: wait_child_def Let_def bind_eq_Some_conv split: if_splits)
  have "grow k0 (ret (exit_status ch) (upd_thread c (\<lambda>th. th\<lparr>deleted_from_parent := True\<rparr>)
         (upd_thread cur (\<lambda>th. th\<lparr>child_list := remove1 c (child_list th)\<rparr>) k)))"
    using g by (intro growI) simp_all
  moreover have "grow k0 (push (WaitChild c) k)" using g r by (intro growI) simp_all
  ultimately show ?thesis using w' grow_yield [of "push (WaitChild c) k" k' k0] r by auto
qed

section \<open>The invariant and its preservation\<close>

definition safe :: "kstate \<Rightarrow> bool" where
  "safe k \<longleftrightarrow> kwf k \<and> prio_ok k \<and> stack_ok k"

lemma safe_grow: "safe k \<Longrightarrow> kwf k' \<Longrightarrow> grow k k' \<Longrightarrow> safe k'"
  using growD [of k k'] by (simp add: safe_def)

lemma pop_frameE:
  assumes "pop_frame k = Some (f, k1)"
  obtains th fs where "threads k (running k) = Some th" "frames th = f # fs"
    "k1 = upd_thread (running k) (\<lambda>th. th\<lparr>frames := fs\<rparr>) k"
  using assms by (auto simp: pop_frame_def split: option.splits list.splits)

lemma pop_kwf:
  assumes k: "kwf k" and p: "pop_frame k = Some (f, k1)"
  shows "kwf k1" "running k1 = running k" "idle_thread k1 = idle_thread k"
    "set (cr k1 u) \<subseteq> set (cr k u)" "f = CreateRest t fn \<Longrightarrow> off_lists k1 t \<and> t \<noteq> idle_thread k1 \<and> not_embryo k1 t"
proof -
  obtain th fs where th: "threads k (running k) = Some th" "frames th = f # fs"
    and e: "k1 = upd_thread (running k) (\<lambda>th. th\<lparr>frames := fs\<rparr>) k"
    using p by (rule pop_frameE)
  note K = kwf_running(1) [OF k]
  have c: "cr k1 v = (if v = running k then creates fs else cr k v)" for v
    using th by (auto simp: e cr_def)
  have c0: "cr k (running k) = creates (f # fs)" using th by (simp add: cr_def)
  have sub: "set (cr k1 v) \<subseteq> set (cr k v)" for v
    using creates_subset [of fs f] c0 by (simp add: c del: creates.simps)
  show "set (cr k1 u) \<subseteq> set (cr k u)" by (rule sub)
  have d: "distinct (cr k1 v)" for v
  proof (cases "v = running k")
    case True
    then show ?thesis
      using kinv_embryo(2) [OF K, of "running k"] creates_distinct_tl [of f fs] by (simp add: c c0 del: creates.simps)
  next
    case False
    then show ?thesis using kinv_embryo(2) [OF K, of v] by (simp add: c)
  qed
  have "kinv k1" by (rule kinv_cr_less [OF K sub d]) (simp_all add: e view)
  then show "kwf k1" using k by (simp add: kwf_def run_ok_def e view)
  show r: "running k1 = running k" and i: "idle_thread k1 = idle_thread k" by (simp_all add: e)
  show "off_lists k1 t \<and> t \<noteq> idle_thread k1 \<and> not_embryo k1 t" if f: "f = CreateRest t fn"
  proof -
    have t: "t \<in> set (cr k (running k))" using f c0 by simp
    have "t \<notin> set (creates fs)" using kinv_embryo(2) [OF K, of "running k"] f c0 by simp
    moreover have "t \<notin> set (cr k v)" if "v \<noteq> running k" for v
      using kinv_embryo(3) [OF K t, of v] that by blast
    ultimately have "not_embryo k1 t" by (simp add: not_embryo_def c)
    then show ?thesis using kinv_embryo(1) [OF K t] by (simp add: i off_lists_def e)
  qed
qed

lemma pop_grow:
  assumes s: "stack_ok k" and p: "pop_frame k = Some (f, k1)" and ni: "running k \<noteq> idle_thread k"
  shows "grow k k1" "\<not> idle_frame f"
proof -
  obtain th fs where th: "threads k (running k) = Some th" "frames th = f # fs"
    and e: "k1 = upd_thread (running k) (\<lambda>th. th\<lparr>frames := fs\<rparr>) k"
    using p by (rule pop_frameE)
  have fs: "\<forall>x \<in> set (f # fs). \<not> idle_frame x"
    using s th ni unfolding stack_ok_def fr_def by (metis option.simps(9))
  then show "\<not> idle_frame f" by simp
  show "grow k k1" unfolding e by (rule grow_set_frames) (use ni fs in simp_all)
qed

lemma kernel_thread_steps:
  assumes t: "kernel_thread fn k = Some k'" and f: "\<not> idle_frame (KernelThread fn)"
    and k: "kwf k" and r: "running k \<noteq> idle_thread k"
  shows "kwf k'" "grow k k'"
proof -
  obtain k1 where i: "intr_enable k = Some k1"
    and e: "k' = (case fn of IdleFn s \<Rightarrow> push (IdleInit s) k1 | StartProcess ok \<Rightarrow> push (Loaded ok) k1 | KernelFn \<Rightarrow> k1)"
    using t by (auto simp: kernel_thread_def bind_eq_Some_conv)
  have k1: "kwf k1" by (rule kwf_same_view [OF intr_enable_same [OF i] k])
  have th: "threads k1 = threads k" "idle_thread k1 = idle_thread k" "running k1 = running k"
    using i by (auto simp: intr_enable_def split: if_splits)
  have g1: "grow k k1" by (rule grow_threads [OF th(1,2)]) simp
  show "kwf k'" using e f k1 by (cases fn) (auto intro: kwf_push)
  show "grow k k'"
  proof (cases fn)
    case (StartProcess ok)
    have "grow k (push (Loaded ok) k1)" by (rule grow_push [OF g1]) (use th(3) r in simp_all)
    then show ?thesis by (simp add: e StartProcess)
  qed (use e f g1 in simp_all)
qed

lemma intr_set_level_steps:
  assumes "intr_set_level l k = Some k'" "kwf k"
  shows "kwf k'" "grow k k'"
proof -
  show "kwf k'" by (rule kwf_same_view [OF intr_set_level_same [OF assms(1)] assms(2)])
  have "threads k' = threads k" "idle_thread k' = idle_thread k"
    using assms(1) by (auto simp: intr_set_level_def intr_enable_def split: if_splits)
  then show "grow k k'" by (rule grow_threads) simp
qed

text \<open>Frames of a thread that is not the idle thread.\<close>

lemma exec_frame_steps:
  assumes e: "exec_frame f k = Some k'" and k: "kwf k" and r: "running k \<noteq> idle_thread k"
    and f: "\<not> idle_frame f"
    and c: "\<And>t fn. f = CreateRest t fn \<Longrightarrow> off_lists k t \<and> t \<noteq> idle_thread k \<and> not_embryo k t"
  shows "kwf k' \<and> grow k k'"
proof -
  note nz = kwf_nz [OF k]
  show ?thesis
  proof (cases f)
    case (SetLevel l)
    then show ?thesis using e k intr_set_level_steps by auto
  next
    case (KernelThread fn)
    then show ?thesis using e k r f kernel_thread_steps [of fn k k'] by auto
  next
    case (SemaDownLoop s)
    then show ?thesis using e k r nz sema_down_loop_kwf [of k s k'] grow_down_loop [of s k k' k] by auto
  next
    case (LockAcquired l)
    then have "kwf k'" using e k lock_acquired_kwf [of k l k'] by simp
    moreover have "threads k' = threads k" "idle_thread k' = idle_thread k"
      using e LockAcquired by (auto simp: lock_acquired_def bind_eq_Some_conv)
    then have "grow k k'" by (rule grow_threads) simp
    ultimately show ?thesis by simp
  next
    case (LockReleaseUp l)
    then show ?thesis using e k r nz sema_up_kwf [of k "LockSema l" k'] grow_up [of "LockSema l" k k' k] by auto
  next
    case CondWaitDown
    then obtain d where "sema_down d k = Some k'" using e by (auto simp: cond_wait_down_def bind_eq_Some_conv)
    then show ?thesis using k r nz sema_down_kwf [of k d k'] grow_down [of d k k' k] by auto
  next
    case (CondWaitLock l)
    then show ?thesis using e k r nz lock_acquire_kwf [of k l k'] grow_lock_acquire [of l k k' k] by auto
  next
    case (CondBroadcast c l)
    then show ?thesis using e k r nz cond_broadcast_kwf [of k c l k'] grow_cond_broadcast [of c l k k' k] by auto
  next
    case TidBump
    let ?k = "ret (next_tid k) (k\<lparr>next_tid := wrap32 (next_tid k + 1)\<rparr>)"
    have l: "lock_release tid_lock ?k = Some k'" using e TidBump by (simp add: tid_bump_def)
    have "kwf (k\<lparr>next_tid := wrap32 (next_tid k + 1)\<rparr>)" by (rule kwf_view_cong [OF _ _ _ _ _ _ _ _ k]) simp_all
    then have "kwf k'" by (rule lock_release_kwf [OF kwf_ret l])
    moreover have "grow k (k\<lparr>next_tid := wrap32 (next_tid k + 1)\<rparr>)" by (rule grow_threads [OF _ _ grow_refl]) simp_all
    then have "grow k k'" by (intro grow_lock_release [OF l] grow_ret) (simp_all add: r)
    ultimately show ?thesis by simp
  next
    case (CreateRest t fn)
    have nf: "\<not> idle_frame (CreateRest 0 fn)" using f CreateRest by (cases fn) simp_all
    have "create_rest t fn k = Some k'" using e CreateRest by simp
    then show ?thesis
      using c [OF CreateRest] create_rest_kwf [OF k, of t fn k'] grow_create_rest [of t fn k k' k] grow_refl nz r nf by auto
  next
    case (StartRest s)
    then obtain k1 where i: "intr_enable k = Some k1" and d: "sema_down s k1 = Some k'"
      using e by (auto simp: start_rest_def bind_eq_Some_conv)
    have k1: "kwf k1" by (rule kwf_same_view [OF intr_enable_same [OF i] k])
    have th: "threads k1 = threads k" "idle_thread k1 = idle_thread k" "running k1 = running k"
      using i by (auto simp: intr_enable_def split: if_splits)
    have g1: "grow k k1" by (rule grow_threads [OF th(1,2)]) simp
    show ?thesis using sema_down_kwf [OF k1 _ d] grow_down [OF d g1] th r nz by simp
  next
    case (ReturnVal v)
    then show ?thesis using e kwf_ret [OF k, of v] grow_ret [of k k v] by auto
  next
    case ThreadExit
    then show ?thesis using e thread_exit_kwf [OF k] grow_thread_exit [of k k' k] r by simp
  next
    case ExitWait
    then show ?thesis using e exit_wait_kwf [OF k] grow_exit_wait [of k k' k] r nz by simp
  next
    case ExitTail
    then show ?thesis using e exit_tail_kwf [OF k r] grow_exit_tail [of k k' k] r nz by simp
  next
    case (Loaded ok)
    then show ?thesis using e loaded_kwf [OF k] grow_loaded [of ok k k' k] r by simp
  next
    case ExecCreated
    then obtain v where "k' = push (ExecWaitLoad v) k" using e by (auto simp: exec_created_def bind_eq_Some_conv)
    then show ?thesis using kwf_push [OF _ k, of "ExecWaitLoad v"] grow_push [of k k "ExecWaitLoad v"] r by simp
  next
    case (ExecWaitLoad t)
    then show ?thesis using e exec_wait_load_kwf [OF k] grow_exec_wait_load [of t k k' k] r nz by simp
  next
    case ExecResult
    then have "k' = k \<or> k' = ret (- 1) k" using e by (auto simp: exec_result_def bind_eq_Some_conv split: if_splits)
    then show ?thesis using k kwf_ret [OF k, of "- 1"] grow_ret [of k k "- 1"] by auto
  next
    case (WaitChild c)
    then show ?thesis using e wait_child_kwf [OF k] grow_wait_child [of c k k' k] r nz by simp
  qed (use f in simp_all)
qed

text \<open>Frames of the idle thread.\<close>

lemma stack_ok_replace:
  assumes s: "stack_ok k" and f: "fr k' (idle_thread k) = Some fs'" "idle_stack fs'"
    and o: "\<And>t. t \<noteq> idle_thread k \<Longrightarrow> fr k' t = fr k t" and i: "idle_thread k' = idle_thread k"
  shows "stack_ok k'"
  using s f o unfolding stack_ok_def i by auto

lemma fr_upd_frames: "fr (upd_thread t (\<lambda>th. th\<lparr>frames := fs\<rparr>) k) u =
    (if u = t then map_option (\<lambda>_. fs) (fr k t) else fr k u)"
  by (simp add: fr_def option.map_comp o_def)

lemma idle_block:
  assumes k: "kwf k" and r: "running k = idle_thread k" and b: "thread_block k = Some k'"
  shows "kwf k'"
proof -
  have sch: "schedule (set_status THREAD_BLOCKED (running k) k) = Some k'" using thread_blockD [OF b] by simp
  show ?thesis
    by (rule leave_status [OF k _ _ _ _ _ _ _ _ _ _ _ _ sch, of THREAD_BLOCKED])
      (use kwf_running(2) [OF k] in \<open>simp_all add: view\<close>)
qed

lemma idle_frame_step:
  assumes s: "safe k" and r: "running k = idle_thread k" and p: "pop_frame k = Some (f, k1)"
    and e: "exec_frame f k1 = Some k'"
  shows "safe k' \<and> prio_keep k k'"
proof -
  have k: "kwf k" "prio_ok k" "stack_ok k" using s by (simp_all add: safe_def)
  obtain th fs where th: "threads k (running k) = Some th" "frames th = f # fs"
    and e1: "k1 = upd_thread (running k) (\<lambda>th. th\<lparr>frames := fs\<rparr>) k"
    using p by (rule pop_frameE)
  note k1 = pop_kwf(1-3) [OF k(1) p]
  have fri: "fr k (idle_thread k) = Some (f # fs)" using th r by (simp add: fr_def)
  then have ids: "idle_stack (f # fs)" using k(3) by (simp add: stack_ok_def)
  have fr1: "fr k1 u = (if u = idle_thread k then Some fs else fr k u)" for u
    using fri r by (simp add: e1 fr_upd_frames)
  have p1: "prio_keep k k1" using prio_keep_cong [of k1 k k] by (simp add: e1 view)
  have redo: "safe (push g k2) \<and> prio_keep k (push g k2)"
    if g: "g \<in> {IdleLoop, IdleSti, IdleHalted}" and fs: "fs = [ThreadExit]"
      and k2: "kwf k2" "threads k2 = threads k1" "idle_thread k2 = idle_thread k1" "running k2 = running k1" for g k2
  proof -
    have fr2: "fr k2 = fr k1" by (rule ext) (simp add: fr_def k2)
    have "kwf (push g k2)" by (rule kwf_push [OF _ k2(1)]) (use g in auto)
    moreover have pk: "prio_keep k (push g k2)"
      using p1 prio_keep_cong [OF threads_views(2) [OF k2(2)], of k] by simp
    moreover have "prio_ok (push g k2)" by (rule prio_keep_ok [OF pk k(2)])
    moreover have "stack_ok (push g k2)"
      by (rule stack_ok_replace [OF k(3), of _ "[g, ThreadExit]"])
        (use g fs r k1 k2(3,4) in \<open>auto simp: fr_push fr2 fr1\<close>)
    ultimately show ?thesis by (simp add: safe_def)
  qed
  show ?thesis
  proof (cases f)
    case (SetLevel l)
    then have "idle_stack fs" using ids by simp
    then have "stack_ok k1"
      by (intro stack_ok_replace [OF k(3), of _ fs]) (simp_all add: fr1 k1)
    then have "safe k1" using k1(1) prio_keep_ok [OF p1 k(2)] by (simp add: safe_def)
    then show ?thesis
      using safe_grow intr_set_level_steps [of l k1 k'] growD(4) prio_keep_trans [OF p1] k1(1) e SetLevel by simp
  next
    case IdleLoop
    then have fs: "fs = [ThreadExit]" using ids by simp
    let ?k2 = "push IdleSti (intr_disable k1)"
    have s2: "safe ?k2 \<and> prio_keep k ?k2" by (rule redo [OF _ fs kwf_disable [OF k1(1)]]) simp_all
    have b: "thread_block ?k2 = Some k'" using e IdleLoop by (simp add: idle_loop_def)
    have "kwf k'" by (rule idle_block [OF _ _ b]) (use s2 k1 r in \<open>simp_all add: safe_def\<close>)
    moreover have "grow ?k2 k'" by (rule grow_block [OF b grow_refl]) (use kwf_nz [OF k1(1)] in simp)
    ultimately show ?thesis using s2 safe_grow [of ?k2 k'] growD(4) prio_keep_trans by blast
  next
    case IdleSti
    then have fs: "fs = [ThreadExit]" using ids by simp
    obtain k2 where i: "intr_enable k1 = Some k2" and k': "k' = push IdleHalted k2"
      using e IdleSti by (auto simp: bind_eq_Some_conv)
    have "kwf k2" by (rule kwf_same_view [OF intr_enable_same [OF i] k1(1)])
    then show ?thesis
      unfolding k' by (intro redo [OF _ fs]) (use i in \<open>auto simp: intr_enable_def split: if_splits\<close>)
  next
    case IdleHalted
    then have fs: "fs = [ThreadExit]" using ids by simp
    have "k' = push IdleLoop k1" using e IdleHalted by simp
    then show ?thesis using redo [OF _ fs k1(1), of IdleLoop] by simp
  qed (use ids in simp_all)
qed

section \<open>Calls and steps\<close>

lemma own_code_not_idle:
  assumes "stack_ok k" "in_own_code k"
  shows "running k \<noteq> idle_thread k"
proof
  assume r: "running k = idle_thread k"
  obtain fs where "fr k (idle_thread k) = Some fs" "idle_stack fs" using assms(1) by (auto simp: stack_ok_def)
  then show False using assms(2) r by (auto simp: in_own_code_def fr_def split: option.splits)
qed

lemma fresh_not_idle: "stack_ok k \<Longrightarrow> threads k t = None \<Longrightarrow> t \<noteq> idle_thread k"
  by (auto simp: stack_ok_def fr_def)

text \<open>thread_set_priority takes any int below INT_MAX.\<close>

lemma set_priority_steps:
  assumes s: "safe k" and p: "INT_MIN \<le> p" "p < INT_MAX" and e: "thread_set_priority p k = Some k'"
  shows "safe k'"
proof -
  let ?k = "upd_thread (running k) (\<lambda>th. th\<lparr>priority := p\<rparr>) k"
  have k: "kwf k" "prio_ok k" "stack_ok k" using s by (simp_all add: safe_def)
  have g: "grow ?k k'"
    using e kwf_current [OF k(1)] grow_yield [of ?k k' ?k] kwf_nz [OF k(1)]
    by (auto simp: thread_set_priority_def Let_def bind_eq_Some_conv split: if_splits)
  have fr: "fr ?k = fr k" by (rule ext) (simp add: fr_def option.map_comp o_def)
  have "prio_in INT_MIN (INT_MAX - 1) ?k"
    by (rule prio_in_upd) (use k(2) p wide_range(2) in \<open>auto simp: prio_ok_def\<close>)
  then have "prio_ok k'" using growD(2) [OF g] by (simp add: prio_ok_def)
  moreover have "stack_ok k'" using growD(3) [OF g] k(3) by (simp add: stack_ok_def fr)
  ultimately show ?thesis using thread_set_priority_kwf [OF k(1) e] by (simp add: safe_def)
qed

lemma call_steps:
  assumes s: "safe k" and o: "in_own_code k" and p: "call_pre c k" and e: "call_fn c k = Some k'"
    and pri: "\<And>q. c = SetPriority q \<Longrightarrow> PRI_MIN \<le> q \<and> q \<le> PRI_MAX"
  shows "kwf k' \<and> grow k k'"
proof -
  have k: "kwf k" "stack_ok k" using s by (simp_all add: safe_def)
  have r: "running k \<noteq> idle_thread k" by (rule own_code_not_idle [OF k(2) o])
  note nz = kwf_nz [OF k(1)]
  show ?thesis
  proof (cases c)
    case (SemaDown s)
    then show ?thesis using e sema_down_kwf [OF k(1) r] grow_down [of "Sema s" k k' k] r nz by simp
  next
    case (SemaUp s)
    then show ?thesis using e sema_up_kwf [OF k(1)] grow_up [of "Sema s" k k' k] nz by simp
  next
    case (LockAcquire l)
    then show ?thesis using e lock_acquire_kwf [OF k(1) r] grow_lock_acquire [of l k k' k] r nz by simp
  next
    case (LockRelease l)
    then show ?thesis using e lock_release_kwf [OF k(1)] grow_lock_release [of l k k' k] r by simp
  next
    case (CondWait c l)
    then show ?thesis using e cond_wait_kwf [OF k(1)] grow_cond_wait [of c l k k' k] r by simp
  next
    case (CondSignal c l)
    then show ?thesis using e cond_signal_kwf [OF k(1)] grow_cond_signal [of c l k k' k] nz by simp
  next
    case (CondBcast c l)
    then show ?thesis using e cond_broadcast_kwf [OF k(1)] grow_cond_broadcast [of c l k k' k] nz r by simp
  next
    case Yield
    then show ?thesis using e thread_yield_kwf [OF k(1)] grow_yield [of k k' k] nz by simp
  next
    case (SetPriority q)
    then show ?thesis
      using e pri thread_set_priority_kwf [OF k(1)] grow_set_priority [of q k k' k] nz by simp
  next
    case (SetNice n)
    then show ?thesis using e thread_set_nice_kwf [OF k(1)] grow_set_nice [of n k k' k] nz by simp
  next
    case (Sleep n)
    let ?k = "intr_disable (push (SetLevel (intr_level_of k)) k)"
    have t: "timer_sleep n k = Some k'" using e Sleep by simp
    then have sl: "thread_sleep (wrap64 (timer_ticks k + n)) ?k = Some k'"
      by (auto simp: timer_sleep_def Let_def split: if_splits)
    have "kwf ?k" by (intro kwf_disable kwf_push k) simp
    then have "kwf k'" by (rule thread_sleep_kwf [OF _ _ sl]) (simp add: r)
    then show ?thesis using grow_timer_sleep [OF t grow_refl nz] by simp
  next
    case (Create page name pri)
    have "\<And>t. page = Some t \<Longrightarrow> t \<noteq> 0 \<and> threads k t = None \<and> t \<noteq> idle_thread k"
      using p Create fresh_not_idle [OF k(2)] by auto
    then show ?thesis
      using e Create thread_create_kwf [OF k(1) r, of page name pri KernelFn k']
        grow_create [of page name pri KernelFn k k' k] nz r by simp
  next
    case (Exec page name ok)
    let ?k = "push ExecCreated (push ExecResult k)"
    have c: "thread_create page name PRI_DEFAULT (StartProcess ok) ?k = Some k'"
      using e Exec by (simp add: process_execute_def)
    have t: "\<And>t. page = Some t \<Longrightarrow> t \<noteq> 0 \<and> threads k t = None \<and> t \<noteq> idle_thread k"
      using p Exec fresh_not_idle [OF k(2)] by auto
    have none: "threads (push g y) t = None" if "threads y t = None" for g y t
      using that by (cases "t = running y") (simp_all add: push_def)
    have k2: "kwf ?k" by (intro kwf_push k) simp_all
    have "kwf k'" by (rule thread_create_kwf [OF k2 _ _ c]) (use r t none in auto)
    moreover have "grow k ?k" by (intro growI) (use r in simp_all)
    then have "grow k k'" by (rule grow_create [OF c]) (use r nz t none in auto)
    ultimately show ?thesis by simp
  next
    case (Wait t)
    then obtain y where "k' = ret (- 1) k \<or> k' = push (WaitChild y) k"
      using e by (auto simp: process_wait_def bind_eq_Some_conv split: option.splits)
    then show ?thesis
      using kwf_ret [OF k(1), of "- 1"] kwf_push [OF _ k(1), of "WaitChild y"]
        grow_ret [of k k "- 1"] grow_push [of k k "WaitChild y"] r by auto
  next
    case (Exit v)
    let ?k = "upd_thread (running k) (\<lambda>th. th\<lparr>exit_status := v\<rparr>) k"
    have x: "thread_exit ?k = Some k'" using e Exit kwf_current [OF k(1)] by simp
    have "kwf ?k" by (rule kwf_upd_other [OF k(1)]) simp_all
    moreover have "grow k ?k" by (intro growI) simp_all
    ultimately show ?thesis using thread_exit_kwf [OF _ x] grow_thread_exit [OF x, of k] r by simp
  qed
qed

text \<open>
  A step keeps the invariant.  It keeps the range of the priorities as well, unless it is a call of
  thread_set_priority with a value outside of the range.
\<close>

lemma kstep_steps:
  assumes s: "safe k" and st: "kstep k k'"
  shows "safe k' \<and> (prio_keep k k' \<or> (\<exists>p. \<not> (PRI_MIN \<le> p \<and> p \<le> PRI_MAX) \<and> thread_set_priority p k = Some k'))"
  using st
proof cases
  case (step_frame f k1)
  show ?thesis
  proof (cases "running k = idle_thread k")
    case True
    show ?thesis using idle_frame_step [OF s True step_frame] by blast
  next
    case False
    have k: "kwf k" "stack_ok k" using s by (simp_all add: safe_def)
    have g: "grow k k1" "\<not> idle_frame f" using pop_grow [OF k(2) step_frame(1) False] by simp_all
    note p = pop_kwf [OF k(1) step_frame(1)]
    have "kwf k' \<and> grow k1 k'"
      by (rule exec_frame_steps [OF step_frame(2) p(1) _ g(2) p(5)]) (use False p(2,3) in simp_all)
    then show ?thesis using safe_grow [OF s _ grow_trans [OF g(1)]] growD(4) grow_trans [OF g(1)] by blast
  qed
next
  case (step_call c)
  show ?thesis
  proof (cases "\<exists>q. c = SetPriority q \<and> \<not> (PRI_MIN \<le> q \<and> q \<le> PRI_MAX)")
    case True
    then obtain q where q: "c = SetPriority q" "\<not> (PRI_MIN \<le> q \<and> q \<le> PRI_MAX)" by blast
    have e: "thread_set_priority q k = Some k'" using step_call(4) q(1) by simp
    have "safe k'" by (rule set_priority_steps [OF s _ _ e]) (use step_call(3) q(1) in simp_all)
    then show ?thesis using e q(2) by blast
  next
    case False
    then have "kwf k' \<and> grow k k'" using call_steps [OF s step_call(1,3,4)] by blast
    then show ?thesis using safe_grow [OF s] growD(4) by blast
  qed
next
  case step_tick
  have "kwf k" "prio_ok k" using s by (simp_all add: safe_def)
  then have "kwf k' \<and> grow k k'" using timer_irq_kwf grow_timer_irq step_tick by blast
  then show ?thesis using safe_grow [OF s] growD(4) by blast
qed

lemma kstep_safe: "safe k \<Longrightarrow> kstep k k' \<Longrightarrow> safe k'"
  using kstep_steps by blast

end
