(* ===== verification/KernelProps.thy ===== *)
theory KernelProps
  imports KernelSafety
begin

text \<open>
  Properties of the threads, the scheduler, the synchronisation primitives and the timer,
  and a booted state in which their witnesses run.
\<close>

section \<open>A booted kernel\<close>

text \<open>main (page 4096) runs, the idle thread (8192) waits in its loop, a worker (12288) of
  the default priority is ready and another one (16384) sleeps until tick 7.\<close>

definition demo_thread :: "int \<Rightarrow> thread_status \<Rightarrow> int \<Rightarrow> int \<Rightarrow> frame list \<Rightarrow> thread" where
  "demo_thread i s pri wake fs =
     zero_thread\<lparr>tid := i, status := s, priority := pri, alarm_ticks := wake, frames := fs\<rparr>"

definition booted :: kstate where
  "booted = \<lparr>
     threads = [4096 \<mapsto> demo_thread 1 THREAD_RUNNING 31 0 [],
                8192 \<mapsto> demo_thread 2 THREAD_BLOCKED 0 0 [IdleSti, ThreadExit],
                12288 \<mapsto> demo_thread 3 THREAD_READY 31 0 [KernelThread KernelFn, ThreadExit],
                16384 \<mapsto> demo_thread 4 THREAD_BLOCKED 40 7 [SetLevel INTR_ON, ThreadExit]],
     running = 4096, ready_list = [12288], all_list = [4096, 8192, 12288, 16384],
     sleep_list = [16384], idle_thread = 8192, initial_thread = 4096, next_tid = 5, load_avg = 0,
     thread_ticks = 0, idle_ticks = 0, kernel_ticks = 0, user_ticks = 0, ticks = 5,
     intr_level_of = INTR_ON, in_external_intr = False, yield_on_return = False,
     thread_mlfqs = False, thread_prior_aging = False, userprog = True,
     semas = (\<lambda>_. \<lparr>sem_value = 1, waiters = []\<rparr>), lock_holder = (\<lambda>_. 0), cond_waiters = (\<lambda>_. [])\<rparr>"

lemma booted_fields [simp]:
  "running booted = 4096" "ready_list booted = [12288]" "all_list booted = [4096, 8192, 12288, 16384]"
  "sleep_list booted = [16384]" "idle_thread booted = 8192" "initial_thread booted = 4096"
  "intr_level_of booted = INTR_ON" "in_external_intr booted = False" "ticks booted = 5"
  "semas booted = (\<lambda>_. \<lparr>sem_value = 1, waiters = []\<rparr>)" "thread_mlfqs booted = False"
  "thread_prior_aging booted = False" "userprog booted = True" "lock_holder booted = (\<lambda>_. 0)"
  "threads booted =
     [4096 \<mapsto> demo_thread 1 THREAD_RUNNING 31 0 [],
      8192 \<mapsto> demo_thread 2 THREAD_BLOCKED 0 0 [IdleSti, ThreadExit],
      12288 \<mapsto> demo_thread 3 THREAD_READY 31 0 [KernelThread KernelFn, ThreadExit],
      16384 \<mapsto> demo_thread 4 THREAD_BLOCKED 40 7 [SetLevel INTR_ON, ThreadExit]]"
  by (simp_all add: booted_def)

lemma demo_thread_fields [simp]:
  "status (demo_thread i s p w fs) = s" "priority (demo_thread i s p w fs) = p"
  "alarm_ticks (demo_thread i s p w fs) = w" "frames (demo_thread i s p w fs) = fs"
  "tid (demo_thread i s p w fs) = i" "child_list (demo_thread i s p w fs) = []"
  "ready_to_exit (demo_thread i s p w fs) = False" "pagedir (demo_thread i s p w fs) = 0"
  by (simp_all add: demo_thread_def zero_thread_def)

lemma st_booted: "st booted t =
    (if t = 4096 then Some THREAD_RUNNING else if t = 8192 then Some THREAD_BLOCKED
     else if t = 12288 then Some THREAD_READY else if t = 16384 then Some THREAD_BLOCKED else None)"
  by (simp add: st_def)

lemma on_list_booted: "on_list booted p = (case p of PReady \<Rightarrow> [12288] | PSleep \<Rightarrow> [16384] | PWait s \<Rightarrow> [])"
  by (cases p) simp_all

lemma cr_booted: "cr booted t = []"
  by (simp add: cr_def)

lemma prio_booted: "prio booted t = (if t = 4096 then 31 else if t = 12288 then 31 else if t = 16384 then 40 else 0)"
  by (simp add: prio_def)

lemma booted_safe: "safe booted"
proof -
  have "elems_ok booted"
    by (rule elems_okI) (auto simp: on_list_booted st_booted split: place.splits)
  moreover have "sorted_ok booted" by (simp add: sorted_ok_def)
  moreover have "all_ok booted" by (auto simp: all_ok_def st_booted)
  moreover have "embryo_ok booted" by (simp add: embryo_ok_def cr_booted)
  moreover have "idle_ok booted"
    by (auto simp: idle_ok_def st_booted off_lists_iff split: if_splits)
  ultimately have "kinv booted" by (simp add: kinv_def)
  moreover have "run_ok booted" by (auto simp: run_ok_def st_booted split: if_splits)
  moreover have "prio_ok booted" by (auto simp: prio_ok_def prio_in_def prio_booted)
  moreover have "stack_ok booted" by (auto simp: stack_ok_def fr_def split: if_splits)
  ultimately show ?thesis by (simp add: safe_def kwf_def)
qed

lemma booted_kwf: "kwf booted"
  using booted_safe by (simp add: safe_def)

section \<open>Safety\<close>

text \<open>C1: in every state that the kernel reaches from a state that satisfies the invariant,
  whatever its threads call and whenever the timer interrupts them (thread_set_priority may be given
  any int but INT_MAX, which the source does not check and aging would wrap around): exactly one
  thread runs; the ready list holds exactly the ready threads other than the idle thread, once each, in
  the order of their priorities; the sleepers are in the order of their wake-up times; no thread is
  on two of the ready list, the sleep list and the wait lists of the semaphores, or on one of them
  twice, and sleepers and waiters are blocked; and a step takes priorities out of
  PRI_MIN..PRI_MAX only if it is a call of thread_set_priority with such a priority.\<close>

theorem kernel_safety:
  assumes "safe k" "kreach k k'"
  shows "(\<forall>t. st k' t = Some THREAD_RUNNING \<longleftrightarrow> t = running k') \<and>
    (\<forall>t. t \<in> set (ready_list k') \<longleftrightarrow> st k' t = Some THREAD_READY \<and> t \<noteq> idle_thread k') \<and>
    sorted_wrt (\<lambda>a b. prio k' a \<ge> prio k' b) (ready_list k') \<and>
    sorted_wrt (\<lambda>a b. alarm k' a \<le> alarm k' b) (sleep_list k') \<and>
    (\<forall>p. distinct (on_list k' p)) \<and>
    (\<forall>p q. p \<noteq> q \<longrightarrow> set (on_list k' p) \<inter> set (on_list k' q) = {}) \<and>
    (\<forall>p. p \<noteq> PReady \<longrightarrow> (\<forall>t \<in> set (on_list k' p). st k' t = Some THREAD_BLOCKED)) \<and>
    (\<forall>k''. kstep k' k'' \<longrightarrow> (\<forall>t. PRI_MIN \<le> prio k' t \<and> prio k' t \<le> PRI_MAX) \<longrightarrow>
       (\<forall>t. PRI_MIN \<le> prio k'' t \<and> prio k'' t \<le> PRI_MAX) \<or>
       (\<exists>p. (p < PRI_MIN \<or> PRI_MAX < p) \<and> thread_set_priority p k' = Some k''))"
proof -
  have s: "safe k'" using assms(2) by induction (use assms(1) kstep_safe in auto)
  then have k: "kwf k'" by (simp add: safe_def)
  note K = kwf_running(1) [OF k]
  have r: "t \<in> set (ready_list k') \<longleftrightarrow> st k' t = Some THREAD_READY \<and> t \<noteq> idle_thread k'" for t
    using kinv_off_status [OF K, of t PReady] kinv_idle(2) [OF K] kinv_idle(4) [OF K, of t]
    by (auto simp: off_lists_iff)
  have b: "st k' t = Some THREAD_BLOCKED" if "p \<noteq> PReady" "t \<in> set (on_list k' p)" for p t
    using kinv_off_status [OF K that(2)] that(1) by (cases p) simp_all
  have q: "set (on_list k' p) \<inter> set (on_list k' q) = {}" if "p \<noteq> q" for p q
    using kinv_place [OF K] that by blast
  have m: "(\<forall>t. PRI_MIN \<le> prio k'' t \<and> prio k'' t \<le> PRI_MAX) \<or>
      (\<exists>p. (p < PRI_MIN \<or> PRI_MAX < p) \<and> thread_set_priority p k' = Some k'')"
    if "kstep k' k''" "\<forall>t. PRI_MIN \<le> prio k' t \<and> prio k' t \<le> PRI_MAX" for k''
    using kstep_steps [OF s that(1)] prio_keepD [OF _ wide_range(1), of k' k''] that(2)
    unfolding prio_in_def not_le de_Morgan_conj by blast
  have srt: "sorted_wrt (\<lambda>a b. prio k' a \<ge> prio k' b) (ready_list k')"
    "sorted_wrt (\<lambda>a b. alarm k' a \<le> alarm k' b) (sleep_list k')"
    using kinv_sorted [OF K] unfolding sorted_ok_def by blast+
  show ?thesis
    by (intro conjI allI impI ballI) (use m in \<open>auto simp: kwf_running(2) [OF k] r srt q kinv_distinct(1) [OF K] intro: b dest: kwf_running(5) [OF k]\<close>)
qed

theorem kernel_safety_witness:
  "\<exists>k'. kstep booted k' \<and> prio k' 4096 = 100 \<and> (\<forall>t. st k' t = Some THREAD_RUNNING \<longleftrightarrow> t = running k') \<and>
    (\<forall>p. distinct (on_list k' p))"
proof -
  let ?k = "upd_thread 4096 (\<lambda>th. th\<lparr>priority := 100\<rparr>) booted"
  have c: "call_fn (SetPriority 100) booted = Some ?k"
    by (simp add: thread_set_priority_def thread_current_def ready_preempts_def max_priority_in_ready_def
        prio_upd prio_booted Let_def)
  have s: "kstep booted ?k" by (rule step_call [OF _ _ _ c]) (simp_all add: in_own_code_def)
  have p: "prio ?k 4096 = 100" by (simp add: prio_upd)
  have "kreach booted ?k" by (rule kreach_step [OF kreach_refl s])
  note f = kernel_safety [OF booted_safe this]
  show ?thesis by (rule exI [of _ ?k]) (use s p f in \<open>simp only: simp_thms\<close>)
qed

text \<open>Why INT_MAX is left out: one tick of aging turns it into INT_MIN, below the thread behind it.\<close>

lemma int_max_breaks_order:
  fixes k :: kstate
  assumes "ready_list k = [a, b]" "a \<noteq> b" "prio k a = INT_MAX" "prio k b = 31"
    "st k a \<noteq> None" "st k b \<noteq> None"
  shows "sorted_wrt (\<lambda>x y. prio k x \<ge> prio k y) (ready_list k)"
    "\<not> sorted_wrt (\<lambda>x y. prio (aging_loop [a, b] k) x \<ge> prio (aging_loop [a, b] k) y) (ready_list (aging_loop [a, b] k))"
proof -
  have "aged INT_MAX = INT_MIN" "aged 31 = 32" by (simp_all add: aged_def wrap32_def)
  moreover have "prio (aging_loop [a, b] k) t = (if t \<in> set [a, b] then aged (prio k t) else prio k t)" for t
    by (rule aging_loop_prio) (use assms in auto)
  ultimately show "\<not> sorted_wrt (\<lambda>x y. prio (aging_loop [a, b] k) x \<ge> prio (aging_loop [a, b] k) y) (ready_list (aging_loop [a, b] k))"
    using assms by (simp del: aging_loop.simps)
  show "sorted_wrt (\<lambda>x y. prio k x \<ge> prio k y) (ready_list k)" using assms by simp
qed

section \<open>Choosing the next thread\<close>

lemma schedule_total:
  assumes "intr_level_of k = INTR_OFF" "threads k (running k) = Some th" "status th \<noteq> THREAD_RUNNING"
    "threads k (chosen k) \<noteq> None" "0 < running k"
  shows "\<exists>k'. schedule k = Some k'"
  using assms
  by (cases "ready_list k")
    (auto simp: schedule_def next_thread_to_run_def chosen_def thread_schedule_tail_def Let_def
      set_status_def upd_thread_def split: option.splits)

lemma thread_yield_eq:
  assumes k: "kwf k" and i: "\<not> in_external_intr k" and ni: "running k \<noteq> idle_thread k"
  shows "thread_yield k = schedule (set_status THREAD_READY (running k) (push (SetLevel (intr_level_of k))
     (intr_disable k\<lparr>ready_list := insert_ordered (priority_comp k) (running k) (ready_list k)\<rparr>)))"
proof -
  have pc: "priority_comp (intr_disable k) = priority_comp k"
    by (intro ext) (simp add: priority_comp_def prio_def)
  show ?thesis using kwf_current [OF k] i ni by (simp add: thread_yield_def Let_def pc)
qed

lemma st_someE: "st k t = Some s \<Longrightarrow> \<exists>th. threads k t = Some th \<and> status th = s"
  by (auto simp: st_def)

lemma threads_none_upd [simp]: "threads (upd_thread t f k) u = None \<longleftrightarrow> threads k u = None"
  by simp

lemma thread_yield_total:
  assumes k: "kwf k" and i: "\<not> in_external_intr k" and ni: "running k \<noteq> idle_thread k"
  shows "\<exists>k'. thread_yield k = Some k'"
proof -
  let ?k1 = "intr_disable k\<lparr>ready_list := insert_ordered (priority_comp k) (running k) (ready_list k)\<rparr>"
  let ?k2 = "set_status THREAD_READY (running k) (push (SetLevel (intr_level_of k)) ?k1)"
  have st2: "st ?k2 = (st k)(running k \<mapsto> THREAD_READY)"
    using kwf_running(2) [OF k] by (simp add: view)
  have "st ?k2 (running k) = Some THREAD_READY" unfolding st2 by simp
  then obtain th where th: "threads ?k2 (running k) = Some th" "status th = THREAD_READY"
    using st_someE by blast
  have "chosen ?k2 \<in> insert (running k) (set (ready_list k))"
    by (cases "ready_list k") (auto simp: chosen_def)
  then have "st k (chosen ?k2) \<noteq> None"
    using kwf_running(2) [OF k] kwf_listed_live [OF k] by auto
  then have "st ?k2 (chosen ?k2) \<noteq> None" unfolding st2 by simp
  then have "threads ?k2 (chosen ?k2) \<noteq> None" by (simp add: st_def)
  moreover have "intr_level_of ?k2 = INTR_OFF" "running ?k2 = running k" by simp_all
  ultimately show ?thesis
    unfolding thread_yield_eq [OF k i ni] using schedule_total [of ?k2 th] th kwf_nz [OF k] by simp
qed

lemma hd_insert_ordered: "hd (insert_ordered lt x ys) = (if ys = [] \<or> lt x (hd ys) then x else hd ys)"
  by (cases ys) simp_all

lemma schedule_keys:
  assumes "schedule k = Some k'" "running k \<noteq> 0" "st k (running k) \<noteq> Some THREAD_DYING"
  shows "prio k' = prio k" "alarm k' = alarm k" "fr k' = fr k"
    "st k' = (st k)(running k' := Some THREAD_RUNNING)"
proof -
  have e: "k' = switched k" using schedule_eq(1) [OF assms(1,2)] assms(3) by simp
  have t: "threads k' = threads (set_status THREAD_RUNNING (chosen k) k)"
    by (simp add: e switched_def set_status_def)
  show "prio k' = prio k" "alarm k' = alarm k"
    using threads_views(2,3) [OF t] by (simp_all add: view)
  show "fr k' = fr k" by (rule ext) (simp add: fr_def t set_status_def option.map_comp o_def)
  have "st k (chosen k) \<noteq> None" by (rule schedule_eq(2) [OF assms(1,2)])
  then show "st k' = (st k)(running k' := Some THREAD_RUNNING)"
    using threads_views(1) [OF t] schedule_running [OF assms(1)] by (auto simp: view)
qed

text \<open>The caller joins the ready list behind the threads of its priority, and the head of
  the list runs.\<close>

lemma thread_yield_result:
  assumes k: "kwf k" and i: "\<not> in_external_intr k" and ni: "running k \<noteq> idle_thread k"
    and y: "thread_yield k = Some k'"
  shows "insert_ordered (priority_comp k) (running k) (ready_list k) = running k' # ready_list k'"
    "prio k' = prio k" "alarm k' = alarm k" "sleep_list k' = sleep_list k"
proof -
  let ?L = "insert_ordered (priority_comp k) (running k) (ready_list k)"
  let ?k2 = "set_status THREAD_READY (running k) (push (SetLevel (intr_level_of k))
     (intr_disable k\<lparr>ready_list := ?L\<rparr>))"
  have sch: "schedule ?k2 = Some k'" using y by (simp add: thread_yield_eq [OF k i ni])
  have ne: "?L \<noteq> []" by (cases "ready_list k") auto
  then show "?L = running k' # ready_list k'"
    using schedule_running [OF sch] schedule_ready [OF sch] by (auto simp: chosen_def neq_Nil_conv)
  have "st ?k2 (running ?k2) = Some THREAD_READY" using kwf_running(2) [OF k] by (simp add: view)
  then show "prio k' = prio k" "alarm k' = alarm k"
    using schedule_keys(1,2) [OF sch] kwf_nz [OF k] by (simp_all add: view)
  show "sleep_list k' = sleep_list k" using schedule_fields(3) [OF sch] by simp
qed

lemma insert_ordered_head_max:
  assumes k: "kwf k" and L: "insert_ordered (priority_comp k) (running k) (ready_list k) = u # us"
    and t: "t \<in> insert (running k) (set (ready_list k))"
  shows "prio k t \<le> prio k u"
proof -
  have "sorted_wrt (\<lambda>a b. prio k a \<ge> prio k b) (u # us)"
    using kinv_sorted [OF kwf_running(1) [OF k]] ready_sorted_insert [of k "ready_list k" "running k"]
    by (simp add: sorted_ok_def L)
  moreover have "t = u \<or> t \<in> set us" using t set_insert_ordered [of "priority_comp k" "running k" "ready_list k"]
    unfolding L by auto
  ultimately show ?thesis by auto
qed

text \<open>C3: thread_yield returns to a thread of the highest priority among the caller and the
  ready threads; when a ready thread has the caller's priority or a higher one, it is the
  first of the ready list, so that threads of equal priority take turns; no other thread is
  added to the candidates or lost.\<close>

theorem thread_yield_picks_highest:
  assumes "kwf k" "\<not> in_external_intr k" "running k \<noteq> idle_thread k"
  shows "\<exists>k'. thread_yield k = Some k' \<and>
    (\<forall>t \<in> insert (running k) (set (ready_list k)). prio k t \<le> prio k (running k')) \<and>
    insert (running k') (set (ready_list k')) = insert (running k) (set (ready_list k)) \<and>
    (ready_list k \<noteq> [] \<longrightarrow> prio k (running k) \<le> prio k (hd (ready_list k)) \<longrightarrow> running k' = hd (ready_list k))"
proof -
  obtain k' where y: "thread_yield k = Some k'" using thread_yield_total [OF assms] by blast
  note L = thread_yield_result(1) [OF assms y]
  have "insert (running k') (set (ready_list k')) = insert (running k) (set (ready_list k))"
    by (metis L list.simps(15) set_insert_ordered)
  moreover have "running k' = hd (ready_list k)"
    if "ready_list k \<noteq> []" "prio k (running k) \<le> prio k (hd (ready_list k))"
    using that hd_insert_ordered [of "priority_comp k" "running k" "ready_list k"]
    unfolding L by (simp add: priority_comp_def)
  ultimately show ?thesis using y insert_ordered_head_max [OF assms(1) L] by blast
qed

theorem thread_yield_picks_highest_witness:
  "\<exists>k'. thread_yield booted = Some k' \<and> running k' = 12288"
  using thread_yield_picks_highest [OF booted_kwf] by (auto simp: prio_booted)

text \<open>C8: after thread_set_priority no ready thread has a higher priority than the running
  one, and the caller has lost the CPU only to a thread of a higher priority.\<close>

theorem thread_set_priority_preempts:
  assumes "kwf k" "\<not> in_external_intr k" "running k \<noteq> idle_thread k"
  shows "\<exists>k'. thread_set_priority p k = Some k' \<and>
    (\<forall>t \<in> set (ready_list k'). prio k' t \<le> prio k' (running k')) \<and>
    (running k' \<noteq> running k \<longrightarrow> p < prio k' (running k'))"
proof -
  let ?k = "upd_thread (running k) (\<lambda>th. th\<lparr>priority := p\<rparr>) k"
  have k1: "kwf ?k" by (rule kwf_upd_running [OF assms(1)]) simp_all
  have pr: "prio ?k (running k) = p"
    using kwf_running(2) [OF assms(1)] st_someE by (fastforce simp: prio_upd)
  have e: "thread_set_priority p k = (if ready_list k \<noteq> [] \<and> p < prio ?k (hd (ready_list k)) then thread_yield ?k else Some ?k)"
    using kwf_current [OF assms(1)]
    by (cases "ready_list k") (simp_all add: thread_set_priority_def ready_preempts_def max_priority_in_ready_def Let_def)
  show ?thesis
  proof (cases "ready_list k \<noteq> [] \<and> p < prio ?k (hd (ready_list k))")
    case True
    obtain k' where y: "thread_yield ?k = Some k'" using thread_yield_total [OF k1] assms by auto
    note r = thread_yield_result [OF k1 _ _ y]
    have L: "insert_ordered (priority_comp ?k) (running ?k) (ready_list ?k) = running k' # ready_list k'"
      and p': "prio k' = prio ?k" using r(1,2) assms by simp_all
    have s: "insert (running k') (set (ready_list k')) = insert (running k) (set (ready_list k))"
      using set_insert_ordered [of "priority_comp ?k" "running ?k" "ready_list ?k"] unfolding L by simp
    have m: "prio k' t \<le> prio k' (running k')" if "t \<in> insert (running k) (set (ready_list k))" for t
      using insert_ordered_head_max [OF k1 L, of t] that p' by simp
    have "p < prio k' (running k')" using m [of "hd (ready_list k)"] True p' by simp
    moreover have "\<forall>t \<in> set (ready_list k'). prio k' t \<le> prio k' (running k')" using m s by blast
    ultimately show ?thesis using y e True by simp
  next
    case False
    have "prio ?k t \<le> p" if "t \<in> set (ready_list k)" for t
    proof -
      obtain u us where u: "ready_list k = u # us" using \<open>t \<in> set (ready_list k)\<close> by (cases "ready_list k") auto
      have "sorted_wrt (\<lambda>a b. prio ?k a \<ge> prio ?k b) (u # us)"
        using kinv_sorted [OF kwf_running(1) [OF k1]] u by (simp add: sorted_ok_def)
      then show ?thesis using that False u by auto
    qed
    then show ?thesis using e False pr by auto
  qed
qed

theorem thread_set_priority_preempts_witness:
  "\<exists>k'. thread_set_priority 10 booted = Some k' \<and>
     (\<forall>t \<in> set (ready_list k'). prio k' t \<le> prio k' (running k'))"
  using thread_set_priority_preempts [OF booted_kwf, of 10] by auto

section \<open>Sleeping and waking\<close>

lemma thread_unblock_total: "st k t = Some THREAD_BLOCKED \<Longrightarrow> \<exists>k'. thread_unblock t k = Some k'"
  by (auto simp: thread_unblock_def st_def Let_def)

lemma alarm_unblock: "thread_unblock t k = Some k' \<Longrightarrow> alarm k' = alarm k \<and> prio k' = prio k \<and>
    sleep_list k' = sleep_list k \<and> set (ready_list k') = insert t (set (ready_list k)) \<and>
    in_external_intr k' = in_external_intr k"
  by (auto simp: thread_unblock_def Let_def bind_eq_Some_conv view split: if_splits)

lemma wake_step:
  assumes k: "kwf k" and s: "sleep_list k = t # ts"
  shows "\<exists>k1. thread_unblock t (k\<lparr>sleep_list := ts\<rparr>) = Some k1 \<and> kwf k1 \<and> sleep_list k1 = ts \<and>
    alarm k1 = alarm k \<and> set (ready_list k1) = insert t (set (ready_list k)) \<and>
    in_external_intr k1 = in_external_intr k"
proof -
  have v: "st (k\<lparr>sleep_list := ts\<rparr>) = st k" "prio (k\<lparr>sleep_list := ts\<rparr>) = prio k"
      "alarm (k\<lparr>sleep_list := ts\<rparr>) = alarm k" "cr (k\<lparr>sleep_list := ts\<rparr>) = cr k"
    by (rule threads_views; simp)+
  have "st k t = Some THREAD_BLOCKED"
    using kinv_off_status [OF kwf_running(1) [OF k], of t PSleep] s by simp
  then obtain k1 where u: "thread_unblock t (k\<lparr>sleep_list := ts\<rparr>) = Some k1"
    using thread_unblock_total [of "k\<lparr>sleep_list := ts\<rparr>" t] v by auto
  have on: "on_list (k\<lparr>sleep_list := ts\<rparr>) q = (if q = PSleep then ts else on_list k q)" for q
    by (cases q) simp_all
  have "kwf k1" by (rule wake_kwf [OF k _ _ on v _ _ _ _ u]) (use s in simp_all)
  then show ?thesis using u alarm_unblock [OF u] v by simp
qed

lemma alarm_loop_result:
  "kwf k \<Longrightarrow> sleep_list k = ts \<Longrightarrow> sorted_wrt (\<lambda>a b. alarm k a \<le> alarm k b) ts \<Longrightarrow>
   \<exists>k'. alarm_loop ts now k = Some k' \<and> kwf k' \<and> sleep_list k' = filter (\<lambda>t. alarm k t > now) ts \<and>
     set (ready_list k') = set (ready_list k) \<union> {t \<in> set ts. alarm k t \<le> now} \<and>
     in_external_intr k' = in_external_intr k"
proof (induction ts arbitrary: k)
  case (Cons t ts)
  show ?case
  proof (cases "alarm k t > now")
    case True
    then have "\<forall>u \<in> set (t # ts). alarm k u > now" using Cons.prems(3) by auto
    moreover from this have "filter (\<lambda>t. alarm k t > now) (t # ts) = t # ts" by (simp add: filter_id_conv)
    ultimately show ?thesis using True Cons.prems(1,2) by fastforce
  next
    case False
    obtain k1 where k1: "thread_unblock t (k\<lparr>sleep_list := ts\<rparr>) = Some k1" "kwf k1" "sleep_list k1 = ts"
      "alarm k1 = alarm k" "set (ready_list k1) = insert t (set (ready_list k))"
      "in_external_intr k1 = in_external_intr k"
      using wake_step [OF Cons.prems(1,2)] by blast
    have "sorted_wrt (\<lambda>a b. alarm k1 a \<le> alarm k1 b) ts" using Cons.prems(3) k1(4) by simp
    from Cons.IH [OF k1(2,3) this] show ?thesis using False k1 by auto
  qed
qed simp

text \<open>C5: the wake-up at a tick removes from the sleep list exactly the threads whose wake-up
  time has come, makes all of them ready, and asks for a context switch at the end of the
  interrupt.\<close>

theorem thread_alarm_exact:
  assumes "kwf k" "in_external_intr k"
  shows "\<exists>k'. thread_alarm now k = Some k' \<and> yield_on_return k' \<and>
    sleep_list k' = filter (\<lambda>t. alarm k t > now) (sleep_list k) \<and>
    set (ready_list k') = set (ready_list k) \<union> {t \<in> set (sleep_list k). alarm k t \<le> now}"
proof -
  have "sorted_wrt (\<lambda>a b. alarm k a \<le> alarm k b) (sleep_list k)"
    using kinv_sorted [OF kwf_running(1) [OF assms(1)]] by (simp add: sorted_ok_def)
  from alarm_loop_result [OF assms(1) refl this, of now] show ?thesis
    using assms(2) by (auto simp: thread_alarm_def intr_yield_on_return_def)
qed

lemma booted_irq_kwf: "kwf (booted\<lparr>in_external_intr := True\<rparr>)"
  by (rule kwf_view_cong [OF _ _ _ _ _ _ _ _ booted_kwf]) simp_all

theorem thread_alarm_exact_witness:
  "\<exists>k'. thread_alarm 7 (booted\<lparr>in_external_intr := True\<rparr>) = Some k' \<and> sleep_list k' = [] \<and>
     set (ready_list k') = {12288, 16384}"
  using thread_alarm_exact [OF booted_irq_kwf, of 7] by (auto simp: alarm_def)

lemma flag_kept: "intr_set_level l k = Some k' \<Longrightarrow> yield_on_return k' = yield_on_return k"
  by (auto simp: intr_set_level_def intr_enable_def intr_disable_def split: if_splits)

lemma yield_if_preempted_flag: "yield_if_preempted k = Some k' \<Longrightarrow> yield_on_return k \<Longrightarrow> yield_on_return k'"
  by (auto simp: yield_if_preempted_def intr_yield_on_return_def bind_eq_Some_conv split: if_splits)

lemma aging_flag [simp]: "yield_on_return (aging_loop ts k) = yield_on_return k"
  by (induction ts arbitrary: k) simp_all

lemma priority_loop_flag: "priority_loop ts k = Some k' \<Longrightarrow> yield_on_return k \<Longrightarrow> yield_on_return k'"
  by (induction ts arbitrary: k) (fastforce simp: bind_eq_Some_conv)+

lemma recent_cpu_loop_flag: "recent_cpu_loop ts k = Some k' \<Longrightarrow> yield_on_return k \<Longrightarrow> yield_on_return k'"
  by (induction ts arbitrary: k) (fastforce simp: bind_eq_Some_conv split: if_splits)+

lemma mlfqs_flag:
  assumes "mlfqs_updates k = Some k'" "yield_on_return k"
  shows "yield_on_return k'"
proof -
  obtain k1 k2 where s1: "update_periodic_recent_cpu k = Some k1"
    and s2: "(if ticks k1 smod TIMER_FREQ = 0 then do { k \<leftarrow> update_load_avg k1; update_recent_cpu k }
        else Some k1) = Some k2"
    and s3: "(if ticks k2 smod 4 = 0 then update_priority k2 else Some k2) = Some k'"
    using assms(1) unfolding mlfqs_updates_def bind_eq_Some_conv by blast
  have "yield_on_return k1" using s1 assms(2) by (auto simp: update_periodic_recent_cpu_def bind_eq_Some_conv)
  then have "yield_on_return k2"
    using s2 recent_cpu_loop_flag
    by (auto simp: update_load_avg_def update_recent_cpu_def Let_def bind_eq_Some_conv split: if_splits)
  then show ?thesis
    using s3 yield_if_preempted_flag priority_loop_flag
    by (auto simp: update_priority_def Let_def bind_eq_Some_conv split: if_splits)
qed

text \<open>Every timer interrupt that completes sets the flag that makes the interrupted
  thread yield, whatever thread_ticks is: the time slice is one tick and TIME_SLICE has no
  effect on the scheduling.\<close>

theorem timer_interrupt_always_yields:
  assumes "timer_interrupt k = Some k'"
  shows "yield_on_return k'"
proof -
  obtain k1 k2 k3 k4 where s2: "thread_alarm (ticks k1) (intr_disable k1) = Some k2"
    and s3: "(if thread_prior_aging k2 then thread_priority_aging k2 else Some k2) = Some k3"
    and s4: "(if thread_mlfqs k3 then mlfqs_updates k3 else Some k3) = Some k4"
    and s5: "intr_set_level (intr_level_of k1) k4 = Some k'"
    using assms by (auto simp: timer_interrupt_def Let_def bind_eq_Some_conv intr_disable_def)
  have "yield_on_return k2"
    using s2 by (auto simp: thread_alarm_def intr_yield_on_return_def bind_eq_Some_conv split: if_splits)
  then have "yield_on_return k3"
    using s3 yield_if_preempted_flag by (auto simp: thread_priority_aging_def split: if_splits)
  then have "yield_on_return k4" using s4 mlfqs_flag by (auto split: if_splits)
  then show ?thesis using flag_kept [OF s5] by simp
qed

definition booted_irq :: kstate where
  "booted_irq = booted\<lparr>in_external_intr := True, intr_level_of := INTR_OFF\<rparr>"

lemma booted_irq_tick: "\<exists>k'. timer_interrupt booted_irq = Some k'"
  by (simp add: timer_interrupt_def booted_irq_def thread_tick_def thread_current_def count_tick_def
      Let_def TIME_SLICE_def thread_alarm_def alarm_def intr_yield_on_return_def intr_set_level_def
      intr_disable_def booted_def wrap64_def demo_thread_def zero_thread_def)

theorem timer_interrupt_always_yields_witness:
  "\<exists>k'. timer_interrupt booted_irq = Some k' \<and> yield_on_return k'"
  using booted_irq_tick timer_interrupt_always_yields by blast

lemma thread_block_total:
  assumes "thread_current k = Some (running k)" "\<not> in_external_intr k" "intr_level_of k = INTR_OFF"
    "st k (chosen k) \<noteq> None" "running k \<noteq> 0"
  shows "\<exists>k'. thread_block k = Some k'"
proof -
  let ?k = "set_status THREAD_BLOCKED (running k) k"
  have c: "st k (running k) = Some THREAD_RUNNING" using assms(1) by (simp add: thread_current_eq)
  have "st ?k (running k) = Some THREAD_BLOCKED" using c by (simp add: view)
  then obtain th where th: "threads ?k (running k) = Some th" "status th = THREAD_BLOCKED" using st_someE by blast
  have ch: "chosen ?k = chosen k" by (simp add: chosen_def split: list.split)
  have "st ?k (chosen ?k) \<noteq> None" using assms(4) c by (auto simp: view ch)
  then have "threads ?k (chosen ?k) \<noteq> None" by (simp add: st_def)
  then have "\<exists>k'. schedule ?k = Some k'" using schedule_total [of ?k th] th assms by simp
  then show ?thesis using assms by (simp add: thread_block_def)
qed

text \<open>Timer_sleep blocks the caller on the sleep list until the tick that is n ticks
  ahead, truncated to an int, and lets another thread run.\<close>

theorem timer_sleep_blocks:
  assumes "kwf k" "intr_level_of k = INTR_ON" "\<not> in_external_intr k" "running k \<noteq> idle_thread k"
    "st k (idle_thread k) \<noteq> None"
  shows "\<exists>k'. timer_sleep n k = Some k' \<and> running k \<in> set (sleep_list k') \<and>
    st k' (running k) = Some THREAD_BLOCKED \<and> alarm k' (running k) = wrap32 (wrap64 (ticks k + n)) \<and>
    running k' = chosen k"
proof -
  let ?c = "running k"
  let ?k1 = "intr_disable (push (SetLevel INTR_ON) k)"
  define a where "a = wrap32 (wrap64 (ticks k + n))"
  let ?k2 = "upd_thread ?c (\<lambda>th. th\<lparr>alarm_ticks := a\<rparr>) ?k1"
  let ?k3 = "?k2\<lparr>sleep_list := insert_ordered (alarm_ticks_comp ?k2) ?c (sleep_list k)\<rparr>"
  have s1: "st ?k1 = st k" by (simp add: view)
  have run: "st k ?c = Some THREAD_RUNNING" by (rule kwf_running(2) [OF assms(1)])
  have c1: "thread_current ?k1 = Some ?c" using run by (simp add: thread_current_eq s1)
  have e: "timer_sleep n k = thread_block ?k3"
    using assms(2) c1 by (simp add: timer_sleep_def thread_sleep_def Let_def timer_ticks_def a_def)
  have s3: "st ?k3 = st k" using threads_views(1) [of ?k3 ?k2] s1 by (simp add: view)
  have ch: "chosen ?k3 = chosen k" by (simp add: chosen_def split: list.split)
  have chst: "st k (chosen k) \<noteq> None" "chosen k \<noteq> ?c"
    using kwf_listed_live [OF assms(1)] assms(4,5) kwf_not_listed [OF assms(1)]
    by (auto simp: chosen_def split: list.splits)
  obtain k' where b: "thread_block ?k3 = Some k'"
    using thread_block_total [of ?k3] run assms(3) chst kwf_nz [OF assms(1)]
    by (auto simp: thread_current_eq s3 ch)
  let ?k4 = "set_status THREAD_BLOCKED ?c ?k3"
  have sch: "schedule ?k4 = Some k'" using thread_blockD [OF b] by simp
  have s4: "st ?k4 = (st k)(?c \<mapsto> THREAD_BLOCKED)" using run s3 by (simp add: view)
  note K = schedule_keys [OF sch]
  have nd: "st ?k4 (running ?k4) \<noteq> Some THREAD_DYING" by (simp add: s4)
  have r': "running k' = chosen k" using schedule_running [OF sch] by (simp add: chosen_def split: list.splits)
  have "st k' ?c = Some THREAD_BLOCKED"
    using K(4) nd kwf_nz [OF assms(1)] r' chst(2) s4 by simp
  moreover have "alarm k' ?c = a"
  proof -
    have "alarm k' = alarm ?k4" using K(2) nd kwf_nz [OF assms(1)] by simp
    moreover have "alarm ?k4 = alarm ?k2" using threads_views(3) [of ?k3 ?k2] by (simp add: view)
    moreover have "threads ?k1 ?c \<noteq> None" using run s1 by (metis option.distinct(1) option.simps(8) st_def)
    then have "alarm ?k2 ?c = a" by (auto simp: alarm_upd)
    ultimately show ?thesis by simp
  qed
  moreover have "?c \<in> set (sleep_list k')" using schedule_fields(3) [OF sch] by simp
  ultimately show ?thesis using e b r' by (simp add: a_def)
qed

theorem timer_sleep_blocks_witness:
  "\<exists>k'. timer_sleep 10 booted = Some k' \<and> 4096 \<in> set (sleep_list k') \<and> alarm k' 4096 = 15"
proof -
  have "wrap32 (wrap64 (ticks booted + 10)) = 15" by (simp add: wrap32_def wrap64_def)
  then show ?thesis using timer_sleep_blocks [OF booted_kwf, of 10] by (auto simp: st_booted)
qed

section \<open>Aging and the feedback queue\<close>

lemma preempted_fields:
  assumes "yield_if_preempted k = Some k'"
  shows "threads k' = threads k" "ready_list k' = ready_list k"
  using assms by (auto simp: yield_if_preempted_def intr_yield_on_return_def bind_eq_Some_conv split: if_splits)

text \<open>C10: aging raises the priority of every ready thread by one, up to PRI_MAX, leaves all
  other priorities and the order of the ready list alone, and asks for a switch when the
  first ready thread now has a higher priority than the running one.\<close>

theorem aging_raises_ready:
  assumes "kwf k" "prio_ok k" "thread_priority_aging k = Some k'"
  shows "(\<forall>t. prio k' t = (if t \<in> set (ready_list k) then min (prio k t + 1) PRI_MAX else prio k t)) \<and>
    ready_list k' = ready_list k \<and>
    (ready_list k \<noteq> [] \<longrightarrow> prio k (running k) < min (prio k (hd (ready_list k)) + 1) PRI_MAX \<longrightarrow> yield_on_return k')"
proof -
  let ?a = "aging_loop (ready_list k) k"
  have pr: "prio ?a t = (if t \<in> set (ready_list k) then min (prio k t + 1) PRI_MAX else prio k t)" for t
  proof -
    have "prio ?a t = (if t \<in> set (ready_list k) then aged (prio k t) else prio k t)"
      by (rule aging_loop_prio)
        (use kinv_distinct(2) [OF kwf_running(1) [OF assms(1)]] kwf_listed_live [OF assms(1)] in auto)
    then show ?thesis using aged_range prio_okD [OF assms(2), of t] by simp
  qed
  have y: "yield_if_preempted ?a = Some k'" using assms(3) by (simp add: thread_priority_aging_def)
  have k': "prio k' = prio ?a" "ready_list k' = ready_list k"
    using threads_views(2) [OF preempted_fields(1) [OF y]] preempted_fields(2) [OF y] by simp_all
  have "yield_on_return k'"
    if ne: "ready_list k \<noteq> []" and lt: "prio k (running k) < min (prio k (hd (ready_list k)) + 1) PRI_MAX"
  proof -
    have nr: "running k \<notin> set (ready_list k)" using kwf_not_listed [OF assms(1)] by simp
    obtain th where th: "cur_thread ?a = Some th" using y ne by (cases "cur_thread ?a") (simp_all add: yield_if_preempted_def)
    then have "priority th = prio ?a (running k)"
      by (auto simp: cur_thread_def thread_current_eq prio_def bind_eq_Some_conv)
    then have p: "priority th = prio k (running k)" using pr [of "running k"] nr by simp
    obtain u us where u: "ready_list k = u # us" using ne by (cases "ready_list k") auto
    have "prio ?a u = min (prio k u + 1) PRI_MAX" using pr [of u] u by simp
    then show ?thesis
      using y th ne lt p u
      by (auto simp: yield_if_preempted_def max_priority_in_ready_def intr_yield_on_return_def split: if_splits)
  qed
  then show ?thesis using k' pr by simp
qed

theorem aging_raises_ready_witness:
  "\<exists>k'. thread_priority_aging booted_irq = Some k' \<and> prio k' 12288 = 32 \<and> yield_on_return k'"
proof -
  have k: "kwf booted_irq"
    by (rule kwf_view_cong [OF _ _ _ _ _ _ _ _ booted_kwf]) (simp_all add: booted_irq_def)
  have pe: "prio booted_irq = prio booted" by (rule threads_views) (simp add: booted_irq_def)
  then have p: "prio_ok booted_irq" using booted_safe prio_ok_cong [OF pe] by (simp add: safe_def)
  have f: "ready_list booted_irq = [12288]" "running booted_irq = 4096" "in_external_intr booted_irq"
    by (simp_all add: booted_irq_def)
  have "\<exists>k'. thread_priority_aging booted_irq = Some k'"
    by (simp add: thread_priority_aging_def yield_if_preempted_def cur_thread_def thread_current_def
        max_priority_in_ready_def intr_yield_on_return_def booted_irq_def)
  then obtain k' where k': "thread_priority_aging booted_irq = Some k'" by blast
  show ?thesis using aging_raises_ready [OF k p k'] k' by (simp add: f pe prio_booted)
qed

lemma priority_loop_result:
  "priority_loop ts k = Some k' \<Longrightarrow> distinct ts \<Longrightarrow> t \<in> set ts \<Longrightarrow> threads k t = Some th \<Longrightarrow>
   new_priority (recent_cpu th) (nice th) = Some (prio k' t)"
proof (induction ts arbitrary: k th)
  case (Cons u us)
  then obtain uh p where u: "threads k u = Some uh" "new_priority (recent_cpu uh) (nice uh) = Some p"
    and l: "priority_loop us (upd_thread u (\<lambda>th. th\<lparr>priority := p\<rparr>) k) = Some k'"
    by (auto simp: bind_eq_Some_conv)
  show ?case
  proof (cases "t = u")
    case True
    have "priority_loop vs x = Some y \<Longrightarrow> u \<notin> set vs \<Longrightarrow> prio y u = prio x u" for vs x y
    proof (induction vs arbitrary: x)
      case (Cons v vs)
      then obtain q where "priority_loop vs (upd_thread v (\<lambda>th. th\<lparr>priority := q\<rparr>) x) = Some y"
        by (auto simp: bind_eq_Some_conv)
      from Cons.IH [OF this] Cons.prems(2) show ?case by (simp add: prio_upd)
    qed simp
    from this [OF l] Cons.prems(2) True u Cons.prems(4) show ?thesis by (simp add: prio_upd)
  next
    case False
    then show ?thesis using Cons.IH [OF l, of th] Cons.prems by simp
  qed
qed simp

text \<open>C9: update_priority recomputes every listed thread's priority from its recent_cpu and
  nice, within PRI_MIN..PRI_MAX, and leaves the ready list with the same threads in the
  order of their new priorities, threads of equal priority in their old order.\<close>

theorem update_priority_correct:
  assumes "kwf k" "update_priority k = Some k'"
  shows "(\<forall>t \<in> set (all_list k). \<exists>th. threads k t = Some th \<and>
      new_priority (recent_cpu th) (nice th) = Some (prio k' t) \<and> PRI_MIN \<le> prio k' t \<and> prio k' t \<le> PRI_MAX) \<and>
    mset (ready_list k') = mset (ready_list k) \<and>
    sorted_wrt (\<lambda>a b. prio k' a \<ge> prio k' b) (ready_list k') \<and>
    (\<forall>p. filter (\<lambda>t. prio k' t = p) (ready_list k') = filter (\<lambda>t. prio k' t = p) (ready_list k))"
proof -
  obtain k1 where l: "priority_loop (all_list k) k = Some k1"
    and y: "yield_if_preempted (k1\<lparr>ready_list := ksort (priority_comp k1) (ready_list k1)\<rparr>) = Some k'"
    using assms(2) by (auto simp: update_priority_def Let_def bind_eq_Some_conv)
  have r1: "ready_list k1 = ready_list k" using priority_loop_views [OF l] on_list_place by blast
  have k': "prio k' = prio k1" "ready_list k' = ksort (priority_comp k1) (ready_list k)"
  proof -
    have "prio (k1\<lparr>ready_list := ksort (priority_comp k1) (ready_list k1)\<rparr>) = prio k1"
      by (rule threads_views) simp
    then show "prio k' = prio k1" using threads_views(2) [OF preempted_fields(1) [OF y]] by simp
    show "ready_list k' = ksort (priority_comp k1) (ready_list k)"
      using preempted_fields(2) [OF y] r1 by simp
  qed
  have eq: "equiv_of (priority_comp k1) a t \<longleftrightarrow> prio k1 t = prio k1 a" for a t
    by (auto simp: equiv_of_def priority_comp_def)
  have "filter (\<lambda>t. prio k1 t = p) (ksort (priority_comp k1) (ready_list k)) =
      filter (\<lambda>t. prio k1 t = p) (ready_list k)" for p
  proof (cases "\<exists>a. prio k1 a = p")
    case True
    then obtain a where "prio k1 a = p" by blast
    then show ?thesis using ready_order.filter_ksort [of k1 a "ready_list k"] by (simp add: eq [abs_def])
  qed simp
  moreover have "\<exists>th. threads k t = Some th \<and> new_priority (recent_cpu th) (nice th) = Some (prio k1 t) \<and>
      PRI_MIN \<le> prio k1 t \<and> prio k1 t \<le> PRI_MAX" if "t \<in> set (all_list k)" for t
  proof -
    have "st k t \<noteq> None" using kinv_all(2) [OF kwf_running(1) [OF assms(1)]] that by blast
    then obtain th where th: "threads k t = Some th" by (auto simp: st_def)
    show ?thesis
      using priority_loop_result [OF l kinv_all(1) [OF kwf_running(1) [OF assms(1)]] that th] th
        new_priority_Some [of "recent_cpu th" "nice th"] by auto
  qed
  ultimately show ?thesis
    using k' ready_sorted_ksort [of k1 "ready_list k"] by simp
qed

theorem update_priority_correct_witness:
  "\<exists>k'. update_priority booted_irq = Some k' \<and> prio k' 12288 = 63"
proof -
  have k: "kwf booted_irq"
    by (rule kwf_view_cong [OF _ _ _ _ _ _ _ _ booted_kwf]) (simp_all add: booted_irq_def)
  have np: "new_priority 0 0 = Some 63" using new_priority_formula [of 0 0] by (simp add: in_int_def)
  have f: "threads booted_irq = threads booted" "all_list booted_irq = all_list booted" "in_external_intr booted_irq"
    "running booted_irq = 4096" "ready_list booted_irq = [12288]"
    by (simp_all add: booted_irq_def)
  have z: "recent_cpu (demo_thread i s p w fs) = 0" "nice (demo_thread i s p w fs) = 0" for i s p w fs
    by (simp_all add: demo_thread_def zero_thread_def)
  have "\<exists>k'. update_priority booted_irq = Some k'"
    by (simp add: update_priority_def f z np yield_if_preempted_def cur_thread_def thread_current_def
        max_priority_in_ready_def intr_yield_on_return_def ksort_def Let_def)
  then obtain k' where k': "update_priority booted_irq = Some k'" by blast
  have "12288 \<in> set (all_list booted_irq)" by (simp add: f)
  then have "new_priority 0 0 = Some (prio k' 12288)"
    using update_priority_correct [OF k k'] by (fastforce simp: f z)
  then show ?thesis using k' np by simp
qed

section \<open>Exit and wait\<close>

text \<open>The last part of thread_exit takes the thread off the list of all threads and, when
  the switch to the next thread is done, its page is free and its identity is gone; the
  initial thread's page is kept.\<close>

theorem exit_frees_thread:
  assumes "kwf k" "running k \<noteq> idle_thread k" "exit_tail k = Some k'"
  shows "running k \<notin> set (all_list k') \<and>
    (running k \<noteq> initial_thread k \<longrightarrow> threads k' (running k) = None) \<and>
    (running k = initial_thread k \<longrightarrow> st k' (running k) = Some THREAD_DYING) \<and>
    running k' = chosen k \<and> kwf k'"
proof -
  let ?c = "running k"
  define k1 where "k1 = (if userprog k then upd_thread ?c (\<lambda>th. th\<lparr>pagedir := 0\<rparr>) k else k)"
  define k2 where "k2 = intr_disable k1\<lparr>all_list := remove1 ?c (all_list (intr_disable k1))\<rparr>"
  define k3 where "k3 = set_status THREAD_DYING ?c k2"
  have f: "running k3 = ?c" "ready_list k3 = ready_list k" "idle_thread k3 = idle_thread k"
    "all_list k3 = remove1 ?c (all_list k)" "initial_thread k3 = initial_thread k"
    by (simp_all add: k3_def k2_def k1_def)
  have sch: "schedule k3 = Some k'"
    using assms(3) kwf_current [OF assms(1)] by (simp add: exit_tail_def Let_def k1_def k2_def k3_def)
  have s1: "st k1 = st k" by (simp add: k1_def view)
  have s2: "st k2 = st k" using threads_views(1) [of k2 k1] s1 by (simp add: k2_def)
  have s3: "st k3 = (st k)(?c \<mapsto> THREAD_DYING)"
    using kwf_running(2) [OF assms(1)] s2 by (simp add: k3_def view)
  have ch: "chosen k3 = chosen k" by (simp add: chosen_def f split: list.split)
  have nc: "chosen k \<noteq> ?c"
    using kwf_not_listed [OF assms(1)] assms(2) by (auto simp: chosen_def split: list.split)
  have k': "k' = (if ?c \<noteq> initial_thread k
      then (switched k3)\<lparr>threads := (threads (switched k3))(?c := None)\<rparr> else switched k3)"
    using schedule_eq(1) [OF sch] kwf_nz [OF assms(1)] nc by (simp add: s3 ch f)
  have al: "all_list k' = remove1 ?c (all_list k)" using schedule_fields(5) [OF sch] f by simp
  have "st (switched k3) ?c = Some THREAD_DYING"
  proof -
    have "threads (switched k3) = threads (set_status THREAD_RUNNING (chosen k3) k3)"
      by (simp add: switched_def set_status_def)
    from threads_views(1) [OF this] show ?thesis using nc s3 by (simp add: view ch)
  qed
  moreover have "?c \<notin> set (all_list k')"
    using kinv_all(1) [OF kwf_running(1) [OF assms(1)]] by (simp add: al)
  moreover have "running k' = chosen k" using schedule_running [OF sch] ch by simp
  ultimately show ?thesis using k' exit_tail_kwf [OF assms] by auto
qed

theorem exit_frees_thread_witness:
  "\<exists>k'. exit_tail booted = Some k' \<and> 4096 \<notin> set (all_list k') \<and> running k' = 12288"
proof -
  have "\<exists>k'. exit_tail booted = Some k'"
    by (simp add: exit_tail_def thread_current_def Let_def schedule_def next_thread_to_run_def
        thread_schedule_tail_def set_status_def)
  then show ?thesis using exit_frees_thread [OF booted_kwf] by (auto simp: chosen_def)
qed

lemma find_child_None: "find_child k t cs = None \<longleftrightarrow> (\<forall>c \<in> set cs. map_option tid (threads k c) \<noteq> Some t)"
  by (auto simp: find_child_def find_None_iff split: option.splits)

lemma pop_push:
  assumes "threads k (running k) = Some th"
  shows "pop_frame (push f k) = Some (f, k)"
proof -
  have "k\<lparr>threads := (threads k)(running k \<mapsto> th)\<rparr> = k" using assms by (simp add: fun_upd_idem)
  then show ?thesis using assms by (simp add: pop_frame_def push_def upd_thread_def)
qed

lemma find_child_Some:
  assumes "c \<in> set cs" "threads k c = Some ch" "tid ch = t"
    and "\<forall>d \<in> set cs - {c}. map_option tid (threads k d) \<noteq> Some t"
  shows "find_child k t cs = Some c"
proof -
  let ?P = "\<lambda>c. case threads k c of None \<Rightarrow> False | Some th \<Rightarrow> tid th = t"
  have "find_child k t cs \<noteq> None" using assms(1-3) find_child_None [of k t cs] by force
  then obtain d where d: "find ?P cs = Some d" by (auto simp: find_child_def)
  then have "?P d" "d \<in> set cs" by (auto simp: find_Some_iff)
  then have "d = c" using assms(4) by (auto split: option.splits)
  then show ?thesis using d by (simp add: find_child_def)
qed


definition booted_child :: kstate where
  "booted_child = upd_thread 4096 (\<lambda>th. th\<lparr>child_list := [12288]\<rparr>)
     (upd_thread 12288 (\<lambda>th. th\<lparr>ready_to_exit := True, exit_status := 57\<rparr>) booted)"


section \<open>Semaphores\<close>

lemma chosen_live:
  assumes "kwf k" "st k (idle_thread k) \<noteq> None"
  shows "st k (chosen k) \<noteq> None"
  using assms kwf_listed_live [OF assms(1)] by (auto simp: chosen_def split: list.splits)

text \<open>C6: sema_down takes one from a positive value and goes on; on the value 0 it puts the
  caller on the wait list, blocks it, and runs the next thread, and the value stays 0.\<close>

theorem sema_down_behaviour:
  assumes "kwf k" "\<not> in_external_intr k" "running k \<noteq> idle_thread k" "st k (idle_thread k) \<noteq> None"
  shows "\<exists>k'. sema_down s k = Some k' \<and>
    (if sem_value (semas k s) > 0
     then sem_value (semas k' s) = sem_value (semas k s) - 1 \<and> waiters (semas k' s) = waiters (semas k s) \<and>
       running k' = running k
     else sem_value (semas k' s) = 0 \<and> set (waiters (semas k' s)) = insert (running k) (set (waiters (semas k s))) \<and>
       st k' (running k) = Some THREAD_BLOCKED \<and> running k' = chosen k \<and> chosen k \<noteq> running k)"
proof -
  let ?c = "running k" and ?k1 = "push (SetLevel (intr_level_of k)) (intr_disable k)"
  have e: "sema_down s k = sema_down_loop s ?k1" using assms(2) by (simp add: sema_down_def Let_def)
  have run: "st k ?c = Some THREAD_RUNNING" by (rule kwf_running(2) [OF assms(1)])
  have c1: "thread_current ?k1 = Some ?c" using run by (simp add: thread_current_eq view)
  show ?thesis
  proof (cases "sem_value (semas k s) > 0")
    case True
    then show ?thesis by (simp add: e sema_down_loop_def Let_def)
  next
    case False
    define v where "v = (semas k s)\<lparr>waiters := insert_ordered (priority_comp ?k1) ?c (waiters (semas k s))\<rparr>"
    define k2 where "k2 = push (SemaDownLoop s) (set_sema s v ?k1)"
    have f: "running k2 = ?c" "ready_list k2 = ready_list k" "idle_thread k2 = idle_thread k"
      "semas k2 = (semas k)(s := v)" "intr_level_of k2 = INTR_OFF" "in_external_intr k2 = in_external_intr k"
      by (simp_all add: k2_def)
    have s2: "st k2 = st k" by (simp add: k2_def view)
    have ch: "chosen k2 = chosen k" by (simp add: chosen_def f split: list.split)
    have "\<exists>k'. thread_block k2 = Some k'"
      by (rule thread_block_total)
        (use run assms chosen_live [OF assms(1,4)] kwf_nz [OF assms(1)] in \<open>simp_all add: f s2 ch thread_current_eq\<close>)
    then obtain k' where b: "thread_block k2 = Some k'" by blast
    have d: "sema_down s k = Some k'"
      using False c1 b by (simp add: e sema_down_loop_def Let_def k2_def v_def)
    let ?k3 = "set_status THREAD_BLOCKED ?c k2"
    have sch: "schedule ?k3 = Some k'" using thread_blockD [OF b] f by simp
    have ch3: "chosen ?k3 = chosen k" by (simp add: chosen_def f split: list.split)
    have s3: "st ?k3 = (st k)(?c \<mapsto> THREAD_BLOCKED)" using run by (simp add: view s2)
    have nc: "chosen k \<noteq> ?c" using kwf_not_listed [OF assms(1)] assms(3) by (auto simp: chosen_def split: list.split)
    have r: "running k' = chosen k" using schedule_running [OF sch] ch3 by simp
    have "st k' = (st ?k3)(running k' := Some THREAD_RUNNING)"
      by (rule schedule_keys(4) [OF sch]) (use kwf_nz [OF assms(1)] in \<open>simp_all add: f s3\<close>)
    then have "st k' ?c = Some THREAD_BLOCKED" using nc r s3 by simp
    moreover have "semas k' = (semas k)(s := v)" using schedule_fields(4) [OF sch] f by simp
    ultimately show ?thesis using False d r nc by (simp add: v_def)
  qed
qed

theorem sema_down_behaviour_witness:
  "\<exists>k'. sema_down (Sema 1) booted = Some k' \<and> sem_value (semas k' (Sema 1)) = 0"
  using sema_down_behaviour [OF booted_kwf, of "Sema 1"] by (auto simp: st_booted)

text \<open>C7: sema_up always returns; it adds one to the value, modulo 2 ^ 32, and makes the first
  waiting thread, if there is one, a candidate for the CPU again.\<close>

theorem sema_up_behaviour:
  assumes "kwf k" "\<not> in_external_intr k" "running k \<noteq> idle_thread k"
  shows "\<exists>k'. sema_up s k = Some k' \<and>
    sem_value (semas k' s) = (sem_value (semas k s) + 1) mod 2 ^ 32 \<and>
    waiters (semas k' s) = tl (waiters (semas k s)) \<and>
    insert (running k') (set (ready_list k')) =
      insert (running k) (set (ready_list k)) \<union> set (take 1 (waiters (semas k s)))"
proof -
  let ?k0 = "intr_disable k"
  have k0: "kwf ?k0" by (rule kwf_disable [OF assms(1)])
  obtain k1 where k1: "(case waiters (semas ?k0 s) of [] \<Rightarrow> Some ?k0
      | t # ts \<Rightarrow> thread_unblock t (set_sema s ((semas ?k0 s)\<lparr>waiters := ts\<rparr>) ?k0)) = Some k1"
    and w: "kwf k1" "semas k1 s = (semas k s)\<lparr>waiters := tl (waiters (semas k s))\<rparr>"
      "set (ready_list k1) = set (ready_list k) \<union> set (take 1 (waiters (semas k s)))"
      "running k1 = running k" "idle_thread k1 = idle_thread k" "in_external_intr k1 = in_external_intr k"
  proof (cases "waiters (semas k s)")
    case Nil
    then have "semas k s = (semas k s)\<lparr>waiters := []\<rparr>" by (cases "semas k s") simp
    then show ?thesis using that [of ?k0] Nil k0 by simp
  next
    case (Cons t ts)
    let ?k = "set_sema s ((semas k s)\<lparr>waiters := ts\<rparr>) ?k0"
    have "st ?k t = Some THREAD_BLOCKED"
      using kinv_off_status [OF kwf_running(1) [OF assms(1)], of t "PWait s"] Cons by (simp add: view)
    then obtain k1 where u: "thread_unblock t ?k = Some k1" using thread_unblock_total by blast
    have "kwf k1"
      by (rule wake_kwf [OF k0, of "PWait s" t ts, OF _ _ _ _ _ _ _ _ _ _ _ u])
        (use Cons in \<open>simp_all add: on_list_set_sema view\<close>)
    moreover have "semas k1 = semas ?k" "idle_thread k1 = idle_thread k"
      using u by (auto simp: thread_unblock_def Let_def bind_eq_Some_conv split: if_splits)
    ultimately show ?thesis
      using that [of k1] u Cons alarm_unblock [OF u] running_unblock [OF u] by simp
  qed
  let ?v = "(semas k1 s)\<lparr>sem_value := (sem_value (semas k1 s) + 1) mod 2 ^ 32\<rparr>"
  let ?k2 = "push (SetLevel (intr_level_of k)) (set_sema s ?v k1)"
  have e: "sema_up s k = thread_yield ?k2" using k1 by (simp add: sema_up_def Let_def)
  have k2: "kwf ?k2"
    by (rule kwf_same_view [OF same_view_trans [OF same_view_set_sema same_view_push] w(1)]) simp_all
  obtain k' where y: "thread_yield ?k2 = Some k'"
    using thread_yield_total [OF k2] assms(2,3) w by auto
  have L: "insert_ordered (priority_comp ?k2) (running ?k2) (ready_list ?k2) = running k' # ready_list k'"
    by (rule thread_yield_result(1) [OF k2 _ _ y]) (use assms w in simp_all)
  have "insert (running k') (set (ready_list k')) = insert (running k) (set (ready_list k1))"
    by (metis L list.simps(15) set_insert_ordered push_fields(1,2) set_sema_fields(1,2) w(4))
  moreover have "semas k' = semas ?k2"
  proof -
    have "thread_yield ?k2 = schedule (set_status THREAD_READY (running ?k2) (push (SetLevel (intr_level_of ?k2))
       (intr_disable ?k2\<lparr>ready_list := insert_ordered (priority_comp ?k2) (running ?k2) (ready_list ?k2)\<rparr>)))"
      by (rule thread_yield_eq [OF k2]) (use assms w in simp_all)
    with y show ?thesis using schedule_fields(4) by fastforce
  qed
  ultimately show ?thesis using e y w by simp
qed

theorem sema_up_behaviour_witness:
  "\<exists>k'. sema_up (Sema 1) booted = Some k' \<and> sem_value (semas k' (Sema 1)) = 2"
  using sema_up_behaviour [OF booted_kwf, of "Sema 1"] by auto

end
