(* ===== verification/KListMore.thy ===== *)
theory KListMore
  imports KListSort
begin

text \<open>
  Refinement of the remaining list operations, list_reverse and list_unique, and the
  properties of list.c: what each operation does to the sequence of elements that a list
  holds, on every well-formed list.
\<close>

section \<open>Reversal\<close>

definition swapped :: "ptr set \<Rightarrow> lheap \<Rightarrow> lheap" where
  "swapped S h = \<lparr>prv = (\<lambda>p. if p \<in> S then nxt h p else prv h p),
                  nxt = (\<lambda>p. if p \<in> S then prv h p else nxt h p)\<rparr>"

lemma swapped_links:
  "prv (swapped S h) p = (if p \<in> S then nxt h p else prv h p)"
  "nxt (swapped S h) p = (if p \<in> S then prv h p else nxt h p)"
  by (simp_all add: swapped_def)

lemma swapped_empty: "swapped {} h = h"
  by (simp add: swapped_def)

lemma swap_links_swapped: "e \<notin> S \<Longrightarrow> swap_links e (swapped S h) = swapped (insert e S) h"
  by (auto simp: swap_links_def swapped_def)

lemma list_reverse_loop_dll:
  "dll h l (xs @ ys) \<Longrightarrow>
   list_reverse_loop l (swapped (set xs) h) (pos l ys) = Some (swapped (set (xs @ ys)) h)"
proof (induction ys arbitrary: xs)
  case Nil
  then show ?case by (simp add: list_reverse_loop.simps)
next
  case (Cons y ys)
  have y: "y \<noteq> tail l" "y \<noteq> NULL" "y \<notin> set xs" using dllD [OF Cons.prems] by auto
  have "nxt h y = pos l ys" using dll_elem(1) [OF Cons.prems] by (simp add: pos_def)
  moreover have "list_reverse_loop l (swapped (set (xs @ [y])) h) (pos l ys) =
      Some (swapped (set ((xs @ [y]) @ ys)) h)"
    by (rule Cons.IH) (use Cons.prems in simp)
  ultimately show ?case
    using y by (subst list_reverse_loop.simps) (simp add: swap_links_swapped swapped_links)
qed

lemma chain_swapped: "chain h xs \<Longrightarrow> set xs \<subseteq> S \<Longrightarrow> chain (swapped S h) (rev xs)"
proof (induction xs)
  case (Cons x xs)
  then show ?case
    by (cases xs) (auto simp: chain_append swapped_links)
qed simp

lemma full_chain: "dll h l xs \<Longrightarrow> chain h xs"
  unfolding dll_def full_def by (metis append_Cons append_Nil chain_append)

lemma list_reverse_dll:
  assumes d: "dll h l xs"
  shows "\<exists>h'. list_reverse l h = Some h' \<and> dll h' l (rev xs) \<and>
    (\<forall>p. p \<notin> set (full l xs) \<longrightarrow> nxt h' p = nxt h p \<and> prv h' p = prv h p)"
proof (cases "xs = []")
  case True
  then show ?thesis using d by (simp add: list_reverse_def list_empty_dll)
next
  case False
  then obtain x ys where xs: "xs = x # ys" by (cases xs) auto
  let ?z = "last xs" and ?s = "swapped (set xs) h"
  note D = dllD [OF d]
  have z: "?z \<in> set xs" "x \<in> set xs" using xs by auto
  have ends: "nxt h (head l) = x" "prv h (tail l) = ?z" "prv h x = head l" "nxt h ?z = tail l"
    using dll_at [of h l "[]" xs] dll_at [of h l xs "[]"] d xs by auto
  have lp: "list_reverse_loop l h x = Some ?s"
    using list_reverse_loop_dll [of h l "[]" xs] d xs by (simp add: swapped_empty)
  let ?h1 = "set_prv (tail l) x (set_nxt (head l) ?z ?s)"
  let ?h2 = "set_nxt x (tail l) (set_prv ?z (head l) ?h1)"
  have h1: "nxt ?s (head l) = x" "prv ?s (tail l) = ?z"
    using D ends by (simp_all add: swapped_links)
  have nz: "x \<noteq> NULL" "?z \<noteq> NULL" "x \<noteq> head l" "x \<noteq> tail l" "?z \<noteq> head l" "?z \<noteq> tail l"
    using D z by metis+
  have h2: "prv ?h1 ?z = tail l" "nxt ?h1 x = head l" "nxt ?h1 (head l) = ?z" "prv ?h1 (tail l) = x"
    using z nz D(3) ends by (simp_all add: set_prv_def set_nxt_def swapped_links)
  have r: "list_reverse l h = Some ?h2"
    using d xs lp h1 h2 nz by (simp add: list_reverse_def list_empty_dll list_begin_dll Let_def)
  have pv: "prv ?h2 p = (if p = ?z then head l else if p = tail l then x else if p \<in> set xs then nxt h p else prv h p)" for p
    using nz by (simp add: set_prv_def set_nxt_def swapped_links)
  have nx: "nxt ?h2 p = (if p = x then tail l else if p = head l then ?z else if p \<in> set xs then prv h p else nxt h p)" for p
    using nz by (simp add: set_prv_def set_nxt_def swapped_links)
  have er: "last (rev xs) = x" "hd (rev xs) = ?z" using xs by (simp_all add: last_rev hd_rev)
  have c: "chain ?h2 (rev xs)"
  proof (rule chain_frame)
    show "chain ?s (rev xs)" by (rule chain_swapped [OF full_chain [OF d]]) simp
    show "distinct (rev xs)" using D by simp
    show "nxt ?h2 p = nxt ?s p" if "p \<in> set (rev xs)" "p \<noteq> last (rev xs)" for p
      using that D er by (auto simp: nx swapped_links)
    show "prv ?h2 p = prv ?s p" if "p \<in> set (rev xs)" "p \<noteq> hd (rev xs)" for p
      using that D er by (auto simp: pv swapped_links)
  qed
  have "chain ?h2 ([head l] @ rev xs @ [tail l])"
    unfolding chain_append using c False er nz D by (simp add: pv nx hd_append)
  then have "chain ?h2 (full l (rev xs))" by (simp add: full_def)
  moreover have "prv ?h2 (head l) = NULL" "nxt ?h2 (tail l) = NULL"
    using D nz by (auto simp: pv nx)
  moreover have "distinct (full l (rev xs))" "NULL \<notin> set (full l (rev xs))"
    using D by (auto simp: full_def)
  ultimately have "dll ?h2 l (rev xs)" by (simp add: dll_def)
  moreover have "nxt ?h2 p = nxt h p \<and> prv ?h2 p = prv h p" if "p \<notin> set (full l xs)" for p
    using that z by (auto simp: pv nx full_def)
  ultimately show ?thesis using r by blast
qed

section \<open>Removing duplicates\<close>

fun kunique :: "('a \<Rightarrow> 'a \<Rightarrow> bool) \<Rightarrow> 'a \<Rightarrow> 'a list \<Rightarrow> 'a list \<times> 'a list" where
  "kunique lt x [] = ([x], [])"
| "kunique lt x (y # ys) =
     (if \<not> lt x y \<and> \<not> lt y x then (fst (kunique lt x ys), y # snd (kunique lt x ys))
      else (x # fst (kunique lt y ys), snd (kunique lt y ys)))"

lemma list_unique_loop_dll:
  "dll h l (P @ x # ys) \<Longrightarrow> dll h d Q \<Longrightarrow> set (full l (P @ x # ys)) \<inter> set (full d Q) = {} \<Longrightarrow>
   \<exists>h'. list_unique_loop lt l (Some d) h x = Some h' \<and>
     dll h' l (P @ fst (kunique lt x ys)) \<and> dll h' d (Q @ snd (kunique lt x ys))"
proof (induction ys arbitrary: h P x Q)
  case Nil
  then show ?case
    using list_next_dll [of h l P x "[]"] by (subst list_unique_loop.simps) auto
next
  case (Cons y ys)
  have nx: "list_next h x = Some y" using list_next_dll [OF Cons.prems(1)] by simp
  have yt: "y \<noteq> tail l" using dllD [OF Cons.prems(1)] by auto
  show ?case
  proof (cases "\<not> lt x y \<and> \<not> lt y x")
    case True
    obtain h1 where h1: "list_remove y h = Some (pos l ys, h1)" "dll h1 l (P @ x # ys)"
      and f1: "\<forall>p. p \<notin> set (full l (P @ x # ys)) \<longrightarrow> nxt h1 p = nxt h p \<and> prv h1 p = prv h p"
      using list_remove_dll [of h l "P @ [x]" y ys] Cons.prems(1) by auto
    have dis: "set (full l (P @ x # ys)) \<inter> set (full d Q) = {}" "y \<notin> set (full d Q)" "y \<noteq> NULL"
      "y \<notin> set (full l (P @ x # ys))"
      using Cons.prems(3) dllD [OF Cons.prems(1)] by (auto simp: full_def)
    have "dll h1 d Q" by (rule dll_frame [OF Cons.prems(2)]) (use f1 dis in blast)
    then obtain h2 where h2: "list_push_back d y h1 = Some h2" "dll h2 d (Q @ [y])"
      and f2: "\<forall>p. p \<notin> set (y # full d Q) \<longrightarrow> nxt h2 p = nxt h1 p \<and> prv h2 p = prv h1 p"
      using list_push_back_dll [of h1 d Q y] dis by blast
    have "dll h2 l (P @ x # ys)" by (rule dll_frame [OF h1(2)]) (use f2 dis in auto)
    moreover have "set (full l (P @ x # ys)) \<inter> set (full d (Q @ [y])) = {}"
      using dis by (auto simp: full_def)
    ultimately obtain h' where "list_unique_loop lt l (Some d) h2 x = Some h'"
      "dll h' l (P @ fst (kunique lt x ys))" "dll h' d ((Q @ [y]) @ snd (kunique lt x ys))"
      using Cons.IH [OF _ h2(2)] by blast
    then show ?thesis
      using True nx yt h1(1) h2(1) by (subst list_unique_loop.simps) simp
  next
    case False
    obtain h' where "list_unique_loop lt l (Some d) h y = Some h'"
      "dll h' l ((P @ [x]) @ fst (kunique lt y ys))" "dll h' d (Q @ snd (kunique lt y ys))"
      using Cons.IH [of h "P @ [x]" y Q] Cons.prems by auto
    then show ?thesis using False nx yt by (subst list_unique_loop.simps) auto
  qed
qed

lemma list_unique_dll:
  assumes "dll h l (x # xs)" "dll h d Q" "set (full l (x # xs)) \<inter> set (full d Q) = {}"
  shows "\<exists>h'. list_unique lt l (Some d) h = Some h' \<and>
     dll h' l (fst (kunique lt x xs)) \<and> dll h' d (Q @ snd (kunique lt x xs))"
  using list_unique_loop_dll [of h l "[]" x xs d Q lt] assms dllD(1) [OF assms(1)]
  by (simp add: list_unique_def list_empty_dll list_begin_dll)

lemma mset_kunique: "mset (fst (kunique lt x xs)) + mset (snd (kunique lt x xs)) = add_mset x (mset xs)"
  by (induction xs arbitrary: x) auto

section \<open>Properties of the list operations\<close>

text \<open>A concrete list of three elements, for the witnesses: sentinels at 1 and 2, the
  elements at 30, 10 and 20, in this order, and a second, empty list at 3 and 4.\<close>

definition demo_heap :: lheap where
  "demo_heap = \<lparr>prv = (\<lambda>_. 0)(30 := 1, 10 := 30, 20 := 10, 2 := 20, 4 := 3),
                nxt = (\<lambda>_. 0)(1 := 30, 30 := 10, 10 := 20, 20 := 2, 3 := 4)\<rparr>"

definition demo_list :: klist where "demo_list = \<lparr>head = 1, tail = 2\<rparr>"

definition demo_other :: klist where "demo_other = \<lparr>head = 3, tail = 4\<rparr>"

lemma demo_dll: "dll demo_heap demo_list [30, 10, 20]" "dll demo_heap demo_other []"
  by (simp_all add: demo_heap_def demo_list_def demo_other_def dll_def full_def)

lemma less_list_less: "list_less ((<) :: nat \<Rightarrow> nat \<Rightarrow> bool)"
  by unfold_locales auto

text \<open>C4: list_sort returns, for every strict weak order and every well-formed list; it
  leaves the list with the same elements, in order, equivalent elements in their old order,
  and touches no link outside the list.\<close>

theorem list_sort_correct:
  assumes "list_less lt" "dll h l xs"
  shows "\<exists>h' ys. list_sort lt l h = Some h' \<and> dll h' l ys \<and> mset ys = mset xs \<and>
    sorted_wrt (\<lambda>x y. \<not> lt y x) ys \<and> (\<forall>a. filter (equiv_of lt a) ys = filter (equiv_of lt a) xs) \<and>
    (\<forall>p. p \<notin> set (full l xs) \<longrightarrow> nxt h' p = nxt h p \<and> prv h' p = prv h p)"
  using list_sort_dll [OF assms] list_less.sorted_ksort [OF assms(1), of xs]
    list_less.filter_ksort [OF assms(1), of _ xs] mset_ksort [of lt xs] by metis

theorem list_sort_correct_witness:
  "\<exists>h'. list_sort (<) demo_list demo_heap = Some h' \<and> dll h' demo_list [10, 20, 30]"
proof -
  obtain h' ys where h': "list_sort (<) demo_list demo_heap = Some h'" "dll h' demo_list ys"
    and ys: "mset ys = mset [30, 10, 20]" "sorted_wrt (\<lambda>x y. \<not> y < x) ys"
    using list_sort_correct [OF less_list_less demo_dll(1)] by blast
  have "sorted ys" using ys(2) by (simp add: not_less)
  then have "ys = sort [30, 10, 20]" using ys(1) by (metis properties_for_sort)
  then show ?thesis using h' by simp
qed

lemma after_insertion:
  "list_less lt \<Longrightarrow> sorted_wrt (\<lambda>x y. \<not> lt y x) xs \<Longrightarrow>
   v \<in> set (dropWhile (\<lambda>y. \<not> lt e y) xs) \<Longrightarrow> lt e v"
proof (induction xs)
  case (Cons x xs)
  show ?case
  proof (cases "lt e x")
    case True
    then have "v = x \<or> v \<in> set xs" using Cons.prems(3) by simp
    then have "v = x \<or> \<not> lt v x" using Cons.prems(2) by auto
    then show ?thesis using True list_less.neg_trans [OF Cons.prems(1), of e v x] by blast
  qed (use Cons in simp)
qed simp

text \<open>C13: list_insert_ordered puts an element that is not in the list after all elements
  that it is not less than; a sorted list stays sorted, and an equal element goes last.\<close>

theorem list_insert_ordered_correct:
  assumes "list_less lt" "dll h l xs" "sorted_wrt (\<lambda>x y. \<not> lt y x) xs" "e \<noteq> NULL" "e \<notin> set (full l xs)"
  shows "\<exists>h' us vs. list_insert_ordered lt l e h = Some h' \<and> xs = us @ vs \<and> dll h' l (us @ e # vs) \<and>
    sorted_wrt (\<lambda>x y. \<not> lt y x) (us @ e # vs) \<and> (\<forall>u \<in> set us. \<not> lt e u) \<and> (\<forall>v \<in> set vs. lt e v)"
proof -
  let ?us = "takeWhile (\<lambda>y. \<not> lt e y) xs" and ?vs = "dropWhile (\<lambda>y. \<not> lt e y) xs"
  obtain h' where "list_insert_ordered lt l e h = Some h'" "dll h' l (?us @ e # ?vs)"
    using list_insert_ordered_dll [OF assms(2,4,5), of lt] by (auto simp: insert_ordered_split)
  moreover have s: "sorted_wrt (\<lambda>x y. \<not> lt y x) (?us @ e # ?vs)"
    using list_less.sorted_insert_ordered [OF assms(1,3), of e] by (simp add: insert_ordered_split)
  moreover have "\<forall>v \<in> set ?vs. lt e v" using after_insertion [OF assms(1,3)] by blast
  ultimately show ?thesis
    using set_takeWhileD [of _ "\<lambda>y. \<not> lt e y" xs] by (metis takeWhile_dropWhile_id)
qed

theorem list_insert_ordered_correct_witness:
  "\<exists>h' us vs. list_insert_ordered (<) demo_other 5 demo_heap = Some h' \<and> [] = us @ vs \<and>
     dll h' demo_other (us @ 5 # vs)"
  using list_insert_ordered_correct [OF less_list_less demo_dll(2), of 5]
  by (auto simp: demo_other_def full_def)

text \<open>List_insert puts an element before any position of a list, and list_remove takes
  it out again and returns the element that followed it: the list holds its old elements.\<close>

theorem list_insert_remove_roundtrip:
  assumes "dll h l (xs @ ys)" "e \<noteq> NULL" "e \<notin> set (full l (xs @ ys))"
  shows "\<exists>h1 h2. list_insert (pos l ys) e h = Some h1 \<and> dll h1 l (xs @ e # ys) \<and>
    list_remove e h1 = Some (pos l ys, h2) \<and> dll h2 l (xs @ ys)"
  using list_insert_dll [OF assms] list_remove_dll [of _ l xs e ys] by metis

theorem list_insert_remove_roundtrip_witness:
  "\<exists>h1 h2. list_insert 10 7 demo_heap = Some h1 \<and> dll h1 demo_list [30, 7, 10, 20] \<and>
     list_remove 7 h1 = Some (10, h2) \<and> dll h2 demo_list [30, 10, 20]"
  using list_insert_remove_roundtrip [of demo_heap demo_list "[30]" "[10, 20]" 7] demo_dll(1)
  by (simp add: full_def demo_list_def)

text \<open>List_splice moves a range of elements to an earlier place of its list and changes
  the order of nothing else.\<close>

theorem list_splice_moves:
  assumes "dll h l (P @ (b # W) @ Fs @ S)" "Fs \<noteq> []"
  shows "\<exists>h'. list_splice b (hd Fs) (pos l S) h = Some h' \<and> dll h' l (P @ Fs @ (b # W) @ S)"
  using list_splice_dll [OF assms] by blast

theorem list_splice_moves_witness:
  "\<exists>h'. list_splice 30 10 2 demo_heap = Some h' \<and> dll h' demo_list [10, 20, 30]"
  using list_splice_moves [of demo_heap demo_list "[]" 30 "[]" "[10, 20]" "[]"] demo_dll(1)
  by (simp add: demo_list_def)

text \<open>List_reverse returns on every well-formed list and reverses it; reversing twice
  gives back the list.\<close>

theorem list_reverse_correct:
  assumes "dll h l xs"
  shows "\<exists>h1 h2. list_reverse l h = Some h1 \<and> dll h1 l (rev xs) \<and>
    list_reverse l h1 = Some h2 \<and> dll h2 l xs"
  using list_reverse_dll [OF assms] list_reverse_dll [of _ l "rev xs"] by force

theorem list_reverse_correct_witness:
  "\<exists>h1 h2. list_reverse demo_list demo_heap = Some h1 \<and> dll h1 demo_list [20, 10, 30] \<and>
     list_reverse demo_list h1 = Some h2 \<and> dll h2 demo_list [30, 10, 20]"
  using list_reverse_correct [OF demo_dll(1)] by simp

lemma kunique_sorted:
  assumes "list_less lt" "sorted_wrt (\<lambda>x y. \<not> lt y x) (x # xs)"
  shows "sorted_wrt lt (fst (kunique lt x xs)) \<and> set (fst (kunique lt x xs)) \<subseteq> set (x # xs) \<and>
    hd (fst (kunique lt x xs)) = x"
  using assms(2)
proof (induction xs arbitrary: x)
  case (Cons y ys)
  show ?case
  proof (cases "\<not> lt x y \<and> \<not> lt y x")
    case True
    have "sorted_wrt (\<lambda>x y. \<not> lt y x) (x # ys)" using Cons.prems by simp
    then show ?thesis using Cons.IH [of x] True by auto
  next
    case False
    then have xy: "lt x y" using Cons.prems by auto
    have IH: "sorted_wrt lt (fst (kunique lt y ys))" "set (fst (kunique lt y ys)) \<subseteq> set (y # ys)"
      using Cons.IH [of y] Cons.prems by auto
    have "lt x z" if "z \<in> set (y # ys)" for z
    proof -
      have "\<not> lt z y" using that Cons.prems list_less.irrefl [OF assms(1)] by auto
      then show ?thesis using xy assms(1) by (metis list_less.neg_trans)
    qed
    then show ?thesis using IH False by auto
  qed
qed simp

text \<open>On a sorted list, list_unique leaves one element of each class of equal ones, in
  order, and moves all others to the list of duplicates.\<close>

theorem list_unique_correct:
  assumes "list_less lt" "dll h l (x # xs)" "sorted_wrt (\<lambda>x y. \<not> lt y x) (x # xs)"
    and "dll h d Q" "set (full l (x # xs)) \<inter> set (full d Q) = {}"
  shows "\<exists>h' us vs. list_unique lt l (Some d) h = Some h' \<and> dll h' l us \<and> dll h' d (Q @ vs) \<and>
    mset us + mset vs = mset (x # xs) \<and> sorted_wrt lt us"
  using list_unique_dll [OF assms(2,4,5), of lt] kunique_sorted [OF assms(1,3)] mset_kunique [of lt x xs]
  by (metis mset.simps(2))

theorem list_unique_correct_witness:
  "\<exists>h' us vs. list_unique (\<lambda>a b. a div 25 > b div (25 :: nat)) demo_list (Some demo_other) demo_heap = Some h' \<and>
     dll h' demo_list us \<and> dll h' demo_other ([] @ vs) \<and> mset us + mset vs = mset [30, 10, 20] \<and>
     sorted_wrt (\<lambda>a b. a div 25 > b div 25) us"
  by (rule list_unique_correct [OF _ demo_dll(1) _ demo_dll(2)])
    (unfold_locales, auto simp: full_def demo_list_def demo_other_def)

text \<open>The functions that need an element fail (a failing ASSERT) on an empty list, and
  otherwise return and remove its first or last one.\<close>

theorem list_pop_behaviour:
  assumes "dll h l xs"
  shows "(xs = [] \<longrightarrow> list_pop_front l h = None \<and> list_pop_back l h = None) \<and>
    (xs \<noteq> [] \<longrightarrow> (\<exists>h'. list_pop_front l h = Some (hd xs, h') \<and> dll h' l (tl xs)) \<and>
                 (\<exists>h'. list_pop_back l h = Some (last xs, h') \<and> dll h' l (butlast xs)))"
proof (cases "xs = []")
  case True
  then show ?thesis using list_pop_empty assms by simp
next
  case False
  then show ?thesis
    using list_pop_front_dll [of h l "hd xs" "tl xs"] list_pop_back_dll [of h l "butlast xs" "last xs"] assms
    by auto
qed

theorem list_pop_behaviour_witness:
  "list_pop_front demo_other demo_heap = None \<and> list_pop_back demo_other demo_heap = None"
  using list_pop_behaviour [OF demo_dll(2)] by simp

end
