(* ===== verification/Arith64.thy ===== *)
theory Arith64
  imports Prelude
begin

unbundle bit_operations_syntax

text \<open>
  The 64-bit division routines of lib/arithmetic.c, which the compiler calls for every
  64-bit division and remainder of the kernel.  A divide error (#DE) of the DIVL
  instruction is None.  Unsigned division is proved to be \<open>div\<close> on every input, so that
  the instruction never traps for a nonzero divisor; the remainder routines return 32 bits
  of it only.
\<close>

section \<open>The routines\<close>

definition divl :: "64 word \<Rightarrow> 32 word \<Rightarrow> 32 word option" where
  "divl n d =
     (if d = 0 then None
      else let q = n div ucast d in if q \<le> 0xFFFFFFFF then Some (ucast q) else None)"

definition nlz :: "32 word \<Rightarrow> nat" where
  "nlz x =
     (let (n, x) = (if x \<le> 0x0000FFFF then (16, push_bit 16 x) else (0, x));
          (n, x) = (if x \<le> 0x00FFFFFF then (n + 8, push_bit 8 x) else (n, x));
          (n, x) = (if x \<le> 0x0FFFFFFF then (n + 4, push_bit 4 x) else (n, x));
          (n, x) = (if x \<le> 0x3FFFFFFF then (n + 2, push_bit 2 x) else (n, x))
      in if x \<le> 0x7FFFFFFF then n + 1 else n)"

definition udiv64 :: "64 word \<Rightarrow> 64 word \<Rightarrow> 64 word option" where
  "udiv64 n d =
     (if drop_bit 32 d = 0 then
        (let b = push_bit 32 1;
             n1 = ucast (drop_bit 32 n) :: 32 word;
             n0 = ucast n :: 32 word;
             d0 = ucast d :: 32 word
         in if d0 = 0 then None
            else do {
              q \<leftarrow> divl (b * ucast (n1 mod d0) + ucast n0) d0;
              Some (ucast q + b * ucast (n1 div d0))
            })
      else if n < d then Some 0
      else
        (let d1 = ucast (drop_bit 32 d) :: 32 word;
             s = nlz d1
         in do {
              q32 \<leftarrow> divl (drop_bit 1 n) (ucast (drop_bit 32 (push_bit s d)));
              let q = (ucast (drop_bit (31 - s) q32) :: 64 word);
              Some (if n - (q - 1) * d < d then q - 1 else q)
            }))"

definition umod64 :: "64 word \<Rightarrow> 64 word \<Rightarrow> 32 word option" where
  "umod64 n d = do { q \<leftarrow> udiv64 n d; Some (ucast (n - d * q)) }"

definition sdiv64 :: "64 word \<Rightarrow> 64 word \<Rightarrow> 64 word option" where
  "sdiv64 n d =
     (let n_abs = (if 0 \<le>s n then n else - n);
          d_abs = (if 0 \<le>s d then d else - d)
      in do {
        q_abs \<leftarrow> udiv64 n_abs d_abs;
        Some (if (n <s 0) = (d <s 0) then q_abs else - q_abs)
      })"

definition smod64 :: "64 word \<Rightarrow> 64 word \<Rightarrow> 32 word option" where
  "smod64 n d = do { q \<leftarrow> sdiv64 n d; Some (ucast (n - d * q)) }"

text \<open>The entry points: the 32-bit remainders are extended to 64 bits on return.\<close>

definition divdi3 :: "64 word \<Rightarrow> 64 word \<Rightarrow> 64 word option" where
  "divdi3 n d = sdiv64 n d"

definition moddi3 :: "64 word \<Rightarrow> 64 word \<Rightarrow> 64 word option" where
  "moddi3 n d = map_option scast (smod64 n d)"

definition udivdi3 :: "64 word \<Rightarrow> 64 word \<Rightarrow> 64 word option" where
  "udivdi3 n d = udiv64 n d"

definition umoddi3 :: "64 word \<Rightarrow> 64 word \<Rightarrow> 64 word option" where
  "umoddi3 n d = map_option ucast (umod64 n d)"

section \<open>Words as numbers\<close>

lemma unat_lt64: "unat (x :: 64 word) < 2 ^ 64"
  using unsigned_less [of x] by simp

lemma unat_lt32: "unat (x :: 32 word) < 2 ^ 32"
  using unsigned_less [of x] by simp

lemma unat_drop: "unat (drop_bit k (x :: 'a::len word)) = unat x div 2 ^ k"
  by (simp only: unsigned_drop_bit_eq) (simp add: drop_bit_eq_div take_bit_nat_eq_self)

lemma unat_down: "unat (ucast (x :: 64 word) :: 32 word) = unat x mod 2 ^ 32"
  by (simp add: unsigned_ucast_eq take_bit_eq_mod)

lemma unat_up: "unat (ucast (x :: 32 word) :: 64 word) = unat x"
  using unat_lt32 [of x] by (simp add: unsigned_ucast_eq take_bit_nat_eq_self)

lemma unat_push: "unat (x :: 'a::len word) * 2 ^ k < 2 ^ LENGTH('a) \<Longrightarrow> unat (push_bit k x) = unat x * 2 ^ k"
  by (simp only: unsigned_push_bit_eq) (simp add: push_bit_eq_mult take_bit_nat_eq_self)

lemma divl_ok:
  assumes "0 < unat d" and "unat n < unat d * 2 ^ 32"
  shows "\<exists>q. divl n d = Some q \<and> unat q = unat n div unat d"
proof -
  let ?q = "n div ucast d :: 64 word"
  have q: "unat ?q = unat n div unat d" by (simp add: unat_div unat_up)
  have lt: "unat ?q < 2 ^ 32" using assms by (simp add: q less_mult_imp_div_less mult.commute)
  then have "?q \<le> 0xFFFFFFFF" by (simp add: word_le_nat_alt)
  moreover have "d \<noteq> 0" using assms(1) by auto
  ultimately have "divl n d = Some (ucast ?q)" by (simp add: divl_def Let_def)
  moreover have "unat (ucast ?q :: 32 word) = unat n div unat d"
    using lt by (simp add: unat_down q)
  ultimately show ?thesis by blast
qed

lemma unat_le_word: "x \<le> numeral c \<longleftrightarrow> unat (x :: 32 word) \<le> unat (numeral c :: 32 word)"
  by (simp add: word_le_nat_alt)

text \<open>The number of leading zeros normalises its argument.\<close>

definition norm_step :: "nat \<Rightarrow> nat \<times> 32 word \<Rightarrow> nat \<times> 32 word" where
  "norm_step k p = (if unat (snd p) < 2 ^ (32 - k) then (fst p + k, push_bit k (snd p)) else p)"

definition norm_of :: "32 word \<Rightarrow> nat \<Rightarrow> nat \<times> 32 word \<Rightarrow> bool" where
  "norm_of x k p \<longleftrightarrow> unat (snd p) = unat x * 2 ^ fst p \<and> 2 ^ (32 - k) \<le> unat (snd p)"

lemma norm_step_ok:
  assumes p: "norm_of x (2 * k) p" and k: "2 * k \<le> 32"
  shows "norm_of x k (norm_step k p)"
proof (cases "unat (snd p) < 2 ^ (32 - k)")
  case True
  have fit: "unat (snd p) * 2 ^ k < 2 ^ 32"
  proof -
    have "unat (snd p) * 2 ^ k < 2 ^ (32 - k) * 2 ^ k" using True by simp
    also have "\<dots> = 2 ^ 32" using k by (simp flip: power_add)
    finally show ?thesis .
  qed
  have "2 ^ (32 - k) = (2::nat) ^ (32 - 2 * k) * 2 ^ k" using k by (simp flip: power_add)
  also have "\<dots> \<le> unat (snd p) * 2 ^ k" using p by (simp add: norm_of_def)
  finally have ge: "2 ^ (32 - k) \<le> unat (snd p) * 2 ^ k" .
  have eq: "unat (push_bit k (snd p)) = unat (snd p) * 2 ^ k" using fit by (intro unat_push) simp
  have "unat (snd p) * 2 ^ k = unat x * 2 ^ (fst p + k)"
    using p by (simp add: norm_of_def power_add mult.assoc)
  with ge eq True show ?thesis unfolding norm_step_def norm_of_def by simp
next
  case False
  with p show ?thesis by (simp add: norm_step_def norm_of_def)
qed

lemma nlz_norm: "nlz x = fst (norm_step 1 (norm_step 2 (norm_step 4 (norm_step 8 (norm_step 16 (0, x))))))"
proof -
  have st: "(if w \<le> c then (n + k, push_bit k w) else (n, w)) = norm_step k (n, w)"
    if "unat c + 1 = 2 ^ (32 - k)" for n k and w c :: "32 word"
    using that by (auto simp: norm_step_def word_le_nat_alt)
  have pst: "(if snd p \<le> c then (fst p + k, push_bit k (snd p)) else p) = norm_step k p"
    if "unat c + 1 = 2 ^ (32 - k)" for k p and c :: "32 word"
    using st [OF that, of "snd p" "fst p"] by (simp split: if_splits)
  have c8: "unat (0x00FFFFFF :: 32 word) + 1 = 2 ^ (32 - 8)"
    and c4: "unat (0x0FFFFFFF :: 32 word) + 1 = 2 ^ (32 - 4)"
    and c2: "unat (0x3FFFFFFF :: 32 word) + 1 = 2 ^ (32 - 2)" by simp_all
  have first: "(if x \<le> 0x0000FFFF then (16, push_bit 16 x) else (0, x)) = norm_step 16 (0, x)"
    using st [of "0x0000FFFF" 16 x 0] by (simp split: if_splits)
  have final: "(if w \<le> 0x7FFFFFFF then n + 1 else n) = fst (norm_step 1 (n, w))" for n and w :: "32 word"
    using arg_cong [OF st [of "0x7FFFFFFF" 1 w n], of fst] by (auto split: if_splits)
  show ?thesis
    unfolding nlz_def Let_def first
    by (simp only: final case_prod_beta prod.collapse pst [OF c8] pst [OF c4] pst [OF c2])
qed

lemma nlz_ok:
  assumes "0 < unat x"
  shows "2 ^ 31 \<le> unat x * 2 ^ nlz x" and "unat x * 2 ^ nlz x < 2 ^ 32" and "nlz x \<le> 31"
proof -
  let ?p = "norm_step 1 (norm_step 2 (norm_step 4 (norm_step 8 (norm_step 16 (0, x)))))"
  have "norm_of x 32 (0, x)" using assms by (simp add: norm_of_def)
  then have "norm_of x 16 (norm_step 16 (0, x))" using norm_step_ok [of x 16] by simp
  then have "norm_of x 8 (norm_step 8 (norm_step 16 (0, x)))" using norm_step_ok [of x 8] by simp
  then have "norm_of x 4 (norm_step 4 (norm_step 8 (norm_step 16 (0, x))))"
    using norm_step_ok [of x 4] by simp
  then have "norm_of x 2 (norm_step 2 (norm_step 4 (norm_step 8 (norm_step 16 (0, x)))))"
    using norm_step_ok [of x 2] by simp
  then have "norm_of x 1 ?p" using norm_step_ok [of x 1] by simp
  then have p: "unat (snd ?p) = unat x * 2 ^ nlz x" "2 ^ 31 \<le> unat (snd ?p)"
    by (simp_all add: norm_of_def nlz_norm)
  then show "2 ^ 31 \<le> unat x * 2 ^ nlz x" by simp
  show lt: "unat x * 2 ^ nlz x < 2 ^ 32" using p(1) unat_lt32 [of "snd ?p"] by simp
  have "2 ^ nlz x \<le> unat x * 2 ^ nlz x" using assms by simp
  then have "(2::nat) ^ nlz x < 2 ^ 32" using lt by (rule le_less_trans)
  then show "nlz x \<le> 31" using power_less_imp_less_exp [of "2::nat" "nlz x" 32] by simp
qed

section \<open>Correctness\<close>

text \<open>Dividing by the top 32 bits of the normalised divisor, D of the form \<open>v * 2 ^ k\<close>,
  overestimates the quotient by one at most.\<close>

lemma estimate:
  fixes n d D :: nat
  assumes n: "n < 2 ^ 64" and k: "1 \<le> k" and D: "2 ^ (31 + k) \<le> D"
    and le: "D \<le> d" and close: "d < D + 2 ^ k"
  shows "n div d \<le> n div D" and "n div D \<le> n div d + 1"
proof -
  have pos: "0 < D" using D by (meson less_le_trans zero_less_numeral zero_less_power)
  show "n div d \<le> n div D" using le pos by (rule div_le_mono2 [rotated])
  have "n * (d - D) < d * D"
  proof -
    have a: "d - D \<le> 2 ^ k - 1" using close by linarith
    have b: "(2::nat) ^ k - 1 \<le> 2 ^ (2 * k - 2)"
    proof (cases "k = 1")
      case False
      then have "(2::nat) ^ k \<le> 2 ^ (2 * k - 2)" using k by (intro power_increasing) auto
      then show ?thesis by linarith
    qed simp
    have "n * (d - D) \<le> n * 2 ^ (2 * k - 2)" using a b by (intro mult_left_mono) auto
    also have "\<dots> < 2 ^ 64 * 2 ^ (2 * k - 2)" using n by simp
    also have "\<dots> = 2 ^ (31 + k) * 2 ^ (31 + k)"
    proof -
      have "64 + (2 * k - 2) = (31 + k) + (31 + k)" using k by simp
      then show ?thesis by (metis power_add)
    qed
    also have "\<dots> \<le> d * D" using D le by (intro mult_mono) auto
    finally show ?thesis .
  qed
  then have lt: "n * d < (n + d) * D"
  proof -
    assume "n * (d - D) < d * D"
    moreover have "n * d = n * D + n * (d - D)" using le by (simp flip: distrib_left)
    ultimately show ?thesis by (simp add: distrib_right)
  qed
  have "(n div D) * D * d \<le> n * d" by (intro mult_right_mono) auto
  also have "\<dots> < (n + d) * D" by (rule lt)
  finally have "(n div D) * d < n + d" using pos by (simp add: ac_simps)
  moreover have "n < n div d * d + d"
    using mod_less_divisor [of d n] div_mult_mod_eq [of n d] pos le by linarith
  ultimately have "n div D * d < (n div d + 2) * d" by (simp add: distrib_right)
  then have "n div D < n div d + 2" by (rule mult_less_cancel2 [THEN iffD1, THEN conjunct2])
  then show "n div D \<le> n div d + 1" by simp
qed

lemma unat_top: "unat (ucast (drop_bit 32 (x :: 64 word)) :: 32 word) = unat x div 2 ^ 32"
proof -
  have "unat x div 2 ^ 32 < 2 ^ 32" using unat_lt64 [of x] by (simp add: less_mult_imp_div_less)
  then show ?thesis by (simp add: unat_down unat_drop)
qed

lemma udiv64_small:
  assumes d: "0 < unat d" and top: "drop_bit 32 d = 0"
  shows "udiv64 n d = Some (n div d)"
proof -
  let ?b = "2 ^ 32 :: nat"
  define n1 where "n1 = (ucast (drop_bit 32 n) :: 32 word)"
  define n0 where "n0 = (ucast n :: 32 word)"
  define d0 where "d0 = (ucast d :: 32 word)"
  have un1: "unat n1 = unat n div ?b" by (simp add: n1_def unat_top)
  have un0: "unat n0 = unat n mod ?b" by (simp add: n0_def unat_down)
  have "unat d div ?b = 0" using arg_cong [OF top, of unat] by (simp add: unat_drop)
  then have ud0: "unat d0 = unat d" by (simp add: d0_def unat_down div_eq_0_iff)
  have r: "unat n1 mod unat d0 < unat d0" using d ud0 by simp
  have rb: "unat n1 mod unat d0 * ?b + unat n0 < unat d0 * ?b"
  proof -
    have "unat n1 mod unat d0 * ?b + unat n0 < (unat n1 mod unat d0 + 1) * ?b"
      using unat_lt32 [of n0] by simp
    also have "\<dots> \<le> unat d0 * ?b" using r by (intro mult_right_mono) auto
    finally show ?thesis .
  qed
  have d64: "unat d0 * ?b < 2 ^ 64" using unat_lt32 [of d0] by simp
  define m where "m = push_bit 32 1 * ucast (n1 mod d0) + (ucast n0 :: 64 word)"
  have um: "unat m = unat n1 mod unat d0 * ?b + unat n0"
  proof -
    have "unat m = (?b * (unat n1 mod unat d0) + unat n0) mod 2 ^ 64"
      using less_trans [OF r unat_lt32 [of d0]]
      unfolding m_def by (simp add: unat_word_ariths unat_mod unat_up mod_simps)
    then show ?thesis using rb d64 by (simp add: mult.commute)
  qed
  obtain q where q: "divl m d0 = Some q" "unat q = unat m div unat d0"
    using divl_ok [of d0 m] d ud0 rb um by auto
  define res where "res = ucast q + push_bit 32 1 * (ucast (n1 div d0) :: 64 word)"
  have split_n: "unat n = unat n1 * ?b + unat n0" using un1 un0 by simp
  have quot: "unat n div unat d0 = unat m div unat d0 + unat n1 div unat d0 * ?b"
  proof -
    have "unat n = unat m + (unat n1 div unat d0 * ?b) * unat d0"
    proof -
      have "unat n1 * ?b = (unat n1 div unat d0 * unat d0 + unat n1 mod unat d0) * ?b"
        by (simp only: div_mult_mod_eq)
      then have "unat n1 * ?b = unat n1 mod unat d0 * ?b + (unat n1 div unat d0 * ?b) * unat d0"
        by (simp only: distrib_right add.commute mult.assoc mult.commute [of "unat d0"])
      then show ?thesis using split_n um by linarith
    qed
    then show ?thesis using d ud0 by simp
  qed
  have "unat res = (unat q + ?b * (unat n1 div unat d0)) mod 2 ^ 64"
    using le_less_trans [OF div_le_dividend unat_lt32 [of n1], of "unat d0"]
    unfolding res_def by (simp add: unat_word_ariths unat_div unat_up mod_simps)
  also have "unat q + ?b * (unat n1 div unat d0) = unat n div unat d0"
    using quot q(2) by (simp add: mult.commute)
  also have "unat n div unat d0 mod 2 ^ 64 = unat n div unat d0"
    using unat_lt64 [of n] div_le_dividend [of "unat n" "unat d0"] by (intro mod_less) linarith
  finally have "res = n div d" by (simp add: ud0 unat_div word_unat_eq_iff)
  moreover have "udiv64 n d = Some res"
    using top q(1) d ud0 unfolding udiv64_def Let_def res_def m_def n1_def n0_def d0_def by auto
  ultimately show ?thesis by simp
qed

lemma udiv64_large:
  assumes top: "drop_bit 32 d \<noteq> 0" and ge: "d \<le> n"
  shows "udiv64 n d = Some (n div d)"
proof -
  let ?n = "unat n" and ?d = "unat d"
  define d1 where "d1 = (ucast (drop_bit 32 d) :: 32 word)"
  define s where "s = nlz d1"
  define k where "k = 32 - s"
  have ud1: "unat d1 = ?d div 2 ^ 32" by (simp add: d1_def unat_top)
  have d1pos: "0 < unat d1"
    using top by (metis ud1 gr0I unat_drop unat_eq_zero)
  note nl = nlz_ok [OF d1pos, folded s_def]
  have k: "1 \<le> k" "k \<le> 32" "s + k = 32" using nl(3) by (auto simp: k_def)
  have shift_fit: "?d * 2 ^ s < 2 ^ 64"
  proof -
    have "?d < (unat d1 + 1) * 2 ^ 32" using ud1 dividend_less_times_div [of "2 ^ 32" ?d] by simp
    then have "?d * 2 ^ s < (unat d1 + 1) * 2 ^ 32 * 2 ^ s" by simp
    also have "\<dots> = (unat d1 * 2 ^ s + 2 ^ s) * 2 ^ 32" by (simp add: distrib_right)
    also have "\<dots> \<le> 2 ^ 32 * 2 ^ 32"
    proof -
      have "unat d1 * 2 ^ s + 2 ^ s \<le> 2 ^ 32"
      proof -
        obtain c where c: "(2::nat) ^ 32 = 2 ^ s * c" using k(3) power_add [of "2::nat" s k] by metis
        have "unat d1 * 2 ^ s < c * 2 ^ s" using nl(2) c by (simp add: mult.commute)
        then have "unat d1 < c" by (rule mult_less_cancel2 [THEN iffD1, THEN conjunct2])
        then have "(unat d1 + 1) * 2 ^ s \<le> c * 2 ^ s" by (intro mult_right_mono) auto
        then show ?thesis using c by (simp add: distrib_right mult.commute)
      qed
      then show ?thesis by (intro mult_right_mono) auto
    qed
    finally show ?thesis by simp
  qed
  define v where "v = (ucast (drop_bit 32 (push_bit s d)) :: 32 word)"
  have uv: "unat v = ?d div 2 ^ k"
  proof -
    have "unat v = ?d * 2 ^ s div 2 ^ 32"
      unfolding v_def unat_top using shift_fit by (subst unat_push) auto
    also have "(2::nat) ^ 32 = 2 ^ k * 2 ^ s" using k(3) by (simp add: add.commute flip: power_add)
    finally show ?thesis by simp
  qed
  have dbig: "2 ^ (31 + k) \<le> ?d"
  proof -
    have "2 ^ 31 * 2 ^ 32 \<le> unat d1 * 2 ^ s * 2 ^ 32" using nl(1) by (intro mult_right_mono) auto
    also have "\<dots> \<le> ?d * 2 ^ s" using ud1 by (simp add: mult.commute mult.left_commute)
    finally have "2 ^ (31 + 32) \<le> ?d * 2 ^ s" by (simp flip: power_add)
    also have "31 + 32 = (31 + k) + s" using k(3) by simp
    finally have "2 ^ (31 + k) * 2 ^ s \<le> ?d * 2 ^ s" by (simp only: power_add)
    then show ?thesis by simp
  qed
  have vbig: "2 ^ 31 \<le> unat v"
  proof -
    have "2 ^ (31 + k) div 2 ^ k \<le> ?d div 2 ^ k" using dbig by (rule div_le_mono)
    then show ?thesis by (simp add: uv power_add)
  qed
  have "unat (drop_bit 1 n) < unat v * 2 ^ 32"
  proof -
    have "unat (drop_bit 1 n) < 2 ^ 31 * 2 ^ 32" using unat_lt64 [of n] by (simp add: unat_drop)
    also have "\<dots> \<le> unat v * 2 ^ 32" using vbig by (intro mult_right_mono) auto
    finally show ?thesis .
  qed
  then obtain q32 where q32: "divl (drop_bit 1 n) v = Some q32" "unat q32 = ?n div 2 div unat v"
    using divl_ok [of v "drop_bit 1 n"] vbig by (auto simp: unat_drop)
  define q where "q = (ucast (drop_bit (31 - s) q32) :: 64 word)"
  define D where "D = unat v * 2 ^ k"
  have uq: "unat q = ?n div D"
  proof -
    have "unat q = ?n div 2 div unat v div 2 ^ (31 - s)"
      by (simp add: q_def unat_up unat_drop q32(2))
    also have "\<dots> = ?n div (unat v * (2 * 2 ^ (31 - s)))"
      by (simp add: div_mult2_eq [symmetric] ac_simps)
    also have "(2::nat) * 2 ^ (31 - s) = 2 ^ k"
      using nl(3) by (simp add: k_def Suc_diff_le flip: power_Suc)
    finally show ?thesis by (simp add: D_def)
  qed
  have Dle: "D \<le> ?d" and Dclose: "?d < D + 2 ^ k"
    using div_mult_mod_eq [of ?d "2 ^ k"] mod_less_divisor [of "2 ^ k" ?d, OF zero_less_power [OF zero_less_numeral]]
    unfolding D_def uv by linarith+
  have Dbig: "2 ^ (31 + k) \<le> D" using vbig by (simp add: D_def power_add)
  note est = estimate [OF unat_lt64 [of n] k(1) Dbig Dle Dclose]
  have dpos: "0 < ?d" using dbig by (meson less_le_trans zero_less_numeral zero_less_power)
  have Qpos: "1 \<le> ?n div ?d" using ge dpos by (simp add: word_le_nat_alt div_greater_zero_iff Suc_le_eq)
  have qpos: "1 \<le> unat q" using Qpos est(1) uq by simp
  have prod_le: "(unat q - 1) * ?d \<le> ?n"
    using est(2) uq by (metis div_mult_mod_eq le_add1 le_diff_conv mult_le_mono1 order_trans)
  have uq1: "unat (q - 1) = unat q - 1" using qpos by (subst unat_sub) (auto simp: word_le_nat_alt)
  have rem: "unat (n - (q - 1) * d) = ?n - (unat q - 1) * ?d"
  proof -
    have "unat ((q - 1) * d) = (unat q - 1) * ?d"
      using prod_le unat_lt64 [of n] by (subst unat_mult_lem [THEN iffD1]) (auto simp: uq1)
    with prod_le show ?thesis by (subst unat_sub) (auto simp: word_le_nat_alt)
  qed
  have "(if n - (q - 1) * d < d then q - 1 else q) = n div d"
  proof (cases "unat q = ?n div ?d")
    case True
    have "(unat q - 1) * ?d = ?n div ?d * ?d - ?d" and "?d \<le> ?n div ?d * ?d"
      using True qpos by (simp_all add: diff_mult_distrib)
    then have "?d \<le> ?n - (unat q - 1) * ?d"
      using div_times_less_eq_dividend [of ?n ?d] by linarith
    then show ?thesis using True rem by (simp add: word_less_nat_alt word_unat_eq_iff unat_div)
  next
    case False
    then have q1: "unat q - 1 = ?n div ?d" using est uq by simp
    have "?n - ?n div ?d * ?d < ?d" using dpos by (simp add: minus_div_mult_eq_mod)
    then show ?thesis using q1 rem uq1 by (simp add: word_less_nat_alt word_unat_eq_iff unat_div)
  qed
  then show ?thesis
    using top q32(1) linorder_not_less [THEN iffD2, OF ge]
    unfolding udiv64_def Let_def q_def v_def s_def d1_def by simp
qed

lemma udiv64_ok: "d \<noteq> 0 \<Longrightarrow> udiv64 n d = Some (n div d)"
proof -
  assume d: "d \<noteq> 0"
  consider "drop_bit 32 d = 0" | "drop_bit 32 d \<noteq> 0" "d \<le> n" | "drop_bit 32 d \<noteq> 0" "n < d"
    by force
  then show ?thesis
  proof cases
    case 1
    with d show ?thesis by (intro udiv64_small) (auto simp: unat_gt_0)
  next
    case 2
    then show ?thesis by (rule udiv64_large)
  next
    case 3
    have "n div d = 0" using 3(2) by (simp add: word_unat_eq_iff unat_div word_less_nat_alt)
    with 3 show ?thesis by (simp add: udiv64_def)
  qed
qed

section \<open>Signed division\<close>

lemma udiv64_zero: "udiv64 n 0 = None"
  by (simp add: udiv64_def Let_def)

lemma sint_bounds64: "- (2 ^ 63) \<le> sint (x :: 64 word)" "sint (x :: 64 word) < 2 ^ 63"
  using sint_ge [of x] sint_lt [of x] by simp_all

lemma abs_word: "uint (if 0 \<le>s x then x else - x) = \<bar>sint (x :: 64 word)\<bar>"
proof (cases "0 \<le>s x")
  case True
  then have nn: "0 \<le> sint x" by (simp add: word_sle_eq)
  have "uint x = sint x mod 2 ^ 64" by (simp add: uint_sint take_bit_eq_mod)
  also have "\<dots> = sint x" using nn sint_bounds64 [of x] by simp
  finally show ?thesis using True nn by simp
next
  case False
  then have neg: "sint x < 0" by (simp add: word_sle_eq)
  have "uint (- x) = uint (word_of_int (- sint x) :: 64 word)" by simp
  also have "\<dots> = (- sint x) mod 2 ^ 64" unfolding uint_word_of_int by simp
  also have "\<dots> = - sint x" using neg sint_bounds64 [of x] by simp
  finally show ?thesis using False neg by simp
qed

lemma sdiv64_ok: "d \<noteq> 0 \<Longrightarrow> sdiv64 n d = Some (word_of_int (sint n sdiv sint d))"
proof -
  assume d: "d \<noteq> 0"
  let ?na = "if 0 \<le>s n then n else - n" and ?da = "if 0 \<le>s d then d else - d"
  have "?da \<noteq> 0" using d by simp
  then have q: "udiv64 ?na ?da = Some (?na div ?da)" by (rule udiv64_ok)
  have quot: "?na div ?da = word_of_int (\<bar>sint n\<bar> div \<bar>sint d\<bar>)"
    unfolding word_div_def abs_word ..
  have neg: "x <s 0 \<longleftrightarrow> sint x < 0" for x :: "64 word" by (simp add: word_sless_alt)
  have d0: "sint d \<noteq> 0" using d by (simp add: signed_eq_0_iff)
  show ?thesis
  proof (cases "sint n = 0")
    case True
    then show ?thesis
      unfolding sdiv64_def Let_def q quot neg by (simp add: signed_divide_int_def)
  next
    case False
    with d0 show ?thesis
      unfolding sdiv64_def Let_def q quot neg by (auto simp: signed_divide_int_def sgn_if)
  qed
qed

lemma sdiv_range: "d \<noteq> 0 \<Longrightarrow> \<bar>n\<bar> \<le> 2 ^ 63 \<Longrightarrow> \<not> (n = - (2 ^ 63) \<and> d = - 1) \<Longrightarrow> n < 2 ^ 63
    \<Longrightarrow> - (2 ^ 63) \<le> n sdiv d \<and> n sdiv d < (2 ^ 63 :: int)"
proof -
  assume d: "d \<noteq> 0" and n: "\<bar>n\<bar> \<le> 2 ^ 63" "n < 2 ^ 63" and ov: "\<not> (n = - (2 ^ 63) \<and> d = - 1)"
  have abs: "\<bar>n sdiv d\<bar> = (if n = 0 then 0 else \<bar>n\<bar> div \<bar>d\<bar>)"
    using d pos_imp_zdiv_nonneg_iff [of "\<bar>d\<bar>" "\<bar>n\<bar>"]
    by (simp add: signed_divide_int_def abs_mult abs_sgn_eq)
  consider "d = 1" | "d = - 1" | "2 \<le> \<bar>d\<bar>" using d by linarith
  then show ?thesis
  proof cases
    case 1
    then have "n sdiv d = n" by (simp add: signed_divide_int_def sgn_mult_abs)
    then show ?thesis using n by linarith
  next
    case 2
    then have "n sdiv d = - n" by (simp add: signed_divide_int_def sgn_mult_abs)
    then show ?thesis using n ov 2 by linarith
  next
    case 3
    have "\<bar>n\<bar> div \<bar>d\<bar> \<le> \<bar>n\<bar> div 2" using 3 by (intro zdiv_mono2) auto
    also have "\<dots> \<le> 2 ^ 63 div 2" using n(1) by (intro zdiv_mono1) auto
    finally have "\<bar>n sdiv d\<bar> \<le> 2 ^ 62" using abs by simp
    then show ?thesis by (simp add: abs_le_iff)
  qed
qed

lemma sint_scast_up: "sint (scast (w :: 32 word) :: 64 word) = sint w"
  by (rule sint_up_scast) (simp add: is_up)

lemma sint_ucast_down: "sint (ucast (w :: 64 word) :: 32 word) = signed_take_bit 31 (uint w)"
  using signed_ucast_eq [of w, where 'c = 32] by simp

lemma smod64_ok: "d \<noteq> 0 \<Longrightarrow> smod64 n d = Some (ucast (word_of_int (sint n smod sint d) :: 64 word))"
proof -
  assume d: "d \<noteq> 0"
  have "n - d * word_of_int (sint n sdiv sint d) = word_of_int (sint n - sint d * (sint n sdiv sint d))"
    by simp
  then show ?thesis using d by (simp add: smod64_def sdiv64_ok minus_mult_sdiv_eq_smod)
qed

section \<open>Properties\<close>

text \<open>C20: the unsigned 64-bit division of the kernel is division for every divisor but 0:
  neither branch traps, the estimate of the long branch is corrected exactly, and the
  remainder routine returns the low 32 bits of the remainder only.\<close>

theorem udiv64_correct:
  assumes "d \<noteq> 0"
  shows "udivdi3 n d = Some (n div d) \<and> umoddi3 n d = Some (take_bit 32 (n mod d))"
proof -
  have "n - d * (n div d) = n mod d" by (simp add: minus_mult_div_eq_mod)
  with assms show ?thesis
    by (simp add: udivdi3_def umoddi3_def umod64_def udiv64_ok)
      (rule bit_word_eqI, simp add: bit_simps)
qed

theorem udiv64_correct_witness:
  "udivdi3 18446744073709551615 4294967297 = Some 4294967295
     \<and> umoddi3 (2 ^ 40 + 2 ^ 33 + 5) (2 ^ 40) = Some 5"
  using udiv64_correct [of 4294967297 18446744073709551615] udiv64_correct [of "2 ^ 40" "2 ^ 40 + 2 ^ 33 + 5"]
  by simp

text \<open>Signed 64-bit division truncates towards zero, wraps only for the smallest number
  divided by -1, and the remainder is exact when it fits 32 bits, and is not otherwise.\<close>

theorem sdiv64_correct:
  assumes "d \<noteq> 0"
  shows "\<exists>q r. divdi3 n d = Some q \<and> moddi3 n d = Some r
    \<and> sint q = (if sint n = - (2 ^ 63) \<and> sint d = - 1 then - (2 ^ 63) else sint n sdiv sint d)
    \<and> sint r = signed_take_bit 31 (sint n smod sint d)"
proof -
  let ?q = "sint n sdiv sint d" and ?m = "sint n smod sint d"
  have q: "sint (word_of_int ?q :: 64 word) = signed_take_bit 63 ?q" by (simp add: sint_sbintrunc')
  have s: "signed_take_bit 63 ?q = (if sint n = - (2 ^ 63) \<and> sint d = - 1 then - (2 ^ 63) else ?q)"
  proof (cases "sint n = - (2 ^ 63) \<and> sint d = - 1")
    case True
    then have "?q = 2 ^ 63" by (simp add: signed_divide_int_def)
    with True show ?thesis by simp
  next
    case False
    have "sint d \<noteq> 0" using assms by (simp add: signed_eq_0_iff)
    from sdiv_range [OF this _ False] sint_bounds64 [of n] have "- (2 ^ 63) \<le> ?q \<and> ?q < 2 ^ 63"
      by (simp add: abs_le_iff)
    with False show ?thesis by (simp add: signed_take_bit_int_eq_self)
  qed
  have r: "sint (scast (ucast (word_of_int ?m :: 64 word) :: 32 word) :: 64 word) = signed_take_bit 31 ?m"
    unfolding sint_scast_up sint_ucast_down uint_word_of_int take_bit_eq_mod [symmetric]
    by (simp add: signed_take_bit_take_bit)
  show ?thesis
    using assms r q s by (simp add: divdi3_def moddi3_def sdiv64_ok smod64_ok)
qed

theorem sdiv64_correct_witness:
  "\<exists>q r. divdi3 (- 7) 2 = Some q \<and> moddi3 (- 7) 2 = Some r \<and> sint q = - 3 \<and> sint r = - 1"
  using sdiv64_correct [of 2 "- 7"] by (simp add: signed_divide_int_def signed_modulo_int_def)

end
