(* ===== verification/Bitmap.thy ===== *)
theory Bitmap
  imports Prelude
begin

unbundle bit_operations_syntax

text \<open>
  The bitmaps of lib/kernel/bitmap.c: an array of 32-bit elements that simulates an array
  of bits.  A size_t is a number below 2 ^ 32 and sums of two of them wrap.  A failing
  ASSERT and an access outside the array are None.  The abstract view of a bitmap is the
  predicate \<open>bbit b\<close> on bit numbers; every operation is characterised by it.
\<close>

section \<open>Representation\<close>

record bitmap =
  bit_cnt :: nat
  bits :: "32 word list"

definition ELEM_BITS :: nat where "ELEM_BITS = 32"

definition BITMAP_ERROR :: nat where "BITMAP_ERROR = 2 ^ 32 - 1"

definition size_add :: "nat \<Rightarrow> nat \<Rightarrow> nat" where
  "size_add a b = (a + b) mod 2 ^ 32"

definition elem_idx :: "nat \<Rightarrow> nat" where
  "elem_idx bit_idx = bit_idx div ELEM_BITS"

definition bit_mask :: "nat \<Rightarrow> 32 word" where
  "bit_mask bit_idx = push_bit (bit_idx mod ELEM_BITS) 1"

definition elem_cnt :: "nat \<Rightarrow> nat" where
  "elem_cnt n = size_add n (ELEM_BITS - 1) div ELEM_BITS"

definition byte_cnt :: "nat \<Rightarrow> nat" where
  "byte_cnt n = 4 * elem_cnt n"

definition last_mask :: "bitmap \<Rightarrow> 32 word" where
  "last_mask b =
     (let last_bits = bit_cnt b mod ELEM_BITS
      in if last_bits \<noteq> 0 then push_bit last_bits 1 - 1 else - 1)"

section \<open>Single bits\<close>

definition upd_elem :: "nat \<Rightarrow> (32 word \<Rightarrow> 32 word) \<Rightarrow> bitmap \<Rightarrow> bitmap option" where
  "upd_elem idx f b =
     (if idx < length (bits b) then Some (b\<lparr>bits := (bits b)[idx := f (bits b ! idx)]\<rparr>) else None)"

definition bitmap_mark :: "bitmap \<Rightarrow> nat \<Rightarrow> bitmap option" where
  "bitmap_mark b bit_idx = upd_elem (elem_idx bit_idx) (\<lambda>e. e OR bit_mask bit_idx) b"

definition bitmap_reset :: "bitmap \<Rightarrow> nat \<Rightarrow> bitmap option" where
  "bitmap_reset b bit_idx = upd_elem (elem_idx bit_idx) (\<lambda>e. e AND NOT (bit_mask bit_idx)) b"

definition bitmap_flip :: "bitmap \<Rightarrow> nat \<Rightarrow> bitmap option" where
  "bitmap_flip b bit_idx = upd_elem (elem_idx bit_idx) (\<lambda>e. e XOR bit_mask bit_idx) b"

definition bitmap_size :: "bitmap \<Rightarrow> nat" where
  "bitmap_size b = bit_cnt b"

definition bitmap_set :: "bitmap \<Rightarrow> nat \<Rightarrow> bool \<Rightarrow> bitmap option" where
  "bitmap_set b idx value = do {
     ASSERT (idx < bit_cnt b);
     (if value then bitmap_mark b idx else bitmap_reset b idx)
   }"

definition bitmap_test :: "bitmap \<Rightarrow> nat \<Rightarrow> bool option" where
  "bitmap_test b idx = do {
     ASSERT (idx < bit_cnt b);
     ASSERT (elem_idx idx < length (bits b));
     Some (bits b ! elem_idx idx AND bit_mask idx \<noteq> 0)
   }"

section \<open>Multiple bits\<close>

text \<open>The loops run i from a start value for a number of iterations.\<close>

fun set_multiple_loop :: "nat \<Rightarrow> bool \<Rightarrow> nat \<Rightarrow> nat \<Rightarrow> bitmap \<Rightarrow> bitmap option" where
  "set_multiple_loop start value i 0 b = Some b"
| "set_multiple_loop start value i (Suc n) b = do {
     b \<leftarrow> bitmap_set b (size_add start i) value;
     set_multiple_loop start value (i + 1) n b
   }"

definition bitmap_set_multiple :: "bitmap \<Rightarrow> nat \<Rightarrow> nat \<Rightarrow> bool \<Rightarrow> bitmap option" where
  "bitmap_set_multiple b start cnt value = do {
     ASSERT (start \<le> bit_cnt b);
     ASSERT (size_add start cnt \<le> bit_cnt b);
     set_multiple_loop start value 0 cnt b
   }"

definition bitmap_set_all :: "bitmap \<Rightarrow> bool \<Rightarrow> bitmap option" where
  "bitmap_set_all b value = bitmap_set_multiple b 0 (bitmap_size b) value"

fun count_loop :: "bitmap \<Rightarrow> nat \<Rightarrow> bool \<Rightarrow> nat \<Rightarrow> nat \<Rightarrow> nat \<Rightarrow> nat option" where
  "count_loop b start value i 0 value_cnt = Some value_cnt"
| "count_loop b start value i (Suc n) value_cnt = do {
     t \<leftarrow> bitmap_test b (size_add start i);
     count_loop b start value (i + 1) n (if t = value then value_cnt + 1 else value_cnt)
   }"

definition bitmap_count :: "bitmap \<Rightarrow> nat \<Rightarrow> nat \<Rightarrow> bool \<Rightarrow> nat option" where
  "bitmap_count b start cnt value = do {
     ASSERT (start \<le> bit_cnt b);
     ASSERT (size_add start cnt \<le> bit_cnt b);
     count_loop b start value 0 cnt 0
   }"

fun contains_loop :: "bitmap \<Rightarrow> nat \<Rightarrow> bool \<Rightarrow> nat \<Rightarrow> nat \<Rightarrow> bool option" where
  "contains_loop b start value i 0 = Some False"
| "contains_loop b start value i (Suc n) = do {
     t \<leftarrow> bitmap_test b (size_add start i);
     (if t = value then Some True else contains_loop b start value (i + 1) n)
   }"

definition bitmap_contains :: "bitmap \<Rightarrow> nat \<Rightarrow> nat \<Rightarrow> bool \<Rightarrow> bool option" where
  "bitmap_contains b start cnt value = do {
     ASSERT (start \<le> bit_cnt b);
     ASSERT (size_add start cnt \<le> bit_cnt b);
     contains_loop b start value 0 cnt
   }"

definition bitmap_any :: "bitmap \<Rightarrow> nat \<Rightarrow> nat \<Rightarrow> bool option" where
  "bitmap_any b start cnt = bitmap_contains b start cnt True"

definition bitmap_none :: "bitmap \<Rightarrow> nat \<Rightarrow> nat \<Rightarrow> bool option" where
  "bitmap_none b start cnt = map_option Not (bitmap_contains b start cnt True)"

definition bitmap_all :: "bitmap \<Rightarrow> nat \<Rightarrow> nat \<Rightarrow> bool option" where
  "bitmap_all b start cnt = map_option Not (bitmap_contains b start cnt False)"

fun scan_loop :: "bitmap \<Rightarrow> nat \<Rightarrow> bool \<Rightarrow> nat \<Rightarrow> nat \<Rightarrow> nat option" where
  "scan_loop b cnt value i 0 = Some BITMAP_ERROR"
| "scan_loop b cnt value i (Suc n) = do {
     c \<leftarrow> bitmap_contains b i cnt (\<not> value);
     (if \<not> c then Some i else scan_loop b cnt value (i + 1) n)
   }"

text \<open>The loop runs from start to bit_cnt - cnt, both inclusive.\<close>

definition bitmap_scan :: "bitmap \<Rightarrow> nat \<Rightarrow> nat \<Rightarrow> bool \<Rightarrow> nat option" where
  "bitmap_scan b start cnt value = do {
     ASSERT (start \<le> bit_cnt b);
     (if cnt \<le> bit_cnt b then scan_loop b cnt value start (bit_cnt b - cnt + 1 - start)
      else Some BITMAP_ERROR)
   }"

definition bitmap_scan_and_flip :: "bitmap \<Rightarrow> nat \<Rightarrow> nat \<Rightarrow> bool \<Rightarrow> (nat \<times> bitmap) option" where
  "bitmap_scan_and_flip b start cnt value = do {
     idx \<leftarrow> bitmap_scan b start cnt value;
     (if idx \<noteq> BITMAP_ERROR then do {
        b \<leftarrow> bitmap_set_multiple b idx cnt (\<not> value);
        Some (idx, b)
      }
      else Some (idx, b))
   }"

section \<open>Creation\<close>

text \<open>The storage is what malloc returned for the structure (whether it did) and for the
  elements (None, or memory of any content); in a buffer, it is the buffer's content.\<close>

definition bitmap_create :: "bool \<Rightarrow> 32 word list option \<Rightarrow> nat \<Rightarrow> bitmap option option" where
  "bitmap_create struct_ok mem n =
     (if \<not> struct_ok then Some None
      else (case mem of
              None \<Rightarrow>
                (if n = 0 then map_option Some (bitmap_set_all \<lparr>bit_cnt = n, bits = []\<rparr> False)
                 else Some None)
            | Some m \<Rightarrow> map_option Some (bitmap_set_all \<lparr>bit_cnt = n, bits = m\<rparr> False)))"

definition bitmap_buf_size :: "nat \<Rightarrow> nat" where
  "bitmap_buf_size n = 8 + byte_cnt n"

definition bitmap_create_in_buf :: "nat \<Rightarrow> 32 word list \<Rightarrow> nat \<Rightarrow> bitmap option" where
  "bitmap_create_in_buf n buf block_size = do {
     ASSERT (block_size \<ge> bitmap_buf_size n);
     bitmap_set_all \<lparr>bit_cnt = n, bits = buf\<rparr> False
   }"

text \<open>The version of the first exercise (prj0_2) that grows a bitmap by a number of bits.\<close>

fun expand_loop :: "bitmap \<Rightarrow> nat \<Rightarrow> nat \<Rightarrow> bitmap \<Rightarrow> bitmap option" where
  "expand_loop old i 0 new_b = Some new_b"
| "expand_loop old i (Suc n) new_b = do {
     t \<leftarrow> bitmap_test old i;
     new_b \<leftarrow> bitmap_set new_b i t;
     expand_loop old (i + 1) n new_b
   }"

text \<open>A failed allocation is not checked: bitmap_set on the null pointer fails its ASSERT,
  and an empty bitmap has no bit to set.\<close>

definition bitmap_expand :: "bool \<Rightarrow> 32 word list option \<Rightarrow> bitmap \<Rightarrow> nat \<Rightarrow> bitmap option option" where
  "bitmap_expand struct_ok mem b n = do {
     r \<leftarrow> bitmap_create struct_ok mem (size_add (bitmap_size b) n);
     (case r of
        None \<Rightarrow> (if bitmap_size b = 0 then Some None else None)
      | Some new_b \<Rightarrow> map_option Some (expand_loop b 0 (bitmap_size b) new_b))
   }"

section \<open>The bits of a bitmap\<close>

text \<open>A bitmap is in order when its elements cover its bits and the sizes fit a size_t.\<close>

definition bok :: "bitmap \<Rightarrow> bool" where
  "bok b \<longleftrightarrow> bit_cnt b \<le> ELEM_BITS * length (bits b) \<and> bit_cnt b < 2 ^ 32"

definition bbit :: "bitmap \<Rightarrow> nat \<Rightarrow> bool" where
  "bbit b i = bit (bits b ! elem_idx i) (i mod ELEM_BITS)"

text \<open>\<open>bupd S v b b'\<close>: b' is b with the bits of S set to v.\<close>

definition bupd :: "nat set \<Rightarrow> bool \<Rightarrow> bitmap \<Rightarrow> bitmap \<Rightarrow> bool" where
  "bupd S v b b' \<longleftrightarrow> bok b' \<and> bit_cnt b' = bit_cnt b \<and> length (bits b') = length (bits b)
     \<and> (\<forall>j. bbit b' j = (if j \<in> S then v else bbit b j))"

lemma bok_idx: "bok b \<Longrightarrow> i < bit_cnt b \<Longrightarrow> elem_idx i < length (bits b)"
  unfolding bok_def elem_idx_def ELEM_BITS_def
  by (metis less_le_trans less_mult_imp_div_less mult.commute)

lemma size_add_id: "bok b \<Longrightarrow> s + i \<le> bit_cnt b \<Longrightarrow> size_add s i = s + i"
  by (simp add: size_add_def bok_def)

lemma bit_mask_bit: "j < 32 \<Longrightarrow> bit (bit_mask i) j \<longleftrightarrow> j = i mod ELEM_BITS"
  by (auto simp: bit_mask_def bit_simps ELEM_BITS_def bit_push_bit_iff bit_1_iff)

lemma mask_and_nonzero: "(w AND bit_mask i \<noteq> 0) = bit w (i mod ELEM_BITS)"
proof -
  have lt: "i mod ELEM_BITS < 32" by (simp add: ELEM_BITS_def)
  have "(w AND bit_mask i \<noteq> 0) = (\<exists>n < 32. bit w n \<and> bit (bit_mask i) n)"
    by (auto simp: bit_eq_iff bit_and_iff possible_bit_word)
  also have "\<dots> = bit w (i mod ELEM_BITS)" using lt by (auto simp: bit_mask_bit)
  finally show ?thesis .
qed

lemma elem_idx_eq: "elem_idx j = elem_idx i \<Longrightarrow> j mod ELEM_BITS = i mod ELEM_BITS \<Longrightarrow> j = i"
  unfolding elem_idx_def by (metis div_mult_mod_eq)

lemma bbit_upd_elem:
  assumes u: "upd_elem (elem_idx i) f b = Some b'" and ok: "bok b"
    and f: "\<And>w k. k < 32 \<Longrightarrow> bit (f w) k = (if k = i mod ELEM_BITS then v else bit w k)"
  shows "bupd {i} v b b'"
proof -
  have lt: "elem_idx i < length (bits b)" using u by (simp add: upd_elem_def split: if_splits)
  have b': "b' = b\<lparr>bits := (bits b)[elem_idx i := f (bits b ! elem_idx i)]\<rparr>"
    using u by (simp add: upd_elem_def split: if_splits)
  have "bbit b' j = (if j = i then v else bbit b j)" for j
  proof (cases "elem_idx j = elem_idx i")
    case True
    have "j mod ELEM_BITS < 32" by (simp add: ELEM_BITS_def)
    with True lt elem_idx_eq [OF True] show ?thesis by (auto simp: bbit_def b' f)
  next
    case False
    then show ?thesis by (auto simp: bbit_def b' nth_list_update_neq)
  qed
  with ok show ?thesis by (simp add: bupd_def bok_def b')
qed

lemma upd_elem_defined: "bok b \<Longrightarrow> i < bit_cnt b \<Longrightarrow> \<exists>b'. upd_elem (elem_idx i) f b = Some b'"
  by (simp add: upd_elem_def bok_idx)

lemma bitmap_mark_bupd: "bok b \<Longrightarrow> bitmap_mark b i = Some b' \<Longrightarrow> bupd {i} True b b'"
  unfolding bitmap_mark_def
  by (erule bbit_upd_elem) (auto simp: bit_or_iff bit_mask_bit)

lemma bitmap_reset_bupd: "bok b \<Longrightarrow> bitmap_reset b i = Some b' \<Longrightarrow> bupd {i} False b b'"
  unfolding bitmap_reset_def
  by (erule bbit_upd_elem) (auto simp: bit_and_iff bit_not_iff bit_mask_bit possible_bit_word)

lemma bitmap_flip_bupd: "bok b \<Longrightarrow> bitmap_flip b i = Some b' \<Longrightarrow> bupd {i} (\<not> bbit b i) b b'"
proof -
  assume ok: "bok b" and f: "bitmap_flip b i = Some b'"
  let ?w = "bits b ! elem_idx i"
  let ?v = "\<not> bbit b i"
  have "upd_elem (elem_idx i) (\<lambda>_. ?w XOR bit_mask i) b = Some b'"
    using f by (simp add: bitmap_flip_def upd_elem_def)
  then have "upd_elem (elem_idx i)
      (\<lambda>w. if w = ?w then ?w XOR bit_mask i
           else if ?v then w OR bit_mask i else w AND NOT (bit_mask i)) b = Some b'"
    by (simp add: upd_elem_def split: if_splits)
  then show ?thesis
    using ok
    by (rule bbit_upd_elem)
      (auto simp: bit_xor_iff bit_or_iff bit_and_iff bit_not_iff bit_mask_bit possible_bit_word bbit_def)
qed

lemma bitmap_set_ok:
  assumes "bok b" and "i < bit_cnt b"
  shows "\<exists>b'. bitmap_set b i v = Some b' \<and> bupd {i} v b b'"
  using assms upd_elem_defined [OF assms]
    bitmap_mark_bupd [OF assms(1), of i] bitmap_reset_bupd [OF assms(1), of i]
  by (cases v) (force simp: bitmap_set_def bitmap_mark_def bitmap_reset_def)+

lemma bitmap_set_out: "\<not> i < bit_cnt b \<Longrightarrow> bitmap_set b i v = None"
  by (simp add: bitmap_set_def)

lemma bitmap_test_ok: "bok b \<Longrightarrow> i < bit_cnt b \<Longrightarrow> bitmap_test b i = Some (bbit b i)"
  by (simp add: bitmap_test_def bok_idx mask_and_nonzero bbit_def)

lemma bupd_refl: "bok b \<Longrightarrow> bupd {} v b b"
  by (simp add: bupd_def)

lemma bupd_trans: "bupd S v b b' \<Longrightarrow> bupd T v b' b'' \<Longrightarrow> bupd (S \<union> T) v b b''"
  by (auto simp: bupd_def)

lemma bupd_bok: "bupd S v b b' \<Longrightarrow> bok b'"
  by (simp add: bupd_def)

lemma bupd_cnt: "bupd S v b b' \<Longrightarrow> bit_cnt b' = bit_cnt b"
  by (simp add: bupd_def)

lemma bupd_bit: "bupd S v b b' \<Longrightarrow> bbit b' j = (if j \<in> S then v else bbit b j)"
  by (simp add: bupd_def)

section \<open>Ranges of bits\<close>

lemma set_multiple_loop_ok:
  "bok b \<Longrightarrow> s + i + n \<le> bit_cnt b
     \<Longrightarrow> \<exists>b'. set_multiple_loop s v i n b = Some b' \<and> bupd {s + i ..< s + i + n} v b b'"
proof (induction n arbitrary: i b)
  case 0
  then show ?case by (simp add: bupd_refl)
next
  case (Suc n)
  have lt: "s + i < bit_cnt b" using Suc.prems by simp
  obtain b1 where b1: "bitmap_set b (s + i) v = Some b1" "bupd {s + i} v b b1"
    using bitmap_set_ok [OF Suc.prems(1) lt] by blast
  have "s + (i + 1) + n \<le> bit_cnt b1" using Suc.prems b1(2) by (simp add: bupd_cnt)
  then obtain b2 where b2: "set_multiple_loop s v (i + 1) n b1 = Some b2"
      "bupd {s + (i + 1) ..< s + (i + 1) + n} v b1 b2"
    using Suc.IH bupd_bok [OF b1(2)] by blast
  have "{s + i} \<union> {s + (i + 1) ..< s + (i + 1) + n} = {s + i ..< s + i + Suc n}" by auto
  with bupd_trans [OF b1(2) b2(2)] have "bupd {s + i ..< s + i + Suc n} v b b2" by simp
  moreover have "set_multiple_loop s v i (Suc n) b = Some b2"
    using b1(1) b2(1) Suc.prems by (simp add: size_add_id)
  ultimately show ?case by blast
qed

lemma bitmap_set_multiple_ok:
  assumes "bok b" and "s + n \<le> bit_cnt b"
  shows "\<exists>b'. bitmap_set_multiple b s n v = Some b' \<and> bupd {s ..< s + n} v b b'"
  using assms set_multiple_loop_ok [of b s 0 n v] by (simp add: bitmap_set_multiple_def size_add_id)

lemma bitmap_set_all_ok:
  "bok b \<Longrightarrow> \<exists>b'. bitmap_set_all b v = Some b' \<and> bupd {0 ..< bit_cnt b} v b b'"
  using bitmap_set_multiple_ok [of b 0 "bit_cnt b" v]
  by (simp add: bitmap_set_all_def bitmap_size_def)

text \<open>The bits of a range that have a value.\<close>

definition bits_with :: "bitmap \<Rightarrow> nat \<Rightarrow> nat \<Rightarrow> bool \<Rightarrow> nat set" where
  "bits_with b s n v = {i \<in> {s ..< s + n}. bbit b i = v}"

lemma bits_with_Suc:
  "bits_with b s (Suc n) v = (if bbit b s = v then {s} else {}) \<union> bits_with b (Suc s) n v"
  by (auto simp: bits_with_def dest: le_SucE le_neq_implies_less)

lemma bits_with_finite [simp]: "finite (bits_with b s n v)"
  by (simp add: bits_with_def)

lemma count_loop_ok:
  "bok b \<Longrightarrow> s + i + n \<le> bit_cnt b
     \<Longrightarrow> count_loop b s v i n c = Some (c + card (bits_with b (s + i) n v))"
proof (induction n arbitrary: i c)
  case 0
  then show ?case by (simp add: bits_with_def)
next
  case (Suc n)
  have "s + i \<notin> bits_with b (Suc (s + i)) n v" by (simp add: bits_with_def)
  with Suc show ?case
    by (simp add: size_add_id bitmap_test_ok bits_with_Suc)
qed

lemma bitmap_count_ok:
  "bok b \<Longrightarrow> s + n \<le> bit_cnt b \<Longrightarrow> bitmap_count b s n v = Some (card (bits_with b s n v))"
  using count_loop_ok [of b s 0 n v 0] by (simp add: bitmap_count_def size_add_id)

lemma contains_loop_ok:
  "bok b \<Longrightarrow> s + i + n \<le> bit_cnt b
     \<Longrightarrow> contains_loop b s v i n = Some (bits_with b (s + i) n v \<noteq> {})"
proof (induction n arbitrary: i)
  case 0
  then show ?case by (simp add: bits_with_def)
next
  case (Suc n)
  then show ?case by (simp add: size_add_id bitmap_test_ok bits_with_Suc)
qed

lemma bitmap_contains_ok:
  "bok b \<Longrightarrow> s + n \<le> bit_cnt b \<Longrightarrow> bitmap_contains b s n v = Some (bits_with b s n v \<noteq> {})"
  using contains_loop_ok [of b s 0 n v] by (simp add: bitmap_contains_def size_add_id)

text \<open>A group of n bits with value v at s, inside the bitmap.\<close>

definition group_at :: "bitmap \<Rightarrow> nat \<Rightarrow> nat \<Rightarrow> bool \<Rightarrow> bool" where
  "group_at b s n v \<longleftrightarrow> s + n \<le> bit_cnt b \<and> (\<forall>i \<in> {s ..< s + n}. bbit b i = v)"

lemma bits_with_group: "s + n \<le> bit_cnt b \<Longrightarrow> bits_with b s n (\<not> v) = {} \<longleftrightarrow> group_at b s n v"
  by (auto simp: bits_with_def group_at_def)

definition scan_result :: "bitmap \<Rightarrow> nat \<Rightarrow> nat \<Rightarrow> bool \<Rightarrow> nat \<Rightarrow> bool" where
  "scan_result b s n v r \<longleftrightarrow>
     (s \<le> r \<and> group_at b r n v \<and> (\<forall>j \<in> {s ..< r}. \<not> group_at b j n v))
     \<or> (r = BITMAP_ERROR \<and> (\<forall>j \<ge> s. \<not> group_at b j n v))"

lemma scan_loop_ok:
  "bok b \<Longrightarrow> i + k \<le> bit_cnt b - n + 1 \<Longrightarrow> i + k = bit_cnt b - n + 1 \<or> k = 0 \<and> i > bit_cnt b - n
     \<Longrightarrow> n \<le> bit_cnt b
     \<Longrightarrow> \<exists>r. scan_loop b n v i k = Some r \<and> scan_result b i n v r"
proof (induction k arbitrary: i)
  case 0
  then have "\<forall>j \<ge> i. \<not> group_at b j n v" by (auto simp: group_at_def)
  then show ?case by (simp add: scan_result_def)
next
  case (Suc k)
  have fit: "i + n \<le> bit_cnt b" using Suc.prems by linarith
  have con: "bitmap_contains b i n (\<not> v) = Some (\<not> group_at b i n v)"
    using bitmap_contains_ok [OF Suc.prems(1) fit] bits_with_group [OF fit] by simp
  show ?case
  proof (cases "group_at b i n v")
    case True
    with con show ?thesis by (simp add: scan_result_def)
  next
    case False
    have "\<exists>r. scan_loop b n v (i + 1) k = Some r \<and> scan_result b (i + 1) n v r"
      by (rule Suc.IH) (use Suc.prems in auto)
    then obtain r where r: "scan_loop b n v (i + 1) k = Some r" "scan_result b (i + 1) n v r"
      by blast
    have "scan_result b i n v r"
      using r(2) False unfolding scan_result_def
      by (metis Suc_eq_plus1 Suc_le_eq atLeastLessThan_iff le_antisym nat_less_le not_less_eq_eq order.strict_implies_order)
    with con False r(1) show ?thesis by simp
  qed
qed

lemma bitmap_scan_ok:
  assumes ok: "bok b" and s: "s \<le> bit_cnt b"
  shows "\<exists>r. bitmap_scan b s n v = Some r \<and> scan_result b s n v r"
proof (cases "n \<le> bit_cnt b")
  case False
  then have "\<forall>j \<ge> s. \<not> group_at b j n v" by (simp add: group_at_def)
  with False s show ?thesis by (simp add: bitmap_scan_def scan_result_def)
next
  case True
  show ?thesis
  proof (cases "s \<le> bit_cnt b - n")
    case le: True
    with True ok show ?thesis
      using scan_loop_ok [of b s "bit_cnt b - n + 1 - s" n v] s by (simp add: bitmap_scan_def)
  next
    case gt: False
    then have "\<forall>j \<ge> s. \<not> group_at b j n v" using True by (auto simp: group_at_def)
    with True gt s show ?thesis by (simp add: bitmap_scan_def scan_result_def)
  qed
qed

lemma scan_result_group: "scan_result b s n v r \<Longrightarrow> r \<noteq> BITMAP_ERROR \<Longrightarrow> group_at b r n v \<and> s \<le> r"
  by (simp add: scan_result_def)

lemma bitmap_scan_and_flip_ok:
  assumes ok: "bok b" and s: "s \<le> bit_cnt b"
  shows "\<exists>r b'. bitmap_scan_and_flip b s n v = Some (r, b') \<and> scan_result b s n v r
    \<and> (if r = BITMAP_ERROR then b' = b else bupd {r ..< r + n} (\<not> v) b b')"
proof -
  obtain r where r: "bitmap_scan b s n v = Some r" "scan_result b s n v r"
    using bitmap_scan_ok [OF ok s] by blast
  show ?thesis
  proof (cases "r = BITMAP_ERROR")
    case True
    with r show ?thesis by (simp add: bitmap_scan_and_flip_def)
  next
    case False
    then have "r + n \<le> bit_cnt b"
      using scan_result_group [OF r(2)] by (simp add: group_at_def)
    from bitmap_set_multiple_ok [OF ok this] False r show ?thesis
      by (force simp: bitmap_scan_and_flip_def)
  qed
qed

text \<open>Creation: storage of byte_cnt bytes is in order, and every bit is cleared.\<close>

lemma elem_cnt_covers: "n + 31 < 2 ^ 32 \<Longrightarrow> n \<le> ELEM_BITS * elem_cnt n"
  by (simp add: elem_cnt_def size_add_def ELEM_BITS_def)

lemma bitmap_create_ok:
  assumes "length m = elem_cnt n" and "n + 31 < 2 ^ 32"
  shows "\<exists>b. bitmap_create True (Some m) n = Some (Some b) \<and> bok b \<and> bit_cnt b = n
    \<and> length (bits b) = elem_cnt n \<and> (\<forall>i < n. \<not> bbit b i)"
proof -
  let ?b = "\<lparr>bit_cnt = n, bits = m\<rparr>"
  have "bok ?b" using assms elem_cnt_covers [OF assms(2)] by (simp add: bok_def)
  from bitmap_set_all_ok [OF this, of False] obtain b'
    where "bitmap_set_all ?b False = Some b'" "bupd {0 ..< n} False ?b b'" by auto
  with assms(1) show ?thesis
    by (auto simp: bitmap_create_def bupd_def)
qed

lemma bitmap_create_in_buf_ok:
  assumes "length m = elem_cnt n" and "n + 31 < 2 ^ 32" and "bitmap_buf_size n \<le> sz"
  shows "\<exists>b. bitmap_create_in_buf n m sz = Some b \<and> bok b \<and> bit_cnt b = n
    \<and> (\<forall>i < n. \<not> bbit b i)"
  using bitmap_create_ok [OF assms(1,2)] assms(3)
  by (auto simp: bitmap_create_in_buf_def bitmap_create_def)

lemma expand_loop_ok:
  "bok b \<Longrightarrow> bok b' \<Longrightarrow> i + n \<le> bit_cnt b \<Longrightarrow> i + n \<le> bit_cnt b'
     \<Longrightarrow> \<exists>r. expand_loop b i n b' = Some r \<and> bok r \<and> bit_cnt r = bit_cnt b'
       \<and> (\<forall>j. bbit r j = (if i \<le> j \<and> j < i + n then bbit b j else bbit b' j))"
proof (induction n arbitrary: i b')
  case 0
  then show ?case by auto
next
  case (Suc n)
  obtain b1 where b1: "bitmap_set b' i (bbit b i) = Some b1" "bupd {i} (bbit b i) b' b1"
    using bitmap_set_ok [of b' i] Suc.prems by auto
  have "\<exists>r. expand_loop b (i + 1) n b1 = Some r \<and> bok r \<and> bit_cnt r = bit_cnt b1
      \<and> (\<forall>j. bbit r j = (if i + 1 \<le> j \<and> j < i + 1 + n then bbit b j else bbit b1 j))"
    by (rule Suc.IH) (use Suc.prems b1(2) in \<open>auto simp: bupd_def\<close>)
  then obtain r where r: "expand_loop b (i + 1) n b1 = Some r" "bok r" "bit_cnt r = bit_cnt b1"
      "\<forall>j. bbit r j = (if i + 1 \<le> j \<and> j < i + 1 + n then bbit b j else bbit b1 j)" by blast
  have "expand_loop b i (Suc n) b' = Some r"
    using b1(1) r(1) Suc.prems by (simp add: bitmap_test_ok)
  moreover have "bbit r j = (if i \<le> j \<and> j < i + Suc n then bbit b j else bbit b' j)" for j
    using r(4) bupd_bit [OF b1(2), of j] by (cases "j = i") auto
  ultimately show ?case using r(2,3) bupd_cnt [OF b1(2)] by auto
qed

section \<open>Properties\<close>

text \<open>C19: bitmap_scan_and_flip finds the first group of n bits with the wanted value at or
  after the start and flips exactly these bits, or reports that there is none and changes
  nothing.\<close>

theorem scan_and_flip_first_fit:
  assumes "bok b" and "s \<le> bit_cnt b"
  shows "\<exists>r b'. bitmap_scan_and_flip b s n v = Some (r, b')
    \<and> (r = BITMAP_ERROR \<and> b' = b \<and> (\<forall>j \<ge> s. \<not> group_at b j n v)
       \<or> s \<le> r \<and> group_at b r n v \<and> (\<forall>j \<in> {s ..< r}. \<not> group_at b j n v)
         \<and> bok b' \<and> bit_cnt b' = bit_cnt b
         \<and> (\<forall>j. bbit b' j = (if r \<le> j \<and> j < r + n then \<not> v else bbit b j)))"
proof -
  obtain r b' where r: "bitmap_scan_and_flip b s n v = Some (r, b')" "scan_result b s n v r"
      "if r = BITMAP_ERROR then b' = b else bupd {r ..< r + n} (\<not> v) b b'"
    using bitmap_scan_and_flip_ok [OF assms] by blast
  show ?thesis
  proof (cases "r = BITMAP_ERROR")
    case True
    have "n = 0" if "group_at b r n v"
      using that assms(1) True by (simp add: group_at_def bok_def BITMAP_ERROR_def)
    with True r assms(1) show ?thesis by (auto simp: scan_result_def)
  next
    case False
    with r show ?thesis by (auto simp: scan_result_def bupd_def)
  qed
qed

theorem scan_and_flip_first_fit_witness:
  "\<exists>r b'. bitmap_scan_and_flip \<lparr>bit_cnt = 40, bits = [0xFFFFFFF0, 0x1]\<rparr> 3 5 False = Some (r, b')
    \<and> (r = BITMAP_ERROR \<or> 3 \<le> r)"
  using scan_and_flip_first_fit [of "\<lparr>bit_cnt = 40, bits = [0xFFFFFFF0, 0x1]\<rparr>" 3 5 False]
  by (auto simp: bok_def ELEM_BITS_def)

text \<open>Setting a range of bits, counting, and the tests any, none and all agree with the
  bits of the map, within its size; outside it they panic.\<close>

theorem bitmap_ranges_correct:
  assumes "bok b" and "s + n \<le> bit_cnt b"
  shows "\<exists>b'. bitmap_set_multiple b s n v = Some b' \<and> bok b'
    \<and> (\<forall>j < bit_cnt b. bitmap_test b' j = Some (if s \<le> j \<and> j < s + n then v else bbit b j))
    \<and> bitmap_count b' s n v = Some n
    \<and> bitmap_count b s n v = Some (card {j \<in> {s ..< s + n}. bbit b j = v})
    \<and> bitmap_any b s n = Some (\<exists>j \<in> {s ..< s + n}. bbit b j)
    \<and> bitmap_none b s n = Some (\<not> (\<exists>j \<in> {s ..< s + n}. bbit b j))
    \<and> bitmap_all b s n = Some (\<forall>j \<in> {s ..< s + n}. bbit b j)
    \<and> bitmap_test b (bit_cnt b) = None \<and> bitmap_set b (bit_cnt b) v = None"
proof -
  obtain b' where b': "bitmap_set_multiple b s n v = Some b'" "bupd {s ..< s + n} v b b'"
    using bitmap_set_multiple_ok [OF assms] by blast
  have "bits_with b' s n v = {s ..< s + n}" using b'(2) by (auto simp: bits_with_def bupd_def)
  then have "bitmap_count b' s n v = Some n"
    using b'(2) assms(2) by (simp add: bitmap_count_ok bupd_def)
  moreover have "bitmap_test b (bit_cnt b) = None \<and> bitmap_set b (bit_cnt b) v = None"
    by (simp add: bitmap_test_def bitmap_set_def)
  ultimately show ?thesis
    using b' assms
    by (simp add: bupd_bok bupd_cnt bupd_bit bitmap_test_ok bitmap_count_ok bitmap_contains_ok
        bitmap_any_def bitmap_none_def bitmap_all_def)
     (auto simp: bits_with_def)
qed

theorem bitmap_ranges_correct_witness:
  "\<exists>b'. bitmap_set_multiple \<lparr>bit_cnt = 40, bits = [0xFFFFFFF0, 0x1]\<rparr> 30 4 True = Some b'
    \<and> bitmap_count b' 30 4 True = Some 4"
  using bitmap_ranges_correct [of "\<lparr>bit_cnt = 40, bits = [0xFFFFFFF0, 0x1]\<rparr>" 30 4 True]
  by (auto simp: bok_def ELEM_BITS_def)

end
