(* ===== verification/KString.thy ===== *)
theory KString
  imports Prelude
begin

text \<open>
  The functions of lib/string.c on a flat byte memory.  A memory maps the addresses that
  lie in some object to bytes; reading or writing any other address is None.  A null
  pointer is address 0, which is never in an object.  The loops that search for a null
  byte may run past every object, so they are partial functions: not returning is None.
  The lemmas characterise them for null-terminated strings (\<open>cstr\<close>).
\<close>

type_synonym byte = "8 word"
type_synonym mem = "nat \<Rightarrow> byte option"

definition wr :: "mem \<Rightarrow> nat \<Rightarrow> byte \<Rightarrow> mem option" where
  "wr m a v = (if m a = None then None else Some (m(a \<mapsto> v)))"

section \<open>Blocks of bytes\<close>

fun memcpy_loop :: "mem \<Rightarrow> nat \<Rightarrow> nat \<Rightarrow> nat \<Rightarrow> mem option" where
  "memcpy_loop m dst src 0 = Some m"
| "memcpy_loop m dst src (Suc sz) = do {
     v \<leftarrow> m src;
     m \<leftarrow> wr m dst v;
     memcpy_loop m (dst + 1) (src + 1) sz
   }"

definition memcpy :: "mem \<Rightarrow> nat \<Rightarrow> nat \<Rightarrow> nat \<Rightarrow> (nat \<times> mem) option" where
  "memcpy m dst src sz = do {
     ASSERT (dst \<noteq> 0 \<or> sz = 0);
     ASSERT (src \<noteq> 0 \<or> sz = 0);
     m \<leftarrow> memcpy_loop m dst src sz;
     Some (dst, m)
   }"

fun memmove_down :: "mem \<Rightarrow> nat \<Rightarrow> nat \<Rightarrow> nat \<Rightarrow> mem option" where
  "memmove_down m dst src 0 = Some m"
| "memmove_down m dst src (Suc sz) = do {
     v \<leftarrow> m (src - 1);
     m \<leftarrow> wr m (dst - 1) v;
     memmove_down m (dst - 1) (src - 1) sz
   }"

text \<open>The value returned is the moving pointer: behind the block after the upward loop.\<close>

definition memmove :: "mem \<Rightarrow> nat \<Rightarrow> nat \<Rightarrow> nat \<Rightarrow> (nat \<times> mem) option" where
  "memmove m dst src sz = do {
     ASSERT (dst \<noteq> 0 \<or> sz = 0);
     ASSERT (src \<noteq> 0 \<or> sz = 0);
     (if dst < src then do {
        m \<leftarrow> memcpy_loop m dst src sz;
        Some (dst + sz, m)
      }
      else do {
        m \<leftarrow> memmove_down m (dst + sz) (src + sz) sz;
        Some (dst, m)
      })
   }"

fun memcmp_loop :: "mem \<Rightarrow> nat \<Rightarrow> nat \<Rightarrow> nat \<Rightarrow> int option" where
  "memcmp_loop m a b 0 = Some 0"
| "memcmp_loop m a b (Suc sz) = do {
     x \<leftarrow> m a;
     y \<leftarrow> m b;
     (if x \<noteq> y then Some (if x > y then 1 else - 1) else memcmp_loop m (a + 1) (b + 1) sz)
   }"

definition memcmp :: "mem \<Rightarrow> nat \<Rightarrow> nat \<Rightarrow> nat \<Rightarrow> int option" where
  "memcmp m a b sz = do {
     ASSERT (a \<noteq> 0 \<or> sz = 0);
     ASSERT (b \<noteq> 0 \<or> sz = 0);
     memcmp_loop m a b sz
   }"

fun memchr_loop :: "mem \<Rightarrow> nat \<Rightarrow> byte \<Rightarrow> nat \<Rightarrow> nat option" where
  "memchr_loop m block ch 0 = Some 0"
| "memchr_loop m block ch (Suc sz) = do {
     x \<leftarrow> m block;
     (if x = ch then Some block else memchr_loop m (block + 1) ch sz)
   }"

definition memchr :: "mem \<Rightarrow> nat \<Rightarrow> int \<Rightarrow> nat \<Rightarrow> nat option" where
  "memchr m block ch sz = do {
     ASSERT (block \<noteq> 0 \<or> sz = 0);
     memchr_loop m block (word_of_int ch) sz
   }"

fun memset_loop :: "mem \<Rightarrow> nat \<Rightarrow> byte \<Rightarrow> nat \<Rightarrow> mem option" where
  "memset_loop m dst v 0 = Some m"
| "memset_loop m dst v (Suc sz) = do {
     m \<leftarrow> wr m dst v;
     memset_loop m (dst + 1) v sz
   }"

definition memset :: "mem \<Rightarrow> nat \<Rightarrow> int \<Rightarrow> nat \<Rightarrow> (nat \<times> mem) option" where
  "memset m dst v sz = do {
     ASSERT (dst \<noteq> 0 \<or> sz = 0);
     m \<leftarrow> memset_loop m dst (word_of_int v) sz;
     Some (dst, m)
   }"

section \<open>Strings\<close>

partial_function (option) strcmp_loop :: "mem \<Rightarrow> nat \<Rightarrow> nat \<Rightarrow> int option" where
  "strcmp_loop m a b = do {
     x \<leftarrow> m a;
     y \<leftarrow> m b;
     (if x \<noteq> 0 \<and> x = y then strcmp_loop m (a + 1) (b + 1)
      else Some (if x < y then - 1 else if x > y then 1 else 0))
   }"

definition strcmp :: "mem \<Rightarrow> nat \<Rightarrow> nat \<Rightarrow> int option" where
  "strcmp m a b = do {
     ASSERT (a \<noteq> 0);
     ASSERT (b \<noteq> 0);
     strcmp_loop m a b
   }"

partial_function (option) strchr_loop :: "mem \<Rightarrow> nat \<Rightarrow> byte \<Rightarrow> nat option" where
  "strchr_loop m p c = do {
     x \<leftarrow> m p;
     (if x = c then Some p else if x = 0 then Some 0 else strchr_loop m (p + 1) c)
   }"

definition strchr :: "mem \<Rightarrow> nat \<Rightarrow> byte \<Rightarrow> nat option" where
  "strchr m string c = do {
     ASSERT (string \<noteq> 0);
     strchr_loop m string c
   }"

partial_function (option) strcspn_loop :: "mem \<Rightarrow> nat \<Rightarrow> nat \<Rightarrow> nat \<Rightarrow> nat option" where
  "strcspn_loop m string stop len = do {
     x \<leftarrow> m (string + len);
     (if x = 0 then Some len
      else do {
        f \<leftarrow> strchr m stop x;
        (if f \<noteq> 0 then Some len else strcspn_loop m string stop (len + 1))
      })
   }"

definition strcspn :: "mem \<Rightarrow> nat \<Rightarrow> nat \<Rightarrow> nat option" where
  "strcspn m string stop = strcspn_loop m string stop 0"

partial_function (option) strpbrk :: "mem \<Rightarrow> nat \<Rightarrow> nat \<Rightarrow> nat option" where
  "strpbrk m string stop = do {
     x \<leftarrow> m string;
     (if x = 0 then Some 0
      else do {
        f \<leftarrow> strchr m stop x;
        (if f \<noteq> 0 then Some string else strpbrk m (string + 1) stop)
      })
   }"

partial_function (option) strrchr_loop :: "mem \<Rightarrow> nat \<Rightarrow> byte \<Rightarrow> nat \<Rightarrow> nat option" where
  "strrchr_loop m string c p = do {
     x \<leftarrow> m string;
     (if x = 0 then Some p
      else strrchr_loop m (string + 1) c (if x = c then string else p))
   }"

definition strrchr :: "mem \<Rightarrow> nat \<Rightarrow> byte \<Rightarrow> nat option" where
  "strrchr m string c = strrchr_loop m string c 0"

partial_function (option) strspn_loop :: "mem \<Rightarrow> nat \<Rightarrow> nat \<Rightarrow> nat \<Rightarrow> nat option" where
  "strspn_loop m string skip len = do {
     x \<leftarrow> m (string + len);
     (if x = 0 then Some len
      else do {
        f \<leftarrow> strchr m skip x;
        (if f = 0 then Some len else strspn_loop m string skip (len + 1))
      })
   }"

definition strspn :: "mem \<Rightarrow> nat \<Rightarrow> nat \<Rightarrow> nat option" where
  "strspn m string skip = strspn_loop m string skip 0"

partial_function (option) strlen_loop :: "mem \<Rightarrow> nat \<Rightarrow> nat \<Rightarrow> nat option" where
  "strlen_loop m string p = do {
     x \<leftarrow> m p;
     (if x \<noteq> 0 then strlen_loop m string (p + 1) else Some (p - string))
   }"

definition strlen :: "mem \<Rightarrow> nat \<Rightarrow> nat option" where
  "strlen m string = do {
     ASSERT (string \<noteq> 0);
     strlen_loop m string string
   }"

text \<open>The byte is read before the bound is tested.\<close>

fun strnlen_loop :: "mem \<Rightarrow> nat \<Rightarrow> nat \<Rightarrow> nat \<Rightarrow> nat option" where
  "strnlen_loop m string len 0 = do { x \<leftarrow> m (string + len); Some len }"
| "strnlen_loop m string len (Suc left) = do {
     x \<leftarrow> m (string + len);
     (if x \<noteq> 0 then strnlen_loop m string (len + 1) left else Some len)
   }"

definition strnlen :: "mem \<Rightarrow> nat \<Rightarrow> nat \<Rightarrow> nat option" where
  "strnlen m string maxlen = strnlen_loop m string 0 maxlen"

fun strstr_loop :: "mem \<Rightarrow> nat \<Rightarrow> nat \<Rightarrow> nat \<Rightarrow> nat \<Rightarrow> nat \<Rightarrow> nat option" where
  "strstr_loop m haystack needle needle_len i 0 = Some 0"
| "strstr_loop m haystack needle needle_len i (Suc n) = do {
     c \<leftarrow> memcmp m (haystack + i) needle needle_len;
     (if c = 0 then Some (haystack + i) else strstr_loop m haystack needle needle_len (i + 1) n)
   }"

definition strstr :: "mem \<Rightarrow> nat \<Rightarrow> nat \<Rightarrow> nat option" where
  "strstr m haystack needle = do {
     haystack_len \<leftarrow> strlen m haystack;
     needle_len \<leftarrow> strlen m needle;
     (if haystack_len \<ge> needle_len
      then strstr_loop m haystack needle needle_len 0 (haystack_len - needle_len + 1)
      else Some 0)
   }"

definition strlcpy :: "mem \<Rightarrow> nat \<Rightarrow> nat \<Rightarrow> nat \<Rightarrow> (nat \<times> mem) option" where
  "strlcpy m dst src sz = do {
     ASSERT (dst \<noteq> 0);
     ASSERT (src \<noteq> 0);
     src_len \<leftarrow> strlen m src;
     (if sz > 0 then do {
        let dst_len = (if src_len < sz - 1 then src_len else sz - 1);
        (_, m) \<leftarrow> memcpy m dst src dst_len;
        m \<leftarrow> wr m (dst + dst_len) 0;
        Some (src_len, m)
      }
      else Some (src_len, m))
   }"

definition strlcat :: "mem \<Rightarrow> nat \<Rightarrow> nat \<Rightarrow> nat \<Rightarrow> (nat \<times> mem) option" where
  "strlcat m dst src sz = do {
     ASSERT (dst \<noteq> 0);
     ASSERT (src \<noteq> 0);
     src_len \<leftarrow> strlen m src;
     dst_len \<leftarrow> strlen m dst;
     (if sz > 0 \<and> dst_len < sz then do {
        let copy_cnt = (if src_len < sz - dst_len - 1 then src_len else sz - dst_len - 1);
        (_, m) \<leftarrow> memcpy m (dst + dst_len) src copy_cnt;
        m \<leftarrow> wr m (dst + dst_len + copy_cnt) 0;
        Some (src_len + dst_len, m)
      }
      else Some (src_len + dst_len, m))
   }"

section \<open>Tokens\<close>

text \<open>The first loop: Inl is the end of the string, Inr the start of a token.\<close>

partial_function (option) skip_delimiters :: "mem \<Rightarrow> nat \<Rightarrow> nat \<Rightarrow> (nat + nat) option" where
  "skip_delimiters m delimiters s = do {
     x \<leftarrow> m s;
     f \<leftarrow> strchr m delimiters x;
     (if f \<noteq> 0 then (if x = 0 then Some (Inl s) else skip_delimiters m delimiters (s + 1))
      else Some (Inr s))
   }"

partial_function (option) skip_token :: "mem \<Rightarrow> nat \<Rightarrow> nat \<Rightarrow> nat option" where
  "skip_token m delimiters s = do {
     x \<leftarrow> m s;
     f \<leftarrow> strchr m delimiters x;
     (if f = 0 then skip_token m delimiters (s + 1) else Some s)
   }"

text \<open>The result is the token (0 at the end), the saved position and the memory.\<close>

definition strtok_r :: "mem \<Rightarrow> nat \<Rightarrow> nat \<Rightarrow> nat \<Rightarrow> (nat \<times> nat \<times> mem) option" where
  "strtok_r m s delimiters save_ptr = do {
     ASSERT (delimiters \<noteq> 0);
     let s = (if s = 0 then save_ptr else s);
     ASSERT (s \<noteq> 0);
     r \<leftarrow> skip_delimiters m delimiters s;
     (case r of
        Inl s \<Rightarrow> Some (0, s, m)
      | Inr token \<Rightarrow> do {
          s \<leftarrow> skip_token m delimiters token;
          x \<leftarrow> m s;
          (if x \<noteq> 0 then do {
             m \<leftarrow> wr m s 0;
             Some (token, s + 1, m)
           }
           else Some (token, s, m))
        })
   }"

section \<open>Blocks and strings in memory\<close>

primrec blk :: "mem \<Rightarrow> nat \<Rightarrow> byte list \<Rightarrow> bool" where
  "blk m p [] \<longleftrightarrow> True"
| "blk m p (b # bs) \<longleftrightarrow> m p = Some b \<and> blk m (Suc p) bs"

primrec put :: "mem \<Rightarrow> nat \<Rightarrow> byte list \<Rightarrow> mem" where
  "put m p [] = m"
| "put m p (b # bs) = put (m(p \<mapsto> b)) (Suc p) bs"

definition cstr :: "mem \<Rightarrow> nat \<Rightarrow> byte list \<Rightarrow> bool" where
  "cstr m p cs \<longleftrightarrow> p \<noteq> 0 \<and> 0 \<notin> set cs \<and> blk m p (cs @ [0])"

definition writable :: "mem \<Rightarrow> nat \<Rightarrow> nat \<Rightarrow> bool" where
  "writable m p n \<longleftrightarrow> (\<forall>a \<in> {p ..< p + n}. m a \<noteq> None)"

lemma blk_append [simp]: "blk m p (xs @ ys) \<longleftrightarrow> blk m p xs \<and> blk m (p + length xs) ys"
  by (induction xs arbitrary: p) auto

lemma blk_nth: "blk m p bs \<longleftrightarrow> (\<forall>i < length bs. m (p + i) = Some (bs ! i))"
  by (induction bs arbitrary: p) (auto simp: less_Suc_eq_0_disj nth_Cons')

lemma put_other: "a < p \<or> p + length bs \<le> a \<Longrightarrow> put m p bs a = m a"
  by (induction bs arbitrary: m p) auto

lemma put_in: "i < length bs \<Longrightarrow> put m p bs (p + i) = Some (bs ! i)"
proof (induction bs arbitrary: m p i)
  case Nil
  then show ?case by simp
next
  case (Cons b bs)
  show ?case
  proof (cases i)
    case 0
    then show ?thesis using put_other [of p "Suc p" bs "m(p \<mapsto> b)"] by simp
  next
    case (Suc j)
    with Cons.prems Cons.IH [of j "m(p \<mapsto> b)" "Suc p"] show ?thesis by (simp del: fun_upd_apply)
  qed
qed

lemma put_nth: "put m p bs a = (if p \<le> a \<and> a < p + length bs then Some (bs ! (a - p)) else m a)"
  using put_in [of "a - p" bs m p] put_other [of a p bs m] by auto

lemma blk_put [simp]: "blk (put m p bs) p bs"
  by (simp add: blk_nth put_in)

lemma blk_put_other:
  "blk m q cs \<Longrightarrow> q + length cs \<le> p \<or> p + length bs \<le> q \<Longrightarrow> blk (put m p bs) q cs"
  by (auto simp: blk_nth put_nth)

lemma blk_upd: "blk m q cs \<Longrightarrow> a < q \<or> q + length cs \<le> a \<Longrightarrow> blk (m(a \<mapsto> v)) q cs"
  by (auto simp: blk_nth)

lemma put_append: "put m p (xs @ ys) = put (put m p xs) (p + length xs) ys"
  by (induction xs arbitrary: m p) auto

lemma put_upd: "a < p \<or> p + length bs \<le> a \<Longrightarrow> (put m p bs)(a \<mapsto> v) = put (m(a \<mapsto> v)) p bs"
  by (rule ext) (auto simp: put_nth)

lemma wr_ok: "m a \<noteq> None \<Longrightarrow> wr m a v = Some (m(a \<mapsto> v))"
  by (simp add: wr_def)

lemma writable_Suc [simp]: "writable m p (Suc n) \<longleftrightarrow> m p \<noteq> None \<and> writable m (Suc p) n"
proof -
  have "{p ..< p + Suc n} = insert p {Suc p ..< Suc p + n}" by auto
  then show ?thesis by (simp add: writable_def)
qed

lemma writable_0 [simp]: "writable m p 0"
  by (simp add: writable_def)

lemma writable_upd: "writable m p n \<Longrightarrow> writable (m(a \<mapsto> v)) p n"
  by (auto simp: writable_def)

lemma writable_put: "writable m p n \<Longrightarrow> writable (put m q bs) p n"
  by (auto simp: writable_def put_nth)

lemma blk_writable: "blk m p bs \<Longrightarrow> writable m p (length bs)"
  unfolding writable_def blk_nth by (metis atLeastLessThan_iff le_Suc_ex nat_add_left_cancel_less option.distinct(1))

lemma writable_mono: "writable m p n \<Longrightarrow> p \<le> q \<Longrightarrow> q + k \<le> p + n \<Longrightarrow> writable m q k"
  by (auto simp: writable_def)

section \<open>Copying\<close>

lemma memcpy_loop_ok:
  "blk m src bs \<Longrightarrow> writable m dst (length bs) \<Longrightarrow> dst \<le> src \<or> src + length bs \<le> dst
     \<Longrightarrow> memcpy_loop m dst src (length bs) = Some (put m dst bs)"
proof (induction bs arbitrary: m dst src)
  case Nil
  then show ?case by simp
next
  case (Cons b bs)
  have "memcpy_loop (m(dst \<mapsto> b)) (Suc dst) (Suc src) (length bs) = Some (put (m(dst \<mapsto> b)) (Suc dst) bs)"
    by (rule Cons.IH) (use Cons.prems in \<open>auto intro: blk_upd writable_upd simp del: fun_upd_apply\<close>)
  with Cons.prems show ?case by (simp add: wr_ok)
qed

lemma memmove_down_ok:
  "blk m src bs \<Longrightarrow> writable m dst (length bs) \<Longrightarrow> src \<le> dst
     \<Longrightarrow> memmove_down m (dst + length bs) (src + length bs) (length bs) = Some (put m dst bs)"
proof (induction bs arbitrary: m rule: rev_induct)
  case Nil
  then show ?case by simp
next
  case (snoc b bs)
  let ?m = "m(dst + length bs \<mapsto> b)"
  have src: "m (src + length bs) = Some b" and blk: "blk m src bs" using snoc.prems by simp_all
  have wr: "m (dst + length bs) \<noteq> None" "writable ?m dst (length bs)"
    using snoc.prems by (auto simp: writable_def)
  have "memmove_down ?m (dst + length bs) (src + length bs) (length bs) = Some (put ?m dst bs)"
    by (rule snoc.IH) (use blk wr snoc.prems in \<open>auto intro: blk_upd simp del: fun_upd_apply\<close>)
  with src wr show ?case by (simp add: wr_ok put_append put_upd)
qed

lemma memset_loop_ok:
  "writable m p n \<Longrightarrow> memset_loop m p v n = Some (put m p (replicate n v))"
  by (induction n arbitrary: m p) (auto simp: wr_ok writable_upd)

lemma memcpy_ok:
  assumes "blk m src bs" and "writable m dst (length bs)" and "dst \<le> src \<or> src + length bs \<le> dst"
    and "dst \<noteq> 0" and "src \<noteq> 0"
  shows "memcpy m dst src (length bs) = Some (dst, put m dst bs)"
  using assms by (simp add: memcpy_def memcpy_loop_ok)

section \<open>Searching\<close>

lemma strlen_loop_ok: "blk m p (cs @ [0]) \<Longrightarrow> 0 \<notin> set cs \<Longrightarrow> strlen_loop m s p = Some (p + length cs - s)"
  by (induction cs arbitrary: p) (simp_all add: strlen_loop.simps)

lemma strlen_ok: "cstr m p cs \<Longrightarrow> strlen m p = Some (length cs)"
  using strlen_loop_ok [of m p cs p] by (simp add: strlen_def cstr_def del: blk_append)

lemma strchr_loop_ok:
  "blk m p (cs @ [0]) \<Longrightarrow> 0 \<notin> set cs
     \<Longrightarrow> strchr_loop m p c = Some (if c \<in> set cs \<or> c = 0 then p + length (takeWhile (\<lambda>x. x \<noteq> c) cs) else 0)"
  by (induction cs arbitrary: p) (auto simp: strchr_loop.simps)

lemma strchr_ok:
  "cstr m p cs
     \<Longrightarrow> strchr m p c = Some (if c \<in> set cs \<or> c = 0 then p + length (takeWhile (\<lambda>x. x \<noteq> c) cs) else 0)"
  by (simp add: strchr_def cstr_def strchr_loop_ok del: blk_append)

lemma cstr_pos: "cstr m p cs \<Longrightarrow> 0 < p"
  by (simp add: cstr_def)

lemma strspn_loop_ok:
  "cstr m k ks \<Longrightarrow> blk m (p + i) (cs @ [0]) \<Longrightarrow> 0 \<notin> set cs
     \<Longrightarrow> strspn_loop m p k i = Some (i + length (takeWhile (\<lambda>x. x \<in> set ks) cs))"
proof (induction cs arbitrary: i)
  case (Cons c cs)
  then show ?case using cstr_pos [of m k ks] by (subst strspn_loop.simps) (auto simp: strchr_ok)
qed (simp add: strspn_loop.simps)

lemma strcspn_loop_ok:
  "cstr m k ks \<Longrightarrow> blk m (p + i) (cs @ [0]) \<Longrightarrow> 0 \<notin> set cs
     \<Longrightarrow> strcspn_loop m p k i = Some (i + length (takeWhile (\<lambda>x. x \<notin> set ks) cs))"
proof (induction cs arbitrary: i)
  case (Cons c cs)
  then show ?case using cstr_pos [of m k ks] by (subst strcspn_loop.simps) (auto simp: strchr_ok)
qed (simp add: strcspn_loop.simps)

lemma strpbrk_ok:
  "cstr m k ks \<Longrightarrow> blk m p (cs @ [0]) \<Longrightarrow> 0 \<notin> set cs
     \<Longrightarrow> strpbrk m p k = Some (if set cs \<inter> set ks = {} then 0
           else p + length (takeWhile (\<lambda>x. x \<notin> set ks) cs))"
proof (induction cs arbitrary: p)
  case (Cons c cs)
  then show ?case using cstr_pos [of m k ks] by (subst strpbrk.simps) (auto simp: strchr_ok)
qed (simp add: strpbrk.simps)

lemma memcmp_loop_ok:
  "blk m a xs \<Longrightarrow> blk m b ys \<Longrightarrow> length xs = length ys
     \<Longrightarrow> \<exists>c. memcmp_loop m a b (length xs) = Some c \<and> (c = 0 \<longleftrightarrow> xs = ys)"
proof (induction xs arbitrary: a b ys)
  case (Cons x xs)
  then obtain y ys' where ys: "ys = y # ys'" by (cases ys) auto
  with Cons show ?case by auto
qed simp

text \<open>strcmp orders strings lexicographically by unsigned bytes.\<close>

fun cmp_bytes :: "byte list \<Rightarrow> byte list \<Rightarrow> int" where
  "cmp_bytes [] [] = 0"
| "cmp_bytes [] (y # ys) = - 1"
| "cmp_bytes (x # xs) [] = 1"
| "cmp_bytes (x # xs) (y # ys) = (if x = y then cmp_bytes xs ys else if x < y then - 1 else 1)"

lemma strcmp_loop_ok:
  "blk m a (xs @ [0]) \<Longrightarrow> blk m b (ys @ [0]) \<Longrightarrow> 0 \<notin> set xs \<Longrightarrow> 0 \<notin> set ys
     \<Longrightarrow> strcmp_loop m a b = Some (cmp_bytes xs ys)"
proof (induction xs ys arbitrary: a b rule: cmp_bytes.induct)
  case (4 x xs y ys)
  then show ?case by (subst strcmp_loop.simps) auto
qed (subst strcmp_loop.simps; auto simp: word_gt_0)+

lemma strcmp_ok: "cstr m a xs \<Longrightarrow> cstr m b ys \<Longrightarrow> strcmp m a b = Some (cmp_bytes xs ys)"
  by (simp add: strcmp_def cstr_def strcmp_loop_ok del: blk_append)

lemma cmp_bytes_0 [simp]: "cmp_bytes xs ys = 0 \<longleftrightarrow> xs = ys"
  by (induction xs ys rule: cmp_bytes.induct) auto

section \<open>Tokens of a string\<close>

lemma strchr_hit: "cstr m d ds \<Longrightarrow> strchr m d x = Some f \<Longrightarrow> f \<noteq> 0 \<longleftrightarrow> x \<in> set ds \<or> x = 0"
  using cstr_pos [of m d ds] by (simp add: strchr_ok split: if_splits)

lemma strchr_some: "cstr m d ds \<Longrightarrow> \<exists>f. strchr m d x = Some f"
  by (simp add: strchr_ok)

lemma skip_delimiters_ok:
  "cstr m d ds \<Longrightarrow> blk m s (cs @ [0]) \<Longrightarrow> 0 \<notin> set cs
     \<Longrightarrow> skip_delimiters m d s =
       Some (if \<forall>c \<in> set cs. c \<in> set ds then Inl (s + length cs)
             else Inr (s + length (takeWhile (\<lambda>c. c \<in> set ds) cs)))"
proof (induction cs arbitrary: s)
  case Nil
  obtain f where f: "strchr m d 0 = Some f" using strchr_some [OF Nil.prems(1)] by blast
  have "f \<noteq> 0" using strchr_hit [OF Nil.prems(1) f] by simp
  with f Nil.prems show ?case by (subst skip_delimiters.simps) simp
next
  case (Cons c cs)
  obtain f where f: "strchr m d c = Some f" using strchr_some [OF Cons.prems(1)] by blast
  have hit: "f \<noteq> 0 \<longleftrightarrow> c \<in> set ds" using strchr_hit [OF Cons.prems(1) f] Cons.prems(3) by auto
  from f Cons hit show ?case by (subst skip_delimiters.simps) auto
qed

lemma skip_token_ok:
  "cstr m d ds \<Longrightarrow> blk m s (cs @ [0]) \<Longrightarrow> 0 \<notin> set cs
     \<Longrightarrow> skip_token m d s = Some (s + length (takeWhile (\<lambda>c. c \<notin> set ds) cs))"
proof (induction cs arbitrary: s)
  case Nil
  obtain f where f: "strchr m d 0 = Some f" using strchr_some [OF Nil.prems(1)] by blast
  have "f \<noteq> 0" using strchr_hit [OF Nil.prems(1) f] by simp
  with f Nil.prems show ?case by (subst skip_token.simps) simp
next
  case (Cons c cs)
  obtain f where f: "strchr m d c = Some f" using strchr_some [OF Cons.prems(1)] by blast
  have hit: "f \<noteq> 0 \<longleftrightarrow> c \<in> set ds" using strchr_hit [OF Cons.prems(1) f] Cons.prems(3) by auto
  from f Cons hit show ?case by (subst skip_token.simps) auto
qed

text \<open>The first token of a string, and what follows the delimiter behind it.\<close>

definition first_token :: "byte set \<Rightarrow> byte list \<Rightarrow> byte list" where
  "first_token D cs = takeWhile (\<lambda>c. c \<notin> D) (dropWhile (\<lambda>c. c \<in> D) cs)"

definition after_token :: "byte set \<Rightarrow> byte list \<Rightarrow> byte list" where
  "after_token D cs = drop 1 (dropWhile (\<lambda>c. c \<notin> D) (dropWhile (\<lambda>c. c \<in> D) cs))"

function tokens :: "byte set \<Rightarrow> byte list \<Rightarrow> byte list list" where
  "tokens D cs = (if \<forall>c \<in> set cs. c \<in> D then [] else first_token D cs # tokens D (after_token D cs))"
  by pat_completeness auto
termination
proof (relation "measure (\<lambda>(D, cs). length cs)")
  fix D and cs :: "byte list"
  assume ne: "\<not> (\<forall>c \<in> set cs. c \<in> D)"
  let ?r = "dropWhile (\<lambda>c. c \<in> D) cs"
  have "?r \<noteq> []" using ne by (simp add: dropWhile_eq_Nil_conv)
  then have hd: "hd ?r \<notin> D" using hd_dropWhile [of "\<lambda>c. c \<in> D" cs] by simp
  have "length (dropWhile (\<lambda>c. c \<notin> D) ?r) < length ?r"
    using \<open>?r \<noteq> []\<close> hd length_dropWhile_le [of "\<lambda>c. c \<notin> D" "tl ?r"] by (cases ?r) auto
  also have "\<dots> \<le> length cs" by (rule length_dropWhile_le)
  finally show "((D, after_token D cs), D, cs) \<in> measure (\<lambda>(D, cs). length cs)"
    by (simp add: after_token_def)
qed simp

declare tokens.simps [simp del]

lemma split_token:
  assumes "\<not> (\<forall>c \<in> set cs. c \<in> D)"
  shows "cs = takeWhile (\<lambda>c. c \<in> D) cs @ first_token D cs @ dropWhile (\<lambda>c. c \<notin> D) (dropWhile (\<lambda>c. c \<in> D) cs)"
    and "first_token D cs \<noteq> []"
proof -
  show "cs = takeWhile (\<lambda>c. c \<in> D) cs @ first_token D cs @ dropWhile (\<lambda>c. c \<notin> D) (dropWhile (\<lambda>c. c \<in> D) cs)"
    by (simp add: first_token_def)
  have "dropWhile (\<lambda>c. c \<in> D) cs \<noteq> []" using assms by (simp add: dropWhile_eq_Nil_conv)
  with hd_dropWhile [of "\<lambda>c. c \<in> D" cs] show "first_token D cs \<noteq> []"
    by (cases "dropWhile (\<lambda>c. c \<in> D) cs") (auto simp: first_token_def)
qed

text \<open>One call of strtok_r on a string whose delimiters lie elsewhere: at the end, or a token,
  a saved position with the rest of the string, and no change outside the string.\<close>

lemma strtok_r_ok:
  assumes d: "cstr m d ds" and s: "cstr m s cs"
    and apart: "d + length ds < s \<or> s + length cs < d"
  shows "\<exists>tok save m'. strtok_r m s d x = Some (tok, save, m')
    \<and> (\<forall>a. a < s \<or> s + length cs \<le> a \<longrightarrow> m' a = m a) \<and> s \<le> save \<and> save \<le> s + length cs
    \<and> (if \<forall>c \<in> set cs. c \<in> set ds then tok = 0 \<and> m' = m \<and> cstr m' save []
       else s \<le> tok \<and> tok + length (first_token (set ds) cs) < save + 1
         \<and> cstr m' tok (first_token (set ds) cs)
         \<and> save + length (after_token (set ds) cs) = s + length cs
         \<and> cstr m' save (after_token (set ds) cs))"
proof (cases "\<forall>c \<in> set cs. c \<in> set ds")
  case True
  have b: "blk m s (cs @ [0])" "0 \<notin> set cs" "s \<noteq> 0" using s by (auto simp: cstr_def)
  from True skip_delimiters_ok [OF d b(1,2)] b d show ?thesis
    by (auto simp: strtok_r_def cstr_def)
next
  case False
  define D where "D = set ds"
  have b: "blk m s (cs @ [0])" "0 \<notin> set cs" "s \<noteq> 0" using s by (auto simp: cstr_def)
  define pre where "pre = takeWhile (\<lambda>c. c \<in> D) cs"
  define tk where "tk = first_token D cs"
  define rest where "rest = dropWhile (\<lambda>c. c \<notin> D) (dropWhile (\<lambda>c. c \<in> D) cs)"
  have cs: "cs = pre @ tk @ rest"
    unfolding pre_def tk_def rest_def by (rule split_token(1)) (use False in \<open>simp add: D_def\<close>)
  have b': "blk m s pre" "blk m (s + length pre) tk" "blk m (s + length pre + length tk) (rest @ [0])"
    using b(1) by (simp_all add: cs ac_simps)
  have nz: "0 \<notin> set tk" "0 \<notin> set rest" using b(2) by (auto simp: cs)
  define t where "t = s + length pre"
  define e where "e = t + length tk"
  have skip1: "skip_delimiters m d s = Some (Inr t)"
    using skip_delimiters_ok [OF d b(1,2)] False by (simp add: t_def pre_def D_def)
  have tw: "takeWhile (\<lambda>c. c \<notin> set ds) (tk @ rest) = tk"
    unfolding tk_def rest_def first_token_def D_def by simp
  have skip2: "skip_token m d t = Some e"
    using skip_token_ok [OF d, of t "tk @ rest"] b' nz tw by (simp add: t_def e_def ac_simps)
  have dpos: "d \<noteq> 0" using d by (simp add: cstr_def)
  have aft: "after_token D cs = drop 1 rest" by (simp add: after_token_def rest_def)
  show ?thesis
  proof (cases rest)
    case Nil
    have x: "m e = Some 0" using b'(3) by (simp add: Nil e_def t_def)
    have r: "strtok_r m s d x = Some (t, e, m)"
      using skip1 skip2 x b(3) dpos by (simp add: strtok_r_def)
    show ?thesis
      using r b' nz x aft False b(3) unfolding D_def [symmetric] tk_def [symmetric]
      by (auto simp: cstr_def cs Nil t_def e_def D_def)
  next
    case (Cons c cs')
    have x: "m e = Some c" and c: "c \<noteq> 0" using b'(3) nz by (auto simp: Cons e_def t_def)
    let ?m = "m(e \<mapsto> 0)"
    have r: "strtok_r m s d x = Some (t, e + 1, ?m)"
      using skip1 skip2 x b(3) dpos c by (simp add: strtok_r_def wr_def)
    have "blk ?m t tk" using b'(2) by (auto simp: t_def e_def intro: blk_upd)
    moreover have "blk ?m (e + 1) (cs' @ [0])"
      using b'(3) by (intro blk_upd) (auto simp: Cons e_def t_def)
    ultimately show ?thesis
      using r nz aft False b(3) unfolding D_def [symmetric] tk_def [symmetric]
      by (auto simp: cstr_def cs Cons t_def e_def D_def)
  qed
qed

section \<open>Bounded copies\<close>

lemma strlcpy_ok:
  assumes s: "cstr m src cs" and w: "writable m dst n" and dst: "dst \<noteq> 0" and n: "0 < n"
    and apart: "dst + n \<le> src \<or> src + length cs < dst"
  shows "strlcpy m dst src n = Some (length cs, put m dst (take (n - 1) cs @ [0]))"
proof -
  define t where "t = take (n - 1) cs"
  have len: "length t = (if length cs < n - 1 then length cs else n - 1)" by (simp add: t_def)
  have tn: "length t < n" using n len by (auto split: if_splits)
  have tcs: "length t \<le> length cs" by (simp add: t_def)
  have b: "blk m src t" using s by (metis append_take_drop_id blk_append cstr_def t_def)
  have w1: "writable m dst (length t)" using w tn by (auto intro: writable_mono)
  have cp: "memcpy m dst src (length t) = Some (dst, put m dst t)"
    by (rule memcpy_ok) (use b w1 dst s apart tn tcs in \<open>auto simp: cstr_def\<close>)
  have "put m dst t (dst + length t) \<noteq> None"
    using w tn by (auto simp: put_nth writable_def)
  then have wr: "wr (put m dst t) (dst + length t) 0 = Some (put m dst (t @ [0]))"
    by (simp add: wr_ok put_append)
  show ?thesis
  proof (cases "length cs < n - 1")
    case True
    then have L: "length t = length cs" using len by simp
    show ?thesis
      using strlen_ok [OF s] s n dst cp wr True unfolding t_def [symmetric] L
      by (simp add: strlcpy_def cstr_def Let_def)
  next
    case False
    then have L: "length t = n - 1" using len by simp
    show ?thesis
      using strlen_ok [OF s] s n dst cp wr False unfolding t_def [symmetric] L
      by (simp add: strlcpy_def cstr_def Let_def)
  qed
qed

lemma strlcat_ok:
  assumes s: "cstr m src cs" and d: "cstr m dst ds" and n: "length ds < n"
    and w: "writable m dst n" and apart: "dst + n \<le> src \<or> src + length cs < dst"
  shows "strlcat m dst src n = Some (length cs + length ds,
           put m (dst + length ds) (take (n - length ds - 1) cs @ [0]))"
proof -
  let ?k = "n - length ds" and ?d = "dst + length ds"
  define t where "t = take (?k - 1) cs"
  have len: "length t = (if length cs < ?k - 1 then length cs else ?k - 1)" by (simp add: t_def)
  have tn: "length t < ?k" using n len by (auto split: if_splits)
  have tcs: "length t \<le> length cs" by (simp add: t_def)
  have b: "blk m src t" using s by (metis append_take_drop_id blk_append cstr_def t_def)
  have w1: "writable m ?d (length t)" using w tn n by (auto intro: writable_mono)
  have cp: "memcpy m ?d src (length t) = Some (?d, put m ?d t)"
    by (rule memcpy_ok) (use b w1 d s apart tn tcs n in \<open>auto simp: cstr_def\<close>)
  have "put m ?d t (?d + length t) \<noteq> None"
    using w tn n by (auto simp: put_nth writable_def)
  then have wr: "wr (put m ?d t) (?d + length t) 0 = Some (put m ?d (t @ [0]))"
    by (simp add: wr_ok put_append)
  show ?thesis
  proof (cases "length cs < ?k - 1")
    case True
    then have L: "length t = length cs" using len by simp
    show ?thesis
      using strlen_ok [OF s] strlen_ok [OF d] s d n cp wr True unfolding t_def [symmetric] L
      by (simp add: strlcat_def cstr_def Let_def)
  next
    case False
    then have L: "length t = ?k - 1" using len by simp
    show ?thesis
      using strlen_ok [OF s] strlen_ok [OF d] s d n cp wr False unfolding t_def [symmetric] L
      by (simp add: strlcat_def cstr_def Let_def)
  qed
qed

section \<open>Properties\<close>

text \<open>C21: memmove copies a block to any place, also an overlapping one, and changes nothing
  else; it returns the destination only when it copies downwards, and the address behind the
  destination when the destination lies below the source.\<close>

theorem memmove_overlapping:
  assumes "blk m src bs" and "writable m dst (length bs)" and "src \<noteq> 0" and "dst \<noteq> 0"
  shows "memmove m dst src (length bs) =
      Some (if dst < src then dst + length bs else dst, put m dst bs)
    \<and> blk (put m dst bs) dst bs
    \<and> (\<forall>a. a < dst \<or> dst + length bs \<le> a \<longrightarrow> put m dst bs a = m a)"
  using assms by (auto simp: memmove_def memcpy_loop_ok memmove_down_ok put_other)

definition demo_mem :: mem where
  "demo_mem = put Map.empty 1000 [32, 101, 99, 104, 111, 32, 32, 120, 0, 32, 0]"

lemma demo_blk: "blk demo_mem 1000 [32, 101, 99, 104, 111, 32, 32, 120, 0, 32, 0]"
  unfolding demo_mem_def by (rule blk_put)

lemma demo_writable: "1000 \<le> p \<Longrightarrow> p + k \<le> 1011 \<Longrightarrow> writable demo_mem p k"
  using blk_writable [OF demo_blk] by (auto intro: writable_mono simp del: writable_Suc)

theorem memmove_overlapping_witness:
  "memmove demo_mem 1002 1001 4 = Some (1002, put demo_mem 1002 [101, 99, 104, 111])"
proof -
  have four: "length [101, 99, 104, 111 :: byte] = 4" by simp
  have "blk demo_mem 1001 [101, 99, 104, 111]" using demo_blk by simp
  from memmove_overlapping [OF this, of 1002, unfolded four] show ?thesis
    using demo_writable [of 1002 4] by simp
qed

text \<open>C23: strlcpy never writes more than the given size, always terminates the copy, and
  returns the length of the source, so that truncation can be told from the result.\<close>

theorem strlcpy_terminates_copy:
  assumes "cstr m src cs" and "writable m dst n" and "dst \<noteq> 0" and "0 < n"
    and "dst + n \<le> src \<or> src + length cs < dst"
  shows "\<exists>m'. strlcpy m dst src n = Some (length cs, m')
    \<and> cstr m' dst (take (n - 1) cs)
    \<and> (\<forall>a. a < dst \<or> dst + n \<le> a \<longrightarrow> m' a = m a)
    \<and> (length cs < n \<longleftrightarrow> cstr m' dst cs)"
proof -
  let ?m = "put m dst (take (n - 1) cs @ [0])"
  have t: "cstr ?m dst (take (n - 1) cs)"
    using assms(1,3) in_set_takeD [of 0 "n - 1" cs] blk_put [of m dst "take (n - 1) cs @ [0]"]
    by (auto simp: cstr_def simp del: blk_append blk_put)
  have "length cs < n" if "cstr ?m dst cs"
    using strlen_ok [OF that] strlen_ok [OF t] assms(4) by simp
  then show ?thesis
    using strlcpy_ok [OF assms] t assms(4) by (auto simp: put_nth min_def split: if_splits)
qed

theorem strlcpy_terminates_copy_witness:
  "\<exists>m'. strlcpy demo_mem 1000 1007 2 = Some (1, m') \<and> cstr m' 1000 [120]"
  using strlcpy_terminates_copy [of demo_mem 1007 "[120]" 1000 2] demo_writable [of 1000 2] demo_blk
  by (auto simp: cstr_def)

text \<open>C22: one call of strtok_r either reports that only delimiters are left or returns the
  next maximal run of non-delimiters, null-terminated in place, and saves a position at which
  the remaining string stands; nothing outside the string changes.\<close>

theorem strtok_r_next_token:
  assumes "cstr m d ds" and "cstr m s cs" and "d + length ds < s \<or> s + length cs < d"
  shows "\<exists>tok save m'. strtok_r m s d x = Some (tok, save, m')
    \<and> (\<forall>a. a < s \<or> s + length cs \<le> a \<longrightarrow> m' a = m a)
    \<and> (if tokens (set ds) cs = [] then tok = 0
       else tok \<noteq> 0 \<and> cstr m' tok (hd (tokens (set ds) cs))
         \<and> hd (tokens (set ds) cs) \<noteq> [] \<and> set (hd (tokens (set ds) cs)) \<inter> set ds = {}
         \<and> (\<exists>rest. cstr m' save rest \<and> tokens (set ds) rest = tl (tokens (set ds) cs)))"
proof -
  obtain tok save m' where r: "strtok_r m s d x = Some (tok, save, m')"
      "\<forall>a. a < s \<or> s + length cs \<le> a \<longrightarrow> m' a = m a"
      "if \<forall>c \<in> set cs. c \<in> set ds then tok = 0 \<and> m' = m \<and> cstr m' save []
       else s \<le> tok \<and> tok + length (first_token (set ds) cs) < save + 1
         \<and> cstr m' tok (first_token (set ds) cs)
         \<and> save + length (after_token (set ds) cs) = s + length cs
         \<and> cstr m' save (after_token (set ds) cs)"
    using strtok_r_ok [OF assms, of x] by blast
  show ?thesis
  proof (cases "\<forall>c \<in> set cs. c \<in> set ds")
    case True
    with r show ?thesis by (auto simp: tokens.simps [of "set ds" cs])
  next
    case False
    have "set (first_token (set ds) cs) \<inter> set ds = {}"
      by (auto simp: first_token_def dest: set_takeWhileD)
    moreover have toks: "tokens (set ds) cs = first_token (set ds) cs # tokens (set ds) (after_token (set ds) cs)"
      using False by (simp add: tokens.simps [of "set ds" cs])
    moreover have tok: "cstr m' tok (first_token (set ds) cs)" "cstr m' save (after_token (set ds) cs)"
      using r(3) False by (simp_all split: if_splits)
    ultimately show ?thesis
      using r(1,2) split_token(2) [OF False] cstr_pos [OF tok(1)] by auto
  qed
qed

theorem strtok_r_next_token_witness:
  "\<exists>tok save m'. strtok_r demo_mem 1000 1009 0 = Some (tok, save, m') \<and> tok \<noteq> 0
    \<and> cstr m' tok [101, 99, 104, 111]"
proof -
  have t: "tokens {32} [32, 101, 99, 104, 111, 32, 32, 120] = [[101, 99, 104, 111], [120]]"
    by (simp add: tokens.simps first_token_def after_token_def)
  show ?thesis
    using strtok_r_next_token [of demo_mem 1009 "[32]" 1000 "[32, 101, 99, 104, 111, 32, 32, 120]" 0]
      demo_blk
    by (auto simp: t cstr_def)
qed

end
