(* ===== verification/Block.thy ===== *)
theory Block
  imports KString
begin

text \<open>
  Block devices (devices/block.c).  A device is a record of the fields of struct block; the
  driver behind it is taken to be a disk: its read returns what was written last to the
  sector, which is the field contents.  An access past the end of a device panics (None).
  The registered devices are a list in probe order, and a pointer to a device is its place
  in that list (a device is never unregistered).
\<close>

definition BLOCK_SECTOR_SIZE :: int where "BLOCK_SECTOR_SIZE = 512"

datatype block_type = BLOCK_KERNEL | BLOCK_FILESYS | BLOCK_SCRATCH | BLOCK_SWAP | BLOCK_RAW | BLOCK_FOREIGN

record block =
  block_name :: "byte list"
  block_type :: block_type
  block_size :: nat
  read_cnt :: nat
  write_cnt :: nat
  contents :: "nat \<Rightarrow> byte list"

record blocks =
  all_blocks :: "block list"
  block_by_role :: "block_type \<Rightarrow> nat option"

definition role_ok :: "block_type \<Rightarrow> bool" where
  "role_ok role \<longleftrightarrow> role \<in> {BLOCK_KERNEL, BLOCK_FILESYS, BLOCK_SCRATCH, BLOCK_SWAP}"

definition block_get_role :: "blocks \<Rightarrow> block_type \<Rightarrow> nat option option" where
  "block_get_role s role = do { ASSERT (role_ok role); Some (block_by_role s role) }"

definition block_set_role :: "blocks \<Rightarrow> block_type \<Rightarrow> nat option \<Rightarrow> blocks option" where
  "block_set_role s role p = do {
     ASSERT (role_ok role);
     Some (s\<lparr>block_by_role := (block_by_role s)(role := p)\<rparr>)
   }"

definition list_elem_to_block :: "blocks \<Rightarrow> nat \<Rightarrow> nat option" where
  "list_elem_to_block s p = (if p \<noteq> length (all_blocks s) then Some p else None)"

definition block_first :: "blocks \<Rightarrow> nat option" where
  "block_first s = list_elem_to_block s 0"

definition block_next :: "blocks \<Rightarrow> nat \<Rightarrow> nat option" where
  "block_next s p = list_elem_to_block s (p + 1)"

fun get_by_name_loop :: "block list \<Rightarrow> nat \<Rightarrow> byte list \<Rightarrow> nat option" where
  "get_by_name_loop [] p name = None"
| "get_by_name_loop (b # bs) p name =
     (if cmp_bytes name (block_name b) = 0 then Some p else get_by_name_loop bs (p + 1) name)"

definition block_get_by_name :: "blocks \<Rightarrow> byte list \<Rightarrow> nat option" where
  "block_get_by_name s name = get_by_name_loop (all_blocks s) 0 name"

text \<open>A name is cut to the 15 bytes that fit the field; malloc may fail, which panics.\<close>

definition block_register ::
  "blocks \<Rightarrow> bool \<Rightarrow> byte list \<Rightarrow> block_type \<Rightarrow> nat \<Rightarrow> (nat \<Rightarrow> byte list) \<Rightarrow> (nat \<times> blocks) option" where
  "block_register s malloc_ok name type sz dev =
     (if \<not> malloc_ok then None
      else Some (length (all_blocks s),
        s\<lparr>all_blocks := all_blocks s
            @ [\<lparr>block_name = take 15 name, block_type = type, block_size = sz,
                read_cnt = 0, write_cnt = 0, contents = dev\<rparr>]\<rparr>))"

definition check_sector :: "block \<Rightarrow> nat \<Rightarrow> unit option" where
  "check_sector b sector = (if sector \<ge> block_size b then None else Some ())"

definition block_read :: "block \<Rightarrow> nat \<Rightarrow> (byte list \<times> block) option" where
  "block_read b sector = do {
     check_sector b sector;
     Some (contents b sector, b\<lparr>read_cnt := (read_cnt b + 1) mod 2 ^ 64\<rparr>)
   }"

definition block_write :: "block \<Rightarrow> nat \<Rightarrow> byte list \<Rightarrow> block option" where
  "block_write b sector buffer = do {
     check_sector b sector;
     ASSERT (block_type b \<noteq> BLOCK_FOREIGN);
     Some (b\<lparr>contents := (contents b)(sector := buffer), write_cnt := (write_cnt b + 1) mod 2 ^ 64\<rparr>)
   }"

section \<open>Facts\<close>

text \<open>A device that holds whole sectors and may be written.\<close>

definition dev_ok :: "block \<Rightarrow> bool" where
  "dev_ok b \<longleftrightarrow> block_type b \<noteq> BLOCK_FOREIGN \<and> block_size b < 2 ^ 32 - 1
     \<and> (\<forall>i < block_size b. length (contents b i) = 512)"

lemma block_read_ok:
  "sector < block_size b \<Longrightarrow> block_read b sector = Some (contents b sector, b\<lparr>read_cnt := (read_cnt b + 1) mod 2 ^ 64\<rparr>)"
  by (simp add: block_read_def check_sector_def)

lemma block_write_ok:
  "sector < block_size b \<Longrightarrow> block_type b \<noteq> BLOCK_FOREIGN \<Longrightarrow>
     block_write b sector buf =
       Some (b\<lparr>contents := (contents b)(sector := buf), write_cnt := (write_cnt b + 1) mod 2 ^ 64\<rparr>)"
  by (simp add: block_write_def check_sector_def)

lemma block_read_panics: "\<not> sector < block_size b \<Longrightarrow> block_read b sector = None"
  by (simp add: block_read_def check_sector_def)

end
