(* ===== verification/Inode.thy ===== *)
theory Inode
  imports Bitmap Block
begin

text \<open>
  Inodes (filesys/inode.c), open files (filesys/file.c) and the free map
  (filesys/free-map.c) over one file system state.  The objects that malloc hands out (open
  inodes, files, directories) live in maps from pointers, so that two openers of an inode
  share it, as the source's do; 0 is the null pointer.  The field allocs tells the results
  of the coming allocations (false: no memory); when it is empty they all succeed.  An
  off_t is an integer, a sector number a natural below 2 ^ 32.
\<close>

section \<open>State\<close>

record inode_disk =
  start :: nat
  dlength :: int
  magic :: nat
  unused :: "byte list"

record inode =
  sector :: nat
  open_cnt :: int
  removed :: bool
  deny_write_cnt :: int
  idata :: inode_disk

record kfile =
  file_inode :: nat
  pos :: int
  deny_write :: bool

record dir =
  dir_inode :: nat
  dir_pos :: int

record fs =
  fs_device :: block
  inodes :: "nat \<Rightarrow> inode option"
  open_inodes :: "nat list"
  files :: "nat \<Rightarrow> kfile option"
  dirs :: "nat \<Rightarrow> dir option"
  free_map :: bitmap
  free_map_file :: nat
  brk :: nat
  allocs :: "bool list"

definition INODE_MAGIC :: nat where "INODE_MAGIC = 0x494e4f44"
definition FREE_MAP_SECTOR :: nat where "FREE_MAP_SECTOR = 0"
definition ROOT_DIR_SECTOR :: nat where "ROOT_DIR_SECTOR = 1"

definition malloc_ok :: "fs \<Rightarrow> bool \<times> fs" where
  "malloc_ok s = (case allocs s of [] \<Rightarrow> (True, s) | b # bs \<Rightarrow> (b, s\<lparr>allocs := bs\<rparr>))"

text \<open>A new object: its pointer, or 0.\<close>

definition new_ptr :: "fs \<Rightarrow> nat \<times> fs" where
  "new_ptr s = (let (ok, s) = malloc_ok s in if ok then (brk s, s\<lparr>brk := brk s + 1\<rparr>) else (0, s))"

section \<open>The on-disk inode\<close>

definition le32 :: "nat \<Rightarrow> byte list" where
  "le32 x = [word_of_nat x, word_of_nat (x div 2 ^ 8), word_of_nat (x div 2 ^ 16), word_of_nat (x div 2 ^ 24)]"

definition rd32 :: "byte list \<Rightarrow> nat" where
  "rd32 bs = unat (bs ! 0) + 2 ^ 8 * unat (bs ! 1) + 2 ^ 16 * unat (bs ! 2) + 2 ^ 24 * unat (bs ! 3)"

definition encode_inode :: "inode_disk \<Rightarrow> byte list" where
  "encode_inode d = le32 (start d) @ le32 (nat (dlength d mod 2 ^ 32)) @ le32 (magic d) @ unused d"

definition decode_inode :: "byte list \<Rightarrow> inode_disk" where
  "decode_inode bs =
     \<lparr>start = rd32 bs, dlength = wrap32 (int (rd32 (drop 4 bs))), magic = rd32 (drop 8 bs),
      unused = drop 12 bs\<rparr>"

definition bytes_to_sectors :: "int \<Rightarrow> nat" where
  "bytes_to_sectors sz = nat ((sz + BLOCK_SECTOR_SIZE - 1) sdiv BLOCK_SECTOR_SIZE)"

definition byte_to_sector :: "inode \<Rightarrow> int \<Rightarrow> nat" where
  "byte_to_sector i p =
     (if p < dlength (idata i) then nat ((int (start (idata i)) + p sdiv BLOCK_SECTOR_SIZE) mod 2 ^ 32)
      else 2 ^ 32 - 1)"

definition inode_length :: "inode \<Rightarrow> int" where
  "inode_length i = dlength (idata i)"

section \<open>Reading and writing\<close>

definition chunk_size :: "inode \<Rightarrow> int \<Rightarrow> int \<Rightarrow> int" where
  "chunk_size i sz offset =
     (let sector_ofs = offset smod BLOCK_SECTOR_SIZE;
          inode_left = inode_length i - offset;
          sector_left = BLOCK_SECTOR_SIZE - sector_ofs;
          min_left = (if inode_left < sector_left then inode_left else sector_left)
      in if sz < min_left then sz else min_left)"

definition dev_read :: "fs \<Rightarrow> nat \<Rightarrow> (byte list \<times> fs) option" where
  "dev_read s sec = do { (d, b) \<leftarrow> block_read (fs_device s) sec; Some (d, s\<lparr>fs_device := b\<rparr>) }"

definition dev_write :: "fs \<Rightarrow> nat \<Rightarrow> byte list \<Rightarrow> fs option" where
  "dev_write s sec d = do { b \<leftarrow> block_write (fs_device s) sec d; Some (s\<lparr>fs_device := b\<rparr>) }"

text \<open>The buffer is the list of the bytes read so far; bounce tells whether the bounce
  buffer has been allocated.\<close>

function inode_read_loop :: "inode \<Rightarrow> int \<Rightarrow> int \<Rightarrow> bool \<Rightarrow> byte list \<Rightarrow> fs \<Rightarrow> (byte list \<times> fs) option" where
  "inode_read_loop i sz offset bounce buffer s =
     (if \<not> sz > 0 then Some (buffer, s)
      else
        (let sector_idx = byte_to_sector i offset;
             sector_ofs = offset smod BLOCK_SECTOR_SIZE;
             chunk = chunk_size i sz offset
         in if chunk \<le> 0 then Some (buffer, s)
            else if sector_ofs = 0 \<and> chunk = BLOCK_SECTOR_SIZE then do {
              (d, s) \<leftarrow> dev_read s sector_idx;
              inode_read_loop i (sz - chunk) (offset + chunk) bounce (buffer @ d) s
            }
            else
              (let (ok, s) = (if bounce then (True, s) else malloc_ok s)
               in if \<not> ok then Some (buffer, s)
                  else do {
                    (d, s) \<leftarrow> dev_read s sector_idx;
                    inode_read_loop i (sz - chunk) (offset + chunk) True
                      (buffer @ take (nat chunk) (drop (nat sector_ofs) d)) s
                  })))"
  by pat_completeness auto
termination
  by (relation "measure (\<lambda>(i, sz, offset, bounce, buffer, s). nat sz)") auto

definition inode_read_at :: "inode \<Rightarrow> int \<Rightarrow> int \<Rightarrow> fs \<Rightarrow> (byte list \<times> fs) option" where
  "inode_read_at i sz offset s = inode_read_loop i sz offset False [] s"

text \<open>The second component counts the bytes written.\<close>

function inode_write_loop ::
  "inode \<Rightarrow> byte list \<Rightarrow> int \<Rightarrow> int \<Rightarrow> bool \<Rightarrow> int \<Rightarrow> fs \<Rightarrow> (int \<times> fs) option" where
  "inode_write_loop i buffer sz offset bounce bytes_written s =
     (if \<not> sz > 0 then Some (bytes_written, s)
      else
        (let sector_idx = byte_to_sector i offset;
             sector_ofs = offset smod BLOCK_SECTOR_SIZE;
             sector_left = BLOCK_SECTOR_SIZE - sector_ofs;
             chunk = chunk_size i sz offset;
             src = take (nat chunk) (drop (nat bytes_written) buffer)
         in if chunk \<le> 0 then Some (bytes_written, s)
            else if sector_ofs = 0 \<and> chunk = BLOCK_SECTOR_SIZE then do {
              s \<leftarrow> dev_write s sector_idx src;
              inode_write_loop i buffer (sz - chunk) (offset + chunk) bounce (bytes_written + chunk) s
            }
            else
              (let (ok, s) = (if bounce then (True, s) else malloc_ok s)
               in if \<not> ok then Some (bytes_written, s)
                  else do {
                    (d, s) \<leftarrow> (if sector_ofs > 0 \<or> chunk < sector_left then dev_read s sector_idx
                               else Some (replicate 512 0, s));
                    let d = take (nat sector_ofs) d @ src @ drop (nat (sector_ofs + chunk)) d;
                    s \<leftarrow> dev_write s sector_idx d;
                    inode_write_loop i buffer (sz - chunk) (offset + chunk) True (bytes_written + chunk) s
                  })))"
  by pat_completeness auto
termination
  by (relation "measure (\<lambda>(i, buffer, sz, offset, bounce, bw, s). nat sz)") auto

definition inode_write_at :: "inode \<Rightarrow> byte list \<Rightarrow> int \<Rightarrow> int \<Rightarrow> fs \<Rightarrow> (int \<times> fs) option" where
  "inode_write_at i buffer sz offset s =
     (if deny_write_cnt i \<noteq> 0 then Some (0, s)
      else inode_write_loop i buffer sz offset False 0 s)"

declare inode_read_loop.simps [simp del] inode_write_loop.simps [simp del]

end
