(* ===== verification/InodeRW.thy ===== *)
theory InodeRW
  imports Inode
begin

text \<open>
  What reading and writing an inode does, in terms of the bytes of the file it describes:
  a read returns the bytes of the range that lies in the file, a write changes these bytes
  and nothing else on the device, whatever the alignment of the range.
\<close>

section \<open>The bytes of a file\<close>

definition fbyte :: "block \<Rightarrow> inode_disk \<Rightarrow> nat \<Rightarrow> byte" where
  "fbyte b d k = contents b (start d + k div 512) ! (k mod 512)"

definition file_bytes :: "block \<Rightarrow> inode_disk \<Rightarrow> byte list" where
  "file_bytes b d = map (fbyte b d) [0 ..< nat (dlength d)]"

text \<open>The data of the inode lies on the device.\<close>

definition data_ok :: "block \<Rightarrow> inode_disk \<Rightarrow> bool" where
  "data_ok b d \<longleftrightarrow> dev_ok b \<and> 0 \<le> dlength d \<and> dlength d < 2 ^ 31
     \<and> start d + bytes_to_sectors (dlength d) \<le> block_size b"

text \<open>States that differ in the read counter and the allocations to come.\<close>

definition quiet :: "fs \<Rightarrow> fs \<Rightarrow> bool" where
  "quiet s s' \<longleftrightarrow> (\<exists>rc os. s' = s\<lparr>fs_device := (fs_device s)\<lparr>read_cnt := rc\<rparr>, allocs := os\<rparr>)"

lemma quiet_refl [simp]: "quiet s s"
proof -
  have "s = s\<lparr>fs_device := (fs_device s)\<lparr>read_cnt := read_cnt (fs_device s)\<rparr>, allocs := allocs s\<rparr>" by simp
  then show ?thesis unfolding quiet_def by blast
qed

lemma quiet_trans:
  assumes "quiet s s'" and "quiet s' s''"
  shows "quiet s s''"
proof -
  obtain rc os where 1: "s' = s\<lparr>fs_device := (fs_device s)\<lparr>read_cnt := rc\<rparr>, allocs := os\<rparr>"
    using assms(1) by (auto simp: quiet_def)
  obtain rc' os' where 2: "s'' = s'\<lparr>fs_device := (fs_device s')\<lparr>read_cnt := rc'\<rparr>, allocs := os'\<rparr>"
    using assms(2) by (auto simp: quiet_def)
  have "s'' = s\<lparr>fs_device := (fs_device s)\<lparr>read_cnt := rc'\<rparr>, allocs := os'\<rparr>" by (simp add: 1 2)
  then show ?thesis unfolding quiet_def by blast
qed

lemma quiet_dev:
  assumes "quiet s s'"
  shows "contents (fs_device s') = contents (fs_device s)" "block_size (fs_device s') = block_size (fs_device s)"
    "block_type (fs_device s') = block_type (fs_device s)"
    "inodes s' = inodes s" "open_inodes s' = open_inodes s" "files s' = files s" "dirs s' = dirs s"
    "free_map s' = free_map s" "free_map_file s' = free_map_file s" "brk s' = brk s"
  using assms by (auto simp: quiet_def)

lemma bytes_to_sectors_nat: "0 \<le> n \<Longrightarrow> bytes_to_sectors n = (nat n + 511) div 512"
proof -
  assume "0 \<le> n"
  then have "nat ((n + 511) sdiv 512) = nat (n + 511) div nat 512"
    by (simp add: sdiv_nonneg nat_div_distrib)
  then show ?thesis using \<open>0 \<le> n\<close> by (simp add: bytes_to_sectors_def BLOCK_SECTOR_SIZE_def nat_add_distrib add.commute)
qed

lemma fbyte_cong: "contents b' = contents b \<Longrightarrow> fbyte b' = fbyte b"
  by (intro ext) (simp add: fbyte_def)

lemma data_ok_cong:
  "contents b' = contents b \<Longrightarrow> block_size b' = block_size b \<Longrightarrow> block_type b' = block_type b
     \<Longrightarrow> data_ok b' d = data_ok b d"
  by (simp add: data_ok_def dev_ok_def)

lemma sector_in_data:
  assumes "data_ok b d" and "int k < dlength d"
  shows "start d + k div 512 < block_size b"
    and "k div 512 < bytes_to_sectors (dlength d)"
proof -
  have "k div 512 < (nat (dlength d) + 511) div 512" using assms(2) by linarith
  then show s: "k div 512 < bytes_to_sectors (dlength d)"
    using assms by (simp add: bytes_to_sectors_nat data_ok_def)
  with assms(1) show "start d + k div 512 < block_size b" by (simp add: data_ok_def)
qed

lemma byte_to_sector_in:
  assumes "data_ok b (idata i)" and "int k < dlength (idata i)"
  shows "byte_to_sector i (int k) = start (idata i) + k div 512"
proof -
  have lt: "start (idata i) + k div 512 < 2 ^ 32"
    using sector_in_data(1) [OF assms] assms(1) by (simp add: data_ok_def dev_ok_def)
  have "(int (start (idata i)) + int k sdiv 512) = int (start (idata i) + k div 512)"
    by (simp add: sdiv_nonneg zdiv_int)
  then show ?thesis using assms(2) lt
    by (simp add: byte_to_sector_def BLOCK_SECTOR_SIZE_def del: of_nat_add)
qed

text \<open>The size of the next chunk, as a natural number.\<close>

definition chunk_len :: "inode \<Rightarrow> nat \<Rightarrow> nat \<Rightarrow> nat" where
  "chunk_len i n k = min n (min (nat (dlength (idata i)) - k) (512 - k mod 512))"

lemma smod_512: "int k smod 512 = int (k mod 512)"
  by (cases "k = 0") (simp_all add: signed_modulo_int_def zmod_int)

lemma smod_sector: "int k smod BLOCK_SECTOR_SIZE = int (k mod 512)"
  by (simp add: BLOCK_SECTOR_SIZE_def smod_512)

lemma chunk_size_in:
  assumes "int k < dlength (idata i)" and "0 < sz"
  shows "chunk_size i sz (int k) = int (chunk_len i (nat sz) k)"
proof -
  obtain n where n: "sz = int n" using assms(2) zero_le_imp_eq_int [of sz] by auto
  obtain L where L: "dlength (idata i) = int L"
    using assms(1) zero_le_imp_eq_int [of "dlength (idata i)"] by auto
  have m: "k mod 512 < 512" by simp
  have kL: "k < L" using assms(1) L by simp
  define r where "r = k mod 512"
  have "chunk_size i sz (int k) =
      (let q = (if int L - int k < 512 - int r then int L - int k else 512 - int r)
       in if int n < q then int n else q)"
    by (simp add: chunk_size_def smod_512 BLOCK_SECTOR_SIZE_def inode_length_def n L r_def Let_def)
  also have "\<dots> = int (min n (min (L - k) (512 - r)))"
    using kL m unfolding r_def [symmetric] by (auto simp: Let_def min_def of_nat_diff)
  finally show ?thesis by (simp add: chunk_len_def n L r_def)
qed

lemma chunk_size_out: "dlength (idata i) \<le> int k \<Longrightarrow> chunk_size i sz (int k) \<le> 0"
  by (simp add: chunk_size_def Let_def inode_length_def)

lemma chunk_len_pos: "int k < dlength (idata i) \<Longrightarrow> 0 < n \<Longrightarrow> 0 < chunk_len i n k"
  using mod_less_divisor [of 512 k] by (simp add: chunk_len_def)

lemma chunk_len_le: "chunk_len i n k \<le> n" "k mod 512 + chunk_len i n k \<le> 512"
  "int k < dlength (idata i) \<Longrightarrow> int (k + chunk_len i n k) \<le> dlength (idata i)"
  using mod_less_divisor [of 512 k] by (auto simp: chunk_len_def min_def)

lemma same_sector:
  assumes "k mod 512 + j < 512"
  shows "(k + j) div 512 = k div (512::nat)" and "(k + j) mod 512 = k mod 512 + j"
proof -
  have "k + j = k div 512 * 512 + (k mod 512 + j)" by simp
  with assms show "(k + j) div 512 = k div 512" and "(k + j) mod 512 = k mod 512 + j"
    by (metis div_less div_mult_self3 mod_less mod_mult_self3 add.right_neutral zero_neq_numeral)+
qed

lemma chunk_bytes:
  assumes "data_ok b d" and "int k < dlength d" and "k mod 512 + c \<le> 512"
  shows "take c (drop (k mod 512) (contents b (start d + k div 512))) = map (fbyte b d) [k ..< k + c]"
proof (rule nth_equalityI)
  have len: "length (contents b (start d + k div 512)) = 512"
    using assms(1) sector_in_data(1) [OF assms(1,2)] by (simp add: data_ok_def dev_ok_def)
  then show "length (take c (drop (k mod 512) (contents b (start d + k div 512)))) = length (map (fbyte b d) [k ..< k + c])"
    using assms(3) by simp
  fix j assume "j < length (take c (drop (k mod 512) (contents b (start d + k div 512))))"
  then have j: "j < c" "k mod 512 + j < 512" using assms(3) len by auto
  then show "take c (drop (k mod 512) (contents b (start d + k div 512))) ! j = map (fbyte b d) [k ..< k + c] ! j"
    using same_sector [OF j(2)] by (simp add: fbyte_def len)
qed

section \<open>Reading\<close>

lemma malloc_ok_nil [simp]: "allocs s = [] \<Longrightarrow> malloc_ok s = (True, s)"
  by (simp add: malloc_ok_def)

lemma dev_read_in:
  assumes "data_ok (fs_device s) (idata i)" and "int k < dlength (idata i)"
  shows "\<exists>s1. dev_read s (byte_to_sector i (int k)) = Some (contents (fs_device s) (start (idata i) + k div 512), s1)
    \<and> quiet s s1 \<and> allocs s1 = allocs s"
proof -
  let ?b = "fs_device s"
  let ?s1 = "s\<lparr>fs_device := ?b\<lparr>read_cnt := (read_cnt ?b + 1) mod 2 ^ 64\<rparr>\<rparr>"
  have "dev_read s (byte_to_sector i (int k)) = Some (contents ?b (start (idata i) + k div 512), ?s1)"
    using sector_in_data(1) [OF assms] by (simp add: dev_read_def byte_to_sector_in [OF assms] block_read_ok)
  moreover have "quiet s ?s1" unfolding quiet_def
    by (rule exI [of _ "(read_cnt ?b + 1) mod 2 ^ 64"], rule exI [of _ "allocs s"]) simp
  ultimately show ?thesis by auto
qed

lemma range_split: "k \<le> m \<Longrightarrow> m \<le> (n::nat) \<Longrightarrow> [k ..< n] = [k ..< m] @ [m ..< n]"
  using upt_add_eq_append [of k m "n - m"] by simp

lemma inode_read_loop_ok:
  "data_ok (fs_device s) (idata i) \<Longrightarrow> allocs s = []
     \<Longrightarrow> \<exists>s'. inode_read_loop i (int n) (int k) bounce buf s =
           Some (buf @ map (fbyte (fs_device s) (idata i)) [k ..< min (k + n) (nat (dlength (idata i)))], s')
         \<and> quiet s s' \<and> allocs s' = []"
proof (induction n arbitrary: k bounce buf s rule: less_induct)
  case (less n)
  let ?d = "idata i" and ?L = "nat (dlength (idata i))" and ?b = "fs_device s"
  note unf = inode_read_loop.simps [of i "int n" "int k" bounce buf s]
  show ?case
  proof (cases "n = 0 \<or> dlength ?d \<le> int k")
    case True
    then have "[k ..< min (k + n) ?L] = []" by auto
    moreover have "inode_read_loop i (int n) (int k) bounce buf s = Some (buf, s)"
      using True chunk_size_out [of i k "int n"] by (subst unf) (auto simp: Let_def)
    ultimately show ?thesis using less.prems by auto
  next
    case False
    then have k: "int k < dlength ?d" and n: "0 < n" by simp_all
    define c where "c = chunk_len i n k"
    have cs: "chunk_size i (int n) (int k) = int c" using chunk_size_in [OF k, of "int n"] n by (simp add: c_def)
    have c: "0 < c" "c \<le> n" "k mod 512 + c \<le> 512" "int (k + c) \<le> dlength ?d"
      using chunk_len_pos [OF k n] chunk_len_le(1) [of i n k] chunk_len_le(2) [of k i n] chunk_len_le(3) [OF k, of n]
      by (simp_all add: c_def)
    obtain s1 where rd: "dev_read s (byte_to_sector i (int k)) = Some (contents ?b (start ?d + k div 512), s1)"
        and q1: "quiet s s1" "allocs s1 = []"
      using dev_read_in [OF less.prems(1) k] less.prems(2) by auto
    have ok1: "data_ok (fs_device s1) ?d"
      using less.prems(1) quiet_dev [OF q1(1)] data_ok_cong by metis
    have fb: "fbyte (fs_device s1) = fbyte ?b" using quiet_dev(1) [OF q1(1)] by (rule fbyte_cong)
    have bytes: "take c (drop (k mod 512) (contents ?b (start ?d + k div 512))) = map (fbyte ?b ?d) [k ..< k + c]"
      by (rule chunk_bytes [OF less.prems(1) k c(3)])
    define buf1 where "buf1 = buf @ map (fbyte ?b ?d) [k ..< k + c]"
    have step: "\<exists>bn. inode_read_loop i (int n) (int k) bounce buf s =
        inode_read_loop i (int (n - c)) (int (k + c)) bn buf1 s1"
    proof (cases "k mod 512 = 0 \<and> c = 512")
      case True
      have "length (contents ?b (start ?d + k div 512)) = 512"
        using less.prems(1) sector_in_data(1) [OF less.prems(1) k] by (simp add: data_ok_def dev_ok_def)
      with True bytes have "contents ?b (start ?d + k div 512) = map (fbyte ?b ?d) [k ..< k + c]" by simp
      then show ?thesis
        using rd True n c less.prems(2) unfolding buf1_def
        by (subst unf) (auto simp: Let_def cs smod_512 BLOCK_SECTOR_SIZE_def of_nat_diff)
    next
      case False
      then show ?thesis
        using rd n c less.prems(2) bytes unfolding buf1_def
        by (subst unf) (auto simp: Let_def cs smod_512 BLOCK_SECTOR_SIZE_def of_nat_diff)
    qed
    then obtain bn where step: "inode_read_loop i (int n) (int k) bounce buf s =
        inode_read_loop i (int (n - c)) (int (k + c)) bn buf1 s1" by blast
    obtain s' where s': "inode_read_loop i (int (n - c)) (int (k + c)) bn buf1 s1 =
        Some (buf1 @ map (fbyte (fs_device s1) ?d) [k + c ..< min (k + c + (n - c)) ?L], s')"
        "quiet s1 s'" "allocs s' = []"
      using less.IH [of "n - c" s1 "k + c" bn buf1] ok1 q1(2) c by auto
    have "[k ..< min (k + n) ?L] = [k ..< k + c] @ [k + c ..< min (k + n) ?L]"
      by (rule range_split) (use c in auto)
    then have "buf1 @ map (fbyte (fs_device s1) ?d) [k + c ..< min (k + c + (n - c)) ?L]
        = buf @ map (fbyte ?b ?d) [k ..< min (k + n) ?L]"
      using c by (simp add: buf1_def fb)
    with step s' quiet_trans [OF q1(1) s'(2)] show ?thesis by auto
  qed
qed

lemma inode_read_at_ok:
  assumes "data_ok (fs_device s) (idata i)" and "allocs s = []" and "0 \<le> offset"
  shows "\<exists>s'. inode_read_at i sz offset s =
      Some (take (nat sz) (drop (nat offset) (file_bytes (fs_device s) (idata i))), s')
    \<and> quiet s s' \<and> allocs s' = []"
proof (cases "0 \<le> sz")
  case True
  let ?L = "nat (dlength (idata i))"
  have "take (nat sz) (drop (nat offset) (file_bytes (fs_device s) (idata i)))
      = map (fbyte (fs_device s) (idata i)) [nat offset ..< min (nat offset + nat sz) ?L]"
    by (simp add: file_bytes_def drop_map take_map min_def)
  with inode_read_loop_ok [OF assms(1,2), of "nat sz" "nat offset" False "[]"] True assms(3)
  show ?thesis by (simp add: inode_read_at_def)
next
  case False
  then show ?thesis using assms(2) by (simp add: inode_read_at_def inode_read_loop.simps)
qed

section \<open>Writing\<close>

text \<open>\<open>wrote d k bs s s'\<close>: s' is s with the bytes bs at offset k of the data of d; the other
  bytes of its sectors and all other sectors are as before.\<close>

definition data_bytes :: "inode_disk \<Rightarrow> nat" where
  "data_bytes d = 512 * bytes_to_sectors (dlength d)"

definition wrote :: "inode_disk \<Rightarrow> nat \<Rightarrow> byte list \<Rightarrow> fs \<Rightarrow> fs \<Rightarrow> bool" where
  "wrote d k bs s s' \<longleftrightarrow>
     s' = s\<lparr>fs_device := fs_device s', allocs := allocs s'\<rparr> \<and> dev_ok (fs_device s')
     \<and> block_size (fs_device s') = block_size (fs_device s)
     \<and> block_type (fs_device s') = block_type (fs_device s)
     \<and> (\<forall>j < data_bytes d. fbyte (fs_device s') d j =
          (if k \<le> j \<and> j < k + length bs then bs ! (j - k) else fbyte (fs_device s) d j))
     \<and> (\<forall>sec. sec < start d \<or> start d + bytes_to_sectors (dlength d) \<le> sec \<longrightarrow>
          contents (fs_device s') sec = contents (fs_device s) sec)"

lemma wrote_nil: "dev_ok (fs_device s) \<Longrightarrow> wrote d k [] s s"
  unfolding wrote_def by auto

lemma wrote_data_ok: "wrote d k bs s s' \<Longrightarrow> data_ok (fs_device s) d \<Longrightarrow> data_ok (fs_device s') d"
  by (simp add: wrote_def data_ok_def)

lemma fs_step:
  assumes "s2 = s1\<lparr>fs_device := b, allocs := os\<rparr>" and "s1 = s\<lparr>fs_device := b1, allocs := os1\<rparr>"
  shows "s2 = s\<lparr>fs_device := b, allocs := os\<rparr>"
  by (simp add: assms)

lemma wrote_trans:
  assumes 1: "wrote d k bs s s1" and 2: "wrote d (k + length bs) cs s1 s2"
  shows "wrote d k (bs @ cs) s s2"
proof -
  have "s2 = s1\<lparr>fs_device := fs_device s2, allocs := allocs s2\<rparr>"
    and "s1 = s\<lparr>fs_device := fs_device s1, allocs := allocs s1\<rparr>"
    using 1 2 by (simp_all add: wrote_def)
  then have st: "s2 = s\<lparr>fs_device := fs_device s2, allocs := allocs s2\<rparr>"
    by (rule fs_step)
  have "fbyte (fs_device s2) d j =
      (if k \<le> j \<and> j < k + length (bs @ cs) then (bs @ cs) ! (j - k) else fbyte (fs_device s) d j)"
    if "j < data_bytes d" for j
    using 1 2 that by (auto simp: wrote_def nth_append)
  with st 1 2 show ?thesis by (simp add: wrote_def)
qed

text \<open>One sector: the chunk replaces part of its content.\<close>

definition splice_bytes :: "nat \<Rightarrow> byte list \<Rightarrow> byte list \<Rightarrow> byte list" where
  "splice_bytes r src old = take r old @ src @ drop (r + length src) old"

lemma splice_bytes_nth:
  assumes "r + length src \<le> length old" and "j < length old"
  shows "splice_bytes r src old ! j = (if r \<le> j \<and> j < r + length src then src ! (j - r) else old ! j)"
  using assms by (auto simp: splice_bytes_def nth_append min_def)

lemma splice_bytes_length: "r + length src \<le> length old \<Longrightarrow> length (splice_bytes r src old) = length old"
  by (simp add: splice_bytes_def)

lemma sector_pos:
  assumes "j div 512 = k div (512::nat)" and "k mod 512 + c \<le> 512"
  shows "k mod 512 \<le> j mod 512 \<and> j mod 512 < k mod 512 + c \<longleftrightarrow> k \<le> j \<and> j < k + c"
    and "k \<le> j \<Longrightarrow> j mod 512 - k mod 512 = j - k"
proof -
  define q where "q = k div 512"
  have j: "j = q * 512 + j mod 512" and k: "k = q * 512 + k mod 512"
    using assms(1) div_mult_mod_eq [of j 512] div_mult_mod_eq [of k 512] by (simp_all add: q_def)
  show "k mod 512 \<le> j mod 512 \<and> j mod 512 < k mod 512 + c \<longleftrightarrow> k \<le> j \<and> j < k + c"
    using j k by linarith
  show "k \<le> j \<Longrightarrow> j mod 512 - k mod 512 = j - k" using j k by linarith
qed

lemma other_sector:
  assumes "j div 512 \<noteq> k div (512::nat)" and "k mod 512 + c \<le> 512"
  shows "\<not> (k \<le> j \<and> j < k + c)"
proof
  assume "k \<le> j \<and> j < k + c"
  then have "k mod 512 + (j - k) < 512" and "k + (j - k) = j" using assms(2) by auto
  with same_sector(1) [of k "j - k"] assms(1) show False by simp
qed

lemma write_sector:
  assumes ok: "data_ok (fs_device s) d" and k: "int k < dlength d"
    and c: "k mod 512 + length src \<le> 512"
  shows "\<exists>s1. dev_write s (start d + k div 512)
      (splice_bytes (k mod 512) src (contents (fs_device s) (start d + k div 512))) = Some s1
    \<and> wrote d k src s s1 \<and> allocs s1 = allocs s"
proof -
  let ?b = "fs_device s" and ?sec = "start d + k div 512"
  let ?new = "splice_bytes (k mod 512) src (contents ?b ?sec)"
  let ?b1 = "?b\<lparr>contents := (contents ?b)(?sec := ?new), write_cnt := (write_cnt ?b + 1) mod 2 ^ 64\<rparr>"
  have sec: "?sec < block_size ?b" "k div 512 < bytes_to_sectors (dlength d)"
    using sector_in_data [OF ok k] by simp_all
  have dev: "dev_ok ?b" using ok by (simp add: data_ok_def)
  have old: "length (contents ?b ?sec) = 512" using dev sec(1) by (simp add: dev_ok_def)
  have new: "length ?new = 512" using old c by (simp add: splice_bytes_length)
  have "dev_write s ?sec ?new = Some (s\<lparr>fs_device := ?b1\<rparr>)"
    using sec(1) dev by (simp add: dev_write_def block_write_ok dev_ok_def)
  moreover have "wrote d k src s (s\<lparr>fs_device := ?b1\<rparr>)"
  proof -
    have "fbyte ?b1 d j = (if k \<le> j \<and> j < k + length src then src ! (j - k) else fbyte ?b d j)" for j
    proof (cases "j div 512 = k div 512")
      case True
      have "fbyte ?b1 d j = ?new ! (j mod 512)" by (simp add: fbyte_def True)
      also have "\<dots> = (if k mod 512 \<le> j mod 512 \<and> j mod 512 < k mod 512 + length src
          then src ! (j mod 512 - k mod 512) else contents ?b ?sec ! (j mod 512))"
        using c old by (intro splice_bytes_nth) simp_all
      also have "contents ?b ?sec ! (j mod 512) = fbyte ?b d j" by (simp add: fbyte_def True)
      finally show ?thesis using sector_pos [OF True c] by (auto simp del: fun_upd_apply)
    next
      case False
      then have "fbyte ?b1 d j = fbyte ?b d j" by (simp add: fbyte_def)
      with other_sector [OF False c] show ?thesis by (auto simp del: fun_upd_apply)
    qed
    moreover have "dev_ok ?b1" using dev new by (simp add: dev_ok_def)
    ultimately show ?thesis using sec(2) by (auto simp: wrote_def)
  qed
  ultimately show ?thesis by auto
qed

lemma quiet_wrote:
  assumes q: "quiet s s1" and w: "wrote d k bs s1 s2"
  shows "wrote d k bs s s2"
proof -
  obtain rc os where s1: "s1 = s\<lparr>fs_device := (fs_device s)\<lparr>read_cnt := rc\<rparr>, allocs := os\<rparr>"
    using q by (auto simp: quiet_def)
  have fb: "fbyte (fs_device s1) = fbyte (fs_device s)" by (rule fbyte_cong) (simp add: s1)
  have "s2 = s1\<lparr>fs_device := fs_device s2, allocs := allocs s2\<rparr>" using w by (simp add: wrote_def)
  then have "s2 = s\<lparr>fs_device := fs_device s2, allocs := allocs s2\<rparr>" by (simp add: s1)
  with w fb show ?thesis by (simp add: wrote_def) (simp add: s1)
qed

lemma take_drop_split: "take m (drop w xs) = take c (drop w xs) @ take (m - c) (drop (w + c) xs)"
  if "c \<le> m" for xs :: "'a list"
  using that take_add [of c "m - c" "drop w xs"] by (simp add: add.commute)

lemma inode_write_loop_ok:
  "data_ok (fs_device s) (idata i) \<Longrightarrow> allocs s = [] \<Longrightarrow> w + n \<le> length buffer
     \<Longrightarrow> \<exists>s'. inode_write_loop i buffer (int n) (int k) bounce (int w) s
           = Some (int (w + min n (nat (dlength (idata i)) - k)), s')
         \<and> wrote (idata i) k (take (min n (nat (dlength (idata i)) - k)) (drop w buffer)) s s'
         \<and> allocs s' = []"
proof (induction n arbitrary: k w bounce s rule: less_induct)
  case (less n)
  let ?d = "idata i" and ?L = "nat (dlength (idata i))" and ?b = "fs_device s"
  note unf = inode_write_loop.simps [of i buffer "int n" "int k" bounce "int w" s]
  show ?case
  proof (cases "n = 0 \<or> dlength ?d \<le> int k")
    case True
    then have m: "min n (?L - k) = 0" by auto
    moreover have "inode_write_loop i buffer (int n) (int k) bounce (int w) s = Some (int w, s)"
      using True chunk_size_out [of i k "int n"] by (subst unf) (auto simp: Let_def)
    ultimately show ?thesis
      using less.prems wrote_nil [of s ?d k] by (simp add: data_ok_def)
  next
    case False
    then have k: "int k < dlength ?d" and n: "0 < n" by simp_all
    define c where "c = chunk_len i n k"
    have cs: "chunk_size i (int n) (int k) = int c" using chunk_size_in [OF k, of "int n"] n by (simp add: c_def)
    have c: "0 < c" "c \<le> n" "k mod 512 + c \<le> 512" "int (k + c) \<le> dlength ?d"
      using chunk_len_pos [OF k n] chunk_len_le(1) [of i n k] chunk_len_le(2) [of k i n] chunk_len_le(3) [OF k, of n]
      by (simp_all add: c_def)
    define src where "src = take c (drop w buffer)"
    have src: "length src = c" using c less.prems(3) by (simp add: src_def)
    let ?sec = "start ?d + k div 512"
    have old: "length (contents ?b ?sec) = 512"
      using less.prems(1) sector_in_data(1) [OF less.prems(1) k] by (simp add: data_ok_def dev_ok_def)
    have idx: "byte_to_sector i (int k) = ?sec" by (rule byte_to_sector_in [OF less.prems(1) k])
    have step: "\<exists>bn s1. inode_write_loop i buffer (int n) (int k) bounce (int w) s
        = inode_write_loop i buffer (int (n - c)) (int (k + c)) bn (int (w + c)) s1
        \<and> wrote ?d k src s s1 \<and> allocs s1 = []"
    proof (cases "k mod 512 = 0 \<and> c = 512")
      case True
      obtain s1 where s1: "dev_write s ?sec (splice_bytes (k mod 512) src (contents ?b ?sec)) = Some s1"
          "wrote ?d k src s s1" "allocs s1 = allocs s"
        using write_sector [OF less.prems(1) k, of src] src c by auto
      have "splice_bytes (k mod 512) src (contents ?b ?sec) = src"
        using True src old by (simp add: splice_bytes_def)
      with s1 True n c src less.prems(2) show ?thesis
        by (subst unf) (auto simp: Let_def cs smod_512 BLOCK_SECTOR_SIZE_def of_nat_diff idx src_def)
    next
      case False
      obtain s0 where s0: "dev_read s ?sec = Some (contents ?b ?sec, s0)" "quiet s s0" "allocs s0 = []"
        using dev_read_in [OF less.prems(1) k] less.prems(2) idx by auto
      have ok0: "data_ok (fs_device s0) ?d"
        using less.prems(1) quiet_dev [OF s0(2)] data_ok_cong by metis
      obtain s1 where s1: "dev_write s0 ?sec (splice_bytes (k mod 512) src (contents ?b ?sec)) = Some s1"
          "wrote ?d k src s0 s1" "allocs s1 = []"
        using write_sector [OF ok0 k, of src] src c s0 quiet_dev(1) [OF s0(2)] by auto
      have w1: "wrote ?d k src s s1" by (rule quiet_wrote [OF s0(2) s1(2)])
      have rd: "0 < k mod 512 \<or> c < 512 - k mod 512" using False c(3) by auto
      have sp: "splice_bytes (k mod 512) src (contents ?b ?sec) =
          take (k mod 512) (contents ?b ?sec) @ src @ drop (k mod 512 + c) (contents ?b ?sec)"
        by (simp add: splice_bytes_def src)
      have nats: "nat (int (k mod 512)) = k mod 512" "nat (int (k mod 512) + int c) = k mod 512 + c"
        by (simp_all add: nat_add_distrib)
      have cond: "0 < int (k mod 512) \<or> int c < 512 - int (k mod 512)" using rd by (auto simp: of_nat_diff)
      have notfull: "(k mod 512 = 0 \<and> c = 512) = False" "(bounce \<and> k mod 512 = 0 \<and> c = 512) = False"
        using False by auto
      have "inode_write_loop i buffer (int n) (int k) bounce (int w) s
          = inode_write_loop i buffer (int (n - c)) (int (k + c)) True (int (w + c)) s1"
        using n c s0(1) s1(1) less.prems(2) cond notfull sp
        by (subst unf)
          (auto simp add: Let_def cs smod_512 BLOCK_SECTOR_SIZE_def of_nat_diff idx nats src_def simp del: of_nat_mod)
      with w1 s1(3) show ?thesis by blast
    qed
    then obtain bn s1 where step: "inode_write_loop i buffer (int n) (int k) bounce (int w) s
        = inode_write_loop i buffer (int (n - c)) (int (k + c)) bn (int (w + c)) s1"
        and w1: "wrote ?d k src s s1" "allocs s1 = []" by blast
    have ok1: "data_ok (fs_device s1) ?d" using wrote_data_ok [OF w1(1) less.prems(1)] .
    let ?m = "min n (?L - k)" and ?m' = "min (n - c) (?L - (k + c))"
    have m: "?m = c + ?m'" using c by auto
    obtain s' where s': "inode_write_loop i buffer (int (n - c)) (int (k + c)) bn (int (w + c)) s1
        = Some (int (w + c + ?m'), s')"
        "wrote ?d (k + c) (take ?m' (drop (w + c) buffer)) s1 s'" "allocs s' = []"
      using less.IH [of "n - c" s1 "w + c" "k + c" bn] ok1 w1(2) c less.prems(3) by auto
    have "take ?m (drop w buffer) = src @ take ?m' (drop (w + c) buffer)"
      using take_drop_split [of c ?m w buffer] m by (simp add: src_def)
    with wrote_trans [OF w1(1)] s'(2) src have "wrote ?d k (take ?m (drop w buffer)) s s'" by simp
    with step s'(1,3) m show ?thesis by (auto simp: add.assoc)
  qed
qed

lemma inode_write_at_ok:
  assumes "data_ok (fs_device s) (idata i)" and "allocs s = []" and "0 \<le> offset"
    and "0 \<le> sz" and "nat sz \<le> length buffer" and "deny_write_cnt i = 0"
  shows "\<exists>s' m. inode_write_at i buffer sz offset s = Some (int m, s')
    \<and> m = min (nat sz) (nat (dlength (idata i)) - nat offset)
    \<and> wrote (idata i) (nat offset) (take m buffer) s s' \<and> allocs s' = []"
  using inode_write_loop_ok [OF assms(1,2), of 0 "nat sz" buffer "nat offset" False] assms(3-)
  by (simp add: inode_write_at_def)

end
