(* ===== verification/FreeMap.thy ===== *)
theory FreeMap
  imports InodeRW
begin

text \<open>
  Open files (filesys/file.c), the free map (filesys/free-map.c) with the file image of a
  bitmap (lib/kernel/bitmap.c), and the life of an inode (filesys/inode.c): creation,
  opening, closing and removal.  Using a null or freed pointer is None.
\<close>

section \<open>Files\<close>

definition inode_reopen :: "nat \<Rightarrow> fs \<Rightarrow> (nat \<times> fs) option" where
  "inode_reopen p s =
     (if p = 0 then Some (0, s)
      else do {
        i \<leftarrow> inodes s p;
        Some (p, s\<lparr>inodes := (inodes s)(p \<mapsto> i\<lparr>open_cnt := open_cnt i + 1\<rparr>)\<rparr>)
      })"

definition inode_get_inumber :: "nat \<Rightarrow> fs \<Rightarrow> nat option" where
  "inode_get_inumber p s = map_option sector (inodes s p)"

definition inode_remove :: "nat \<Rightarrow> fs \<Rightarrow> fs option" where
  "inode_remove p s = do {
     i \<leftarrow> inodes s p;
     Some (s\<lparr>inodes := (inodes s)(p \<mapsto> i\<lparr>removed := True\<rparr>)\<rparr>)
   }"

definition inode_deny_write :: "nat \<Rightarrow> fs \<Rightarrow> fs option" where
  "inode_deny_write p s = do {
     i \<leftarrow> inodes s p;
     ASSERT (deny_write_cnt i + 1 \<le> open_cnt i);
     Some (s\<lparr>inodes := (inodes s)(p \<mapsto> i\<lparr>deny_write_cnt := deny_write_cnt i + 1\<rparr>)\<rparr>)
   }"

definition inode_allow_write :: "nat \<Rightarrow> fs \<Rightarrow> fs option" where
  "inode_allow_write p s = do {
     i \<leftarrow> inodes s p;
     ASSERT (deny_write_cnt i > 0);
     ASSERT (deny_write_cnt i \<le> open_cnt i);
     Some (s\<lparr>inodes := (inodes s)(p \<mapsto> i\<lparr>deny_write_cnt := deny_write_cnt i - 1\<rparr>)\<rparr>)
   }"

definition file_get_inode :: "nat \<Rightarrow> fs \<Rightarrow> nat option" where
  "file_get_inode f s = map_option file_inode (files s f)"

definition file_read_at :: "nat \<Rightarrow> int \<Rightarrow> int \<Rightarrow> fs \<Rightarrow> (byte list \<times> fs) option" where
  "file_read_at f sz file_ofs s = do {
     fl \<leftarrow> files s f;
     i \<leftarrow> inodes s (file_inode fl);
     inode_read_at i sz file_ofs s
   }"

definition file_read :: "nat \<Rightarrow> int \<Rightarrow> fs \<Rightarrow> (byte list \<times> fs) option" where
  "file_read f sz s = do {
     fl \<leftarrow> files s f;
     i \<leftarrow> inodes s (file_inode fl);
     (d, s) \<leftarrow> inode_read_at i sz (pos fl) s;
     Some (d, s\<lparr>files := (files s)(f \<mapsto> fl\<lparr>pos := pos fl + int (length d)\<rparr>)\<rparr>)
   }"

definition file_write_at :: "nat \<Rightarrow> byte list \<Rightarrow> int \<Rightarrow> int \<Rightarrow> fs \<Rightarrow> (int \<times> fs) option" where
  "file_write_at f buffer sz file_ofs s = do {
     fl \<leftarrow> files s f;
     i \<leftarrow> inodes s (file_inode fl);
     inode_write_at i buffer sz file_ofs s
   }"

definition file_write :: "nat \<Rightarrow> byte list \<Rightarrow> int \<Rightarrow> fs \<Rightarrow> (int \<times> fs) option" where
  "file_write f buffer sz s = do {
     fl \<leftarrow> files s f;
     i \<leftarrow> inodes s (file_inode fl);
     (n, s) \<leftarrow> inode_write_at i buffer sz (pos fl) s;
     Some (n, s\<lparr>files := (files s)(f \<mapsto> fl\<lparr>pos := pos fl + n\<rparr>)\<rparr>)
   }"

definition file_deny_write :: "nat \<Rightarrow> fs \<Rightarrow> fs option" where
  "file_deny_write f s = do {
     fl \<leftarrow> files s f;
     (if \<not> deny_write fl
      then inode_deny_write (file_inode fl) (s\<lparr>files := (files s)(f \<mapsto> fl\<lparr>deny_write := True\<rparr>)\<rparr>)
      else Some s)
   }"

definition file_allow_write :: "nat \<Rightarrow> fs \<Rightarrow> fs option" where
  "file_allow_write f s = do {
     fl \<leftarrow> files s f;
     (if deny_write fl
      then inode_allow_write (file_inode fl) (s\<lparr>files := (files s)(f \<mapsto> fl\<lparr>deny_write := False\<rparr>)\<rparr>)
      else Some s)
   }"

definition file_length :: "nat \<Rightarrow> fs \<Rightarrow> int option" where
  "file_length f s = do {
     fl \<leftarrow> files s f;
     i \<leftarrow> inodes s (file_inode fl);
     Some (inode_length i)
   }"

definition file_seek :: "nat \<Rightarrow> int \<Rightarrow> fs \<Rightarrow> fs option" where
  "file_seek f new_pos s = do {
     fl \<leftarrow> files s f;
     ASSERT (new_pos \<ge> 0);
     Some (s\<lparr>files := (files s)(f \<mapsto> fl\<lparr>pos := new_pos\<rparr>)\<rparr>)
   }"

definition file_tell :: "nat \<Rightarrow> fs \<Rightarrow> int option" where
  "file_tell f s = map_option pos (files s f)"

section \<open>The file image of a bitmap\<close>

definition bitmap_file_size :: "bitmap \<Rightarrow> nat" where
  "bitmap_file_size b = byte_cnt (bit_cnt b)"

definition elem_bytes :: "32 word list \<Rightarrow> byte list" where
  "elem_bytes ws = concat (map (le32 \<circ> unat) ws)"

fun bytes_elem :: "byte list \<Rightarrow> 32 word list" where
  "bytes_elem (a # b # c # d # bs) = word_of_nat (rd32 [a, b, c, d]) # bytes_elem bs"
| "bytes_elem bs = []"

text \<open>The bytes read replace the first bytes of the elements, whether all came or not.\<close>

definition bitmap_read :: "bitmap \<Rightarrow> nat \<Rightarrow> fs \<Rightarrow> (bool \<times> bitmap \<times> fs) option" where
  "bitmap_read b f s =
     (if bit_cnt b > 0 then do {
        let sz = byte_cnt (bit_cnt b);
        (d, s) \<leftarrow> file_read_at f (int sz) 0 s;
        let b = b\<lparr>bits := bytes_elem (d @ drop (length d) (elem_bytes (bits b)))\<rparr>;
        b \<leftarrow> upd_elem (elem_cnt (bit_cnt b) - 1) (\<lambda>e. e AND last_mask b) b;
        Some (length d = sz, b, s)
      }
      else Some (True, b, s))"

definition bitmap_write :: "bitmap \<Rightarrow> nat \<Rightarrow> fs \<Rightarrow> (bool \<times> fs) option" where
  "bitmap_write b f s = do {
     let sz = int (byte_cnt (bit_cnt b));
     (n, s) \<leftarrow> file_write_at f (elem_bytes (bits b)) sz 0 s;
     Some (n = sz, s)
   }"

section \<open>The free map\<close>

text \<open>The result is the first sector allocated, if any.\<close>

definition free_map_allocate :: "nat \<Rightarrow> fs \<Rightarrow> (nat option \<times> fs) option" where
  "free_map_allocate cnt s = do {
     (sec, b) \<leftarrow> bitmap_scan_and_flip (free_map s) 0 cnt False;
     let s = s\<lparr>free_map := b\<rparr>;
     (if sec = BITMAP_ERROR then Some (None, s)
      else if free_map_file s = 0 then Some (Some sec, s)
      else do {
        (ok, s) \<leftarrow> bitmap_write (free_map s) (free_map_file s) s;
        (if ok then Some (Some sec, s)
         else do {
           b \<leftarrow> bitmap_set_multiple (free_map s) sec cnt False;
           Some (None, s\<lparr>free_map := b\<rparr>)
         })
      })
   }"

definition free_map_release :: "nat \<Rightarrow> nat \<Rightarrow> fs \<Rightarrow> fs option" where
  "free_map_release sec cnt s = do {
     a \<leftarrow> bitmap_all (free_map s) sec cnt;
     ASSERT a;
     b \<leftarrow> bitmap_set_multiple (free_map s) sec cnt False;
     let s = s\<lparr>free_map := b\<rparr>;
     (_, s) \<leftarrow> bitmap_write (free_map s) (free_map_file s) s;
     Some s
   }"

section \<open>Creating, opening and closing inodes\<close>

fun zero_sectors :: "nat \<Rightarrow> nat \<Rightarrow> fs \<Rightarrow> fs option" where
  "zero_sectors sec 0 s = Some s"
| "zero_sectors sec (Suc n) s = do {
     s \<leftarrow> dev_write s sec (replicate 512 0);
     zero_sectors (sec + 1) n s
   }"

definition inode_create :: "nat \<Rightarrow> int \<Rightarrow> fs \<Rightarrow> (bool \<times> fs) option" where
  "inode_create sec len s = do {
     ASSERT (len \<ge> 0);
     let (ok, s) = malloc_ok s;
     (if \<not> ok then Some (False, s)
      else do {
        let sectors = bytes_to_sectors len;
        (r, s) \<leftarrow> free_map_allocate sectors s;
        (case r of
           None \<Rightarrow> Some (False, s)
         | Some st \<Rightarrow> do {
             s \<leftarrow> dev_write s sec (encode_inode
                    \<lparr>start = st, dlength = len, magic = INODE_MAGIC, unused = replicate 500 0\<rparr>);
             s \<leftarrow> zero_sectors st sectors s;
             Some (True, s)
           })
      })
   }"

fun find_open :: "nat list \<Rightarrow> nat \<Rightarrow> fs \<Rightarrow> nat option option" where
  "find_open [] sec s = Some None"
| "find_open (p # ps) sec s = do {
     i \<leftarrow> inodes s p;
     (if sector i = sec then Some (Some p) else find_open ps sec s)
   }"

definition inode_open :: "nat \<Rightarrow> fs \<Rightarrow> (nat \<times> fs) option" where
  "inode_open sec s = do {
     r \<leftarrow> find_open (open_inodes s) sec s;
     (case r of
        Some p \<Rightarrow> inode_reopen p s
      | None \<Rightarrow>
          (let (p, s) = new_ptr s
           in if p = 0 then Some (0, s)
              else do {
                let s = s\<lparr>open_inodes := p # open_inodes s\<rparr>;
                (d, s) \<leftarrow> dev_read s sec;
                Some (p, s\<lparr>inodes := (inodes s)(p \<mapsto>
                  \<lparr>sector = sec, open_cnt = 1, removed = False, deny_write_cnt = 0, idata = decode_inode d\<rparr>)\<rparr>)
              }))
   }"

definition inode_close :: "nat \<Rightarrow> fs \<Rightarrow> fs option" where
  "inode_close p s =
     (if p = 0 then Some s
      else do {
        i \<leftarrow> inodes s p;
        let i = i\<lparr>open_cnt := open_cnt i - 1\<rparr>;
        let s = s\<lparr>inodes := (inodes s)(p \<mapsto> i)\<rparr>;
        (if open_cnt i = 0 then do {
           let s = s\<lparr>open_inodes := remove1 p (open_inodes s)\<rparr>;
           s \<leftarrow> (if removed i then do {
                   s \<leftarrow> free_map_release (sector i) 1 s;
                   free_map_release (start (idata i)) (bytes_to_sectors (dlength (idata i))) s
                 }
                 else Some s);
           Some (s\<lparr>inodes := (inodes s)(p := None)\<rparr>)
         }
         else Some s)
      })"

section \<open>Opening and closing files\<close>

definition file_open :: "nat \<Rightarrow> fs \<Rightarrow> (nat \<times> fs) option" where
  "file_open p s =
     (let (f, s) = new_ptr s
      in if p \<noteq> 0 \<and> f \<noteq> 0
         then Some (f, s\<lparr>files := (files s)(f \<mapsto> \<lparr>file_inode = p, pos = 0, deny_write = False\<rparr>)\<rparr>)
         else do { s \<leftarrow> inode_close p s; Some (0, s) })"

definition file_reopen :: "nat \<Rightarrow> fs \<Rightarrow> (nat \<times> fs) option" where
  "file_reopen f s = do {
     fl \<leftarrow> files s f;
     (p, s) \<leftarrow> inode_reopen (file_inode fl) s;
     file_open p s
   }"

definition file_close :: "nat \<Rightarrow> fs \<Rightarrow> fs option" where
  "file_close f s =
     (if f = 0 then Some s
      else do {
        s \<leftarrow> file_allow_write f s;
        fl \<leftarrow> files s f;
        s \<leftarrow> inode_close (file_inode fl) s;
        Some (s\<lparr>files := (files s)(f := None)\<rparr>)
      })"

section \<open>Setting up the free map\<close>

text \<open>The content of the memory for the new bitmap is a parameter.\<close>

definition free_map_init :: "32 word list \<Rightarrow> fs \<Rightarrow> fs option" where
  "free_map_init m s = do {
     let (ok1, s) = malloc_ok s;
     let (ok2, s) = (if ok1 then malloc_ok s else (True, s));
     r \<leftarrow> bitmap_create ok1 (if ok2 then Some m else None) (block_size (fs_device s));
     b \<leftarrow> r;
     b \<leftarrow> bitmap_mark b FREE_MAP_SECTOR;
     b \<leftarrow> bitmap_mark b ROOT_DIR_SECTOR;
     Some (s\<lparr>free_map := b\<rparr>)
   }"

definition free_map_open :: "fs \<Rightarrow> fs option" where
  "free_map_open s = do {
     (p, s) \<leftarrow> inode_open FREE_MAP_SECTOR s;
     (f, s) \<leftarrow> file_open p s;
     let s = s\<lparr>free_map_file := f\<rparr>;
     ASSERT (f \<noteq> 0);
     (ok, b, s) \<leftarrow> bitmap_read (free_map s) f s;
     ASSERT ok;
     Some (s\<lparr>free_map := b\<rparr>)
   }"

definition free_map_close :: "fs \<Rightarrow> fs option" where
  "free_map_close s = file_close (free_map_file s) s"

definition free_map_create :: "fs \<Rightarrow> fs option" where
  "free_map_create s = do {
     (ok, s) \<leftarrow> inode_create FREE_MAP_SECTOR (int (bitmap_file_size (free_map s))) s;
     ASSERT ok;
     (p, s) \<leftarrow> inode_open FREE_MAP_SECTOR s;
     (f, s) \<leftarrow> file_open p s;
     let s = s\<lparr>free_map_file := f\<rparr>;
     ASSERT (f \<noteq> 0);
     (ok, s) \<leftarrow> bitmap_write (free_map s) f s;
     ASSERT ok;
     Some s
   }"

end
