(* ===== verification/Directory.thy ===== *)
theory Directory
  imports FreeMap
begin

text \<open>
  Directories (filesys/directory.c) and the file system calls (filesys/filesys.c).  A file
  name is the list of its bytes without the null byte.  The local variable e of the source
  is a buffer of 20 bytes that every read overwrites from its start; where the source
  leaves it uninitialised its content is the parameter junk.
\<close>

section \<open>Directory entries\<close>

definition NAME_MAX :: nat where "NAME_MAX = 14"

definition sizeof_dir_entry :: int where "sizeof_dir_entry = 20"

record dir_entry =
  inode_sector :: nat
  name :: "byte list"
  in_use :: byte

definition decode_entry :: "byte list \<Rightarrow> dir_entry" where
  "decode_entry e = \<lparr>inode_sector = rd32 e, name = take 15 (drop 4 e), in_use = e ! 19\<rparr>"

definition encode_entry :: "dir_entry \<Rightarrow> byte list" where
  "encode_entry e = le32 (inode_sector e) @ name e @ [in_use e]"

text \<open>strcmp (name, e.name) == 0: a name field without a null byte would be read past its end.\<close>

definition name_matches :: "byte list \<Rightarrow> dir_entry \<Rightarrow> bool option" where
  "name_matches nm e = do {
     ASSERT (0 \<in> set (name e));
     Some (cmp_bytes nm (takeWhile (\<lambda>c. c \<noteq> 0) (name e)) = 0)
   }"

section \<open>Opening and closing directories\<close>

definition dir_create :: "nat \<Rightarrow> nat \<Rightarrow> fs \<Rightarrow> (bool \<times> fs) option" where
  "dir_create sec entry_cnt s = inode_create sec (wrap32 (int entry_cnt * sizeof_dir_entry)) s"

definition dir_open :: "nat \<Rightarrow> fs \<Rightarrow> (nat \<times> fs) option" where
  "dir_open p s =
     (let (d, s) = new_ptr s
      in if p \<noteq> 0 \<and> d \<noteq> 0
         then Some (d, s\<lparr>dirs := (dirs s)(d \<mapsto> \<lparr>dir_inode = p, dir_pos = 0\<rparr>)\<rparr>)
         else do { s \<leftarrow> inode_close p s; Some (0, s) })"

definition dir_open_root :: "fs \<Rightarrow> (nat \<times> fs) option" where
  "dir_open_root s = do {
     (p, s) \<leftarrow> inode_open ROOT_DIR_SECTOR s;
     dir_open p s
   }"

definition dir_reopen :: "nat \<Rightarrow> fs \<Rightarrow> (nat \<times> fs) option" where
  "dir_reopen d s = do {
     dr \<leftarrow> dirs s d;
     (p, s) \<leftarrow> inode_reopen (dir_inode dr) s;
     dir_open p s
   }"

definition dir_close :: "nat \<Rightarrow> fs \<Rightarrow> fs option" where
  "dir_close d s =
     (if d = 0 then Some s
      else do {
        dr \<leftarrow> dirs s d;
        s \<leftarrow> inode_close (dir_inode dr) s;
        Some (s\<lparr>dirs := (dirs s)(d := None)\<rparr>)
      })"

definition dir_get_inode :: "nat \<Rightarrow> fs \<Rightarrow> nat option" where
  "dir_get_inode d s = map_option dir_inode (dirs s d)"

section \<open>Searching a directory\<close>

text \<open>The entry found and its offset, if any.  The loop ends at the first short read.\<close>

partial_function (option) lookup_loop ::
  "inode \<Rightarrow> byte list \<Rightarrow> int \<Rightarrow> fs \<Rightarrow> ((dir_entry \<times> int) option \<times> fs) option" where
  "lookup_loop i nm ofs s = do {
     r \<leftarrow> inode_read_at i sizeof_dir_entry ofs s;
     (if length (fst r) \<noteq> 20 then Some (None, snd r)
      else do {
        let e = decode_entry (fst r);
        m \<leftarrow> (if in_use e \<noteq> 0 then name_matches nm e else Some False);
        (if m then Some (Some (e, ofs), snd r)
         else lookup_loop i nm (ofs + sizeof_dir_entry) (snd r))
      })
   }"

definition lookup :: "nat \<Rightarrow> byte list \<Rightarrow> fs \<Rightarrow> ((dir_entry \<times> int) option \<times> fs) option" where
  "lookup d nm s = do {
     dr \<leftarrow> dirs s d;
     i \<leftarrow> inodes s (dir_inode dr);
     lookup_loop i nm 0 s
   }"

definition dir_lookup :: "nat \<Rightarrow> byte list \<Rightarrow> fs \<Rightarrow> (nat \<times> fs) option" where
  "dir_lookup d nm s = do {
     (r, s) \<leftarrow> lookup d nm s;
     (case r of
        Some (e, _) \<Rightarrow> inode_open (inode_sector e) s
      | None \<Rightarrow> Some (0, s))
   }"

section \<open>Changing a directory\<close>

partial_function (option) free_slot_loop ::
  "inode \<Rightarrow> byte list \<Rightarrow> int \<Rightarrow> fs \<Rightarrow> (byte list \<times> int \<times> fs) option" where
  "free_slot_loop i e ofs s = do {
     r \<leftarrow> inode_read_at i sizeof_dir_entry ofs s;
     let e = fst r @ drop (length (fst r)) e;
     (if length (fst r) \<noteq> 20 then Some (e, ofs, snd r)
      else if in_use (decode_entry e) = 0 then Some (e, ofs, snd r)
      else free_slot_loop i e (ofs + sizeof_dir_entry) (snd r))
   }"

definition dir_add :: "byte list \<Rightarrow> nat \<Rightarrow> byte list \<Rightarrow> nat \<Rightarrow> fs \<Rightarrow> (bool \<times> fs) option" where
  "dir_add junk d nm sec s =
     (if nm = [] \<or> length nm > NAME_MAX then Some (False, s)
      else do {
        (r, s) \<leftarrow> lookup d nm s;
        (if r \<noteq> None then Some (False, s)
         else do {
           dr \<leftarrow> dirs s d;
           i \<leftarrow> inodes s (dir_inode dr);
           (e, ofs, s) \<leftarrow> free_slot_loop i junk 0 s;
           let e = (decode_entry e)\<lparr>in_use := 1,
                     name := nm @ [0] @ drop (length nm + 1) (name (decode_entry e)),
                     inode_sector := sec\<rparr>;
           (n, s) \<leftarrow> inode_write_at i (encode_entry e) sizeof_dir_entry ofs s;
           Some (n = sizeof_dir_entry, s)
         })
      })"

definition dir_remove :: "nat \<Rightarrow> byte list \<Rightarrow> fs \<Rightarrow> (bool \<times> fs) option" where
  "dir_remove d nm s = do {
     (r, s) \<leftarrow> lookup d nm s;
     (case r of
        None \<Rightarrow> Some (False, s)
      | Some (e, ofs) \<Rightarrow> do {
          (p, s) \<leftarrow> inode_open (inode_sector e) s;
          (if p = 0 then Some (False, s)
           else do {
             dr \<leftarrow> dirs s d;
             i \<leftarrow> inodes s (dir_inode dr);
             (n, s) \<leftarrow> inode_write_at i (encode_entry (e\<lparr>in_use := 0\<rparr>)) sizeof_dir_entry ofs s;
             (if n \<noteq> sizeof_dir_entry then do { s \<leftarrow> inode_close p s; Some (False, s) }
              else do {
                s \<leftarrow> inode_remove p s;
                s \<leftarrow> inode_close p s;
                Some (True, s)
              })
           })
        })
   }"

partial_function (option) readdir_loop ::
  "inode \<Rightarrow> int \<Rightarrow> fs \<Rightarrow> (byte list option \<times> int \<times> fs) option" where
  "readdir_loop i p s = do {
     r \<leftarrow> inode_read_at i sizeof_dir_entry p s;
     (if length (fst r) \<noteq> 20 then Some (None, p, snd r)
      else (let e = decode_entry (fst r)
            in if in_use e \<noteq> 0
               then Some (Some (take NAME_MAX (takeWhile (\<lambda>c. c \<noteq> 0) (name e))), p + sizeof_dir_entry, snd r)
               else readdir_loop i (p + sizeof_dir_entry) (snd r)))
   }"

definition dir_readdir :: "nat \<Rightarrow> fs \<Rightarrow> (byte list option \<times> fs) option" where
  "dir_readdir d s = do {
     dr \<leftarrow> dirs s d;
     i \<leftarrow> inodes s (dir_inode dr);
     (r, p, s) \<leftarrow> readdir_loop i (dir_pos dr) s;
     Some (r, s\<lparr>dirs := (dirs s)(d \<mapsto> dr\<lparr>dir_pos := p\<rparr>)\<rparr>)
   }"

section \<open>File system calls\<close>

definition filesys_create :: "byte list \<Rightarrow> byte list \<Rightarrow> int \<Rightarrow> fs \<Rightarrow> (bool \<times> fs) option" where
  "filesys_create junk nm initial_size s = do {
     (d, s) \<leftarrow> dir_open_root s;
     (success, sec, s) \<leftarrow>
       (if d = 0 then Some (False, 0, s)
        else do {
          (r, s) \<leftarrow> free_map_allocate 1 s;
          (case r of
             None \<Rightarrow> Some (False, 0, s)
           | Some sec \<Rightarrow> do {
               (ok, s) \<leftarrow> inode_create sec initial_size s;
               (if \<not> ok then Some (False, sec, s)
                else do {
                  (ok, s) \<leftarrow> dir_add junk d nm sec s;
                  Some (ok, sec, s)
                })
             })
        });
     s \<leftarrow> (if \<not> success \<and> sec \<noteq> 0 then free_map_release sec 1 s else Some s);
     s \<leftarrow> dir_close d s;
     Some (success, s)
   }"

definition filesys_open :: "byte list \<Rightarrow> fs \<Rightarrow> (nat \<times> fs) option" where
  "filesys_open nm s = do {
     (d, s) \<leftarrow> dir_open_root s;
     (p, s) \<leftarrow> (if d \<noteq> 0 then dir_lookup d nm s else Some (0, s));
     s \<leftarrow> dir_close d s;
     file_open p s
   }"

definition filesys_remove :: "byte list \<Rightarrow> fs \<Rightarrow> (bool \<times> fs) option" where
  "filesys_remove nm s = do {
     (d, s) \<leftarrow> dir_open_root s;
     (success, s) \<leftarrow> (if d \<noteq> 0 then dir_remove d nm s else Some (False, s));
     s \<leftarrow> dir_close d s;
     Some (success, s)
   }"

definition inode_init :: "fs \<Rightarrow> fs" where
  "inode_init s = s\<lparr>open_inodes := []\<rparr>"

definition do_format :: "fs \<Rightarrow> fs option" where
  "do_format s = do {
     s \<leftarrow> free_map_create s;
     (ok, s) \<leftarrow> dir_create ROOT_DIR_SECTOR 16 s;
     ASSERT ok;
     free_map_close s
   }"

definition filesys_init :: "32 word list \<Rightarrow> bool \<Rightarrow> fs \<Rightarrow> fs option" where
  "filesys_init m format s = do {
     let s = inode_init s;
     s \<leftarrow> free_map_init m s;
     s \<leftarrow> (if format then do_format s else Some s);
     free_map_open s
   }"

definition filesys_done :: "fs \<Rightarrow> fs option" where
  "filesys_done s = free_map_close s"

end
