(* ===== verification/FSBytes.thy ===== *)
theory FSBytes
  imports Directory
begin

text \<open>
  The byte images of the file system's structures and their round trips: 32-bit words,
  on-disk inodes, directory entries and the file image of a bitmap.
\<close>

lemma le32_length [simp]: "length (le32 x) = 4"
  by (simp add: le32_def)

lemma base256:
  assumes "x < 4294967296"
  shows "x mod 256 + 256 * (x div 256 mod 256) + 65536 * (x div 65536 mod 256)
           + 16777216 * (x div 16777216 mod 256) = (x :: nat)"
proof -
  have 1: "x = x mod 256 + 256 * (x div 256)" by simp
  have 2: "x div 256 = x div 256 mod 256 + 256 * (x div 65536)"
    using mod_mult_div_eq [of "x div 256" 256] div_mult2_eq [of x 256 256] by simp
  have 3: "x div 65536 = x div 65536 mod 256 + 256 * (x div 16777216)"
    using mod_mult_div_eq [of "x div 65536" 256] div_mult2_eq [of x 65536 256] by simp
  have 4: "x div 16777216 mod 256 = x div 16777216"
    using assms by (intro mod_less) (simp add: less_mult_imp_div_less)
  define a b c where "a = x div 256" and "b = x div 65536" and "c = x div 16777216"
  show ?thesis using 1 2 3 4 unfolding a_def [symmetric] b_def [symmetric] c_def [symmetric] by linarith
qed

lemma rd32_le32 [simp]: "x < 2 ^ 32 \<Longrightarrow> rd32 (le32 x @ bs) = x"
  using base256 [of x] by (simp add: rd32_def le32_def unat_of_nat)

lemma rd32_lt: "rd32 bs < 2 ^ 32"
proof -
  have "unat (bs ! i) < 2 ^ 8" for i using unsigned_less [of "bs ! i"] by simp
  from this [of 0] this [of 1] this [of 2] this [of 3] show ?thesis by (simp add: rd32_def)
qed

lemma wrap32_of_nat: "0 \<le> l \<Longrightarrow> l < 2 ^ 31 \<Longrightarrow> wrap32 (int (nat (l mod 2 ^ 32))) = l"
  by (simp add: wrap32_id)

definition disk_ok :: "inode_disk \<Rightarrow> bool" where
  "disk_ok d \<longleftrightarrow> start d < 2 ^ 32 \<and> 0 \<le> dlength d \<and> dlength d < 2 ^ 31 \<and> magic d < 2 ^ 32 \<and> length (unused d) = 500"

lemma encode_inode_length: "disk_ok d \<Longrightarrow> length (encode_inode d) = 512"
  by (simp add: encode_inode_def disk_ok_def)

lemma decode_encode_inode: "disk_ok d \<Longrightarrow> decode_inode (encode_inode d) = d"
proof -
  assume ok: "disk_ok d"
  let ?l = "nat (dlength d mod 2 ^ 32)"
  have l: "?l < 2 ^ 32" by (simp add: nat_less_iff)
  have "drop 4 (encode_inode d) = le32 ?l @ le32 (magic d) @ unused d"
    and "drop 8 (encode_inode d) = le32 (magic d) @ unused d"
    and "drop 12 (encode_inode d) = unused d"
    by (simp_all add: encode_inode_def)
  with ok l wrap32_of_nat [of "dlength d"] show ?thesis
    unfolding decode_inode_def disk_ok_def
    by (simp add: encode_inode_def [of d])
qed

definition entry_ok :: "dir_entry \<Rightarrow> bool" where
  "entry_ok e \<longleftrightarrow> inode_sector e < 2 ^ 32 \<and> length (name e) = 15"

lemma encode_entry_length: "entry_ok e \<Longrightarrow> length (encode_entry e) = 20"
  by (simp add: encode_entry_def entry_ok_def)

lemma decode_encode_entry: "entry_ok e \<Longrightarrow> decode_entry (encode_entry e) = e"
  by (simp add: decode_entry_def encode_entry_def entry_ok_def nth_append)

lemma entry_ok_decode: "length bs = 20 \<Longrightarrow> entry_ok (decode_entry bs)"
  using rd32_lt [of bs] by (simp add: entry_ok_def decode_entry_def)

lemma le32_rd32:
  "le32 (rd32 [a, b, c, d]) = [a, b, c, d]"
proof -
  have u: "unat x < 256" for x :: byte using unsigned_less [of x] by simp
  define A B C D where "A = unat a" and "B = unat b" and "C = unat c" and "D = unat d"
  have lt: "A < 256" "B < 256" "C < 256" "D < 256" using u by (simp_all add: A_def B_def C_def D_def)
  define x where "x = A + 2 ^ 8 * B + 2 ^ 16 * C + 2 ^ 24 * D"
  define K L where "K = B + 256 * L" and "L = C + 256 * D"
  have "x = A + 256 * K" by (simp add: x_def K_def L_def)
  then have x0: "x mod 256 = A" and q1: "x div 256 = K" using lt by simp_all
  have x1: "x div 256 mod 256 = B" and q2: "x div 65536 = L"
    using lt q1 div_mult2_eq [of x 256 256] by (simp_all add: K_def)
  have x2: "x div 65536 mod 256 = C" and q3: "x div 16777216 = D"
    using lt q2 div_mult2_eq [of x 65536 256] by (simp_all add: L_def)
  have w: "(word_of_nat y :: byte) = z" if "y mod 256 = unat z" for y and z :: byte
    using that by (simp add: word_unat_eq_iff unat_of_nat)
  have "le32 x = [a, b, c, d]"
    unfolding le32_def using x0 x1 x2 q3 lt(4)
    by (simp add: w [OF x0 [unfolded A_def]] w [OF x1 [unfolded B_def]] w [OF x2 [unfolded C_def]] w [of D d] D_def)
  then show ?thesis by (simp add: rd32_def x_def A_def B_def C_def D_def)
qed

lemma encode_decode_entry: "length bs = 20 \<Longrightarrow> encode_entry (decode_entry bs) = bs"
proof -
  assume len: "length bs = 20"
  then obtain a b c d rest where bs: "bs = a # b # c # d # rest" "length rest = 16"
    by (auto simp: length_Suc_conv numeral_eq_Suc)
  then obtain r l where r: "rest = r @ [l]" "length r = 15"
    by (cases rest rule: rev_cases) auto
  have "rd32 bs = rd32 [a, b, c, d]" by (simp add: rd32_def bs)
  then show ?thesis
    using r by (simp add: encode_entry_def decode_entry_def le32_rd32 bs nth_append)
qed

text \<open>The file image of a bitmap.\<close>

lemma elem_bytes_length: "length (elem_bytes ws) = 4 * length ws"
  by (induction ws) (simp_all add: elem_bytes_def)

lemma bytes_elem_bytes: "bytes_elem (elem_bytes ws) = ws"
proof (induction ws)
  case (Cons w ws)
  have lt: "unat w < 2 ^ 32" using unsigned_less [of w] by simp
  obtain a b c d where le: "le32 (unat w) = [a, b, c, d]" by (simp add: le32_def)
  have "rd32 [a, b, c, d] = unat w" using rd32_le32 [OF lt, of "[]"] by (simp add: le)
  with Cons show ?case by (simp add: elem_bytes_def le)
qed (simp add: elem_bytes_def)

end
