(* ===== verification/Allocator.thy ===== *)
theory Allocator
  imports Prelude
begin

text \<open>
  The interface of an allocator of runs of numbered units: the sectors of the free map
  (filesys/free-map.c) and the pages of a pool (threads/palloc.c) are handed out this way.
  The client sees the set of free units; the laws say what an allocation takes from it and
  a release gives back, that an allocation fails only when no run is long enough, and that
  releasing a free unit panics.
\<close>

text \<open>
  The runs \<open>rs\<close> that are held, each a first unit and a length, after \<open>f0\<close> was free: they were
  free, no two of them share a unit, and the free units are what they leave of \<open>f0\<close>.
\<close>

definition run_units :: "nat \<times> nat \<Rightarrow> nat set" where
  "run_units r = {fst r ..< fst r + snd r}"

definition runs_disjoint :: "(nat \<times> nat) list \<Rightarrow> bool" where
  "runs_disjoint rs \<longleftrightarrow> sorted_wrt (\<lambda>r q. run_units r \<inter> run_units q = {}) rs"

definition held :: "nat \<Rightarrow> nat set \<Rightarrow> (nat \<times> nat) list \<Rightarrow> nat set \<Rightarrow> bool" where
  "held cap f0 rs f \<longleftrightarrow> runs_disjoint rs \<and> (\<forall>r \<in> set rs. run_units r \<subseteq> f0 \<and> fst r + snd r \<le> cap)
     \<and> f = f0 - (\<Union>r \<in> set rs. run_units r)"

lemma runs_disjoint_remove:
  "runs_disjoint rs \<Longrightarrow> r \<in> set rs \<Longrightarrow> runs_disjoint (remove1 r rs)
     \<and> (\<Union>q \<in> set (remove1 r rs). run_units q) = (\<Union>q \<in> set rs. run_units q) - run_units r"
proof (induction rs)
  case (Cons q rs)
  have d: "runs_disjoint rs" and q: "\<forall>x \<in> set rs. run_units q \<inter> run_units x = {}"
    using Cons.prems(1) by (simp_all add: runs_disjoint_def)
  show ?case
  proof (cases "q = r")
    case True
    then show ?thesis using d q by auto
  next
    case False
    then have r: "r \<in> set rs" using Cons.prems(2) by simp
    have IH: "runs_disjoint (remove1 r rs)"
      "(\<Union>x \<in> set (remove1 r rs). run_units x) = (\<Union>x \<in> set rs. run_units x) - run_units r"
      using Cons.IH [OF d r] by simp_all
    have "\<forall>x \<in> set (remove1 r rs). run_units q \<inter> run_units x = {}" using q notin_set_remove1 by fastforce
    then show ?thesis using IH False q r by (auto simp: runs_disjoint_def)
  qed
qed simp

locale run_allocator =
  fixes inv :: "'s \<Rightarrow> bool"
    and capacity :: "'s \<Rightarrow> nat"
    and free_units :: "'s \<Rightarrow> nat set"
    and alloc :: "nat \<Rightarrow> 's \<Rightarrow> (nat option \<times> 's) option"
    and release :: "nat \<Rightarrow> nat \<Rightarrow> 's \<Rightarrow> 's option"
  assumes free_bounded: "inv s \<Longrightarrow> free_units s \<subseteq> {0 ..< capacity s}"
    and alloc_total: "inv s \<Longrightarrow> \<exists>r s'. alloc n s = Some (r, s')"
    and alloc_inv: "inv s \<Longrightarrow> alloc n s = Some (r, s') \<Longrightarrow> inv s' \<and> capacity s' = capacity s"
    and alloc_some: "inv s \<Longrightarrow> alloc n s = Some (Some a, s') \<Longrightarrow>
      {a ..< a + n} \<subseteq> free_units s \<and> a + n \<le> capacity s \<and> free_units s' = free_units s - {a ..< a + n}"
    and alloc_none: "inv s \<Longrightarrow> alloc n s = Some (None, s') \<Longrightarrow>
      free_units s' = free_units s \<and> (\<forall>a. \<not> {a ..< a + n} \<subseteq> free_units s)"
    and release_used: "inv s \<Longrightarrow> a + n \<le> capacity s \<Longrightarrow> {a ..< a + n} \<inter> free_units s = {} \<Longrightarrow>
      \<exists>s'. release a n s = Some s' \<and> inv s' \<and> capacity s' = capacity s
        \<and> free_units s' = free_units s \<union> {a ..< a + n}"
    and release_free: "inv s \<Longrightarrow> {a ..< a + n} \<inter> free_units s \<noteq> {} \<Longrightarrow> release a n s = None"
begin

lemma alloc_fits:
  assumes "inv s" and "{a ..< a + n} \<subseteq> free_units s"
  shows "\<exists>b s'. alloc n s = Some (Some b, s')"
  using alloc_total [OF assms(1), of n] alloc_none [OF assms(1), of n] assms(2) by (metis not_None_eq)

lemma alloc_disjoint:
  assumes "inv s" and "alloc n s = Some (Some a, s1)" and "alloc m s1 = Some (Some b, s2)"
  shows "{a ..< a + n} \<inter> {b ..< b + m} = {}"
proof -
  have "inv s1" using alloc_inv [OF assms(1,2)] by simp
  from alloc_some [OF this assms(3)] alloc_some [OF assms(1,2)] show ?thesis by blast
qed

lemma alloc_release:
  assumes "inv s" and "alloc n s = Some (Some a, s1)"
  shows "\<exists>s2. release a n s1 = Some s2 \<and> inv s2 \<and> free_units s2 = free_units s"
proof -
  note i = alloc_inv [OF assms] and a = alloc_some [OF assms]
  have "{a ..< a + n} \<inter> free_units s1 = {}" using a by auto
  from release_used [OF _ _ this] i a obtain s2
    where s2: "release a n s1 = Some s2" "inv s2" "free_units s2 = free_units s1 \<union> {a ..< a + n}" by auto
  have "free_units s2 = free_units s" using a s2(3) by auto
  with s2 show ?thesis by blast
qed

lemma double_release:
  assumes "inv s" and "alloc n s = Some (Some a, s1)" and "release a n s1 = Some s2" and "0 < n"
  shows "release a n s2 = None"
proof -
  obtain s3 where s3: "release a n s1 = Some s3" "inv s3" "free_units s3 = free_units s"
    using alloc_release [OF assms(1,2)] by blast
  have "{a ..< a + n} \<inter> free_units s3 \<noteq> {}"
  proof -
    have "a \<in> {a ..< a + n}" using assms(4) by simp
    then show ?thesis using alloc_some [OF assms(1,2)] s3(3) by blast
  qed
  from release_free [OF s3(2) this] s3(1) assms(3) show ?thesis by simp
qed

text \<open>An allocation adds a run to the held ones, and a held run can be released.\<close>

lemma alloc_held:
  assumes "inv s" and "held (capacity s) f0 rs (free_units s)" and "alloc n s = Some (Some a, s')"
  shows "held (capacity s') f0 ((a, n) # rs) (free_units s')"
proof -
  have c: "capacity s' = capacity s" using alloc_inv [OF assms(1,3)] by simp
  have r: "run_units (a, n) = {a ..< a + n}" by (simp add: run_units_def)
  show ?thesis
    using assms(2) alloc_some [OF assms(1,3)] unfolding held_def c by (auto simp: r runs_disjoint_def)
qed

lemma release_held:
  assumes "inv s" and "held (capacity s) f0 rs (free_units s)" and "(a, n) \<in> set rs"
  shows "\<exists>s'. release a n s = Some s' \<and> inv s' \<and> capacity s' = capacity s
    \<and> held (capacity s') f0 (remove1 (a, n) rs) (free_units s') \<and> free_units s' = free_units s \<union> {a ..< a + n}
    \<and> (0 < n \<longrightarrow> release a n s' = None)"
proof -
  have h: "runs_disjoint rs" "\<forall>r \<in> set rs. run_units r \<subseteq> f0 \<and> fst r + snd r \<le> capacity s"
    "free_units s = f0 - (\<Union>r \<in> set rs. run_units r)" using assms(2) by (simp_all add: held_def)
  have u: "run_units (a, n) = {a ..< a + n}" by (simp add: run_units_def)
  have used: "{a ..< a + n} \<inter> free_units s = {}" using assms(3) unfolding h(3) u [symmetric] by blast
  have fit: "a + n \<le> capacity s" using h(2) assms(3) by fastforce
  obtain s' where s': "release a n s = Some s'" "inv s'" "capacity s' = capacity s"
    "free_units s' = free_units s \<union> {a ..< a + n}" using release_used [OF assms(1) fit used] by blast
  have sub: "{a ..< a + n} \<subseteq> f0" using h(2) assms(3) u by fastforce
  note rd = runs_disjoint_remove [OF h(1) assms(3)]
  have "free_units s' = f0 - (\<Union>r \<in> set (remove1 (a, n) rs). run_units r)"
    unfolding s'(4) h(3) conjunct2 [OF rd] u using sub by blast
  moreover have "\<forall>r \<in> set (remove1 (a, n) rs). run_units r \<subseteq> f0 \<and> fst r + snd r \<le> capacity s"
    using h(2) notin_set_remove1 by fastforce
  ultimately have "held (capacity s') f0 (remove1 (a, n) rs) (free_units s')"
    using rd s'(3) by (simp add: held_def)
  moreover have "release a n s' = None" if "0 < n" by (rule release_free [OF s'(2)]) (use that s'(4) in auto)
  ultimately show ?thesis using s' by blast
qed

end

end
