(* ===== verification/BitmapAlloc.thy ===== *)
theory BitmapAlloc
  imports Allocator Bitmap
begin

text \<open>
  What bitmap_scan_and_flip and the checked clearing of a range do to the set of clear bits:
  the facts behind both allocators that keep their units in a bitmap.
\<close>

section \<open>A bitmap as an allocator\<close>

definition clear_bits :: "bitmap \<Rightarrow> nat set" where
  "clear_bits b = {i. i < bit_cnt b \<and> \<not> bbit b i}"

lemma group_at_clear: "group_at b a n False \<longleftrightarrow> a + n \<le> bit_cnt b \<and> {a ..< a + n} \<subseteq> clear_bits b"
  by (auto simp: group_at_def clear_bits_def)

lemma bupd_clear_True: "bupd S True b b' \<Longrightarrow> clear_bits b' = clear_bits b - S"
  by (auto simp: clear_bits_def bupd_def)

lemma bupd_clear_False: "bupd S False b b' \<Longrightarrow> S \<subseteq> {0 ..< bit_cnt b} \<Longrightarrow> clear_bits b' = clear_bits b \<union> S"
  by (auto simp: clear_bits_def bupd_def)

lemma range_bounded:
  assumes "{a ..< a + n} \<subseteq> clear_bits b" and "n \<noteq> 0"
  shows "a + n \<le> bit_cnt b"
proof -
  have "a + n - 1 \<in> {a ..< a + n}" using assms(2) by simp
  then have "a + n - 1 < bit_cnt b" using assms(1) by (auto simp: clear_bits_def)
  then show ?thesis by simp
qed

lemma scan_none:
  assumes "scan_result b 0 n False BITMAP_ERROR" and "bok b"
  shows "n \<noteq> 0 \<Longrightarrow> \<not> {a ..< a + n} \<subseteq> clear_bits b"
proof
  assume n: "n \<noteq> 0" and sub: "{a ..< a + n} \<subseteq> clear_bits b"
  have g: "group_at b a n False" using sub range_bounded [OF sub n] by (simp add: group_at_clear)
  have "\<not> group_at b BITMAP_ERROR n False"
    using n assms(2) by (simp add: group_at_def bok_def BITMAP_ERROR_def)
  with assms(1) g show False by (auto simp: scan_result_def)
qed

lemma scan_zero: "scan_result b 0 0 False r \<Longrightarrow> r = 0"
proof -
  have "group_at b 0 0 False" by (simp add: group_at_def)
  then show "scan_result b 0 0 False r \<Longrightarrow> r = 0" by (auto simp: scan_result_def)
qed

lemma flip_alloc:
  assumes ok: "bok b" and r: "bitmap_scan_and_flip b 0 n False = Some (r, b')"
  shows "bok b'" and "bit_cnt b' = bit_cnt b" and "length (bits b') = length (bits b)"
    and "r \<noteq> BITMAP_ERROR \<Longrightarrow> {r ..< r + n} \<subseteq> clear_bits b \<and> r + n \<le> bit_cnt b
           \<and> clear_bits b' = clear_bits b - {r ..< r + n}"
    and "r = BITMAP_ERROR \<Longrightarrow> b' = b \<and> (\<forall>a. \<not> {a ..< a + n} \<subseteq> clear_bits b)"
proof -
  have s: "scan_result b 0 n False r" and u: "if r = BITMAP_ERROR then b' = b else bupd {r ..< r + n} True b b'"
    using bitmap_scan_and_flip_ok [OF ok, of 0 n False] r by auto
  show "bok b'" and "bit_cnt b' = bit_cnt b" and "length (bits b') = length (bits b)"
    using u ok by (auto simp: bupd_def split: if_splits)
  show "r \<noteq> BITMAP_ERROR \<Longrightarrow> {r ..< r + n} \<subseteq> clear_bits b \<and> r + n \<le> bit_cnt b
      \<and> clear_bits b' = clear_bits b - {r ..< r + n}"
    using scan_result_group [OF s] u bupd_clear_True by (auto simp: group_at_clear)
  show "r = BITMAP_ERROR \<Longrightarrow> b' = b \<and> (\<forall>a. \<not> {a ..< a + n} \<subseteq> clear_bits b)"
    using u s scan_none [OF _ ok] scan_zero [of b r] by (cases "n = 0") (auto simp: BITMAP_ERROR_def)
qed

lemma flip_total: "bok b \<Longrightarrow> \<exists>r b'. bitmap_scan_and_flip b 0 n False = Some (r, b')"
  using bitmap_scan_and_flip_ok [of b 0 n False] by auto

text \<open>The check and the clearing of a release.\<close>

definition give_bits :: "bitmap \<Rightarrow> nat \<Rightarrow> nat \<Rightarrow> bitmap option" where
  "give_bits b a n = do { x \<leftarrow> bitmap_all b a n; ASSERT x; bitmap_set_multiple b a n False }"

lemma give_bits_used:
  assumes "bok b" and "a + n \<le> bit_cnt b" and "{a ..< a + n} \<inter> clear_bits b = {}"
  shows "\<exists>b'. give_bits b a n = Some b' \<and> bupd {a ..< a + n} False b b'
    \<and> clear_bits b' = clear_bits b \<union> {a ..< a + n}"
proof -
  have "bits_with b a n False = {}" using assms(2,3) by (auto simp: bits_with_def clear_bits_def)
  then have all: "bitmap_all b a n = Some True"
    using bitmap_contains_ok [OF assms(1,2)] by (simp add: bitmap_all_def)
  obtain b' where b': "bitmap_set_multiple b a n False = Some b'" "bupd {a ..< a + n} False b b'"
    using bitmap_set_multiple_ok [OF assms(1,2)] by blast
  have "clear_bits b' = clear_bits b \<union> {a ..< a + n}"
    by (rule bupd_clear_False [OF b'(2)]) (use assms(2) in auto)
  with all b' show ?thesis by (simp add: give_bits_def)
qed

lemma contains_loop_hit:
  "bok b \<Longrightarrow> j < bit_cnt b \<Longrightarrow> st + i \<le> j \<Longrightarrow> j < st + i + n \<Longrightarrow> bbit b j = v
     \<Longrightarrow> contains_loop b st v i n = Some True"
proof (induction n arbitrary: i)
  case (Suc n)
  have t: "bitmap_test b (size_add st i) = Some (bbit b (st + i))"
    using Suc.prems by (simp add: size_add_id bitmap_test_ok)
  show ?case
  proof (cases "bbit b (st + i) = v")
    case True
    with t show ?thesis by simp
  next
    case False
    with Suc.prems have "st + (i + 1) \<le> j" by (metis Suc_eq_plus1 add_Suc_right le_neq_implies_less Suc_leI)
    with Suc.IH [of "i + 1"] Suc.prems t False show ?thesis by simp
  qed
qed simp

lemma give_bits_free:
  assumes "bok b" and "{a ..< a + n} \<inter> clear_bits b \<noteq> {}"
  shows "give_bits b a n = None"
proof -
  obtain j where "a \<le> j" "j < a + n" "j < bit_cnt b" "\<not> bbit b j"
    using assms(2) by (auto simp: clear_bits_def)
  then have "contains_loop b a False 0 n = Some True" using contains_loop_hit [OF assms(1), of j a 0 n] by simp
  then show ?thesis by (auto simp: give_bits_def bitmap_all_def bitmap_contains_def)
qed

end
