(* ===== verification/FSProps.thy ===== *)
theory FSProps
  imports FSBytes BitmapAlloc
begin

text \<open>
  Properties of the file system: reading and writing files, the on-disk images, the free
  map as an allocator that is kept on disk, and the sharing of open inodes.
\<close>

section \<open>Contents of a file\<close>

lemma file_bytes_nth: "k < nat (dlength d) \<Longrightarrow> file_bytes b d ! k = fbyte b d k"
  by (simp add: file_bytes_def)

lemma file_bytes_length [simp]: "length (file_bytes b d) = nat (dlength d)"
  by (simp add: file_bytes_def)

lemma data_bytes_ge: "0 \<le> dlength d \<Longrightarrow> nat (dlength d) \<le> data_bytes d"
  by (simp add: data_bytes_def bytes_to_sectors_nat)

lemma wrote_file_bytes:
  assumes w: "wrote d k bs s s'" and d: "0 \<le> dlength d" and fit: "bs = [] \<or> k + length bs \<le> nat (dlength d)"
  shows "file_bytes (fs_device s') d = take k (file_bytes (fs_device s) d) @ bs
           @ drop (k + length bs) (file_bytes (fs_device s) d)"
proof (cases "bs = []")
  case True
  have "fbyte (fs_device s') d j = fbyte (fs_device s) d j" if "j < nat (dlength d)" for j
    using w that data_bytes_ge [OF d] True by (auto simp: wrote_def)
  with True show ?thesis by (simp add: file_bytes_def)
next
  case False
  let ?f = "file_bytes (fs_device s) d"
  have len: "k + length bs \<le> length ?f" using fit False by simp
  show ?thesis
  proof (rule nth_equalityI)
    show "length (file_bytes (fs_device s') d) = length (take k ?f @ bs @ drop (k + length bs) ?f)"
      using len by simp
    fix j assume "j < length (file_bytes (fs_device s') d)"
    then have j: "j < nat (dlength d)" by simp
    then have "file_bytes (fs_device s') d ! j =
        (if k \<le> j \<and> j < k + length bs then bs ! (j - k) else ?f ! j)"
      using w data_bytes_ge [OF d] by (simp add: file_bytes_nth wrote_def)
    also have "\<dots> = (take k ?f @ bs @ drop (k + length bs) ?f) ! j"
      using len j by (auto simp: nth_append min_def)
    finally show "file_bytes (fs_device s') d ! j = (take k ?f @ bs @ drop (k + length bs) ?f) ! j" .
  qed
qed

text \<open>C14: a write to an inode stores exactly the bytes that fit before its end, at any offset
  and across sectors; reading them back gives what was written, the rest of the file and every
  other sector of the device are unchanged.\<close>

theorem inode_write_read:
  assumes "data_ok (fs_device s) (idata i)" and "allocs s = []" and "deny_write_cnt i = 0" and "0 \<le> offset"
  shows "\<exists>n s1 s2. inode_write_at i buffer (int (length buffer)) offset s = Some (int n, s1)
    \<and> n = min (length buffer) (nat (dlength (idata i)) - nat offset)
    \<and> inode_read_at i (int n) offset s1 = Some (take n buffer, s2)
    \<and> file_bytes (fs_device s1) (idata i) =
        take (nat offset) (file_bytes (fs_device s) (idata i)) @ take n buffer
        @ drop (nat offset + n) (file_bytes (fs_device s) (idata i))
    \<and> (\<forall>sec. sec < start (idata i) \<or> start (idata i) + bytes_to_sectors (dlength (idata i)) \<le> sec
         \<longrightarrow> contents (fs_device s1) sec = contents (fs_device s) sec)"
proof -
  let ?d = "idata i"
  obtain s1 n where w: "inode_write_at i buffer (int (length buffer)) offset s = Some (int n, s1)"
      "n = min (length buffer) (nat (dlength ?d) - nat offset)"
      "wrote ?d (nat offset) (take n buffer) s s1" "allocs s1 = []"
    using inode_write_at_ok [OF assms(1,2,4), of "int (length buffer)" buffer] assms(3) by auto
  have d0: "0 \<le> dlength ?d" using assms(1) by (simp add: data_ok_def)
  have fit: "take n buffer = [] \<or> nat offset + length (take n buffer) \<le> nat (dlength ?d)"
  proof -
    have "n = 0 \<or> nat offset + n \<le> nat (dlength ?d)"
      using w(2) by (cases "nat offset \<le> nat (dlength ?d)") auto
    then show ?thesis using w(2) by auto
  qed
  have len: "length (take n buffer) = n" using w(2) by simp
  have bytes: "file_bytes (fs_device s1) ?d = take (nat offset) (file_bytes (fs_device s) ?d) @ take n buffer
      @ drop (nat offset + n) (file_bytes (fs_device s) ?d)"
    using wrote_file_bytes [OF w(3) d0 fit] len by simp
  have ok1: "data_ok (fs_device s1) ?d" by (rule wrote_data_ok [OF w(3) assms(1)])
  obtain s2 where r: "inode_read_at i (int n) offset s1 =
      Some (take n (drop (nat offset) (file_bytes (fs_device s1) ?d)), s2)"
    using inode_read_at_ok [OF ok1 w(4) assms(4), of "int n"] by auto
  have "take n (drop (nat offset) (file_bytes (fs_device s1) ?d)) = take n buffer"
  proof (cases "n = 0")
    case False
    then have "length (take (nat offset) (file_bytes (fs_device s) ?d)) = nat offset" using w(2) by simp
    then show ?thesis using len by (simp add: bytes)
  qed simp
  with r have r': "inode_read_at i (int n) offset s1 = Some (take n buffer, s2)" by simp
  have "\<forall>sec. sec < start ?d \<or> start ?d + bytes_to_sectors (dlength ?d) \<le> sec
         \<longrightarrow> contents (fs_device s1) sec = contents (fs_device s) sec"
    using w(3) unfolding wrote_def by blast
  with w(1,2) r' bytes show ?thesis by blast
qed

text \<open>A device of 8 sectors with a file of 700 bytes that starts in sector 3.\<close>

definition demo_dev :: block where
  "demo_dev = \<lparr>block_name = [], block_type = BLOCK_FILESYS, block_size = 8, read_cnt = 0, write_cnt = 0,
     contents = (\<lambda>_. replicate 512 7)\<rparr>"

definition demo_disk :: inode_disk where
  "demo_disk = \<lparr>start = 3, dlength = 700, magic = INODE_MAGIC, unused = replicate 500 0\<rparr>"

definition demo_inode :: inode where
  "demo_inode = \<lparr>sector = 2, open_cnt = 1, removed = False, deny_write_cnt = 0, idata = demo_disk\<rparr>"

definition demo_fs :: fs where
  "demo_fs = \<lparr>fs_device = demo_dev, inodes = [1 \<mapsto> demo_inode], open_inodes = [1], files = Map.empty,
     dirs = Map.empty, free_map = \<lparr>bit_cnt = 8, bits = [0x1F]\<rparr>, free_map_file = 0, brk = 2, allocs = []\<rparr>"

lemma demo_data_ok: "data_ok (fs_device demo_fs) (idata demo_inode)"
  by (simp add: data_ok_def dev_ok_def demo_fs_def demo_dev_def demo_inode_def demo_disk_def bytes_to_sectors_nat)

lemma demo_fs_simps [simp]:
  "allocs demo_fs = []" "deny_write_cnt demo_inode = 0" "dlength (idata demo_inode) = 700"
  by (simp_all add: demo_fs_def demo_inode_def demo_disk_def)

theorem inode_write_read_witness:
  "\<exists>s1 s2. inode_write_at demo_inode [1, 2, 3] 3 511 demo_fs = Some (3, s1)
     \<and> inode_read_at demo_inode 3 511 s1 = Some ([1, 2, 3], s2)"
  using inode_write_read [OF demo_data_ok, of 511 "[1, 2, 3]"] by auto

text \<open>Reading an inode returns exactly the bytes of the file in the range asked for, cut off
  at the end of the file, and changes nothing but the device's read counter; a write to an inode
  whose writes are denied returns 0 and changes nothing.\<close>

theorem inode_read_exact:
  assumes "data_ok (fs_device s) (idata i)" and "allocs s = []" and "0 \<le> offset"
  shows "\<exists>s'. inode_read_at i sz offset s =
      Some (take (nat sz) (drop (nat offset) (file_bytes (fs_device s) (idata i))), s')
    \<and> (\<exists>rc. s' = s\<lparr>fs_device := (fs_device s)\<lparr>read_cnt := rc\<rparr>\<rparr>)
    \<and> (deny_write_cnt i \<noteq> 0 \<longrightarrow> inode_write_at i buffer n offset s = Some (0, s))"
proof -
  obtain s' where r: "inode_read_at i sz offset s =
      Some (take (nat sz) (drop (nat offset) (file_bytes (fs_device s) (idata i))), s')"
      "quiet s s'" "allocs s' = []"
    using inode_read_at_ok [OF assms] by blast
  obtain rc os where q: "s' = s\<lparr>fs_device := (fs_device s)\<lparr>read_cnt := rc\<rparr>, allocs := os\<rparr>"
    using r(2) by (auto simp: quiet_def)
  with r(3) assms(2) have "s' = s\<lparr>fs_device := (fs_device s)\<lparr>read_cnt := rc\<rparr>\<rparr>" by simp
  with r(1) show ?thesis by (auto simp: inode_write_at_def)
qed

theorem inode_read_exact_witness:
  "\<exists>s'. inode_read_at demo_inode 600 650 demo_fs = Some (replicate 50 7, s')"
proof -
  have f: "fbyte demo_dev demo_disk k = 7" for k
    by (simp add: fbyte_def demo_dev_def)
  have "file_bytes (fs_device demo_fs) (idata demo_inode) = replicate 700 7"
    by (rule nth_equalityI) (simp_all add: file_bytes_nth demo_fs_def demo_inode_def f demo_disk_def [THEN arg_cong, of dlength])
  with inode_read_exact [OF demo_data_ok, of 650 600] show ?thesis by auto
qed

section \<open>On-disk images\<close>

text \<open>The on-disk inode fills one sector and is read back as it was written; a directory
  entry takes 20 bytes and both directions of its image are inverse; the elements of a bitmap
  survive being written to a file.\<close>

theorem disk_images_roundtrip:
  "(disk_ok d \<longrightarrow> length (encode_inode d) = 512 \<and> decode_inode (encode_inode d) = d)
   \<and> (entry_ok e \<longrightarrow> length (encode_entry e) = 20 \<and> decode_entry (encode_entry e) = e)
   \<and> (length bs = 20 \<longrightarrow> encode_entry (decode_entry bs) = bs)
   \<and> bytes_elem (elem_bytes ws) = ws"
  by (simp add: encode_inode_length decode_encode_inode encode_entry_length decode_encode_entry
      encode_decode_entry bytes_elem_bytes)

theorem disk_images_roundtrip_witness:
  "decode_inode (encode_inode demo_disk) = demo_disk
   \<and> decode_entry (encode_entry \<lparr>inode_sector = 70000, name = replicate 15 65, in_use = 1\<rparr>)
     = \<lparr>inode_sector = 70000, name = replicate 15 65, in_use = 1\<rparr>"
  using disk_images_roundtrip [of demo_disk "\<lparr>inode_sector = 70000, name = replicate 15 65, in_use = 1\<rparr>" "[]" "[]"]
  by (simp add: disk_ok_def entry_ok_def demo_disk_def INODE_MAGIC_def)

section \<open>The free map\<close>

text \<open>The free map while its file is open: the file has room for it and may be written.\<close>

definition map_file :: "fs \<Rightarrow> inode \<Rightarrow> bool" where
  "map_file s i \<longleftrightarrow> (\<exists>fl. files s (free_map_file s) = Some fl \<and> inodes s (file_inode fl) = Some i)
     \<and> data_ok (fs_device s) (idata i) \<and> deny_write_cnt i = 0"

definition map_ok :: "fs \<Rightarrow> bool" where
  "map_ok s \<longleftrightarrow> bok (free_map s) \<and> allocs s = [] \<and> free_map_file s \<noteq> 0
     \<and> byte_cnt (bit_cnt (free_map s)) \<le> 4 * length (bits (free_map s))
     \<and> (\<exists>i. map_file s i \<and> int (byte_cnt (bit_cnt (free_map s))) \<le> dlength (idata i))"

definition free_sectors :: "fs \<Rightarrow> nat set" where
  "free_sectors s = clear_bits (free_map s)"

definition map_size :: "fs \<Rightarrow> nat" where
  "map_size s = bit_cnt (free_map s)"

lemma bitmap_write_ok:
  assumes "map_ok s"
  shows "\<exists>i s'. map_file s i \<and> bitmap_write (free_map s) (free_map_file s) s = Some (True, s')
    \<and> wrote (idata i) 0 (take (byte_cnt (bit_cnt (free_map s))) (elem_bytes (bits (free_map s)))) s s'
    \<and> allocs s' = []"
proof -
  let ?n = "byte_cnt (bit_cnt (free_map s))" and ?bs = "elem_bytes (bits (free_map s))"
  obtain i fl where i: "map_file s i" "files s (free_map_file s) = Some fl" "inodes s (file_inode fl) = Some i"
      "int ?n \<le> dlength (idata i)"
    using assms by (auto simp: map_ok_def map_file_def)
  have len: "?n \<le> length ?bs" using assms by (simp add: map_ok_def elem_bytes_length)
  have min: "min ?n (nat (dlength (idata i))) = ?n" using i(4) by simp
  obtain s' where "inode_write_at i ?bs (int ?n) 0 s = Some (int ?n, s')"
      "wrote (idata i) 0 (take ?n ?bs) s s'" "allocs s' = []"
    using inode_write_at_ok [of s i 0 "int ?n" ?bs] i(1) assms len min
    by (auto simp: map_ok_def map_file_def)
  with i show ?thesis by (auto simp: bitmap_write_def file_write_at_def)
qed

lemma wrote_map_ok:
  assumes "map_ok s" and "map_file s i" and "wrote (idata i) k bs s s'" and "allocs s' = []"
  shows "map_ok s'" and "free_map s' = free_map s"
proof -
  have s': "s' = s\<lparr>fs_device := fs_device s', allocs := allocs s'\<rparr>" using assms(3) by (simp add: wrote_def)
  have same: "free_map s' = free_map s" "free_map_file s' = free_map_file s" "files s' = files s" "inodes s' = inodes s"
    by (subst s'; simp)+
  then show "free_map s' = free_map s" by simp
  have "map_file s' i" using assms(2) wrote_data_ok [OF assms(3)] by (simp add: map_file_def same)
  moreover have "i' = i" if "map_file s i'" for i' using that assms(2) by (auto simp: map_file_def)
  ultimately show "map_ok s'" using assms(1,4) by (auto simp: map_ok_def same)
qed

lemma map_ok_upd:
  assumes "map_ok s" and "bok b" and "bit_cnt b = bit_cnt (free_map s)" and "length (bits b) = length (bits (free_map s))"
  shows "map_ok (s\<lparr>free_map := b\<rparr>)"
  using assms by (simp add: map_ok_def map_file_def)

text \<open>The free map file on disk holds the map in memory.\<close>

definition map_on_disk :: "fs \<Rightarrow> bool" where
  "map_on_disk s \<longleftrightarrow> (\<exists>i. map_file s i \<and>
     take (byte_cnt (map_size s)) (file_bytes (fs_device s) (idata i))
       = take (byte_cnt (map_size s)) (elem_bytes (bits (free_map s))))"

lemma map_write:
  assumes ok: "map_ok s"
  shows "\<exists>s'. bitmap_write (free_map s) (free_map_file s) s = Some (True, s') \<and> map_ok s'
    \<and> free_map s' = free_map s \<and> map_on_disk s'"
proof -
  let ?n = "byte_cnt (bit_cnt (free_map s))" and ?bs = "elem_bytes (bits (free_map s))"
  obtain i s' where w: "map_file s i" "bitmap_write (free_map s) (free_map_file s) s = Some (True, s')"
      "wrote (idata i) 0 (take ?n ?bs) s s'" "allocs s' = []"
    using bitmap_write_ok [OF ok] by blast
  note ok' = wrote_map_ok [OF ok w(1,3,4)]
  have room: "int ?n \<le> dlength (idata i)" and d0: "0 \<le> dlength (idata i)" and len: "?n \<le> length ?bs"
    using ok w(1) by (auto simp: map_ok_def map_file_def data_ok_def elem_bytes_length)
  have img: "take ?n (file_bytes (fs_device s') (idata i)) = take ?n ?bs"
    using wrote_file_bytes [OF w(3) d0 disjI2] room len by simp
  have "s' = s\<lparr>fs_device := fs_device s', allocs := allocs s'\<rparr>" using w(3) by (simp add: wrote_def)
  then have "files s' = files s" "inodes s' = inodes s" "free_map_file s' = free_map_file s"
    by (metis fs.surjective fs.update_convs fs.select_convs)+
  then have "map_file s' i" using w(1) wrote_data_ok [OF w(3)] by (simp add: map_file_def)
  then show ?thesis using w(2) ok' img by (auto simp: map_on_disk_def map_size_def)
qed

lemma free_map_allocate_ok:
  assumes ok: "map_ok s"
  shows "\<exists>r s'. free_map_allocate n s = Some (r, s') \<and> map_ok s' \<and> map_size s' = map_size s
    \<and> (case r of
         None \<Rightarrow> s' = s \<and> (\<forall>a. \<not> {a ..< a + n} \<subseteq> free_sectors s)
       | Some a \<Rightarrow> {a ..< a + n} \<subseteq> free_sectors s \<and> a + n \<le> map_size s
           \<and> free_sectors s' = free_sectors s - {a ..< a + n} \<and> map_on_disk s')"
proof -
  have bok: "bok (free_map s)" using ok by (simp add: map_ok_def)
  obtain r b where rb: "bitmap_scan_and_flip (free_map s) 0 n False = Some (r, b)"
    using flip_total [OF bok] by blast
  note fl = flip_alloc [OF bok rb]
  show ?thesis
  proof (cases "r = BITMAP_ERROR")
    case True
    then have "free_map_allocate n s = Some (None, s)"
      using rb fl(5) by (simp add: free_map_allocate_def)
    then show ?thesis using ok fl(5) True by (auto simp: free_sectors_def)
  next
    case False
    let ?s1 = "s\<lparr>free_map := b\<rparr>"
    obtain s' where w: "bitmap_write b (free_map_file s) ?s1 = Some (True, s')" "map_ok s'" "free_map s' = b" "map_on_disk s'"
      using map_write [OF map_ok_upd [OF ok fl(1-3)]] by auto
    have "free_map_allocate n s = Some (Some r, s')"
      using rb False w(1) ok by (simp add: free_map_allocate_def map_ok_def)
    then show ?thesis using w fl(4) [OF False] fl(2) by (auto simp: free_sectors_def map_size_def)
  qed
qed

lemma free_map_release_give:
  "free_map_release a n s = do {
     b \<leftarrow> give_bits (free_map s) a n;
     (_, s) \<leftarrow> bitmap_write b (free_map_file s) (s\<lparr>free_map := b\<rparr>);
     Some s
   }"
  by (cases "bitmap_all (free_map s) a n") (simp_all add: free_map_release_def give_bits_def Let_def)

lemma free_map_release_ok:
  assumes ok: "map_ok s" and fit: "a + n \<le> map_size s" and used: "{a ..< a + n} \<inter> free_sectors s = {}"
  shows "\<exists>s'. free_map_release a n s = Some s' \<and> map_ok s' \<and> map_size s' = map_size s
    \<and> free_sectors s' = free_sectors s \<union> {a ..< a + n} \<and> map_on_disk s'"
proof -
  have bok: "bok (free_map s)" using ok by (simp add: map_ok_def)
  obtain b where b: "give_bits (free_map s) a n = Some b" "bupd {a ..< a + n} False (free_map s) b"
      "clear_bits b = free_sectors s \<union> {a ..< a + n}"
    using give_bits_used [OF bok, of a n] fit used by (auto simp: map_size_def free_sectors_def)
  have ok1: "map_ok (s\<lparr>free_map := b\<rparr>)" by (rule map_ok_upd [OF ok]) (use b(2) in \<open>simp_all add: bupd_def\<close>)
  obtain s' where w: "bitmap_write b (free_map_file s) (s\<lparr>free_map := b\<rparr>) = Some (True, s')"
      "map_ok s'" "free_map s' = b" "map_on_disk s'"
    using map_write [OF ok1] by auto
  have "free_map_release a n s = Some s'" using b(1) w(1) by (simp add: free_map_release_give)
  then show ?thesis using w b(2,3) by (auto simp: free_sectors_def map_size_def bupd_def)
qed

interpretation sectors: run_allocator map_ok map_size free_sectors free_map_allocate free_map_release
proof unfold_locales
  fix s :: fs and n a r s'
  assume ok: "map_ok s"
  then have bok: "bok (free_map s)" by (simp add: map_ok_def)
  note al = free_map_allocate_ok [OF ok, of n]
  show "free_sectors s \<subseteq> {0 ..< map_size s}"
    by (auto simp: free_sectors_def map_size_def clear_bits_def)
  show "\<exists>r s'. free_map_allocate n s = Some (r, s')" using al by blast
  show "free_map_allocate n s = Some (r, s') \<Longrightarrow> map_ok s' \<and> map_size s' = map_size s" using al by auto
  show "free_map_allocate n s = Some (Some a, s') \<Longrightarrow> {a ..< a + n} \<subseteq> free_sectors s
      \<and> a + n \<le> map_size s \<and> free_sectors s' = free_sectors s - {a ..< a + n}"
    using al by auto
  show "free_map_allocate n s = Some (None, s') \<Longrightarrow> free_sectors s' = free_sectors s
      \<and> (\<forall>a. \<not> {a ..< a + n} \<subseteq> free_sectors s)"
    using al by auto
  show "\<exists>s'. free_map_release a n s = Some s' \<and> map_ok s' \<and> map_size s' = map_size s
      \<and> free_sectors s' = free_sectors s \<union> {a ..< a + n}"
    if "a + n \<le> map_size s" and "{a ..< a + n} \<inter> free_sectors s = {}"
    using free_map_release_ok [OF ok that] by blast
  show "{a ..< a + n} \<inter> free_sectors s \<noteq> {} \<Longrightarrow> free_map_release a n s = None"
    using give_bits_free [OF bok, of a n] by (simp add: free_map_release_give free_sectors_def)
qed

text \<open>What a client may do: allocate, also in vain, and release a run that it holds.  The runs it
  holds are recorded beside the state.\<close>

inductive map_run :: "fs \<Rightarrow> (nat \<times> nat) list \<Rightarrow> fs \<Rightarrow> bool" for s0 where
  map_start: "map_run s0 [] s0"
| map_alloc: "map_run s0 rs s \<Longrightarrow> free_map_allocate n s = Some (Some a, s') \<Longrightarrow> map_run s0 ((a, n) # rs) s'"
| map_full: "map_run s0 rs s \<Longrightarrow> free_map_allocate n s = Some (None, s') \<Longrightarrow> map_run s0 rs s'"
| map_release: "map_run s0 rs s \<Longrightarrow> (a, n) \<in> set rs \<Longrightarrow> free_map_release a n s = Some s' \<Longrightarrow>
    map_run s0 (remove1 (a, n) rs) s'"

lemma map_run_held:
  assumes "map_run s0 rs s" and ok: "map_ok s0"
  shows "map_ok s \<and> held (map_size s) (free_sectors s0) rs (free_sectors s) \<and> (s = s0 \<or> map_on_disk s)"
  using assms(1)
proof induction
  case map_start
  show ?case using ok by (simp add: held_def runs_disjoint_def)
next
  case (map_alloc rs s n a s')
  then show ?case
    using sectors.alloc_held [of s "free_sectors s0" rs n a s'] free_map_allocate_ok [of s n] by auto
next
  case (map_full rs s n s')
  then show ?case using free_map_allocate_ok [of s n] by auto
next
  case (map_release rs s a n s')
  then have h: "map_ok s" "held (map_size s) (free_sectors s0) rs (free_sectors s)" by simp_all
  have u: "run_units (a, n) = {a ..< a + n}" by (simp add: run_units_def)
  have "{a ..< a + n} \<inter> free_sectors s = {}" "a + n \<le> map_size s"
    using h(2) map_release.hyps(2) unfolding held_def u [symmetric] by fastforce+
  then show ?case
    using sectors.release_held [OF h map_release.hyps(2)] free_map_release_ok [OF h(1), of a n] map_release.hyps(3)
    by auto
qed

text \<open>C16: whatever a client of the free map allocates and releases, and in whatever order: the
  runs that it holds were free, no two of them share a sector, and the free sectors are what they
  leave; every run that it holds can be released, which makes its sectors free again, and releasing it
  once more panics; and after every change, by an allocation or a release, the free map file on disk
  holds the map in memory.\<close>

theorem free_map_exclusive:
  assumes "map_ok s0" and "map_run s0 rs s"
  shows "(\<forall>i j. i < j \<longrightarrow> j < length rs \<longrightarrow>
        {fst (rs ! i) ..< fst (rs ! i) + snd (rs ! i)} \<inter> {fst (rs ! j) ..< fst (rs ! j) + snd (rs ! j)} = {})
    \<and> free_sectors s = free_sectors s0 - (\<Union>(a, n) \<in> set rs. {a ..< a + n})
    \<and> (\<forall>(a, n) \<in> set rs. {a ..< a + n} \<subseteq> free_sectors s0 \<and>
        (\<exists>s'. free_map_release a n s = Some s' \<and> free_sectors s' = free_sectors s \<union> {a ..< a + n} \<and> map_on_disk s'
           \<and> (0 < n \<longrightarrow> free_map_release a n s' = None)))
    \<and> (s = s0 \<or> map_on_disk s)"
proof -
  have s: "map_ok s" "held (map_size s) (free_sectors s0) rs (free_sectors s)" "s = s0 \<or> map_on_disk s"
    using map_run_held [OF assms(2,1)] by simp_all
  have h: "runs_disjoint rs" "\<forall>r \<in> set rs. run_units r \<subseteq> free_sectors s0"
    "free_sectors s = free_sectors s0 - (\<Union>r \<in> set rs. run_units r)"
    using s(2) by (auto simp: held_def)
  have u: "(\<Union>(a, n) \<in> set rs. {a ..< a + n}) = (\<Union>r \<in> set rs. run_units r)"
    by (auto simp: run_units_def)
  have rel: "{a ..< a + n} \<subseteq> free_sectors s0 \<and>
        (\<exists>s'. free_map_release a n s = Some s' \<and> free_sectors s' = free_sectors s \<union> {a ..< a + n} \<and> map_on_disk s'
           \<and> (0 < n \<longrightarrow> free_map_release a n s' = None))" if r: "(a, n) \<in> set rs" for a n
  proof -
    have sub: "{a ..< a + n} \<subseteq> free_sectors s0" using h(2) r by (fastforce simp: run_units_def)
    obtain s' where s': "free_map_release a n s = Some s'" "free_sectors s' = free_sectors s \<union> {a ..< a + n}"
      "0 < n \<longrightarrow> free_map_release a n s' = None"
      using sectors.release_held [OF s(1,2) r] by blast
    have "map_run s0 (remove1 (a, n) rs) s'" by (rule map_release [OF assms(2) r s'(1)])
    have "{a ..< a + n} \<inter> free_sectors s = {}" "a + n \<le> map_size s"
      using s(2) r unfolding held_def by (fastforce simp: run_units_def)+
    then have "map_on_disk s'" using free_map_release_ok [OF s(1), of a n] s'(1) by auto
    then show ?thesis using sub s' by blast
  qed
  have d: "\<forall>i j. i < j \<longrightarrow> j < length rs \<longrightarrow> run_units (rs ! i) \<inter> run_units (rs ! j) = {}"
    using h(1) by (simp add: runs_disjoint_def sorted_wrt_iff_nth_less)
  have f: "free_sectors s = free_sectors s0 - (\<Union>(a, n) \<in> set rs. {a ..< a + n})" using h(3) u by simp
  show ?thesis
    by (intro conjI; (rule d [unfolded run_units_def] f s(3))?; clarify; rule rel)
qed

text \<open>The demonstration file system with the free map in the file of inode 1.\<close>

definition demo_map_fs :: fs where
  "demo_map_fs = demo_fs\<lparr>files := [2 \<mapsto> \<lparr>file_inode = 1, pos = 0, deny_write = False\<rparr>], free_map_file := 2, brk := 3\<rparr>"

lemma demo_map_ok: "map_ok demo_map_fs"
proof -
  have "map_file demo_map_fs demo_inode"
    using demo_data_ok by (simp add: map_file_def demo_map_fs_def) (simp add: demo_fs_def)
  then show ?thesis
    by (auto simp: map_ok_def demo_map_fs_def intro!: exI [of _ demo_inode])
      (simp_all add: demo_fs_def bok_def byte_cnt_def elem_cnt_def size_add_def ELEM_BITS_def)
qed

lemma demo_map_free: "free_sectors demo_map_fs = {5, 6, 7}"
proof -
  have "free_sectors demo_map_fs = {i. i < 8 \<and> \<not> bit (0x1F :: 32 word) i}"
    by (auto simp: free_sectors_def clear_bits_def demo_map_fs_def demo_fs_def bbit_def elem_idx_def ELEM_BITS_def)
  also have "\<dots> = set (filter (\<lambda>i. \<not> bit (0x1F :: 32 word) i) [0 ..< 8])" by auto
  also have "\<dots> = {5, 6, 7}" by (simp add: upt_rec) auto
  finally show ?thesis .
qed

theorem free_map_exclusive_witness:
  "\<exists>a s1. map_run demo_map_fs [(a, 2)] s1 \<and> free_sectors s1 = {5, 6, 7} - {a ..< a + 2} \<and> map_on_disk s1
     \<and> (\<exists>s2. free_map_release a 2 s1 = Some s2 \<and> free_sectors s2 = {5, 6, 7} \<and> map_on_disk s2)"
proof -
  have "{5 ..< 5 + 2} \<subseteq> free_sectors demo_map_fs" by (auto simp: demo_map_free)
  from sectors.alloc_fits [OF demo_map_ok this] obtain a s1
    where t1: "free_map_allocate 2 demo_map_fs = Some (Some a, s1)" by blast
  have r: "map_run demo_map_fs [(a, 2)] s1" using map_alloc [OF map_start t1] .
  note f = free_map_exclusive [OF demo_map_ok r]
  have a: "free_sectors s1 = {5, 6, 7} - {a ..< a + 2}" using f by (simp add: demo_map_free)
  have sub: "{a ..< a + 2} \<subseteq> {5, 6, 7}" using f by (simp add: demo_map_free)
  have in2: "a \<in> {a ..< a + 2}" by simp
  then have "free_sectors s1 \<noteq> free_sectors demo_map_fs" using a sub demo_map_free by blast
  then have "map_on_disk s1" using f by blast
  moreover obtain s2 where "free_map_release a 2 s1 = Some s2" "free_sectors s2 = free_sectors s1 \<union> {a ..< a + 2}" "map_on_disk s2"
    using f by auto
  ultimately show ?thesis using r a sub by blast
qed

end
