(* ===== verification/DirProps.thy ===== *)
theory DirProps
  imports FSProps
begin

text \<open>
  A directory as the list of its entries: what lookup finds, where dir_add stores a new
  entry and what dir_remove leaves, for directories whose names are terminated.
\<close>

section \<open>The entries of a directory\<close>

definition entries :: "block \<Rightarrow> inode_disk \<Rightarrow> dir_entry list" where
  "entries b d = map (\<lambda>k. decode_entry (take 20 (drop (20 * k) (file_bytes b d)))) [0 ..< nat (dlength d) div 20]"

definition cname :: "dir_entry \<Rightarrow> byte list" where
  "cname e = takeWhile (\<lambda>c. c \<noteq> 0) (name e)"

definition terminated :: "dir_entry \<Rightarrow> bool" where
  "terminated e \<longleftrightarrow> in_use e \<noteq> 0 \<longrightarrow> 0 \<in> set (name e)"

fun find_ent :: "byte list \<Rightarrow> dir_entry list \<Rightarrow> nat \<Rightarrow> (dir_entry \<times> nat) option" where
  "find_ent nm [] k = None"
| "find_ent nm (e # es) k = (if in_use e \<noteq> 0 \<and> cname e = nm then Some (e, k) else find_ent nm es (k + 1))"

fun free_slot :: "dir_entry list \<Rightarrow> nat \<Rightarrow> nat option" where
  "free_slot [] k = None"
| "free_slot (e # es) k = (if in_use e = 0 then Some k else free_slot es (k + 1))"

definition to_ofs :: "dir_entry \<times> nat \<Rightarrow> dir_entry \<times> int" where
  "to_ofs p = (fst p, int (20 * snd p))"

lemma entries_length [simp]: "length (entries b d) = nat (dlength d) div 20"
  by (simp add: entries_def)

lemma entries_quiet: "quiet s s' \<Longrightarrow> entries (fs_device s') d = entries (fs_device s) d"
  using fbyte_cong [of "fs_device s'" "fs_device s"] quiet_dev(1) [of s s']
  by (simp add: entries_def file_bytes_def)

lemma data_ok_quiet: "quiet s s' \<Longrightarrow> data_ok (fs_device s') d = data_ok (fs_device s) d"
  using quiet_dev [of s s'] data_ok_cong by metis

lemma name_matches_ok: "terminated e \<Longrightarrow> in_use e \<noteq> 0 \<Longrightarrow> name_matches nm e = Some (cname e = nm)"
  by (auto simp: name_matches_def terminated_def cname_def)

text \<open>Reading at the place of entry k.\<close>

lemma read_entry:
  assumes "data_ok (fs_device s) (idata i)" and "allocs s = []"
  shows "\<exists>s'. inode_read_at i 20 (int (20 * k)) s
      = Some (take 20 (drop (20 * k) (file_bytes (fs_device s) (idata i))), s') \<and> quiet s s' \<and> allocs s' = []"
  using inode_read_at_ok [OF assms, of "int (20 * k)" 20] by (simp del: of_nat_mult)

lemma entry_in_range: "length (take 20 (drop (20 * k) (file_bytes b d))) = 20 \<longleftrightarrow> k < nat (dlength d) div 20"
proof -
  have "length (take 20 (drop (20 * k) (file_bytes b d))) = 20 \<longleftrightarrow> 20 * k + 20 \<le> nat (dlength d)" by auto
  also have "\<dots> \<longleftrightarrow> k < nat (dlength d) div 20" by linarith
  finally show ?thesis .
qed

lemma entries_drop:
  "k < nat (dlength d) div 20
     \<Longrightarrow> drop k (entries b d) = decode_entry (take 20 (drop (20 * k) (file_bytes b d))) # drop (Suc k) (entries b d)"
  using Cons_nth_drop_Suc [of k "entries b d"] by (simp add: entries_def)

lemma lookup_loop_ok:
  "data_ok (fs_device s) (idata i) \<Longrightarrow> allocs s = []
     \<Longrightarrow> \<forall>e \<in> set (drop k (entries (fs_device s) (idata i))). terminated e
     \<Longrightarrow> \<exists>s'. lookup_loop i nm (int (20 * k)) s
           = Some (map_option to_ofs (find_ent nm (drop k (entries (fs_device s) (idata i))) k), s')
         \<and> quiet s s' \<and> allocs s' = []"
proof (induction "nat (dlength (idata i)) div 20 - k" arbitrary: k s)
  case 0
  let ?bs = "take 20 (drop (20 * k) (file_bytes (fs_device s) (idata i)))"
  obtain s' where r: "inode_read_at i 20 (int (20 * k)) s = Some (?bs, s')" "quiet s s'" "allocs s' = []"
    using read_entry [OF 0(2,3)] by blast
  have "length ?bs \<noteq> 20" unfolding entry_in_range using 0(1) by simp
  with r 0(1) show ?case
    by (subst lookup_loop.simps) (simp add: sizeof_dir_entry_def)
next
  case (Suc n)
  let ?es = "entries (fs_device s) (idata i)"
  let ?bs = "take 20 (drop (20 * k) (file_bytes (fs_device s) (idata i)))"
  have k: "k < nat (dlength (idata i)) div 20" using Suc(2) by simp
  obtain s1 where r: "inode_read_at i 20 (int (20 * k)) s = Some (?bs, s1)" "quiet s s1" "allocs s1 = []"
    using read_entry [OF Suc(3,4)] by blast
  have len: "length ?bs = 20" unfolding entry_in_range by (rule k)
  define e where "e = decode_entry ?bs"
  note dr = entries_drop [OF k, of "fs_device s", folded e_def]
  have t: "terminated e" using Suc(5) dr by simp
  have step: "lookup_loop i nm (int (20 * k)) s =
      (if in_use e \<noteq> 0 \<and> cname e = nm then Some (Some (e, int (20 * k)), s1)
       else lookup_loop i nm (int (20 * Suc k)) s1)"
    using r(1) len name_matches_ok [OF t]
    by (subst lookup_loop.simps) (simp add: sizeof_dir_entry_def Let_def e_def [symmetric] add.commute)
  show ?case
  proof (cases "in_use e \<noteq> 0 \<and> cname e = nm")
    case True
    with step dr r show ?thesis by (auto simp: to_ofs_def)
  next
    case False
    have "n = nat (dlength (idata i)) div 20 - Suc k" using Suc(2) by simp
    moreover have "data_ok (fs_device s1) (idata i)" using data_ok_quiet [OF r(2)] Suc(3) by simp
    moreover have "\<forall>e \<in> set (drop (Suc k) (entries (fs_device s1) (idata i))). terminated e"
      using Suc(5) dr entries_quiet [OF r(2)] by simp
    ultimately obtain s' where "lookup_loop i nm (int (20 * Suc k)) s1 =
        Some (map_option to_ofs (find_ent nm (drop (Suc k) (entries (fs_device s1) (idata i))) (Suc k)), s')"
        "quiet s1 s'" "allocs s' = []"
      using Suc(1) [of "Suc k" s1] r(3) by blast
    with step False dr quiet_trans [OF r(2)] entries_quiet [OF r(2)] show ?thesis by auto
  qed
qed

lemma free_slot_loop_ok:
  "data_ok (fs_device s) (idata i) \<Longrightarrow> allocs s = [] \<Longrightarrow> length e = 20 \<Longrightarrow> 20 dvd nat (dlength (idata i))
     \<Longrightarrow> \<exists>s' e'. free_slot_loop i e (int (20 * k)) s
           = Some (e', int (20 * (case free_slot (drop k (entries (fs_device s) (idata i))) k of
                Some j \<Rightarrow> j | None \<Rightarrow> max k (nat (dlength (idata i)) div 20))), s')
         \<and> quiet s s' \<and> allocs s' = [] \<and> length e' = 20"
proof (induction "nat (dlength (idata i)) div 20 - k" arbitrary: k s e)
  case 0
  let ?bs = "take 20 (drop (20 * k) (file_bytes (fs_device s) (idata i)))"
  obtain s' where r: "inode_read_at i 20 (int (20 * k)) s = Some (?bs, s')" "quiet s s'" "allocs s' = []"
    using read_entry [OF 0(2,3)] by blast
  have "length ?bs \<noteq> 20" unfolding entry_in_range using 0(1) by simp
  with r 0 show ?case
    by (subst free_slot_loop.simps) (auto simp add: sizeof_dir_entry_def max_def)
next
  case (Suc n)
  let ?es = "entries (fs_device s) (idata i)"
  let ?bs = "take 20 (drop (20 * k) (file_bytes (fs_device s) (idata i)))"
  have k: "k < nat (dlength (idata i)) div 20" using Suc(2) by simp
  obtain s1 where r: "inode_read_at i 20 (int (20 * k)) s = Some (?bs, s1)" "quiet s s1" "allocs s1 = []"
    using read_entry [OF Suc(3,4)] by blast
  have len: "length ?bs = 20" unfolding entry_in_range by (rule k)
  define x where "x = decode_entry ?bs"
  note dr = entries_drop [OF k, of "fs_device s", folded x_def]
  have step: "free_slot_loop i e (int (20 * k)) s =
      (if in_use x = 0 then Some (?bs, int (20 * k), s1) else free_slot_loop i ?bs (int (20 * Suc k)) s1)"
    using r(1) len Suc(5)
    by (subst free_slot_loop.simps) (simp add: sizeof_dir_entry_def Let_def x_def add.commute)
  show ?case
  proof (cases "in_use x = 0")
    case True
    with step dr r len show ?thesis by auto
  next
    case False
    have "n = nat (dlength (idata i)) div 20 - Suc k" using Suc(2) by simp
    moreover have "data_ok (fs_device s1) (idata i)" using data_ok_quiet [OF r(2)] Suc(3) by simp
    ultimately obtain s' e' where "free_slot_loop i ?bs (int (20 * Suc k)) s1 =
        Some (e', int (20 * (case free_slot (drop (Suc k) (entries (fs_device s1) (idata i))) (Suc k) of
                Some j \<Rightarrow> j | None \<Rightarrow> max (Suc k) (nat (dlength (idata i)) div 20))), s')"
        "quiet s1 s'" "allocs s' = []" "length e' = 20"
      using Suc(1) [of "Suc k" s1 ?bs] r(3) len Suc(6) by blast
    moreover have "max (Suc k) (nat (dlength (idata i)) div 20) = max k (nat (dlength (idata i)) div 20)"
      using k by simp
    ultimately show ?thesis
      using step False dr quiet_trans [OF r(2)] entries_quiet [OF r(2)] by (auto split: option.split)
  qed
qed

section \<open>Searching the list of entries\<close>

lemma find_ent_Some:
  "find_ent nm es k = Some (e, j) \<Longrightarrow> k \<le> j \<and> j < k + length es \<and> e = es ! (j - k) \<and> in_use e \<noteq> 0 \<and> cname e = nm"
proof (induction es arbitrary: k)
  case (Cons x xs)
  show ?case
  proof (cases "in_use x \<noteq> 0 \<and> cname x = nm")
    case False
    with Cons.prems have "find_ent nm xs (k + 1) = Some (e, j)" by auto
    from Cons.IH [OF this] show ?thesis by (auto simp: nth_Cons' Suc_le_eq)
  qed (use Cons.prems in auto)
qed simp

lemma find_ent_None: "find_ent nm es k = None \<longleftrightarrow> (\<forall>e \<in> set es. in_use e \<noteq> 0 \<longrightarrow> cname e \<noteq> nm)"
  by (induction es arbitrary: k) auto

lemma free_slot_Some: "free_slot es k = Some j \<Longrightarrow> k \<le> j \<and> j < k + length es \<and> in_use (es ! (j - k)) = 0"
proof (induction es arbitrary: k)
  case (Cons x xs)
  show ?case
  proof (cases "in_use x = 0")
    case False
    with Cons.prems have "free_slot xs (k + 1) = Some j" by auto
    from Cons.IH [OF this] show ?thesis by (auto simp: nth_Cons' Suc_le_eq)
  qed (use Cons.prems in auto)
qed simp

lemma free_slot_None: "free_slot es k = None \<longleftrightarrow> (\<forall>e \<in> set es. in_use e \<noteq> 0)"
  by (induction es arbitrary: k) auto

text \<open>Storing an entry in a free slot affects the search for its name only.\<close>

lemma find_ent_update:
  "j < length es \<Longrightarrow> in_use (es ! j) = 0 \<Longrightarrow> in_use e \<noteq> 0 \<Longrightarrow> find_ent (cname e) es k = None
     \<Longrightarrow> find_ent nm (es[j := e]) k = (if nm = cname e then Some (e, k + j) else find_ent nm es k)"
proof (induction es arbitrary: j k)
  case (Cons x xs)
  show ?case
  proof (cases j)
    case 0
    with Cons.prems show ?thesis by auto
  next
    case (Suc j')
    with Cons.prems Cons.IH [of j' "k + 1"] show ?thesis by (auto split: if_splits)
  qed
qed simp

text \<open>Clearing an entry removes it from the search, where names are unique.\<close>

definition names_unique :: "dir_entry list \<Rightarrow> bool" where
  "names_unique es \<longleftrightarrow> (\<forall>j < length es. \<forall>l < length es. in_use (es ! j) \<noteq> 0 \<longrightarrow> in_use (es ! l) \<noteq> 0
     \<longrightarrow> cname (es ! j) = cname (es ! l) \<longrightarrow> j = l)"

lemma find_ent_exists:
  "j < length es \<Longrightarrow> in_use (es ! j) \<noteq> 0 \<Longrightarrow> cname (es ! j) = nm \<Longrightarrow> find_ent nm es k \<noteq> None"
  unfolding find_ent_None by (metis nth_mem)

section \<open>The entries after a write\<close>

lemma entries_nth:
  "k < nat (dlength d) div 20 \<Longrightarrow> entries b d ! k = decode_entry (take 20 (drop (20 * k) (file_bytes b d)))"
  by (simp add: entries_def)

lemma wrote_entry:
  assumes w: "wrote d (20 * k) bs s s'" and ok: "0 \<le> dlength d" and k: "k < nat (dlength d) div 20"
    and len: "length bs = 20"
  shows "entries (fs_device s') d = (entries (fs_device s) d)[k := decode_entry bs]"
proof (rule nth_equalityI)
  let ?f = "file_bytes (fs_device s) d"
  have fit: "20 * k + 20 \<le> nat (dlength d)" using k by linarith
  have f': "file_bytes (fs_device s') d = take (20 * k) ?f @ bs @ drop (20 * k + 20) ?f"
    using wrote_file_bytes [OF w ok disjI2] fit len by simp
  show "length (entries (fs_device s') d) = length ((entries (fs_device s) d)[k := decode_entry bs])" by simp
  fix j assume j0: "j < length (entries (fs_device s') d)"
  then have j: "j < nat (dlength d) div 20" by simp
  have "take 20 (drop (20 * j) (file_bytes (fs_device s') d))
      = (if j = k then bs else take 20 (drop (20 * j) ?f))"
  proof (cases j k rule: linorder_cases)
    case less
    then have l: "20 * j + 20 \<le> 20 * k" by simp
    then have a: "take 20 (drop (20 * j) (take (20 * k) ?f)) = take 20 (drop (20 * j) ?f)"
      by (simp add: drop_take min_def)
    have b: "20 \<le> length (take (20 * k) ?f) - 20 * j" using l fit by simp
    then have "take 20 (drop (20 * j) (file_bytes (fs_device s') d)) = take 20 (drop (20 * j) (take (20 * k) ?f))"
      unfolding f' by (simp del: length_take)
    with a less show ?thesis by simp
  next
    case equal
    then show ?thesis using fit len by (simp add: f')
  next
    case greater
    then have g: "20 * k + 20 \<le> 20 * j" by simp
    then have "drop (20 * j) (file_bytes (fs_device s') d) = drop (20 * j) ?f"
      using fit len by (simp add: f')
    with greater show ?thesis by simp
  qed
  with j show "entries (fs_device s') d ! j = (entries (fs_device s) d)[k := decode_entry bs] ! j"
    by (simp add: entries_nth nth_list_update)
qed

section \<open>Adding a file\<close>

text \<open>A directory that is open and may be searched and written.\<close>

definition dir_ok :: "fs \<Rightarrow> nat \<Rightarrow> inode \<Rightarrow> bool" where
  "dir_ok s d i \<longleftrightarrow> (\<exists>dr. dirs s d = Some dr \<and> inodes s (dir_inode dr) = Some i)
     \<and> data_ok (fs_device s) (idata i) \<and> allocs s = [] \<and> deny_write_cnt i = 0
     \<and> 20 dvd nat (dlength (idata i))
     \<and> (\<forall>e \<in> set (entries (fs_device s) (idata i)). terminated e)"

abbreviation dir_entries :: "fs \<Rightarrow> inode \<Rightarrow> dir_entry list" where
  "dir_entries s i \<equiv> entries (fs_device s) (idata i)"

lemma dir_ok_quiet: "dir_ok s d i \<Longrightarrow> quiet s s' \<Longrightarrow> allocs s' = [] \<Longrightarrow> dir_ok s' d i"
  using quiet_dev [of s s'] data_ok_quiet [of s s'] entries_quiet [of s s'] by (simp add: dir_ok_def)

lemma lookup_ok:
  assumes "dir_ok s d i"
  shows "\<exists>s'. lookup d nm s = Some (map_option to_ofs (find_ent nm (dir_entries s i) 0), s')
    \<and> quiet s s' \<and> allocs s' = []"
proof -
  have ok: "data_ok (fs_device s) (idata i)" "allocs s = []"
    and t: "\<forall>e \<in> set (drop 0 (dir_entries s i)). terminated e"
    using assms by (simp_all add: dir_ok_def)
  obtain s' where "lookup_loop i nm 0 s = Some (map_option to_ofs (find_ent nm (dir_entries s i) 0), s')"
      "quiet s s'" "allocs s' = []"
    using lookup_loop_ok [OF ok t, of nm] by auto
  with assms show ?thesis by (auto simp: lookup_def dir_ok_def)
qed

text \<open>The entry that dir_add stores: its name and sector, and that it is in use.\<close>

lemma new_entry_ok:
  assumes e: "length e = 20" and nm: "length nm \<le> NAME_MAX" "0 \<notin> set nm" and sec: "sec < 2 ^ 32"
  defines "x \<equiv> (decode_entry e)\<lparr>in_use := 1,
    name := nm @ [0] @ drop (length nm + 1) (name (decode_entry e)), inode_sector := sec\<rparr>"
  shows "entry_ok x" and "cname x = nm" and "terminated x" and "in_use x = 1" and "inode_sector x = sec"
  using assms entry_ok_decode [OF e]
  by (simp_all add: entry_ok_def cname_def terminated_def NAME_MAX_def takeWhile_append)

lemma dir_add_ok:
  assumes ok: "dir_ok s d i" and nm: "nm \<noteq> []" "length nm \<le> NAME_MAX" "0 \<notin> set nm"
    and sec: "sec < 2 ^ 32" and junk: "length junk = 20"
    and new: "find_ent nm (dir_entries s i) 0 = None" and slot: "free_slot (dir_entries s i) 0 = Some k"
  shows "\<exists>s' x. dir_add junk d nm sec s = Some (True, s') \<and> dir_ok s' d i
    \<and> dir_entries s' i = (dir_entries s i)[k := x]
    \<and> cname x = nm \<and> in_use x \<noteq> 0 \<and> inode_sector x = sec"
proof -
  obtain s1 where l: "lookup d nm s = Some (None, s1)" and q1: "quiet s s1" "allocs s1 = []"
    using lookup_ok [OF ok, of nm] new by auto
  have ok1: "dir_ok s1 d i" by (rule dir_ok_quiet [OF ok q1])
  have es1: "dir_entries s1 i = dir_entries s i" by (rule entries_quiet [OF q1(1)])
  have i1: "data_ok (fs_device s1) (idata i)" "20 dvd nat (dlength (idata i))" "deny_write_cnt i = 0"
    using ok1 by (simp_all add: dir_ok_def)
  obtain s2 e where f: "free_slot_loop i junk 0 s1 = Some (e, int (20 * k), s2)"
    and q2: "quiet s1 s2" "allocs s2 = []" and e: "length e = 20"
    using free_slot_loop_ok [OF i1(1) q1(2) junk i1(2), of 0] slot es1 by auto
  have ok2: "dir_ok s2 d i" by (rule dir_ok_quiet [OF ok1 q2])
  have es2: "dir_entries s2 i = dir_entries s i" using entries_quiet [OF q2(1)] es1 by simp
  define x where "x = (decode_entry e)\<lparr>in_use := 1,
    name := nm @ [0] @ drop (length nm + 1) (name (decode_entry e)), inode_sector := sec\<rparr>"
  have xe: "(decode_entry e)\<lparr>in_use := 1,
      name := nm @ 0 # drop (Suc (length nm)) (name (decode_entry e)), inode_sector := sec\<rparr> = x"
    by (simp add: x_def)
  note x = new_entry_ok [OF e nm(2,3) sec, folded x_def]
  have k: "k < nat (dlength (idata i)) div 20" using free_slot_Some [OF slot] by simp
  then have fit: "20 * k + 20 \<le> nat (dlength (idata i))" by linarith
  have enc: "length (encode_entry x) = 20" by (rule encode_entry_length [OF x(1)])
  have i2: "data_ok (fs_device s2) (idata i)" using ok2 by (simp add: dir_ok_def)
  obtain s3 where w: "inode_write_at i (encode_entry x) 20 (int (20 * k)) s2 = Some (20, s3)"
      "wrote (idata i) (20 * k) (encode_entry x) s2 s3" "allocs s3 = []"
    using inode_write_at_ok [OF i2 q2(2), of "int (20 * k)" 20 "encode_entry x"] enc fit i1(3)
    by (auto simp: nat_mult_distrib)
  have d0: "0 \<le> dlength (idata i)" using i2 by (simp add: data_ok_def)
  have es3: "dir_entries s3 i = (dir_entries s i)[k := x]"
    using wrote_entry [OF w(2) d0 k enc] decode_encode_entry [OF x(1)] es2 by simp
  have add: "dir_add junk d nm sec s = Some (True, s3)"
    using nm l f w(1) ok1
    by (auto simp: dir_add_def dir_ok_def Let_def xe sizeof_dir_entry_def)
  have "dirs s3 = dirs s2" "inodes s3 = inodes s2"
    using w(2) by (simp_all add: wrote_def) (metis fs.select_convs fs.update_convs fs.surjective)+
  then have "dir_ok s3 d i"
    using ok2 w(3) wrote_data_ok [OF w(2) i2] es3 es2 x(3) set_update_subset_insert [of "dir_entries s i" k x]
    by (auto simp: dir_ok_def)
  with add es3 x(2,4,5) show ?thesis by auto
qed

lemma dir_add_full:
  assumes ok: "dir_ok s d i" and nm: "nm \<noteq> []" "length nm \<le> NAME_MAX" "0 \<notin> set nm"
    and sec: "sec < 2 ^ 32" and junk: "length junk = 20"
    and new: "find_ent nm (dir_entries s i) 0 = None" and slot: "free_slot (dir_entries s i) 0 = None"
  shows "\<exists>s'. dir_add junk d nm sec s = Some (False, s') \<and> dir_entries s' i = dir_entries s i"
proof -
  obtain s1 where l: "lookup d nm s = Some (None, s1)" and q1: "quiet s s1" "allocs s1 = []"
    using lookup_ok [OF ok, of nm] new by auto
  have ok1: "dir_ok s1 d i" by (rule dir_ok_quiet [OF ok q1])
  have es1: "dir_entries s1 i = dir_entries s i" by (rule entries_quiet [OF q1(1)])
  have i1: "data_ok (fs_device s1) (idata i)" "20 dvd nat (dlength (idata i))" "deny_write_cnt i = 0"
    using ok1 by (simp_all add: dir_ok_def)
  let ?n = "nat (dlength (idata i))"
  obtain s2 e where f: "free_slot_loop i junk 0 s1 = Some (e, int (20 * (?n div 20)), s2)"
    and q2: "quiet s1 s2" "allocs s2 = []" and e: "length e = 20"
    using free_slot_loop_ok [OF i1(1) q1(2) junk i1(2), of 0] slot es1 by auto
  have ok2: "dir_ok s2 d i" by (rule dir_ok_quiet [OF ok1 q2])
  define x where "x = (decode_entry e)\<lparr>in_use := 1,
    name := nm @ [0] @ drop (length nm + 1) (name (decode_entry e)), inode_sector := sec\<rparr>"
  have xe: "(decode_entry e)\<lparr>in_use := 1,
      name := nm @ 0 # drop (Suc (length nm)) (name (decode_entry e)), inode_sector := sec\<rparr> = x"
    by (simp add: x_def)
  note x = new_entry_ok [OF e nm(2,3) sec, folded x_def]
  have enc: "length (encode_entry x) = 20" by (rule encode_entry_length [OF x(1)])
  have i2: "data_ok (fs_device s2) (idata i)" using ok2 by (simp add: dir_ok_def)
  have at_end: "20 * (?n div 20) = ?n" using i1(2) by simp
  obtain s3 where w: "inode_write_at i (encode_entry x) 20 (int ?n) s2 = Some (0, s3)"
      "wrote (idata i) ?n [] s2 s3"
    using inode_write_at_ok [OF i2 q2(2), of "int ?n" 20 "encode_entry x"] enc i1(3)
    by (auto simp del: int_nat_eq)
  have d0: "0 \<le> dlength (idata i)" using i2 by (simp add: data_ok_def)
  have "file_bytes (fs_device s3) (idata i) = file_bytes (fs_device s2) (idata i)"
    using wrote_file_bytes [OF w(2) d0] by simp
  then have "dir_entries s3 i = dir_entries s i"
    using entries_quiet [OF q2(1)] es1 by (simp add: entries_def)
  moreover have "dir_add junk d nm sec s = Some (False, s3)"
    using nm l f w(1) ok1
    unfolding at_end
    by (auto simp: dir_add_def dir_ok_def Let_def xe sizeof_dir_entry_def)
  ultimately show ?thesis by blast
qed

section \<open>Properties\<close>


text \<open>A root directory of 340 bytes in sector 3, with all entries free.\<close>

definition demo_root :: inode where
  "demo_root = \<lparr>sector = 1, open_cnt = 1, removed = False, deny_write_cnt = 0,
     idata = \<lparr>start = 3, dlength = 340, magic = INODE_MAGIC, unused = []\<rparr>\<rparr>"

definition demo_dir_fs :: fs where
  "demo_dir_fs = demo_fs\<lparr>fs_device := demo_dev\<lparr>contents := \<lambda>_. replicate 512 0\<rparr>,
     inodes := [1 \<mapsto> demo_root], dirs := [2 \<mapsto> \<lparr>dir_inode = 1, dir_pos = 0\<rparr>], brk := 3\<rparr>"

lemma demo_dir_entries: "dir_entries demo_dir_fs demo_root = replicate 17 (decode_entry (replicate 20 0))"
proof -
  have len: "dlength (idata demo_root) = 340" by (simp add: demo_root_def)
  have f: "fbyte (fs_device demo_dir_fs) (idata demo_root) k = 0" for k
    by (simp add: fbyte_def demo_dir_fs_def)
  have "file_bytes (fs_device demo_dir_fs) (idata demo_root) = replicate 340 0"
    by (rule nth_equalityI) (simp_all add: file_bytes_nth f len)
  moreover note len
  ultimately show ?thesis
    by (intro nth_equalityI) (simp_all add: entries_nth min_def)
qed

lemma demo_dir_ok: "dir_ok demo_dir_fs 2 demo_root"
  unfolding dir_ok_def demo_dir_entries
  by (simp add: demo_dir_fs_def data_ok_def dev_ok_def demo_dev_def demo_root_def bytes_to_sectors_nat
      terminated_def decode_entry_def)


end
