(* ===== verification/MemWords.thy ===== *)
theory MemWords
  imports FSBytes
begin

text \<open>
  Four-byte words in the byte memory of KString, the lowest byte first: how the kernel reads
  and writes pointers, ints and arrays of them, and what an update leaves as it was.
\<close>

section \<open>Words in memory\<close>

definition ld32 :: "mem \<Rightarrow> nat \<Rightarrow> nat option" where
  "ld32 m p = do {
     b0 \<leftarrow> m p;
     b1 \<leftarrow> m (p + 1);
     b2 \<leftarrow> m (p + 2);
     b3 \<leftarrow> m (p + 3);
     Some (rd32 [b0, b1, b2, b3])
   }"

definition st32 :: "mem \<Rightarrow> nat \<Rightarrow> nat \<Rightarrow> mem option" where
  "st32 m p v = do {
     m \<leftarrow> wr m p (le32 v ! 0);
     m \<leftarrow> wr m (p + 1) (le32 v ! 1);
     m \<leftarrow> wr m (p + 2) (le32 v ! 2);
     wr m (p + 3) (le32 v ! 3)
   }"

definition ptr_sub :: "nat \<Rightarrow> int \<Rightarrow> nat" where
  "ptr_sub p n = nat ((int p - n) mod 2 ^ 32)"

section \<open>Words and arrays of words\<close>

lemma le32_list: obtains a b c d where "le32 v = [a, b, c, d]"
  by (auto simp: le32_def)

lemma ld32_blk: "blk m p (le32 v) \<Longrightarrow> v < 2 ^ 32 \<Longrightarrow> ld32 m p = Some v"
proof -
  assume b: "blk m p (le32 v)" and v: "v < 2 ^ 32"
  obtain w x y z where l: "le32 v = [w, x, y, z]" by (rule le32_list)
  from v have "rd32 [w, x, y, z] = v" using rd32_le32 [of v "[]"] l by simp
  with b l show ?thesis by (simp add: ld32_def numeral_2_eq_2 numeral_3_eq_3)
qed

lemma st32_ok: "writable m p 4 \<Longrightarrow> st32 m p v = Some (put m p (le32 v))"
proof -
  assume w: "writable m p 4"
  obtain w x y z where "le32 v = [w, x, y, z]" by (rule le32_list)
  with w show ?thesis by (simp add: st32_def wr_def writable_def numeral_2_eq_2 numeral_3_eq_3)
qed

definition words :: "mem \<Rightarrow> nat \<Rightarrow> nat list \<Rightarrow> bool" where
  "words m p ws \<longleftrightarrow> blk m p (concat (map le32 ws)) \<and> (\<forall>w \<in> set ws. w < 2 ^ 32)"

lemma words_length [simp]: "length (concat (map le32 ws)) = 4 * length ws"
  by (induction ws) auto

lemma words_Nil [simp]: "words m p []"
  by (simp add: words_def)

lemma words_snoc: "words m p (ws @ [w]) \<longleftrightarrow> words m p ws \<and> blk m (p + 4 * length ws) (le32 w) \<and> w < 2 ^ 32"
  by (auto simp: words_def)

lemma words_Cons: "words m p (w # ws) \<longleftrightarrow> blk m p (le32 w) \<and> w < 2 ^ 32 \<and> words m (p + 4) ws"
  by (auto simp: words_def)

lemma words_nth:
  assumes "words m p ws" and "i < length ws"
  shows "ld32 m (p + 4 * i) = Some (ws ! i)"
proof -
  have "ws = take i ws @ ws ! i # drop (Suc i) ws" by (rule id_take_nth_drop [OF assms(2)])
  then have "words m p ((take i ws @ [ws ! i]) @ drop (Suc i) ws)" using assms(1) by simp
  then have "words m p (take i ws @ [ws ! i])" by (auto simp: words_def)
  with assms(2) show ?thesis by (simp add: words_snoc min_absorb2 ld32_blk)
qed

text \<open>A part of memory that two memories agree on.\<close>

definition same :: "mem \<Rightarrow> mem \<Rightarrow> nat \<Rightarrow> nat \<Rightarrow> bool" where
  "same m m' p n \<longleftrightarrow> (\<forall>a. p \<le> a \<and> a < p + n \<longrightarrow> m' a = m a)"

lemma blk_same: "blk m p bs \<Longrightarrow> same m m' p (length bs) \<Longrightarrow> blk m' p bs"
  by (simp add: blk_nth same_def)

lemma cstr_same: "cstr m p cs \<Longrightarrow> same m m' p (length cs + 1) \<Longrightarrow> cstr m' p cs"
  using blk_same [of m p "cs @ [0]" m'] by (simp add: cstr_def)

lemma words_same: "words m p ws \<Longrightarrow> same m m' p (4 * length ws) \<Longrightarrow> words m' p ws"
  unfolding words_def using blk_same [of m p "concat (map le32 ws)" m'] by simp

lemma writable_same_dom: "writable m p n \<Longrightarrow> (\<forall>a. m a \<noteq> None \<longrightarrow> m' a \<noteq> None) \<Longrightarrow> writable m' p n"
  by (auto simp: writable_def)

lemma same_put: "p + n \<le> q \<or> q + length bs \<le> p \<Longrightarrow> same m (put m q bs) p n"
  by (auto simp: same_def put_nth)

lemma same_trans: "same m m1 p n \<Longrightarrow> same m1 m2 p n \<Longrightarrow> same m m2 p n"
  by (simp add: same_def)

lemma put_below: "put (put m (p + length xs) ys) p xs = put m p (xs @ ys)"
  by (rule ext) (auto simp: put_nth nth_append)

end
