(* ===== verification/Palloc.thy ===== *)
theory Palloc
  imports BitmapAlloc KString
begin

text \<open>
  The page allocator (threads/palloc.c) with the address arithmetic of threads/vaddr.h.
  Addresses are numbers below 2 ^ 32, 0 is the null pointer, and the bytes of the pages are
  a memory of lib/string.c.  The locks around the scan are those of Synch: a call runs as
  one step here.  Both pools satisfy the interface of a run allocator.
\<close>

section \<open>Virtual addresses\<close>

definition PGSIZE :: nat where "PGSIZE = 4096"
definition PHYS_BASE :: nat where "PHYS_BASE = 0xc0000000"

definition pg_ofs :: "nat \<Rightarrow> nat" where "pg_ofs va = va mod PGSIZE"
definition pg_no :: "nat \<Rightarrow> nat" where "pg_no va = va div PGSIZE"
definition pg_round_up :: "nat \<Rightarrow> nat" where
  "pg_round_up va = size_add va (PGSIZE - 1) div PGSIZE * PGSIZE"
definition pg_round_down :: "nat \<Rightarrow> nat" where "pg_round_down va = va div PGSIZE * PGSIZE"
definition is_user_vaddr :: "nat \<Rightarrow> bool" where "is_user_vaddr va \<longleftrightarrow> va < PHYS_BASE"
definition is_kernel_vaddr :: "nat \<Rightarrow> bool" where "is_kernel_vaddr va \<longleftrightarrow> va \<ge> PHYS_BASE"

definition ptov :: "nat \<Rightarrow> nat option" where
  "ptov paddr = do { ASSERT (paddr < PHYS_BASE); Some (size_add paddr PHYS_BASE) }"

definition vtop :: "nat \<Rightarrow> nat option" where
  "vtop va = do { ASSERT (is_kernel_vaddr va); Some (va - PHYS_BASE) }"

definition DIV_ROUND_UP :: "nat \<Rightarrow> nat \<Rightarrow> nat" where
  "DIV_ROUND_UP x step = size_add x (step - 1) div step"

section \<open>Pools\<close>

record pool =
  used_map :: bitmap
  base :: nat

record pstate =
  kernel_pool :: pool
  user_pool :: pool
  pmem :: mem

definition PAL_ASSERT :: nat where "PAL_ASSERT = 1"
definition PAL_ZERO :: nat where "PAL_ZERO = 2"
definition PAL_USER :: nat where "PAL_USER = 4"

text \<open>The storage of the bitmap is the content of the pool's first pages.\<close>

definition init_pool :: "32 word list \<Rightarrow> nat \<Rightarrow> nat \<Rightarrow> pool option" where
  "init_pool m bs page_cnt = do {
     let bm_pages = DIV_ROUND_UP (bitmap_buf_size page_cnt) PGSIZE;
     ASSERT (bm_pages \<le> page_cnt);
     let page_cnt = page_cnt - bm_pages;
     b \<leftarrow> bitmap_create_in_buf page_cnt m (bm_pages * PGSIZE);
     Some \<lparr>used_map = b, base = size_add bs (bm_pages * PGSIZE)\<rparr>
   }"

definition palloc_init :: "nat \<Rightarrow> nat \<Rightarrow> 32 word list \<Rightarrow> 32 word list \<Rightarrow> mem \<Rightarrow> pstate option" where
  "palloc_init init_ram_pages user_page_limit m1 m2 mm = do {
     free_start \<leftarrow> ptov (1024 * 1024);
     free_end \<leftarrow> ptov (init_ram_pages * PGSIZE);
     let free_pages = (free_end - free_start) div PGSIZE;
     let user_pages = free_pages div 2;
     let user_pages = (if user_pages > user_page_limit then user_page_limit else user_pages);
     let kernel_pages = free_pages - user_pages;
     kp \<leftarrow> init_pool m1 free_start kernel_pages;
     up \<leftarrow> init_pool m2 (free_start + kernel_pages * PGSIZE) user_pages;
     Some \<lparr>kernel_pool = kp, user_pool = up, pmem = mm\<rparr>
   }"

definition get_pool :: "bool \<Rightarrow> pstate \<Rightarrow> pool" where
  "get_pool user s = (if user then user_pool s else kernel_pool s)"

definition set_map :: "bool \<Rightarrow> bitmap \<Rightarrow> pstate \<Rightarrow> pstate" where
  "set_map user b s =
     (if user then s\<lparr>user_pool := (user_pool s)\<lparr>used_map := b\<rparr>\<rparr>
      else s\<lparr>kernel_pool := (kernel_pool s)\<lparr>used_map := b\<rparr>\<rparr>)"

text \<open>The part under the pool's lock: the index of the first page, if any.\<close>

definition pool_take :: "bool \<Rightarrow> nat \<Rightarrow> pstate \<Rightarrow> (nat option \<times> pstate) option" where
  "pool_take user page_cnt s = do {
     (page_idx, b) \<leftarrow> bitmap_scan_and_flip (used_map (get_pool user s)) 0 page_cnt False;
     Some (if page_idx \<noteq> BITMAP_ERROR then Some page_idx else None, set_map user b s)
   }"

definition palloc_get_multiple :: "nat \<Rightarrow> nat \<Rightarrow> pstate \<Rightarrow> (nat \<times> pstate) option" where
  "palloc_get_multiple flags page_cnt s =
     (if page_cnt = 0 then Some (0, s)
      else do {
        let user = (flags AND PAL_USER \<noteq> 0);
        (page_idx, s) \<leftarrow> pool_take user page_cnt s;
        let pages = (case page_idx of
                       Some i \<Rightarrow> size_add (base (get_pool user s)) (PGSIZE * i)
                     | None \<Rightarrow> 0);
        (if pages \<noteq> 0
         then (if flags AND PAL_ZERO \<noteq> 0 then do {
                 (_, m) \<leftarrow> memset (pmem s) pages 0 (PGSIZE * page_cnt);
                 Some (pages, s\<lparr>pmem := m\<rparr>)
               }
               else Some (pages, s))
         else do {
           ASSERT (flags AND PAL_ASSERT = 0);
           Some (0, s)
         })
      })"

definition palloc_get_page :: "nat \<Rightarrow> pstate \<Rightarrow> (nat \<times> pstate) option" where
  "palloc_get_page flags s = palloc_get_multiple flags 1 s"

definition page_from_pool :: "pool \<Rightarrow> nat \<Rightarrow> bool" where
  "page_from_pool p page =
     (let start_page = pg_no (base p);
          end_page = start_page + bitmap_size (used_map p)
      in pg_no page \<ge> start_page \<and> pg_no page < end_page)"

text \<open>The part that marks the pages free.\<close>

definition pool_give :: "bool \<Rightarrow> nat \<Rightarrow> nat \<Rightarrow> pstate \<Rightarrow> pstate option" where
  "pool_give user page_idx page_cnt s = do {
     a \<leftarrow> bitmap_all (used_map (get_pool user s)) page_idx page_cnt;
     ASSERT a;
     b \<leftarrow> bitmap_set_multiple (used_map (get_pool user s)) page_idx page_cnt False;
     Some (set_map user b s)
   }"

definition palloc_free_multiple :: "nat \<Rightarrow> nat \<Rightarrow> pstate \<Rightarrow> pstate option" where
  "palloc_free_multiple pages page_cnt s = do {
     ASSERT (pg_ofs pages = 0);
     (if pages = 0 \<or> page_cnt = 0 then Some s
      else do {
        ASSERT (page_from_pool (kernel_pool s) pages \<or> page_from_pool (user_pool s) pages);
        let user = (\<not> page_from_pool (kernel_pool s) pages);
        let page_idx = pg_no pages - pg_no (base (get_pool user s));
        (_, m) \<leftarrow> memset (pmem s) pages 0xcc (PGSIZE * page_cnt);
        pool_give user page_idx page_cnt (s\<lparr>pmem := m\<rparr>)
      })
   }"

definition palloc_free_page :: "nat \<Rightarrow> pstate \<Rightarrow> pstate option" where
  "palloc_free_page page s = palloc_free_multiple page 1 s"

section \<open>The pools as allocators\<close>

definition pool_ok :: "pool \<Rightarrow> bool" where
  "pool_ok p \<longleftrightarrow> bok (used_map p) \<and> PGSIZE dvd base p \<and> 0 < base p
     \<and> base p + PGSIZE * bit_cnt (used_map p) < 2 ^ 32"

definition free_pages :: "bool \<Rightarrow> pstate \<Rightarrow> nat set" where
  "free_pages user s = clear_bits (used_map (get_pool user s))"

definition pool_pages :: "bool \<Rightarrow> pstate \<Rightarrow> nat" where
  "pool_pages user s = bit_cnt (used_map (get_pool user s))"

lemma get_set_map [simp]:
  "get_pool user (set_map user b s) = (get_pool user s)\<lparr>used_map := b\<rparr>"
  "u \<noteq> user \<Longrightarrow> get_pool u (set_map user b s) = get_pool u s"
  "pmem (set_map user b s) = pmem s"
  by (auto simp: get_pool_def set_map_def)

lemma pool_give_bits:
  "pool_give user a n s = do { b \<leftarrow> give_bits (used_map (get_pool user s)) a n; Some (set_map user b s) }"
  by (cases "bitmap_all (used_map (get_pool user s)) a n") (simp_all add: pool_give_def give_bits_def)

lemma pool_take_ok:
  assumes "bok (used_map (get_pool user s))"
  shows "\<exists>r b. pool_take user n s = Some (r, set_map user b s)
    \<and> bok b \<and> bit_cnt b = pool_pages user s
    \<and> (case r of
         None \<Rightarrow> b = used_map (get_pool user s) \<and> (\<forall>a. \<not> {a ..< a + n} \<subseteq> free_pages user s)
       | Some a \<Rightarrow> {a ..< a + n} \<subseteq> free_pages user s \<and> a + n \<le> pool_pages user s
           \<and> clear_bits b = free_pages user s - {a ..< a + n})"
proof -
  obtain r b where rb: "bitmap_scan_and_flip (used_map (get_pool user s)) 0 n False = Some (r, b)"
    using flip_total [OF assms] by blast
  show ?thesis
    using rb flip_alloc [OF assms rb]
    by (cases "r = BITMAP_ERROR") (auto simp: pool_take_def free_pages_def pool_pages_def)
qed

interpretation pages: run_allocator "\<lambda>s. bok (used_map (get_pool user s))" "pool_pages user"
  "free_pages user" "pool_take user" "pool_give user" for user
proof unfold_locales
  fix s :: pstate and n a r s'
  assume ok: "bok (used_map (get_pool user s))"
  note take = pool_take_ok [OF ok, of n]
  show "free_pages user s \<subseteq> {0 ..< pool_pages user s}"
    by (auto simp: free_pages_def pool_pages_def clear_bits_def)
  show "\<exists>r s'. pool_take user n s = Some (r, s')" using take by blast
  show "pool_take user n s = Some (r, s') \<Longrightarrow>
      bok (used_map (get_pool user s')) \<and> pool_pages user s' = pool_pages user s"
    using take by (auto simp: pool_pages_def)
  show "pool_take user n s = Some (Some a, s') \<Longrightarrow> {a ..< a + n} \<subseteq> free_pages user s
      \<and> a + n \<le> pool_pages user s \<and> free_pages user s' = free_pages user s - {a ..< a + n}"
    using take by (auto simp: free_pages_def)
  show "pool_take user n s = Some (None, s') \<Longrightarrow> free_pages user s' = free_pages user s
      \<and> (\<forall>a. \<not> {a ..< a + n} \<subseteq> free_pages user s)"
    using take by (auto simp: free_pages_def)
  show "a + n \<le> pool_pages user s \<Longrightarrow> {a ..< a + n} \<inter> free_pages user s = {} \<Longrightarrow>
      \<exists>s'. pool_give user a n s = Some s' \<and> bok (used_map (get_pool user s'))
        \<and> pool_pages user s' = pool_pages user s \<and> free_pages user s' = free_pages user s \<union> {a ..< a + n}"
    using give_bits_used [OF ok, of a n]
    by (auto simp: pool_give_bits free_pages_def pool_pages_def bupd_def)
  show "{a ..< a + n} \<inter> free_pages user s \<noteq> {} \<Longrightarrow> pool_give user a n s = None"
    using give_bits_free [OF ok, of a n] by (simp add: pool_give_bits free_pages_def)
qed

section \<open>Pages\<close>

text \<open>Both pools in order, one behind the other, and all their pages memory.\<close>

definition pstate_ok :: "pstate \<Rightarrow> bool" where
  "pstate_ok s \<longleftrightarrow> pool_ok (kernel_pool s) \<and> pool_ok (user_pool s)
     \<and> base (kernel_pool s) + PGSIZE * pool_pages False s \<le> base (user_pool s)
     \<and> writable (pmem s) (base (kernel_pool s)) (PGSIZE * pool_pages False s)
     \<and> writable (pmem s) (base (user_pool s)) (PGSIZE * pool_pages True s)"

definition page_addr :: "bool \<Rightarrow> pstate \<Rightarrow> nat \<Rightarrow> nat" where
  "page_addr user s i = base (get_pool user s) + PGSIZE * i"

lemma pstate_pool: "pstate_ok s \<Longrightarrow> pool_ok (get_pool user s)"
  by (simp add: pstate_ok_def get_pool_def)

lemma pstate_bok: "pstate_ok s \<Longrightarrow> bok (used_map (get_pool user s))"
  using pstate_pool by (simp add: pool_ok_def)

lemma pstate_writable: "pstate_ok s \<Longrightarrow> i + n \<le> pool_pages user s \<Longrightarrow> writable (pmem s) (page_addr user s i) (PGSIZE * n)"
proof -
  assume ok: "pstate_ok s" and i: "i + n \<le> pool_pages user s"
  have "writable (pmem s) (base (get_pool user s)) (PGSIZE * pool_pages user s)"
    using ok by (cases user) (simp_all add: pstate_ok_def get_pool_def)
  moreover have "PGSIZE * i + PGSIZE * n \<le> PGSIZE * pool_pages user s"
    using i by (simp flip: distrib_left)
  ultimately show ?thesis by (auto simp: page_addr_def intro: writable_mono)
qed

lemma page_addr_bounds:
  assumes "pstate_ok s" and "i + n \<le> pool_pages user s"
  shows "page_addr user s i \<noteq> 0" and "page_addr user s i + PGSIZE * n < 2 ^ 32"
    and "pg_ofs (page_addr user s i) = 0"
    and "size_add (base (get_pool user s)) (PGSIZE * i) = page_addr user s i"
    and "pg_no (page_addr user s i) = pg_no (base (get_pool user s)) + i"
proof -
  have ok: "pool_ok (get_pool user s)" by (rule pstate_pool [OF assms(1)])
  have "PGSIZE * (i + n) \<le> PGSIZE * pool_pages user s" using assms(2) by simp
  then show lt: "page_addr user s i + PGSIZE * n < 2 ^ 32"
    using ok by (simp add: pool_ok_def page_addr_def pool_pages_def distrib_left)
  show "page_addr user s i \<noteq> 0" using ok by (simp add: pool_ok_def page_addr_def)
  show "pg_ofs (page_addr user s i) = 0"
    using ok by (auto simp: pool_ok_def page_addr_def pg_ofs_def)
  show "size_add (base (get_pool user s)) (PGSIZE * i) = page_addr user s i"
    using lt by (simp add: size_add_def page_addr_def)
  show "pg_no (page_addr user s i) = pg_no (base (get_pool user s)) + i"
    by (simp add: page_addr_def pg_no_def PGSIZE_def)
qed

lemma from_pool_addr:
  assumes ok: "pstate_ok s" and i: "i < pool_pages user s"
  shows "page_from_pool (get_pool user s) (page_addr user s i)"
    and "user \<Longrightarrow> \<not> page_from_pool (kernel_pool s) (page_addr user s i)"
proof -
  have i1: "i + 1 \<le> pool_pages user s" using i by simp
  note b = page_addr_bounds [OF ok i1]
  show "page_from_pool (get_pool user s) (page_addr user s i)"
    using i by (simp add: page_from_pool_def b(5) bitmap_size_def pool_pages_def)
  assume u: user
  have "base (kernel_pool s) + PGSIZE * pool_pages False s \<le> base (get_pool user s)"
    using ok u by (simp add: pstate_ok_def get_pool_def)
  then have "pg_no (base (kernel_pool s) + PGSIZE * pool_pages False s) \<le> pg_no (base (get_pool user s))"
    unfolding pg_no_def by (rule div_le_mono)
  then have "pg_no (base (kernel_pool s)) + pool_pages False s \<le> pg_no (base (get_pool user s))"
    by (simp add: pg_no_def PGSIZE_def)
  then show "\<not> page_from_pool (kernel_pool s) (page_addr user s i)"
    by (simp add: page_from_pool_def b(5) bitmap_size_def pool_pages_def get_pool_def)
qed

lemma set_map_ok:
  assumes "pstate_ok s" and "bok b" and "bit_cnt b = pool_pages user s"
  shows "pstate_ok (set_map user b s)"
  using assms by (cases user)
    (simp_all add: pstate_ok_def pool_ok_def set_map_def get_pool_def pool_pages_def)

lemma pmem_ok: "pstate_ok s \<Longrightarrow> pstate_ok (s\<lparr>pmem := put (pmem s) p bs\<rparr>)"
  by (simp add: pstate_ok_def pool_pages_def get_pool_def writable_put)

lemma get_pool_pmem [simp]: "get_pool u (s\<lparr>pmem := m\<rparr>) = get_pool u s"
  by (simp add: get_pool_def)

lemma free_pages_pmem [simp]: "free_pages u (s\<lparr>pmem := m\<rparr>) = free_pages u s"
  by (simp add: free_pages_def)

lemma palloc_get_ok:
  fixes flags :: nat
  assumes ok: "pstate_ok s" and n: "n \<noteq> 0"
  defines "user \<equiv> (flags AND PAL_USER \<noteq> 0)"
  shows "(\<forall>a. \<not> {a ..< a + n} \<subseteq> free_pages user s) \<Longrightarrow>
      palloc_get_multiple flags n s = (if flags AND PAL_ASSERT \<noteq> 0 then None else Some (0, s))"
    and "{a ..< a + n} \<subseteq> free_pages user s \<Longrightarrow>
      \<exists>i s'. palloc_get_multiple flags n s = Some (page_addr user s i, s')
        \<and> {i ..< i + n} \<subseteq> free_pages user s \<and> i + n \<le> pool_pages user s
        \<and> free_pages user s' = free_pages user s - {i ..< i + n}
        \<and> free_pages (\<not> user) s' = free_pages (\<not> user) s
        \<and> pstate_ok s' \<and> (\<forall>u. base (get_pool u s') = base (get_pool u s) \<and> pool_pages u s' = pool_pages u s)
        \<and> pmem s' = (if flags AND PAL_ZERO \<noteq> 0
             then put (pmem s) (page_addr user s i) (replicate (PGSIZE * n) 0) else pmem s)"
proof -
  have u0: "(0 < flags AND PAL_USER) = user" by (simp add: user_def)
  obtain r b where take: "pool_take user n s = Some (r, set_map user b s)" "bok b" "bit_cnt b = pool_pages user s"
      "case r of None \<Rightarrow> b = used_map (get_pool user s) \<and> (\<forall>a. \<not> {a ..< a + n} \<subseteq> free_pages user s)
       | Some a \<Rightarrow> {a ..< a + n} \<subseteq> free_pages user s \<and> a + n \<le> pool_pages user s
           \<and> clear_bits b = free_pages user s - {a ..< a + n}"
    using pool_take_ok [OF pstate_bok [OF ok], of user n] by blast
  {
    assume "\<forall>a. \<not> {a ..< a + n} \<subseteq> free_pages user s"
    then have r: "r = None" and b: "b = used_map (get_pool user s)" using take(4) by (auto split: option.splits)
    have "set_map user b s = s" by (simp add: b set_map_def get_pool_def)
    with take(1) r n show "palloc_get_multiple flags n s = (if flags AND PAL_ASSERT \<noteq> 0 then None else Some (0, s))"
      by (simp add: palloc_get_multiple_def u0)
  }
  assume fit: "{a ..< a + n} \<subseteq> free_pages user s"
  then obtain i where r: "r = Some i" and i: "{i ..< i + n} \<subseteq> free_pages user s" "i + n \<le> pool_pages user s"
      "clear_bits b = free_pages user s - {i ..< i + n}"
    using take(4) by (auto split: option.splits)
  let ?s1 = "set_map user b s"
  note addr = page_addr_bounds [OF ok i(2)]
  have ok1: "pstate_ok ?s1" by (rule set_map_ok [OF ok take(2,3)])
  have wr: "writable (pmem s) (page_addr user s i) (PGSIZE * n)" by (rule pstate_writable [OF ok i(2)])
  define s' where "s' = (if flags AND PAL_ZERO \<noteq> 0
    then ?s1\<lparr>pmem := put (pmem s) (page_addr user s i) (replicate (PGSIZE * n) 0)\<rparr> else ?s1)"
  have "memset (pmem s) (page_addr user s i) 0 (PGSIZE * n)
      = Some (page_addr user s i, put (pmem s) (page_addr user s i) (replicate (PGSIZE * n) 0))"
    using wr addr(1) by (simp add: memset_def memset_loop_ok)
  then have get: "palloc_get_multiple flags n s = Some (page_addr user s i, s')"
    using n take(1) r addr(1,4)
    by (simp add: palloc_get_multiple_def u0 Let_def s'_def)
  have ok': "pstate_ok s'" using ok1 pmem_ok [OF ok1] by (simp add: s'_def)
  have pools: "get_pool u s' = (if u = user then (get_pool user s)\<lparr>used_map := b\<rparr> else get_pool u s)" for u
    by (simp add: s'_def)
  have fr: "free_pages user s' = free_pages user s - {i ..< i + n}"
    using i(3) by (simp add: free_pages_def [of user s'] pools)
  have fr': "free_pages (\<not> user) s' = free_pages (\<not> user) s"
    by (simp add: free_pages_def pools)
  have bs: "base (get_pool u s') = base (get_pool u s)" "pool_pages u s' = pool_pages u s" for u
    using take(3) by (auto simp: pools pool_pages_def)
  have pm: "pmem s' = (if flags AND PAL_ZERO \<noteq> 0
      then put (pmem s) (page_addr user s i) (replicate (PGSIZE * n) 0) else pmem s)"
    by (simp add: s'_def)
  show "\<exists>i s'. palloc_get_multiple flags n s = Some (page_addr user s i, s')
        \<and> {i ..< i + n} \<subseteq> free_pages user s \<and> i + n \<le> pool_pages user s
        \<and> free_pages user s' = free_pages user s - {i ..< i + n}
        \<and> free_pages (\<not> user) s' = free_pages (\<not> user) s
        \<and> pstate_ok s' \<and> (\<forall>u. base (get_pool u s') = base (get_pool u s) \<and> pool_pages u s' = pool_pages u s)
        \<and> pmem s' = (if flags AND PAL_ZERO \<noteq> 0
             then put (pmem s) (page_addr user s i) (replicate (PGSIZE * n) 0) else pmem s)"
    using get i(1,2) fr fr' ok' bs pm by blast
qed

lemma palloc_free_ok:
  assumes ok: "pstate_ok s" and i: "i + n \<le> pool_pages user s" and n: "n \<noteq> 0"
    and used: "{i ..< i + n} \<inter> free_pages user s = {}"
  shows "\<exists>s'. palloc_free_multiple (page_addr user s i) n s = Some s'
    \<and> free_pages user s' = free_pages user s \<union> {i ..< i + n}
    \<and> free_pages (\<not> user) s' = free_pages (\<not> user) s \<and> pstate_ok s'
    \<and> pmem s' = put (pmem s) (page_addr user s i) (replicate (PGSIZE * n) 0xcc)
    \<and> (\<forall>u. base (get_pool u s') = base (get_pool u s) \<and> pool_pages u s' = pool_pages u s)"
proof -
  note addr = page_addr_bounds [OF ok i]
  have lt: "i < pool_pages user s" using i n by simp
  note from_pool = from_pool_addr [OF ok lt]
  let ?a = "page_addr user s i"
  define m where "m = put (pmem s) ?a (replicate (PGSIZE * n) 0xcc)"
  have mem: "memset (pmem s) ?a 0xcc (PGSIZE * n) = Some (?a, m)"
    using pstate_writable [OF ok i] addr(1) by (simp add: memset_def memset_loop_ok m_def)
  let ?s = "s\<lparr>pmem := m\<rparr>"
  have ok1: "pstate_ok ?s" using pmem_ok [OF ok] by (simp add: m_def)
  obtain b where b: "give_bits (used_map (get_pool user s)) i n = Some b"
      "bupd {i ..< i + n} False (used_map (get_pool user s)) b"
      "clear_bits b = free_pages user s \<union> {i ..< i + n}"
    using give_bits_used [OF pstate_bok [OF ok], of i n user] i used
    by (auto simp: pool_pages_def free_pages_def)
  have give: "pool_give user i n ?s = Some (set_map user b ?s)" using b(1) by (simp add: pool_give_bits)
  have which: "(\<not> page_from_pool (kernel_pool s) ?a) = user"
    using from_pool by (cases user) (auto simp: get_pool_def)
  have "palloc_free_multiple ?a n s = Some (set_map user b ?s)"
    using addr n give mem which from_pool(1)
    by (simp add: palloc_free_multiple_def Let_def) (metis get_pool_def)
  moreover have "pstate_ok (set_map user b ?s)"
    using b(2) by (intro set_map_ok [OF ok1]) (simp_all add: bupd_def pool_pages_def)
  moreover have "base (get_pool u (set_map user b ?s)) = base (get_pool u s)"
      "pool_pages u (set_map user b ?s) = pool_pages u s" for u
    using b(2) by (cases "u = user"; simp add: pool_pages_def bupd_def)+
  ultimately show ?thesis using b(3) by (simp add: free_pages_def m_def)
qed

section \<open>Properties\<close>

text \<open>C17: palloc_get_multiple returns page-aligned, non-null runs of pages that were free in
  the right pool, marks exactly these used, zeroes them if asked and touches no other byte; it
  fails only when no run is long enough, and then panics exactly if PAL_ASSERT is given.\<close>

theorem palloc_get_multiple_correct:
  fixes flags :: nat
  assumes ok: "pstate_ok s" and n: "0 < n"
  shows "let user = (flags AND PAL_USER \<noteq> 0) in
    if \<exists>a. {a ..< a + n} \<subseteq> free_pages user s
    then \<exists>i s'. palloc_get_multiple flags n s = Some (page_addr user s i, s')
      \<and> page_addr user s i \<noteq> 0 \<and> pg_ofs (page_addr user s i) = 0
      \<and> {i ..< i + n} \<subseteq> free_pages user s
      \<and> free_pages user s' = free_pages user s - {i ..< i + n}
      \<and> free_pages (\<not> user) s' = free_pages (\<not> user) s \<and> pstate_ok s'
      \<and> (\<forall>x. pmem s' x =
           (if flags AND PAL_ZERO \<noteq> 0 \<and> page_addr user s i \<le> x \<and> x < page_addr user s i + PGSIZE * n
            then Some 0 else pmem s x))
    else palloc_get_multiple flags n s = (if flags AND PAL_ASSERT \<noteq> 0 then None else Some (0, s))"
proof -
  define user where "user = (flags AND PAL_USER \<noteq> 0)"
  note get = palloc_get_ok [OF ok, of n, where flags = flags, folded user_def]
  show ?thesis
  proof (cases "\<exists>a. {a ..< a + n} \<subseteq> free_pages user s")
    case True
    then obtain i s' where r: "palloc_get_multiple flags n s = Some (page_addr user s i, s')"
        "{i ..< i + n} \<subseteq> free_pages user s" "i + n \<le> pool_pages user s"
        "free_pages user s' = free_pages user s - {i ..< i + n}"
        "free_pages (\<not> user) s' = free_pages (\<not> user) s" "pstate_ok s'"
        "pmem s' = (if flags AND PAL_ZERO \<noteq> 0
           then put (pmem s) (page_addr user s i) (replicate (PGSIZE * n) 0) else pmem s)"
      using get(2) n by blast
    have "\<forall>x. pmem s' x =
           (if flags AND PAL_ZERO \<noteq> 0 \<and> page_addr user s i \<le> x \<and> x < page_addr user s i + PGSIZE * n
            then Some 0 else pmem s x)"
      by (auto simp: r(7) put_nth)
    with r(1-6) True page_addr_bounds(1,3) [OF ok r(3)] show ?thesis
      unfolding Let_def user_def [symmetric] by auto
  next
    case False
    with get(1) n show ?thesis unfolding Let_def user_def [symmetric] by simp
  qed
qed

definition demo_pages :: pstate where
  "demo_pages =
     \<lparr>kernel_pool = \<lparr>used_map = \<lparr>bit_cnt = 3, bits = [0x1]\<rparr>, base = 0x1000\<rparr>,
      user_pool = \<lparr>used_map = \<lparr>bit_cnt = 1, bits = [0x0]\<rparr>, base = 0x4000\<rparr>,
      pmem = (\<lambda>a. Some 7)\<rparr>"

lemma demo_pages_ok: "pstate_ok demo_pages"
  by (simp add: pstate_ok_def pool_ok_def bok_def demo_pages_def pool_pages_def get_pool_def
      writable_def PGSIZE_def ELEM_BITS_def)

lemma demo_pages_free: "free_pages False demo_pages = {1, 2}"
proof -
  have three: "i < 3 \<longleftrightarrow> i = 0 \<or> i = 1 \<or> i = (2 :: nat)" by arith
  show ?thesis
    by (auto simp: free_pages_def clear_bits_def demo_pages_def get_pool_def bbit_def elem_idx_def
        ELEM_BITS_def three bit_1_iff)
qed

theorem palloc_get_multiple_correct_witness:
  "(\<exists>i s'. palloc_get_multiple PAL_ZERO 2 demo_pages = Some (page_addr False demo_pages i, s')
     \<and> free_pages False s' = {1, 2} - {i ..< i + 2})
   \<and> palloc_get_multiple PAL_ASSERT 3 demo_pages = None"
proof
  have flags: "PAL_ZERO AND PAL_USER = 0" "PAL_ASSERT AND PAL_USER = 0" "PAL_ASSERT AND PAL_ASSERT \<noteq> 0"
    by (simp_all add: PAL_ZERO_def PAL_USER_def PAL_ASSERT_def)
  have two: "\<exists>a. {a ..< a + 2} \<subseteq> {1, 2 :: nat}" by (rule exI [of _ 1]) auto
  have three: "\<not> {a ..< a + 3} \<subseteq> {1, 2 :: nat}" for a
  proof
    assume "{a ..< a + 3} \<subseteq> {1, 2 :: nat}"
    moreover have "a \<in> {a ..< a + 3}" and "a + 2 \<in> {a ..< a + 3}" by simp_all
    ultimately have "a \<in> {1, 2}" and "a + 2 \<in> {1, 2 :: nat}" by blast+
    then show False by auto
  qed
  show "\<exists>i s'. palloc_get_multiple PAL_ZERO 2 demo_pages = Some (page_addr False demo_pages i, s')
     \<and> free_pages False s' = {1, 2} - {i ..< i + 2}"
    using palloc_get_multiple_correct [OF demo_pages_ok, of 2 PAL_ZERO] two
    by (simp add: Let_def flags demo_pages_free) blast
  show "palloc_get_multiple PAL_ASSERT 3 demo_pages = None"
    using palloc_get_multiple_correct [OF demo_pages_ok, of 3 PAL_ASSERT] three flags(3)
    by (simp add: Let_def flags(2) demo_pages_free)
qed

text \<open>C18: two allocations from a pool never overlap; freeing what was allocated restores the
  free pages, and freeing it a second time panics.\<close>

theorem palloc_runs:
  assumes "bok (used_map (get_pool user s))"
    and "pool_take user n s = Some (Some a, s1)" and "pool_take user m s1 = Some (Some b, s2)"
    and "0 < n"
  shows "{a ..< a + n} \<inter> {b ..< b + m} = {}
    \<and> (\<exists>s3. pool_give user a n s1 = Some s3 \<and> free_pages user s3 = free_pages user s
         \<and> pool_give user a n s3 = None)"
  using pages.alloc_disjoint [OF assms(1-3)] pages.alloc_release [OF assms(1,2)]
    pages.double_release [OF assms(1,2) _ assms(4)] by blast

theorem palloc_runs_witness:
  "\<exists>a b s1 s2 s3. pool_take False 1 demo_pages = Some (Some a, s1) \<and> pool_take False 1 s1 = Some (Some b, s2)
     \<and> a \<noteq> b \<and> pool_give False a 1 s1 = Some s3 \<and> pool_give False a 1 s3 = None"
proof -
  have ok: "bok (used_map (get_pool False demo_pages))" by (rule pstate_bok [OF demo_pages_ok])
  have "{1 ..< 1 + 1} \<subseteq> free_pages False demo_pages" by (simp add: demo_pages_free)
  from pages.alloc_fits [OF ok this] obtain a s1
    where t1: "pool_take False 1 demo_pages = Some (Some a, s1)" by blast
  note i1 = pages.alloc_inv [OF ok t1] and a1 = pages.alloc_some [OF ok t1]
  define c where "c = (if a = 1 then 2 else 1 :: nat)"
  have "{c ..< c + 1} \<subseteq> free_pages False s1" using a1 by (auto simp: demo_pages_free c_def)
  from pages.alloc_fits [OF conjunct1 [OF i1] this] obtain b s2
    where t2: "pool_take False 1 s1 = Some (Some b, s2)" by blast
  from palloc_runs [OF ok t1 t2] t1 t2 show ?thesis by auto
qed

end
