(* ===== verification/ArgPass.thy ===== *)
theory ArgPass
  imports MemWords Palloc
begin

text \<open>
  How userprog/process.c passes the command line to a program: get_command, set_argv and
  set_stack, on the byte memory of KString.  Pointers and ints are four bytes, the lowest
  first.  The arrays \<open>argv\<close> (128 pointers on load's stack) and \<open>address\<close> (from malloc), the
  buffer that get_command allocates and the string literal that set_argv hands to strtok_r
  are addresses given to the definitions; a write past one of these objects is None.
\<close>

section \<open>The code\<close>

partial_function (option) get_command_loop :: "mem \<Rightarrow> nat \<Rightarrow> nat \<Rightarrow> nat \<Rightarrow> mem option" where
  "get_command_loop m file_name command idx = do {
     ch \<leftarrow> m (file_name + idx);
     (if ch \<noteq> 10 \<and> ch \<noteq> 32 \<and> ch \<noteq> 0 then do {
        m \<leftarrow> wr m (command + idx) ch;
        get_command_loop m file_name command (idx + 1)
      }
      else wr m (command + idx) 0)
   }"

definition get_command :: "mem \<Rightarrow> nat \<Rightarrow> nat \<Rightarrow> (nat \<times> mem) option" where
  "get_command m file_name command = do {
     m \<leftarrow> get_command_loop m file_name command 0;
     Some (command, m)
   }"

partial_function (option) set_argv_loop ::
    "mem \<Rightarrow> nat \<Rightarrow> nat \<Rightarrow> nat \<Rightarrow> nat \<Rightarrow> nat \<Rightarrow> (nat \<times> mem) option" where
  "set_argv_loop m argv delimiters token temp_ptr argc =
     (if token \<noteq> 0 then do {
        m \<leftarrow> st32 m (argv + 4 * argc) token;
        r \<leftarrow> strtok_r m 0 delimiters temp_ptr;
        set_argv_loop (snd (snd r)) argv delimiters (fst r) (fst (snd r)) (argc + 1)
      }
      else Some (argc, m))"

definition set_argv :: "mem \<Rightarrow> nat \<Rightarrow> nat \<Rightarrow> nat \<Rightarrow> (nat \<times> mem) option" where
  "set_argv m file_name argv delimiters = do {
     (token, temp_ptr, m) \<leftarrow> strtok_r m file_name delimiters 0;
     set_argv_loop m argv delimiters token temp_ptr 0
   }"

text \<open>The strings are copied from the last to the first; i counts the ones still to copy.\<close>

fun copy_args :: "mem \<Rightarrow> nat \<Rightarrow> nat \<Rightarrow> nat \<Rightarrow> int \<Rightarrow> nat \<Rightarrow> (mem \<times> nat \<times> int) option" where
  "copy_args m argv address esp mem_use 0 = Some (m, esp, mem_use)"
| "copy_args m argv address esp mem_use (Suc i) = do {
     a \<leftarrow> ld32 m (argv + 4 * i);
     n \<leftarrow> strlen m a;
     let arg_len = wrap32 (int n + 1);
     let esp = ptr_sub esp arg_len;
     let mem_use = wrap32 (mem_use + arg_len);
     (_, m) \<leftarrow> memcpy m esp a (nat (arg_len mod 2 ^ 32));
     m \<leftarrow> st32 m (address + 4 * i) esp;
     copy_args m argv address esp mem_use i
   }"

definition push32 :: "nat \<Rightarrow> mem \<Rightarrow> nat \<Rightarrow> (mem \<times> nat) option" where
  "push32 v m esp = do {
     let esp = ptr_sub esp 4;
     m \<leftarrow> st32 m esp v;
     Some (m, esp)
   }"

fun push_args :: "mem \<Rightarrow> nat \<Rightarrow> nat \<Rightarrow> nat \<Rightarrow> (mem \<times> nat) option" where
  "push_args m address esp 0 = Some (m, esp)"
| "push_args m address esp (Suc i) = do {
     let esp = ptr_sub esp 4;
     a \<leftarrow> ld32 m (address + 4 * i);
     m \<leftarrow> st32 m esp a;
     push_args m address esp i
   }"

definition set_stack :: "mem \<Rightarrow> nat \<Rightarrow> nat \<Rightarrow> nat \<Rightarrow> nat \<Rightarrow> (nat \<times> mem) option" where
  "set_stack m argc argv esp address = do {
     (m, esp, mem_use) \<leftarrow> copy_args m argv address esp 0 argc;
     let word_align = (if mem_use smod 4 \<noteq> 0 then 4 - mem_use smod 4 else 0);
     let esp = ptr_sub esp word_align;
     (m, esp) \<leftarrow> push32 0 m esp;
     (m, esp) \<leftarrow> push_args m address esp argc;
     let temp = esp;
     (m, esp) \<leftarrow> push32 temp m esp;
     (m, esp) \<leftarrow> push32 argc m esp;
     (m, esp) \<leftarrow> push32 0 m esp;
     Some (esp, m)
   }"

section \<open>Splitting the command line\<close>

lemma tokens_step: "\<not> (\<forall>c \<in> set cs. c \<in> D) \<Longrightarrow> tokens D cs = first_token D cs # tokens D (after_token D cs)"
  by (subst tokens.simps) simp

lemma tokens_none: "\<forall>c \<in> set cs. c \<in> D \<Longrightarrow> tokens D cs = []"
  by (subst tokens.simps) simp

lemma strtok_r_saved: "save \<noteq> 0 \<Longrightarrow> strtok_r m 0 d save = strtok_r m save d 0"
  by (simp add: strtok_r_def)

lemma cstr_end: "cstr m p cs \<Longrightarrow> m (p + length cs) = Some 0"
  by (simp add: cstr_def)

lemma cstr_clash: "cstr m p cs \<Longrightarrow> cstr m (p + length cs) ds \<Longrightarrow> ds = []"
  by (cases ds) (auto simp: cstr_def)

definition arg_at :: "mem \<Rightarrow> nat \<Rightarrow> nat \<Rightarrow> nat \<Rightarrow> byte list \<Rightarrow> bool" where
  "arg_at m lo hi p t \<longleftrightarrow> cstr m p t \<and> lo \<le> p \<and> p + length t < hi"

text \<open>What the rest of the loop does: the token in hand is t, the string left is rest.\<close>

lemma set_argv_loop_ok:
  "cstr m d ds \<Longrightarrow> cstr m tok t \<Longrightarrow> cstr m save rest
   \<Longrightarrow> tok + length t < save \<or> tok + length t = save \<and> rest = []
   \<Longrightarrow> lo \<le> tok \<Longrightarrow> save + length rest < hi \<Longrightarrow> hi \<le> 2 ^ 32
   \<Longrightarrow> d + length ds < lo \<or> hi \<le> d
   \<Longrightarrow> n = 1 + length (tokens (set ds) rest) \<Longrightarrow> writable m (argv + 4 * k) (4 * n)
   \<Longrightarrow> argv + 4 * (k + n) \<le> lo \<or> hi \<le> argv
   \<Longrightarrow> argv + 4 * (k + n) \<le> d \<or> d + length ds < argv
   \<Longrightarrow> \<exists>ps m'. set_argv_loop m argv d tok save k = Some (k + n, m')
     \<and> length ps = n \<and> words m' (argv + 4 * k) ps
     \<and> list_all2 (arg_at m' lo hi) ps (t # tokens (set ds) rest)
     \<and> (\<forall>a. (a < argv + 4 * k \<or> argv + 4 * (k + n) \<le> a) \<longrightarrow> (a < save \<or> save + length rest \<le> a) \<longrightarrow> m' a = m a)"
proof (induction "length rest" arbitrary: m tok t save rest k n rule: less_induct)
  case less
  note p = less.prems
  define m1 where "m1 = put m (argv + 4 * k) (le32 tok)"
  have n: "1 \<le> n" using p(9) by simp
  have st: "st32 m (argv + 4 * k) tok = Some m1"
    unfolding m1_def by (rule st32_ok, rule writable_mono [OF p(10)]) (use n in auto)
  have out: "same m m1 a b" if "a + b \<le> argv + 4 * k \<or> argv + 4 * k + 4 \<le> a" for a b
    using that unfolding m1_def by (auto intro: same_put)
  have c1: "cstr m1 d ds" "cstr m1 tok t" "cstr m1 save rest"
    using p(1-3) p(4,5,6,11,12) n by (auto elim!: cstr_same intro!: out)
  have tok0: "tok \<noteq> 0" "save \<noteq> 0" using cstr_pos [OF p(2)] cstr_pos [OF p(3)] by auto
  have apart: "d + length ds < save \<or> save + length rest < d" using p(4-8) by linarith
  obtain tok' save' m2 where r: "strtok_r m1 save d 0 = Some (tok', save', m2)"
    and f2: "\<And>a. a < save \<or> save + length rest \<le> a \<Longrightarrow> m2 a = m1 a"
    and hit: "if \<forall>c \<in> set rest. c \<in> set ds then tok' = 0 \<and> m2 = m1 \<and> cstr m2 save' []
       else save \<le> tok' \<and> tok' + length (first_token (set ds) rest) < save' + 1
         \<and> cstr m2 tok' (first_token (set ds) rest)
         \<and> save' + length (after_token (set ds) rest) = save + length rest
         \<and> cstr m2 save' (after_token (set ds) rest)"
    using strtok_r_ok [OF c1(1,3) apart, of 0] by blast
  have step: "set_argv_loop m argv d tok save k = set_argv_loop m2 argv d tok' save' (k + 1)"
    using st r tok0 by (simp add: set_argv_loop.simps [of m] strtok_r_saved)
  have w1: "words m1 (argv + 4 * k) [tok]" using p(4-7) by (auto simp: words_def m1_def)
  show ?case
  proof (cases "\<forall>c \<in> set rest. c \<in> set ds")
    case True
    with hit p(9) have h: "tok' = 0" "m2 = m1" "n = 1" "tokens (set ds) rest = []" by (simp_all add: tokens_none)
    have "set_argv_loop m argv d tok save k = Some (k + n, m1)"
      using step h by (simp add: set_argv_loop.simps [of m1])
    moreover have "\<forall>a. (a < argv + 4 * k \<or> argv + 4 * (k + n) \<le> a) \<longrightarrow> m1 a = m a"
      using h by (simp add: m1_def put_nth)
    moreover have "arg_at m1 lo hi tok t" using c1(2) p(4-6) by (auto simp: arg_at_def)
    ultimately show ?thesis using w1 h by (intro exI [of _ "[tok]"] exI [of _ m1]) simp
  next
    case False
    define t' where "t' = first_token (set ds) rest"
    define rest' where "rest' = after_token (set ds) rest"
    have ts: "tokens (set ds) rest = t' # tokens (set ds) rest'"
      unfolding t'_def rest'_def by (rule tokens_step [OF False])
    have h: "save \<le> tok'" "tok' + length t' \<le> save'" "cstr m2 tok' t'"
      "save' + length rest' = save + length rest" "cstr m2 save' rest'"
      using hit False by (auto simp: t'_def rest'_def)
    have ne: "t' \<noteq> []" unfolding t'_def by (rule split_token(2) [OF False])
    have len: "length rest' < length rest" using h ne by (cases t') auto
    have gap: "tok' + length t' < save' \<or> tok' + length t' = save' \<and> rest' = []"
      using h(2) cstr_clash [OF h(3), of rest'] h(5) by (cases "tok' + length t' = save'") auto
    have nn: "n = Suc (1 + length (tokens (set ds) rest'))" using p(9) ts by simp
    have dom: "writable m2 (argv + 4 * (k + 1)) (4 * (n - 1))"
    proof -
      have w: "writable m1 (argv + 4 * (k + 1)) (4 * (n - 1))"
        unfolding m1_def by (rule writable_put, rule writable_mono [OF p(10)]) (use nn in auto)
      moreover have "m2 a = m1 a" if "argv + 4 * (k + 1) \<le> a" "a < argv + 4 * (k + n)" for a
        using f2 [of a] that p(4-6,11) by auto
      ultimately show ?thesis using nn by (auto simp: writable_def)
    qed
    have "cstr m2 d ds"
      by (rule cstr_same [OF c1(1)]) (use f2 apart in \<open>auto simp: same_def\<close>)
    note ih_rule = less.hyps [OF len \<open>cstr m2 d ds\<close> h(3) h(5) gap _ _ p(7) p(8), where n = "n - 1" and k = "k + 1"]
    have kn: "k + 1 + (n - 1) = k + n" using nn by simp
    have "lo \<le> tok'" "save' + length rest' < hi" using p(4-6) h(1,4) by auto
    then obtain ps m' where ih: "set_argv_loop m2 argv d tok' save' (k + 1) = Some (k + n, m')"
      "length ps = n - 1" "words m' (argv + 4 * (k + 1)) ps"
      "list_all2 (arg_at m' lo hi) ps (t' # tokens (set ds) rest')"
      and f: "\<And>a. a < argv + 4 * (k + 1) \<or> argv + 4 * (k + n) \<le> a \<Longrightarrow> a < save' \<or> save' + length rest' \<le> a \<Longrightarrow> m' a = m2 a"
      using ih_rule [unfolded kn] nn dom p(11,12) by auto
    have s': "m' a = m1 a" if "a < argv + 4 * (k + 1) \<or> argv + 4 * (k + n) \<le> a" "a < save \<or> save + length rest \<le> a" for a
      using f [of a] f2 [of a] that h(1,2,4) by auto
    have "tok + length t < save" using p(4) False by auto
    then have "same m1 m' tok (length t + 1)"
      unfolding same_def using p(4-6,11) nn by (intro allI impI s') auto
    then have "cstr m' tok t" by (rule cstr_same [OF c1(2)])
    then have "arg_at m' lo hi tok t" using p(4-6) by (auto simp: arg_at_def)
    moreover have "same m1 m' (argv + 4 * k) 4"
      unfolding same_def using p(4-6,11) nn by (intro allI impI s') auto
    then have "words m' (argv + 4 * k) [tok]" by (intro words_same [OF w1]) simp
    then have "words m' (argv + 4 * k) (tok # ps)"
      using ih(3) by (simp add: words_Cons algebra_simps)
    moreover have "m' a = m a" if "a < argv + 4 * k \<or> argv + 4 * (k + n) \<le> a" "a < save \<or> save + length rest \<le> a" for a
      using s' [of a] that nn by (auto simp: m1_def put_nth)
    ultimately show ?thesis using step ih ts nn
      by (intro exI [of _ "tok # ps"] exI [of _ m']) auto
  qed
qed

lemma set_argv_ok:
  assumes f: "cstr m f cs" and d: "cstr m d ds" and hi: "f + length cs < 2 ^ 32"
    and fd: "d + length ds < f \<or> f + length cs < d"
    and n: "n = length (tokens (set ds) cs)" and w: "writable m argv (4 * n)"
    and af: "argv + 4 * n \<le> f \<or> f + length cs < argv" and ad: "argv + 4 * n \<le> d \<or> d + length ds < argv"
  shows "\<exists>ps m'. set_argv m f argv d = Some (n, m') \<and> length ps = n \<and> words m' argv ps
    \<and> list_all2 (arg_at m' f (f + length cs + 1)) ps (tokens (set ds) cs)
    \<and> (\<forall>a. (a < argv \<or> argv + 4 * n \<le> a) \<longrightarrow> (a < f \<or> f + length cs \<le> a) \<longrightarrow> m' a = m a)"
proof -
  obtain tok save m1 where r: "strtok_r m f d 0 = Some (tok, save, m1)"
    and f1: "\<And>a. a < f \<or> f + length cs \<le> a \<Longrightarrow> m1 a = m a"
    and hit: "if \<forall>c \<in> set cs. c \<in> set ds then tok = 0 \<and> m1 = m \<and> cstr m1 save []
       else f \<le> tok \<and> tok + length (first_token (set ds) cs) < save + 1
         \<and> cstr m1 tok (first_token (set ds) cs)
         \<and> save + length (after_token (set ds) cs) = f + length cs
         \<and> cstr m1 save (after_token (set ds) cs)"
    using strtok_r_ok [OF d f fd, of 0] by blast
  show ?thesis
  proof (cases "\<forall>c \<in> set cs. c \<in> set ds")
    case True
    with hit r n show ?thesis
      by (intro exI [of _ "[]"] exI [of _ m]) (simp add: set_argv_def set_argv_loop.simps [of m] tokens_none)
  next
    case False
    define t where "t = first_token (set ds) cs"
    define rest where "rest = after_token (set ds) cs"
    have ts: "tokens (set ds) cs = t # tokens (set ds) rest"
      unfolding t_def rest_def by (rule tokens_step [OF False])
    have h: "f \<le> tok" "tok + length t \<le> save" "cstr m1 tok t" "save + length rest = f + length cs" "cstr m1 save rest"
      using hit False by (auto simp: t_def rest_def)
    have gap: "tok + length t < save \<or> tok + length t = save \<and> rest = []"
      using h(2) cstr_clash [OF h(3), of rest] h(5) by (cases "tok + length t = save") auto
    have d1: "cstr m1 d ds" by (rule cstr_same [OF d]) (use f1 fd in \<open>auto simp: same_def\<close>)
    have w1: "writable m1 argv (4 * n)" using w f1 af by (auto simp: writable_def)
    have "\<exists>ps m'. set_argv_loop m1 argv d tok save 0 = Some (0 + n, m')
     \<and> length ps = n \<and> words m' (argv + 4 * 0) ps
     \<and> list_all2 (arg_at m' f (f + length cs + 1)) ps (t # tokens (set ds) rest)
     \<and> (\<forall>a. (a < argv + 4 * 0 \<or> argv + 4 * (0 + n) \<le> a) \<longrightarrow> (a < save \<or> save + length rest \<le> a) \<longrightarrow> m' a = m1 a)"
      by (rule set_argv_loop_ok [OF d1 h(3) h(5) gap h(1)])
        (use h(4) hi fd n ts w1 af ad in auto)
    then obtain ps m' where c: "set_argv_loop m1 argv d tok save 0 = Some (n, m')" "length ps = n" "words m' argv ps"
      "list_all2 (arg_at m' f (f + length cs + 1)) ps (t # tokens (set ds) rest)"
      and fr: "\<And>a. a < argv \<or> argv + 4 * n \<le> a \<Longrightarrow> a < save \<or> save + length rest \<le> a \<Longrightarrow> m' a = m1 a"
      by auto
    have "m' a = m a" if "a < argv \<or> argv + 4 * n \<le> a" "a < f \<or> f + length cs \<le> a" for a
      using fr [of a] f1 [of a] that h(1,2,4) by auto
    with c r ts show ?thesis by (intro exI [of _ ps] exI [of _ m']) (simp add: set_argv_def)
  qed
qed

section \<open>Building the stack\<close>

text \<open>The bytes that the strings take with their terminators.\<close>

definition args_size :: "byte list list \<Rightarrow> nat" where
  "args_size as = (\<Sum>t\<leftarrow>as. length t + 1)"

lemma args_size_snoc [simp]: "args_size (as @ [t]) = args_size as + length t + 1"
  by (simp add: args_size_def)

lemma args_size_Nil [simp]: "args_size [] = 0"
  by (simp add: args_size_def)

lemma ptr_sub_ok: "n \<le> p \<Longrightarrow> p < 2 ^ 32 \<Longrightarrow> ptr_sub p (int n) = p - n"
  by (simp add: ptr_sub_def of_nat_diff [symmetric] del: of_nat_diff)

text \<open>The copying loop: the strings go below the stack pointer, their addresses into the
  array.  Neither the strings nor the array argv lie in the stack area or in that array.\<close>

lemma copy_args_ok:
  "words m argv ps \<Longrightarrow> list_all2 (arg_at m lo hi) ps as \<Longrightarrow> n = length as
   \<Longrightarrow> low + args_size as \<le> esp \<Longrightarrow> esp < 2 ^ 32 \<Longrightarrow> 0 < low
   \<Longrightarrow> 0 \<le> u \<Longrightarrow> u + int (args_size as) < 2 ^ 31
   \<Longrightarrow> writable m low (esp - low) \<Longrightarrow> writable m address (4 * n)
   \<Longrightarrow> hi \<le> low \<or> esp \<le> lo \<Longrightarrow> argv + 4 * n \<le> low \<or> esp \<le> argv
   \<Longrightarrow> address + 4 * n \<le> low \<or> esp \<le> address
   \<Longrightarrow> address + 4 * n \<le> lo \<or> hi \<le> address \<Longrightarrow> address + 4 * n \<le> argv \<or> argv + 4 * n \<le> address
   \<Longrightarrow> \<exists>qs m'. copy_args m argv address esp u n = Some (m', esp - args_size as, u + int (args_size as))
     \<and> words m' address qs \<and> list_all2 (arg_at m' (esp - args_size as) esp) qs as
     \<and> (\<forall>a. (a < esp - args_size as \<or> esp \<le> a) \<longrightarrow> (a < address \<or> address + 4 * n \<le> a) \<longrightarrow> m' a = m a)"
proof (induction as arbitrary: m ps esp u n rule: rev_induct)
  case Nil
  then show ?case by (intro exI [of _ "[]"] exI [of _ m]) simp
next
  case (snoc t as)
  note p = snoc.prems
  obtain ps' q where ps: "ps = ps' @ [q]" and l: "list_all2 (arg_at m lo hi) ps' as" and q: "arg_at m lo hi q t"
    using p(2) by (auto simp: list_all2_append2 list_all2_Cons2)
  have lps: "length ps' = length as" using l by (rule list_all2_lengthD)
  define i where "i = length as"
  have n: "n = Suc i" using p(3) by (simp add: i_def)
  define esp1 where "esp1 = esp - (length t + 1)"
  have e1: "esp1 + length t + 1 = esp" "low + args_size as \<le> esp1" using p(4) by (auto simp: esp1_def)
  have tc: "cstr m q t" and qb: "lo \<le> q" "q + length t < hi" using q by (auto simp: arg_at_def)
  have tsz: "int (length t) + 1 < 2 ^ 31" using p(7,8) by simp
  have ld: "ld32 m (argv + 4 * i) = Some q"
    using words_nth [OF p(1), of i] lps by (simp add: ps i_def nth_append)
  define m1 where "m1 = put m esp1 (t @ [0])"
  define m2 where "m2 = put m1 (address + 4 * i) (le32 esp1)"
  have "blk m q (t @ [0])" using tc by (simp add: cstr_def)
  moreover have "writable m esp1 (length (t @ [0]))"
    by (rule writable_mono [OF p(9)]) (use e1 in auto)
  ultimately have cp: "memcpy m esp1 q (length t + 1) = Some (esp1, m1)"
    using memcpy_ok [of m q "t @ [0]" esp1] p(6,11) qb e1 cstr_pos [OF tc] by (auto simp: m1_def)
  have wa: "writable m1 (address + 4 * i) 4"
    unfolding m1_def by (rule writable_put, rule writable_mono [OF p(10)]) (use n in auto)
  have st: "st32 m1 (address + 4 * i) esp1 = Some m2"
    unfolding m2_def by (rule st32_ok [OF wa])
  have wr: "wrap32 (int (length t) + 1) = int (length t + 1)" "wrap32 (u + int (length t + 1)) = u + int (length t + 1)"
    using tsz p(7,8) wrap32_id [of "int (length t) + 1"] wrap32_id [of "u + int (length t + 1)"] by simp_all
  have len: "nat (int (length t + 1) mod 2 ^ 32) = length t + 1"
    using tsz by (simp add: nat_eq_iff mod_pos_pos_trivial del: of_nat_add of_nat_Suc)
  have sub: "ptr_sub esp (int (length t + 1)) = esp1"
    unfolding esp1_def by (rule ptr_sub_ok) (use e1 p(5) in auto)
  have step: "copy_args m argv address esp u n = copy_args m2 argv address esp1 (u + int (length t + 1)) i"
    unfolding n copy_args.simps
    using ld strlen_ok [OF tc] cp st by (simp only: wr sub len Let_def Option.bind.bind_lunit case_prod_conv)
  have nn: "4 * n = 4 * i + 4" by (simp add: n)
  have o1: "same m m1 a b" if "a + b \<le> esp1 \<or> esp \<le> a" for a b
    using that e1 unfolding m1_def by (intro same_put) auto
  have o2: "same m1 m2 a b" if "a + b \<le> address + 4 * i \<or> address + 4 * n \<le> a" for a b
    using that unfolding m2_def nn by (intro same_put) auto
  have o: "same m m2 a b" if "a + b \<le> esp1 \<or> esp \<le> a" "a + b \<le> address + 4 * i \<or> address + 4 * n \<le> a" for a b
    using same_trans [OF o1 o2] that by blast
  have w: "words m2 argv ps'"
    by (rule words_same [OF _ o]) (use p(1,12,15) e1 lps ps nn in \<open>auto simp: words_snoc i_def\<close>)
  have l2: "list_all2 (arg_at m2 lo hi) ps' as"
    using l
  proof (rule list_all2_mono)
    fix x y
    assume "arg_at m lo hi x y"
    then show "arg_at m2 lo hi x y"
      using o [of x "length y + 1"] p(11,14) e1 nn by (auto simp: arg_at_def elim!: cstr_same)
  qed
  have wa2: "writable m2 low (esp1 - low)" "writable m2 address (4 * i)"
    unfolding m2_def m1_def
    by (intro writable_put, rule writable_mono [OF p(9)] writable_mono [OF p(10)], use e1 n in auto)+
  have q5: "esp1 < 2 ^ 32" using p(5) e1 by simp
  have q7: "0 \<le> u + int (length t + 1)" using p(7) by simp
  have q8: "u + int (length t + 1) + int (args_size as) < 2 ^ 31" using p(8) by simp
  have q11: "hi \<le> low \<or> esp1 \<le> lo" using p(11) e1 by auto
  have q12: "argv + 4 * i \<le> low \<or> esp1 \<le> argv" using p(12) e1 nn by auto
  have q13: "address + 4 * i \<le> low \<or> esp1 \<le> address" using p(13) e1 nn by auto
  have q14: "address + 4 * i \<le> lo \<or> hi \<le> address" using p(14) nn by auto
  have q15: "address + 4 * i \<le> argv \<or> argv + 4 * i \<le> address" using p(15) nn by auto
  obtain qs m' where ih: "copy_args m2 argv address esp1 (u + int (length t + 1)) i
        = Some (m', esp1 - args_size as, u + int (length t + 1) + int (args_size as))"
      "words m' address qs" "list_all2 (arg_at m' (esp1 - args_size as) esp1) qs as"
    and fr: "\<And>a. a < esp1 - args_size as \<or> esp1 \<le> a \<Longrightarrow> a < address \<or> address + 4 * i \<le> a \<Longrightarrow> m' a = m2 a"
    using snoc.IH [OF w l2 i_def e1(2) q5 p(6) q7 q8 wa2 q11 q12 q13 q14 q15] by blast
  have lq: "length qs = i" using list_all2_lengthD [OF ih(3)] by (simp add: i_def)
  have sz: "esp1 - args_size as = esp - args_size (as @ [t])" "esp - args_size (as @ [t]) < esp1 + 1"
    using e1 by auto
  have sm: "same m2 m' x k" if "x + k \<le> esp1 - args_size as \<or> esp1 \<le> x" "x + k \<le> address \<or> address + 4 * i \<le> x" for x k
    unfolding same_def using that by (intro allI impI fr) auto
  have "words m2 (address + 4 * i) [esp1]" using q5 by (simp add: words_def m2_def)
  then have "words m' (address + 4 * i) [esp1]"
    by (rule words_same) (rule sm, use p(13) e1 nn in auto)
  then have ws: "words m' address (qs @ [esp1])"
    using ih(2) lq by (simp add: words_snoc words_Cons)
  have b1: "blk m1 esp1 (t @ [0])" by (simp only: m1_def blk_put)
  then have "cstr m1 esp1 t" using tc e1(2) p(6) by (simp add: cstr_def)
  then have "cstr m2 esp1 t"
    by (rule cstr_same) (rule o2, use p(13) e1 nn in auto)
  then have "cstr m' esp1 t"
    by (rule cstr_same) (rule sm, use p(13) e1 nn in auto)
  then have new: "arg_at m' (esp1 - args_size as) esp esp1 t" using e1 by (simp add: arg_at_def)
  have "list_all2 (arg_at m' (esp1 - args_size as) esp) qs as"
    by (rule list_all2_mono [OF ih(3)]) (use e1 in \<open>auto simp: arg_at_def\<close>)
  with new have l3: "list_all2 (arg_at m' (esp1 - args_size as) esp) (qs @ [esp1]) (as @ [t])"
    by (simp add: list_all2_appendI)
  have frm: "m' a = m a" if "a < esp1 - args_size as \<or> esp \<le> a" "a < address \<or> address + 4 * n \<le> a" for a
  proof -
    have "m' a = m2 a" by (rule fr) (use that e1 nn in auto)
    also have "same m m2 a 1" by (rule o) (use that e1 nn in auto)
    then have "m2 a = m a" by (simp add: same_def)
    finally show ?thesis .
  qed
  have "copy_args m argv address esp u n
      = Some (m', esp - args_size (as @ [t]), u + int (args_size (as @ [t])))"
    using step ih(1) sz(1) by (simp add: algebra_simps)
  with ws l3 frm sz(1) show ?case
    by (intro exI [of _ "qs @ [esp1]"] exI [of _ m'] conjI) simp_all
qed

lemma push32_ok:
  assumes "esp = p + 4" and "esp < 2 ^ 32" and "writable m p 4"
  shows "push32 v m esp = Some (put m p (le32 v), p)"
  using assms ptr_sub_ok [of 4 esp] by (simp add: push32_def st32_ok Let_def)

lemma push_args_ok:
  "words m address qs \<Longrightarrow> 4 * length qs \<le> esp \<Longrightarrow> esp < 2 ^ 32
   \<Longrightarrow> writable m (esp - 4 * length qs) (4 * length qs)
   \<Longrightarrow> address + 4 * length qs \<le> esp - 4 * length qs \<or> esp \<le> address
   \<Longrightarrow> push_args m address esp (length qs)
     = Some (put m (esp - 4 * length qs) (concat (map le32 qs)), esp - 4 * length qs)"
proof (induction qs arbitrary: m esp rule: rev_induct)
  case Nil
  then show ?case by simp
next
  case (snoc q qs)
  note p = snoc.prems
  define e where "e = esp - 4"
  define b where "b = e - 4 * length qs"
  have e: "esp = e + 4" "4 * length qs \<le> e" "e = b + 4 * length qs" "esp - 4 * length (qs @ [q]) = b"
    using p(2) by (auto simp: e_def b_def)
  define m1 where "m1 = put m e (le32 q)"
  have ld: "ld32 m (address + 4 * length qs) = Some q"
    using words_nth [OF p(1), of "length qs"] by simp
  have st: "st32 m e q = Some m1"
    unfolding m1_def by (rule st32_ok, rule writable_mono [OF p(4)]) (use e in auto)
  have "words m address qs" using p(1) by (simp add: words_snoc)
  then have w: "words m1 address qs"
    unfolding m1_def by (rule words_same) (rule same_put, use p(5) e in auto)
  have "writable m1 b (4 * length qs)"
    unfolding m1_def b_def by (rule writable_put, rule writable_mono [OF p(4)]) (use e in auto)
  then have ih: "push_args m1 address e (length qs) = Some (put m1 b (concat (map le32 qs)), b)"
    using snoc.IH [OF w, of e] p(3,5) e unfolding b_def by auto
  have pt: "put m1 b (concat (map le32 qs)) = put m b (concat (map le32 (qs @ [q])))"
    unfolding m1_def using e(3) put_below [of m b "concat (map le32 qs)" "le32 q"] by simp
  have sub: "ptr_sub esp 4 = e" using ptr_sub_ok [of 4 esp] p(3) e(1) by simp
  have "push_args m address esp (length (qs @ [q])) = push_args m1 address e (length qs)"
    using ld st by (simp only: length_append_singleton push_args.simps Let_def sub Option.bind.bind_lunit)
  then show ?case unfolding e(4) pt [symmetric] ih .
qed

definition word_align :: "nat \<Rightarrow> nat" where
  "word_align n = (4 - n mod 4) mod 4"

lemma word_align_alt: "word_align n = (if n mod 4 \<noteq> 0 then 4 - n mod 4 else 0)"
  by (cases "n mod 4 = 0") (simp_all add: word_align_def)

lemma word_align_mod: "(n + word_align n) mod 4 = 0"
proof (cases "n mod 4 = 0")
  case True
  then show ?thesis by (simp add: word_align_alt)
next
  case False
  define q r where "q = n div 4" and "r = n mod 4"
  have "n = 4 * q + r" "r < 4" by (simp_all add: q_def r_def)
  then have "n + (4 - r) = 4 * (q + 1)" by simp
  with False show ?thesis by (simp add: word_align_alt r_def)
qed

lemma word_align_int:
  "(if int n smod 4 \<noteq> 0 then 4 - int n smod 4 else 0) = int (word_align n)"
proof -
  have "int n smod 4 = int (n mod 4)"
    by (cases "n = 0") (simp_all add: signed_modulo_int_def zmod_int)
  then show ?thesis by (simp add: word_align_alt of_nat_diff)
qed

text \<open>The size of the whole initial stack, and what stands at its lower end: the return
  address 0, argc, the address of argv, argv itself and its null pointer.\<close>

definition stack_size :: "byte list list \<Rightarrow> nat" where
  "stack_size as = args_size as + word_align (args_size as) + 4 * (length as + 4)"

definition arg_frame :: "nat \<Rightarrow> nat list \<Rightarrow> nat list" where
  "arg_frame esp qs = [0, length qs, esp + 12] @ qs @ [0]"

lemma set_stack_ok:
  assumes ps: "words m argv ps" and l: "list_all2 (arg_at m lo hi) ps as" and n: "n = length as"
    and sz: "stack_size as < esp" and e: "esp < 2 ^ 32" and sm: "args_size as < 2 ^ 31"
    and low: "low = esp - stack_size as" and w: "writable m low (stack_size as)" and wa: "writable m address (4 * n)"
    and d: "hi \<le> low \<or> esp \<le> lo" "argv + 4 * n \<le> low \<or> esp \<le> argv"
      "address + 4 * n \<le> low \<or> esp \<le> address" "address + 4 * n \<le> lo \<or> hi \<le> address"
      "address + 4 * n \<le> argv \<or> argv + 4 * n \<le> address"
  shows "\<exists>qs m'. set_stack m n argv esp address = Some (low, m') \<and> words m' low (arg_frame low qs)
    \<and> list_all2 (arg_at m' low esp) qs as
    \<and> (\<forall>a. (a < low \<or> esp \<le> a) \<longrightarrow> (a < address \<or> address + 4 * n \<le> a) \<longrightarrow> m' a = m a)"
proof -
  have size: "esp - low = stack_size as" "low + stack_size as = esp" "0 < low" using low sz by auto
  have s1: "low + args_size as \<le> esp" using size by (auto simp: stack_size_def)
  obtain qs m1 where c: "copy_args m argv address esp 0 n = Some (m1, esp - args_size as, int (args_size as))"
      "words m1 address qs" "list_all2 (arg_at m1 (esp - args_size as) esp) qs as"
    and fr: "\<And>a. a < esp - args_size as \<or> esp \<le> a \<Longrightarrow> a < address \<or> address + 4 * n \<le> a \<Longrightarrow> m1 a = m a"
    using copy_args_ok [OF ps l n s1 e size(3) _ _ _ wa d, of 0] sm w size(1) by auto
  have lq: "length qs = n" using list_all2_lengthD [OF c(3)] n by simp
  define e1 where "e1 = low + 4 * (n + 4)"
  have e1: "esp - args_size as - word_align (args_size as) = e1" "e1 < 2 ^ 32" "e1 + word_align (args_size as) \<le> esp - args_size as"
    using size(2) e n by (auto simp: e1_def stack_size_def)
  have al: "ptr_sub (esp - args_size as) (int (word_align (args_size as))) = e1"
    using ptr_sub_ok [of "word_align (args_size as)" "esp - args_size as"] e e1 by simp
  have w1: "writable m1 low (4 * (n + 4))"
  proof -
    have "writable m low (4 * (n + 4))" by (rule writable_mono [OF w]) (use n in \<open>auto simp: stack_size_def\<close>)
    moreover have "m1 a = m a" if "low \<le> a" "a < low + 4 * (n + 4)" for a
      by (rule fr) (use that d(3) e1 in \<open>auto simp: e1_def\<close>)
    ultimately show ?thesis by (simp add: writable_def)
  qed
  have wi: "writable m'' q k" if "writable m'' low (4 * (n + 4))" "low \<le> q" "q + k \<le> e1" for m'' q k
    by (rule writable_mono [OF that(1)]) (use that in \<open>auto simp: e1_def\<close>)
  define m2 where "m2 = put m1 (e1 - 4) (le32 0)"
  have p1: "push32 0 m1 e1 = Some (m2, e1 - 4)"
    unfolding m2_def by (rule push32_ok) (use e1(2) wi [OF w1, of "e1 - 4" 4] in \<open>simp_all add: e1_def\<close>)
  have w2: "writable m2 low (4 * (n + 4))" unfolding m2_def by (rule writable_put [OF w1])
  have ws2: "words m2 address qs"
    unfolding m2_def by (rule words_same [OF c(2)]) (rule same_put, use d(3) lq e1 in \<open>auto simp: e1_def\<close>)
  define m3 where "m3 = put m2 (low + 12) (concat (map le32 qs))"
  have b3: "e1 - 4 - 4 * length qs = low + 12" by (simp add: e1_def lq)
  have p2: "push_args m2 address (e1 - 4) n = Some (m3, low + 12)"
  proof -
    have "address + 4 * length qs \<le> e1 - 4 - 4 * length qs \<or> e1 - 4 \<le> address"
    proof -
      have "e1 \<le> esp" using e1(1) by linarith
      then show ?thesis using d(3) b3 by (auto simp: lq)
    qed
    moreover have "writable m2 (e1 - 4 - 4 * length qs) (4 * length qs)"
      unfolding b3 by (rule wi [OF w2]) (simp_all add: e1_def lq)
    ultimately show ?thesis
      using push_args_ok [OF ws2, of "e1 - 4"] e1(2) unfolding m3_def b3 by (simp add: e1_def lq)
  qed
  have w3: "writable m3 low (4 * (n + 4))" unfolding m3_def by (rule writable_put [OF w2])
  define m4 where "m4 = put m3 (low + 8) (le32 (low + 12))"
  have p3: "push32 (low + 12) m3 (low + 12) = Some (m4, low + 8)"
    using push32_ok [of "low + 12" "low + 8" m3 "low + 12"] e1(2) wi [OF w3, of "low + 8" 4] by (simp add: m4_def e1_def)
  have w4: "writable m4 low (4 * (n + 4))" unfolding m4_def by (rule writable_put [OF w3])
  define m5 where "m5 = put m4 (low + 4) (le32 n)"
  have p4: "push32 n m4 (low + 8) = Some (m5, low + 4)"
    using push32_ok [of "low + 8" "low + 4" m4 n] e1(2) wi [OF w4, of "low + 4" 4] by (simp add: m5_def e1_def)
  have w5: "writable m5 low (4 * (n + 4))" unfolding m5_def by (rule writable_put [OF w4])
  define m6 where "m6 = put m5 low (le32 0)"
  have p5: "push32 0 m5 (low + 4) = Some (m6, low)"
    using push32_ok [of "low + 4" "low" m5 0] e1(2) wi [OF w5, of low 4] by (simp add: m6_def e1_def)
  have "set_stack m n argv esp address = Some (low, m6)"
    unfolding set_stack_def using c(1) p1 p2 p3 p4 p5 al
    by (simp add: word_align_int Let_def)
  moreover have m6: "m6 = put m1 low (concat (map le32 (arg_frame low qs)))"
  proof -
    have "m3 = put m1 (low + 12) (concat (map le32 (qs @ [0])))"
      using put_below [of m1 "low + 12" "concat (map le32 qs)" "le32 0"]
      by (simp add: m3_def m2_def lq e1_def algebra_simps)
    then have "m4 = put m1 (low + 8) (concat (map le32 ((low + 12) # qs @ [0])))"
      using put_below [of m1 "low + 8" "le32 (low + 12)" "concat (map le32 (qs @ [0]))"]
      by (simp add: m4_def algebra_simps)
    then have "m5 = put m1 (low + 4) (concat (map le32 (n # (low + 12) # qs @ [0])))"
      using put_below [of m1 "low + 4" "le32 n" "concat (map le32 ((low + 12) # qs @ [0]))"]
      by (simp add: m5_def algebra_simps)
    then show ?thesis
      using put_below [of m1 low "le32 0" "concat (map le32 (n # (low + 12) # qs @ [0]))"]
      by (simp add: m6_def arg_frame_def lq algebra_simps)
  qed
  moreover have len: "length (concat (map le32 (arg_frame low qs))) = 4 * (n + 4)"
    by (simp only: words_length) (simp add: arg_frame_def lq)
  have frm: "m6 a = m1 a" if "a < low \<or> e1 \<le> a" for a
    using that unfolding m6 put_nth len e1_def by auto
  have "\<forall>q \<in> set qs. q < 2 ^ 32" using c(2) by (simp add: words_def)
  then have "words m6 low (arg_frame low qs)"
  proof -
    have "\<forall>q \<in> set (arg_frame low qs). q < 2 ^ 32"
      using \<open>\<forall>q \<in> set qs. q < 2 ^ 32\<close> e1(2) lq by (auto simp: arg_frame_def e1_def)
    moreover have "blk m6 low (concat (map le32 (arg_frame low qs)))" unfolding m6 by (rule blk_put)
    ultimately show ?thesis by (simp add: words_def)
  qed
  moreover have "list_all2 (arg_at m6 low esp) qs as"
  proof (rule list_all2_mono [OF c(3)])
    fix x y
    assume a: "arg_at m1 (esp - args_size as) esp x y"
    then have "same m1 m6 x (length y + 1)"
      unfolding same_def using e1(3) by (intro allI impI frm) (auto simp: arg_at_def)
    with a show "arg_at m6 low esp x y"
      using s1 by (auto simp: arg_at_def elim: cstr_same)
  qed
  moreover have "m6 a = m a" if "a < low \<or> esp \<le> a" "a < address \<or> address + 4 * n \<le> a" for a
    using frm [of a] fr [of a] that e1(1,3) s1 by (auto simp: e1_def)
  ultimately show ?thesis by blast
qed

section \<open>The program name\<close>

definition stops :: "byte set" where
  "stops = {10, 32, 0}"

lemma get_command_loop_ok:
  "blk m (f + i) (cs @ [c]) \<Longrightarrow> set cs \<inter> stops = {} \<Longrightarrow> c \<in> stops
   \<Longrightarrow> writable m (b + i) (length cs + 1) \<Longrightarrow> b + i + length cs < f + i \<or> f + i + length cs < b + i
   \<Longrightarrow> get_command_loop m f b i = Some (put m (b + i) (cs @ [0]))"
proof (induction cs arbitrary: m i)
  case Nil
  then show ?case by (auto simp: get_command_loop.simps [of m] stops_def wr_def simp del: fun_upd_apply)
next
  case (Cons x cs)
  let ?m = "m(b + i \<mapsto> x)"
  have x: "m (f + i) = Some x" "x \<notin> stops" using Cons.prems by auto
  have w: "m (b + i) \<noteq> None" "writable ?m (b + Suc i) (length cs + 1)"
    using Cons.prems(4) by (auto intro: writable_upd)
  have "blk ?m (f + Suc i) (cs @ [c])"
    using Cons.prems(1,5) by (intro blk_upd) auto
  then have "get_command_loop ?m f b (Suc i) = Some (put ?m (b + Suc i) (cs @ [0]))"
    using Cons.prems w by (intro Cons.IH) (auto simp del: fun_upd_apply writable_Suc)
  with x w(1) show ?case
    by (simp add: get_command_loop.simps [of m] stops_def wr_ok del: fun_upd_apply)
qed

lemma get_command_ok:
  assumes "blk m f (cs @ [c])" and "set cs \<inter> stops = {}" and "c \<in> stops"
    and "writable m b (length cs + 1)" and "b + length cs < f \<or> f + length cs < b"
  shows "get_command m f b = Some (b, put m b (cs @ [0]))"
  using get_command_loop_ok [of m f 0 cs c b] assms by (simp add: get_command_def)

text \<open>The buffer has 128 bytes and the loop does not count: a longer name runs over its end.\<close>

lemma get_command_overruns:
  "blk m (f + i) cs \<Longrightarrow> set cs \<inter> stops = {} \<Longrightarrow> cs \<noteq> [] \<Longrightarrow> m (b + i + (length cs - 1)) = None
   \<Longrightarrow> b + i + (length cs - 1) < f + i \<or> f + i + (length cs - 1) < b + i
   \<Longrightarrow> get_command_loop m f b i = None"
proof (induction cs arbitrary: m i)
  case Nil
  then show ?case by simp
next
  case (Cons x cs)
  let ?m = "m(b + i \<mapsto> x)"
  have x: "m (f + i) = Some x" "x \<notin> stops" using Cons.prems by auto
  show ?case
  proof (cases "m (b + i) = None \<or> cs = []")
    case True
    with x Cons.prems(4) show ?thesis
      by (auto simp: get_command_loop.simps [of m] stops_def wr_def)
  next
    case False
    then have l: "b + Suc i + (length cs - 1) = b + i + length cs" "f + Suc i + (length cs - 1) = f + i + length cs"
      by (cases cs; simp)+
    have "blk ?m (f + Suc i) cs" using Cons.prems(1,5) by (intro blk_upd) auto
    moreover have "?m (b + Suc i + (length cs - 1)) = None" unfolding l using Cons.prems(4) False by auto
    ultimately have "get_command_loop ?m f b (Suc i) = None"
      by (intro Cons.IH) (use Cons.prems(2,5) False in \<open>auto simp: l simp del: fun_upd_apply\<close>)
    with x False show ?thesis
      by (simp add: get_command_loop.simps [of m] stops_def wr_ok del: fun_upd_apply)
  qed
qed

section \<open>The property\<close>

text \<open>Regions given by their addresses and sizes that do not overlap.\<close>

fun apart :: "(nat \<times> nat) list \<Rightarrow> bool" where
  "apart [] \<longleftrightarrow> True"
| "apart ((p, n) # rs) \<longleftrightarrow> (\<forall>(q, k) \<in> set rs. p + n \<le> q \<or> q + k \<le> p) \<and> apart rs"

text \<open>C24: the command line is split at spaces and handed over as the C convention has it: the
  program starts with a word-aligned stack pointer at a return address 0, argc, the address of
  argv and the array argv with its null pointer, whose pointers lead to the words of the command
  line, each null-terminated and inside the stack; nothing but the buffers is changed.\<close>

theorem command_line_on_stack:
  fixes cs :: "byte list"
  defines "args \<equiv> tokens {32} cs"
  assumes line: "cstr m f cs" and space: "cstr m d [32]" and fits: "stack_size args \<le> PGSIZE"
    and argv: "writable m argv (4 * length args)" and address: "writable m address (4 * length args)"
    and stack: "writable m (PHYS_BASE - PGSIZE) PGSIZE" and top: "f + length cs < PHYS_BASE"
    and sep: "apart [(f, length cs + 1), (d, 2), (argv, 4 * length args), (address, 4 * length args),
                     (PHYS_BASE - PGSIZE, PGSIZE)]"
  shows "\<exists>m1 m2 qs. set_argv m f argv d = Some (length args, m1)
    \<and> set_stack m1 (length args) argv PHYS_BASE address = Some (PHYS_BASE - stack_size args, m2)
    \<and> words m2 (PHYS_BASE - stack_size args) ([0, length args, PHYS_BASE - stack_size args + 12] @ qs @ [0])
    \<and> list_all2 (cstr m2) qs args
    \<and> (\<forall>q \<in> set qs. PHYS_BASE - stack_size args \<le> q \<and> q < PHYS_BASE)
    \<and> (PHYS_BASE - stack_size args) mod 4 = 0
    \<and> (\<forall>a. (\<forall>(p, n) \<in> {(f, length cs), (argv, 4 * length args), (address, 4 * length args),
              (PHYS_BASE - PGSIZE, PGSIZE)}. a < p \<or> p + n \<le> a) \<longrightarrow> m2 a = m a)"
proof -
  let ?n = "length args" and ?low = "PHYS_BASE - stack_size args"
  have pos: "0 < PHYS_BASE" "PGSIZE < PHYS_BASE" "PHYS_BASE < 2 ^ 32" "PGSIZE < 2 ^ 31" "PHYS_BASE mod 4 = 0"
    by (simp_all add: PHYS_BASE_def PGSIZE_def)
  have szs: "args_size args \<le> stack_size args" "4 * 4 \<le> stack_size args" by (auto simp: stack_size_def)
  have len: "?n = length (tokens (set [32]) cs)" by (simp add: args_def)
  have toks: "tokens (set [32]) cs = args" by (simp add: args_def)
  let ?S = "PHYS_BASE - PGSIZE"
  have sp: "f + (length cs + 1) \<le> d \<or> d + 2 \<le> f" "f + (length cs + 1) \<le> argv \<or> argv + 4 * ?n \<le> f"
    "f + (length cs + 1) \<le> address \<or> address + 4 * ?n \<le> f" "f + (length cs + 1) \<le> ?S \<or> ?S + PGSIZE \<le> f"
    "d + 2 \<le> argv \<or> argv + 4 * ?n \<le> d"
    "argv + 4 * ?n \<le> address \<or> address + 4 * ?n \<le> argv" "argv + 4 * ?n \<le> ?S \<or> ?S + PGSIZE \<le> argv"
    "address + 4 * ?n \<le> ?S \<or> ?S + PGSIZE \<le> address"
    using sep unfolding apart.simps list.set by blast+
  have Sb: "?S + PGSIZE = PHYS_BASE" using pos(2) by simp
  have s1: "d + length [32 :: byte] < f \<or> f + length cs < d" "argv + 4 * ?n \<le> f \<or> f + length cs < argv"
    "argv + 4 * ?n \<le> d \<or> d + length [32 :: byte] < argv" "f + length cs < 2 ^ 32"
    using sp(1,2,5) top pos(3) by auto
  obtain ps m1 where a: "set_argv m f argv d = Some (?n, m1)" "words m1 argv ps"
      "list_all2 (arg_at m1 f (f + length cs + 1)) ps args"
    and fr1: "\<And>a. a < argv \<or> argv + 4 * ?n \<le> a \<Longrightarrow> a < f \<or> f + length cs \<le> a \<Longrightarrow> m1 a = m a"
    using set_argv_ok [OF line space s1(4,1) len argv s1(2,3)] unfolding toks by blast
  have lps: "length ps = ?n" using a(3) by (rule list_all2_lengthD)
  have lowle: "PHYS_BASE - PGSIZE \<le> ?low" using fits by simp
  have st: "writable m1 ?low (stack_size args)"
  proof -
    have "writable m ?low (stack_size args)"
      by (rule writable_mono [OF stack]) (use fits pos(2) in auto)
    moreover have "m1 a = m a" if "?low \<le> a" "a < ?low + stack_size args" for a
      by (rule fr1) (use that sp(4,7) Sb lowle fits in auto)
    ultimately show ?thesis by (simp add: writable_def)
  qed
  have ad: "writable m1 address (4 * ?n)"
  proof -
    have "m1 a = m a" if "address \<le> a" "a < address + 4 * ?n" for a
      by (rule fr1) (use that sp(3,6) in auto)
    with address show ?thesis by (simp add: writable_def)
  qed
  have o: "f + length cs + 1 \<le> ?low \<or> PHYS_BASE \<le> f" "argv + 4 * ?n \<le> ?low \<or> PHYS_BASE \<le> argv"
    "address + 4 * ?n \<le> ?low \<or> PHYS_BASE \<le> address" "address + 4 * ?n \<le> f \<or> f + length cs + 1 \<le> address"
    "address + 4 * ?n \<le> argv \<or> argv + 4 * ?n \<le> address"
    using sp(3,4,6-8) Sb lowle by linarith+
  have s2: "stack_size args < PHYS_BASE" "args_size args < 2 ^ 31" using szs fits pos by auto
  obtain qs m2 where s: "set_stack m1 ?n argv PHYS_BASE address = Some (?low, m2)"
      "words m2 ?low (arg_frame ?low qs)" "list_all2 (arg_at m2 ?low PHYS_BASE) qs args"
    and fr2: "\<And>a. a < ?low \<or> PHYS_BASE \<le> a \<Longrightarrow> a < address \<or> address + 4 * ?n \<le> a \<Longrightarrow> m2 a = m1 a"
    using set_stack_ok [OF a(2,3) refl s2(1) pos(3) s2(2) refl st ad o] by blast
  have lqs: "length qs = ?n" using s(3) by (rule list_all2_lengthD)
  have qs: "list_all2 (cstr m2) qs args"
    by (rule list_all2_mono [OF s(3)]) (simp add: arg_at_def)
  have rng: "\<forall>q \<in> set qs. ?low \<le> q \<and> q < PHYS_BASE"
  proof
    fix q
    assume "q \<in> set qs"
    then obtain i where "i < length qs" "q = qs ! i" by (auto simp: in_set_conv_nth)
    then have "arg_at m2 ?low PHYS_BASE q (args ! i)" using list_all2_nthD [OF s(3)] by blast
    then show "?low \<le> q \<and> q < PHYS_BASE" by (simp add: arg_at_def)
  qed
  have al: "?low mod 4 = 0"
  proof -
    have "4 dvd stack_size args"
      using dvd_add [of 4 "args_size args + word_align (args_size args)" "4 * (length args + 4)"]
        word_align_mod [of "args_size args"] by (simp add: stack_size_def mod_eq_0_iff_dvd)
    moreover have "4 dvd PHYS_BASE" using pos(5) by (simp only: mod_eq_0_iff_dvd)
    ultimately have "4 dvd ?low" by (intro dvd_diff_nat)
    then show ?thesis by (simp only: mod_eq_0_iff_dvd)
  qed
  have frm: "m2 a = m a" if "\<forall>(p, n) \<in> {(f, length cs), (argv, 4 * ?n), (address, 4 * ?n), (PHYS_BASE - PGSIZE, PGSIZE)}.
      a < p \<or> p + n \<le> a" for a
  proof -
    have r: "a < f \<or> f + length cs \<le> a" "a < argv \<or> argv + 4 * ?n \<le> a" "a < address \<or> address + 4 * ?n \<le> a"
      "a < ?S \<or> ?S + PGSIZE \<le> a" using that by simp_all
    have "m2 a = m1 a" by (rule fr2) (use r lowle Sb in linarith)+
    also have "\<dots> = m a" by (rule fr1 [OF r(2,1)])
    finally show ?thesis .
  qed
  show ?thesis
    by (intro exI [of _ m1] exI [of _ m2] exI [of _ qs] conjI allI impI)
      (fact a(1), fact s(1), fact s(2) [unfolded arg_frame_def lqs], fact qs, fact rng, fact al, erule frm)
qed

definition demo_args :: mem where
  "demo_args = put (put (\<lambda>_. Some 0) 4096 [101, 99, 104, 111, 32, 32, 120, 0]) 8192 [32, 0]"

theorem command_line_on_stack_witness:
  "\<exists>m1 m2 a b. set_argv demo_args 4096 12288 8192 = Some (2, m1)
    \<and> set_stack m1 2 12288 PHYS_BASE 16384 = Some (0xbfffffe0, m2)
    \<and> words m2 0xbfffffe0 [0, 2, 0xbfffffec, a, b, 0]
    \<and> cstr m2 a [101, 99, 104, 111] \<and> cstr m2 b [120]"
proof -
  have t: "tokens {32} [101, 99, 104, 111, 32, 32, 120] = [[101, 99, 104, 111], [120]]"
    by (simp add: tokens.simps first_token_def after_token_def)
  have sz: "stack_size [[101, 99, 104, 111], [120]] = 32"
    by (simp add: stack_size_def args_size_def word_align_def)
  have w: "writable demo_args p n" for p n
    by (auto simp: writable_def demo_args_def put_nth)
  have "blk demo_args 8192 [32, 0]" unfolding demo_args_def by (rule blk_put)
  then have d: "cstr demo_args 8192 [32]" by (simp add: cstr_def)
  have "blk demo_args 4096 [101, 99, 104, 111, 32, 32, 120, 0]"
    unfolding demo_args_def by (rule blk_put_other) simp_all
  then have f: "cstr demo_args 4096 [101, 99, 104, 111, 32, 32, 120]" by (simp add: cstr_def)
  have "\<exists>m1 m2 qs. set_argv demo_args 4096 12288 8192 = Some (2, m1)
    \<and> set_stack m1 2 12288 PHYS_BASE 16384 = Some (0xbfffffe0, m2)
    \<and> words m2 0xbfffffe0 ([0, 2, 0xbfffffec] @ qs @ [0])
    \<and> list_all2 (cstr m2) qs [[101, 99, 104, 111], [120]]"
    using command_line_on_stack [OF f d, of 12288 16384] w
    by (simp add: t sz PGSIZE_def PHYS_BASE_def numeral_2_eq_2) blast
  then obtain m1 m2 qs where r: "set_argv demo_args 4096 12288 8192 = Some (2, m1)"
    "set_stack m1 2 12288 PHYS_BASE 16384 = Some (0xbfffffe0, m2)"
    "words m2 0xbfffffe0 ([0, 2, 0xbfffffec] @ qs @ [0])"
    "list_all2 (cstr m2) qs [[101, 99, 104, 111], [120]]" by blast
  from r(4) obtain a b where "qs = [a, b]" "cstr m2 a [101, 99, 104, 111]" "cstr m2 b [120]"
    by (auto simp: list_all2_Cons2)
  with r(1-3) show ?thesis by (intro exI [of _ m1] exI [of _ m2] exI [of _ a] exI [of _ b]) simp
qed

end
