(* ===== verification/KStdlib.thy ===== *)
theory KStdlib
  imports KString "HOL-Library.Multiset"
begin

text \<open>
  lib/ctype.h and lib/stdlib.c: the character classes, atoi, the heap sort behind qsort and
  sort, and the binary search behind bsearch.  An array of cnt elements is the list of its
  elements, each of them a block of bytes for the code; an access outside it is None.
  \<open>size_t\<close> arithmetic wraps at 2 ^ 32.  The comparison function is an argument; the locale
  \<open>comparator\<close> holds what the comment at sort asks of it, and strcmp's order satisfies it.
\<close>

section \<open>Character classes\<close>

definition islower :: "int \<Rightarrow> bool" where "islower c \<longleftrightarrow> c \<ge> 97 \<and> c \<le> 122"
definition isupper :: "int \<Rightarrow> bool" where "isupper c \<longleftrightarrow> c \<ge> 65 \<and> c \<le> 90"
definition isalpha :: "int \<Rightarrow> bool" where "isalpha c \<longleftrightarrow> islower c \<or> isupper c"
definition isdigit :: "int \<Rightarrow> bool" where "isdigit c \<longleftrightarrow> c \<ge> 48 \<and> c \<le> 57"
definition isalnum :: "int \<Rightarrow> bool" where "isalnum c \<longleftrightarrow> isalpha c \<or> isdigit c"
definition isxdigit :: "int \<Rightarrow> bool" where
  "isxdigit c \<longleftrightarrow> isdigit c \<or> c \<ge> 97 \<and> c \<le> 102 \<or> c \<ge> 65 \<and> c \<le> 70"
definition isspace :: "int \<Rightarrow> bool" where "isspace c \<longleftrightarrow> c = 32 \<or> c = 12 \<or> c = 10 \<or> c = 13 \<or> c = 9 \<or> c = 11"
definition isblank :: "int \<Rightarrow> bool" where "isblank c \<longleftrightarrow> c = 32 \<or> c = 9"
definition isgraph :: "int \<Rightarrow> bool" where "isgraph c \<longleftrightarrow> c > 32 \<and> c < 127"
definition isprint :: "int \<Rightarrow> bool" where "isprint c \<longleftrightarrow> c \<ge> 32 \<and> c < 127"
definition iscntrl :: "int \<Rightarrow> bool" where "iscntrl c \<longleftrightarrow> c \<ge> 0 \<and> c < 32 \<or> c = 127"
definition isascii :: "int \<Rightarrow> bool" where "isascii c \<longleftrightarrow> c \<ge> 0 \<and> c < 128"
definition ispunct :: "int \<Rightarrow> bool" where "ispunct c \<longleftrightarrow> isprint c \<and> \<not> isalnum c \<and> \<not> isspace c"
definition tolower :: "int \<Rightarrow> int" where "tolower c = (if isupper c then c - 65 + 97 else c)"
definition toupper :: "int \<Rightarrow> int" where "toupper c = (if islower c then c - 97 + 65 else c)"

section \<open>atoi\<close>

text \<open>A char is signed; isspace is applied to the unsigned byte.\<close>

partial_function (option) skip_space :: "mem \<Rightarrow> nat \<Rightarrow> nat option" where
  "skip_space m s = do {
     c \<leftarrow> m s;
     (if isspace (uint c) then skip_space m (s + 1) else Some s)
   }"

partial_function (option) atoi_digits :: "mem \<Rightarrow> nat \<Rightarrow> int \<Rightarrow> int option" where
  "atoi_digits m s v = do {
     c \<leftarrow> m s;
     (if isdigit (sint c) then atoi_digits m (s + 1) (wrap32 (wrap32 (v * 10) - (sint c - 48))) else Some v)
   }"

definition atoi :: "mem \<Rightarrow> nat \<Rightarrow> int option" where
  "atoi m s = do {
     ASSERT (s \<noteq> 0);
     s \<leftarrow> skip_space m s;
     c \<leftarrow> m s;
     let (negative, s) = (if c = 43 then (False, s + 1) else if c = 45 then (True, s + 1) else (False, s));
     v \<leftarrow> atoi_digits m s 0;
     Some (if \<not> negative then wrap32 (- v) else v)
   }"

section \<open>Sorting\<close>

text \<open>Element indexes are 1-based in the helper functions.\<close>

definition do_swap :: "'a list \<Rightarrow> nat \<Rightarrow> nat \<Rightarrow> 'a list option" where
  "do_swap xs a b =
     (if 1 \<le> a \<and> a \<le> length xs \<and> 1 \<le> b \<and> b \<le> length xs
      then Some (xs[a - 1 := xs ! (b - 1), b - 1 := xs ! (a - 1)]) else None)"

definition do_compare :: "('a \<Rightarrow> 'a \<Rightarrow> int) \<Rightarrow> 'a list \<Rightarrow> nat \<Rightarrow> nat \<Rightarrow> int option" where
  "do_compare compare xs a b =
     (if 1 \<le> a \<and> a \<le> length xs \<and> 1 \<le> b \<and> b \<le> length xs
      then Some (compare (xs ! (a - 1)) (xs ! (b - 1))) else None)"

definition larger :: "('a \<Rightarrow> 'a \<Rightarrow> int) \<Rightarrow> 'a list \<Rightarrow> nat \<Rightarrow> nat \<Rightarrow> nat \<Rightarrow> nat option" where
  "larger compare xs cnt child mx =
     (if child \<le> cnt then do { c \<leftarrow> do_compare compare xs child mx; Some (if c > 0 then child else mx) }
      else Some mx)"

partial_function (option) heapify :: "('a \<Rightarrow> 'a \<Rightarrow> int) \<Rightarrow> 'a list \<Rightarrow> nat \<Rightarrow> nat \<Rightarrow> 'a list option" where
  "heapify compare xs i cnt = do {
     mx \<leftarrow> larger compare xs cnt (2 * i mod 2 ^ 32) i;
     mx \<leftarrow> larger compare xs cnt ((2 * i + 1) mod 2 ^ 32) mx;
     (if mx = i then Some xs
      else do {
        xs \<leftarrow> do_swap xs i mx;
        heapify compare xs mx cnt
      })
   }"

fun build_heap :: "('a \<Rightarrow> 'a \<Rightarrow> int) \<Rightarrow> 'a list \<Rightarrow> nat \<Rightarrow> nat \<Rightarrow> 'a list option" where
  "build_heap compare xs cnt 0 = Some xs"
| "build_heap compare xs cnt (Suc i) = do {
     xs \<leftarrow> heapify compare xs (Suc i) cnt;
     build_heap compare xs cnt i
   }"

fun sort_heap :: "('a \<Rightarrow> 'a \<Rightarrow> int) \<Rightarrow> 'a list \<Rightarrow> nat \<Rightarrow> 'a list option" where
  "sort_heap compare xs 0 = Some xs"
| "sort_heap compare xs (Suc 0) = Some xs"
| "sort_heap compare xs (Suc (Suc i)) = do {
     xs \<leftarrow> do_swap xs 1 (Suc (Suc i));
     xs \<leftarrow> heapify compare xs 1 (Suc i);
     sort_heap compare xs (Suc i)
   }"

definition sort_array :: "'a list \<Rightarrow> nat \<Rightarrow> ('a \<Rightarrow> 'a \<Rightarrow> int) \<Rightarrow> 'a list option" where
  "sort_array xs cnt compare = do {
     xs \<leftarrow> build_heap compare xs cnt (cnt div 2);
     sort_heap compare xs cnt
   }"

definition qsort :: "'a list \<Rightarrow> nat \<Rightarrow> ('a \<Rightarrow> 'a \<Rightarrow> int) \<Rightarrow> 'a list option" where
  "qsort xs cnt compare = sort_array xs cnt compare"

section \<open>Searching\<close>

text \<open>The pointers first and last are element indexes; the result is the index of a match.\<close>

function search_loop :: "'k \<Rightarrow> 'a list \<Rightarrow> ('k \<Rightarrow> 'a \<Rightarrow> int) \<Rightarrow> nat \<Rightarrow> nat \<Rightarrow> nat option option" where
  "search_loop key xs compare lo hi =
     (if lo < hi then
        (let middle = lo + (hi - lo) div 2
         in if middle \<ge> length xs then None
            else (let c = compare key (xs ! middle)
                  in if c < 0 then search_loop key xs compare lo middle
                     else if c > 0 then search_loop key xs compare (middle + 1) hi
                     else Some (Some middle)))
      else Some None)"
  by pat_completeness auto
termination
  by (relation "measure (\<lambda>(key, xs, compare, lo, hi). hi - lo)") auto

definition binary_search :: "'k \<Rightarrow> 'a list \<Rightarrow> nat \<Rightarrow> ('k \<Rightarrow> 'a \<Rightarrow> int) \<Rightarrow> nat option option" where
  "binary_search key xs cnt compare = search_loop key xs compare 0 cnt"

definition bsearch :: "'k \<Rightarrow> 'a list \<Rightarrow> nat \<Rightarrow> ('k \<Rightarrow> 'a \<Rightarrow> int) \<Rightarrow> nat option option" where
  "bsearch key xs cnt compare = binary_search key xs cnt compare"

declare search_loop.simps [simp del]

section \<open>The order a comparison function stands for\<close>

locale comparator =
  fixes compare :: "'a \<Rightarrow> 'a \<Rightarrow> int"
  assumes flip: "compare a b < 0 \<longleftrightarrow> compare b a > 0"
    and trans: "compare a b \<le> 0 \<Longrightarrow> compare b c \<le> 0 \<Longrightarrow> compare a c \<le> 0"
begin

definition le :: "'a \<Rightarrow> 'a \<Rightarrow> bool" where
  "le a b \<longleftrightarrow> compare a b \<le> 0"

lemma le_total: "le a b \<or> le b a"
  using flip [of a b] flip [of b a] unfolding le_def by linarith

lemma le_refl [simp]: "le a a"
  using le_total by blast

lemma le_trans: "le a b \<Longrightarrow> le b c \<Longrightarrow> le a c"
  unfolding le_def by (rule trans)

lemma not_gt: "\<not> compare a b > 0 \<longleftrightarrow> le a b"
  by (auto simp: le_def)

lemma gt_le: "compare a b > 0 \<Longrightarrow> le b a"
  using flip [of b a] by (simp add: le_def)

text \<open>Elements by 1-based index; a heap on the first n elements, for the parents from lo on;
  and a heap but for the children of i.\<close>

definition at :: "'a list \<Rightarrow> nat \<Rightarrow> 'a" where
  "at xs i = xs ! (i - 1)"

definition heap_from :: "'a list \<Rightarrow> nat \<Rightarrow> nat \<Rightarrow> bool" where
  "heap_from xs n lo \<longleftrightarrow> (\<forall>j. 2 \<le> j \<longrightarrow> j \<le> n \<longrightarrow> lo \<le> j div 2 \<longrightarrow> le (at xs j) (at xs (j div 2)))"

definition heap_but :: "'a list \<Rightarrow> nat \<Rightarrow> nat \<Rightarrow> nat \<Rightarrow> bool" where
  "heap_but xs n lo i \<longleftrightarrow>
     (\<forall>j. 2 \<le> j \<longrightarrow> j \<le> n \<longrightarrow> lo \<le> j div 2 \<longrightarrow> j div 2 \<noteq> i \<longrightarrow> le (at xs j) (at xs (j div 2))) \<and>
     (\<forall>j. 2 \<le> j \<longrightarrow> j \<le> n \<longrightarrow> j div 2 = i \<longrightarrow> 2 \<le> i \<longrightarrow> lo \<le> i div 2 \<longrightarrow> le (at xs j) (at xs (i div 2)))"

lemma larger_ok:
  assumes "1 \<le> mx" "mx \<le> n" "n \<le> length xs" "1 \<le> c"
  shows "\<exists>r. larger compare xs n c mx = Some r \<and> (r = mx \<or> r = c \<and> c \<le> n)
    \<and> le (at xs mx) (at xs r) \<and> (c \<le> n \<longrightarrow> le (at xs c) (at xs r))"
  using assms not_gt [of "xs ! (c - 1)" "xs ! (mx - 1)"] gt_le [of "xs ! (c - 1)" "xs ! (mx - 1)"]
  by (auto simp: larger_def do_compare_def at_def)

lemma swap_facts:
  assumes "1 \<le> a" "a \<le> n" "1 \<le> b" "b \<le> n" "n \<le> length xs"
  shows "\<exists>ys. do_swap xs a b = Some ys \<and> length ys = length xs \<and> drop n ys = drop n xs
    \<and> mset (take n ys) = mset (take n xs)
    \<and> (\<forall>j. 1 \<le> j \<longrightarrow> j \<le> length xs \<longrightarrow> at ys j = at xs (if j = a then b else if j = b then a else j))"
proof -
  let ?ys = "xs[a - 1 := xs ! (b - 1), b - 1 := xs ! (a - 1)]"
  have "take n ?ys = (take n xs)[a - 1 := take n xs ! (b - 1), b - 1 := take n xs ! (a - 1)]"
    using assms by (simp add: take_update_swap)
  also have "mset \<dots> = mset (take n xs)" using assms by (intro mset_swap) auto
  finally have "mset (take n ?ys) = mset (take n xs)" .
  moreover have "drop n ?ys = drop n xs" using assms by simp
  moreover have "at ?ys j = at xs (if j = a then b else if j = b then a else j)" if "1 \<le> j" "j \<le> length xs" for j
    using that assms by (auto simp: at_def nth_list_update)
  ultimately show ?thesis using assms by (simp add: do_swap_def)
qed

lemma heapify_ok:
  "1 \<le> i \<Longrightarrow> i \<le> n \<Longrightarrow> n \<le> length xs \<Longrightarrow> n < 2 ^ 31 \<Longrightarrow> lo \<le> i \<Longrightarrow> heap_but xs n lo i
   \<Longrightarrow> \<exists>ys. heapify compare xs i n = Some ys \<and> length ys = length xs \<and> drop n ys = drop n xs
     \<and> mset (take n ys) = mset (take n xs) \<and> heap_from ys n lo"
proof (induction "n - i" arbitrary: xs i rule: less_induct)
  case less
  note p = less.prems
  have m: "2 * i mod 2 ^ 32 = 2 * i" "(2 * i + 1) mod 2 ^ 32 = 2 * i + 1" using p(2,4) by simp_all
  obtain l where l: "larger compare xs n (2 * i) i = Some l" "l = i \<or> l = 2 * i \<and> 2 * i \<le> n"
      "le (at xs i) (at xs l)" "2 * i \<le> n \<longrightarrow> le (at xs (2 * i)) (at xs l)"
    using larger_ok [OF p(1-3), of "2 * i"] p(1) by auto
  have l1: "1 \<le> l" "l \<le> n" using l(2) p(1,2) by auto
  obtain r where r: "larger compare xs n (2 * i + 1) l = Some r" "r = l \<or> r = 2 * i + 1 \<and> 2 * i + 1 \<le> n"
      "le (at xs l) (at xs r)" "2 * i + 1 \<le> n \<longrightarrow> le (at xs (2 * i + 1)) (at xs r)"
    using larger_ok [OF l1 p(3), of "2 * i + 1"] by auto
  have ch: "le (at xs j) (at xs r)" if "j div 2 = i" "j \<le> n" for j
  proof -
    from that(1) have "j = 2 * i \<or> j = 2 * i + 1" by linarith
    then show ?thesis using that(2) l(4) r(3,4) le_trans by blast
  qed
  have ri: "le (at xs i) (at xs r)" using le_trans [OF l(3) r(3)] .
  have step: "heapify compare xs i n = (if r = i then Some xs
      else Option.bind (do_swap xs i r) (\<lambda>xs. heapify compare xs r n))"
    by (subst heapify.simps) (simp only: m l(1) r(1) Option.bind.bind_lunit)
  show ?case
  proof (cases "r = i")
    case True
    have "heap_from xs n lo"
      unfolding heap_from_def using p(6) ch True unfolding heap_but_def by blast
    then show ?thesis using step True by auto
  next
    case False
    then have rr: "r div 2 = i" "r \<le> n" "1 \<le> r" "i < r" using r(2) l(2) l1 p(1) by auto
    obtain ys where ys: "do_swap xs i r = Some ys" "length ys = length xs" "drop n ys = drop n xs"
        "mset (take n ys) = mset (take n xs)"
      and at: "\<And>j. 1 \<le> j \<Longrightarrow> j \<le> length xs \<Longrightarrow> at ys j = at xs (if j = i then r else if j = r then i else j)"
      using swap_facts [OF p(1,2) rr(3,2) p(3)] by blast
    have hb: "heap_but ys n lo r"
      unfolding heap_but_def
    proof (intro conjI allI impI)
      fix j assume j: "2 \<le> j" "j \<le> n" "lo \<le> j div 2" "j div 2 \<noteq> r"
      have a: "at ys j = at xs (if j = i then r else if j = r then i else j)"
        "at ys (j div 2) = at xs (if j div 2 = i then r else j div 2)"
        using at [of j] at [of "j div 2"] j p(3) by auto
      consider "j div 2 = i" | "j = i" "j div 2 \<noteq> i" | "j \<noteq> i" "j \<noteq> r" "j div 2 \<noteq> i"
        using rr(1) by blast
      then show "le (at ys j) (at ys (j div 2))"
      proof cases
        case 1
        then have "j \<noteq> i" using j(1) by auto
        then show ?thesis using a 1 ri ch [of j] j(2) by simp
      next
        case 2
        then show ?thesis using a j p(6) rr unfolding heap_but_def by auto
      next
        case 3
        then show ?thesis using a j p(6) unfolding heap_but_def by auto
      qed
    next
      fix j assume j: "2 \<le> j" "j \<le> n" "j div 2 = r" "2 \<le> r" "lo \<le> r div 2"
      have "j \<noteq> i" "j \<noteq> r" using j rr by auto
      then have a: "at ys j = at xs j" "at ys (r div 2) = at xs r"
        using at [of j] at [of i] j p(1-3) rr by auto
      have "le (at xs j) (at xs (j div 2))"
        using p(5,6) j rr unfolding heap_but_def by auto
      then show "le (at ys j) (at ys (r div 2))" using a j(3) by simp
    qed
    have lt: "n - r < n - i" using rr by linarith
    obtain zs where "heapify compare ys r n = Some zs" "length zs = length ys" "drop n zs = drop n ys"
        "mset (take n zs) = mset (take n ys)" "heap_from zs n lo"
      using less.hyps [OF _ rr(3,2) _ p(4) _ hb] lt rr(4) p(3,5) ys(2) by auto
    then show ?thesis using step False ys by auto
  qed
qed

lemma heap_from_but: "heap_from xs n (Suc i) \<Longrightarrow> heap_but xs n i i"
  unfolding heap_from_def heap_but_def by (auto dest: le_neq_implies_less simp: Suc_le_eq)

lemma build_heap_ok:
  "i \<le> n \<Longrightarrow> n \<le> length xs \<Longrightarrow> n < 2 ^ 31 \<Longrightarrow> heap_from xs n (Suc i)
   \<Longrightarrow> \<exists>ys. build_heap compare xs n i = Some ys \<and> length ys = length xs \<and> drop n ys = drop n xs
     \<and> mset (take n ys) = mset (take n xs) \<and> heap_from ys n 1"
proof (induction i arbitrary: xs)
  case 0
  then show ?case by simp
next
  case (Suc i)
  have "Suc i \<le> n" using Suc.prems(1) .
  from heapify_ok [OF _ this Suc.prems(2,3) order.refl heap_from_but [OF Suc.prems(4)]]
  obtain ys where ys: "heapify compare xs (Suc i) n = Some ys" "length ys = length xs" "drop n ys = drop n xs"
      "mset (take n ys) = mset (take n xs)" "heap_from ys n (Suc i)"
    by auto
  obtain zs where "build_heap compare ys n i = Some zs" "length zs = length ys" "drop n zs = drop n ys"
      "mset (take n zs) = mset (take n ys)" "heap_from zs n 1"
    using Suc.IH [of ys] Suc.prems ys(2,5) by auto
  with ys show ?case by simp
qed

lemma heap_root: "heap_from xs n 1 \<Longrightarrow> 1 \<le> j \<Longrightarrow> j \<le> n \<Longrightarrow> le (at xs j) (at xs 1)"
proof (induction j rule: less_induct)
  case (less j)
  show ?case
  proof (cases "j = 1")
    case False
    then have j: "2 \<le> j" "1 \<le> j div 2" "j div 2 < j" "j div 2 \<le> n" using less.prems by auto
    have "le (at xs j) (at xs (j div 2))"
      using less.prems j unfolding heap_from_def by blast
    moreover have "le (at xs (j div 2)) (at xs 1)" by (rule less.IH) (use less.prems j in auto)
    ultimately show ?thesis by (rule le_trans)
  qed simp
qed

lemma heap_root_max: "heap_from xs n 1 \<Longrightarrow> n \<le> length xs \<Longrightarrow> x \<in> set (take n xs) \<Longrightarrow> le x (at xs 1)"
proof -
  assume h: "heap_from xs n 1" and n: "n \<le> length xs" and x: "x \<in> set (take n xs)"
  then obtain k where "k < n" "x = xs ! k" by (auto simp: in_set_conv_nth)
  then show ?thesis using heap_root [OF h, of "Suc k"] by (simp add: at_def)
qed

definition sorted_tail :: "'a list \<Rightarrow> nat \<Rightarrow> bool" where
  "sorted_tail xs i \<longleftrightarrow> sorted_wrt le (drop i xs) \<and> (\<forall>x \<in> set (take i xs). \<forall>y \<in> set (drop i xs). le x y)"

lemma sort_heap_ok:
  "i \<le> length xs \<Longrightarrow> length xs < 2 ^ 31 \<Longrightarrow> heap_from xs i 1 \<Longrightarrow> sorted_tail xs i
   \<Longrightarrow> \<exists>ys. sort_heap compare xs i = Some ys \<and> mset ys = mset xs \<and> sorted_wrt le ys"
proof (induction i arbitrary: xs)
  case 0
  then show ?case by (simp add: sorted_tail_def)
next
  case (Suc n)
  note p = Suc.prems
  show ?case
  proof (cases n)
    case 0
    then show ?thesis using p by (cases xs) (auto simp: sorted_tail_def)
  next
    case (Suc k)
    obtain ys where ys: "do_swap xs 1 (Suc n) = Some ys" "length ys = length xs" "drop (Suc n) ys = drop (Suc n) xs"
        "mset (take (Suc n) ys) = mset (take (Suc n) xs)"
      and at: "\<And>j. 1 \<le> j \<Longrightarrow> j \<le> length xs \<Longrightarrow> at ys j = at xs (if j = 1 then Suc n else if j = Suc n then 1 else j)"
      using swap_facts [of 1 "Suc n" "Suc n" xs] p(1) by auto
    have hb: "heap_but ys n 1 1"
      using p(1,3) at unfolding heap_but_def heap_from_def by auto
    obtain zs where zs: "heapify compare ys 1 n = Some zs" "length zs = length ys" "drop n zs = drop n ys"
        "mset (take n zs) = mset (take n ys)" "heap_from zs n 1"
      using heapify_ok [OF order.refl _ _ _ order.refl hb] p(1,2) ys(2) Suc by auto
    have dn: "drop n ys = at xs 1 # drop (Suc n) xs"
      using p(1) ys(2,3) at [of "Suc n"] Cons_nth_drop_Suc [of n ys] by (auto simp: at_def Suc)
    have sub: "set (take n zs) \<subseteq> set (take (Suc n) xs)"
    proof -
      have "set (take n zs) = set (take n ys)" using zs(4) by (rule mset_eq_setD)
      also have "\<dots> \<subseteq> set (take (Suc n) ys)" by (rule set_take_subset_set_take) simp
      also have "\<dots> = set (take (Suc n) xs)" using ys(4) by (rule mset_eq_setD)
      finally show ?thesis .
    qed
    have rt: "at xs 1 \<in> set (take (Suc n) xs)" using p(1) by (cases xs) (auto simp: at_def)
    have "sorted_tail zs n"
      using p(4) sub rt heap_root_max [OF p(3,1)] unfolding sorted_tail_def zs(3) dn by auto
    moreover have "mset zs = mset xs"
    proof -
      have "mset zs = mset (take n zs) + mset (drop n zs)" by (simp flip: mset_append)
      also have "\<dots> = mset (take n ys) + mset (drop n ys)" using zs(3,4) by simp
      also have "\<dots> = mset (take (Suc n) ys) + mset (drop (Suc n) ys)" by (simp flip: mset_append)
      also have "\<dots> = mset (take (Suc n) xs) + mset (drop (Suc n) xs)" using ys(3,4) by simp
      finally show ?thesis by (simp flip: mset_append)
    qed
    moreover obtain ws where "sort_heap compare zs n = Some ws" "mset ws = mset zs" "sorted_wrt le ws"
      using Suc.IH [of zs] p(1,2) ys(2) zs(2,5) calculation(1) by auto
    ultimately show ?thesis using ys(1) zs(1) Suc by auto
  qed
qed

lemma sort_array_ok:
  assumes "length xs < 2 ^ 31"
  shows "\<exists>ys. sort_array xs (length xs) compare = Some ys \<and> mset ys = mset xs \<and> sorted_wrt le ys"
proof -
  let ?n = "length xs"
  have "heap_from xs ?n (Suc (?n div 2))" unfolding heap_from_def by auto
  then obtain ys where ys: "build_heap compare xs ?n (?n div 2) = Some ys" "length ys = length xs"
      "mset (take ?n ys) = mset (take ?n xs)" "heap_from ys ?n 1"
    using build_heap_ok [of "?n div 2" ?n xs] assms by auto
  have "\<exists>zs. sort_heap compare ys ?n = Some zs \<and> mset zs = mset ys \<and> sorted_wrt le zs"
    by (rule sort_heap_ok) (use ys assms in \<open>auto simp: sorted_tail_def\<close>)
  then show ?thesis using ys by (auto simp: sort_array_def)
qed

end

section \<open>Binary search\<close>

text \<open>The key splits the sorted array: what lies left of a position where it is larger is
  smaller than the key, and the other way round.\<close>

definition splits :: "('k \<Rightarrow> 'a \<Rightarrow> int) \<Rightarrow> 'k \<Rightarrow> 'a list \<Rightarrow> bool" where
  "splits compare key xs \<longleftrightarrow> (\<forall>i j. i \<le> j \<longrightarrow> j < length xs \<longrightarrow>
     (compare key (xs ! i) < 0 \<longrightarrow> compare key (xs ! j) < 0) \<and>
     (compare key (xs ! j) > 0 \<longrightarrow> compare key (xs ! i) > 0))"

lemma search_loop_ok:
  "splits compare key xs \<Longrightarrow> hi \<le> length xs
   \<Longrightarrow> \<forall>i < lo. compare key (xs ! i) > 0 \<Longrightarrow> \<forall>i. hi \<le> i \<longrightarrow> i < length xs \<longrightarrow> compare key (xs ! i) < 0
   \<Longrightarrow> lo \<le> length xs
   \<Longrightarrow> \<exists>r. search_loop key xs compare lo hi = Some r
     \<and> (case r of Some i \<Rightarrow> i < length xs \<and> compare key (xs ! i) = 0
                | None \<Rightarrow> \<forall>i < length xs. compare key (xs ! i) \<noteq> 0)"
proof (induction key xs compare lo hi rule: search_loop.induct)
  case (1 key xs compare lo hi)
  note sp = "1.prems"(1) and p = "1.prems"(2-5)
  show ?case
  proof (cases "lo < hi")
    case True
    define mid where "mid = lo + (hi - lo) div 2"
    have mid: "lo \<le> mid" "mid < hi" "mid < length xs" using True p(1) by (auto simp: mid_def)
    have step: "search_loop key xs compare lo hi =
        (if compare key (xs ! mid) < 0 then search_loop key xs compare lo mid
         else if compare key (xs ! mid) > 0 then search_loop key xs compare (mid + 1) hi
         else Some (Some mid))"
      using True mid(3) by (subst search_loop.simps) (simp add: mid_def Let_def)
    consider "compare key (xs ! mid) < 0" | "compare key (xs ! mid) > 0" | "compare key (xs ! mid) = 0"
      by linarith
    then show ?thesis
    proof cases
      case 1
      have "\<forall>i. mid \<le> i \<longrightarrow> i < length xs \<longrightarrow> compare key (xs ! i) < 0"
        using sp 1 unfolding splits_def by blast
      then show ?thesis
        using "1.IH"(1) [OF True mid_def _ refl 1 sp _ p(2) _ p(4)] mid(3) 1 step by simp
    next
      case 2
      have "\<forall>i < mid + 1. compare key (xs ! i) > 0"
        using sp 2 mid(3) unfolding splits_def by (metis add.commute less_Suc_eq_le plus_1_eq_Suc)
      then show ?thesis
        using "1.IH"(2) [OF True mid_def _ refl _ 2 sp p(1) _ p(3)] mid(3) 2 step
        by (simp add: not_less [THEN iffD2, OF less_imp_le [OF 2]])
    next
      case 3
      then show ?thesis using step mid(3) by simp
    qed
  next
    case False
    have "compare key (xs ! i) \<noteq> 0" if "i < length xs" for i
      using p(2,3) that False by (metis less_irrefl not_le_imp_less order.trans)
    with False show ?thesis by (subst search_loop.simps) simp
  qed
qed

section \<open>Numbers\<close>

text \<open>The value of a string of digits.\<close>

definition digit :: "byte \<Rightarrow> bool" where
  "digit c \<longleftrightarrow> isdigit (sint c)"

definition decimal :: "byte list \<Rightarrow> int" where
  "decimal ds = foldl (\<lambda>v c. v * 10 + (sint c - 48)) 0 ds"

lemma decimal_snoc [simp]: "decimal (ds @ [c]) = decimal ds * 10 + (sint c - 48)"
  by (simp add: decimal_def)

lemma decimal_Nil [simp]: "decimal [] = 0"
  by (simp add: decimal_def)

lemma digit_range: "digit c \<Longrightarrow> 0 \<le> sint c - 48 \<and> sint c - 48 \<le> 9"
  by (simp add: digit_def isdigit_def)

lemma decimal_nonneg: "\<forall>c \<in> set ds. digit c \<Longrightarrow> 0 \<le> decimal ds"
  using digit_range by (induction ds rule: rev_induct) fastforce+

lemma decimal_le: "\<forall>c \<in> set es. digit c \<Longrightarrow> \<forall>c \<in> set ds. digit c \<Longrightarrow> decimal ds \<le> decimal (ds @ es)"
proof (induction es rule: rev_induct)
  case (snoc e es)
  then have "decimal ds \<le> decimal (ds @ es)" "0 \<le> decimal (ds @ es)" "0 \<le> sint e - 48"
    using decimal_nonneg [of "ds @ es"] digit_range [of e] by auto
  then show ?case using decimal_snoc [of "ds @ es" e] by simp
qed simp

lemma skip_space_ok:
  "blk m s (sp @ [c]) \<Longrightarrow> \<forall>x \<in> set sp. isspace (uint x) \<Longrightarrow> \<not> isspace (uint c)
   \<Longrightarrow> skip_space m s = Some (s + length sp)"
proof (induction sp arbitrary: s)
  case Nil
  then show ?case by (simp add: skip_space.simps [of m s])
next
  case (Cons x sp)
  then show ?case using Cons.IH [of "Suc s"] by (simp add: skip_space.simps [of m s])
qed

lemma atoi_digits_ok:
  "blk m s (es @ [c]) \<Longrightarrow> \<forall>x \<in> set es. digit x \<Longrightarrow> \<not> digit c \<Longrightarrow> \<forall>x \<in> set ds. digit x
   \<Longrightarrow> decimal (ds @ es) \<le> 2 ^ 31 \<Longrightarrow> atoi_digits m s (- decimal ds) = Some (- decimal (ds @ es))"
proof (induction es arbitrary: s ds)
  case Nil
  then show ?case by (simp add: atoi_digits.simps [of m s] digit_def)
next
  case (Cons x es)
  have e: "ds @ x # es = (ds @ [x]) @ es" by simp
  have dx: "digit x" using Cons.prems(2) by simp
  have "decimal (ds @ [x]) \<le> 2 ^ 31"
    using decimal_le [of es "ds @ [x]"] Cons.prems by auto
  then have b: "decimal ds * 10 + (sint x - 48) \<le> 2 ^ 31" by simp
  have r: "0 \<le> decimal ds" "0 \<le> sint x - 48" "sint x - 48 \<le> 9"
    using decimal_nonneg [of ds] digit_range [OF dx] Cons.prems(4) by auto
  have w: "wrap32 (wrap32 (- decimal ds * 10) - (sint x - 48)) = - decimal (ds @ [x])"
    using b r wrap32_id [of "- decimal ds * 10"] wrap32_id [of "- decimal ds * 10 - (sint x - 48)"]
    by simp
  have "atoi_digits m (s + 1) (- decimal (ds @ [x])) = Some (- decimal ((ds @ [x]) @ es))"
    by (rule Cons.IH) (use Cons.prems dx in auto)
  moreover have "isdigit (sint x)" using dx by (simp add: digit_def)
  ultimately show ?case using Cons.prems(1) w by (simp add: atoi_digits.simps [of m s])
qed

lemma atoi_ok:
  assumes "blk m s (sp @ sg @ ds @ [c])" and "s \<noteq> 0" and "\<forall>x \<in> set sp. isspace (uint x)"
    and sg: "sg = [] \<or> sg = [43] \<or> sg = [45]" and ds: "\<forall>x \<in> set ds. digit x" "ds \<noteq> []" and c: "\<not> digit c"
    and b: "decimal ds \<le> (if sg = [45] then 2 ^ 31 else 2 ^ 31 - 1)"
  shows "atoi m s = Some (if sg = [45] then - decimal ds else decimal ds)"
proof -
  obtain d es where d: "ds = d # es" using ds(2) by (cases ds) auto
  have dd: "digit d" using ds(1) d by simp
  have nd: "\<not> isspace (uint d)" "d \<noteq> 43" "d \<noteq> 45"
  proof -
    have b: "48 \<le> sint d" "sint d \<le> 57" using dd by (simp_all add: digit_def isdigit_def)
    have "uint d = uint (word_of_int (sint d) :: byte)" by simp
    also have "\<dots> = sint d" using b by (simp only: uint_word_of_int) simp
    finally have "uint d = sint d" .
    then show "\<not> isspace (uint d)" using b by (simp add: isspace_def)
    show "d \<noteq> 43" "d \<noteq> 45" using b by auto
  qed
  have hd: "\<exists>x xs. sg @ ds @ [c] = x # xs \<and> \<not> isspace (uint x)"
    using sg d nd by (auto simp: isspace_def)
  then have sk: "skip_space m s = Some (s + length sp)"
    using skip_space_ok [of m s sp] assms(1,3) by fastforce
  have n0: "0 \<le> decimal ds" by (rule decimal_nonneg [OF ds(1)])
  have at: "atoi_digits m (s + length sp + length sg) 0 = Some (- decimal ds)"
    using atoi_digits_ok [of m "s + length sp + length sg" ds c "[]"] assms(1) ds c b
    by (auto simp: ac_simps split: if_splits)
  show ?thesis
    using sg
  proof (elim disjE)
    assume "sg = []"
    then show ?thesis using sk at assms(1,2) d nd b n0 wrap32_id [of "decimal ds"]
      by (simp add: atoi_def)
  next
    assume "sg = [43]"
    then show ?thesis using sk at assms(1,2) b n0 wrap32_id [of "decimal ds"]
      by (simp add: atoi_def)
  next
    assume "sg = [45]"
    then show ?thesis using sk at assms(1,2) b n0
      by (simp add: atoi_def)
  qed
qed

section \<open>Sorting and searching with one comparison function\<close>

context comparator
begin

lemma lt_trans: "compare a b < 0 \<Longrightarrow> le b c \<Longrightarrow> compare a c < 0"
  using flip [of a c] flip [of a b] le_trans [of b c a] not_gt [of c a] not_gt [of b a] by blast

lemma gt_trans: "compare a c > 0 \<Longrightarrow> le b c \<Longrightarrow> compare a b > 0"
  using le_trans [of a b c] not_gt [of a b] not_gt [of a c] by blast

lemma sorted_splits:
  assumes "sorted_wrt le ys"
  shows "splits compare key ys"
proof -
  have le: "le (ys ! i) (ys ! j)" if "i \<le> j" "j < length ys" for i j
    using that assms by (cases "i = j") (auto simp: sorted_wrt_iff_nth_less)
  show ?thesis unfolding splits_def using lt_trans gt_trans le by blast
qed

lemma search_ok:
  assumes "sorted_wrt le ys"
  shows "\<exists>r. binary_search key ys (length ys) compare = Some r
    \<and> (case r of Some i \<Rightarrow> i < length ys \<and> compare key (ys ! i) = 0
               | None \<Rightarrow> \<forall>y \<in> set ys. compare key y \<noteq> 0)"
proof -
  obtain r where "search_loop key ys compare 0 (length ys) = Some r"
    "case r of Some i \<Rightarrow> i < length ys \<and> compare key (ys ! i) = 0
        | None \<Rightarrow> \<forall>i < length ys. compare key (ys ! i) \<noteq> 0"
    using search_loop_ok [OF sorted_splits [OF assms], of "length ys" 0] by auto
  then show ?thesis
    by (intro exI [of _ r]) (auto simp: binary_search_def in_set_conv_nth split: option.splits)
qed

end

lemma cmp_bytes_flip: "cmp_bytes a b < 0 \<longleftrightarrow> cmp_bytes b a > 0"
  by (induction a b rule: cmp_bytes.induct) auto

lemma cmp_bytes_trans: "cmp_bytes a b \<le> 0 \<Longrightarrow> cmp_bytes b c \<le> 0 \<Longrightarrow> cmp_bytes a c \<le> 0"
proof (induction a b arbitrary: c rule: cmp_bytes.induct)
  case (1 c)
  then show ?case by simp
next
  case (2 y ys)
  then show ?case by (cases c) auto
next
  case (3 x xs)
  then show ?case by simp
next
  case (4 x xs y ys)
  then show ?case by (cases c) (auto split: if_splits)
qed

interpretation strcmp_order: comparator cmp_bytes
  by unfold_locales (fact cmp_bytes_flip, fact cmp_bytes_trans)

text \<open>C26: for every comparison function that stands for an order, the heap sort terminates
  and leaves the elements in order, each as often as before; a binary search of the sorted
  array for any key finds an element equal to it exactly if there is one.\<close>

theorem sort_then_search:
  assumes "comparator compare" and "length xs < 2 ^ 31"
  shows "\<exists>ys. qsort xs (length xs) compare = Some ys \<and> mset ys = mset xs
    \<and> sorted_wrt (\<lambda>a b. compare a b \<le> 0) ys
    \<and> (\<exists>r. bsearch key ys (length ys) compare = Some r
         \<and> (case r of Some i \<Rightarrow> i < length ys \<and> compare key (ys ! i) = 0
                    | None \<Rightarrow> \<forall>x \<in> set xs. compare key x \<noteq> 0))"
proof -
  have le: "comparator.le compare = (\<lambda>a b. compare a b \<le> 0)"
    by (intro ext) (simp add: comparator.le_def [OF assms(1)])
  obtain ys where ys: "sort_array xs (length xs) compare = Some ys" "mset ys = mset xs"
      "sorted_wrt (comparator.le compare) ys"
    using comparator.sort_array_ok [OF assms] by blast
  from comparator.search_ok [OF assms(1) ys(3), of key] mset_eq_setD [OF ys(2)] ys show ?thesis
    by (simp add: qsort_def bsearch_def le cong: option.case_cong)
qed

theorem sort_then_search_witness:
  "\<exists>ys. qsort [[98], [97], [99, 1], [97 :: byte]] 4 cmp_bytes = Some ys
    \<and> mset ys = {#[97], [97], [98], [99, 1]#} \<and> bsearch [97, 1] ys (length ys) cmp_bytes = Some None"
proof -
  let ?xs = "[[98], [97], [99, 1], [97 :: byte]]"
  have n: "length ?xs < 2 ^ 31" "length ?xs = 4" by simp_all
  obtain ys r where ys: "qsort ?xs (length ?xs) cmp_bytes = Some ys" "mset ys = mset ?xs"
    and r: "bsearch [97, 1] ys (length ys) cmp_bytes = Some r"
      "case r of Some i \<Rightarrow> i < length ys \<and> cmp_bytes [97, 1] (ys ! i) = 0
               | None \<Rightarrow> \<forall>x \<in> set ?xs. cmp_bytes [97, 1] x \<noteq> 0"
    using sort_then_search [OF strcmp_order.comparator_axioms n(1), of "[97, 1]"] by blast
  have "r = None"
  proof (cases r)
    case (Some i)
    with r(2) have "[97, 1] \<in> set ys" by (simp add: in_set_conv_nth) metis
    then show ?thesis using mset_eq_setD [OF ys(2)] by simp
  qed
  with ys r(1) show ?thesis unfolding n(2) by (intro exI [of _ ys]) simp
qed

end
