(* ===== verification/PageDir.thy ===== *)
theory PageDir
  imports MemWords Palloc
begin

unbundle bit_operations_syntax

text \<open>
  Page tables: threads/pte.h and userprog/pagedir.c on the pages of threads/palloc.c.  A page
  directory and its page tables are pages of 1024 four-byte entries in the memory of the page
  allocator.  \<open>cr3\<close> is the page directory base register; the translation lookaside buffer,
  which pagedir_activate flushes, is not part of the state.
\<close>

section \<open>Entries\<close>

definition PTE_FLAGS :: nat where "PTE_FLAGS = 0x00000fff"
definition PTE_ADDR :: nat where "PTE_ADDR = 0xfffff000"
definition PTE_P :: nat where "PTE_P = 0x1"
definition PTE_W :: nat where "PTE_W = 0x2"
definition PTE_U :: nat where "PTE_U = 0x4"
definition PTE_A :: nat where "PTE_A = 0x20"
definition PTE_D :: nat where "PTE_D = 0x40"

definition pt_no :: "nat \<Rightarrow> nat" where "pt_no va = drop_bit 12 (va AND 0x3ff000)"
definition pd_no :: "nat \<Rightarrow> nat" where "pd_no va = drop_bit 22 va"

definition pde_create :: "nat \<Rightarrow> nat option" where
  "pde_create pt = do {
     ASSERT (pg_ofs pt = 0);
     p \<leftarrow> vtop pt;
     Some (p OR PTE_U OR PTE_P OR PTE_W)
   }"

definition pde_get_pt :: "nat \<Rightarrow> nat option" where
  "pde_get_pt pde = do {
     ASSERT (pde AND PTE_P \<noteq> 0);
     ptov (pde AND PTE_ADDR)
   }"

definition pte_create_kernel :: "nat \<Rightarrow> bool \<Rightarrow> nat option" where
  "pte_create_kernel page rw = do {
     ASSERT (pg_ofs page = 0);
     p \<leftarrow> vtop page;
     Some (p OR PTE_P OR (if rw then PTE_W else 0))
   }"

definition pte_create_user :: "nat \<Rightarrow> bool \<Rightarrow> nat option" where
  "pte_create_user page rw = do {
     e \<leftarrow> pte_create_kernel page rw;
     Some (e OR PTE_U)
   }"

definition pte_get_page :: "nat \<Rightarrow> nat option" where
  "pte_get_page pte = ptov (pte AND PTE_ADDR)"

section \<open>The state\<close>

record vm =
  pg :: pstate
  init_page_dir :: nat
  init_ram_pages :: nat
  cr3 :: nat

definition ldw :: "vm \<Rightarrow> nat \<Rightarrow> nat option" where
  "ldw v p = ld32 (pmem (pg v)) p"

definition set_mem :: "mem \<Rightarrow> vm \<Rightarrow> vm" where
  "set_mem m v = v\<lparr>pg := (pg v)\<lparr>pmem := m\<rparr>\<rparr>"

definition stw :: "vm \<Rightarrow> nat \<Rightarrow> nat \<Rightarrow> vm option" where
  "stw v p x = do { m \<leftarrow> st32 (pmem (pg v)) p x; Some (set_mem m v) }"

definition get_page :: "nat \<Rightarrow> vm \<Rightarrow> (nat \<times> vm) option" where
  "get_page flags v = do { (p, s) \<leftarrow> palloc_get_page flags (pg v); Some (p, v\<lparr>pg := s\<rparr>) }"

definition free_page :: "nat \<Rightarrow> vm \<Rightarrow> vm option" where
  "free_page p v = do { s \<leftarrow> palloc_free_page p (pg v); Some (v\<lparr>pg := s\<rparr>) }"

section \<open>Page directories\<close>

definition pagedir_create :: "vm \<Rightarrow> (nat \<times> vm) option" where
  "pagedir_create v = do {
     (pd, v) \<leftarrow> get_page 0 v;
     (if pd \<noteq> 0 then do {
        (_, m) \<leftarrow> memcpy (pmem (pg v)) pd (init_page_dir v) PGSIZE;
        Some (pd, set_mem m v)
      }
      else Some (pd, v))
   }"

text \<open>The number counts the entries that are left.\<close>

fun free_ptes :: "nat \<Rightarrow> nat \<Rightarrow> vm \<Rightarrow> vm option" where
  "free_ptes 0 pte v = Some v"
| "free_ptes (Suc n) pte v = do {
     e \<leftarrow> ldw v pte;
     v \<leftarrow> (if e AND PTE_P \<noteq> 0 then do { page \<leftarrow> pte_get_page e; free_page page v } else Some v);
     free_ptes n (pte + 4) v
   }"

fun free_pdes :: "nat \<Rightarrow> nat \<Rightarrow> vm \<Rightarrow> vm option" where
  "free_pdes 0 pde v = Some v"
| "free_pdes (Suc n) pde v = do {
     e \<leftarrow> ldw v pde;
     v \<leftarrow> (if e AND PTE_P \<noteq> 0 then do {
              pt \<leftarrow> pde_get_pt e;
              v \<leftarrow> free_ptes (PGSIZE div 4) pt v;
              free_page pt v
            }
            else Some v);
     free_pdes n (pde + 4) v
   }"

definition pagedir_destroy :: "nat \<Rightarrow> vm \<Rightarrow> vm option" where
  "pagedir_destroy pd v =
     (if pd = 0 then Some v
      else do {
        ASSERT (pd \<noteq> init_page_dir v);
        v \<leftarrow> free_pdes (pd_no PHYS_BASE) pd v;
        free_page pd v
      })"

definition lookup_page :: "nat \<Rightarrow> nat \<Rightarrow> bool \<Rightarrow> vm \<Rightarrow> (nat \<times> vm) option" where
  "lookup_page pd vaddr create v = do {
     ASSERT (pd \<noteq> 0);
     ASSERT (\<not> create \<or> is_user_vaddr vaddr);
     let pde = pd + 4 * pd_no vaddr;
     e \<leftarrow> ldw v pde;
     (ok, v) \<leftarrow> (if e = 0 then
          (if create then do {
             (pt, v) \<leftarrow> get_page PAL_ZERO v;
             (if pt = 0 then Some (False, v)
              else do {
                x \<leftarrow> pde_create pt;
                v \<leftarrow> stw v pde x;
                Some (True, v)
              })
           }
           else Some (False, v))
        else Some (True, v));
     (if \<not> ok then Some (0, v)
      else do {
        e \<leftarrow> ldw v pde;
        pt \<leftarrow> pde_get_pt e;
        Some (pt + 4 * pt_no vaddr, v)
      })
   }"

definition pagedir_set_page :: "nat \<Rightarrow> nat \<Rightarrow> nat \<Rightarrow> bool \<Rightarrow> vm \<Rightarrow> (bool \<times> vm) option" where
  "pagedir_set_page pd upage kpage rw v = do {
     ASSERT (pg_ofs upage = 0);
     ASSERT (pg_ofs kpage = 0);
     ASSERT (is_user_vaddr upage);
     p \<leftarrow> vtop kpage;
     ASSERT (drop_bit 12 p < init_ram_pages v);
     ASSERT (pd \<noteq> init_page_dir v);
     (pte, v) \<leftarrow> lookup_page pd upage True v;
     (if pte \<noteq> 0 then do {
        e \<leftarrow> ldw v pte;
        ASSERT (e AND PTE_P = 0);
        x \<leftarrow> pte_create_user kpage rw;
        v \<leftarrow> stw v pte x;
        Some (True, v)
      }
      else Some (False, v))
   }"

definition pagedir_get_page :: "nat \<Rightarrow> nat \<Rightarrow> vm \<Rightarrow> nat option" where
  "pagedir_get_page pd uaddr v = do {
     ASSERT (is_user_vaddr uaddr);
     (pte, v) \<leftarrow> lookup_page pd uaddr False v;
     (if pte \<noteq> 0 then do {
        e \<leftarrow> ldw v pte;
        (if e AND PTE_P \<noteq> 0 then do { page \<leftarrow> pte_get_page e; Some (page + pg_ofs uaddr) } else Some 0)
      }
      else Some 0)
   }"

definition pagedir_activate :: "nat \<Rightarrow> vm \<Rightarrow> vm option" where
  "pagedir_activate pd v = do {
     p \<leftarrow> vtop (if pd = 0 then init_page_dir v else pd);
     Some (v\<lparr>cr3 := p\<rparr>)
   }"

definition active_pd :: "vm \<Rightarrow> nat option" where
  "active_pd v = ptov (cr3 v)"

definition invalidate_pagedir :: "nat \<Rightarrow> vm \<Rightarrow> vm option" where
  "invalidate_pagedir pd v = do {
     a \<leftarrow> active_pd v;
     (if a = pd then pagedir_activate pd v else Some v)
   }"

text \<open>\<open>~x\<close> on 32 bits.\<close>

definition not32 :: "nat \<Rightarrow> nat" where "not32 x = 2 ^ 32 - 1 - x"

definition pagedir_clear_page :: "nat \<Rightarrow> nat \<Rightarrow> vm \<Rightarrow> vm option" where
  "pagedir_clear_page pd upage v = do {
     ASSERT (pg_ofs upage = 0);
     ASSERT (is_user_vaddr upage);
     (pte, v) \<leftarrow> lookup_page pd upage False v;
     (if pte \<noteq> 0 then do {
        e \<leftarrow> ldw v pte;
        (if e AND PTE_P \<noteq> 0 then do {
           v \<leftarrow> stw v pte (e AND not32 PTE_P);
           invalidate_pagedir pd v
         }
         else Some v)
      }
      else Some v)
   }"

definition pagedir_is_dirty :: "nat \<Rightarrow> nat \<Rightarrow> vm \<Rightarrow> bool option" where
  "pagedir_is_dirty pd vpage v = do {
     (pte, v) \<leftarrow> lookup_page pd vpage False v;
     (if pte \<noteq> 0 then do { e \<leftarrow> ldw v pte; Some (e AND PTE_D \<noteq> 0) } else Some False)
   }"

definition pagedir_set_dirty :: "nat \<Rightarrow> nat \<Rightarrow> bool \<Rightarrow> vm \<Rightarrow> vm option" where
  "pagedir_set_dirty pd vpage dirty v = do {
     (pte, v) \<leftarrow> lookup_page pd vpage False v;
     (if pte \<noteq> 0 then do {
        e \<leftarrow> ldw v pte;
        (if dirty then stw v pte (e OR PTE_D)
         else do {
           v \<leftarrow> stw v pte (e AND not32 PTE_D);
           invalidate_pagedir pd v
         })
      }
      else Some v)
   }"

definition pagedir_is_accessed :: "nat \<Rightarrow> nat \<Rightarrow> vm \<Rightarrow> bool option" where
  "pagedir_is_accessed pd vpage v = do {
     (pte, v) \<leftarrow> lookup_page pd vpage False v;
     (if pte \<noteq> 0 then do { e \<leftarrow> ldw v pte; Some (e AND PTE_A \<noteq> 0) } else Some False)
   }"

definition pagedir_set_accessed :: "nat \<Rightarrow> nat \<Rightarrow> bool \<Rightarrow> vm \<Rightarrow> vm option" where
  "pagedir_set_accessed pd vpage accessed v = do {
     (pte, v) \<leftarrow> lookup_page pd vpage False v;
     (if pte \<noteq> 0 then do {
        e \<leftarrow> ldw v pte;
        (if accessed then stw v pte (e OR PTE_A)
         else do {
           v \<leftarrow> stw v pte (e AND not32 PTE_A);
           invalidate_pagedir pd v
         })
      }
      else Some v)
   }"

section \<open>Bits of entries\<close>

lemma pt_no_eq: "pt_no va = va div 4096 mod 1024"
proof -
  have m: "(1023 :: nat) = mask 10" by (simp add: mask_eq_exp_minus_1)
  have "pt_no va = drop_bit 12 va AND 1023" by (simp add: pt_no_def drop_bit_and)
  also have "\<dots> = take_bit 10 (drop_bit 12 va)" unfolding m by (rule take_bit_eq_mask [symmetric])
  finally show ?thesis by (simp add: take_bit_eq_mod drop_bit_eq_div)
qed

lemma pd_no_eq: "pd_no va = va div 4194304"
  by (simp add: pd_no_def drop_bit_eq_div)

lemma addr_part: "x < 2 ^ 32 \<Longrightarrow> x AND PTE_ADDR = 4096 * (x div 4096)"
proof -
  assume x: "x < 2 ^ 32"
  have a: "PTE_ADDR = push_bit 12 (mask 20)" by (simp add: PTE_ADDR_def push_bit_eq_mult mask_eq_exp_minus_1)
  have d: "drop_bit 12 x < 2 ^ 20" using x by (simp add: drop_bit_eq_div less_mult_imp_div_less)
  have "x AND PTE_ADDR = push_bit 12 (drop_bit 12 x AND mask 20)"
    unfolding a by (rule bit_eqI) (auto simp: bit_simps)
  also have "drop_bit 12 x AND mask 20 = drop_bit 12 x"
    using d by (simp only: take_bit_eq_mask [symmetric] take_bit_nat_eq_self)
  finally show ?thesis by (simp add: push_bit_eq_mult drop_bit_eq_div)
qed

lemma aligned_or: "4096 dvd a \<Longrightarrow> f < 4096 \<Longrightarrow> a OR f = a + (f :: nat)"
proof -
  assume a: "4096 dvd a" and f: "f < 4096"
  have "a + f = a OR f"
  proof (rule disjunctive_add_eq_or, rule bit_eqI)
    fix n
    obtain b where b: "a = push_bit 12 b" using a by (auto simp: dvd_def push_bit_eq_mult)
    have "take_bit 12 f = f" using f by (intro take_bit_nat_eq_self) simp
    then have "bit f n \<Longrightarrow> n < 12" by (metis bit_take_bit_iff)
    then show "bit (a AND f) n \<longleftrightarrow> bit 0 n" by (auto simp: b bit_simps)
  qed
  then show ?thesis by simp
qed

lemma present_odd: "x AND PTE_P \<noteq> 0 \<longleftrightarrow> odd x" "x AND PTE_P = 0 \<longleftrightarrow> even x"
  by (simp_all add: PTE_P_def and_one_eq odd_iff_mod_2_eq_one even_iff_mod_2_eq_zero)

text \<open>The page an entry refers to; the entries that are made of a page and its flags.\<close>

definition tab :: "nat \<Rightarrow> nat" where
  "tab e = 4096 * (e div 4096) + PHYS_BASE"

definition entry :: "nat \<Rightarrow> nat \<Rightarrow> nat" where
  "entry p f = p - PHYS_BASE + f"

definition kernel_page :: "nat \<Rightarrow> bool" where
  "kernel_page p \<longleftrightarrow> pg_ofs p = 0 \<and> PHYS_BASE \<le> p \<and> p < 2 ^ 32"

lemma kernel_page_dvd: "kernel_page p \<Longrightarrow> 4096 dvd p - PHYS_BASE"
  unfolding kernel_page_def pg_ofs_def PGSIZE_def PHYS_BASE_def by (intro dvd_diff_nat) (auto simp: mod_eq_0_iff_dvd)

lemma entry_facts:
  assumes "kernel_page p" and "f < 4096"
  shows "tab (entry p f) = p" and "entry p f < 2 ^ 32" and "odd (entry p f) = odd f"
    and "entry p f AND PTE_ADDR = p - PHYS_BASE"
proof -
  obtain q where q: "p - PHYS_BASE = 4096 * q" using kernel_page_dvd [OF assms(1)] by (auto simp: dvd_def)
  have p: "p = 4096 * q + PHYS_BASE" "4096 * q + PHYS_BASE < 2 ^ 32" using q assms(1) by (auto simp: kernel_page_def)
  have e: "entry p f = 4096 * q + f" by (simp add: entry_def q)
  have d: "(4096 * q + f) div 4096 = q" using assms(2) by simp
  show "tab (entry p f) = p" unfolding tab_def e d using p(1) by simp
  have "4096 * q + 4096 < 2 ^ 32" using p(2) by (simp add: PHYS_BASE_def)
  then show l: "entry p f < 2 ^ 32" unfolding e using assms(2) by simp
  show "odd (entry p f) = odd f" unfolding e by simp
  show "entry p f AND PTE_ADDR = p - PHYS_BASE"
    using addr_part [OF l] q by (simp add: e d)
qed

lemma entry_create:
  assumes "kernel_page p"
  shows "pde_create p = Some (entry p 7)"
    and "pte_create_user p rw = Some (entry p (if rw then 7 else 5))"
proof -
  have o: "4 OR 1 OR 2 = (7 :: nat)" "1 OR 2 OR 4 = (7 :: nat)" "1 OR 0 OR 4 = (5 :: nat)" by simp_all
  have v: "vtop p = Some (p - PHYS_BASE)" using assms by (simp add: vtop_def kernel_page_def is_kernel_vaddr_def)
  note al = aligned_or [OF kernel_page_dvd [OF assms]]
  have "pde_create p = Some (p - PHYS_BASE OR 7)"
    using assms v unfolding o(1) [symmetric] by (simp add: pde_create_def kernel_page_def PTE_U_def PTE_P_def PTE_W_def or.assoc)
  then show "pde_create p = Some (entry p 7)" by (simp add: al entry_def)
  have "pte_create_user p rw = Some (p - PHYS_BASE OR (if rw then 7 else 5))"
    using assms v by (cases rw) (simp_all add: pte_create_user_def pte_create_kernel_def kernel_page_def
        PTE_U_def PTE_P_def PTE_W_def or.assoc)
  then show "pte_create_user p rw = Some (entry p (if rw then 7 else 5))" by (simp add: al entry_def)
qed

lemma ptov_kernel: "kernel_page p \<Longrightarrow> ptov (p - PHYS_BASE) = Some p"
  by (auto simp: kernel_page_def ptov_def size_add_def PHYS_BASE_def)

section \<open>Words of pages\<close>

lemma ld32_same: "same m m' p 4 \<Longrightarrow> ld32 m' p = ld32 m p"
  by (simp add: same_def ld32_def)

lemma ld32_put: "x < 2 ^ 32 \<Longrightarrow> ld32 (put m p (le32 x)) p = Some x"
  by (rule ld32_blk) simp_all

lemma ld32_writable: "writable m p 4 \<Longrightarrow> \<exists>x < 2 ^ 32. ld32 m p = Some x"
proof -
  assume w: "writable m p 4"
  obtain a b c d where "m p = Some a" "m (p + 1) = Some b" "m (p + 2) = Some c" "m (p + 3) = Some d"
    using w by (auto simp: numeral_eq_Suc)
  then show ?thesis using rd32_lt [of "[a, b, c, d]"] by (simp add: ld32_def)
qed

lemma ld32_zeros: "q + 4 \<le> n \<Longrightarrow> ld32 (put m p (replicate n 0)) (p + q) = Some 0"
  by (simp add: ld32_def put_nth rd32_def)

lemma stw_ok: "writable (pmem (pg v)) p 4 \<Longrightarrow> stw v p x = Some (set_mem (put (pmem (pg v)) p (le32 x)) v)"
  by (simp add: stw_def st32_ok)

lemma set_mem_fields [simp]:
  "pmem (pg (set_mem m v)) = m" "init_page_dir (set_mem m v) = init_page_dir v"
  "init_ram_pages (set_mem m v) = init_ram_pages v" "cr3 (set_mem m v) = cr3 v"
  "free_pages u (pg (set_mem m v)) = free_pages u (pg v)" "get_pool u (pg (set_mem m v)) = get_pool u (pg v)"
  by (simp_all add: set_mem_def)

section \<open>Page directories in memory\<close>

text \<open>A page of the kernel pool that is in use.\<close>

definition kpage :: "vm \<Rightarrow> nat \<Rightarrow> bool" where
  "kpage v p \<longleftrightarrow> (\<exists>i < pool_pages False (pg v). p = page_addr False (pg v) i \<and> i \<notin> free_pages False (pg v))"

definition vm_ok :: "vm \<Rightarrow> bool" where
  "vm_ok v \<longleftrightarrow> pstate_ok (pg v) \<and> PHYS_BASE \<le> base (kernel_pool (pg v))"

definition ent :: "vm \<Rightarrow> nat \<Rightarrow> nat \<Rightarrow> nat" where
  "ent v pd i = the (ldw v (pd + 4 * i))"

definition pd_ok :: "vm \<Rightarrow> nat \<Rightarrow> bool" where
  "pd_ok v pd \<longleftrightarrow> vm_ok v \<and> kpage v pd
     \<and> (\<forall>i < 768. ent v pd i \<noteq> 0 \<longrightarrow> odd (ent v pd i) \<and> kpage v (tab (ent v pd i)) \<and> tab (ent v pd i) \<noteq> pd)
     \<and> (\<forall>i < 768. \<forall>j < 768. ent v pd i \<noteq> 0 \<longrightarrow> ent v pd j \<noteq> 0 \<longrightarrow> i \<noteq> j \<longrightarrow> tab (ent v pd i) \<noteq> tab (ent v pd j))"

lemma kpage_facts:
  assumes "vm_ok v" and "kpage v p"
  shows "kernel_page p" and "writable (pmem (pg v)) p PGSIZE" and "p \<noteq> 0" and "p + PGSIZE < 2 ^ 32"
proof -
  obtain i where i: "i + 1 \<le> pool_pages False (pg v)" "p = page_addr False (pg v) i"
    using assms(2) unfolding kpage_def by (metis Suc_eq_plus1 Suc_leI)
  have ok: "pstate_ok (pg v)" using assms(1) by (simp add: vm_ok_def)
  note b = page_addr_bounds [OF ok i(1)]
  show "p + PGSIZE < 2 ^ 32" "p \<noteq> 0" using b i(2) by simp_all
  show "writable (pmem (pg v)) p PGSIZE" using pstate_writable [OF ok i(1)] i(2) by simp
  have "PHYS_BASE \<le> p" using assms(1) i(2) by (auto simp: vm_ok_def page_addr_def get_pool_def)
  then show "kernel_page p" using b i(2) by (simp add: kernel_page_def)
qed

lemma kpage_apart: "kpage v p \<Longrightarrow> kpage v q \<Longrightarrow> p \<noteq> q \<Longrightarrow> p + PGSIZE \<le> q \<or> q + PGSIZE \<le> p"
proof -
  assume "kpage v p" "kpage v q" and ne: "p \<noteq> q"
  then obtain i j where p: "p = page_addr False (pg v) i" and q: "q = page_addr False (pg v) j"
    unfolding kpage_def by blast
  have "i < j \<or> j < i" using ne p q by (cases i j rule: linorder_cases) auto
  then show ?thesis
  proof
    assume "i < j"
    then have "PGSIZE * Suc i \<le> PGSIZE * j" by (intro mult_le_mono2) simp
    then show ?thesis by (simp add: p q page_addr_def)
  next
    assume "j < i"
    then have "PGSIZE * Suc j \<le> PGSIZE * i" by (intro mult_le_mono2) simp
    then show ?thesis by (simp add: p q page_addr_def)
  qed
qed

lemma kpage_word:
  assumes "vm_ok v" and "kpage v p" and "k < 1024"
  shows "ldw v (p + 4 * k) = Some (ent v p k)" and "ent v p k < 2 ^ 32" and "writable (pmem (pg v)) (p + 4 * k) 4"
proof -
  show w: "writable (pmem (pg v)) (p + 4 * k) 4"
    by (rule writable_mono [OF kpage_facts(2) [OF assms(1,2)]]) (use assms(3) in \<open>auto simp: PGSIZE_def\<close>)
  then obtain x where "x < 2 ^ 32" "ldw v (p + 4 * k) = Some x" using ld32_writable unfolding ldw_def by blast
  then show "ldw v (p + 4 * k) = Some (ent v p k)" and "ent v p k < 2 ^ 32" by (simp_all add: ent_def)
qed

lemma user_index: "a < PHYS_BASE \<Longrightarrow> pd_no a < 768 \<and> pt_no a < 1024"
  by (simp add: pd_no_eq pt_no_eq PHYS_BASE_def less_mult_imp_div_less)

lemma page_index: "pg_no a = pg_no b \<longleftrightarrow> pd_no a = pd_no b \<and> pt_no a = pt_no b"
proof -
  have "pd_no c = pg_no c div 1024 \<and> pt_no c = pg_no c mod 1024" for c
    by (simp add: pd_no_eq pt_no_eq pg_no_def PGSIZE_def div_mult2_eq [of c 4096 1024, simplified])
  then show ?thesis by (metis div_mult_mod_eq)
qed

text \<open>The page table entry of an address, 0 where there is no table.\<close>

definition slot :: "vm \<Rightarrow> nat \<Rightarrow> nat \<Rightarrow> nat" where
  "slot v pd a = tab (ent v pd (pd_no a)) + 4 * pt_no a"

definition pte :: "vm \<Rightarrow> nat \<Rightarrow> nat \<Rightarrow> nat" where
  "pte v pd a = (if ent v pd (pd_no a) = 0 then 0 else ent v (tab (ent v pd (pd_no a))) (pt_no a))"

lemma pd_table:
  assumes "pd_ok v pd" and "a < PHYS_BASE" and "ent v pd (pd_no a) \<noteq> 0"
  shows "kpage v (tab (ent v pd (pd_no a)))" and "pde_get_pt (ent v pd (pd_no a)) = Some (tab (ent v pd (pd_no a)))"
    and "ldw v (slot v pd a) = Some (pte v pd a)" and "slot v pd a \<noteq> 0"
proof -
  let ?e = "ent v pd (pd_no a)"
  have i: "pd_no a < 768" "pt_no a < 1024" using user_index [OF assms(2)] by auto
  have vm: "vm_ok v" and pd: "kpage v pd" using assms(1) by (simp_all add: pd_ok_def)
  have k: "kpage v (tab ?e)" and odd: "odd ?e" using assms(1,3) i(1) by (auto simp: pd_ok_def)
  show "kpage v (tab ?e)" by (rule k)
  note f = kpage_facts [OF vm k]
  have lt: "?e < 2 ^ 32" using kpage_word(2) [OF vm pd] i(1) by simp
  have "?e AND PTE_ADDR = tab ?e - PHYS_BASE" unfolding addr_part [OF lt] by (simp add: tab_def)
  then show "pde_get_pt ?e = Some (tab ?e)"
    using odd ptov_kernel [OF f(1)] by (simp add: pde_get_pt_def present_odd)
  show "ldw v (slot v pd a) = Some (pte v pd a)"
    using kpage_word(1) [OF vm k i(2)] assms(3) by (simp add: slot_def pte_def)
  show "slot v pd a \<noteq> 0" using f(3) by (simp add: slot_def)
qed

lemma lookup_existing:
  assumes "pd_ok v pd" and "a < PHYS_BASE" and "ent v pd (pd_no a) \<noteq> 0 \<or> \<not> create"
  shows "lookup_page pd a create v = Some (if ent v pd (pd_no a) = 0 then 0 else slot v pd a, v)"
proof -
  have vm: "vm_ok v" and pd: "kpage v pd" using assms(1) by (simp_all add: pd_ok_def)
  have l: "ldw v (pd + 4 * pd_no a) = Some (ent v pd (pd_no a))"
    using kpage_word(1) [OF vm pd, of "pd_no a"] user_index [OF assms(2)] by simp
  show ?thesis
    using assms kpage_facts(3) [OF vm pd] l pd_table [OF assms(1,2)]
    by (auto simp: lookup_page_def is_user_vaddr_def slot_def)
qed

text \<open>What an entry says of an offset in its page.\<close>

definition translate :: "nat \<Rightarrow> nat \<Rightarrow> nat option" where
  "translate x ofs = (if odd x then do { page \<leftarrow> pte_get_page x; Some (page + ofs) } else Some 0)"

lemma get_page_pte:
  assumes "pd_ok v pd" and "a < PHYS_BASE"
  shows "pagedir_get_page pd a v = translate (pte v pd a) (pg_ofs a)"
  using assms lookup_existing [OF assms, of False] pd_table [OF assms]
  by (auto simp: pagedir_get_page_def is_user_vaddr_def translate_def pte_def present_odd)

section \<open>Updates\<close>

lemma ent_same: "same (pmem (pg v)) (pmem (pg v')) (p + 4 * i) 4 \<Longrightarrow> ent v' p i = ent v p i"
  by (simp add: ent_def ldw_def ld32_same)

lemma kpage_set_mem [simp]: "kpage (set_mem m v) p = kpage v p"
  by (simp add: kpage_def pool_pages_def page_addr_def)

lemma vm_ok_put: "vm_ok v \<Longrightarrow> vm_ok (set_mem (put (pmem (pg v)) p bs) v)"
  using pmem_ok [of "pg v" p bs] by (simp add: vm_ok_def set_mem_def)

text \<open>What page table updates leave as it was: the pools' places and sizes, the user pool, the
  machine's registers, and all memory outside the kernel pool.\<close>

definition kernel_only :: "vm \<Rightarrow> vm \<Rightarrow> bool" where
  "kernel_only v v' \<longleftrightarrow>
     (\<forall>u. base (get_pool u (pg v')) = base (get_pool u (pg v)) \<and> pool_pages u (pg v') = pool_pages u (pg v))
     \<and> free_pages True (pg v') = free_pages True (pg v)
     \<and> init_page_dir v' = init_page_dir v \<and> init_ram_pages v' = init_ram_pages v \<and> cr3 v' = cr3 v
     \<and> (\<forall>a. a < base (kernel_pool (pg v)) \<or> base (kernel_pool (pg v)) + PGSIZE * pool_pages False (pg v) \<le> a
          \<longrightarrow> pmem (pg v') a = pmem (pg v) a)"

lemma kernel_only_refl [simp]: "kernel_only v v"
  by (simp add: kernel_only_def)

lemma kernel_only_trans: "kernel_only v1 v2 \<Longrightarrow> kernel_only v2 v3 \<Longrightarrow> kernel_only v1 v3"
  unfolding kernel_only_def by (metis get_pool_def)

lemma kernel_onlyD:
  assumes "kernel_only v v'"
  shows "init_page_dir v' = init_page_dir v" "init_ram_pages v' = init_ram_pages v" "cr3 v' = cr3 v"
    "free_pages True (pg v') = free_pages True (pg v)"
  using assms by (simp_all add: kernel_only_def)

text \<open>The addresses that an update may write.\<close>

definition writes_in :: "nat set \<Rightarrow> vm \<Rightarrow> vm \<Rightarrow> bool" where
  "writes_in A v v' \<longleftrightarrow> (\<forall>a. a \<notin> A \<longrightarrow> pmem (pg v') a = pmem (pg v) a)"

lemma writes_in_trans: "writes_in A v1 v2 \<Longrightarrow> writes_in B v2 v3 \<Longrightarrow> A \<union> B \<subseteq> C \<Longrightarrow> writes_in C v1 v3"
  unfolding writes_in_def by (metis Un_iff subsetD)

lemma writes_in_put: "writes_in {p ..< p + length bs} v (set_mem (put (pmem (pg v)) p bs) v)"
  by (simp add: writes_in_def put_nth)

lemma kernel_only_put:
  assumes "kpage v t" and "t \<le> p" and "p + length bs \<le> t + PGSIZE"
  shows "kernel_only v (set_mem (put (pmem (pg v)) p bs) v)"
proof -
  obtain i where i: "i < pool_pages False (pg v)" "t = page_addr False (pg v) i" using assms(1) by (auto simp: kpage_def)
  have "PGSIZE * Suc i \<le> PGSIZE * pool_pages False (pg v)" using i(1) by (intro mult_le_mono2) simp
  then have "base (kernel_pool (pg v)) \<le> t" "t + PGSIZE \<le> base (kernel_pool (pg v)) + PGSIZE * pool_pages False (pg v)"
    using i(2) by (simp_all add: page_addr_def get_pool_def)
  then show ?thesis using assms(2,3) by (auto simp: kernel_only_def pool_pages_def put_nth)
qed

lemma store_word:
  assumes "vm_ok v" and "kpage v t" and "k < 1024" and "x < 2 ^ 32"
  shows "\<exists>v'. stw v (t + 4 * k) x = Some v' \<and> vm_ok v' \<and> kpage v' = kpage v
    \<and> kernel_only v v' \<and> writes_in {t + 4 * k ..< t + 4 * k + 4} v v'
    \<and> (\<forall>q j. kpage v q \<longrightarrow> j < 1024 \<longrightarrow> ent v' q j = (if q = t \<and> j = k then x else ent v q j))"
proof -
  let ?m = "put (pmem (pg v)) (t + 4 * k) (le32 x)"
  have "ent (set_mem ?m v) q j = (if q = t \<and> j = k then x else ent v q j)" if q: "kpage v q" "j < 1024" for q j
  proof (cases "q = t \<and> j = k")
    case True
    then show ?thesis using ld32_put [OF assms(4), of "pmem (pg v)" "t + 4 * k"] by (simp add: ent_def ldw_def)
  next
    case False
    have "q = t \<or> q + PGSIZE \<le> t \<or> t + PGSIZE \<le> q" using kpage_apart [OF q(1) assms(2)] by blast
    then have "q + 4 * j + 4 \<le> t + 4 * k \<or> t + 4 * k + 4 \<le> q + 4 * j"
    proof (elim disjE)
      assume "q = t"
      then show ?thesis using False by (cases "j < k") auto
    qed (use q(2) assms(3) in \<open>simp_all add: PGSIZE_def\<close>)
    then have "same (pmem (pg v)) ?m (q + 4 * j) 4" by (intro same_put) simp
    then show ?thesis using False by (subst ent_same [of v]) auto
  qed
  moreover have fit: "4 * k + 4 \<le> PGSIZE" using assms(3) by (simp add: PGSIZE_def)
  ultimately show ?thesis
    using stw_ok [OF kpage_word(3) [OF assms(1-3)], of x] vm_ok_put [OF assms(1), of "t + 4 * k" "le32 x"]
      kernel_only_put [OF assms(2), of "t + 4 * k" "le32 x"] writes_in_put [of "t + 4 * k" "le32 x" v] fit
    by (intro exI [of _ "set_mem ?m v"]) (auto simp: fun_eq_iff)
qed

lemma get_zero_page:
  assumes ok: "vm_ok v"
  shows "get_page PAL_ZERO v = Some (0, v) \<and> free_pages False (pg v) = {} \<or>
    (\<exists>p v1. get_page PAL_ZERO v = Some (p, v1) \<and> vm_ok v1 \<and> p \<noteq> 0 \<and> \<not> kpage v p
      \<and> (\<forall>q. kpage v1 q \<longleftrightarrow> kpage v q \<or> q = p)
      \<and> (\<forall>q j. kpage v q \<longrightarrow> j < 1024 \<longrightarrow> ent v1 q j = ent v q j) \<and> (\<forall>j < 1024. ent v1 p j = 0)
      \<and> kernel_only v v1 \<and> writes_in {p ..< p + PGSIZE} v v1)"
proof (cases "free_pages False (pg v) = {}")
  case True
  have z: "PAL_ZERO AND PAL_USER = 0" "PAL_ZERO AND PAL_ASSERT = 0" by (simp_all add: PAL_ZERO_def PAL_USER_def PAL_ASSERT_def)
  have "palloc_get_multiple PAL_ZERO 1 (pg v) = Some (0, pg v)"
    using palloc_get_ok(1) [of "pg v" 1 PAL_ZERO] ok True z by (simp add: vm_ok_def)
  then show ?thesis using True by (simp add: get_page_def palloc_get_page_def)
next
  case False
  have z: "PAL_ZERO AND PAL_USER = 0" "PAL_ZERO AND PAL_ZERO \<noteq> 0" by (simp_all add: PAL_ZERO_def PAL_USER_def)
  obtain a where "a \<in> free_pages False (pg v)" using False by blast
  then have fit: "{a ..< a + 1} \<subseteq> free_pages False (pg v)" by simp
  have pok: "pstate_ok (pg v)" using ok by (simp add: vm_ok_def)
  obtain i s' where g: "palloc_get_multiple PAL_ZERO 1 (pg v) = Some (page_addr False (pg v) i, s')"
      "{i ..< i + 1} \<subseteq> free_pages False (pg v)" "i + 1 \<le> pool_pages False (pg v)"
      "free_pages False s' = free_pages False (pg v) - {i ..< i + 1}" "free_pages True s' = free_pages True (pg v)"
      "pstate_ok s'" "\<forall>u. base (get_pool u s') = base (get_pool u (pg v)) \<and> pool_pages u s' = pool_pages u (pg v)"
      "pmem s' = put (pmem (pg v)) (page_addr False (pg v) i) (replicate (PGSIZE * 1) 0)"
    using palloc_get_ok(2) [where s = "pg v" and n = 1 and flags = PAL_ZERO and a = a] pok fit z
    by (auto split: if_splits)
  define p where "p = page_addr False (pg v) i"
  define v1 where "v1 = v\<lparr>pg := s'\<rparr>"
  have i: "i \<in> free_pages False (pg v)" using g(2) by simp
  have pa: "page_addr False s' j = page_addr False (pg v) j" for j using g(7) by (simp add: page_addr_def)
  have inj: "page_addr False (pg v) j = p \<longleftrightarrow> j = i" for j by (simp add: p_def page_addr_def PGSIZE_def)
  have np: "\<not> kpage v p" using i inj unfolding kpage_def by metis
  have k1: "kpage v1 q \<longleftrightarrow> kpage v q \<or> q = p" for q
    using g(3,4,7) i inj unfolding kpage_def v1_def by (auto simp: pa p_def intro: exI [of _ i])
  have ap: "q + PGSIZE \<le> p \<or> p + PGSIZE \<le> q" if "kpage v q" for q
    using kpage_apart [of v1 q p] k1 [of q] k1 [of p] that np by blast
  have "ent v1 q j = ent v q j" if "kpage v q" "j < 1024" for q j
    by (rule ent_same) (unfold v1_def, simp add: g(8), rule same_put,
        use ap [OF that(1)] that(2) in \<open>auto simp: p_def PGSIZE_def\<close>)
  moreover have "ent v1 p j = 0" if "j < 1024" for j
    using ld32_zeros [of "4 * j" PGSIZE "pmem (pg v)" p] that by (simp add: ent_def ldw_def v1_def g(8) p_def PGSIZE_def)
  moreover have "vm_ok v1" using g(6) spec [OF g(7), of False] ok by (simp add: vm_ok_def v1_def get_pool_def)
  moreover have "p \<noteq> 0" using page_addr_bounds(1) [OF pok g(3)] by (simp add: p_def)
  moreover have "get_page PAL_ZERO v = Some (p, v1)"
    using g(1) by (simp add: get_page_def palloc_get_page_def v1_def p_def)
  moreover have "kernel_only v v1"
  proof -
    have "PGSIZE * Suc i \<le> PGSIZE * pool_pages False (pg v)" using g(3) by (intro mult_le_mono2) simp
    then have "base (kernel_pool (pg v)) \<le> p" "p + PGSIZE \<le> base (kernel_pool (pg v)) + PGSIZE * pool_pages False (pg v)"
      by (simp_all add: p_def page_addr_def get_pool_def)
    then show ?thesis using g(5,7,8) by (auto simp: kernel_only_def v1_def put_nth p_def [symmetric])
  qed
  moreover have "writes_in {p ..< p + PGSIZE} v v1" by (simp add: writes_in_def v1_def g(8) p_def put_nth)
  ultimately show ?thesis using np k1 by blast
qed

lemma store_slot:
  assumes ok: "pd_ok v pd" and a: "a < PHYS_BASE" and e: "ent v pd (pd_no a) \<noteq> 0" and x: "x < 2 ^ 32"
  shows "\<exists>v'. stw v (slot v pd a) x = Some v' \<and> pd_ok v' pd \<and> kernel_only v v' \<and> kpage v' = kpage v
    \<and> writes_in {slot v pd a ..< slot v pd a + 4} v v' \<and> ent v' pd (pd_no a) = ent v pd (pd_no a)
    \<and> (\<forall>b < PHYS_BASE. pte v' pd b = (if pg_no b = pg_no a then x else pte v pd b))"
proof -
  let ?t = "tab (ent v pd (pd_no a))"
  have vm: "vm_ok v" and pd: "kpage v pd" using ok by (simp_all add: pd_ok_def)
  have ia: "pd_no a < 768" "pt_no a < 1024" using user_index [OF a] by auto
  have t: "kpage v ?t" "?t \<noteq> pd" using ok ia(1) e by (auto simp: pd_ok_def)
  obtain v' where s: "stw v (slot v pd a) x = Some v'" "vm_ok v'" "kpage v' = kpage v" "kernel_only v v'"
      "writes_in {slot v pd a ..< slot v pd a + 4} v v'"
    and en: "\<And>q j. kpage v q \<Longrightarrow> j < 1024 \<Longrightarrow> ent v' q j = (if q = ?t \<and> j = pt_no a then x else ent v q j)"
    using store_word [OF vm t(1) ia(2) x] unfolding slot_def by blast
  have pde: "ent v' pd i = ent v pd i" if "i < 768" for i
    using en [OF pd, of i] t(2) that by simp
  have pd': "pd_ok v' pd" using ok s(2,3) pde unfolding pd_ok_def by simp
  have "pte v' pd b = (if pg_no b = pg_no a then x else pte v pd b)" if b: "b < PHYS_BASE" for b
  proof -
    have ib: "pd_no b < 768" "pt_no b < 1024" using user_index [OF b] by auto
    show ?thesis
    proof (cases "ent v pd (pd_no b) = 0")
      case True
      then have "pd_no b \<noteq> pd_no a" using e by metis
      then show ?thesis using True pde [OF ib(1)] by (simp add: pte_def page_index)
    next
      case False
      have tb: "kpage v (tab (ent v pd (pd_no b)))" using ok ib(1) False by (auto simp: pd_ok_def)
      have "tab (ent v pd (pd_no b)) = ?t \<longleftrightarrow> pd_no b = pd_no a"
        using ok ia(1) ib(1) e False unfolding pd_ok_def by metis
      then show ?thesis using False pde [OF ib(1)] en [OF tb ib(2)] by (simp add: pte_def page_index)
    qed
  qed
  with s(1,3,4,5) pd' pde [OF ia(1)] show ?thesis by blast
qed

lemma lookup_create:
  assumes ok: "pd_ok v pd" and a: "a < PHYS_BASE"
  shows "lookup_page pd a True v = Some (0, v) \<and> free_pages False (pg v) = {} \<and> pte v pd a = 0 \<or>
    (\<exists>v'. lookup_page pd a True v = Some (slot v' pd a, v') \<and> pd_ok v' pd \<and> ent v' pd (pd_no a) \<noteq> 0
      \<and> (\<forall>b < PHYS_BASE. pte v' pd b = pte v pd b)
      \<and> kernel_only v v'
      \<and> (if ent v pd (pd_no a) \<noteq> 0 then v' = v
         else \<not> kpage v (tab (ent v' pd (pd_no a))) \<and> writes_in ({pd + 4 * pd_no a ..< pd + 4 * pd_no a + 4}
           \<union> {tab (ent v' pd (pd_no a)) ..< tab (ent v' pd (pd_no a)) + PGSIZE}) v v'))"
proof (cases "ent v pd (pd_no a) = 0")
  case False
  then show ?thesis using lookup_existing [OF ok a, of True] ok by auto
next
  case e0: True
  have vm: "vm_ok v" and pd: "kpage v pd" using ok by (simp_all add: pd_ok_def)
  have ia: "pd_no a < 768" "pt_no a < 1024" "pd_no a < 1024" using user_index [OF a] by auto
  note pdf = kpage_facts [OF vm pd]
  have ld: "ldw v (pd + 4 * pd_no a) = Some 0" using kpage_word(1) [OF vm pd ia(3)] e0 by simp
  from get_zero_page [OF vm] show ?thesis
  proof (elim disjE conjE exE)
    assume "get_page PAL_ZERO v = Some (0, v)" "free_pages False (pg v) = {}"
    then show ?thesis using ld pdf(3) a e0 by (simp add: lookup_page_def is_user_vaddr_def pte_def)
  next
    fix p v1
    assume g: "get_page PAL_ZERO v = Some (p, v1)" and vm1: "vm_ok v1" and p0: "p \<noteq> 0" and np: "\<not> kpage v p"
      and k1: "\<forall>q. kpage v1 q \<longleftrightarrow> kpage v q \<or> q = p"
      and e1: "\<forall>q j. kpage v q \<longrightarrow> j < 1024 \<longrightarrow> ent v1 q j = ent v q j" and z: "\<forall>j < 1024. ent v1 p j = 0"
      and fld: "kernel_only v v1" and wr1: "writes_in {p ..< p + PGSIZE} v v1"
    have kp: "kpage v1 p" "kpage v1 pd" "p \<noteq> pd" using k1 pd np by auto
    have pk: "kernel_page p" by (rule kpage_facts(1) [OF vm1 kp(1)])
    have x: "entry p 7 < 2 ^ 32" "tab (entry p 7) = p" "odd (entry p 7)" using entry_facts [OF pk, of 7] by auto
    obtain v2 where s: "stw v1 (pd + 4 * pd_no a) (entry p 7) = Some v2" "vm_ok v2" "kpage v2 = kpage v1"
        "kernel_only v1 v2" "writes_in {pd + 4 * pd_no a ..< pd + 4 * pd_no a + 4} v1 v2"
      and e2: "\<And>q j. kpage v1 q \<Longrightarrow> j < 1024 \<Longrightarrow> ent v2 q j = (if q = pd \<and> j = pd_no a then entry p 7 else ent v1 q j)"
      using store_word [OF vm1 kp(2) ia(3) x(1)] by blast
    have pde: "ent v2 pd i = (if i = pd_no a then entry p 7 else ent v pd i)" if "i < 768" for i
      using e2 [OF kp(2), of i] e1 pd that by simp
    have ntab: "tab (ent v pd i) \<noteq> p" if "i < 768" "ent v pd i \<noteq> 0" for i
      using ok that np unfolding pd_ok_def by blast
    have pd2: "pd_ok v2 pd"
      unfolding pd_ok_def
    proof (intro conjI allI impI)
      show "vm_ok v2" "kpage v2 pd" using s kp by simp_all
    next
      fix i :: nat
      assume i: "i < 768" and n: "ent v2 pd i \<noteq> 0"
      show "odd (ent v2 pd i)" "kpage v2 (tab (ent v2 pd i))" "tab (ent v2 pd i) \<noteq> pd"
        using i n x kp ok s(3) k1 unfolding pde [OF i] pd_ok_def by (auto split: if_splits)
    next
      fix i j :: nat
      assume i: "i < 768" and j: "j < 768" and n: "ent v2 pd i \<noteq> 0" "ent v2 pd j \<noteq> 0" "i \<noteq> j"
      show "tab (ent v2 pd i) \<noteq> tab (ent v2 pd j)"
        using n x(2) ntab [OF i] ntab [OF j] ok i j unfolding pde [OF i] pde [OF j] pd_ok_def
        by (auto split: if_splits)
    qed
    have pte2: "pte v2 pd b = pte v pd b" if b: "b < PHYS_BASE" for b
    proof -
      have ib: "pd_no b < 768" "pt_no b < 1024" using user_index [OF b] by auto
      show ?thesis
      proof (cases "pd_no b = pd_no a")
        case True
        then show ?thesis using e0 x(2) e2 [OF kp(1) ib(2)] z kp(3) ib by (simp add: pte_def pde)
      next
        case False
        have "kpage v (tab (ent v pd (pd_no b)))" if "ent v pd (pd_no b) \<noteq> 0"
          using ok ib(1) that by (auto simp: pd_ok_def)
        moreover have "tab (ent v pd (pd_no b)) \<noteq> pd" if "ent v pd (pd_no b) \<noteq> 0"
          using ok ib(1) that by (auto simp: pd_ok_def)
        ultimately show ?thesis using False ib e2 e1 k1 by (simp add: pte_def pde)
      qed
    qed
    have l2: "ldw v2 (pd + 4 * pd_no a) = Some (entry p 7)"
      using kpage_word(1) [OF s(2), of pd "pd_no a"] s(3) kp(2) ia pde [OF ia(1)] by simp
    have "ent v2 pd (pd_no a) \<noteq> 0" using pde [OF ia(1)] odd_pos [OF x(3)] by simp
    moreover have "pde_get_pt (entry p 7) = Some p"
      using pd_table(2) [OF pd2 a calculation] pde [OF ia(1)] x(2) by simp
    moreover have "lookup_page pd a True v = Some (slot v2 pd a, v2)"
      using ld pdf(3) a g p0 s(1) l2 calculation(2) entry_create(1) [OF pk] pde [OF ia(1)] x(2)
      by (simp add: lookup_page_def is_user_vaddr_def slot_def Let_def)
    moreover have "kernel_only v v2" by (rule kernel_only_trans [OF fld s(4)])
    moreover have t2: "tab (ent v2 pd (pd_no a)) = p" using pde [OF ia(1)] x(2) by simp
    moreover have "writes_in ({pd + 4 * pd_no a ..< pd + 4 * pd_no a + 4} \<union> {p ..< p + PGSIZE}) v v2"
      by (rule writes_in_trans [OF wr1 s(5)]) blast
    ultimately show ?thesis using pd2 pte2 np e0 by (intro disjI2 exI [of _ v2]) simp
  qed
qed

section \<open>Properties\<close>

text \<open>
  What mapping a page writes: the entry of the page in its page table, and when the table is new,
  all of the table, a page that was free, and the entry of the table in the directory.
\<close>

definition map_writes :: "nat \<Rightarrow> nat \<Rightarrow> vm \<Rightarrow> vm \<Rightarrow> bool" where
  "map_writes pd u v v' \<longleftrightarrow>
     (let t = tab (ent v' pd (pd_no u)); e = t + 4 * pt_no u; d = pd + 4 * pd_no u in
      kpage v' t \<and> t \<noteq> pd \<and>
      (if ent v pd (pd_no u) \<noteq> 0 then t = tab (ent v pd (pd_no u)) \<and> writes_in {e ..< e + 4} v v'
       else \<not> kpage v t \<and> writes_in ({d ..< d + 4} \<union> {t ..< t + PGSIZE}) v v'))"

definition mapped :: "vm \<Rightarrow> nat \<Rightarrow> nat \<Rightarrow> bool" where
  "mapped v pd a \<longleftrightarrow> pte v pd a AND PTE_P \<noteq> 0"

lemma translate_entry:
  assumes "kernel_page k"
  shows "translate (entry k (if rw then 7 else 5)) ofs = Some (k + ofs)"
  using entry_facts(3,4) [OF assms, of "if rw then 7 else 5"] ptov_kernel [OF assms]
  by (auto simp: translate_def pte_get_page_def)

lemma set_page_ok:
  assumes ok: "pd_ok v pd" and pd: "pd \<noteq> init_page_dir v" and u: "pg_ofs u = 0" "u < PHYS_BASE"
    and k: "kernel_page k" and ram: "(k - PHYS_BASE) div 4096 < init_ram_pages v" and un: "\<not> mapped v pd u"
  shows "pagedir_set_page pd u k rw v = Some (False, v) \<and> free_pages False (pg v) = {} \<or>
    (\<exists>v'. pagedir_set_page pd u k rw v = Some (True, v') \<and> pd_ok v' pd
      \<and> (\<forall>a < PHYS_BASE. pte v' pd a = (if pg_no a = pg_no u then entry k (if rw then 7 else 5) else pte v pd a))
      \<and> kernel_only v v' \<and> map_writes pd u v v')"
proof -
  have pre: "vtop k = Some (k - PHYS_BASE)" "pg_ofs k = 0" "drop_bit 12 (k - PHYS_BASE) < init_ram_pages v"
    using k ram by (simp_all add: vtop_def kernel_page_def is_kernel_vaddr_def drop_bit_eq_div)
  let ?f = "if rw then 7 else 5 :: nat"
  have x: "entry k ?f < 2 ^ 32" by (rule entry_facts(2) [OF k]) simp
  from lookup_create [OF ok u(2)] show ?thesis
  proof (elim disjE conjE exE)
    assume "lookup_page pd u True v = Some (0, v)" "free_pages False (pg v) = {}"
    then show ?thesis using pre u pd by (simp add: pagedir_set_page_def is_user_vaddr_def)
  next
    fix v1
    assume l: "lookup_page pd u True v = Some (slot v1 pd u, v1)" and ok1: "pd_ok v1 pd"
      and e: "ent v1 pd (pd_no u) \<noteq> 0" and same: "\<forall>b < PHYS_BASE. pte v1 pd b = pte v pd b"
      and fld: "kernel_only v v1"
      and wr: "if ent v pd (pd_no u) \<noteq> 0 then v1 = v
         else \<not> kpage v (tab (ent v1 pd (pd_no u))) \<and> writes_in ({pd + 4 * pd_no u ..< pd + 4 * pd_no u + 4}
           \<union> {tab (ent v1 pd (pd_no u)) ..< tab (ent v1 pd (pd_no u)) + PGSIZE}) v v1"
    note t = pd_table [OF ok1 u(2) e]
    obtain v2 where s: "stw v1 (slot v1 pd u) (entry k ?f) = Some v2" "pd_ok v2 pd" "kernel_only v1 v2"
        "kpage v2 = kpage v1" "writes_in {slot v1 pd u ..< slot v1 pd u + 4} v1 v2" "ent v2 pd (pd_no u) = ent v1 pd (pd_no u)"
      and p2: "\<forall>b < PHYS_BASE. pte v2 pd b = (if pg_no b = pg_no u then entry k ?f else pte v1 pd b)"
      using store_slot [OF ok1 u(2) e x] by blast
    have ev: "pte v1 pd u AND PTE_P = 0" using un same u(2) by (simp add: mapped_def)
    have "pagedir_set_page pd u k rw v = Some (True, v2)"
      using pre u pd l t(3,4) s(1) ev entry_create(2) [OF k, of rw]
      by (simp add: pagedir_set_page_def is_user_vaddr_def)
    moreover have "kernel_only v v2" by (rule kernel_only_trans [OF fld s(3)])
    moreover have "map_writes pd u v v2"
    proof -
      have ne: "tab (ent v1 pd (pd_no u)) \<noteq> pd" using ok1 user_index [OF u(2)] e by (auto simp: pd_ok_def)
      have fit: "4 * pt_no u + 4 \<le> PGSIZE" using user_index [OF u(2)] by (simp add: PGSIZE_def)
      show ?thesis
      proof (cases "ent v pd (pd_no u) = 0")
        case True
        have "writes_in ({pd + 4 * pd_no u ..< pd + 4 * pd_no u + 4}
            \<union> {tab (ent v1 pd (pd_no u)) ..< tab (ent v1 pd (pd_no u)) + PGSIZE}) v v2"
          by (rule writes_in_trans [OF _ s(5)]) (use wr True fit in \<open>auto simp: slot_def\<close>)
        then show ?thesis using True wr ne t(1) s(4,6) by (simp add: map_writes_def Let_def)
      next
        case False
        then show ?thesis using wr ne t(1) s(4,5,6) by (simp add: map_writes_def Let_def slot_def)
      qed
    qed
    ultimately show ?thesis using s(2) p2 same by auto
  qed
qed

lemma and_not32: "x < 2 ^ 32 \<Longrightarrow> x AND not32 m < (2 ^ 32 :: nat)"
proof -
  assume "x < 2 ^ 32"
  then have "take_bit 32 x = x" by (rule take_bit_nat_eq_self)
  then have "take_bit 32 (x AND not32 m) = x AND not32 m"
    by (metis take_bit_and and.assoc and.left_idem take_bit_eq_mask and.commute)
  then show ?thesis using take_bit_nat_less_exp [of 32 "x AND not32 m"] by metis
qed

lemma clear_page_ok:
  assumes ok: "pd_ok v pd" and u: "pg_ofs u = 0" "u < PHYS_BASE" and c: "cr3 v < PHYS_BASE"
  shows "\<exists>v'. pagedir_clear_page pd u v = Some v' \<and> pd_ok v' pd
    \<and> (\<forall>a < PHYS_BASE. pg_no a \<noteq> pg_no u \<longrightarrow> pte v' pd a = pte v pd a) \<and> \<not> mapped v' pd u
    \<and> writes_in (if mapped v pd u then {slot v pd u ..< slot v pd u + 4} else {}) v v'"
proof (cases "mapped v pd u")
  case False
  then show ?thesis
    using lookup_existing [OF ok u(2), of False] pd_table [OF ok u(2)] u ok
    by (cases "ent v pd (pd_no u) = 0")
      (auto simp: pagedir_clear_page_def is_user_vaddr_def mapped_def writes_in_def)
next
  case True
  have e: "ent v pd (pd_no u) \<noteq> 0"
  proof
    assume "ent v pd (pd_no u) = 0"
    with True show False by (simp add: mapped_def pte_def)
  qed
  note t = pd_table [OF ok u(2) e]
  have vm: "vm_ok v" and pd: "kpage v pd" using ok by (simp_all add: pd_ok_def)
  let ?x = "pte v pd u AND not32 PTE_P"
  have "pte v pd u < 2 ^ 32" using kpage_word(2) [OF vm t(1)] user_index [OF u(2)] e by (simp add: pte_def)
  then have x: "?x < 2 ^ 32" by (rule and_not32)
  have ev: "even ?x" by (simp add: even_and_iff not32_def PTE_P_def)
  obtain v2 where s: "stw v (slot v pd u) ?x = Some v2" "pd_ok v2 pd" "kernel_only v v2"
        "writes_in {slot v pd u ..< slot v pd u + 4} v v2"
      and p2: "\<forall>b < PHYS_BASE. pte v2 pd b = (if pg_no b = pg_no u then ?x else pte v pd b)"
    using store_slot [OF ok u(2) e x] by blast
  have c2: "cr3 v2 < PHYS_BASE" using c kernel_onlyD(3) [OF s(3)] by simp
  have kp: "kernel_page pd" "pd \<noteq> 0" using kpage_facts(1,3) [OF vm pd] by auto
  have act: "pagedir_activate pd v2 = Some (v2\<lparr>cr3 := pd - PHYS_BASE\<rparr>)"
    using kp by (simp add: pagedir_activate_def vtop_def kernel_page_def is_kernel_vaddr_def)
  have "\<exists>v3. invalidate_pagedir pd v2 = Some v3 \<and> pg v3 = pg v2"
    using c2 by (simp add: invalidate_pagedir_def active_pd_def ptov_def act)
  then obtain v3 where v3: "invalidate_pagedir pd v2 = Some v3" "pg v3 = pg v2" by blast
  have cl: "pagedir_clear_page pd u v = Some v3"
    using lookup_existing [OF ok u(2), of False] e t(3,4) u True s(1) v3(1)
    by (simp add: pagedir_clear_page_def is_user_vaddr_def mapped_def)
  have en: "ent v3 p i = ent v2 p i" "kpage v3 p = kpage v2 p" "vm_ok v3 = vm_ok v2" for p i
    by (simp_all add: ent_def ldw_def kpage_def vm_ok_def v3(2))
  then have "pte v3 p a = pte v2 p a" "pd_ok v3 pd = pd_ok v2 pd" for p a by (simp_all add: pte_def pd_ok_def)
  moreover have "writes_in {slot v pd u ..< slot v pd u + 4} v v3" using s(4) by (simp add: writes_in_def v3(2))
  ultimately show ?thesis using cl s(2) p2 ev u(2) True
    by (intro exI [of _ v3]) (simp add: mapped_def present_odd)
qed

text \<open>C25: the page tables are a map of the user's pages.  Mapping an unmapped page succeeds
  unless no page is left for a page table; then that page and its offsets translate to the
  frame given, and every other user address translates as before; clearing the page unmaps it
  and leaves the others.  Both write no memory but the entry of the page in its page table, and
  mapping also the page of a new table, which was free before, and its entry in the directory.\<close>

theorem pagedir_set_get_clear:
  assumes "pd_ok v pd" and "pd \<noteq> init_page_dir v" and "pg_ofs u = 0" and "u < PHYS_BASE" and "\<not> mapped v pd u"
    and "kernel_page k" and "(k - PHYS_BASE) div 4096 < init_ram_pages v" and "cr3 v < PHYS_BASE"
  shows "\<exists>ok v'. pagedir_set_page pd u k rw v = Some (ok, v')
    \<and> (\<not> ok \<longrightarrow> v' = v \<and> free_pages False (pg v) = {})
    \<and> (ok \<longrightarrow> pd_ok v' pd
      \<and> (\<forall>a < PHYS_BASE. pagedir_get_page pd a v' =
           (if pg_no a = pg_no u then Some (k + pg_ofs a) else pagedir_get_page pd a v))
      \<and> map_writes pd u v v'
      \<and> (\<exists>v''. pagedir_clear_page pd u v' = Some v'' \<and> pd_ok v'' pd
           \<and> (\<forall>a < PHYS_BASE. pagedir_get_page pd a v'' =
                (if pg_no a = pg_no u then Some 0 else pagedir_get_page pd a v))
           \<and> writes_in {slot v' pd u ..< slot v' pd u + 4} v' v''))"
  using set_page_ok [OF assms(1-4,6,7,5), of rw]
proof (elim disjE conjE exE)
  assume "pagedir_set_page pd u k rw v = Some (False, v)" "free_pages False (pg v) = {}"
  then show ?thesis by (intro exI [of _ False] exI [of _ v]) simp
next
  fix v'
  assume s: "pagedir_set_page pd u k rw v = Some (True, v')" and ok': "pd_ok v' pd"
    and p: "\<forall>a < PHYS_BASE. pte v' pd a = (if pg_no a = pg_no u then entry k (if rw then 7 else 5) else pte v pd a)"
    and kv: "kernel_only v v'" and mw: "map_writes pd u v v'"
  have c: "cr3 v' < PHYS_BASE" using assms(8) kernel_onlyD(3) [OF kv] by simp
  have g: "pagedir_get_page pd a v' = (if pg_no a = pg_no u then Some (k + pg_ofs a) else pagedir_get_page pd a v)"
    if "a < PHYS_BASE" for a
    using that p get_page_pte [OF ok' that] get_page_pte [OF assms(1) that] translate_entry [OF assms(6), of rw] by simp
  obtain v'' where cl: "pagedir_clear_page pd u v' = Some v''" "pd_ok v'' pd"
      "\<forall>a < PHYS_BASE. pg_no a \<noteq> pg_no u \<longrightarrow> pte v'' pd a = pte v' pd a" "\<not> mapped v'' pd u"
      "writes_in (if mapped v' pd u then {slot v' pd u ..< slot v' pd u + 4} else {}) v' v''"
    using clear_page_ok [OF ok' assms(3,4) c] by blast
  have cw: "writes_in {slot v' pd u ..< slot v' pd u + 4} v' v''" using cl(5) by (auto simp: writes_in_def split: if_splits)
  have "pagedir_get_page pd a v'' = (if pg_no a = pg_no u then Some 0 else pagedir_get_page pd a v)"
    if a: "a < PHYS_BASE" for a
  proof (cases "pg_no a = pg_no u")
    case True
    then have "pte v'' pd a = pte v'' pd u" by (simp add: pte_def page_index)
    then show ?thesis using True cl(4) get_page_pte [OF cl(2) a] by (simp add: mapped_def translate_def present_odd)
  next
    case False
    then show ?thesis using cl(3) p a get_page_pte [OF cl(2) a] get_page_pte [OF assms(1) a] by simp
  qed
  then show ?thesis using s ok' g cl(1,2) mw cw by (intro exI [of _ True] exI [of _ v']) auto
qed

definition demo_vm :: vm where
  "demo_vm = \<lparr>pg = \<lparr>kernel_pool = \<lparr>used_map = \<lparr>bit_cnt = 3, bits = [0x1]\<rparr>, base = 0xc0100000\<rparr>,
      user_pool = \<lparr>used_map = \<lparr>bit_cnt = 1, bits = [0x0]\<rparr>, base = 0xc0104000\<rparr>,
      pmem = (\<lambda>a. Some 0)\<rparr>, init_page_dir = 0xc0000000, init_ram_pages = 1024, cr3 = 0\<rparr>"

lemma demo_pd:
  shows "pd_ok demo_vm 0xc0100000" and "\<And>a. \<not> mapped demo_vm 0xc0100000 a" and "free_pages False (pg demo_vm) \<noteq> {}"
proof -
  have e: "ent demo_vm p i = 0" for p i by (simp add: ent_def ldw_def ld32_def rd32_def demo_vm_def)
  have vm: "vm_ok demo_vm"
    by (simp add: vm_ok_def demo_vm_def pstate_ok_def pool_ok_def bok_def pool_pages_def get_pool_def
        writable_def PGSIZE_def ELEM_BITS_def PHYS_BASE_def)
  have b: "1 \<in> free_pages False (pg demo_vm)" "0 \<notin> free_pages False (pg demo_vm)" "0 < pool_pages False (pg demo_vm)"
    "page_addr False (pg demo_vm) 0 = 0xc0100000"
    by (simp_all add: demo_vm_def free_pages_def clear_bits_def get_pool_def bbit_def elem_idx_def ELEM_BITS_def
        pool_pages_def page_addr_def bit_1_iff)
  then show "free_pages False (pg demo_vm) \<noteq> {}" by blast
  have "kpage demo_vm 0xc0100000" unfolding kpage_def using b(2-4) by metis
  then show "pd_ok demo_vm 0xc0100000" using vm by (simp add: pd_ok_def e)
  show "\<not> mapped demo_vm 0xc0100000 a" for a by (simp add: mapped_def pte_def e)
qed

theorem pagedir_set_get_clear_witness:
  "\<exists>v'. pagedir_set_page 0xc0100000 0x8048000 0xc0104000 True demo_vm = Some (True, v')
    \<and> pagedir_get_page 0xc0100000 0x8048123 v' = Some 0xc0104123
    \<and> pagedir_get_page 0xc0100000 0x8049000 v' = pagedir_get_page 0xc0100000 0x8049000 demo_vm"
proof -
  have k: "kernel_page 0xc0104000" by (simp add: kernel_page_def pg_ofs_def PGSIZE_def PHYS_BASE_def)
  have un: "\<not> mapped demo_vm 0xc0100000 0x8048000" by (rule demo_pd)
  show ?thesis
    using pagedir_set_get_clear [OF demo_pd(1) _ _ _ un k, where rw = True] demo_pd(3)
    by (auto simp: demo_vm_def pg_ofs_def pg_no_def PGSIZE_def PHYS_BASE_def)
qed

end
