(* ===== verification/Loader.thy ===== *)
theory Loader
  imports PageDir FSProps
begin

unbundle bit_operations_syntax

text \<open>
  Loading a program (userprog/process.c): the ELF headers, validate_segment, load_segment,
  setup_stack and load up to the argument passing, which is theory ArgPass.  A file read
  returns the bytes that arrived; the code stores them into the page it has allocated.  The
  messages that load prints are left out.
\<close>

section \<open>ELF headers\<close>

record Elf32_Ehdr =
  e_ident :: "byte list"
  e_type :: nat
  e_machine :: nat
  e_version :: nat
  e_entry :: nat
  e_phoff :: nat
  e_shoff :: nat
  e_flags :: nat
  e_ehsize :: nat
  e_phentsize :: nat
  e_phnum :: nat
  e_shentsize :: nat
  e_shnum :: nat
  e_shstrndx :: nat

record Elf32_Phdr =
  p_type :: nat
  p_offset :: nat
  p_vaddr :: nat
  p_paddr :: nat
  p_filesz :: nat
  p_memsz :: nat
  p_flags :: nat
  p_align :: nat

definition rd16 :: "byte list \<Rightarrow> nat" where
  "rd16 bs = unat (bs ! 0) + 2 ^ 8 * unat (bs ! 1)"

definition decode_ehdr :: "byte list \<Rightarrow> Elf32_Ehdr" where
  "decode_ehdr b =
     \<lparr>e_ident = take 16 b, e_type = rd16 (drop 16 b), e_machine = rd16 (drop 18 b),
      e_version = rd32 (drop 20 b), e_entry = rd32 (drop 24 b), e_phoff = rd32 (drop 28 b),
      e_shoff = rd32 (drop 32 b), e_flags = rd32 (drop 36 b), e_ehsize = rd16 (drop 40 b),
      e_phentsize = rd16 (drop 42 b), e_phnum = rd16 (drop 44 b), e_shentsize = rd16 (drop 46 b),
      e_shnum = rd16 (drop 48 b), e_shstrndx = rd16 (drop 50 b)\<rparr>"

definition decode_phdr :: "byte list \<Rightarrow> Elf32_Phdr" where
  "decode_phdr b =
     \<lparr>p_type = rd32 b, p_offset = rd32 (drop 4 b), p_vaddr = rd32 (drop 8 b), p_paddr = rd32 (drop 12 b),
      p_filesz = rd32 (drop 16 b), p_memsz = rd32 (drop 20 b), p_flags = rd32 (drop 24 b),
      p_align = rd32 (drop 28 b)\<rparr>"

definition PT_LOAD :: nat where "PT_LOAD = 1"
definition PT_DYNAMIC :: nat where "PT_DYNAMIC = 2"
definition PT_INTERP :: nat where "PT_INTERP = 3"
definition PT_SHLIB :: nat where "PT_SHLIB = 5"
definition PF_W :: nat where "PF_W = 2"

definition PGMASK :: nat where "PGMASK = 0xfff"

definition ROUND_UP :: "nat \<Rightarrow> nat \<Rightarrow> nat" where
  "ROUND_UP x step = size_add x (step - 1) div step * step"

section \<open>Segments\<close>

definition validate_segment :: "Elf32_Phdr \<Rightarrow> int \<Rightarrow> bool" where
  "validate_segment phdr len =
     (if p_offset phdr AND PGMASK \<noteq> p_vaddr phdr AND PGMASK then False
      else if p_offset phdr > nat (len mod 2 ^ 32) then False
      else if p_memsz phdr < p_filesz phdr then False
      else if p_memsz phdr = 0 then False
      else if \<not> is_user_vaddr (p_vaddr phdr) then False
      else if \<not> is_user_vaddr (size_add (p_vaddr phdr) (p_memsz phdr)) then False
      else if size_add (p_vaddr phdr) (p_memsz phdr) < p_vaddr phdr then False
      else if p_vaddr phdr < PGSIZE then False
      else True)"

definition u32_sub :: "nat \<Rightarrow> nat \<Rightarrow> nat" where
  "u32_sub a b = nat ((int a - int b) mod 2 ^ 32)"

text \<open>The arguments of load_segment that load computes from a program header.\<close>

definition segment_args :: "Elf32_Phdr \<Rightarrow> int \<times> nat \<times> nat \<times> nat \<times> bool" where
  "segment_args phdr =
     (let file_page = p_offset phdr AND not32 PGMASK;
          mem_page = p_vaddr phdr AND not32 PGMASK;
          page_offset = p_vaddr phdr AND PGMASK;
          read_bytes = (if p_filesz phdr > 0 then size_add page_offset (p_filesz phdr) else 0);
          zero_bytes = (if p_filesz phdr > 0
            then u32_sub (ROUND_UP (size_add page_offset (p_memsz phdr)) PGSIZE) read_bytes
            else ROUND_UP (size_add page_offset (p_memsz phdr)) PGSIZE)
      in (wrap32 (int file_page), mem_page, read_bytes, zero_bytes, p_flags phdr AND PF_W \<noteq> 0))"

fun store_bytes :: "mem \<Rightarrow> nat \<Rightarrow> byte list \<Rightarrow> mem option" where
  "store_bytes m p [] = Some m"
| "store_bytes m p (b # bs) = do { m \<leftarrow> wr m p b; store_bytes m (p + 1) bs }"

text \<open>The page directory of the running thread is an argument.\<close>

definition install_page :: "nat \<Rightarrow> nat \<Rightarrow> nat \<Rightarrow> bool \<Rightarrow> vm \<Rightarrow> (bool \<times> vm) option" where
  "install_page pd upage kp rw v = do {
     p \<leftarrow> pagedir_get_page pd upage v;
     (if p = 0 then pagedir_set_page pd upage kp rw v else Some (False, v))
   }"

partial_function (option) load_segment_loop ::
    "nat \<Rightarrow> nat \<Rightarrow> nat \<Rightarrow> nat \<Rightarrow> nat \<Rightarrow> bool \<Rightarrow> vm \<Rightarrow> fs \<Rightarrow> (bool \<times> vm \<times> fs) option" where
  "load_segment_loop pd file upage read_bytes zero_bytes rw v s =
     (if read_bytes > 0 \<or> zero_bytes > 0 then do {
        let page_read_bytes = (if read_bytes < PGSIZE then read_bytes else PGSIZE);
        let page_zero_bytes = PGSIZE - page_read_bytes;
        r \<leftarrow> get_page PAL_USER v;
        (if fst r = 0 then Some (False, snd r, s)
         else do {
           q \<leftarrow> file_read file (int page_read_bytes) s;
           m \<leftarrow> store_bytes (pmem (pg (snd r))) (fst r) (fst q);
           let v = set_mem m (snd r);
           (if length (fst q) \<noteq> page_read_bytes then do {
              v \<leftarrow> free_page (fst r) v;
              Some (False, v, snd q)
            }
            else do {
              z \<leftarrow> memset (pmem (pg v)) (fst r + page_read_bytes) 0 page_zero_bytes;
              i \<leftarrow> install_page pd upage (fst r) rw (set_mem (snd z) v);
              (if \<not> fst i then do {
                 v \<leftarrow> free_page (fst r) (snd i);
                 Some (False, v, snd q)
               }
               else load_segment_loop pd file (size_add upage PGSIZE) (u32_sub read_bytes page_read_bytes)
                      (u32_sub zero_bytes page_zero_bytes) rw (snd i) (snd q))
            })
         })
      }
      else Some (True, v, s))"

definition load_segment ::
    "nat \<Rightarrow> nat \<Rightarrow> int \<Rightarrow> nat \<Rightarrow> nat \<Rightarrow> nat \<Rightarrow> bool \<Rightarrow> vm \<Rightarrow> fs \<Rightarrow> (bool \<times> vm \<times> fs) option" where
  "load_segment pd file ofs upage read_bytes zero_bytes rw v s = do {
     ASSERT (size_add read_bytes zero_bytes mod PGSIZE = 0);
     ASSERT (pg_ofs upage = 0);
     ASSERT (ofs smod int PGSIZE = 0);
     s \<leftarrow> file_seek file ofs s;
     load_segment_loop pd file upage read_bytes zero_bytes rw v s
   }"

definition setup_stack :: "nat \<Rightarrow> vm \<Rightarrow> (bool \<times> nat option \<times> vm) option" where
  "setup_stack pd v = do {
     (kp, v) \<leftarrow> get_page (PAL_USER OR PAL_ZERO) v;
     (if kp \<noteq> 0 then do {
        (success, v) \<leftarrow> install_page pd (PHYS_BASE - PGSIZE) kp True v;
        (if success then Some (True, Some PHYS_BASE, v)
         else do { v \<leftarrow> free_page kp v; Some (False, None, v) })
      }
      else Some (False, None, v))
   }"

section \<open>Loading a program\<close>

definition ehdr_ok :: "byte list \<Rightarrow> bool" where
  "ehdr_ok b \<longleftrightarrow> length b = 52 \<and>
     (let h = decode_ehdr b
      in take 7 (e_ident h) = [0x7f, 0x45, 0x4c, 0x46, 1, 1, 1] \<and> e_type h = 2 \<and> e_machine h = 3
         \<and> e_version h = 1 \<and> e_phentsize h = 32 \<and> e_phnum h \<le> 1024)"

text \<open>The loop over the program headers; the number counts those that are left.\<close>

fun load_headers :: "nat \<Rightarrow> nat \<Rightarrow> nat \<Rightarrow> int \<Rightarrow> vm \<Rightarrow> fs \<Rightarrow> (bool \<times> vm \<times> fs) option" where
  "load_headers pd file 0 file_ofs v s = Some (True, v, s)"
| "load_headers pd file (Suc n) file_ofs v s = do {
     len \<leftarrow> file_length file s;
     (if file_ofs < 0 \<or> file_ofs > len then Some (False, v, s)
      else do {
        s \<leftarrow> file_seek file file_ofs s;
        (b, s) \<leftarrow> file_read file 32 s;
        (if length b \<noteq> 32 then Some (False, v, s)
         else do {
           let phdr = decode_phdr b;
           let file_ofs = wrap32 (file_ofs + 32);
           (if p_type phdr = PT_DYNAMIC \<or> p_type phdr = PT_INTERP \<or> p_type phdr = PT_SHLIB
            then Some (False, v, s)
            else if p_type phdr = PT_LOAD
            then (if validate_segment phdr len then do {
                    let (ofs, upage, read_bytes, zero_bytes, rw) = segment_args phdr;
                    (ok, v, s) \<leftarrow> load_segment pd file ofs upage read_bytes zero_bytes rw v s;
                    (if ok then load_headers pd file n file_ofs v s else Some (False, v, s))
                  }
                  else Some (False, v, s))
            else load_headers pd file n file_ofs v s)
         })
      })
   }"

text \<open>The result: the page directory, and the entry point and the stack pointer of a program
  that was loaded.  The file is closed on every path.\<close>

definition load :: "byte list \<Rightarrow> vm \<Rightarrow> fs \<Rightarrow> (nat \<times> (nat \<times> nat) option \<times> vm \<times> fs) option" where
  "load command v s = do {
     (pd, v) \<leftarrow> pagedir_create v;
     (if pd = 0 then do { s \<leftarrow> file_close 0 s; Some (0, None, v, s) }
      else do {
        v \<leftarrow> pagedir_activate pd v;
        (file, s) \<leftarrow> filesys_open command s;
        (if file = 0 then do { s \<leftarrow> file_close 0 s; Some (pd, None, v, s) }
         else do {
           (b, s) \<leftarrow> file_read file 52 s;
           (if \<not> ehdr_ok b then do { s \<leftarrow> file_close file s; Some (pd, None, v, s) }
            else do {
              (ok, v, s) \<leftarrow> load_headers pd file (e_phnum (decode_ehdr b)) (wrap32 (int (e_phoff (decode_ehdr b)))) v s;
              (if \<not> ok then do { s \<leftarrow> file_close file s; Some (pd, None, v, s) }
               else do {
                 (ok, esp, v) \<leftarrow> setup_stack pd v;
                 s \<leftarrow> file_close file s;
                 Some (pd, map_option (Pair (e_entry (decode_ehdr b))) esp, v, s)
               })
            })
         })
      })
   }"

section \<open>Accepted segments\<close>

lemma page_mask: "x AND PGMASK = x mod PGSIZE"
proof -
  have "x AND mask 12 = x mod 2 ^ 12" by (simp only: take_bit_eq_mod flip: take_bit_eq_mask)
  then show ?thesis by (simp add: PGMASK_def PGSIZE_def mask_eq_exp_minus_1)
qed

lemma page_base: "x < 2 ^ 32 \<Longrightarrow> x AND not32 PGMASK = x - x mod PGSIZE"
  using addr_part [of x] by (simp add: PTE_ADDR_def PGMASK_def not32_def PGSIZE_def minus_mod_eq_mult_div)

lemma u32_sub_ok: "b \<le> a \<Longrightarrow> a < 2 ^ 32 \<Longrightarrow> u32_sub a b = a - b"
  by (simp add: u32_sub_def flip: of_nat_diff)

lemma ROUND_UP_ok:
  assumes "x + PGSIZE \<le> 2 ^ 32"
  shows "ROUND_UP x PGSIZE mod PGSIZE = 0" and "x \<le> ROUND_UP x PGSIZE" and "ROUND_UP x PGSIZE < x + PGSIZE"
    and "b mod PGSIZE = 0 \<Longrightarrow> x \<le> b \<Longrightarrow> ROUND_UP x PGSIZE \<le> b"
proof -
  have r: "ROUND_UP x 4096 = (x + 4095) div 4096 * 4096"
    using assms by (simp add: ROUND_UP_def size_add_def PGSIZE_def)
  have m: "(x + 4095) div 4096 * 4096 + (x + 4095) mod 4096 = x + 4095" "(x + 4095) mod 4096 < (4096 :: nat)"
    by simp_all
  show "ROUND_UP x PGSIZE mod PGSIZE = 0" unfolding PGSIZE_def r by simp
  show "x \<le> ROUND_UP x PGSIZE" "ROUND_UP x PGSIZE < x + PGSIZE"
    using m unfolding PGSIZE_def r by linarith+
  show "ROUND_UP x PGSIZE \<le> b" if b: "b mod PGSIZE = 0" "x \<le> b"
  proof -
    obtain k where k: "b = k * 4096" using b(1) by (auto simp: PGSIZE_def mod_eq_0_iff_dvd elim: dvdE)
    with b(2) have "(x + 4095) div 4096 < Suc k" by (intro less_mult_imp_div_less) simp
    then show ?thesis unfolding PGSIZE_def r k by simp
  qed
qed

text \<open>C28: a program header that validate_segment accepts describes a segment of user space: the
  arguments computed from it are page aligned, cover its addresses without page 0 and without
  passing PHYS_BASE, and place the bytes of the file at their addresses.\<close>

theorem validate_segment_safe:
  assumes "validate_segment ph len" and "0 \<le> len" "len \<le> INT_MAX"
    and "p_offset ph < 2 ^ 32" "p_vaddr ph < 2 ^ 32" "p_filesz ph < 2 ^ 32" "p_memsz ph < 2 ^ 32"
    and "segment_args ph = (ofs, upage, read_bytes, zero_bytes, rw)"
  shows "0 \<le> ofs \<and> ofs mod int PGSIZE = 0 \<and> ofs \<le> len
    \<and> upage mod PGSIZE = 0 \<and> PGSIZE \<le> upage
    \<and> (read_bytes + zero_bytes) mod PGSIZE = 0
    \<and> upage + read_bytes + zero_bytes \<le> PHYS_BASE
    \<and> upage \<le> p_vaddr ph \<and> p_vaddr ph + p_memsz ph \<le> upage + read_bytes + zero_bytes
    \<and> int (p_offset ph) - ofs = int (p_vaddr ph) - int upage
    \<and> (p_filesz ph > 0 \<longrightarrow> upage + read_bytes = p_vaddr ph + p_filesz ph)
    \<and> (p_filesz ph = 0 \<longrightarrow> read_bytes = 0)"
proof -
  let ?v = "p_vaddr ph" and ?o = "p_vaddr ph mod PGSIZE" and ?m = "p_memsz ph" and ?f = "p_filesz ph"
  have P: "PGSIZE = 4096" "PHYS_BASE = 3221225472" by (simp_all add: PGSIZE_def PHYS_BASE_def)
  have c: "p_offset ph mod PGSIZE = ?o" "p_offset ph \<le> nat len" "?f \<le> ?m" "?m \<noteq> 0" "?v < PHYS_BASE"
    "size_add ?v ?m < PHYS_BASE" "?v \<le> size_add ?v ?m" "PGSIZE \<le> ?v"
    using assms(1-3) by (auto simp: validate_segment_def page_mask is_user_vaddr_def split: if_splits)
  have s: "size_add ?v ?m = ?v + ?m"
    using c(5-7) assms(7) by (simp add: size_add_def P mod_if split: if_splits)
  have lt: "?v + ?m < PHYS_BASE" using c(6) s by simp
  have o: "?o \<le> ?v" "?o < PGSIZE" by (simp_all add: P)
  have sm: "size_add ?o ?m = ?o + ?m" "size_add ?o ?f = ?o + ?f"
    using lt o c(3) by (simp_all add: size_add_def P)
  let ?R = "ROUND_UP (?o + ?m) PGSIZE"
  have fit: "?o + ?m + PGSIZE \<le> 2 ^ 32" using lt o by (simp add: P)
  note R = ROUND_UP_ok(1,2) [OF fit] ROUND_UP_ok(4) [OF fit, of "PHYS_BASE - (?v - ?o)"]
  have al: "(?v - ?o) mod PGSIZE = 0" by (simp add: minus_mod_eq_mult_div)
  have "(PHYS_BASE - (?v - ?o)) mod PGSIZE = 0"
    using al unfolding mod_eq_0_iff_dvd P by (rule dvd_diff_nat [rotated]) simp
  with R(3) lt o have top: "?R \<le> PHYS_BASE - (?v - ?o)" by (simp add: P)
  have a: "upage = ?v - ?o" "ofs = int (p_offset ph - ?o)"
    "read_bytes = (if ?f > 0 then ?o + ?f else 0)" "read_bytes + zero_bytes = ?R"
  proof -
    have z: "zero_bytes = u32_sub ?R read_bytes" if "?f > 0" using assms(8) that
      by (auto simp: segment_args_def Let_def page_mask sm)
    show "upage = ?v - ?o" "read_bytes = (if ?f > 0 then ?o + ?f else 0)"
      using assms(8) by (auto simp: segment_args_def Let_def page_mask page_base [OF assms(4)] page_base [OF assms(5)] sm split: if_splits)
    moreover have "ofs = wrap32 (int (p_offset ph - ?o))"
      using assms(8) c(1) by (simp add: segment_args_def Let_def page_mask page_base [OF assms(4)] page_base [OF assms(5)] split: if_splits)
    moreover have "wrap32 (int (p_offset ph - ?o)) = int (p_offset ph - ?o)"
      using c(2) assms(2,3) by (intro wrap32_id) simp_all
    moreover have "read_bytes + zero_bytes = ?R"
    proof (cases "?f > 0")
      case True
      moreover have "u32_sub ?R (?o + ?f) = ?R - (?o + ?f)" 
        using R(2) top c(3) by (intro u32_sub_ok) (simp_all add: P)
      ultimately show ?thesis using z R(2) c(3) \<open>read_bytes = _\<close> by simp
    next
      case False
      then show ?thesis using assms(8) by (auto simp: segment_args_def Let_def page_mask sm)
    qed
    ultimately show "ofs = int (p_offset ph - ?o)" "read_bytes + zero_bytes = ?R" by simp_all
  qed
  have ol: "?o \<le> p_offset ph" using c(1) by (metis mod_less_eq_dividend)
  have "(p_offset ph - p_offset ph mod PGSIZE) mod PGSIZE = 0" by (simp add: minus_mod_eq_mult_div)
  then have "(p_offset ph - ?o) mod PGSIZE = 0" using c(1) by simp
  then have 1: "ofs mod int PGSIZE = 0" unfolding a(2) zmod_int [symmetric] by simp
  have 2: "PGSIZE \<le> ?v - ?o" 
  proof -
    have "1 \<le> ?v div 4096" using c(8) by (simp add: P)
    then show ?thesis by (simp add: minus_mod_eq_mult_div P)
  qed
  have 3: "0 \<le> ofs" "ofs \<le> len" "int (p_offset ph) - ofs = int ?v - int upage"
    using ol o c(2) assms(2) unfolding a by (simp_all add: of_nat_diff)
  have 4: "upage + read_bytes + zero_bytes \<le> PHYS_BASE" using top a(1,4) lt o by linarith
  have 5: "upage \<le> ?v" "?v + ?m \<le> upage + read_bytes + zero_bytes" using a(1,4) o R(2) by linarith+
  have 6: "upage mod PGSIZE = 0" "PGSIZE \<le> upage" "(read_bytes + zero_bytes) mod PGSIZE = 0"
    unfolding a(1,4) by (fact al 2 R(1))+
  have 7: "?f > 0 \<longrightarrow> upage + read_bytes = ?v + ?f" "?f = 0 \<longrightarrow> read_bytes = 0"
    using a(1,3) o(1) by simp_all
  show ?thesis by (intro conjI) (fact 1 3 4 5 6 7)+
qed

theorem validate_segment_safe_witness:
  "\<exists>ofs upage read_bytes zero_bytes rw.
     segment_args \<lparr>p_type = 1, p_offset = 0x1234, p_vaddr = 0x8049234, p_paddr = 0, p_filesz = 100, p_memsz = 8000,
       p_flags = 6, p_align = 4096\<rparr> = (ofs, upage, read_bytes, zero_bytes, rw)
     \<and> upage mod PGSIZE = 0 \<and> 0x8049234 + 8000 \<le> upage + read_bytes + zero_bytes \<and> upage + read_bytes = 0x8049234 + 100"
proof -
  let ?ph = "\<lparr>p_type = 1, p_offset = 0x1234, p_vaddr = 0x8049234, p_paddr = 0, p_filesz = 100, p_memsz = 8000,
       p_flags = 6, p_align = 4096\<rparr> :: Elf32_Phdr"
  obtain ofs upage read_bytes zero_bytes rw where a: "segment_args ?ph = (ofs, upage, read_bytes, zero_bytes, rw)"
    by (metis prod.exhaust)
  have "validate_segment ?ph 20000"
    by (simp add: validate_segment_def PGMASK_def is_user_vaddr_def size_add_def PHYS_BASE_def PGSIZE_def)
  from validate_segment_safe [OF this _ _ _ _ _ _ a] show ?thesis using a by simp
qed

section \<open>User memory\<close>

text \<open>What updates of the user pool leave as it was.\<close>

definition user_only :: "vm \<Rightarrow> vm \<Rightarrow> bool" where
  "user_only v v' \<longleftrightarrow> vm_ok v'
     \<and> (\<forall>u. base (get_pool u (pg v')) = base (get_pool u (pg v)) \<and> pool_pages u (pg v') = pool_pages u (pg v))
     \<and> free_pages False (pg v') = free_pages False (pg v)
     \<and> init_page_dir v' = init_page_dir v \<and> init_ram_pages v' = init_ram_pages v \<and> cr3 v' = cr3 v
     \<and> (\<forall>a < base (user_pool (pg v)). pmem (pg v') a = pmem (pg v) a)"

lemma user_only_trans: "user_only v1 v2 \<Longrightarrow> user_only v2 v3 \<Longrightarrow> user_only v1 v3"
  unfolding user_only_def by (metis get_pool_def)

lemma user_only_addr: "user_only v v' \<Longrightarrow> page_addr u (pg v') i = page_addr u (pg v) i"
  by (simp add: user_only_def page_addr_def)

lemma user_only_kpage: "user_only v v' \<Longrightarrow> kpage v' p = kpage v p"
  by (simp add: kpage_def user_only_addr) (simp add: user_only_def)

lemma user_only_ent:
  assumes "user_only v v'" and "vm_ok v" and "kpage v p" and "j < 1024"
  shows "ent v' p j = ent v p j"
proof (rule ent_same)
  obtain i where i: "i < pool_pages False (pg v)" "p = page_addr False (pg v) i" using assms(3) by (auto simp: kpage_def)
  have "PGSIZE * Suc i \<le> PGSIZE * pool_pages False (pg v)" using i(1) by (intro mult_le_mono2) simp
  moreover have "base (kernel_pool (pg v)) + PGSIZE * pool_pages False (pg v) \<le> base (user_pool (pg v))"
    using assms(2) by (simp add: vm_ok_def pstate_ok_def)
  ultimately have "p + PGSIZE \<le> base (user_pool (pg v))" by (simp add: i(2) page_addr_def get_pool_def)
  then show "same (pmem (pg v)) (pmem (pg v')) (p + 4 * j) 4"
    using assms(1,4) by (simp add: same_def user_only_def PGSIZE_def)
qed

lemma user_only_tables:
  assumes u: "user_only v v'" and ok: "pd_ok v pd"
  shows "pd_ok v' pd" and "a < PHYS_BASE \<Longrightarrow> pte v' pd a = pte v pd a"
proof -
  have vm: "vm_ok v" and pd: "kpage v pd" using ok by (simp_all add: pd_ok_def)
  note e = user_only_ent [OF u vm]
  have ep: "ent v' pd i = ent v pd i" if "i < 768" for i using e [OF pd] that by simp
  show "pd_ok v' pd"
    using ok u by (auto simp: pd_ok_def ep user_only_kpage [OF u]) (simp_all add: user_only_def)
  assume a: "a < PHYS_BASE"
  show "pte v' pd a = pte v pd a"
    using user_index [OF a] ep e [of "tab (ent v pd (pd_no a))"] ok unfolding pte_def pd_ok_def by auto
qed

lemma user_only_put:
  assumes "vm_ok v" and "base (user_pool (pg v)) \<le> p"
  shows "user_only v (set_mem (put (pmem (pg v)) p bs) v)"
  using vm_ok_put [OF assms(1)] assms(2) by (auto simp: user_only_def put_other pool_pages_def)

text \<open>The frames of the user pool.\<close>

definition user_frame :: "vm \<Rightarrow> nat \<Rightarrow> bool" where
  "user_frame v k \<longleftrightarrow> (\<exists>i < pool_pages True (pg v). k = page_addr True (pg v) i \<and> i \<notin> free_pages True (pg v))"

lemma user_addr:
  assumes "vm_ok v" and "i < pool_pages True (pg v)"
  defines "k \<equiv> page_addr True (pg v) i"
  shows "kernel_page k" "writable (pmem (pg v)) k PGSIZE" "k \<noteq> 0" "k + PGSIZE < 2 ^ 32"
    "base (user_pool (pg v)) \<le> k" "k + PGSIZE \<le> base (user_pool (pg v)) + PGSIZE * pool_pages True (pg v)"
proof -
  have ok: "pstate_ok (pg v)" using assms(1) by (simp add: vm_ok_def)
  have i: "i + 1 \<le> pool_pages True (pg v)" using assms(2) by simp
  note b = page_addr_bounds [OF ok i, folded k_def]
  show k: "k \<noteq> 0" "k + PGSIZE < 2 ^ 32" using b by simp_all
  show "writable (pmem (pg v)) k PGSIZE" using pstate_writable [OF ok i] by (simp add: k_def)
  have "base (kernel_pool (pg v)) \<le> base (user_pool (pg v))" using ok by (simp add: pstate_ok_def)
  moreover show l: "base (user_pool (pg v)) \<le> k" by (simp add: k_def page_addr_def get_pool_def)
  ultimately show "kernel_page k" using assms(1) b(3) k(2) by (simp add: kernel_page_def vm_ok_def)
  have "PGSIZE * Suc i \<le> PGSIZE * pool_pages True (pg v)" using assms(2) by (intro mult_le_mono2) simp
  then show "k + PGSIZE \<le> base (user_pool (pg v)) + PGSIZE * pool_pages True (pg v)"
    by (simp add: k_def page_addr_def get_pool_def)
qed

lemma get_user_page:
  fixes flags :: nat
  assumes ok: "vm_ok v" and fl: "flags AND PAL_USER \<noteq> 0" "flags AND PAL_ASSERT = 0"
  shows "get_page flags v = Some (0, v) \<and> free_pages True (pg v) = {} \<or>
    (\<exists>i v1. get_page flags v = Some (page_addr True (pg v) i, v1) \<and> i \<in> free_pages True (pg v)
      \<and> i < pool_pages True (pg v) \<and> free_pages True (pg v1) = free_pages True (pg v) - {i} \<and> user_only v v1
      \<and> pmem (pg v1) = (if flags AND PAL_ZERO \<noteq> 0
           then put (pmem (pg v)) (page_addr True (pg v) i) (replicate PGSIZE 0) else pmem (pg v)))"
proof (cases "free_pages True (pg v) = {}")
  case True
  have "palloc_get_multiple flags 1 (pg v) = Some (0, pg v)"
    using palloc_get_ok(1) [of "pg v" 1 flags] ok True fl by (simp add: vm_ok_def)
  then show ?thesis using True by (simp add: get_page_def palloc_get_page_def)
next
  case False
  then obtain a where "a \<in> free_pages True (pg v)" by blast
  then have fit: "{a ..< a + 1} \<subseteq> free_pages True (pg v)" by simp
  have pok: "pstate_ok (pg v)" using ok by (simp add: vm_ok_def)
  obtain i s' where g: "palloc_get_multiple flags 1 (pg v) = Some (page_addr True (pg v) i, s')"
      "{i ..< i + 1} \<subseteq> free_pages True (pg v)" "i + 1 \<le> pool_pages True (pg v)"
      "free_pages True s' = free_pages True (pg v) - {i ..< i + 1}" "free_pages False s' = free_pages False (pg v)"
      "pstate_ok s'" "\<forall>u. base (get_pool u s') = base (get_pool u (pg v)) \<and> pool_pages u s' = pool_pages u (pg v)"
      "pmem s' = (if flags AND PAL_ZERO \<noteq> 0
         then put (pmem (pg v)) (page_addr True (pg v) i) (replicate (PGSIZE * 1) 0) else pmem (pg v))"
    using palloc_get_ok(2) [where s = "pg v" and n = 1 and flags = flags and a = a] pok fit fl by auto
  have b: "base (user_pool (pg v)) \<le> page_addr True (pg v) i" by (simp add: page_addr_def get_pool_def)
  have "vm_ok (v\<lparr>pg := s'\<rparr>)" using g(6) spec [OF g(7), of False] ok by (simp add: vm_ok_def get_pool_def)
  then have "user_only v (v\<lparr>pg := s'\<rparr>)" using g(5,7,8) b by (auto simp: user_only_def put_other)
  then show ?thesis using g by (auto simp: get_page_def palloc_get_page_def)
qed

lemma free_user_page:
  assumes ok: "vm_ok v" and i: "i < pool_pages True (pg v)" "i \<notin> free_pages True (pg v)"
  shows "\<exists>v'. free_page (page_addr True (pg v) i) v = Some v' \<and> free_pages False (pg v') = free_pages False (pg v)
    \<and> free_pages True (pg v') = insert i (free_pages True (pg v))"
  using palloc_free_ok [of "pg v" i 1 True] assms by (auto simp: vm_ok_def free_page_def palloc_free_page_def)

section \<open>Address spaces\<close>

text \<open>A page directory whose user pages are frames in use, in memory the kernel knows of; the
  byte a user address stands for.\<close>

definition user_ok :: "vm \<Rightarrow> nat \<Rightarrow> bool" where
  "user_ok v pd \<longleftrightarrow> pd_ok v pd \<and> pd \<noteq> init_page_dir v
     \<and> base (user_pool (pg v)) + PGSIZE * pool_pages True (pg v) \<le> PHYS_BASE + PGSIZE * init_ram_pages v
     \<and> (\<forall>a < PHYS_BASE. mapped v pd a \<longrightarrow> user_frame v (tab (pte v pd a)))"

definition user_byte :: "vm \<Rightarrow> nat \<Rightarrow> nat \<Rightarrow> byte option" where
  "user_byte v pd a = do { p \<leftarrow> pagedir_get_page pd a v; (if p = 0 then None else pmem (pg v) p) }"

definition user_writable :: "vm \<Rightarrow> nat \<Rightarrow> nat \<Rightarrow> bool" where
  "user_writable v pd a \<longleftrightarrow> pte v pd a AND PTE_W \<noteq> 0"

lemma translate_tab:
  assumes "odd x" and "kernel_page (tab x)"
  shows "translate x ofs = Some (tab x + ofs)"
proof -
  have "4096 * (x div 4096) < 2 ^ 32 - PHYS_BASE" using assms(2) by (simp add: kernel_page_def tab_def less_diff_conv)
  then have "x < 2 ^ 32" by (simp add: PHYS_BASE_def)
  then have "x AND PTE_ADDR = tab x - PHYS_BASE" by (simp add: addr_part tab_def)
  then show ?thesis using assms ptov_kernel [OF assms(2)] by (simp add: translate_def pte_get_page_def)
qed

lemma user_frame_addr:
  assumes "vm_ok v" and "user_frame v k"
  shows "kernel_page k" "writable (pmem (pg v)) k PGSIZE" "k \<noteq> 0" "base (user_pool (pg v)) \<le> k"
  using user_addr [OF assms(1)] assms(2) by (auto simp: user_frame_def)

lemma user_byte_mapped:
  assumes "user_ok v pd" and "a < PHYS_BASE" and "mapped v pd a"
  shows "user_byte v pd a = pmem (pg v) (tab (pte v pd a) + pg_ofs a)"
proof -
  have ok: "pd_ok v pd" and f: "user_frame v (tab (pte v pd a))" using assms by (simp_all add: user_ok_def)
  have k: "kernel_page (tab (pte v pd a))" "tab (pte v pd a) \<noteq> 0"
    using user_frame_addr [OF _ f] ok by (simp_all add: pd_ok_def)
  have "translate (pte v pd a) (pg_ofs a) = Some (tab (pte v pd a) + pg_ofs a)"
    using assms(3) by (intro translate_tab k(1)) (simp add: mapped_def present_odd)
  then show ?thesis using k(2) get_page_pte [OF ok assms(2)] by (simp add: user_byte_def)
qed

text \<open>A range of user addresses that has been given contents, the other pages as they were.\<close>

definition loaded :: "vm \<Rightarrow> vm \<Rightarrow> nat \<Rightarrow> nat \<Rightarrow> bool \<Rightarrow> byte list \<Rightarrow> bool" where
  "loaded v v' pd u rw bs \<longleftrightarrow>
     (\<forall>j < length bs. mapped v' pd (u + j) \<and> user_writable v' pd (u + j) = rw \<and> user_byte v' pd (u + j) = Some (bs ! j))
     \<and> (\<forall>a < PHYS_BASE. a < u \<or> u + length bs \<le> a \<longrightarrow> pte v' pd a = pte v pd a
          \<and> (mapped v pd a \<longrightarrow> user_byte v' pd a = user_byte v pd a))"

lemma loaded_append:
  assumes 1: "loaded v v1 pd u rw xs" and 2: "loaded v1 v2 pd (u + length xs) rw ys"
    and "u + length xs \<le> PHYS_BASE"
  shows "loaded v v2 pd u rw (xs @ ys)"
proof -
  have "mapped v2 pd (u + j) \<and> user_writable v2 pd (u + j) = rw \<and> user_byte v2 pd (u + j) = Some ((xs @ ys) ! j)"
    if j: "j < length (xs @ ys)" for j
  proof (cases "j < length xs")
    case True
    then have p: "mapped v1 pd (u + j)" "user_writable v1 pd (u + j) = rw" "user_byte v1 pd (u + j) = Some (xs ! j)"
      using 1 by (simp_all add: loaded_def)
    have "u + j < PHYS_BASE" using True assms(3) by simp
    then have "pte v2 pd (u + j) = pte v1 pd (u + j)" "user_byte v2 pd (u + j) = user_byte v1 pd (u + j)"
      using 2 True p(1) by (simp_all add: loaded_def)
    then show ?thesis using p True by (simp add: mapped_def user_writable_def nth_append)
  next
    case False
    then have "j - length xs < length ys" "u + length xs + (j - length xs) = u + j" using j by simp_all
    then show ?thesis using 2 False unfolding loaded_def nth_append by metis
  qed
  moreover have "pte v2 pd a = pte v pd a \<and> (mapped v pd a \<longrightarrow> user_byte v2 pd a = user_byte v pd a)"
    if "a < PHYS_BASE" "a < u \<or> u + length (xs @ ys) \<le> a" for a
  proof -
    have "a < u \<or> u + length xs \<le> a" "a < u + length xs \<or> u + length xs + length ys \<le> a" using that(2) by auto
    then have "pte v1 pd a = pte v pd a" "mapped v pd a \<longrightarrow> user_byte v1 pd a = user_byte v pd a"
      "pte v2 pd a = pte v1 pd a" "mapped v1 pd a \<longrightarrow> user_byte v2 pd a = user_byte v1 pd a"
      using 1 2 that(1) unfolding loaded_def by blast+
    then show ?thesis by (simp add: mapped_def)
  qed
  ultimately show ?thesis by (simp add: loaded_def)
qed

lemma kernel_only_user:
  assumes "kernel_only v v'" and "vm_ok v" and "vm_ok v'"
  shows "page_addr u (pg v') i = page_addr u (pg v) i" and "user_frame v' = user_frame v"
    and "base (user_pool (pg v')) = base (user_pool (pg v))" and "pool_pages True (pg v') = pool_pages True (pg v)"
    and "base (user_pool (pg v)) \<le> a \<Longrightarrow> pmem (pg v') a = pmem (pg v) a"
proof -
  show p: "page_addr u (pg v') i = page_addr u (pg v) i" for u i using assms(1) by (simp add: kernel_only_def page_addr_def)
  show "user_frame v' = user_frame v" using assms(1) by (auto simp: user_frame_def fun_eq_iff p kernel_only_def)
  show "base (user_pool (pg v')) = base (user_pool (pg v))" "pool_pages True (pg v') = pool_pages True (pg v)"
    using assms(1) by (simp_all add: kernel_only_def get_pool_def split: if_splits)
  have "base (kernel_pool (pg v)) + PGSIZE * pool_pages False (pg v) \<le> base (user_pool (pg v))"
    using assms(2) by (simp add: vm_ok_def pstate_ok_def)
  then show "base (user_pool (pg v)) \<le> a \<Longrightarrow> pmem (pg v') a = pmem (pg v) a"
    using assms(1) by (simp add: kernel_only_def)
qed

lemma frames_apart:
  assumes "k = page_addr True s i" and "k' = page_addr True s j" and "i \<noteq> j" and "o' < PGSIZE"
  shows "\<not> (k \<le> k' + o' \<and> k' + o' < k + PGSIZE)"
proof -
  have "i < j \<or> j < i" using assms(3) by linarith
  then show ?thesis
  proof
    assume "i < j"
    then have "PGSIZE * Suc i \<le> PGSIZE * j" by (intro mult_le_mono2) simp
    then show ?thesis by (simp add: assms(1,2) page_addr_def)
  next
    assume "j < i"
    then have "PGSIZE * Suc j \<le> PGSIZE * i" by (intro mult_le_mono2) simp
    then show ?thesis using assms(4) by (simp add: assms(1,2) page_addr_def)
  qed
qed

lemma entry_writable: "kernel_page k \<Longrightarrow> (entry k (if rw then 7 else 5) AND PTE_W \<noteq> 0) = rw"
proof -
  assume "kernel_page k"
  then obtain q where q: "k - PHYS_BASE = 4096 * q" using kernel_page_dvd by (auto simp: dvd_def)
  have w: "x AND PTE_W = 0 \<longleftrightarrow> even (x div 2)" for x
    using and_exp_eq_0_iff_not_bit [of x 1] by (simp add: PTE_W_def bit_iff_odd)
  have "(4096 * q + 7) div 2 = 2048 * q + 3" "(4096 * q + 5) div 2 = 2048 * q + 2" by simp_all
  then show ?thesis by (simp add: w entry_def q)
qed

lemma same_page: "a < PHYS_BASE \<Longrightarrow> pg_ofs u = 0 \<Longrightarrow> (pg_no a = pg_no u) = (u \<le> a \<and> a < u + PGSIZE)"
  and page_member: "pg_ofs u = 0 \<Longrightarrow> j < PGSIZE \<Longrightarrow> pg_ofs (u + j) = j \<and> pg_no (u + j) = pg_no u"
proof -
  assume "pg_ofs u = 0"
  then obtain q where q: "u = 4096 * q" by (auto simp: pg_ofs_def PGSIZE_def)
  show "(pg_no a = pg_no u) = (u \<le> a \<and> a < u + PGSIZE)" by (auto simp: q pg_no_def PGSIZE_def)
  show "j < PGSIZE \<Longrightarrow> pg_ofs (u + j) = j \<and> pg_no (u + j) = pg_no u" by (simp add: q pg_no_def pg_ofs_def PGSIZE_def)
qed

text \<open>A page of the user pool, taken and filled, that install_page puts at an unmapped address.\<close>

lemma install_frame:
  assumes ok: "user_ok v pd" and uo: "user_only v v2" and i: "i \<in> free_pages True (pg v)" "i < pool_pages True (pg v)"
    and k: "k = page_addr True (pg v) i" and fr: "free_pages True (pg v2) = free_pages True (pg v) - {i}"
    and m: "pmem (pg v2) = put (pmem (pg v)) k bs" and len: "length bs = PGSIZE"
    and u: "pg_ofs u = 0" "u < PHYS_BASE" and un: "\<not> mapped v pd u"
  shows "install_page pd u k rw v2 = Some (False, v2) \<and> free_pages False (pg v2) = {} \<or>
    (\<exists>v3. install_page pd u k rw v2 = Some (True, v3) \<and> user_ok v3 pd \<and> loaded v v3 pd u rw bs)"
proof -
  let ?f = "if rw then 7 else 5 :: nat"
  have pd: "pd_ok v pd" and vm: "vm_ok v" using ok by (simp_all add: user_ok_def pd_ok_def)
  note t2 = user_only_tables [OF uo pd]
  have vm2: "vm_ok v2" using uo by (simp add: user_only_def)
  have pool2: "base (user_pool (pg v2)) = base (user_pool (pg v))" "pool_pages True (pg v2) = pool_pages True (pg v)"
      "init_page_dir v2 = init_page_dir v" "init_ram_pages v2 = init_ram_pages v"
    using uo by (simp_all add: user_only_def get_pool_def split: if_splits)
  note ka = user_addr [OF vm i(2), folded k]
  have un2: "\<not> mapped v2 pd u" using un t2(2) [OF u(2)] by (simp add: mapped_def)
  have "base (user_pool (pg v)) + PGSIZE * pool_pages True (pg v) \<le> PHYS_BASE + PGSIZE * init_ram_pages v"
    using ok by (simp add: user_ok_def)
  then have "k + PGSIZE \<le> PHYS_BASE + PGSIZE * init_ram_pages v2" using ka(6) pool2(4) by simp
  moreover have "PHYS_BASE \<le> k" "0 < PGSIZE" using ka(1) by (simp_all add: kernel_page_def PGSIZE_def)
  ultimately have "k - PHYS_BASE < PGSIZE * init_ram_pages v2" by linarith
  then have ram: "(k - PHYS_BASE) div 4096 < init_ram_pages v2" by (intro less_mult_imp_div_less) (simp add: PGSIZE_def)
  have "translate (pte v2 pd u) (pg_ofs u) = Some 0" using un2 by (simp add: translate_def mapped_def present_odd)
  then have get: "pagedir_get_page pd u v2 = Some 0" using get_page_pte [OF t2(1) u(2)] by simp
  have pdi: "pd \<noteq> init_page_dir v2" using ok pool2 by (simp add: user_ok_def)
  from set_page_ok [OF t2(1) pdi u ka(1) ram un2, of rw] show ?thesis
  proof (elim disjE conjE exE)
    assume "pagedir_set_page pd u k rw v2 = Some (False, v2)" "free_pages False (pg v2) = {}"
    then show ?thesis using get by (simp add: install_page_def)
  next
    fix v3
    assume s: "pagedir_set_page pd u k rw v2 = Some (True, v3)" and ok3: "pd_ok v3 pd" and ko: "kernel_only v2 v3"
      and p3: "\<forall>a < PHYS_BASE. pte v3 pd a = (if pg_no a = pg_no u then entry k ?f else pte v2 pd a)"
    have vm3: "vm_ok v3" using ok3 by (simp add: pd_ok_def)
    note k3 = kernel_only_user [OF ko vm2 vm3]
    have p: "pte v3 pd a = (if pg_no a = pg_no u then entry k ?f else pte v pd a)" if "a < PHYS_BASE" for a
      using p3 t2(2) that by simp
    have e: "tab (entry k ?f) = k" "odd (entry k ?f)" using entry_facts(1,3) [OF ka(1), of ?f] by simp_all
    have uf: "user_frame v3 k" "user_frame v k' \<Longrightarrow> user_frame v3 k'" for k'
      using i fr pool2(2) user_only_addr [OF uo] unfolding k3(2) user_frame_def k by auto
    have "user_frame v3 (tab (pte v3 pd a))" if "a < PHYS_BASE" "mapped v3 pd a" for a
      using p [OF that(1)] that ok uf e(1) unfolding mapped_def user_ok_def by (auto split: if_splits)
    then have ok3': "user_ok v3 pd"
      using ok ok3 kernel_onlyD(1,2) [OF ko] k3(3,4) pool2 by (simp add: user_ok_def)
    have "mapped v3 pd (u + j) \<and> user_writable v3 pd (u + j) = rw \<and> user_byte v3 pd (u + j) = Some (bs ! j)"
      if j: "j < length bs" for j
    proof -
      have uj: "u + j < PHYS_BASE" using u j len by (auto simp: pg_ofs_def PGSIZE_def PHYS_BASE_def)
      have pm: "pg_ofs (u + j) = j" "pg_no (u + j) = pg_no u" using page_member [OF u(1)] j len by simp_all
      have pj: "pte v3 pd (u + j) = entry k ?f" using p [OF uj] pm(2) by simp
      then have mj: "mapped v3 pd (u + j)" using e(2) by (simp add: mapped_def present_odd)
      have "user_byte v3 pd (u + j) = pmem (pg v3) (k + j)"
        using user_byte_mapped [OF ok3' uj mj] pj e(1) pm(1) by simp
      also have "\<dots> = Some (bs ! j)" using k3(5) [of "k + j"] ka(5) pool2(1) m put_in [OF j] by simp
      finally show ?thesis using mj pj entry_writable [OF ka(1), of rw] by (simp add: user_writable_def)
    qed
    moreover have "pte v3 pd a = pte v pd a \<and> (mapped v pd a \<longrightarrow> user_byte v3 pd a = user_byte v pd a)"
      if a: "a < PHYS_BASE" "a < u \<or> u + length bs \<le> a" for a
    proof -
      have pa: "pte v3 pd a = pte v pd a" using p [OF a(1)] same_page [OF a(1) u(1)] a(2) len by auto
      have "user_byte v3 pd a = user_byte v pd a" if ma: "mapped v pd a"
      proof -
        let ?k = "tab (pte v pd a)"
        have fa: "user_frame v ?k" using ok a(1) ma by (simp add: user_ok_def)
        then obtain j where "j \<notin> free_pages True (pg v)" "?k = page_addr True (pg v) j" by (auto simp: user_frame_def)
        then have "\<not> (k \<le> ?k + pg_ofs a \<and> ?k + pg_ofs a < k + PGSIZE)"
          using i(1) by (intro frames_apart [OF k]) (auto simp: pg_ofs_def PGSIZE_def)
        then have "pmem (pg v2) (?k + pg_ofs a) = pmem (pg v) (?k + pg_ofs a)" unfolding m put_nth len by (simp only: if_False)
        then have "pmem (pg v3) (?k + pg_ofs a) = pmem (pg v) (?k + pg_ofs a)"
          using k3(5) [of "?k + pg_ofs a"] user_frame_addr(4) [OF vm fa] pool2(1) by simp
        then show ?thesis
          using user_byte_mapped [OF ok a(1) ma] user_byte_mapped [OF ok3' a(1)] ma pa by (simp add: mapped_def)
      qed
      then show ?thesis using pa by blast
    qed
    ultimately have "loaded v v3 pd u rw bs" by (simp add: loaded_def)
    then show ?thesis using s get ok3' by (auto simp: install_page_def)
  qed
qed

section \<open>Loading a segment\<close>

lemma store_bytes_ok: "writable m p (length bs) \<Longrightarrow> store_bytes m p bs = Some (put m p bs)"
  by (induction bs arbitrary: m p) (auto simp: wr_ok writable_upd)

text \<open>An open file, its contents and its position.\<close>

definition at_file :: "fs \<Rightarrow> nat \<Rightarrow> byte list \<Rightarrow> nat \<Rightarrow> bool" where
  "at_file s f B o' \<longleftrightarrow> (\<exists>fl i. files s f = Some fl \<and> inodes s (file_inode fl) = Some i \<and> pos fl = int o'
     \<and> data_ok (fs_device s) (idata i) \<and> allocs s = [] \<and> file_bytes (fs_device s) (idata i) = B)"

lemma read_at_file:
  assumes "at_file s f B o'"
  shows "\<exists>s'. file_read f (int n) s = Some (take n (drop o' B), s')
    \<and> at_file s' f B (o' + length (take n (drop o' B)))"
proof -
  obtain fl i where f: "files s f = Some fl" "inodes s (file_inode fl) = Some i" "pos fl = int o'"
      "data_ok (fs_device s) (idata i)" "allocs s = []" "file_bytes (fs_device s) (idata i) = B"
    using assms by (auto simp: at_file_def)
  let ?d = "take n (drop o' B)"
  obtain s1 where r: "inode_read_at i (int n) (pos fl) s = Some (?d, s1)" "quiet s s1" "allocs s1 = []"
    using inode_read_at_ok [OF f(4,5), of "pos fl" "int n"] f(3,6) by auto
  let ?s = "s1\<lparr>files := (files s1)(f \<mapsto> fl\<lparr>pos := pos fl + int (length ?d)\<rparr>)\<rparr>"
  note q = quiet_dev [OF r(2)]
  have "file_bytes (fs_device s1) (idata i) = B" "data_ok (fs_device s1) (idata i)"
    using f(4,6) data_ok_cong [OF q(1-3)] by (simp_all add: file_bytes_def fbyte_cong [OF q(1)])
  then have "at_file ?s f B (o' + length ?d)" using f(2,3) r(3) q by (simp add: at_file_def)
  then show ?thesis using f(1,2) r(1) by (auto simp: file_read_def)
qed

lemma seek_at_file: "at_file s f B o' \<Longrightarrow> 0 \<le> ofs \<Longrightarrow> \<exists>s'. file_seek f ofs s = Some s' \<and> at_file s' f B (nat ofs)"
  by (auto simp: at_file_def file_seek_def)

lemma page_split:
  assumes "rb + zb = PGSIZE * Suc n"
  defines "prb \<equiv> (if rb < PGSIZE then rb else PGSIZE)"
  shows "PGSIZE - prb \<le> zb" and "rb - prb + (zb - (PGSIZE - prb)) = PGSIZE * n" and "prb \<le> rb" and "prb \<le> PGSIZE"
    and "take rb bs @ replicate zb x = (take prb bs @ replicate (PGSIZE - prb) x)
           @ take (rb - prb) (drop prb bs) @ replicate (zb - (PGSIZE - prb)) x"
proof -
  show 1: "PGSIZE - prb \<le> zb" and 2: "prb \<le> rb" and "prb \<le> PGSIZE"
    and "rb - prb + (zb - (PGSIZE - prb)) = PGSIZE * n" using assms(1) by (auto simp: prb_def)
  have t: "take rb bs = take prb bs @ take (rb - prb) (drop prb bs)"
    using take_add [of prb "rb - prb" bs] 2 by simp
  show "take rb bs @ replicate zb x = (take prb bs @ replicate (PGSIZE - prb) x)
           @ take (rb - prb) (drop prb bs) @ replicate (zb - (PGSIZE - prb)) x"
  proof (cases "rb < PGSIZE")
    case True
    then show ?thesis using 1 by (simp add: prb_def flip: replicate_add)
  next
    case False
    then show ?thesis using t by (simp add: prb_def)
  qed
qed

text \<open>One round of the loop.\<close>

lemma load_page:
  assumes ok: "user_ok v pd" and f: "at_file s f B o'" and rz: "rb + zb = PGSIZE * Suc n"
    and u: "pg_ofs u = 0" "u < PHYS_BASE" "u + PGSIZE < 2 ^ 32" "rb + zb < 2 ^ 32" and un: "\<not> mapped v pd u"
  defines "prb \<equiv> (if rb < PGSIZE then rb else PGSIZE)"
  shows "(\<exists>v' s'. load_segment_loop pd f u rb zb rw v s = Some (False, v', s') \<and>
      (length B - o' < prb \<or> free_pages True (pg v') = {} \<or> free_pages False (pg v') = {})) \<or>
    (\<exists>v' s'. load_segment_loop pd f u rb zb rw v s
        = load_segment_loop pd f (u + PGSIZE) (rb - prb) (zb - (PGSIZE - prb)) rw v' s'
      \<and> user_ok v' pd \<and> at_file s' f B (o' + prb) \<and> prb \<le> length B - o'
      \<and> loaded v v' pd u rw (take prb (drop o' B) @ replicate (PGSIZE - prb) 0))"
proof -
  have vm: "vm_ok v" using ok by (simp add: user_ok_def pd_ok_def)
  note sp = page_split(1,3,4) [OF rz, folded prb_def]
  have pos: "rb > 0 \<or> zb > 0" using rz by (auto simp: PGSIZE_def)
  have arith: "size_add u PGSIZE = u + PGSIZE" "u32_sub rb prb = rb - prb" "u32_sub zb (PGSIZE - prb) = zb - (PGSIZE - prb)"
    using u(3,4) sp by (simp_all add: size_add_def u32_sub_ok)
  note unf = load_segment_loop.simps [of pd f u rb zb rw v s, folded prb_def]
  have fl: "PAL_USER AND PAL_USER \<noteq> 0" "PAL_USER AND PAL_ASSERT = 0" "PAL_USER AND PAL_ZERO = 0"
    by (simp_all add: PAL_USER_def PAL_ASSERT_def PAL_ZERO_def)
  from get_user_page [OF vm fl(1,2)] show ?thesis
  proof (elim disjE conjE exE)
    assume "get_page PAL_USER v = Some (0, v)" "free_pages True (pg v) = {}"
    then show ?thesis using pos by (simp add: unf Let_def)
  next
    fix i v1
    let ?k = "page_addr True (pg v) i" and ?d = "take prb (drop o' B)"
    assume g: "get_page PAL_USER v = Some (?k, v1)" and i: "i \<in> free_pages True (pg v)" "i < pool_pages True (pg v)"
      and fr: "free_pages True (pg v1) = free_pages True (pg v) - {i}" and uo: "user_only v v1"
      and "pmem (pg v1) = (if PAL_USER AND PAL_ZERO \<noteq> 0
             then put (pmem (pg v)) ?k (replicate PGSIZE 0) else pmem (pg v))"
    then have m1: "pmem (pg v1) = pmem (pg v)" using fl(3) by simp
    note ka = user_addr [OF vm i(2)]
    have vm1: "vm_ok v1" and i1: "i < pool_pages True (pg v1)" "i \<notin> free_pages True (pg v1)"
      and b1: "base (user_pool (pg v1)) \<le> ?k" and k1: "page_addr True (pg v1) i = ?k"
      using uo i fr ka(5) user_only_addr [OF uo] by (simp_all add: user_only_def get_pool_def split: if_splits)
    obtain s1 where rd: "file_read f (int prb) s = Some (?d, s1)" "at_file s1 f B (o' + length ?d)"
      using read_at_file [OF f] by blast
    have dl: "length ?d \<le> PGSIZE" using sp(3) by simp
    have st: "store_bytes (pmem (pg v1)) ?k ?d = Some (put (pmem (pg v)) ?k ?d)"
      using writable_mono [OF ka(2)] dl by (intro store_bytes_ok [THEN trans]) (auto simp: m1)
    let ?v = "set_mem (put (pmem (pg v)) ?k ?d) v1"
    show ?thesis
    proof (cases "length ?d = prb")
      case False
      have "\<exists>v'. free_page ?k ?v = Some v'"
        using free_user_page [of ?v i] i1 k1 user_only_put [OF vm1 b1, of ?d]
        by (auto simp: user_only_def m1 page_addr_def pool_pages_def)
      then show ?thesis using False pos g ka(3) rd(1) st by (auto simp: unf Let_def)
    next
      case True
      let ?bs = "?d @ replicate (PGSIZE - prb) 0"
      let ?v2 = "set_mem (put (pmem (pg v)) ?k ?bs) v1"
      have len: "length ?bs = PGSIZE" using True sp(3) by simp
      have "writable (put (pmem (pg v)) ?k ?d) (?k + prb) (PGSIZE - prb)"
        using writable_mono [OF ka(2), of "?k + prb" "PGSIZE - prb"] sp(3) by (simp add: writable_put)
      then have ms: "memset (pmem (pg ?v)) (?k + prb) 0 (PGSIZE - prb) = Some (?k + prb, put (pmem (pg v)) ?k ?bs)"
        using ka(3) True put_append [of "pmem (pg v)" ?k ?d] by (simp add: memset_def memset_loop_ok)
      have v2: "set_mem (put (pmem (pg v)) ?k ?bs) ?v = ?v2" by (simp add: set_mem_def)
      have uo2: "user_only v ?v2"
        using user_only_trans [OF uo user_only_put [OF vm1 b1, of ?bs]] by (simp add: m1)
      have fr2: "free_pages True (pg ?v2) = free_pages True (pg v) - {i}" using fr by (simp add: set_mem_def)
      have pm2: "pmem (pg ?v2) = put (pmem (pg v)) ?k ?bs" by simp
      have ol: "prb \<le> length B - o'" using True sp by auto
      from install_frame [OF ok uo2 i refl fr2 pm2 len u(1,2) un, of rw] show ?thesis
      proof (elim disjE conjE exE)
        assume ins: "install_page pd u ?k rw ?v2 = Some (False, ?v2)" "free_pages False (pg ?v2) = {}"
        obtain v' where v': "free_page ?k ?v2 = Some v'" "free_pages False (pg v') = free_pages False (pg ?v2)"
          using free_user_page [of ?v2 i] i1 k1 uo2 fr2 
          by (auto simp: user_only_def m1 page_addr_def pool_pages_def)
        show ?thesis using pos g ka(3) rd(1) st True ms v2 ins v' by (simp add: unf Let_def)
      next
        fix v3
        assume "install_page pd u ?k rw ?v2 = Some (True, v3)" "user_ok v3 pd" "loaded v v3 pd u rw ?bs"
        then show ?thesis using pos g ka(3) rd st True ms v2 arith ol by (simp add: unf Let_def) blast
      qed
    qed
  qed
qed

lemma load_segment_loop_ok:
  assumes "user_ok v pd" and "at_file s f B o'" and "rb + zb = PGSIZE * n"
    and "pg_ofs u = 0" and "u + PGSIZE * n \<le> PHYS_BASE"
    and "\<forall>a. u \<le> a \<and> a < u + PGSIZE * n \<longrightarrow> \<not> mapped v pd a"
  shows "\<exists>ok v' s'. load_segment_loop pd f u rb zb rw v s = Some (ok, v', s') \<and>
    (if ok then user_ok v' pd \<and> rb \<le> length B - o' \<and> at_file s' f B (o' + rb)
         \<and> loaded v v' pd u rw (take rb (drop o' B) @ replicate zb 0)
     else length B - o' < rb \<or> free_pages True (pg v') = {} \<or> free_pages False (pg v') = {})"
  using assms
proof (induction n arbitrary: v s u rb zb o')
  case 0
  then show ?case by (intro exI [of _ True]) (simp add: load_segment_loop.simps loaded_def)
next
  case (Suc n)
  define prb where "prb = (if rb < PGSIZE then rb else PGSIZE)"
  note sp = page_split [OF Suc.prems(3), folded prb_def]
  have P: "0 < PGSIZE" "PHYS_BASE + PGSIZE < 2 ^ 32" by (simp_all add: PGSIZE_def PHYS_BASE_def)
  have top: "u + PGSIZE + PGSIZE * n \<le> PHYS_BASE" using Suc.prems(5) by simp
  have u: "u < PHYS_BASE" "u + PGSIZE < 2 ^ 32" "rb + zb < 2 ^ 32" using top P Suc.prems(3) by simp_all
  have un: "\<not> mapped v pd u" using Suc.prems(6) P(1) by simp
  consider (fail) v' s' where "load_segment_loop pd f u rb zb rw v s = Some (False, v', s')"
      "length B - o' < prb \<or> free_pages True (pg v') = {} \<or> free_pages False (pg v') = {}"
    | (step) v1 s1 where "load_segment_loop pd f u rb zb rw v s
        = load_segment_loop pd f (u + PGSIZE) (rb - prb) (zb - (PGSIZE - prb)) rw v1 s1"
      "user_ok v1 pd" "at_file s1 f B (o' + prb)" "prb \<le> length B - o'"
      "loaded v v1 pd u rw (take prb (drop o' B) @ replicate (PGSIZE - prb) 0)"
    using load_page [OF Suc.prems(1-4) u un, folded prb_def, of rw] by blast
  then show ?case
  proof cases
    case fail
    then show ?thesis using sp(3) by (intro exI [of _ False] exI [of _ v'] exI [of _ s']) auto
  next
    case step
    note 1 = step(2-4) and ld = step(5)
    have len: "length (take prb (drop o' B) @ replicate (PGSIZE - prb) (0 :: byte)) = PGSIZE" using 1(3) sp(4) by simp
    have al: "pg_ofs (u + PGSIZE) = 0" using Suc.prems(4) by (simp add: pg_ofs_def)
    have un1: "\<forall>a. u + PGSIZE \<le> a \<and> a < u + PGSIZE + PGSIZE * n \<longrightarrow> \<not> mapped v1 pd a"
      using ld Suc.prems(6) top unfolding loaded_def len mapped_def by auto
    from Suc.IH [OF 1(1,2) sp(2) al top un1]
    obtain ok v' s' where r: "load_segment_loop pd f (u + PGSIZE) (rb - prb) (zb - (PGSIZE - prb)) rw v1 s1 = Some (ok, v', s')"
      "if ok then user_ok v' pd \<and> rb - prb \<le> length B - (o' + prb) \<and> at_file s' f B (o' + prb + (rb - prb))
         \<and> loaded v1 v' pd (u + PGSIZE) rw (take (rb - prb) (drop (o' + prb) B) @ replicate (zb - (PGSIZE - prb)) 0)
       else length B - (o' + prb) < rb - prb \<or> free_pages True (pg v') = {} \<or> free_pages False (pg v') = {}"
      by blast
    show ?thesis
    proof (cases ok)
      case False
      then show ?thesis using r step(1) 1(3) sp(3) by (intro exI [of _ False] exI [of _ v'] exI [of _ s']) auto
    next
      case True
      have "loaded v v' pd u rw (take rb (drop o' B) @ replicate zb 0)"
        unfolding sp(5) using loaded_append [OF ld, unfolded len] True r(2) top by (simp add: drop_drop add.commute)
      then show ?thesis using True r step(1) 1(3) sp(3) by (intro exI [of _ True] exI [of _ v'] exI [of _ s']) auto
    qed
  qed
qed

text \<open>C27: load_segment always returns.  If it succeeds, the pages of the segment hold the
  bytes of the file from the given offset followed by zeros, writable exactly if asked, and
  every page that was mapped before has its mapping and its contents; if it fails, the file is
  too short or a memory pool is empty.\<close>

theorem load_segment_correct:
  assumes "user_ok v pd" and "at_file s f B o'" and "(read_bytes + zero_bytes) mod PGSIZE = 0"
    and "pg_ofs upage = 0" and "upage + read_bytes + zero_bytes \<le> PHYS_BASE"
    and "\<forall>a. upage \<le> a \<and> a < upage + read_bytes + zero_bytes \<longrightarrow> \<not> mapped v pd a"
    and "0 \<le> ofs" and "ofs mod int PGSIZE = 0"
  shows "\<exists>ok v' s'. load_segment pd f ofs upage read_bytes zero_bytes rw v s = Some (ok, v', s')
    \<and> (ok \<longrightarrow> user_ok v' pd \<and> read_bytes \<le> length B - nat ofs
         \<and> (\<forall>j < read_bytes + zero_bytes. user_writable v' pd (upage + j) = rw
              \<and> user_byte v' pd (upage + j) = Some (if j < read_bytes then B ! (nat ofs + j) else 0))
         \<and> (\<forall>a < PHYS_BASE. mapped v pd a \<longrightarrow> user_byte v' pd a = user_byte v pd a
              \<and> user_writable v' pd a = user_writable v pd a))
    \<and> (\<not> ok \<longrightarrow> length B - nat ofs < read_bytes \<or> free_pages True (pg v') = {} \<or> free_pages False (pg v') = {})"
proof -
  obtain n where n: "read_bytes + zero_bytes = PGSIZE * n" using assms(3) by (auto simp: mod_eq_0_iff_dvd dvd_def)
  obtain s1 where s1: "file_seek f ofs s = Some s1" "at_file s1 f B (nat ofs)" using seek_at_file [OF assms(2,7)] by blast
  have top: "upage + PGSIZE * n \<le> PHYS_BASE" using assms(5) n by simp
  have un: "\<forall>a. upage \<le> a \<and> a < upage + PGSIZE * n \<longrightarrow> \<not> mapped v pd a" using assms(6) n by (simp add: add.assoc)
  from load_segment_loop_ok [OF assms(1) s1(2) n assms(4) top un]
  obtain ok v' s' where r: "load_segment_loop pd f upage read_bytes zero_bytes rw v s1 = Some (ok, v', s')"
    "if ok then user_ok v' pd \<and> read_bytes \<le> length B - nat ofs \<and> at_file s' f B (nat ofs + read_bytes)
         \<and> loaded v v' pd upage rw (take read_bytes (drop (nat ofs) B) @ replicate zero_bytes 0)
     else length B - nat ofs < read_bytes \<or> free_pages True (pg v') = {} \<or> free_pages False (pg v') = {}" by blast
  have "size_add read_bytes zero_bytes = read_bytes + zero_bytes" "ofs smod int PGSIZE = 0"
    using assms(5,7,8) by (simp_all add: size_add_def PHYS_BASE_def signed_modulo_int_def signed_divide_int_def)
  then have ls: "load_segment pd f ofs upage read_bytes zero_bytes rw v s = Some (ok, v', s')"
    using assms(3,4) s1(1) r(1) by (simp add: load_segment_def)
  show ?thesis
  proof (cases ok)
    case True
    let ?bs = "take read_bytes (drop (nat ofs) B) @ replicate zero_bytes 0"
    have rl: "read_bytes \<le> length B - nat ofs" and ld: "loaded v v' pd upage rw ?bs" and ok': "user_ok v' pd"
      using r(2) True by simp_all
    have len: "length ?bs = read_bytes + zero_bytes" using rl by simp
    have b: "?bs ! j = (if j < read_bytes then B ! (nat ofs + j) else 0)" if "j < read_bytes + zero_bytes" for j
      using that rl by (auto simp: nth_append)
    have "mapped v pd a \<Longrightarrow> a < upage \<or> upage + length ?bs \<le> a" for a
      unfolding len add.assoc [symmetric] using assms(6) not_less by blast
    with ld have "\<forall>a < PHYS_BASE. mapped v pd a \<longrightarrow> user_byte v' pd a = user_byte v pd a
              \<and> user_writable v' pd a = user_writable v pd a"
      unfolding loaded_def user_writable_def by metis
    moreover have "\<forall>j < read_bytes + zero_bytes. user_writable v' pd (upage + j) = rw
              \<and> user_byte v' pd (upage + j) = Some (if j < read_bytes then B ! (nat ofs + j) else 0)"
      using ld b len unfolding loaded_def by metis
    ultimately show ?thesis using ls True ok' rl by auto
  next
    case False
    then show ?thesis using ls r(2) by auto
  qed
qed

text \<open>The file of the demonstration device, open, and an address space with a free frame.\<close>

definition demo_file_fs :: fs where
  "demo_file_fs = demo_fs\<lparr>files := [7 \<mapsto> \<lparr>file_inode = 1, pos = 0, deny_write = False\<rparr>]\<rparr>"

theorem load_segment_correct_witness:
  "\<exists>ok v' s'. load_segment 0xc0100000 7 0 0x8048000 600 3496 False demo_vm demo_file_fs = Some (ok, v', s')
    \<and> (ok \<longrightarrow> user_byte v' 0xc0100000 (0x8048000 + 5) = Some (file_bytes (fs_device demo_fs) (idata demo_inode) ! 5)
         \<and> user_byte v' 0xc0100000 (0x8048000 + 700) = Some 0)
    \<and> (\<not> ok \<longrightarrow> free_pages True (pg v') = {} \<or> free_pages False (pg v') = {})"
proof -
  have ok: "user_ok demo_vm 0xc0100000"
    using demo_pd(1,2) by (simp add: user_ok_def) (simp add: demo_vm_def PGSIZE_def PHYS_BASE_def pool_pages_def get_pool_def)
  let ?B = "file_bytes (fs_device demo_fs) (idata demo_inode)"
  have f: "at_file demo_file_fs 7 ?B 0"
    using demo_data_ok by (simp add: at_file_def demo_file_fs_def) (simp add: demo_fs_def)
  have len: "length ?B = 700" by simp
  have pre: "(600 + 3496) mod PGSIZE = 0" "pg_ofs 0x8048000 = 0" "0x8048000 + 600 + 3496 \<le> PHYS_BASE"
    "0 \<le> (0 :: int)" "0 mod int PGSIZE = 0"
    by (simp_all add: PGSIZE_def PHYS_BASE_def pg_ofs_def)
  obtain ok v' s' where r: "load_segment 0xc0100000 7 0 0x8048000 600 3496 False demo_vm demo_file_fs = Some (ok, v', s')"
      "ok \<Longrightarrow> \<forall>j < 600 + 3496. user_byte v' 0xc0100000 (0x8048000 + j) = Some (if j < 600 then ?B ! (nat 0 + j) else 0)"
      "\<not> ok \<Longrightarrow> length ?B - nat 0 < 600 \<or> free_pages True (pg v') = {} \<or> free_pages False (pg v') = {}"
    using load_segment_correct [OF ok f pre(1-3) _ pre(4,5), of False] demo_pd(2) by blast
  show ?thesis using r(1) r(2) [THEN spec, of 5] r(2) [THEN spec, of 700] r(3) len
    by (intro exI [of _ ok] exI [of _ v'] exI [of _ s']) auto
qed

end
