(* ===== verification/KHash.thy ===== *)
theory KHash
  imports KListMore
begin

unbundle bit_operations_syntax

text \<open>
  The hash table of lib/kernel/hash.c: an array of kernel lists, on the links that KList
  models.  The hash function and the order on elements are arguments (the source calls them
  with the auxiliary data of the table), and so is what malloc returns for a size.  The lemmas
  show that the table is a set of elements with one element of each class that the order
  cannot tell apart, that the operations are those of that set, and that rehash keeps it.
\<close>

section \<open>The table\<close>

record hash =
  elem_cnt :: nat
  bucket_cnt :: nat
  buckets :: ptr

text \<open>struct list holds two list elements of eight bytes each.\<close>

definition bucket_list :: "ptr \<Rightarrow> nat \<Rightarrow> klist" where
  "bucket_list bs i = \<lparr>head = bs + 16 * i, tail = bs + 16 * i + 8\<rparr>"

definition find_bucket :: "(ptr \<Rightarrow> nat) \<Rightarrow> hash \<Rightarrow> ptr \<Rightarrow> klist" where
  "find_bucket hf t e = bucket_list (buckets t) (hf e AND (bucket_cnt t - 1))"

partial_function (option) find_elem_loop ::
    "(ptr \<Rightarrow> ptr \<Rightarrow> bool) \<Rightarrow> klist \<Rightarrow> ptr \<Rightarrow> ptr \<Rightarrow> lheap \<Rightarrow> ptr option" where
  "find_elem_loop lt bucket e i h = do {
     end' \<leftarrow> list_end bucket;
     (if i = end' then Some NULL
      else if \<not> lt i e \<and> \<not> lt e i then Some i
      else do { i \<leftarrow> list_next h i; find_elem_loop lt bucket e i h })
   }"

definition find_elem :: "(ptr \<Rightarrow> ptr \<Rightarrow> bool) \<Rightarrow> klist \<Rightarrow> ptr \<Rightarrow> lheap \<Rightarrow> ptr option" where
  "find_elem lt bucket e h = do { i \<leftarrow> list_begin bucket h; find_elem_loop lt bucket e i h }"

definition insert_elem :: "klist \<Rightarrow> ptr \<Rightarrow> hash \<Rightarrow> lheap \<Rightarrow> (hash \<times> lheap) option" where
  "insert_elem bucket e t h = do {
     let t = t\<lparr>elem_cnt := (elem_cnt t + 1) mod 2 ^ 32\<rparr>;
     h \<leftarrow> list_push_front bucket e h;
     Some (t, h)
   }"

definition remove_elem :: "ptr \<Rightarrow> hash \<Rightarrow> lheap \<Rightarrow> (hash \<times> lheap) option" where
  "remove_elem e t h = do {
     let t = t\<lparr>elem_cnt := nat ((int (elem_cnt t) - 1) mod 2 ^ 32)\<rparr>;
     (_, h) \<leftarrow> list_remove e h;
     Some (t, h)
   }"

section \<open>Initialisation\<close>

text \<open>The destructor acts on a store of its own.\<close>

partial_function (option) destroy_loop ::
    "(ptr \<Rightarrow> 'd \<Rightarrow> 'd) \<Rightarrow> klist \<Rightarrow> lheap \<Rightarrow> 'd \<Rightarrow> (lheap \<times> 'd) option" where
  "destroy_loop destructor bucket h d = do {
     e \<leftarrow> list_empty bucket h;
     (if e then Some (h, d)
      else do {
        (x, h) \<leftarrow> list_pop_front bucket h;
        destroy_loop destructor bucket h (destructor x d)
      })
   }"

text \<open>The number counts the buckets that are left.\<close>

fun clear_loop :: "(ptr \<Rightarrow> 'd \<Rightarrow> 'd) option \<Rightarrow> hash \<Rightarrow> nat \<Rightarrow> nat \<Rightarrow> lheap \<Rightarrow> 'd \<Rightarrow> (lheap \<times> 'd) option" where
  "clear_loop destructor t i 0 h d = Some (h, d)"
| "clear_loop destructor t i (Suc n) h d = do {
     let bucket = bucket_list (buckets t) i;
     (h, d) \<leftarrow> (case destructor of None \<Rightarrow> Some (h, d) | Some f \<Rightarrow> destroy_loop f bucket h d);
     h \<leftarrow> list_init bucket h;
     clear_loop destructor t (i + 1) n h d
   }"

definition hash_clear ::
    "(ptr \<Rightarrow> 'd \<Rightarrow> 'd) option \<Rightarrow> hash \<Rightarrow> lheap \<Rightarrow> 'd \<Rightarrow> (hash \<times> lheap \<times> 'd) option" where
  "hash_clear destructor t h d = do {
     (h, d) \<leftarrow> clear_loop destructor t 0 (bucket_cnt t) h d;
     Some (t\<lparr>elem_cnt := 0\<rparr>, h, d)
   }"

definition hash_init :: "(nat \<Rightarrow> ptr) \<Rightarrow> lheap \<Rightarrow> (bool \<times> hash \<times> lheap) option" where
  "hash_init alloc h = do {
     let t = \<lparr>elem_cnt = 0, bucket_cnt = 4, buckets = alloc (16 * 4)\<rparr>;
     (if buckets t \<noteq> NULL then do {
        (t, h, _) \<leftarrow> hash_clear None t h ();
        Some (True, t, h)
      }
      else Some (False, t, h))
   }"

text \<open>hash_destroy also frees the buckets.\<close>

definition hash_destroy ::
    "(ptr \<Rightarrow> 'd \<Rightarrow> 'd) option \<Rightarrow> hash \<Rightarrow> lheap \<Rightarrow> 'd \<Rightarrow> (hash \<times> lheap \<times> 'd) option" where
  "hash_destroy destructor t h d =
     (case destructor of None \<Rightarrow> Some (t, h, d) | Some f \<Rightarrow> hash_clear (Some f) t h d)"

section \<open>Changing the number of buckets\<close>

definition turn_off_least_1bit :: "nat \<Rightarrow> nat" where
  "turn_off_least_1bit x = x AND nat ((int x - 1) mod 2 ^ 32)"

definition is_power_of_2 :: "nat \<Rightarrow> bool" where
  "is_power_of_2 x \<longleftrightarrow> x \<noteq> 0 \<and> turn_off_least_1bit x = 0"

definition BEST_ELEMS_PER_BUCKET :: nat where "BEST_ELEMS_PER_BUCKET = 2"

partial_function (option) round_down_loop :: "nat \<Rightarrow> nat option" where
  "round_down_loop n = (if is_power_of_2 n then Some n else round_down_loop (turn_off_least_1bit n))"

definition new_bucket_cnt :: "nat \<Rightarrow> nat option" where
  "new_bucket_cnt cnt =
     (let n = cnt div BEST_ELEMS_PER_BUCKET in round_down_loop (if n < 4 then 4 else n))"

fun init_buckets :: "ptr \<Rightarrow> nat \<Rightarrow> nat \<Rightarrow> lheap \<Rightarrow> lheap option" where
  "init_buckets bs i 0 h = Some h"
| "init_buckets bs i (Suc n) h = do {
     h \<leftarrow> list_init (bucket_list bs i) h;
     init_buckets bs (i + 1) n h
   }"

partial_function (option) move_loop :: "(ptr \<Rightarrow> nat) \<Rightarrow> hash \<Rightarrow> klist \<Rightarrow> ptr \<Rightarrow> lheap \<Rightarrow> lheap option" where
  "move_loop hf t old_bucket elem h = do {
     end' \<leftarrow> list_end old_bucket;
     (if elem = end' then Some h
      else do {
        let new_bucket = find_bucket hf t elem;
        next' \<leftarrow> list_next h elem;
        (_, h) \<leftarrow> list_remove elem h;
        h \<leftarrow> list_push_front new_bucket elem h;
        move_loop hf t old_bucket next' h
      })
   }"

fun move_buckets :: "(ptr \<Rightarrow> nat) \<Rightarrow> hash \<Rightarrow> ptr \<Rightarrow> nat \<Rightarrow> nat \<Rightarrow> lheap \<Rightarrow> lheap option" where
  "move_buckets hf t old_buckets i 0 h = Some h"
| "move_buckets hf t old_buckets i (Suc n) h = do {
     let old_bucket = bucket_list old_buckets i;
     elem \<leftarrow> list_begin old_bucket h;
     h \<leftarrow> move_loop hf t old_bucket elem h;
     move_buckets hf t old_buckets (i + 1) n h
   }"

definition rehash :: "(nat \<Rightarrow> ptr) \<Rightarrow> (ptr \<Rightarrow> nat) \<Rightarrow> hash \<Rightarrow> lheap \<Rightarrow> (hash \<times> lheap) option" where
  "rehash alloc hf t h = do {
     n \<leftarrow> new_bucket_cnt (elem_cnt t);
     (if n = bucket_cnt t then Some (t, h)
      else do {
        let new_buckets = alloc (16 * n mod 2 ^ 32);
        (if new_buckets = NULL then Some (t, h)
         else do {
           h \<leftarrow> init_buckets new_buckets 0 n h;
           let t' = t\<lparr>buckets := new_buckets, bucket_cnt := n\<rparr>;
           h \<leftarrow> move_buckets hf t' (buckets t) 0 (bucket_cnt t) h;
           Some (t', h)
         })
      })
   }"

section \<open>Insertion, search, deletion\<close>

definition hash_insert ::
    "(nat \<Rightarrow> ptr) \<Rightarrow> (ptr \<Rightarrow> nat) \<Rightarrow> (ptr \<Rightarrow> ptr \<Rightarrow> bool) \<Rightarrow> ptr \<Rightarrow> hash \<Rightarrow> lheap \<Rightarrow> (ptr \<times> hash \<times> lheap) option" where
  "hash_insert alloc hf lt new t h = do {
     let bucket = find_bucket hf t new;
     old \<leftarrow> find_elem lt bucket new h;
     (t, h) \<leftarrow> (if old = NULL then insert_elem bucket new t h else Some (t, h));
     (t, h) \<leftarrow> rehash alloc hf t h;
     Some (old, t, h)
   }"

definition hash_replace ::
    "(nat \<Rightarrow> ptr) \<Rightarrow> (ptr \<Rightarrow> nat) \<Rightarrow> (ptr \<Rightarrow> ptr \<Rightarrow> bool) \<Rightarrow> ptr \<Rightarrow> hash \<Rightarrow> lheap \<Rightarrow> (ptr \<times> hash \<times> lheap) option" where
  "hash_replace alloc hf lt new t h = do {
     let bucket = find_bucket hf t new;
     old \<leftarrow> find_elem lt bucket new h;
     (t, h) \<leftarrow> (if old \<noteq> NULL then remove_elem old t h else Some (t, h));
     (t, h) \<leftarrow> insert_elem bucket new t h;
     (t, h) \<leftarrow> rehash alloc hf t h;
     Some (old, t, h)
   }"

definition hash_find :: "(ptr \<Rightarrow> nat) \<Rightarrow> (ptr \<Rightarrow> ptr \<Rightarrow> bool) \<Rightarrow> ptr \<Rightarrow> hash \<Rightarrow> lheap \<Rightarrow> ptr option" where
  "hash_find hf lt e t h = find_elem lt (find_bucket hf t e) e h"

definition hash_delete ::
    "(nat \<Rightarrow> ptr) \<Rightarrow> (ptr \<Rightarrow> nat) \<Rightarrow> (ptr \<Rightarrow> ptr \<Rightarrow> bool) \<Rightarrow> ptr \<Rightarrow> hash \<Rightarrow> lheap \<Rightarrow> (ptr \<times> hash \<times> lheap) option" where
  "hash_delete alloc hf lt e t h = do {
     found \<leftarrow> find_elem lt (find_bucket hf t e) e h;
     (if found \<noteq> NULL then do {
        (t, h) \<leftarrow> remove_elem found t h;
        (t, h) \<leftarrow> rehash alloc hf t h;
        Some (found, t, h)
      }
      else Some (found, t, h))
   }"

definition hash_size :: "hash \<Rightarrow> nat" where "hash_size t = elem_cnt t"
definition hash_empty :: "hash \<Rightarrow> bool" where "hash_empty t \<longleftrightarrow> elem_cnt t = 0"

section \<open>Iteration\<close>

partial_function (option) apply_loop ::
    "(ptr \<Rightarrow> 'd \<Rightarrow> 'd) \<Rightarrow> klist \<Rightarrow> ptr \<Rightarrow> lheap \<Rightarrow> 'd \<Rightarrow> 'd option" where
  "apply_loop action bucket elem h d = do {
     end' \<leftarrow> list_end bucket;
     (if elem = end' then Some d
      else do {
        next' \<leftarrow> list_next h elem;
        apply_loop action bucket next' h (action elem d)
      })
   }"

fun apply_buckets :: "(ptr \<Rightarrow> 'd \<Rightarrow> 'd) \<Rightarrow> hash \<Rightarrow> nat \<Rightarrow> nat \<Rightarrow> lheap \<Rightarrow> 'd \<Rightarrow> 'd option" where
  "apply_buckets action t i 0 h d = Some d"
| "apply_buckets action t i (Suc n) h d = do {
     let bucket = bucket_list (buckets t) i;
     elem \<leftarrow> list_begin bucket h;
     d \<leftarrow> apply_loop action bucket elem h d;
     apply_buckets action t (i + 1) n h d
   }"

definition hash_apply :: "(ptr \<Rightarrow> 'd \<Rightarrow> 'd) \<Rightarrow> hash \<Rightarrow> lheap \<Rightarrow> 'd \<Rightarrow> 'd option" where
  "hash_apply action t h d = apply_buckets action t 0 (bucket_cnt t) h d"

text \<open>An iterator: the number of its bucket and its element.\<close>

record hash_iterator =
  it_bucket :: nat
  it_elem :: ptr

definition hash_first :: "hash \<Rightarrow> hash_iterator option" where
  "hash_first t = do { e \<leftarrow> list_head (bucket_list (buckets t) 0); Some \<lparr>it_bucket = 0, it_elem = e\<rparr> }"

partial_function (option) next_loop :: "hash \<Rightarrow> lheap \<Rightarrow> hash_iterator \<Rightarrow> hash_iterator option" where
  "next_loop t h i = do {
     end' \<leftarrow> list_end (bucket_list (buckets t) (it_bucket i));
     (if it_elem i \<noteq> end' then Some i
      else if it_bucket i + 1 \<ge> bucket_cnt t then Some \<lparr>it_bucket = it_bucket i + 1, it_elem = NULL\<rparr>
      else do {
        e \<leftarrow> list_begin (bucket_list (buckets t) (it_bucket i + 1)) h;
        next_loop t h \<lparr>it_bucket = it_bucket i + 1, it_elem = e\<rparr>
      })
   }"

definition hash_next :: "hash \<Rightarrow> lheap \<Rightarrow> hash_iterator \<Rightarrow> (ptr \<times> hash_iterator) option" where
  "hash_next t h i = do {
     e \<leftarrow> list_next h (it_elem i);
     i \<leftarrow> next_loop t h (i\<lparr>it_elem := e\<rparr>);
     Some (it_elem i, i)
   }"

definition hash_cur :: "hash_iterator \<Rightarrow> ptr" where "hash_cur i = it_elem i"

section \<open>Hash functions\<close>

definition FNV_32_PRIME :: "32 word" where "FNV_32_PRIME = 16777619"
definition FNV_32_BASIS :: "32 word" where "FNV_32_BASIS = 2166136261"

fun fnv :: "8 word list \<Rightarrow> 32 word \<Rightarrow> 32 word" where
  "fnv [] v = v"
| "fnv (b # bs) v = fnv bs ((v * FNV_32_PRIME) XOR ucast b)"

definition hash_bytes :: "8 word list \<Rightarrow> 32 word" where
  "hash_bytes bs = fnv bs FNV_32_BASIS"

text \<open>The loop over a string, a list of bytes with its terminator.\<close>

fun fnv_string :: "8 word list \<Rightarrow> 32 word \<Rightarrow> 32 word" where
  "fnv_string [] v = v"
| "fnv_string (c # cs) v = (if c = 0 then v else fnv_string cs ((v * FNV_32_PRIME) XOR ucast c))"

definition hash_string :: "8 word list \<Rightarrow> 32 word" where
  "hash_string s = fnv_string s FNV_32_BASIS"

text \<open>The bytes of an int, the lowest first.\<close>

definition int_bytes :: "int \<Rightarrow> 8 word list" where
  "int_bytes i = map (\<lambda>k. word_of_int (i div 2 ^ (8 * k))) [0, 1, 2, 3]"

definition hash_int :: "int \<Rightarrow> 32 word" where
  "hash_int i = hash_bytes (int_bytes i)"

text \<open>The elements of the list and hash exercise hold an int.\<close>

definition hash_func :: "(ptr \<Rightarrow> int) \<Rightarrow> ptr \<Rightarrow> nat" where
  "hash_func data e = unat (hash_int (data e))"

definition hash_square :: "ptr \<Rightarrow> (ptr \<Rightarrow> int) \<Rightarrow> ptr \<Rightarrow> int" where
  "hash_square e data = data(e := wrap32 (data e * data e))"

definition hash_triple :: "ptr \<Rightarrow> (ptr \<Rightarrow> int) \<Rightarrow> ptr \<Rightarrow> int" where
  "hash_triple e data = data(e := wrap32 (wrap32 (data e * data e) * data e))"

definition hash_less :: "(ptr \<Rightarrow> int) \<Rightarrow> ptr \<Rightarrow> ptr \<Rightarrow> bool" where
  "hash_less data a b \<longleftrightarrow> data a < data b"

section \<open>Powers of two\<close>

lemma turn_off_nat: "0 < x \<Longrightarrow> x < 2 ^ 32 \<Longrightarrow> turn_off_least_1bit x = x AND (x - 1)"
proof -
  assume x: "0 < x" "x < 2 ^ 32"
  then have "(int x - 1) mod 2 ^ 32 = int x - 1" by (intro mod_pos_pos_trivial) simp_all
  moreover have "nat (int x - 1) = x - 1" by simp
  ultimately show ?thesis by (simp only: turn_off_least_1bit_def)
qed

lemma turn_off_rec:
  shows "(2 * m + 1) AND (2 * m + 1 - 1) = (2 * m :: nat)"
    and "0 < m \<Longrightarrow> (2 * m) AND (2 * m - 1) = 2 * (m AND (m - 1 :: nat))"
proof -
  show "(2 * m + 1) AND (2 * m + 1 - 1) = 2 * m" by (subst and_rec) simp
  show "0 < m \<Longrightarrow> (2 * m) AND (2 * m - 1) = 2 * (m AND (m - 1))"
  proof -
    assume "0 < m"
    then obtain q where m: "m = Suc q" by (cases m) auto
    have "2 * Suc q - 1 = Suc (2 * q)" by simp
    then show ?thesis unfolding m by (subst and_rec) simp
  qed
qed

lemma turn_off_zero: "0 < x \<Longrightarrow> x AND (x - 1) = 0 \<Longrightarrow> \<exists>k. x = (2 :: nat) ^ k"
proof (induction x rule: less_induct)
  case (less x)
  show ?case
  proof (cases "even x")
    case True
    then obtain m where m: "x = 2 * m" by blast
    then have "\<exists>k. m = 2 ^ k" using less turn_off_rec(2) [of m] by (intro less.IH) auto
    then show ?thesis using m by (metis power_Suc)
  next
    case False
    then obtain m where m: "x = 2 * m + 1" by (rule oddE)
    then have "m = 0" using less.prems(2) turn_off_rec(1) [of m] by simp
    then have "x = 2 ^ 0" using m by simp
    then show ?thesis by blast
  qed
qed

lemma power_turn_off: "2 ^ k AND (2 ^ k - 1) = (0 :: nat)"
proof (induction k)
  case (Suc k)
  then show ?case using turn_off_rec(2) [of "2 ^ k"] by simp
qed simp

lemma turn_off_less: "0 < x \<Longrightarrow> x AND (x - 1) < (x :: nat)"
proof (induction x rule: less_induct)
  case (less x)
  show ?case
  proof (cases "even x")
    case True
    then obtain m where m: "x = 2 * m" by blast
    then show ?thesis using less turn_off_rec(2) [of m] less.IH [of m] by simp
  next
    case False
    then obtain m where "x = 2 * m + 1" by (rule oddE)
    then show ?thesis using turn_off_rec(1) [of m] by simp
  qed
qed

lemma turn_off_ge: "2 ^ k \<le> x \<Longrightarrow> x AND (x - 1) \<noteq> 0 \<Longrightarrow> 2 ^ k \<le> x AND (x - 1 :: nat)"
proof (induction k arbitrary: x)
  case (Suc k)
  show ?case
  proof (cases "even x")
    case True
    then obtain m where m: "x = 2 * m" by blast
    then have "0 < m" using Suc.prems by (cases m) auto
    then show ?thesis using Suc.prems Suc.IH [of m] m turn_off_rec(2) [of m] by simp
  next
    case False
    then obtain m where m: "x = 2 * m + 1" by (rule oddE)
    have "2 ^ k \<le> m" using Suc.prems(1) m by simp
    then show ?thesis using m turn_off_rec(1) [of m] by simp
  qed
qed simp

lemma is_power_of_2_iff: "x < 2 ^ 32 \<Longrightarrow> is_power_of_2 x \<longleftrightarrow> (\<exists>k. x = 2 ^ k)"
  using turn_off_nat [of x] turn_off_zero [of x] power_turn_off by (cases "x = 0") (auto simp: is_power_of_2_def)

lemma round_down_loop_ok:
  assumes "2 ^ j \<le> x" and "x < 2 ^ 32"
  shows "\<exists>k \<ge> j. round_down_loop x = Some (2 ^ k) \<and> 2 ^ k \<le> x"
  using assms
proof (induction x rule: less_induct)
  case (less x)
  have pos: "0 < x" using less.prems(1) by (metis less_le_trans zero_less_power zero_less_numeral)
  show ?case
  proof (cases "is_power_of_2 x")
    case True
    then obtain k where k: "x = 2 ^ k" using is_power_of_2_iff [OF less.prems(2)] by blast
    then have "j \<le> k" using less.prems(1) by simp
    then show ?thesis using True k by (subst round_down_loop.simps) auto
  next
    case False
    let ?y = "turn_off_least_1bit x"
    note t = turn_off_nat [OF pos less.prems(2)]
    have "?y \<noteq> 0" using False pos by (simp add: is_power_of_2_def)
    then have "?y < x" "2 ^ j \<le> ?y" using turn_off_less [OF pos] turn_off_ge [OF less.prems(1)] t by simp_all
    then have "\<exists>k \<ge> j. round_down_loop ?y = Some (2 ^ k) \<and> 2 ^ k \<le> ?y" using less by simp
    then show ?thesis using False \<open>?y < x\<close> by (subst round_down_loop.simps) auto
  qed
qed

lemma new_bucket_cnt_ok:
  assumes "cnt < 2 ^ 32"
  shows "\<exists>k. new_bucket_cnt cnt = Some (2 ^ k) \<and> 2 \<le> k \<and> 2 ^ k \<le> max 4 (cnt div 2) \<and> max 4 (cnt div 2) < 2 ^ Suc k"
proof -
  let ?m = "max 4 (cnt div 2)"
  have "2 \<le> (2 :: nat)" "1 \<le> ?m" by (simp_all add: le_max_iff_disj)
  from ex_power_ivl1 [OF this] obtain j where j: "2 ^ j \<le> ?m" "?m < 2 ^ Suc j" by (metis Suc_eq_plus1)
  have lt: "?m < 2 ^ 32" using assms by simp
  obtain k where k: "j \<le> k" "round_down_loop ?m = Some (2 ^ k)" "2 ^ k \<le> ?m"
    using round_down_loop_ok [OF j(1) lt] by blast
  have "(2 :: nat) ^ Suc j \<le> 2 ^ Suc k" using k(1) by (intro power_increasing) simp_all
  then have top: "?m < 2 ^ Suc k" using j(2) by linarith
  have "2 \<le> k"
  proof (rule ccontr)
    assume "\<not> 2 \<le> k"
    then have "(2 :: nat) ^ Suc k \<le> 2 ^ 2" by (intro power_increasing) simp_all
    then show False using top by simp
  qed
  moreover have "new_bucket_cnt cnt = round_down_loop ?m"
    by (simp add: new_bucket_cnt_def BEST_ELEMS_PER_BUCKET_def Let_def max_def)
  ultimately show ?thesis using k(2,3) top by metis
qed

section \<open>Arrays of lists\<close>

definition nodes :: "ptr \<Rightarrow> ptr list list \<Rightarrow> nat \<Rightarrow> ptr set" where
  "nodes b bs i = set (full (bucket_list b i) (bs ! i))"

definition all_nodes :: "ptr \<Rightarrow> ptr list list \<Rightarrow> ptr set" where
  "all_nodes b bs = (\<Union>i < length bs. nodes b bs i)"

definition bks :: "lheap \<Rightarrow> ptr \<Rightarrow> ptr list list \<Rightarrow> bool" where
  "bks h b bs \<longleftrightarrow> (\<forall>i < length bs. dll h (bucket_list b i) (bs ! i))
     \<and> (\<forall>i < length bs. \<forall>j < length bs. i \<noteq> j \<longrightarrow> nodes b bs i \<inter> nodes b bs j = {})"

text \<open>Two stores with the same links at some addresses.\<close>

definition same_links :: "lheap \<Rightarrow> lheap \<Rightarrow> ptr set \<Rightarrow> bool" where
  "same_links h h' A \<longleftrightarrow> (\<forall>p \<in> A. nxt h' p = nxt h p \<and> prv h' p = prv h p)"

lemma same_links_trans: "same_links h h1 A \<Longrightarrow> same_links h1 h2 A \<Longrightarrow> same_links h h2 A"
  by (simp add: same_links_def)

lemma same_links_mono: "same_links h h' B \<Longrightarrow> A \<subseteq> B \<Longrightarrow> same_links h h' A"
  by (auto simp: same_links_def)

lemma nodes_elems: "i < length bs \<Longrightarrow> set (bs ! i) \<subseteq> nodes b bs i" "i < length bs \<Longrightarrow> nodes b bs i \<subseteq> all_nodes b bs"
  by (auto simp: nodes_def all_nodes_def full_def)

lemma elems_nodes: "set (concat bs) \<subseteq> all_nodes b bs"
proof
  fix e assume "e \<in> set (concat bs)"
  then obtain i where "i < length bs" "e \<in> set (bs ! i)"
    unfolding set_concat by (metis UN_E in_set_conv_nth)
  then show "e \<in> all_nodes b bs" using nodes_elems by blast
qed

lemma nodes_upd:
  "nodes b (bs[i := xs]) j = (if i = j \<and> i < length bs then set (full (bucket_list b i) xs) else nodes b bs j)"
  by (cases "i < length bs") (auto simp: nodes_def nth_list_update list_update_beyond)

lemma all_nodes_put: "i < length bs \<Longrightarrow> all_nodes b (bs[i := e # bs ! i]) = insert e (all_nodes b bs)"
proof -
  assume i: "i < length bs"
  have "nodes b (bs[i := e # bs ! i]) m = (if m = i then {e} else {}) \<union> nodes b bs m" for m
    using i by (auto simp: nodes_upd nodes_def full_def)
  then show ?thesis using i unfolding all_nodes_def by (auto split: if_splits)
qed

lemma bks_upd:
  assumes ok: "bks h b bs" and i: "i < length bs" and d: "dll h' (bucket_list b i) xs"
    and fr: "same_links h h' (all_nodes b bs - nodes b bs i)"
    and new: "set xs \<inter> (all_nodes b bs - nodes b bs i) = {}"
  shows "bks h' b (bs[i := xs])"
proof -
  have hd: "nodes b (bs[i := xs]) i \<subseteq> set xs \<union> nodes b bs i" using i by (auto simp: nodes_upd nodes_def full_def)
  have dis: "nodes b (bs[i := xs]) i \<inter> nodes b bs j = {}" if "j < length bs" "j \<noteq> i" for j
  proof -
    have "nodes b bs i \<inter> nodes b bs j = {}" using ok i that by (auto simp: bks_def)
    moreover from this have "nodes b bs j \<subseteq> all_nodes b bs - nodes b bs i" using nodes_elems(2) [OF that(1)] by blast
    ultimately show ?thesis using hd new by blast
  qed
  have "dll h' (bucket_list b j) (bs ! j)" if "j < length bs" "j \<noteq> i" for j
  proof (rule dll_frame)
    show "dll h (bucket_list b j) (bs ! j)" using ok that by (simp add: bks_def)
    have "nodes b bs i \<inter> nodes b bs j = {}" using ok i that by (auto simp: bks_def)
    then have "nodes b bs j \<subseteq> all_nodes b bs - nodes b bs i" using nodes_elems(2) [OF that(1)] by blast
    then show "nxt h' p = nxt h p \<and> prv h' p = prv h p" if "p \<in> set (full (bucket_list b j) (bs ! j))" for p
      using fr that by (auto simp: same_links_def nodes_def)
  qed
  then have "\<forall>j < length (bs[i := xs]). dll h' (bucket_list b j) (bs[i := xs] ! j)"
    using d i by (auto simp: nth_list_update)
  moreover have "nodes b (bs[i := xs]) j \<inter> nodes b (bs[i := xs]) k = {}" if "j < length bs" "k < length bs" "j \<noteq> k" for j k
  proof -
    have "nodes b bs j \<inter> nodes b bs k = {}" using ok that by (auto simp: bks_def)
    moreover have "nodes b (bs[i := xs]) l = nodes b bs l" if "l \<noteq> i" for l using that by (simp add: nodes_upd)
    ultimately show ?thesis using dis that by (cases "j = i"; cases "k = i") (simp_all add: inf_commute)
  qed
  ultimately show ?thesis by (simp add: bks_def)
qed

lemma bks_frame: "bks h b bs \<Longrightarrow> same_links h h' (all_nodes b bs) \<Longrightarrow> bks h' b bs"
proof -
  assume ok: "bks h b bs" and s: "same_links h h' (all_nodes b bs)"
  have "dll h' (bucket_list b i) (bs ! i)" if "i < length bs" for i
  proof (rule dll_frame)
    show "dll h (bucket_list b i) (bs ! i)" using ok that by (simp add: bks_def)
    show "nxt h' p = nxt h p \<and> prv h' p = prv h p" if "p \<in> set (full (bucket_list b i) (bs ! i))" for p
      using s that \<open>i < length bs\<close> nodes_elems(2) [of i bs b] by (auto simp: same_links_def nodes_def)
  qed
  then show ?thesis using ok by (simp add: bks_def)
qed

lemma bks_push:
  assumes ok: "bks h b bs" and i: "i < length bs" and e: "e \<noteq> NULL" "e \<notin> all_nodes b bs"
  shows "\<exists>h'. list_push_front (bucket_list b i) e h = Some h' \<and> bks h' b (bs[i := e # bs ! i])
    \<and> same_links h h' (- insert e (all_nodes b bs))"
proof -
  have d: "dll h (bucket_list b i) (bs ! i)" using ok i by (simp add: bks_def)
  have n: "e \<notin> set (full (bucket_list b i) (bs ! i))" using e(2) nodes_elems(2) [OF i, of b] by (auto simp: nodes_def)
  obtain h' where h': "list_push_front (bucket_list b i) e h = Some h'" "dll h' (bucket_list b i) (e # bs ! i)"
      "\<forall>p. p \<notin> set (e # full (bucket_list b i) (bs ! i)) \<longrightarrow> nxt h' p = nxt h p \<and> prv h' p = prv h p"
    using list_push_front_dll [OF d e(1) n] by blast
  have fr: "same_links h h' (all_nodes b bs - nodes b bs i)" "same_links h h' (- insert e (all_nodes b bs))"
    using h'(3) e(2) nodes_elems(2) [OF i, of b] unfolding same_links_def nodes_def by auto
  have "set (e # bs ! i) \<inter> (all_nodes b bs - nodes b bs i) = {}" using e(2) nodes_elems(1) [OF i, of b] by auto
  then show ?thesis using h'(1) fr bks_upd [OF ok i h'(2) fr(1)] by blast
qed

lemma bks_remove:
  assumes ok: "bks h b bs" and i: "i < length bs" and e: "bs ! i = xs @ e # ys"
  shows "\<exists>h'. list_remove e h = Some (pos (bucket_list b i) ys, h') \<and> bks h' b (bs[i := xs @ ys])
    \<and> same_links h h' (- all_nodes b (bs[i := xs @ ys])) \<and> e \<notin> all_nodes b (bs[i := xs @ ys])
    \<and> all_nodes b (bs[i := xs @ ys]) \<subseteq> all_nodes b bs"
proof -
  have d: "dll h (bucket_list b i) (xs @ e # ys)" using ok i e by (metis bks_def)
  obtain h' where h': "list_remove e h = Some (pos (bucket_list b i) ys, h')" "dll h' (bucket_list b i) (xs @ ys)"
      "\<forall>p. p \<notin> set (full (bucket_list b i) (xs @ ys)) \<longrightarrow> nxt h' p = nxt h p \<and> prv h' p = prv h p"
    using list_remove_dll [OF d] by blast
  have sub: "set (full (bucket_list b i) (xs @ ys)) \<subseteq> nodes b bs i" by (auto simp: nodes_def full_def e)
  then have fr: "same_links h h' (all_nodes b bs - nodes b bs i)" using h'(3) by (auto simp: same_links_def)
  have "set (xs @ ys) \<inter> (all_nodes b bs - nodes b bs i) = {}" using sub by (auto simp: full_def)
  note b' = bks_upd [OF ok i h'(2) fr this]
  have nu: "nodes b (bs[i := xs @ ys]) j \<subseteq> nodes b bs j" for j using sub by (cases "i = j") (simp_all add: nodes_upd)
  then have sub': "all_nodes b (bs[i := xs @ ys]) \<subseteq> all_nodes b bs" by (auto simp: all_nodes_def)
  have "e \<notin> nodes b (bs[i := xs @ ys]) j" if j: "j < length bs" for j
  proof (cases "j = i")
    case True
    have "distinct (full (bucket_list b i) (xs @ e # ys))" using d by (simp add: dll_def)
    then show ?thesis using True i by (auto simp: nodes_upd full_def)
  next
    case False
    have "e \<in> nodes b bs i" using i e by (auto simp: nodes_def full_def)
    then have "e \<notin> nodes b bs j" using ok i j False unfolding bks_def by blast
    then show ?thesis using nu by blast
  qed
  then have ne: "e \<notin> all_nodes b (bs[i := xs @ ys])" by (simp add: all_nodes_def)
  have "set (full (bucket_list b i) (xs @ ys)) = nodes b (bs[i := xs @ ys]) i" using i by (simp add: nodes_upd)
  then have "set (full (bucket_list b i) (xs @ ys)) \<subseteq> all_nodes b (bs[i := xs @ ys])" using i by (auto simp: all_nodes_def)
  then have "same_links h h' (- all_nodes b (bs[i := xs @ ys]))" using h'(3) by (auto simp: same_links_def)
  then show ?thesis using h'(1) b' ne sub' by blast
qed

section \<open>Searching, initialising and moving\<close>

definition eqv :: "(ptr \<Rightarrow> ptr \<Rightarrow> bool) \<Rightarrow> ptr \<Rightarrow> ptr \<Rightarrow> bool" where
  "eqv lt a b \<longleftrightarrow> \<not> lt a b \<and> \<not> lt b a"

definition found :: "(ptr \<Rightarrow> ptr \<Rightarrow> bool) \<Rightarrow> ptr \<Rightarrow> ptr list \<Rightarrow> ptr" where
  "found lt e xs = (case find (\<lambda>x. eqv lt x e) xs of None \<Rightarrow> NULL | Some x \<Rightarrow> x)"

lemma find_elem_loop_dll:
  assumes "dll h l (xs @ ys)"
  shows "find_elem_loop lt l e (pos l ys) h = Some (found lt e ys)"
  using assms
proof (induction ys arbitrary: xs)
  case Nil
  then show ?case by (simp add: find_elem_loop.simps list_end_dll [OF Nil] found_def)
next
  case (Cons y ys)
  have "y \<noteq> tail l" using dllD(7) [OF Cons.prems] by auto
  moreover have "list_next h y = Some (pos l ys)" using list_next_dll [OF Cons.prems] by (simp add: pos_def)
  moreover have "find_elem_loop lt l e (pos l ys) h = Some (found lt e ys)" using Cons.IH [of "xs @ [y]"] Cons.prems by simp
  ultimately show ?case
    by (subst find_elem_loop.simps) (simp add: list_end_dll [OF Cons.prems] found_def eqv_def)
qed

lemma find_elem_dll: "dll h l xs \<Longrightarrow> find_elem lt l e h = Some (found lt e xs)"
  using find_elem_loop_dll [of h l "[]" xs lt e] by (simp add: find_elem_def list_begin_dll pos_def)

text \<open>A block for \<open>n\<close> buckets.\<close>

definition block :: "ptr \<Rightarrow> nat \<Rightarrow> ptr set" where
  "block b n = {b ..< b + 16 * n}"

lemma empty_nodes: "i < n \<Longrightarrow> nodes b (replicate n []) i = {b + 16 * i, b + 16 * i + 8}"
  by (simp add: nodes_def full_def bucket_list_def)

lemma empty_all_nodes: "all_nodes b (replicate n []) \<subseteq> block b n"
  by (auto simp: all_nodes_def empty_nodes block_def)

lemma list_init_links: "list_init l h = Some h' \<Longrightarrow> same_links h h' (- {head l, tail l})"
  by (auto simp: list_init_def same_links_def set_prv_def set_nxt_def Let_def split: if_splits)

lemma init_loop_ok:
  assumes "b \<noteq> NULL" and "\<forall>j < i. dll h (bucket_list b j) []"
  shows "\<exists>h'. init_buckets b i n h = Some h' \<and> (\<forall>j < i + n. dll h' (bucket_list b j) [])
    \<and> same_links h h' (- block b (i + n))"
  using assms(2)
proof (induction n arbitrary: i h)
  case 0
  then show ?case by (simp add: same_links_def)
next
  case (Suc n)
  let ?l = "bucket_list b i"
  obtain h1 where h1: "list_init ?l h = Some h1" "dll h1 ?l []"
    using list_init_dll [of ?l h] assms(1) by (auto simp: bucket_list_def)
  note s1 = list_init_links [OF h1(1)]
  have "dll h1 (bucket_list b j) []" if j: "j < i" for j
  proof (rule dll_frame)
    show "dll h (bucket_list b j) []" using Suc.prems j by simp
    have "16 * j + 16 \<le> 16 * i" using j by simp
    then show "nxt h1 p = nxt h p \<and> prv h1 p = prv h p" if "p \<in> set (full (bucket_list b j) [])" for p
      using s1 that by (auto simp: same_links_def full_def bucket_list_def)
  qed
  then have "\<forall>j < i + 1. dll h1 (bucket_list b j) []" using h1(2) by (metis Suc_eq_plus1 less_SucE)
  from Suc.IH [OF this] obtain h' where h': "init_buckets b (i + 1) n h1 = Some h'"
      "\<forall>j < i + 1 + n. dll h' (bucket_list b j) []" "same_links h1 h' (- block b (i + 1 + n))" by blast
  have "- block b (i + 1 + n) \<subseteq> - {head ?l, tail ?l}" by (auto simp: block_def bucket_list_def)
  then have "same_links h h' (- block b (i + Suc n))"
    using same_links_trans [OF same_links_mono [OF s1] h'(3)] by simp
  then show ?case using h1(1) h'(1,2) by simp
qed

lemma empty_bks: "\<forall>j < n. dll h (bucket_list b j) [] \<Longrightarrow> bks h b (replicate n [])"
proof -
  assume "\<forall>j < n. dll h (bucket_list b j) []"
  moreover have "nodes b (replicate n []) i \<inter> nodes b (replicate n []) j = {}" if "i < n" "j < n" "i \<noteq> j" for i j
  proof -
    have "16 * i + 16 \<le> 16 * j \<or> 16 * j + 16 \<le> 16 * i" using that(3) by (cases i j rule: linorder_cases) auto
    then show ?thesis using that(1,2) by (auto simp: empty_nodes)
  qed
  ultimately show ?thesis by (simp add: bks_def)
qed

lemma init_buckets_ok:
  "b \<noteq> NULL \<Longrightarrow> \<exists>h'. init_buckets b 0 n h = Some h' \<and> bks h' b (replicate n []) \<and> same_links h h' (- block b n)"
  using init_loop_ok [of b 0 h n] empty_bks by fastforce

text \<open>The buckets after elements have been put at the front of theirs, one after the other.\<close>

definition put_elem :: "(ptr \<Rightarrow> nat) \<Rightarrow> ptr list list \<Rightarrow> ptr \<Rightarrow> ptr list list" where
  "put_elem hf bs e = (let i = hf e AND (length bs - 1) in bs[i := e # bs ! i])"

lemma length_put_elem [simp]: "length (put_elem hf bs e) = length bs"
  by (simp add: put_elem_def Let_def)

lemma length_put_elems [simp]: "length (foldl (put_elem hf) bs es) = length bs"
  by (induction es arbitrary: bs) simp_all

lemma index_lt: "length bs = 2 ^ k \<Longrightarrow> x AND (length bs - 1) = x mod 2 ^ k \<and> x AND (length bs - 1) < length bs"
proof -
  assume l: "length bs = 2 ^ k"
  have "x AND mask k = x mod 2 ^ k" by (simp only: take_bit_eq_mod flip: take_bit_eq_mask)
  then show ?thesis using l by (simp add: mask_eq_exp_minus_1)
qed

lemma move_loop_ok:
  assumes ob: "bks h ob obs" and i: "i < length obs" and nb: "bks h (buckets t) nbs"
    and dis: "all_nodes ob obs \<inter> all_nodes (buckets t) nbs = {}"
    and len: "length nbs = bucket_cnt t" "length nbs = 2 ^ k"
  shows "\<exists>h'. move_loop hf t (bucket_list ob i) (pos (bucket_list ob i) (obs ! i)) h = Some h'
    \<and> bks h' ob (obs[i := []]) \<and> bks h' (buckets t) (foldl (put_elem hf) nbs (obs ! i))
    \<and> all_nodes ob (obs[i := []]) \<inter> all_nodes (buckets t) (foldl (put_elem hf) nbs (obs ! i)) = {}
    \<and> same_links h h' (- (all_nodes ob obs \<union> all_nodes (buckets t) nbs))
    \<and> all_nodes ob (obs[i := []]) \<union> all_nodes (buckets t) (foldl (put_elem hf) nbs (obs ! i))
        \<subseteq> all_nodes ob obs \<union> all_nodes (buckets t) nbs"
  using assms
proof (induction "obs ! i" arbitrary: h obs nbs)
  case Nil
  have "obs[i := []] = obs" using Nil.hyps by (metis list_update_id)
  moreover have "list_end (bucket_list ob i) = Some (tail (bucket_list ob i))"
    using list_end_dll [of h "bucket_list ob i" "obs ! i"] Nil.prems by (simp add: bks_def)
  ultimately show ?case using Nil by (subst move_loop.simps) (simp add: same_links_def flip: Nil.hyps)
next
  case (Cons e es)
  let ?l = "bucket_list ob i" and ?j = "hf e AND (length nbs - 1)"
  note e = Cons.hyps(2) [symmetric]
  have d: "dll h ?l (e # es)" using Cons.prems(1,2) e by (metis bks_def)
  have e0: "e \<noteq> NULL" "e \<noteq> tail ?l" using dllD(5,7) [OF d] by auto
  have nx: "list_next h e = Some (pos ?l es)" using list_next_dll [of h ?l "[]" e es] d by (simp add: pos_def)
  obtain h1 where h1: "list_remove e h = Some (pos ?l es, h1)" "bks h1 ob (obs[i := es])"
      "same_links h h1 (- all_nodes ob (obs[i := es]))" "e \<notin> all_nodes ob (obs[i := es])"
      "all_nodes ob (obs[i := es]) \<subseteq> all_nodes ob obs"
    using bks_remove [OF Cons.prems(1,2), of "[]" e es] e by auto
  have eob: "e \<in> all_nodes ob obs" using nodes_elems [OF Cons.prems(2), of ob] e by auto
  have sub: "all_nodes (buckets t) nbs \<subseteq> - all_nodes ob (obs[i := es])" using Cons.prems(4) h1(5) by blast
  have nb1: "bks h1 (buckets t) nbs" by (rule bks_frame [OF Cons.prems(3) same_links_mono [OF h1(3) sub]])
  have en: "e \<notin> all_nodes (buckets t) nbs" using eob Cons.prems(4) by blast
  have j: "?j < length nbs" by (rule index_lt [OF Cons.prems(6), THEN conjunct2])
  have pe: "put_elem hf nbs e = nbs[?j := e # nbs ! ?j]" by (simp add: put_elem_def Let_def)
  obtain h2 where h2: "list_push_front (bucket_list (buckets t) ?j) e h1 = Some h2" "bks h2 (buckets t) (put_elem hf nbs e)"
      "same_links h1 h2 (- insert e (all_nodes (buckets t) nbs))"
    using bks_push [OF nb1 j e0(1) en] unfolding pe by blast
  have na: "all_nodes (buckets t) (put_elem hf nbs e) = insert e (all_nodes (buckets t) nbs)"
    unfolding pe by (rule all_nodes_put [OF j])
  have sub2: "all_nodes ob (obs[i := es]) \<subseteq> - insert e (all_nodes (buckets t) nbs)"
    using h1(4,5) Cons.prems(4) by blast
  have ob2: "bks h2 ob (obs[i := es])" by (rule bks_frame [OF h1(2) same_links_mono [OF h2(3) sub2]])
  have dis2: "all_nodes ob (obs[i := es]) \<inter> all_nodes (buckets t) (put_elem hf nbs e) = {}" using sub2 na by blast
  have fld: "foldl (put_elem hf) nbs (e # es) = foldl (put_elem hf) (put_elem hf nbs e) es" by simp
  have upd: "obs[i := es, i := []] = obs[i := []]" by simp
  have hi: "es = obs[i := es] ! i" using Cons.prems(2) by simp
  obtain h' where h': "move_loop hf t ?l (pos ?l es) h2 = Some h'" "bks h' ob (obs[i := []])"
      "bks h' (buckets t) (foldl (put_elem hf) nbs (e # es))"
      "all_nodes ob (obs[i := []]) \<inter> all_nodes (buckets t) (foldl (put_elem hf) nbs (e # es)) = {}"
      "same_links h2 h' (- (all_nodes ob (obs[i := es]) \<union> all_nodes (buckets t) (put_elem hf nbs e)))"
      "all_nodes ob (obs[i := []]) \<union> all_nodes (buckets t) (foldl (put_elem hf) nbs (e # es))
        \<subseteq> all_nodes ob (obs[i := es]) \<union> all_nodes (buckets t) (put_elem hf nbs e)"
    using Cons.hyps(1) [OF hi ob2 _ h2(2) dis2] Cons.prems(2,5,6)
    unfolding hi [symmetric] upd fld [symmetric] by (auto simp flip: hi)
  have big: "all_nodes ob (obs[i := es]) \<union> all_nodes (buckets t) (put_elem hf nbs e)
      \<subseteq> all_nodes ob obs \<union> all_nodes (buckets t) nbs" unfolding na using h1(5) eob by auto
  let ?C = "- (all_nodes ob obs \<union> all_nodes (buckets t) nbs)"
  have "same_links h h1 ?C" "same_links h1 h2 ?C" "same_links h2 h' ?C"
    using same_links_mono [OF h1(3), of ?C] same_links_mono [OF h2(3), of ?C] same_links_mono [OF h'(5), of ?C]
      h1(5) eob big by blast+
  then have "same_links h h' ?C" using same_links_trans by blast
  moreover have "move_loop hf t ?l e h = Some h'"
    using h1(1) h2(1) h'(1) e0(2) nx list_end_dll [OF d] Cons.prems(5)
    by (subst move_loop.simps) (simp add: find_bucket_def Let_def)
  ultimately show ?case using h'(2-4,6) big unfolding e by (simp only: pos_simps) blast
qed

definition clear_from :: "ptr list list \<Rightarrow> nat \<Rightarrow> ptr list list" where
  "clear_from obs i = replicate i [] @ drop i obs"

lemma clear_from_upd: "i < length obs \<Longrightarrow> (clear_from obs i)[i := []] = clear_from obs (Suc i)"
  by (rule nth_equalityI) (auto simp: clear_from_def nth_append nth_list_update simp del: replicate_Suc)

lemma move_buckets_ok:
  assumes "i + n = length obs"
    and "bks h ob (clear_from obs i)" and "bks h (buckets t) nbs"
    and "all_nodes ob (clear_from obs i) \<inter> all_nodes (buckets t) nbs = {}"
    and len: "length nbs = bucket_cnt t" "length nbs = 2 ^ k"
  shows "\<exists>h'. move_buckets hf t ob i n h = Some h'
    \<and> bks h' (buckets t) (foldl (put_elem hf) nbs (concat (drop i obs)))
    \<and> all_nodes (buckets t) (foldl (put_elem hf) nbs (concat (drop i obs)))
        \<subseteq> all_nodes ob (clear_from obs i) \<union> all_nodes (buckets t) nbs"
  using assms
proof (induction n arbitrary: i h nbs)
  case 0
  then show ?case by simp
next
  case (Suc n)
  let ?c = "clear_from obs i"
  have i: "i < length ?c" "i < length obs" using Suc.prems(1) by (simp_all add: clear_from_def)
  have ci: "?c ! i = obs ! i" using i(2) by (simp add: clear_from_def nth_append)
  have dr: "drop i obs = obs ! i # drop (Suc i) obs" using i(2) by (rule Cons_nth_drop_Suc [symmetric])
  obtain h1 where h1: "move_loop hf t (bucket_list ob i) (pos (bucket_list ob i) (obs ! i)) h = Some h1"
      "bks h1 ob (clear_from obs (Suc i))" "bks h1 (buckets t) (foldl (put_elem hf) nbs (obs ! i))"
      "all_nodes ob (clear_from obs (Suc i)) \<inter> all_nodes (buckets t) (foldl (put_elem hf) nbs (obs ! i)) = {}"
      "all_nodes ob (clear_from obs (Suc i)) \<union> all_nodes (buckets t) (foldl (put_elem hf) nbs (obs ! i))
        \<subseteq> all_nodes ob ?c \<union> all_nodes (buckets t) nbs"
    using move_loop_ok [OF Suc.prems(2) i(1) Suc.prems(3-6), of hf] unfolding ci clear_from_upd [OF i(2)] by blast
  have l: "length (foldl (put_elem hf) nbs (obs ! i)) = bucket_cnt t" "length (foldl (put_elem hf) nbs (obs ! i)) = 2 ^ k"
    "Suc i + n = length obs" using Suc.prems(1,5,6) by simp_all
  obtain h' where h': "move_buckets hf t ob (Suc i) n h1 = Some h'"
      "bks h' (buckets t) (foldl (put_elem hf) nbs (concat (drop i obs)))"
      "all_nodes (buckets t) (foldl (put_elem hf) nbs (concat (drop i obs)))
        \<subseteq> all_nodes ob (clear_from obs (Suc i)) \<union> all_nodes (buckets t) (foldl (put_elem hf) nbs (obs ! i))"
    using Suc.IH [OF l(3) h1(2-4) l(1,2)] unfolding dr by auto
  have "list_begin (bucket_list ob i) h = Some (pos (bucket_list ob i) (obs ! i))"
    using Suc.prems(2) i ci list_begin_dll [of h "bucket_list ob i" "obs ! i"] unfolding bks_def pos_def by metis
  then show ?case using h1(1,5) h' by (intro exI [of _ h']) (auto simp: Let_def)
qed

section \<open>Hash tables\<close>

text \<open>The lists of a table hold the elements that belong there, in a power of two of buckets,
  with no two of them equal.\<close>

definition placed :: "(ptr \<Rightarrow> nat) \<Rightarrow> ptr list list \<Rightarrow> bool" where
  "placed hf bs \<longleftrightarrow> (\<forall>i < length bs. \<forall>e \<in> set (bs ! i). hf e AND (length bs - 1) = i)"

definition table :: "(ptr \<Rightarrow> nat) \<Rightarrow> (ptr \<Rightarrow> ptr \<Rightarrow> bool) \<Rightarrow> hash \<Rightarrow> lheap \<Rightarrow> ptr list list \<Rightarrow> bool" where
  "table hf lt t h bs \<longleftrightarrow> bucket_cnt t = length bs \<and> (\<exists>k. length bs = 2 ^ k) \<and> bks h (buckets t) bs \<and> placed hf bs
     \<and> elem_cnt t = length (concat bs) \<and> length (concat bs) < 2 ^ 28
     \<and> (\<forall>a \<in> set (concat bs). \<forall>b \<in> set (concat bs). eqv lt a b \<longrightarrow> a = b)"

text \<open>What malloc may return: no block, or one of memory that is not in use.\<close>

definition fresh :: "(nat \<Rightarrow> ptr) \<Rightarrow> ptr set \<Rightarrow> bool" where
  "fresh alloc A \<longleftrightarrow> (\<forall>n. alloc n \<noteq> NULL \<longrightarrow> {alloc n ..< alloc n + n} \<inter> A = {})"

lemma set_put_elem: "length bs = 2 ^ k \<Longrightarrow> set (concat (put_elem hf bs e)) = insert e (set (concat bs))"
  and length_concat_put: "length bs = 2 ^ k \<Longrightarrow> length (concat (put_elem hf bs e)) = Suc (length (concat bs))"
  and placed_put: "length bs = 2 ^ k \<Longrightarrow> placed hf bs \<Longrightarrow> placed hf (put_elem hf bs e)"
proof -
  assume l: "length bs = 2 ^ k"
  define i where "i = hf e AND (length bs - 1)"
  have i: "i < length bs" unfolding i_def by (rule index_lt [OF l, THEN conjunct2])
  have pe: "put_elem hf bs e = bs[i := e # bs ! i]" by (simp add: put_elem_def Let_def i_def)
  have sp: "bs = take i bs @ bs ! i # drop (Suc i) bs" using i by (simp add: id_take_nth_drop)
  have up: "bs[i := e # bs ! i] = take i bs @ (e # bs ! i) # drop (Suc i) bs" using i by (simp add: upd_conv_take_nth_drop)
  have c: "concat bs = concat (take i bs) @ bs ! i @ concat (drop (Suc i) bs)" by (subst sp) simp
  show "set (concat (put_elem hf bs e)) = insert e (set (concat bs))"
    "length (concat (put_elem hf bs e)) = Suc (length (concat bs))"
    unfolding pe up c by auto
  show "placed hf bs \<Longrightarrow> placed hf (put_elem hf bs e)"
    using i unfolding pe placed_def by (auto simp: nth_list_update i_def)
qed

lemma put_elems:
  assumes "length bs = 2 ^ k"
  shows "set (concat (foldl (put_elem hf) bs es)) = set (concat bs) \<union> set es"
    and "length (concat (foldl (put_elem hf) bs es)) = length (concat bs) + length es"
    and "placed hf bs \<Longrightarrow> placed hf (foldl (put_elem hf) bs es)"
  using assms
proof (induction es arbitrary: bs)
  case (Cons e es)
  { case 1 then show ?case using Cons.IH(1) [of "put_elem hf bs e"] set_put_elem by simp }
  { case 2 then show ?case using Cons.IH(2) [of "put_elem hf bs e"] length_concat_put [of bs k hf e] by (simp del: length_concat) }
  { case 3 then show ?case using Cons.IH(3) [of "put_elem hf bs e"] placed_put by simp }
qed simp_all

lemma find_bucket_table: "table hf lt t h bs \<Longrightarrow> find_bucket hf t e = bucket_list (buckets t) (hf e AND (length bs - 1))
    \<and> hf e AND (length bs - 1) < length bs"
  using index_lt [of bs] by (auto simp: table_def find_bucket_def)

lemma rehash_ok:
  assumes tab: "table hf lt t h bs" and fr: "fresh alloc (all_nodes (buckets t) bs)"
  shows "\<exists>t' h' bs'. rehash alloc hf t h = Some (t', h') \<and> table hf lt t' h' bs' \<and> set (concat bs') = set (concat bs)"
proof -
  have cnt: "elem_cnt t < 2 ^ 32" and cl: "elem_cnt t = length (concat bs)" "length (concat bs) < 2 ^ 28"
    using tab by (simp_all add: table_def)
  obtain k where k: "new_bucket_cnt (elem_cnt t) = Some (2 ^ k)" "2 ^ k \<le> max 4 (elem_cnt t div 2)"
    using new_bucket_cnt_ok [OF cnt] by blast
  have small: "(2 :: nat) ^ k < 2 ^ 27" using k(2) cl by simp
  let ?b = "alloc (16 * 2 ^ k)"
  have sz: "16 * 2 ^ k mod 2 ^ 32 = (16 * 2 ^ k :: nat)" using small by simp
  show ?thesis
  proof (cases "2 ^ k = bucket_cnt t \<or> ?b = NULL")
    case True
    then have "rehash alloc hf t h = Some (t, h)" using k(1) sz by (auto simp: rehash_def)
    then show ?thesis using tab by blast
  next
    case False
    let ?n = "2 ^ k" and ?t = "t\<lparr>buckets := ?b, bucket_cnt := 2 ^ k\<rparr>"
    have blk: "block ?b ?n \<inter> all_nodes (buckets t) bs = {}" using fr False by (auto simp: fresh_def block_def)
    obtain h1 where h1: "init_buckets ?b 0 ?n h = Some h1" "bks h1 ?b (replicate ?n [])"
        "same_links h h1 (- block ?b ?n)" using init_buckets_ok False by blast
    have ob: "bks h (buckets t) bs" and lb: "length bs = bucket_cnt t" using tab by (simp_all add: table_def)
    have sub: "all_nodes (buckets t) bs \<subseteq> - block ?b ?n" using blk by blast
    have ob1: "bks h1 (buckets t) (clear_from bs 0)"
      using bks_frame [OF ob same_links_mono [OF h1(3) sub]] by (simp add: clear_from_def)
    have dis: "all_nodes (buckets t) (clear_from bs 0) \<inter> all_nodes (buckets ?t) (replicate ?n []) = {}"
      using blk empty_all_nodes [of ?b ?n] by (auto simp: clear_from_def)
    have nb: "bks h1 (buckets ?t) (replicate ?n [])" using h1(2) by simp
    have len: "length (replicate ?n ([] :: ptr list)) = bucket_cnt ?t" "length (replicate ?n ([] :: ptr list)) = 2 ^ k"
      "0 + bucket_cnt t = length bs" using lb by simp_all
    let ?bs = "foldl (put_elem hf) (replicate ?n []) (concat bs)"
    obtain h2 where h2: "move_buckets hf ?t (buckets t) 0 (bucket_cnt t) h1 = Some h2" "bks h2 ?b ?bs"
      using move_buckets_ok [OF len(3) ob1 nb dis len(1,2), of hf] by auto
    have run: "rehash alloc hf t h = Some (?t, h2)" using k(1) sz False h1(1) h2(1) by (simp add: rehash_def Let_def)
    note pe = put_elems [OF len(2), of hf "concat bs"]
    have "placed hf (replicate ?n [])" by (simp add: placed_def)
    then have "placed hf ?bs" by (rule pe(3))
    moreover have "set (concat ?bs) = set (concat bs)" "length (concat ?bs) = length (concat bs)"
      using pe(1,2) by (simp_all del: length_concat)
    ultimately have "table hf lt ?t h2 ?bs" using tab h2(2) unfolding table_def by (auto simp del: length_concat)
    then show ?thesis using run \<open>set (concat ?bs) = set (concat bs)\<close> by blast
  qed
qed

section \<open>The table as a set\<close>

text \<open>What hash.h asks of the hash function and the order: equal elements have equal hash
  values.\<close>

locale element_hash =
  fixes hf :: "ptr \<Rightarrow> nat" and lt :: "ptr \<Rightarrow> ptr \<Rightarrow> bool"
  assumes lt_irrefl: "\<not> lt a a"
    and eqv_trans: "eqv lt a b \<Longrightarrow> eqv lt b c \<Longrightarrow> eqv lt a c"
    and hash_eqv: "eqv lt a b \<Longrightarrow> hf a = hf b"

text \<open>\<open>r\<close> is the element of \<open>S\<close> that is equal to \<open>e\<close>, or the null pointer if there is none.\<close>

definition finds :: "(ptr \<Rightarrow> ptr \<Rightarrow> bool) \<Rightarrow> ptr set \<Rightarrow> ptr \<Rightarrow> ptr \<Rightarrow> bool" where
  "finds lt S e r \<longleftrightarrow> (if r = NULL then \<forall>x \<in> S. \<not> eqv lt x e else r \<in> S \<and> eqv lt r e)"

lemma eqv_sym: "eqv lt a b \<longleftrightarrow> eqv lt b a"
  by (auto simp: eqv_def)

lemma found_cases: "found lt e xs = NULL \<and> (\<forall>x \<in> set xs. \<not> eqv lt x e) \<or> found lt e xs \<in> set xs \<and> eqv lt (found lt e xs) e"
proof (cases "find (\<lambda>x. eqv lt x e) xs")
  case None
  then have "\<forall>x \<in> set xs. \<not> eqv lt x e" by (simp add: find_None_iff)
  then show ?thesis using None by (simp add: found_def)
next
  case (Some x)
  then have "x \<in> set xs" "eqv lt x e" by (auto simp: find_Some_iff)
  then show ?thesis using Some by (simp add: found_def)
qed

context element_hash begin

lemma found_finds:
  assumes tab: "table hf lt t h bs"
  shows "finds lt (set (concat bs)) e (found lt e (bs ! (hf e AND (length bs - 1))))"
proof -
  let ?i = "hf e AND (length bs - 1)"
  have i: "?i < length bs" using find_bucket_table [OF tab] by blast
  have dl: "dll h (bucket_list (buckets t) ?i) (bs ! ?i)" using tab i by (simp add: table_def bks_def)
  have "x \<in> set (bs ! ?i)" if x: "x \<in> set (concat bs)" "eqv lt x e" for x
  proof -
    obtain j where j: "j < length bs" "x \<in> set (bs ! j)" using x(1) unfolding set_concat by (metis UN_E in_set_conv_nth)
    then have "hf x AND (length bs - 1) = j" using tab by (auto simp: table_def placed_def)
    then show ?thesis using j(2) hash_eqv [OF x(2)] by simp
  qed
  moreover have "set (bs ! ?i) \<subseteq> set (concat bs)" using nth_mem [OF i] by auto
  moreover have "NULL \<notin> set (bs ! ?i)" using dllD(5) [OF dl] .
  ultimately show ?thesis using found_cases [of lt e "bs ! ?i"] unfolding finds_def by (auto simp del: set_concat)
qed

lemma hash_find_ok: "table hf lt t h bs \<Longrightarrow> \<exists>r. hash_find hf lt e t h = Some r \<and> finds lt (set (concat bs)) e r"
  using found_finds [of t h bs e] find_bucket_table [of hf lt t h bs e]
    find_elem_dll [of h "bucket_list (buckets t) (hf e AND (length bs - 1))"]
  by (auto simp: hash_find_def table_def bks_def)

lemma insert_elem_ok:
  assumes tab: "table hf lt t h bs" and e: "e \<noteq> NULL" "e \<notin> all_nodes (buckets t) bs"
    and new: "\<forall>x \<in> set (concat bs). \<not> eqv lt x e" and room: "length (concat bs) + 1 < 2 ^ 28"
  shows "\<exists>t' h' bs'. insert_elem (find_bucket hf t e) e t h = Some (t', h') \<and> table hf lt t' h' bs'
    \<and> set (concat bs') = insert e (set (concat bs)) \<and> all_nodes (buckets t') bs' \<subseteq> insert e (all_nodes (buckets t) bs)"
proof -
  let ?i = "hf e AND (length bs - 1)"
  have ok: "bks h (buckets t) bs" and cl: "elem_cnt t = length (concat bs)" using tab by (simp_all add: table_def)
  obtain k where k: "length bs = 2 ^ k" using tab by (auto simp: table_def)
  have i: "?i < length bs" "find_bucket hf t e = bucket_list (buckets t) ?i" using find_bucket_table [OF tab] by auto
  have pe: "put_elem hf bs e = bs[?i := e # bs ! ?i]" by (simp add: put_elem_def Let_def)
  obtain h' where h': "list_push_front (bucket_list (buckets t) ?i) e h = Some h'" "bks h' (buckets t) (put_elem hf bs e)"
    using bks_push [OF ok i(1) e] unfolding pe by blast
  let ?t = "t\<lparr>elem_cnt := length (concat bs) + 1\<rparr>"
  have ins: "insert_elem (find_bucket hf t e) e t h = Some (?t, h')"
    using h'(1) i(2) room cl by (simp add: insert_elem_def Let_def del: length_concat)
  note s = set_put_elem [OF k, of hf e] length_concat_put [OF k, of hf e]
  have "eqv lt a b \<longrightarrow> a = b" if "a \<in> insert e (set (concat bs))" "b \<in> insert e (set (concat bs))" for a b
    using that tab new eqv_sym [of lt] unfolding table_def by blast
  then have "table hf lt ?t h' (put_elem hf bs e)"
    using tab h'(2) placed_put [OF k] s room unfolding table_def by (auto simp del: length_concat set_concat)
  moreover have "all_nodes (buckets t) (put_elem hf bs e) \<subseteq> insert e (all_nodes (buckets t) bs)"
    unfolding pe all_nodes_put [OF i(1)] by simp
  ultimately show ?thesis using ins s(1) by (intro exI [of _ ?t] exI [of _ h'] exI [of _ "put_elem hf bs e"]) simp
qed

lemma remove_elem_ok:
  assumes tab: "table hf lt t h bs" and e: "e \<in> set (concat bs)"
  shows "\<exists>t' h' bs'. remove_elem e t h = Some (t', h') \<and> table hf lt t' h' bs' \<and> bucket_cnt t' = bucket_cnt t
    \<and> buckets t' = buckets t \<and> set (concat bs') = set (concat bs) - {e}
    \<and> length (concat bs') + 1 = length (concat bs)
    \<and> all_nodes (buckets t) bs' \<subseteq> all_nodes (buckets t) bs - {e}"
proof -
  have ok: "bks h (buckets t) bs" and cl: "elem_cnt t = length (concat bs)" "length (concat bs) < 2 ^ 28"
    using tab by (simp_all add: table_def)
  obtain i where i: "i < length bs" "e \<in> set (bs ! i)" using e unfolding set_concat by (metis UN_E in_set_conv_nth)
  then obtain xs ys where x: "bs ! i = xs @ e # ys" by (metis split_list)
  let ?bs = "bs[i := xs @ ys]"
  obtain h' where h': "list_remove e h = Some (pos (bucket_list (buckets t) i) ys, h')" "bks h' (buckets t) ?bs"
      "e \<notin> all_nodes (buckets t) ?bs" "all_nodes (buckets t) ?bs \<subseteq> all_nodes (buckets t) bs"
    using bks_remove [OF ok i(1) x] by blast
  have sp: "bs = take i bs @ (xs @ e # ys) # drop (Suc i) bs" using i(1) x by (metis id_take_nth_drop)
  have up: "?bs = take i bs @ (xs @ ys) # drop (Suc i) bs" using i(1) by (simp add: upd_conv_take_nth_drop)
  have c: "concat bs = concat (take i bs) @ xs @ e # ys @ concat (drop (Suc i) bs)" by (subst sp) simp
  have c': "concat ?bs = concat (take i bs) @ xs @ ys @ concat (drop (Suc i) bs)" unfolding up by simp
  have len: "length (concat ?bs) + 1 = length (concat bs)" unfolding c c' by simp
  have ins: "set (concat bs) = insert e (set (concat ?bs))" unfolding c c' by auto
  have "e \<notin> set (concat ?bs)" using h'(3) elems_nodes [of ?bs "buckets t"] by blast
  then have st: "set (concat ?bs) = set (concat bs) - {e}" using ins by auto
  let ?t = "t\<lparr>elem_cnt := length (concat ?bs)\<rparr>"
  have "int (elem_cnt t) - 1 = int (length (concat ?bs))" using cl(1) len by simp
  moreover have "int (length (concat ?bs)) mod 2 ^ 32 = int (length (concat ?bs))"
    using cl(2) len by (intro mod_pos_pos_trivial) simp_all
  ultimately have rem: "remove_elem e t h = Some (?t, h')" using h'(1) by (simp add: remove_elem_def Let_def)
  have "placed hf ?bs" using tab i(1) x by (auto simp: table_def placed_def nth_list_update)
  moreover have "\<forall>a \<in> set (concat ?bs). \<forall>b \<in> set (concat ?bs). eqv lt a b \<longrightarrow> a = b" using tab st unfolding table_def by blast
  ultimately have "table hf lt ?t h' ?bs" using tab h'(2) len cl(2) unfolding table_def by (auto simp del: length_concat)
  then show ?thesis using rem st len h'(3,4) by (intro exI [of _ ?t] exI [of _ h'] exI [of _ ?bs]) auto
qed

lemma fresh_mono: "fresh alloc B \<Longrightarrow> A \<subseteq> B \<Longrightarrow> fresh alloc A"
  unfolding fresh_def by blast

lemma bucket_find:
  assumes "table hf lt t h bs"
  obtains r where "find_elem lt (find_bucket hf t e) e h = Some r" "finds lt (set (concat bs)) e r"
  using hash_find_ok [OF assms, of e] by (auto simp: hash_find_def)

lemma hash_insert_ok:
  assumes tab: "table hf lt t h bs" and e: "e \<noteq> NULL" "e \<notin> all_nodes (buckets t) bs"
    and fr: "fresh alloc (insert e (all_nodes (buckets t) bs))" and room: "length (concat bs) + 1 < 2 ^ 28"
  shows "\<exists>old t' h' bs'. hash_insert alloc hf lt e t h = Some (old, t', h') \<and> table hf lt t' h' bs'
    \<and> finds lt (set (concat bs)) e old
    \<and> set (concat bs') = (if old = NULL then insert e (set (concat bs)) else set (concat bs))"
proof -
  obtain old where f: "find_elem lt (find_bucket hf t e) e h = Some old" "finds lt (set (concat bs)) e old"
    using bucket_find [OF tab] .
  show ?thesis
  proof (cases "old = NULL")
    case True
    then have "\<forall>x \<in> set (concat bs). \<not> eqv lt x e" using f(2) by (simp add: finds_def)
    then obtain t1 h1 bs1 where 1: "insert_elem (find_bucket hf t e) e t h = Some (t1, h1)" "table hf lt t1 h1 bs1"
        "set (concat bs1) = insert e (set (concat bs))" "all_nodes (buckets t1) bs1 \<subseteq> insert e (all_nodes (buckets t) bs)"
      using insert_elem_ok [OF tab e _ room] by blast
    obtain t' h' bs' where "rehash alloc hf t1 h1 = Some (t', h')" "table hf lt t' h' bs'" "set (concat bs') = set (concat bs1)"
      using rehash_ok [OF 1(2) fresh_mono [OF fr 1(4)]] by blast
    then show ?thesis using f True 1(1,3) by (auto simp: hash_insert_def)
  next
    case False
    obtain t' h' bs' where "rehash alloc hf t h = Some (t', h')" "table hf lt t' h' bs'" "set (concat bs') = set (concat bs)"
      using rehash_ok [OF tab fresh_mono [OF fr]] by blast
    then show ?thesis using f False by (auto simp: hash_insert_def)
  qed
qed

lemma hash_delete_ok:
  assumes tab: "table hf lt t h bs" and fr: "fresh alloc (all_nodes (buckets t) bs)"
  shows "\<exists>r t' h' bs'. hash_delete alloc hf lt e t h = Some (r, t', h') \<and> table hf lt t' h' bs'
    \<and> finds lt (set (concat bs)) e r \<and> set (concat bs') = set (concat bs) - {r}"
proof -
  obtain r where f: "find_elem lt (find_bucket hf t e) e h = Some r" "finds lt (set (concat bs)) e r"
    using bucket_find [OF tab] .
  show ?thesis
  proof (cases "r = NULL")
    case True
    have "NULL \<notin> set (concat bs)"
      using tab dllD(5) unfolding set_concat table_def bks_def by (metis UN_E in_set_conv_nth)
    then show ?thesis using True f tab by (auto simp: hash_delete_def)
  next
    case False
    then have "r \<in> set (concat bs)" using f(2) by (simp add: finds_def)
    then obtain t1 h1 bs1 where 1: "remove_elem r t h = Some (t1, h1)" "table hf lt t1 h1 bs1" "buckets t1 = buckets t"
        "set (concat bs1) = set (concat bs) - {r}" "all_nodes (buckets t) bs1 \<subseteq> all_nodes (buckets t) bs - {r}"
      using remove_elem_ok [OF tab] by blast
    have "all_nodes (buckets t1) bs1 \<subseteq> all_nodes (buckets t) bs" using 1(3,5) by auto
    from rehash_ok [OF 1(2) fresh_mono [OF fr this]]
    obtain t' h' bs' where "rehash alloc hf t1 h1 = Some (t', h')" "table hf lt t' h' bs'" "set (concat bs') = set (concat bs1)"
      by blast
    then show ?thesis using f False 1(1,4) by (auto simp: hash_delete_def)
  qed
qed

lemma hash_replace_ok:
  assumes tab: "table hf lt t h bs" and e: "e \<noteq> NULL" "e \<notin> all_nodes (buckets t) bs"
    and fr: "fresh alloc (insert e (all_nodes (buckets t) bs))" and room: "length (concat bs) + 1 < 2 ^ 28"
  shows "\<exists>old t' h' bs'. hash_replace alloc hf lt e t h = Some (old, t', h') \<and> table hf lt t' h' bs'
    \<and> finds lt (set (concat bs)) e old \<and> set (concat bs') = insert e (set (concat bs) - {old})"
proof -
  obtain old where f: "find_elem lt (find_bucket hf t e) e h = Some old" "finds lt (set (concat bs)) e old"
    using bucket_find [OF tab] .
  have null: "NULL \<notin> set (concat bs)"
    using tab dllD(5) unfolding set_concat table_def bks_def by (metis UN_E in_set_conv_nth)
  obtain t0 h0 bs0 where 0: "(if old \<noteq> NULL then remove_elem old t h else Some (t, h)) = Some (t0, h0)" "table hf lt t0 h0 bs0"
      "bucket_cnt t0 = bucket_cnt t" "buckets t0 = buckets t" "set (concat bs0) = set (concat bs) - {old}"
      "length (concat bs0) \<le> length (concat bs)" "all_nodes (buckets t) bs0 \<subseteq> all_nodes (buckets t) bs"
  proof (cases "old = NULL")
    case True
    then show ?thesis using that [of t h bs] tab null by auto
  next
    case False
    then have "old \<in> set (concat bs)" using f(2) by (simp add: finds_def)
    then obtain t1 h1 bs1 where 1: "remove_elem old t h = Some (t1, h1)" "table hf lt t1 h1 bs1"
        "bucket_cnt t1 = bucket_cnt t" "buckets t1 = buckets t" "set (concat bs1) = set (concat bs) - {old}"
        "length (concat bs1) + 1 = length (concat bs)" "all_nodes (buckets t) bs1 \<subseteq> all_nodes (buckets t) bs - {old}"
      using remove_elem_ok [OF tab] by blast
    have "length (concat bs1) \<le> length (concat bs)" "all_nodes (buckets t) bs1 \<subseteq> all_nodes (buckets t) bs"
      using 1(6,7) by auto
    with 1(1-5) False show ?thesis by (intro that [of t1 h1 bs1]) simp_all
  qed
  have fb: "find_bucket hf t0 e = find_bucket hf t e" using 0(3,4) by (simp add: find_bucket_def)
  have "\<not> eqv lt x e" if x: "x \<in> set (concat bs0)" for x
  proof
    assume xe: "eqv lt x e"
    have xs: "x \<in> set (concat bs)" "x \<noteq> old" using x 0(5) by auto
    then have "old \<noteq> NULL" using f(2) xe by (auto simp: finds_def simp del: set_concat split: if_splits)
    then have "old \<in> set (concat bs)" "eqv lt old e" using f(2) by (simp_all add: finds_def)
    then have "eqv lt x old" using eqv_trans [OF xe] eqv_sym by blast
    then show False using tab xs \<open>old \<in> set (concat bs)\<close> unfolding table_def by blast
  qed
  moreover have "e \<notin> all_nodes (buckets t0) bs0" "length (concat bs0) + 1 < 2 ^ 28" using e(2) 0(4,6,7) room by auto
  ultimately obtain t1 h1 bs1 where 1: "insert_elem (find_bucket hf t e) e t0 h0 = Some (t1, h1)" "table hf lt t1 h1 bs1"
      "set (concat bs1) = insert e (set (concat bs0))" "all_nodes (buckets t1) bs1 \<subseteq> insert e (all_nodes (buckets t0) bs0)"
    using insert_elem_ok [OF 0(2) e(1)] unfolding fb by blast
  have "all_nodes (buckets t1) bs1 \<subseteq> insert e (all_nodes (buckets t) bs)" using 1(4) 0(4,7) by auto
  from rehash_ok [OF 1(2) fresh_mono [OF fr this]]
  obtain t' h' bs' where "rehash alloc hf t1 h1 = Some (t', h')" "table hf lt t' h' bs'" "set (concat bs') = set (concat bs1)"
    by blast
  then show ?thesis using f 0(1,5) 1(1,3) by (auto simp: hash_replace_def simp del: set_concat)
qed

end

section \<open>New tables and traversal\<close>

lemma clear_none: "clear_loop None t i n h d = map_option (\<lambda>h. (h, d)) (init_buckets (buckets t) i n h)"
  by (induction n arbitrary: i h) (auto simp: Let_def split: Option.bind_splits)

lemma hash_init_ok:
  assumes "alloc 64 \<noteq> NULL"
  shows "\<exists>t h'. hash_init alloc h = Some (True, t, h') \<and> table hf lt t h' (replicate 4 []) \<and> buckets t = alloc 64"
proof -
  let ?t = "\<lparr>elem_cnt = 0, bucket_cnt = 4, buckets = alloc 64\<rparr>"
  obtain h' where h': "init_buckets (alloc 64) 0 4 h = Some h'" "bks h' (alloc 64) (replicate 4 [])"
    using init_buckets_ok [of "alloc 64" 4 h] assms by blast
  have "hash_init alloc h = Some (True, ?t, h')"
    using assms h'(1) by (simp add: hash_init_def hash_clear_def clear_none)
  moreover have "(4 :: nat) = 2 ^ 2" by simp
  then have "\<exists>k. (4 :: nat) = 2 ^ k" by blast
  then have "table hf lt ?t h' (replicate 4 [])" using h'(2) by (simp add: table_def placed_def)
  ultimately show ?thesis by (intro exI [of _ ?t] exI [of _ h']) simp
qed

lemma apply_loop_dll:
  assumes "dll h l (xs @ ys)"
  shows "apply_loop action l (pos l ys) h d = Some (fold action ys d)"
  using assms
proof (induction ys arbitrary: xs d)
  case Nil
  then show ?case by (simp add: apply_loop.simps list_end_dll [OF Nil])
next
  case (Cons y ys)
  have "y \<noteq> tail l" using dllD(7) [OF Cons.prems] by auto
  moreover have "list_next h y = Some (pos l ys)" using list_next_dll [OF Cons.prems] by (simp add: pos_def)
  ultimately show ?case using Cons.IH [of "xs @ [y]"] Cons.prems
    by (subst apply_loop.simps) (simp add: list_end_dll [OF Cons.prems])
qed

lemma apply_buckets_ok:
  assumes "bks h (buckets t) bs" and "i + n = length bs"
  shows "apply_buckets action t i n h d = Some (fold action (concat (drop i bs)) d)"
  using assms(2)
proof (induction n arbitrary: i d)
  case (Suc n)
  let ?l = "bucket_list (buckets t) i"
  have i: "i < length bs" "Suc i + n = length bs" using Suc.prems by simp_all
  have dl: "dll h ?l ([] @ bs ! i)" using assms(1) i(1) by (simp add: bks_def)
  have "list_begin ?l h = Some (pos ?l (bs ! i))" using list_begin_dll dl by (simp add: pos_def)
  moreover have "drop i bs = bs ! i # drop (Suc i) bs" using i(1) by (rule Cons_nth_drop_Suc [symmetric])
  ultimately show ?case using apply_loop_dll [OF dl, of action d] Suc.IH [OF i(2)] by (simp add: Let_def)
qed simp

lemma hash_apply_ok: "table hf lt t h bs \<Longrightarrow> hash_apply action t h d = Some (fold action (concat bs) d)"
  using apply_buckets_ok [of h t bs 0 "bucket_cnt t"] by (simp add: hash_apply_def table_def)

section \<open>Tables of ints\<close>

text \<open>The hash function and the order of the list and hash exercise.\<close>

lemma eqv_data: "eqv (hash_less data) a b \<longleftrightarrow> data a = data b"
  by (auto simp: eqv_def hash_less_def)

interpretation int_hash: element_hash "hash_func data" "hash_less data" for data
  by unfold_locales (simp_all add: eqv_data hash_less_def hash_func_def)

text \<open>The map from ints to elements that the buckets represent.\<close>

definition elems :: "(ptr \<Rightarrow> int) \<Rightarrow> ptr list list \<Rightarrow> int \<Rightarrow> ptr option" where
  "elems data bs = map_of (map (\<lambda>x. (data x, x)) (concat bs))"

definition elem_ptr :: "ptr option \<Rightarrow> ptr" where
  "elem_ptr r = (case r of None \<Rightarrow> NULL | Some x \<Rightarrow> x)"

lemma elems_iff:
  assumes "table (hash_func data) (hash_less data) t h bs"
  shows "elems data bs d = Some x \<longleftrightarrow> x \<in> set (concat bs) \<and> data x = d"
proof
  assume "elems data bs d = Some x"
  then show "x \<in> set (concat bs) \<and> data x = d" unfolding elems_def by (auto dest!: map_of_SomeD simp del: set_concat)
next
  assume x: "x \<in> set (concat bs) \<and> data x = d"
  then have "(d, x) \<in> set (map (\<lambda>x. (data x, x)) (concat bs))" by (auto simp del: set_concat)
  then obtain y where y: "elems data bs d = Some y" unfolding elems_def by (metis weak_map_of_SomeI)
  then have "y \<in> set (concat bs)" "data y = d" unfolding elems_def by (auto dest!: map_of_SomeD simp del: set_concat)
  then have "y = x" using assms x unfolding table_def eqv_data by blast
  then show "elems data bs d = Some x" using y by simp
qed

lemma option_eqI: "(\<And>x. a = Some x \<longleftrightarrow> b = Some x) \<Longrightarrow> a = b"
  by (cases a; cases b) auto

lemma finds_elems:
  assumes tab: "table (hash_func data) (hash_less data) t h bs" and f: "finds (hash_less data) (set (concat bs)) e r"
  shows "r = elem_ptr (elems data bs (data e))"
proof (cases "r = NULL")
  case True
  then have "\<forall>x. elems data bs (data e) \<noteq> Some x" using f elems_iff [OF tab] by (auto simp: finds_def eqv_data simp del: set_concat)
  then show ?thesis using True by (simp add: elem_ptr_def)
next
  case False
  then have "elems data bs (data e) = Some r" using f elems_iff [OF tab] by (simp add: finds_def eqv_data del: set_concat)
  then show ?thesis by (simp add: elem_ptr_def)
qed

lemma table_not_null: "table hf lt t h bs \<Longrightarrow> NULL \<notin> set (concat bs)"
  using dllD(5) unfolding set_concat table_def bks_def by (metis UN_E in_set_conv_nth)

text \<open>C37: the hash table is a map from keys to elements.  hash_find returns the element with the
  key of the one given, hash_insert adds an element unless its key is there and returns the one
  that is, hash_replace puts it in the place of that one, and hash_delete removes and returns
  it, for every block of memory that malloc may hand out for new buckets, or none.\<close>

theorem hash_refines_map:
  fixes data :: "ptr \<Rightarrow> int" and bs :: "ptr list list"
  defines "M \<equiv> elems data bs"
  assumes "table (hash_func data) (hash_less data) t h bs" and "e \<noteq> NULL" "e \<notin> all_nodes (buckets t) bs"
    and "fresh alloc (insert e (all_nodes (buckets t) bs))" and "length (concat bs) + 1 < 2 ^ 28"
  shows "hash_find (hash_func data) (hash_less data) x t h = Some (elem_ptr (M (data x)))
    \<and> (\<exists>t' h' bs'. hash_insert alloc (hash_func data) (hash_less data) e t h = Some (elem_ptr (M (data e)), t', h')
         \<and> table (hash_func data) (hash_less data) t' h' bs'
         \<and> elems data bs' = (if M (data e) = None then M(data e \<mapsto> e) else M))
    \<and> (\<exists>t' h' bs'. hash_replace alloc (hash_func data) (hash_less data) e t h = Some (elem_ptr (M (data e)), t', h')
         \<and> table (hash_func data) (hash_less data) t' h' bs' \<and> elems data bs' = M(data e \<mapsto> e))
    \<and> (\<exists>t' h' bs'. hash_delete alloc (hash_func data) (hash_less data) x t h = Some (elem_ptr (M (data x)), t', h')
         \<and> table (hash_func data) (hash_less data) t' h' bs' \<and> elems data bs' = M(data x := None))"
proof -
  note tab = assms(2) and it = elems_iff [OF assms(2), folded M_def] and nn = table_not_null [OF assms(2)]
  have dn: "M d = None \<longleftrightarrow> (\<forall>y. M d \<noteq> Some y)" for d by auto
  have ptr0: "elem_ptr (M d) = NULL \<longleftrightarrow> M d = None" "M d = Some y \<Longrightarrow> elem_ptr (M d) = y" for d y
    using it [of d "NULL"] nn by (cases "M d"; simp add: elem_ptr_def del: set_concat; blast)+
  have 1: "hash_find (hash_func data) (hash_less data) x t h = Some (elem_ptr (M (data x)))"
    using int_hash.hash_find_ok [OF tab, of x] finds_elems [OF tab] by (auto simp: M_def)
  obtain t1 h1 bs1 where i: "hash_insert alloc (hash_func data) (hash_less data) e t h = Some (elem_ptr (M (data e)), t1, h1)"
      "table (hash_func data) (hash_less data) t1 h1 bs1"
      "set (concat bs1) = (if elem_ptr (M (data e)) = NULL then insert e (set (concat bs)) else set (concat bs))"
    using int_hash.hash_insert_ok [OF tab assms(3-6)] finds_elems [OF tab] unfolding M_def by blast
  have 2: "elems data bs1 = (if M (data e) = None then M(data e \<mapsto> e) else M)"
    using i(3) it by (intro ext option_eqI) (auto simp: elems_iff [OF i(2)] ptr0 dn simp del: set_concat)
  obtain t2 h2 bs2 where r: "hash_replace alloc (hash_func data) (hash_less data) e t h = Some (elem_ptr (M (data e)), t2, h2)"
      "table (hash_func data) (hash_less data) t2 h2 bs2" "set (concat bs2) = insert e (set (concat bs) - {elem_ptr (M (data e))})"
    using int_hash.hash_replace_ok [OF tab assms(3-6)] finds_elems [OF tab] unfolding M_def by blast
  have old: "y \<noteq> elem_ptr (M (data z)) \<longleftrightarrow> data y \<noteq> data z" if "y \<in> set (concat bs)" for y z
  proof (cases "M (data z)")
    case None
    then have "y \<noteq> NULL" "data y \<noteq> data z" using that nn it [of "data z" y] by (metis, simp del: set_concat)
    then show ?thesis using None by (simp add: elem_ptr_def)
  next
    case (Some w)
    then show ?thesis using that it [of "data z" w] it [of "data z" y] by (auto simp: elem_ptr_def simp del: set_concat)
  qed
  have del: "set (concat bs) - {elem_ptr (M (data z))} = {y \<in> set (concat bs). data y \<noteq> data z}" for z
    using old by (intro set_eqI) (metis (mono_tags, lifting) Diff_iff mem_Collect_eq singletonD singletonI)
  have 3: "elems data bs2 = M(data e \<mapsto> e)"
    using it by (intro ext option_eqI) (auto simp: elems_iff [OF r(2)] r(3) del simp del: set_concat)
  obtain t3 h3 bs3 where d: "hash_delete alloc (hash_func data) (hash_less data) x t h = Some (elem_ptr (M (data x)), t3, h3)"
      "table (hash_func data) (hash_less data) t3 h3 bs3" "set (concat bs3) = set (concat bs) - {elem_ptr (M (data x))}"
    using int_hash.hash_delete_ok [OF tab, of alloc x] finds_elems [OF tab] assms(5) unfolding M_def fresh_def by blast
  have 4: "elems data bs3 = M(data x := None)"
    using it by (intro ext option_eqI) (auto simp: elems_iff [OF d(2)] d(3) del simp del: set_concat)
  show ?thesis by (intro conjI exI) (fact 1 i(1,2) 2 r(1,2) 3 d(1,2) 4)+
qed

theorem hash_refines_map_witness:
  "\<exists>t h t' h'. hash_init (\<lambda>_. 1000) \<lparr>prv = (\<lambda>_. 0), nxt = (\<lambda>_. 0)\<rparr> = Some (True, t, h)
    \<and> hash_insert (\<lambda>_. NULL) (hash_func int) (hash_less int) 2000 t h = Some (NULL, t', h')
    \<and> hash_find (hash_func int) (hash_less int) 2000 t h = Some NULL"
proof -
  let ?h = "\<lparr>prv = (\<lambda>_. 0), nxt = (\<lambda>_. 0)\<rparr>"
  obtain t h where i: "hash_init (\<lambda>_. 1000) ?h = Some (True, t, h)"
      "table (hash_func int) (hash_less int) t h (replicate 4 [])" "buckets t = 1000"
    using hash_init_ok [of "\<lambda>_. 1000" ?h "hash_func int" "hash_less int"] by auto
  have n: "2000 \<notin> all_nodes (buckets t) (replicate 4 [])"
    using empty_all_nodes [of 1000 4] i(3) by (auto simp: block_def)
  have f: "fresh (\<lambda>_. NULL) A" for A by (simp add: fresh_def)
  have e: "elems int (replicate 4 []) = Map.empty" by (simp add: elems_def)
  show ?thesis
    using i(1) hash_refines_map [OF i(2) _ n f, of 2000] unfolding e by (auto simp: elem_ptr_def)
qed

text \<open>hash_apply changes elements in place: after hash_square an element is in the bucket of its
  old key, which need not be the one of its new key.\<close>

lemma hash_square_misplaces:
  assumes "data 8 = 3"
  shows "hash_func data 8 AND 3 \<noteq> hash_func (hash_square 8 data) 8 AND 3"
proof -
  have "hash_int 3 AND 3 \<noteq> hash_int (wrap32 (3 * 3)) AND 3"
    by (simp add: hash_int_def hash_bytes_def int_bytes_def FNV_32_BASIS_def FNV_32_PRIME_def wrap32_def)
  then have "unat (hash_int 3 AND 3) \<noteq> unat (hash_int (wrap32 (3 * 3)) AND 3)" unfolding word_unat_eq_iff .
  then show ?thesis using assms by (simp add: hash_func_def hash_square_def unsigned_and_eq)
qed

end
