(* ===== verification/LockExcl.thy ===== *)
theory LockExcl
  imports KernelProps
begin

text \<open>
  Mutual exclusion: what threads/synch.c's locks promise, in every state that the whole
  kernel reaches.  Acquiring and releasing a lock takes several steps, between which other
  threads run, so the frames that a thread still has to run count: a thread that has taken
  the semaphore's value and not yet recorded itself as the holder owns the lock, and so does
  one that has cleared the holder and not yet given the value back.  For every lock, the
  semaphore's value, the recorded holder and these frames add up to one.
\<close>

section \<open>The balance of a kernel stack\<close>

text \<open>What a frame says of a lock: a thread that is to record itself as the holder has taken
  the value, unless it is still in the loop of sema_down.\<close>

fun lock_weight :: "nat \<Rightarrow> frame \<Rightarrow> int" where
  "lock_weight l (LockAcquired m) = (if m = l then 1 else 0)"
| "lock_weight l (LockReleaseUp m) = (if m = l then 1 else 0)"
| "lock_weight l (SemaDownLoop s) = (if s = LockSema l then - 1 else 0)"
| "lock_weight l f = 0"

fun lock_balance :: "nat \<Rightarrow> frame list \<Rightarrow> int" where
  "lock_balance l [] = 0"
| "lock_balance l (f # fs) = lock_weight l f + lock_balance l fs"

lemma lock_balance_append [simp]: "lock_balance l (fs @ gs) = lock_balance l fs + lock_balance l gs"
  by (induction fs) simp_all

text \<open>Below these frames there is only the call of thread_exit.\<close>

fun bottom_frame :: "frame \<Rightarrow> bool" where
  "bottom_frame ThreadExit = True"
| "bottom_frame ExitWait = True"
| "bottom_frame ExitTail = True"
| "bottom_frame (Loaded ok) = True"
| "bottom_frame (KernelThread fn) = True"
| "bottom_frame f = False"

definition lock_sema :: "sema_id \<Rightarrow> bool" where
  "lock_sema s \<longleftrightarrow> (\<exists>l. s = LockSema l)"

lemma lock_sema_simps [simp]:
  "lock_sema (LockSema l)" "\<not> lock_sema (Sema n)" "\<not> lock_sema (FdWait t)" "\<not> lock_sema (CondWaiter t)"
  by (simp_all add: lock_sema_def)

fun sane :: "frame list \<Rightarrow> bool" where
  "sane [] = True"
| "sane (f # fs) = (sane fs \<and> (\<forall>l. 0 \<le> lock_weight l f + lock_balance l fs) \<and>
     (bottom_frame f \<longrightarrow> set fs \<subseteq> {ThreadExit}) \<and>
     (case f of StartRest s \<Rightarrow> \<not> lock_sema s | _ \<Rightarrow> True))"

lemma sane_balance: "sane fs \<Longrightarrow> 0 \<le> lock_balance l fs"
  by (cases fs) simp_all

lemma exit_balance: "set fs \<subseteq> {ThreadExit} \<Longrightarrow> lock_balance l fs = 0"
  by (induction fs) auto

lemma creates_append [simp]: "creates (fs @ gs) = creates fs @ creates gs"
  by (induction fs) (auto split: frame.splits)

section \<open>The invariant\<close>

text \<open>On the kernel stacks, the values of the lock semaphores and the holders.\<close>

definition held :: "tptr \<Rightarrow> int" where
  "held t = (if t = 0 then 0 else 1)"

definition lock_token :: "(tptr \<Rightarrow> frame list) \<Rightarrow> (nat \<Rightarrow> nat) \<Rightarrow> (nat \<Rightarrow> tptr) \<Rightarrow> nat \<Rightarrow> bool" where
  "lock_token S V H l \<longleftrightarrow> (\<exists>t. (\<forall>u. u \<noteq> t \<longrightarrow> lock_balance l (S u) = 0) \<and>
     int (V l) + held (H l) + lock_balance l (S t) = 1)"

definition lock_ok :: "(tptr \<Rightarrow> frame list) \<Rightarrow> (nat \<Rightarrow> nat) \<Rightarrow> (nat \<Rightarrow> tptr) \<Rightarrow> bool" where
  "lock_ok S V H \<longleftrightarrow> (\<forall>t. sane (S t)) \<and> (\<forall>l. lock_token S V H l) \<and>
     (\<forall>u. \<forall>t \<in> set (creates (S u)). S t = [])"

lemma held_ge [simp]: "0 \<le> held t" "held 0 = 0" "t \<noteq> 0 \<Longrightarrow> held t = 1"
  by (simp_all add: held_def)

lemma lock_okD:
  assumes "lock_ok S V H"
  shows "sane (S t)" "lock_token S V H l" "0 \<le> lock_balance l (S t)" "t \<in> set (creates (S u)) \<Longrightarrow> S t = []"
  using assms by (auto simp: lock_ok_def intro: sane_balance)

text \<open>One thread's stack counts at a time.\<close>

lemma lock_token_at:
  assumes "lock_ok S V H"
  shows "int (V l) + held (H l) + lock_balance l (S r) \<le> 1"
    "int (V l) + held (H l) + lock_balance l (S r) = 1 \<Longrightarrow> u \<noteq> r \<Longrightarrow> lock_balance l (S u) = 0"
    "r \<noteq> u \<Longrightarrow> int (V l) + held (H l) + lock_balance l (S r) + lock_balance l (S u) \<le> 1"
proof -
  obtain t where t: "\<And>u. u \<noteq> t \<Longrightarrow> lock_balance l (S u) = 0" "int (V l) + held (H l) + lock_balance l (S t) = 1"
    using lock_okD(2) [OF assms, of l] by (auto simp: lock_token_def)
  have p: "0 \<le> lock_balance l (S u)" for u by (rule lock_okD(3) [OF assms])
  show "int (V l) + held (H l) + lock_balance l (S r) \<le> 1"
    using t(1) [of r] t(2) p [of t] by (cases "r = t") auto
  show "lock_balance l (S u) = 0" if "int (V l) + held (H l) + lock_balance l (S r) = 1" "u \<noteq> r"
    using that t(1) [of r] t(1) [of u] t(2) by (cases "r = t"; cases "u = t") auto
  show "int (V l) + held (H l) + lock_balance l (S r) + lock_balance l (S u) \<le> 1" if "r \<noteq> u"
    using that t(1) [of r] t(1) [of u] t(2) p [of t] by (cases "r = t"; cases "u = t") auto
qed

text \<open>A step of one thread keeps the sum.\<close>

lemma lock_ok_step:
  assumes k: "lock_ok S V H" and s: "S r = ys @ fs" and s': "S' = S(r := xs @ fs)"
    and bal: "\<And>l. int (V' l) + held (H' l) + lock_balance l xs = int (V l) + held (H l) + lock_balance l ys"
    and sn: "sane (xs @ fs)"
    and cr: "\<And>t. t \<in> set (creates xs) \<Longrightarrow> t \<noteq> r \<and> S t = []" "\<And>u. r \<notin> set (creates (S u))"
  shows "lock_ok S' V' H'"
  unfolding lock_ok_def
proof (intro conjI allI ballI)
  show "sane (S' t)" for t using lock_okD(1) [OF k, of t] sn by (simp add: s')
  show "lock_token S' V' H' l" for l
  proof -
    obtain t where t: "\<And>u. u \<noteq> t \<Longrightarrow> lock_balance l (S u) = 0" "int (V l) + held (H l) + lock_balance l (S t) = 1"
      using lock_okD(2) [OF k, of l] by (auto simp: lock_token_def)
    have b: "int (V' l) + held (H' l) + lock_balance l (xs @ fs) =
        int (V l) + held (H l) + lock_balance l (S r)"
      using bal [of l] by (simp add: s)
    have p: "0 \<le> lock_balance l (xs @ fs)" by (rule sane_balance [OF sn])
    show ?thesis
    proof (cases "t = r \<or> lock_balance l (S t) = 0")
      case True
      then have "\<And>u. u \<noteq> r \<Longrightarrow> lock_balance l (S u) = 0"
        and "int (V l) + held (H l) + lock_balance l (S r) = 1" using t by auto metis+
      then show ?thesis
        unfolding lock_token_def by (intro exI [of _ r]) (use b in \<open>simp add: s' del: lock_balance_append\<close>)
    next
      case False
      then have r0: "lock_balance l (S r) = 0" using t(1) [of r] by auto
      have "0 < lock_balance l (S t)" using False lock_okD(3) [OF k, of l t] by simp
      then have z: "lock_balance l (S t) = 1" "int (V l) + held (H l) = 0"
        using t(2) held_ge(1) [of "H l"] by linarith+
      have "int (V' l) + held (H' l) = 0" "lock_balance l (xs @ fs) = 0"
        using b p z(2) r0 held_ge(1) [of "H' l"] by linarith+
      then show ?thesis
        unfolding lock_token_def
        by (intro exI [of _ t]) (use t(1) z(1) False in \<open>simp add: s' del: lock_balance_append\<close>)
    qed
  qed
  show "S' t = []" if t: "t \<in> set (creates (S' u))" for u t
  proof (cases "u = r")
    case True
    then consider "t \<in> set (creates xs)" | "t \<in> set (creates (S r))" using t by (auto simp: s' s)
    then show ?thesis
    proof cases
      case 1
      then show ?thesis using cr(1) by (simp add: s')
    next
      case 2
      then show ?thesis using cr(2) lock_okD(4) [OF k 2] by (auto simp: s')
    qed
  next
    case False
    then have u: "t \<in> set (creates (S u))" using t by (simp add: s')
    then show ?thesis using cr(2) [of u] lock_okD(4) [OF k u] by (auto simp: s')
  qed
qed

section \<open>What an operation does to the stacks and the locks\<close>

definition stacks :: "kstate \<Rightarrow> tptr \<Rightarrow> frame list" where
  "stacks k t = (case threads k t of None \<Rightarrow> [] | Some th \<Rightarrow> frames th)"

definition lock_vals :: "kstate \<Rightarrow> nat \<Rightarrow> nat" where
  "lock_vals k l = sem_value (semas k (LockSema l))"

definition locks_ok :: "kstate \<Rightarrow> bool" where
  "locks_ok k \<longleftrightarrow> lock_ok (stacks k) (lock_vals k) (lock_holder k)"

text \<open>The thread that runs in \<open>k0\<close> has pushed the frames \<open>xs\<close>; the other stacks are as
  they were; \<open>V\<close> and \<open>H\<close> are the values and the holders of the locks.\<close>

definition ext :: "kstate \<Rightarrow> kstate \<Rightarrow> frame list \<Rightarrow> (nat \<Rightarrow> nat) \<Rightarrow> (nat \<Rightarrow> tptr) \<Rightarrow> bool" where
  "ext k0 k xs V H \<longleftrightarrow> threads k (running k0) \<noteq> None \<and>
     stacks k = (stacks k0)(running k0 := xs @ stacks k0 (running k0)) \<and>
     lock_vals k = V \<and> lock_holder k = H"

named_theorems extI "what the operations push, and do to the locks"

lemma ext_refl: "threads k (running k) \<noteq> None \<Longrightarrow> ext k k [] (lock_vals k) (lock_holder k)"
  by (simp add: ext_def)

lemma ext_same:
  "ext k0 k xs V H \<Longrightarrow> threads k' = threads k \<Longrightarrow> semas k' = semas k \<Longrightarrow> lock_holder k' = lock_holder k \<Longrightarrow>
   ext k0 k' xs V H"
  by (simp add: ext_def stacks_def lock_vals_def fun_eq_iff)

lemma stacks_upd: "(\<And>th. frames (f th) = frames th) \<Longrightarrow> stacks (upd_thread t f k) = stacks k"
  by (rule ext) (simp add: stacks_def split: option.splits)

lemma lock_vals_upd [simp]: "lock_vals (upd_thread t f k) = lock_vals k"
  by (rule ext) (simp add: lock_vals_def)

lemma stacks_frames: "threads k t \<noteq> None \<Longrightarrow>
    stacks (upd_thread t (\<lambda>th. th\<lparr>frames := g (frames th)\<rparr>) k) = (stacks k)(t := g (stacks k t))"
  by (rule ext) (auto simp: stacks_def split: option.splits)

lemma ext_upd [extI]:
  "ext k0 k xs V H \<Longrightarrow> (\<And>th. frames (f th) = frames th) \<Longrightarrow> ext k0 (upd_thread t f k) xs V H"
  by (auto simp: ext_def stacks_upd)

lemma ext_status [extI]: "ext k0 k xs V H \<Longrightarrow> ext k0 (set_status s t k) xs V H"
  unfolding set_status_def by (rule ext_upd) simp_all

lemma ext_ret [extI]: "ext k0 k xs V H \<Longrightarrow> ext k0 (ret v k) xs V H"
  unfolding ret_def by (rule ext_upd) simp_all

lemma ext_disable [extI]: "ext k0 k xs V H \<Longrightarrow> ext k0 (intr_disable k) xs V H"
  by (erule ext_same) simp_all

lemma ext_push [extI]:
  "ext k0 k xs V H \<Longrightarrow> running k = running k0 \<Longrightarrow> ext k0 (push f k) (f # xs) V H"
  unfolding ext_def push_def by (simp add: stacks_frames)

lemma lock_vals_set_sema: "lock_vals (set_sema s v k) =
    (case s of LockSema l \<Rightarrow> (lock_vals k)(l := sem_value v) | _ \<Rightarrow> lock_vals k)"
  by (rule ext) (auto simp: lock_vals_def split: sema_id.splits)

lemma ext_sema_same:
  assumes "ext k0 k xs V H" "lock_sema s \<Longrightarrow> sem_value v = sem_value (semas k s)"
  shows "ext k0 (set_sema s v k) xs V H"
proof -
  have "lock_vals (set_sema s v k) = lock_vals k"
    using assms(2) by (cases s) (auto simp: lock_vals_set_sema lock_vals_def)
  moreover have "stacks (set_sema s v k) = stacks k" by (rule ext) (simp add: stacks_def)
  ultimately show ?thesis using assms(1) by (simp add: ext_def)
qed

lemma ext_sema_lock:
  assumes "ext k0 k xs V H"
  shows "ext k0 (set_sema (LockSema l) v k) xs (V(l := sem_value v)) H"
proof -
  have "stacks (set_sema (LockSema l) v k) = stacks k" by (rule ext) (simp add: stacks_def)
  then show ?thesis using assms by (simp add: ext_def lock_vals_set_sema)
qed

lemma ext_schedule:
  assumes s: "schedule k = Some k'" and e: "ext k0 k xs V H" and r: "running k \<noteq> 0"
    and d: "st k (running k) \<noteq> Some THREAD_DYING"
  shows "ext k0 k' xs V H"
proof -
  have "ext k0 (switched k) xs V H"
    unfolding switched_def
    by (rule ext_same [of _ "set_status THREAD_RUNNING (chosen k) (k\<lparr>ready_list := tl (ready_list k), running := chosen k\<rparr>)"])
      (auto intro!: ext_status ext_same [OF e])
  then show ?thesis using schedule_eq(1) [OF s r] d by simp
qed

lemma ext_block:
  assumes b: "thread_block k = Some k'" and e: "ext k0 k xs V H" and r: "running k \<noteq> 0"
  shows "ext k0 k' xs V H"
proof -
  have "schedule (set_status THREAD_BLOCKED (running k) k) = Some k'" using thread_blockD [OF b] by simp
  then show ?thesis
    by (rule ext_schedule) (use e r in \<open>auto intro: ext_status simp: view\<close>)
qed

lemma ext_yield:
  assumes y: "thread_yield k = Some k'" and e: "ext k0 k xs V H"
    and r: "running k \<noteq> 0" "running k = running k0"
  shows "ext k0 k' (SetLevel (intr_level_of k) # xs) V H"
proof -
  obtain k1 where k1: "schedule (set_status THREAD_READY (running k) (push (SetLevel (intr_level_of k)) k1)) = Some k'"
    and f: "threads k1 = threads k" "semas k1 = semas k" "lock_holder k1 = lock_holder k" "running k1 = running k"
    using y by (auto simp: thread_yield_def thread_current_eq Let_def bind_eq_Some_conv split: if_splits)
  have "ext k0 k1 xs V H" by (rule ext_same [OF e f(1-3)])
  then show ?thesis
    by (intro ext_schedule [OF k1] extI) (use f r in \<open>auto simp: view\<close>)
qed

lemma ext_unblock: "thread_unblock t k = Some k' \<Longrightarrow> ext k0 k xs V H \<Longrightarrow> ext k0 k' xs V H"
  by (auto simp: thread_unblock_def Let_def bind_eq_Some_conv split: if_splits
      intro!: ext_status intro: ext_same)

section \<open>Operations that do not touch a lock\<close>

text \<open>Most operations push only frames that say nothing of a lock.\<close>

fun plain_frame :: "frame \<Rightarrow> bool" where
  "plain_frame (LockAcquired l) = False"
| "plain_frame (LockReleaseUp l) = False"
| "plain_frame (CreateRest t fn) = False"
| "plain_frame (SemaDownLoop s) = (\<not> lock_sema s)"
| "plain_frame (StartRest s) = (\<not> lock_sema s)"
| "plain_frame f = (\<not> bottom_frame f)"

lemma plain_frame_weight [simp]: "plain_frame f \<Longrightarrow> lock_weight l f = 0"
  by (cases f) (auto simp: lock_sema_def)

lemma plain_frame_bottom: "plain_frame f \<Longrightarrow> \<not> bottom_frame f"
  by (cases f) auto

lemma plain_frames:
  assumes "\<forall>f \<in> set xs. plain_frame f"
  shows "lock_balance l xs = 0" "creates xs = []" "sane fs \<Longrightarrow> sane (xs @ fs)"
proof -
  show b: "lock_balance l xs = 0" for l using assms by (induction xs) auto
  show "creates xs = []" using assms by (induction xs) (auto split: frame.splits)
  show "sane fs \<Longrightarrow> sane (xs @ fs)"
    using assms
  proof (induction xs)
    case (Cons f xs)
    have "\<forall>f \<in> set xs. plain_frame f" using Cons.prems(2) by simp
    then have bx: "lock_balance l xs = 0" for l by (induction xs) auto
    have "sane (xs @ fs)" using Cons by simp
    moreover have "case f of StartRest s \<Rightarrow> \<not> lock_sema s | _ \<Rightarrow> True"
      using Cons.prems(2) by (auto split: frame.splits)
    ultimately show ?case
      using Cons.prems plain_frame_bottom [of f] sane_balance [of fs] by (simp add: bx)
  qed simp
qed

definition calm :: "kstate \<Rightarrow> kstate \<Rightarrow> bool" where
  "calm k0 k \<longleftrightarrow> (\<exists>xs. (\<forall>f \<in> set xs. plain_frame f) \<and> ext k0 k xs (lock_vals k0) (lock_holder k0))"

lemma calm_intro: "\<forall>f \<in> set xs. plain_frame f \<Longrightarrow> ext k0 k xs (lock_vals k0) (lock_holder k0) \<Longrightarrow> calm k0 k"
  unfolding calm_def by blast

lemma calmE:
  assumes "calm k0 k"
  obtains xs where "\<forall>f \<in> set xs. plain_frame f" "ext k0 k xs (lock_vals k0) (lock_holder k0)"
  using assms unfolding calm_def by blast

named_theorems calmI "operations that leave the locks alone"

lemma calm_refl: "threads k (running k) \<noteq> None \<Longrightarrow> calm k k"
  unfolding calm_def by (intro exI [of _ "[]"] conjI ext_refl) simp_all

lemma calm_same:
  "calm k0 k \<Longrightarrow> threads k' = threads k \<Longrightarrow> semas k' = semas k \<Longrightarrow> lock_holder k' = lock_holder k \<Longrightarrow> calm k0 k'"
  unfolding calm_def using ext_same by blast

lemma calm_upd [calmI]: "calm k0 k \<Longrightarrow> (\<And>th. frames (f th) = frames th) \<Longrightarrow> calm k0 (upd_thread t f k)"
  unfolding calm_def using ext_upd by blast

lemma calm_status [calmI]: "calm k0 k \<Longrightarrow> calm k0 (set_status s t k)"
  unfolding calm_def using ext_status by blast

lemma calm_ret [calmI]: "calm k0 k \<Longrightarrow> calm k0 (ret v k)"
  unfolding calm_def using ext_ret by blast

lemma calm_disable [calmI]: "calm k0 k \<Longrightarrow> calm k0 (intr_disable k)"
  unfolding calm_def using ext_disable by blast

lemma calm_push [calmI]: "calm k0 k \<Longrightarrow> running k = running k0 \<Longrightarrow> plain_frame f \<Longrightarrow> calm k0 (push f k)"
  by (elim calmE, rule calm_intro [OF _ ext_push]) auto

lemma calm_sema [calmI]:
  "calm k0 k \<Longrightarrow> (lock_sema s \<Longrightarrow> sem_value v = sem_value (semas k s)) \<Longrightarrow> calm k0 (set_sema s v k)"
  unfolding calm_def using ext_sema_same by blast

lemma calm_block: "thread_block k = Some k' \<Longrightarrow> calm k0 k \<Longrightarrow> running k \<noteq> 0 \<Longrightarrow> calm k0 k'"
  unfolding calm_def using ext_block by blast

lemma calm_yield: "thread_yield k = Some k' \<Longrightarrow> calm k0 k \<Longrightarrow> running k \<noteq> 0 \<Longrightarrow> running k = running k0 \<Longrightarrow> calm k0 k'"
  by (elim calmE) (rule calm_intro [OF _ ext_yield [of k k']], simp_all)

lemma calm_unblock: "thread_unblock t k = Some k' \<Longrightarrow> calm k0 k \<Longrightarrow> calm k0 k'"
  unfolding calm_def using ext_unblock by blast

lemma calm_alarm_loop: "alarm_loop ts now k = Some k' \<Longrightarrow> calm k0 k \<Longrightarrow> calm k0 k'"
proof (induction ts arbitrary: k)
  case (Cons t ts)
  show ?case
  proof (cases "alarm k t > now")
    case False
    then obtain k1 where u: "thread_unblock t (k\<lparr>sleep_list := ts\<rparr>) = Some k1"
      and l: "alarm_loop ts now k1 = Some k'" using Cons.prems(1) by (auto simp: bind_eq_Some_conv)
    have "calm k0 (k\<lparr>sleep_list := ts\<rparr>)" by (rule calm_same [OF Cons.prems(2)]) simp_all
    then have "calm k0 k1" by (rule calm_unblock [OF u])
    with Cons.IH [OF l] show ?thesis by simp
  qed (use Cons.prems in simp)
qed simp

lemma calm_flag: "intr_yield_on_return k = Some k' \<Longrightarrow> calm k0 k \<Longrightarrow> calm k0 k'"
  by (rule calm_same [of k0 k]) (auto simp: intr_yield_on_return_def split: if_splits)

lemma calm_alarm: "thread_alarm now k = Some k' \<Longrightarrow> calm k0 k \<Longrightarrow> calm k0 k'"
  by (auto simp: thread_alarm_def bind_eq_Some_conv intro: calm_flag calm_alarm_loop)

lemma calm_preempted: "yield_if_preempted k = Some k' \<Longrightarrow> calm k0 k \<Longrightarrow> calm k0 k'"
  by (auto simp: yield_if_preempted_def bind_eq_Some_conv intro: calm_flag split: if_splits)

lemma calm_aging_loop: "calm k0 k \<Longrightarrow> calm k0 (aging_loop ts k)"
  by (induction ts arbitrary: k) (simp_all add: calm_upd)

lemma calm_aging: "thread_priority_aging k = Some k' \<Longrightarrow> calm k0 k \<Longrightarrow> calm k0 k'"
  by (auto simp: thread_priority_aging_def intro: calm_preempted calm_aging_loop)

lemma calm_priority_loop: "priority_loop ts k = Some k' \<Longrightarrow> calm k0 k \<Longrightarrow> calm k0 k'"
proof (induction ts arbitrary: k)
  case (Cons t ts)
  then obtain p where l: "priority_loop ts (upd_thread t (\<lambda>th. th\<lparr>priority := p\<rparr>) k) = Some k'"
    by (auto simp: bind_eq_Some_conv)
  show ?case by (rule Cons.IH [OF l]) (use Cons.prems(2) in \<open>auto intro!: calmI\<close>)
qed simp

lemma calm_recent_cpu_loop: "recent_cpu_loop ts k = Some k' \<Longrightarrow> calm k0 k \<Longrightarrow> calm k0 k'"
proof (induction ts arbitrary: k)
  case (Cons t ts)
  obtain th where th: "threads k t = Some th" using Cons.prems(1) by (auto simp: bind_eq_Some_conv)
  show ?case
  proof (cases "status th \<noteq> THREAD_DYING \<and> t \<noteq> idle_thread k")
    case True
    with Cons.prems(1) th obtain r where
      l: "recent_cpu_loop ts (upd_thread t (\<lambda>th. th\<lparr>recent_cpu := r\<rparr>) k) = Some k'"
      by (auto simp: bind_eq_Some_conv)
    show ?thesis by (rule Cons.IH [OF l]) (use Cons.prems(2) in \<open>auto intro!: calmI\<close>)
  qed (use Cons th in auto)
qed simp

lemma calm_mlfqs:
  assumes m: "mlfqs_updates k = Some k'" and g: "calm k0 k"
  shows "calm k0 k'"
proof -
  obtain k1 k2 where s1: "update_periodic_recent_cpu k = Some k1"
    and s2: "(if ticks k1 smod TIMER_FREQ = 0 then do { k \<leftarrow> update_load_avg k1; update_recent_cpu k }
        else Some k1) = Some k2"
    and s3: "(if ticks k2 smod 4 = 0 then update_priority k2 else Some k2) = Some k'"
    using m unfolding mlfqs_updates_def bind_eq_Some_conv by blast
  have g1: "calm k0 k1"
    using s1 g by (auto simp: update_periodic_recent_cpu_def bind_eq_Some_conv intro!: calmI)
  have g2: "calm k0 k2"
  proof (cases "ticks k1 smod TIMER_FREQ = 0")
    case True
    with s2 obtain y where y: "update_load_avg k1 = Some y" "recent_cpu_loop (all_list y) y = Some k2"
      by (auto simp: bind_eq_Some_conv update_recent_cpu_def)
    have "calm k0 y"
      by (rule calm_same [OF g1]) (use y(1) in \<open>auto simp: update_load_avg_def Let_def bind_eq_Some_conv\<close>)
    then show ?thesis by (rule calm_recent_cpu_loop [OF y(2)])
  qed (use s2 g1 in simp)
  show ?thesis
  proof (cases "ticks k2 smod 4 = 0")
    case True
    with s3 obtain k3 where l: "priority_loop (all_list k2) k2 = Some k3"
      and y: "yield_if_preempted (k3\<lparr>ready_list := ksort (priority_comp k3) (ready_list k3)\<rparr>) = Some k'"
      by (auto simp: update_priority_def Let_def bind_eq_Some_conv)
    have "calm k0 (k3\<lparr>ready_list := ksort (priority_comp k3) (ready_list k3)\<rparr>)"
      by (rule calm_same [OF calm_priority_loop [OF l g2]]) simp_all
    then show ?thesis by (rule calm_preempted [OF y])
  qed (use s3 g2 in simp)
qed

lemma intr_enable_fields:
  "intr_enable k = Some k' \<Longrightarrow> threads k' = threads k \<and> semas k' = semas k \<and> lock_holder k' = lock_holder k \<and>
     running k' = running k \<and> idle_thread k' = idle_thread k"
  by (auto simp: intr_enable_def split: if_splits)

lemma calm_set_level: "intr_set_level l k = Some k' \<Longrightarrow> calm k0 k \<Longrightarrow> calm k0 k'"
  by (rule calm_same [of k0 k]) (auto simp: intr_set_level_def dest: intr_enable_fields split: if_splits)

lemma calm_timer_irq:
  assumes t: "timer_irq k = Some k'" and k: "kwf k" "prio_ok k"
  shows "calm k k'"
proof -
  let ?k = "(intr_disable (push (SetLevel INTR_ON) k))\<lparr>in_external_intr := True, yield_on_return := False\<rparr>"
  let ?kt = "?k\<lparr>ticks := wrap64 (ticks ?k + 1)\<rparr>"
  have live: "threads k (running k) \<noteq> None" using kwf_running(2) [OF k(1)] by (auto simp: st_def)
  have c0: "calm k ?kt"
    by (rule calm_same [of k "intr_disable (push (SetLevel INTR_ON) k)"])
      (auto intro!: calmI calm_refl live)
  obtain k1 where s: "timer_interrupt ?k = Some k1"
    and y: "(if yield_on_return k1 then thread_yield (k1\<lparr>in_external_intr := False\<rparr>)
             else Some (k1\<lparr>in_external_intr := False\<rparr>)) = Some k'"
    using t by (auto simp: timer_irq_def intr_handler_timer_def Let_def bind_eq_Some_conv split: if_splits)
  obtain x1 x2 x3 x4 where s1: "thread_tick ?kt = Some x1"
    and s2: "thread_alarm (ticks x1) (intr_disable x1) = Some x2"
    and s3: "(if thread_prior_aging x2 then thread_priority_aging x2 else Some x2) = Some x3"
    and s4: "(if thread_mlfqs x3 then mlfqs_updates x3 else Some x3) = Some x4"
    and s5: "intr_set_level (intr_level_of x1) x4 = Some k1"
    using s unfolding timer_interrupt_def Let_def by (auto simp: bind_eq_Some_conv intr_disable_def)
  obtain tc th where "thread_current ?kt = Some tc" "threads ?kt tc = Some th"
    using s1 by (auto simp: thread_tick_def bind_eq_Some_conv)
  then have "semas x1 = semas ?kt" "lock_holder x1 = lock_holder ?kt"
    using s1 by (auto simp: thread_tick_def Let_def intr_yield_on_return_def count_tick_def split: if_splits)
  then have "calm k x1" by (intro calm_same [OF c0 thread_tick_threads(1) [OF s1]])
  then have "calm k x2" by (intro calm_alarm [OF s2] calmI)
  then have "calm k x3" using s3 calm_aging by (auto split: if_splits)
  then have "calm k x4" using s4 calm_mlfqs by (auto split: if_splits)
  then have "calm k k1" by (rule calm_set_level [OF s5])
  then have c: "calm k (k1\<lparr>in_external_intr := False\<rparr>)" by (rule calm_same) simp_all
  have "grow ?k k1 \<and> running k1 = running ?k"
  proof (rule grow_timer_interrupt [OF s])
    have sv: "same_view k ?k"
      by (rule same_view_trans [OF same_view_push same_view_trans [OF same_view_intr_disable same_view_threads]]) simp_all
    show "kwf ?k" by (rule kwf_same_view [OF sv k(1)])
    show "prio_ok ?k" using same_view_prio_ok [OF sv] k(2) by simp
  qed
  then have "running k1 = running k" by simp
  then show ?thesis
    using y c calm_yield [of "k1\<lparr>in_external_intr := False\<rparr>" k' k] kwf_nz [OF k(1)] by (auto split: if_splits)
qed

section \<open>Calls without locks\<close>

lemma calm_set_priority:
  assumes s: "thread_set_priority p k = Some k'" and g: "calm k0 k" and r: "running k \<noteq> 0" "running k = running k0"
  shows "calm k0 k'"
proof -
  let ?k = "upd_thread (running k) (\<lambda>th. th\<lparr>priority := p\<rparr>) k"
  have "calm k0 ?k" using g by (auto intro!: calmI)
  moreover have "k' = ?k \<or> thread_yield ?k = Some k'"
    using s by (auto simp: thread_set_priority_def thread_current_eq Let_def bind_eq_Some_conv split: if_splits)
  ultimately show ?thesis using calm_yield [of ?k k' k0] r by auto
qed

lemma calm_set_nice:
  assumes s: "thread_set_nice n k = Some k'" and g: "calm k0 k" and r: "running k \<noteq> 0" "running k = running k0"
  shows "calm k0 k'"
proof -
  obtain p where y: "k' = upd_thread (running k) (\<lambda>th. th\<lparr>nice := n, priority := p\<rparr>) k \<or>
      thread_yield (upd_thread (running k) (\<lambda>th. th\<lparr>nice := n, priority := p\<rparr>) k) = Some k'"
    using s by (auto simp: thread_set_nice_def thread_current_eq Let_def bind_eq_Some_conv split: if_splits)
  have "calm k0 (upd_thread (running k) (\<lambda>th. th\<lparr>nice := n, priority := p\<rparr>) k)" using g by (auto intro!: calmI)
  then show ?thesis using y calm_yield [of _ k' k0] r by auto
qed

lemma calm_timer_sleep:
  assumes s: "timer_sleep n k = Some k'" and g: "calm k0 k" and r: "running k \<noteq> 0" "running k = running k0"
  shows "calm k0 k'"
proof -
  let ?k = "intr_disable (push (SetLevel (intr_level_of k)) k)"
  obtain at where s: "thread_sleep at ?k = Some k'"
    using s by (auto simp: timer_sleep_def Let_def split: if_splits)
  obtain k1 where b: "thread_block k1 = Some k'"
    and e: "threads k1 = threads (upd_thread (running ?k) (\<lambda>th. th\<lparr>alarm_ticks := wrap32 at\<rparr>) ?k)"
      "semas k1 = semas ?k" "lock_holder k1 = lock_holder ?k" "running k1 = running k"
    using s by (auto simp: thread_sleep_def thread_current_eq Let_def bind_eq_Some_conv)
  have "calm k0 (upd_thread (running ?k) (\<lambda>th. th\<lparr>alarm_ticks := wrap32 at\<rparr>) ?k)"
    using g r(2) by (auto intro!: calmI)
  then have "calm k0 k1" by (rule calm_same) (use e in simp_all)
  then show ?thesis by (rule calm_block [OF b]) (use r e in simp)
qed

section \<open>Semaphores and locks\<close>

lemma ext_lock_down_loop:
  assumes d: "sema_down_loop (LockSema l) k = Some k'" and e: "ext k0 k xs V H"
    and r: "running k \<noteq> 0" "running k = running k0"
  shows "if V l = 0 then ext k0 k' (SemaDownLoop (LockSema l) # xs) V H else ext k0 k' xs (V(l := V l - 1)) H"
proof -
  have v: "V l = sem_value (semas k (LockSema l))" using e by (auto simp: ext_def lock_vals_def)
  show ?thesis
  proof (cases "V l = 0")
    case True
    then obtain w where b: "thread_block (push (SemaDownLoop (LockSema l)) (set_sema (LockSema l) w k)) = Some k'"
      and w: "sem_value w = sem_value (semas k (LockSema l))"
      using d v by (auto simp: sema_down_loop_def Let_def bind_eq_Some_conv)
    have "ext k0 k' (SemaDownLoop (LockSema l) # xs) V H"
      by (intro ext_block [OF b] ext_push ext_sema_same [OF e]) (use w r in simp_all)
    then show ?thesis using True by simp
  next
    case False
    then show ?thesis
      using d v ext_sema_lock [OF e, of l "(semas k (LockSema l))\<lparr>sem_value := V l - 1\<rparr>"]
      by (simp add: sema_down_loop_def Let_def)
  qed
qed

lemma calm_down_loop:
  assumes d: "sema_down_loop s k = Some k'" and e: "calm k0 k" and n: "\<not> lock_sema s"
    and r: "running k \<noteq> 0" "running k = running k0"
  shows "calm k0 k'"
proof (cases "sem_value (semas k s) = 0")
  case True
  then obtain w where b: "thread_block (push (SemaDownLoop s) (set_sema s w k)) = Some k'"
    using d by (auto simp: sema_down_loop_def Let_def bind_eq_Some_conv)
  show ?thesis by (intro calm_block [OF b] calmI) (use e n r in simp_all)
next
  case False
  then show ?thesis using d n e by (auto simp: sema_down_loop_def Let_def intro!: calmI)
qed

lemma calm_down:
  assumes d: "sema_down s k = Some k'" and e: "calm k0 k" and n: "\<not> lock_sema s"
    and r: "running k \<noteq> 0" "running k = running k0"
  shows "calm k0 k'"
proof -
  have "sema_down_loop s (push (SetLevel (intr_level_of k)) (intr_disable k)) = Some k'"
    using d by (auto simp: sema_down_def Let_def split: if_splits)
  then show ?thesis by (rule calm_down_loop [OF _ _ n]) (use r e in \<open>auto intro!: calmI\<close>)
qed

text \<open>The value goes up, and the caller yields.\<close>

lemma ext_up_steps:
  assumes u: "sema_up s k = Some k'" and e: "ext k0 k xs V H" and r: "running k = running k0"
  obtains k1 v lv where "ext k0 k1 (SetLevel lv # xs) V H" "running k1 = running k"
    "sem_value v = (sem_value (semas k1 s) + 1) mod 2 ^ 32"
    "thread_yield (set_sema s v k1) = Some k'"
proof -
  obtain k1 where k1: "(case waiters (semas (intr_disable k) s) of [] \<Rightarrow> Some (intr_disable k)
      | t # ts \<Rightarrow> thread_unblock t (set_sema s ((semas (intr_disable k) s)\<lparr>waiters := ts\<rparr>) (intr_disable k))) = Some k1"
    and y: "thread_yield (push (SetLevel (intr_level_of k)) (set_sema s
       ((semas k1 s)\<lparr>sem_value := (sem_value (semas k1 s) + 1) mod 2 ^ 32\<rparr>) k1)) = Some k'"
    using u unfolding sema_up_def Let_def by (auto simp: bind_eq_Some_conv)
  have e1: "ext k0 k1 xs V H \<and> running k1 = running k"
  proof (cases "waiters (semas (intr_disable k) s)")
    case Nil
    then show ?thesis using k1 e by (auto intro!: extI)
  next
    case (Cons t ts)
    then have u1: "thread_unblock t (set_sema s ((semas (intr_disable k) s)\<lparr>waiters := ts\<rparr>) (intr_disable k)) = Some k1"
      using k1 by simp
    have "ext k0 (set_sema s ((semas (intr_disable k) s)\<lparr>waiters := ts\<rparr>) (intr_disable k)) xs V H"
      by (rule ext_sema_same [OF ext_disable [OF e]]) simp
    from ext_unblock [OF u1 this] running_unblock [OF u1] show ?thesis by simp
  qed
  let ?v = "(semas k1 s)\<lparr>sem_value := (sem_value (semas k1 s) + 1) mod 2 ^ 32\<rparr>"
  show ?thesis
  proof (rule that)
    show "ext k0 (push (SetLevel (intr_level_of k)) k1) (SetLevel (intr_level_of k) # xs) V H"
      using e1 r by (auto intro!: extI)
    have "push (SetLevel (intr_level_of k)) (set_sema s ?v k1) = set_sema s ?v (push (SetLevel (intr_level_of k)) k1)"
      by (simp add: push_def upd_thread_def set_sema_def split: option.splits)
    then show "thread_yield (set_sema s ?v (push (SetLevel (intr_level_of k)) k1)) = Some k'" using y by simp
  qed (use e1 in simp_all)
qed

lemma ext_lock_up:
  assumes u: "sema_up (LockSema l) k = Some k'" and e: "ext k0 k xs V H"
    and r: "running k \<noteq> 0" "running k = running k0"
  shows "\<exists>a b. ext k0 k' (SetLevel a # SetLevel b # xs) (V(l := (V l + 1) mod 2 ^ 32)) H"
  using u e r(2)
proof (rule ext_up_steps)
  fix k1 v lv
  assume k1: "ext k0 k1 (SetLevel lv # xs) V H" "running k1 = running k"
    "sem_value v = (sem_value (semas k1 (LockSema l)) + 1) mod 2 ^ 32"
    "thread_yield (set_sema (LockSema l) v k1) = Some k'"
  have "V l = sem_value (semas k1 (LockSema l))" using k1(1) by (auto simp: ext_def lock_vals_def)
  then have "ext k0 (set_sema (LockSema l) v k1) (SetLevel lv # xs) (V(l := (V l + 1) mod 2 ^ 32)) H"
    using ext_sema_lock [OF k1(1), of l v] k1(3) by simp
  from ext_yield [OF k1(4) this] show ?thesis using r k1(2) by auto
qed

lemma calm_up:
  assumes u: "sema_up s k = Some k'" and e: "calm k0 k" and n: "\<not> lock_sema s"
    and r: "running k \<noteq> 0" "running k = running k0"
  shows "calm k0 k'"
proof -
  obtain xs where xs: "\<forall>f \<in> set xs. plain_frame f" "ext k0 k xs (lock_vals k0) (lock_holder k0)"
    using e by (rule calmE)
  from u xs(2) r(2) show ?thesis
  proof (rule ext_up_steps)
    fix k1 v lv
    assume k1: "ext k0 k1 (SetLevel lv # xs) (lock_vals k0) (lock_holder k0)" "running k1 = running k"
      "thread_yield (set_sema s v k1) = Some k'"
    have "calm k0 k1" by (rule calm_intro [OF _ k1(1)]) (use xs(1) in simp)
    then have "calm k0 (set_sema s v k1)" by (rule calm_sema) (use n in simp)
    then show "calm k0 k'" by (rule calm_yield [OF k1(3)]) (use r k1(2) in simp_all)
  qed
qed

lemma ext_lock_acquire:
  assumes a: "lock_acquire l k = Some k'" and e: "ext k0 k xs V H"
    and r: "running k \<noteq> 0" "running k = running k0"
  shows "\<exists>a. if V l = 0 then ext k0 k' (SemaDownLoop (LockSema l) # SetLevel a # LockAcquired l # xs) V H
     else ext k0 k' (SetLevel a # LockAcquired l # xs) (V(l := V l - 1)) H"
proof -
  let ?k = "push (LockAcquired l) k"
  have d: "sema_down_loop (LockSema l) (push (SetLevel (intr_level_of ?k)) (intr_disable ?k)) = Some k'"
    using a by (auto simp: lock_acquire_def sema_down_def Let_def bind_eq_Some_conv split: if_splits)
  have x: "ext k0 (push (SetLevel (intr_level_of ?k)) (intr_disable ?k))
      (SetLevel (intr_level_of ?k) # LockAcquired l # xs) V H"
    by (intro ext_push ext_disable e) (use r in simp_all)
  show ?thesis
    by (intro exI [of _ "intr_level_of ?k"] ext_lock_down_loop [OF d x]) (use r in simp_all)
qed

lemma ext_lock_release:
  assumes l: "lock_release l k = Some k'" and e: "ext k0 k xs V H" and r: "running k = running k0"
  shows "ext k0 k' (LockReleaseUp l # xs) V (H(l := 0))" "H l = running k0"
proof -
  have "ext k0 (k\<lparr>lock_holder := (lock_holder k)(l := 0)\<rparr>) xs V (H(l := 0))"
    using e by (simp add: ext_def stacks_def lock_vals_def fun_eq_iff)
  then show "ext k0 k' (LockReleaseUp l # xs) V (H(l := 0))"
    using lock_release_eq [OF l] r by (auto intro!: extI)
  show "H l = running k0"
    using l e r by (auto simp: lock_release_def lock_held_by_current_thread_def thread_current_eq ext_def
        bind_eq_Some_conv split: if_splits)
qed

section \<open>Steps of the kernel\<close>

text \<open>The running thread has taken the frames \<open>ys\<close> off its stack, which leaves \<open>fs\<close>.\<close>

definition popped :: "kstate \<Rightarrow> frame list \<Rightarrow> frame list \<Rightarrow> kstate \<Rightarrow> bool" where
  "popped k0 ys fs k \<longleftrightarrow> stacks k0 (running k0) = ys @ fs \<and> stacks k = (stacks k0)(running k0 := fs) \<and>
     lock_vals k = lock_vals k0 \<and> lock_holder k = lock_holder k0 \<and> running k = running k0 \<and>
     threads k (running k) \<noteq> None"

lemma popped_none: "kwf k \<Longrightarrow> popped k [] (stacks k (running k)) k"
  using kwf_running(2) [of k] by (auto simp: popped_def st_def)

lemma popped_frame:
  assumes "pop_frame k = Some (f, k1)"
  obtains fs where "popped k [f] fs k1"
proof -
  obtain th fs where th: "threads k (running k) = Some th" "frames th = f # fs"
    and e: "k1 = upd_thread (running k) (\<lambda>th. th\<lparr>frames := fs\<rparr>) k"
    using assms by (rule pop_frameE)
  have "stacks k1 = (stacks k)(running k := fs)"
    using stacks_frames [of k "running k" "\<lambda>_. fs"] th(1) by (simp add: e)
  then have "popped k [f] fs k1" using th by (simp add: popped_def e stacks_def)
  then show thesis by (rule that)
qed

lemma popped_ext: "popped k0 ys fs k \<Longrightarrow> ext k k [] (lock_vals k0) (lock_holder k0)"
  by (auto simp: popped_def ext_def)

lemma popped_calm: "popped k0 ys fs k \<Longrightarrow> calm k k"
  by (rule calm_refl) (auto simp: popped_def)

lemma cr_stacks: "cr k u = creates (stacks k u)"
  by (simp add: cr_def stacks_def split: option.splits)

lemma locks_okD:
  assumes "locks_ok k0"
  shows "sane (stacks k0 t)" "0 \<le> lock_balance l (stacks k0 t)"
    "t \<in> set (cr k0 u) \<Longrightarrow> stacks k0 t = []"
  using lock_okD [OF assms [unfolded locks_ok_def]] by (simp_all add: cr_stacks)

lemma popped_sane: "locks_ok k0 \<Longrightarrow> popped k0 [f] fs k \<Longrightarrow> sane (f # fs)"
  using locks_okD(1) [of k0 "running k0"] by (simp add: popped_def)

lemma popped_rest: "locks_ok k0 \<Longrightarrow> popped k0 ys fs k \<Longrightarrow> ys = [] \<or> ys = [f] \<Longrightarrow> sane fs"
  using locks_okD(1) [of k0 "running k0"] by (auto simp: popped_def)

lemma locks_step:
  assumes k: "locks_ok k0" "kwf k0" and p: "popped k0 ys fs k" and e: "ext k k' xs V H"
    and bal: "\<And>l. int (V l) + held (H l) + lock_balance l xs =
      int (lock_vals k0 l) + held (lock_holder k0 l) + lock_balance l ys"
    and sn: "sane (xs @ fs)"
    and cr: "\<And>t. t \<in> set (creates xs) \<Longrightarrow> t \<noteq> running k0 \<and> stacks k0 t = []"
  shows "locks_ok k'"
proof -
  have ne: "not_embryo k0 (running k0)" by (rule kwf_running(4) [OF k(2)])
  have s: "stacks k' = (stacks k0)(running k0 := xs @ fs)" "lock_vals k' = V" "lock_holder k' = H"
    using e p by (simp_all add: ext_def popped_def)
  show ?thesis
    unfolding locks_ok_def s(2,3)
    by (rule lock_ok_step [OF k(1) [unfolded locks_ok_def] _ s(1) bal sn cr])
      (use p ne in \<open>auto simp: popped_def not_embryo_def cr_stacks\<close>)
qed

lemma locks_step_calm:
  assumes k: "locks_ok k0" "kwf k0" and p: "popped k0 ys fs k" "ys = [] \<or> ys = [f]"
    and e: "calm k k'" and ys: "\<And>l. lock_balance l ys = 0"
  shows "locks_ok k'"
proof -
  obtain xs where xs: "\<forall>f \<in> set xs. plain_frame f" "ext k k' xs (lock_vals k) (lock_holder k)"
    using e by (rule calmE)
  show ?thesis
    by (rule locks_step [OF k p(1) xs(2)])
      (use plain_frames [OF xs(1)] popped_rest [OF k(1) p] p(1) ys in \<open>simp_all add: popped_def\<close>)
qed

text \<open>Frames at the bottom of a stack.\<close>

lemma bottom_weight: "bottom_frame b \<Longrightarrow> lock_weight l b = 0 \<and> creates [b] = [] \<and>
    (case b of StartRest s \<Rightarrow> \<not> lock_sema s | _ \<Rightarrow> True)"
  by (cases b) auto

lemma locks_step_bottom:
  assumes k: "locks_ok k0" "kwf k0" and p: "popped k0 ys fs k" "ys = [] \<or> ys = [f]"
    and e: "ext k k' (xs @ [b]) (lock_vals k0) (lock_holder k0)" and xs: "\<forall>f \<in> set xs. plain_frame f"
    and b: "bottom_frame b" "set fs \<subseteq> {ThreadExit}" and ys: "\<And>l. lock_balance l ys = 0"
  shows "locks_ok k'"
proof (rule locks_step [OF k p(1) e])
  have "sane (b # fs)" using popped_rest [OF k(1) p] bottom_weight [OF b(1)] b exit_balance [OF b(2)] by simp
  then show "sane ((xs @ [b]) @ fs)" using plain_frames(3) [OF xs] by simp
qed (use plain_frames [OF xs] bottom_weight [OF b(1)] ys in \<open>simp_all split: frame.splits\<close>)

text \<open>Acquiring a lock.\<close>

lemma locks_step_acquire:
  assumes k: "locks_ok k0" "kwf k0" and p: "popped k0 ys fs k" "ys = [] \<or> ys = [f]"
    and e: "if lock_vals k0 l = 0
      then ext k k' (SemaDownLoop (LockSema l) # SetLevel a # LockAcquired l # xs) (lock_vals k0) (lock_holder k0)
      else ext k k' (SetLevel a # LockAcquired l # xs) ((lock_vals k0)(l := lock_vals k0 l - 1)) (lock_holder k0)"
    and xs: "\<And>l. lock_balance l xs = 0" "sane fs \<Longrightarrow> sane (xs @ fs)"
      "\<And>t. t \<in> set (creates xs) \<Longrightarrow> t \<noteq> running k0 \<and> stacks k0 t = []"
    and ys: "\<And>l. lock_balance l ys = 0"
  shows "locks_ok k'"
proof -
  have sn: "sane (xs @ fs)" by (rule xs(2) [OF popped_rest [OF k(1) p]])
  have b: "0 \<le> lock_balance m (xs @ fs)" for m by (rule sane_balance [OF sn])
  have s1: "sane (SetLevel a # LockAcquired l # xs @ fs)" using sn b by (simp add: add_nonneg_nonneg)
  show ?thesis
  proof (cases "lock_vals k0 l = 0")
    case True
    then have e': "ext k k' (SemaDownLoop (LockSema l) # SetLevel a # LockAcquired l # xs)
        (lock_vals k0) (lock_holder k0)" using e by simp
    show ?thesis
      by (rule locks_step [OF k p(1) e']) (use xs ys s1 sn b in \<open>auto simp: add_nonneg_nonneg\<close>)
  next
    case False
    then have e': "ext k k' (SetLevel a # LockAcquired l # xs)
        ((lock_vals k0)(l := lock_vals k0 l - 1)) (lock_holder k0)" using e by simp
    show ?thesis
      by (rule locks_step [OF k p(1) e']) (use xs ys s1 False in \<open>auto simp: of_nat_diff\<close>)
  qed
qed

lemma locks_step_release:
  assumes k: "locks_ok k0" "kwf k0" and p: "popped k0 ys fs k" "ys = [] \<or> ys = [f]"
    and e: "ext k k' (LockReleaseUp l # xs) (lock_vals k0) ((lock_holder k0)(l := 0))"
    and h: "lock_holder k0 l = running k0"
    and xs: "\<forall>f \<in> set xs. plain_frame f" and ys: "\<And>l. lock_balance l ys = 0"
  shows "locks_ok k'"
proof (rule locks_step [OF k p(1) e])
  have "sane (xs @ fs)" by (rule plain_frames(3) [OF xs popped_rest [OF k(1) p]])
  then show "sane ((LockReleaseUp l # xs) @ fs)"
    using sane_balance [of "xs @ fs"] by (simp add: add_nonneg_nonneg)
qed (use plain_frames [OF xs] ys h kwf_nz [OF k(2)] in \<open>auto simp: held_def\<close>)

section \<open>Creation and exit\<close>

lemma ext_init_thread:
  assumes i: "init_thread t name pri k = Some k'" and t: "threads k t = None" and e: "ext k0 k xs V H"
  shows "ext k0 k' xs V H" "running k' = running k"
proof -
  note q = init_thread_eq [OF i]
  have "stacks k' = stacks k" using t q by (auto simp: stacks_def fun_eq_iff zero_thread_def)
  then show "ext k0 k' xs V H" using e q by (auto simp: ext_def lock_vals_def fun_eq_iff)
  show "running k' = running k" using q by simp
qed

lemma ext_create:
  assumes c: "thread_create (Some t) name pri fn k = Some k'" and t: "threads k t = None"
    and e: "ext k0 k xs V H" and r: "running k \<noteq> 0" "running k = running k0"
  shows "\<exists>a. if V tid_lock = 0
    then ext k0 k' (SemaDownLoop (LockSema tid_lock) # SetLevel a # LockAcquired tid_lock # TidBump # CreateRest t fn # xs) V H
    else ext k0 k' (SetLevel a # LockAcquired tid_lock # TidBump # CreateRest t fn # xs) (V(tid_lock := V tid_lock - 1)) H"
proof -
  obtain k1 where i: "init_thread t name pri k = Some k1"
    and a: "lock_acquire tid_lock (push TidBump (push (CreateRest t fn) k1)) = Some k'"
    using c by (auto simp: thread_create_def allocate_tid_def bind_eq_Some_conv)
  note q = ext_init_thread [OF i t e]
  have x: "ext k0 (push TidBump (push (CreateRest t fn) k1)) (TidBump # CreateRest t fn # xs) V H"
    by (intro ext_push q(1)) (use q(2) r in simp_all)
  show ?thesis by (rule ext_lock_acquire [OF a x]) (use q(2) r in simp_all)
qed

lemma locks_step_create:
  assumes k: "locks_ok k0" "kwf k0" and p: "popped k0 [] fs k0"
    and c: "thread_create page name pri fn k = Some k'"
    and e: "ext k0 k xs (lock_vals k0) (lock_holder k0)" and r: "running k = running k0"
    and t: "\<And>t. page = Some t \<Longrightarrow> threads k t = None"
    and xs: "\<forall>f \<in> set xs. plain_frame f"
  shows "locks_ok k'"
proof (cases page)
  case None
  then have "k' = ret TID_ERROR k" using c by (simp add: thread_create_def)
  then have "calm k0 k'" by (intro calm_intro [OF xs]) (simp add: ext_ret [OF e])
  then show ?thesis by (rule locks_step_calm [OF k p, rotated]) simp_all
next
  case (Some u)
  have nz: "running k \<noteq> 0" using kwf_nz [OF k(2)] r by simp
  obtain a where a: "if lock_vals k0 tid_lock = 0
    then ext k0 k' (SemaDownLoop (LockSema tid_lock) # SetLevel a # LockAcquired tid_lock # TidBump # CreateRest u fn # xs) (lock_vals k0) (lock_holder k0)
    else ext k0 k' (SetLevel a # LockAcquired tid_lock # TidBump # CreateRest u fn # xs) ((lock_vals k0)(tid_lock := lock_vals k0 tid_lock - 1)) (lock_holder k0)"
    using ext_create [OF c [unfolded Some] t [OF Some] e nz r] by blast
  have u0: "threads k u = None" by (rule t [OF Some])
  have "u \<noteq> running k0"
    using e u0 by (auto simp: ext_def)
  moreover have "stacks k0 u = []"
  proof -
    have "stacks k u = []" using u0 by (simp add: stacks_def)
    then show ?thesis using e \<open>u \<noteq> running k0\<close> by (simp add: ext_def)
  qed
  ultimately have "v \<noteq> running k0 \<and> stacks k0 v = []" if "v \<in> set (creates (TidBump # CreateRest u fn # xs))" for v
    using that plain_frames(2) [OF xs] by simp
  moreover have "sane ((TidBump # CreateRest u fn # xs) @ fs)" if "sane fs"
    using plain_frames(3) [OF xs that] sane_balance [of "xs @ fs"] by simp
  ultimately show ?thesis
    by (intro locks_step_acquire [OF k p _ a]) (use plain_frames(1) [OF xs] in simp_all)
qed

text \<open>The new thread's first frames: nothing changes for a lock.\<close>

lemma stacks_set_members:
  assumes "threads k t \<noteq> None"
  shows "stacks (set_members t fn cur k) = (stacks k)(t := [KernelThread fn, ThreadExit])"
    "lock_vals (set_members t fn cur k) = lock_vals k"
    "lock_holder (set_members t fn cur k) = lock_holder k"
proof -
  have v: "stacks (user_init a b y) = stacks y" "lock_vals (user_init a b y) = lock_vals y"
    "lock_holder (user_init a b y) = lock_holder y" for a b y
  proof -
    have s: "stacks (sema_init (FdWait a) n z) = stacks z" "lock_vals (sema_init (FdWait a) n z) = lock_vals z" for n z
      by (auto simp: sema_init_def stacks_def lock_vals_set_sema fun_eq_iff)
    show "stacks (user_init a b y) = stacks y" by (simp add: user_init_def Let_def stacks_upd s)
    show "lock_vals (user_init a b y) = lock_vals y" by (simp add: user_init_def Let_def s)
    show "lock_holder (user_init a b y) = lock_holder y" by (simp add: user_init_def Let_def sema_init_def)
  qed
  let ?a = "inherit_mlfqs t cur (if userprog k
          then user_init t (running k) (upd_thread t (\<lambda>th. th\<lparr>tid := retval cur\<rparr>) k)
          else upd_thread t (\<lambda>th. th\<lparr>tid := retval cur\<rparr>) k)"
  have a: "stacks ?a = stacks k" "lock_vals ?a = lock_vals k" "lock_holder ?a = lock_holder k"
    by (simp_all add: inherit_mlfqs_def v stacks_upd)
  have n: "threads ?a t \<noteq> None"
    using assms by (auto simp: inherit_mlfqs_def user_init_def Let_def sema_init_def)
  show "stacks (set_members t fn cur k) = (stacks k)(t := [KernelThread fn, ThreadExit])"
    using stacks_frames [OF n, of "\<lambda>_. [KernelThread fn, ThreadExit]"] by (simp add: set_members_def a)
  show "lock_vals (set_members t fn cur k) = lock_vals k" "lock_holder (set_members t fn cur k) = lock_holder k"
    by (simp_all add: set_members_def a)
qed

lemma locks_create_rest:
  assumes k: "locks_ok k0" "kwf k0" and p: "popped k0 [CreateRest t fn] fs k" and kw: "kwf k"
    and c: "create_rest t fn k = Some k'" and o: "off_lists k t" "not_embryo k t"
  shows "locks_ok k'"
proof -
  obtain cur k1 where u: "thread_unblock t (set_members t fn cur k) = Some k1"
    and y: "thread_yield (push (ReturnVal (retval cur)) k1) = Some k'"
    using c by (auto simp: create_rest_def bind_eq_Some_conv)
  let ?m = "set_members t fn cur k"
  have kl: "locks_ok k" by (rule locks_step_calm [OF k p _ popped_calm [OF p]]) simp_all
  have live: "threads k t \<noteq> None"
    using u by (auto simp: thread_unblock_def set_members_def inherit_mlfqs_def user_init_def sema_init_def
        Let_def bind_eq_Some_conv split: if_splits)
  note m = stacks_set_members [OF live, of fn cur]
  have t0: "stacks k0 t = []"
    by (rule locks_okD(3) [OF k(1), of t "running k0"]) (use p in \<open>simp add: cr_stacks popped_def\<close>)
  then have tr: "t \<noteq> running k0" using p by (auto simp: popped_def)
  then have tk: "stacks k t = []" using p t0 by (simp add: popped_def)
  have ml: "locks_ok ?m"
    unfolding locks_ok_def m(2,3)
    by (rule lock_ok_step [OF kl [unfolded locks_ok_def], of t "[]" "[]" _ "[KernelThread fn, ThreadExit]"])
      (use tk m(1) o(2) in \<open>simp_all add: not_embryo_def cr_stacks\<close>)
  have mk: "kwf ?m" by (rule set_members_kwf(1) [OF kw o(1)])
  have rm: "running ?m = running k" by (simp add: set_members_def inherit_mlfqs_def user_init_views)
  have "calm ?m k1" by (rule calm_unblock [OF u popped_calm [OF popped_none [OF mk]]])
  then have "calm ?m k'"
    by (intro calm_yield [OF y] calm_push) (use running_unblock [OF u] kwf_nz [OF mk] in simp_all)
  then show ?thesis by (intro locks_step_calm [OF ml mk popped_none [OF mk]]) simp_all
qed

lemma schedule_stacks:
  assumes s: "schedule k = Some k'" and r: "running k \<noteq> 0"
  shows "lock_vals k' = lock_vals k" "lock_holder k' = lock_holder k"
    "stacks k' = stacks k \<or> stacks k' = (stacks k)(running k := [])"
proof -
  have v: "stacks (switched k) = stacks k" "lock_vals (switched k) = lock_vals k" "lock_holder (switched k) = lock_holder k"
  proof -
    have "stacks (switched k) = stacks (set_status THREAD_RUNNING (chosen k) k)"
      by (rule ext) (simp add: switched_def stacks_def set_status_def upd_thread_def split: option.splits)
    then show "stacks (switched k) = stacks k" by (simp add: set_status_def stacks_upd)
    show "lock_vals (switched k) = lock_vals k" by (rule ext) (simp add: switched_def lock_vals_def)
    show "lock_holder (switched k) = lock_holder k"
      by (simp add: switched_def set_status_def upd_thread_def split: option.splits)
  qed
  have f: "stacks ((switched k)\<lparr>threads := (threads (switched k))(running k := None)\<rparr>) = (stacks k)(running k := [])"
    using v(1) by (auto simp: stacks_def fun_eq_iff)
  show "lock_vals k' = lock_vals k" "lock_holder k' = lock_holder k"
    "stacks k' = stacks k \<or> stacks k' = (stacks k)(running k := [])"
    using schedule_eq(1) [OF s r] v f by (auto simp: lock_vals_def fun_eq_iff)
qed

lemma locks_exit_tail:
  assumes k: "locks_ok k0" "kwf k0" and p: "popped k0 [ExitTail] fs k" and kw: "kwf k" and e: "exit_tail k = Some k'"
  shows "locks_ok k'"
proof -
  define k1 where "k1 = (if userprog k then upd_thread (running k) (\<lambda>th. th\<lparr>pagedir := 0\<rparr>) k else k)"
  let ?k2 = "intr_disable k1\<lparr>all_list := remove1 (running k) (all_list (intr_disable k1))\<rparr>"
  have sch: "schedule (set_status THREAD_DYING (running k) ?k2) = Some k'"
    using e by (auto simp: exit_tail_def thread_current_eq Let_def k1_def bind_eq_Some_conv)
  let ?k3 = "set_status THREAD_DYING (running k) ?k2"
  have e1: "ext k k1 [] (lock_vals k) (lock_holder k)"
    using kw by (auto simp: k1_def popped_ext [OF popped_none] intro!: ext_upd)
  have e2: "ext k ?k2 [] (lock_vals k) (lock_holder k)" by (rule ext_same [OF e1]) simp_all
  have e3: "ext k ?k3 [] (lock_vals k) (lock_holder k)" by (rule ext_status [OF e2])
  then have v: "stacks ?k3 = stacks k" "lock_vals ?k3 = lock_vals k" "lock_holder ?k3 = lock_holder k"
    by (simp_all add: ext_def)
  have kl: "locks_ok k" by (rule locks_step_calm [OF k p _ popped_calm [OF p]]) simp_all
  have r: "running ?k3 = running k" by (simp add: k1_def)
  have nz: "running ?k3 \<noteq> 0" using kwf_nz [OF kw] r by simp
  note q = schedule_stacks [OF sch nz, unfolded v r]
  have fs: "stacks k (running k) = fs" "set fs \<subseteq> {ThreadExit}"
    using p popped_sane [OF k(1) p] by (simp_all add: popped_def)
  show ?thesis
    using q(3)
  proof
    assume s: "stacks k' = stacks k"
    then show ?thesis using kl q by (simp add: locks_ok_def)
  next
    assume s: "stacks k' = (stacks k)(running k := [])"
    show ?thesis
      unfolding locks_ok_def q(1,2)
      by (rule lock_ok_step [OF kl [unfolded locks_ok_def], of "running k" fs "[]" _ "[]"])
        (use s fs exit_balance kwf_running(4) [OF kw] in \<open>auto simp: not_embryo_def cr_stacks\<close>)
  qed
qed

lemma locks_thread_exit:
  assumes k: "locks_ok k0" "kwf k0" and p: "popped k0 ys fs k" "ys = [] \<or> ys = [f]"
    and ys: "\<And>l. lock_balance l ys = 0" and fs: "set fs \<subseteq> {ThreadExit}"
    and x: "thread_exit k1 = Some k'" and e: "ext k k1 [] (lock_vals k0) (lock_holder k0)" "running k1 = running k"
  shows "locks_ok k'"
proof -
  consider "k' = push ExitWait (upd_thread (running k1) (\<lambda>th. th\<lparr>ready_to_exit := True\<rparr>) k1)"
    | "k' = push ExitTail k1"
    using x by (auto simp: thread_exit_def thread_current_eq bind_eq_Some_conv split: if_splits)
  then show ?thesis
  proof cases
    case 1
    have "ext k k' ([] @ [ExitWait]) (lock_vals k0) (lock_holder k0)"
      unfolding 1 by (simp, intro ext_push ext_upd e(1)) (simp_all add: e(2))
    then show ?thesis by (rule locks_step_bottom [OF k p _ _ _ fs ys]) simp_all
  next
    case 2
    have "ext k k' ([] @ [ExitTail]) (lock_vals k0) (lock_holder k0)"
      unfolding 2 by (simp, intro ext_push e(1)) (simp_all add: e(2))
    then show ?thesis by (rule locks_step_bottom [OF k p _ _ _ fs ys]) simp_all
  qed
qed

lemma calm_set_cond [calmI]: "calm k0 k \<Longrightarrow> calm k0 (set_cond c ts k)"
  by (rule calm_same [of k0 k]) (simp_all add: set_cond_def)

lemma calm_cond_signal:
  "cond_signal c l k = Some k' \<Longrightarrow> calm k0 k \<Longrightarrow> running k \<noteq> 0 \<Longrightarrow> running k = running k0 \<Longrightarrow> calm k0 k'"
  by (auto simp: cond_signal_def bind_eq_Some_conv split: if_splits list.splits
      intro: calm_up [where k = "set_cond c _ k"] calm_set_cond)

lemma calm_cond_broadcast:
  assumes "cond_broadcast c l k = Some k'" "calm k0 k" "running k \<noteq> 0" "running k = running k0"
  shows "calm k0 k'"
proof (cases "cond_waiters k c = []")
  case True
  then show ?thesis using assms by (simp add: cond_broadcast_def)
next
  case False
  then have "cond_signal c l (push (CondBroadcast c l) k) = Some k'" using assms(1) by (simp add: cond_broadcast_def)
  then show ?thesis by (rule calm_cond_signal) (use assms in \<open>simp_all add: calm_push\<close>)
qed

lemma calm_wait_child:
  assumes w: "wait_child c k = Some k'" and g: "calm k0 k" and r: "running k \<noteq> 0" "running k = running k0"
  shows "calm k0 k'"
proof -
  obtain ch cur where "threads k c = Some ch"
    and w': "thread_yield (push (WaitChild c) k) = Some k' \<or>
       k' = ret (exit_status ch) (upd_thread c (\<lambda>th. th\<lparr>deleted_from_parent := True\<rparr>)
         (upd_thread cur (\<lambda>th. th\<lparr>child_list := remove1 c (child_list th)\<rparr>) k))"
    using w by (auto simp: wait_child_def Let_def bind_eq_Some_conv split: if_splits)
  have "calm k0 (ret (exit_status ch) (upd_thread c (\<lambda>th. th\<lparr>deleted_from_parent := True\<rparr>)
         (upd_thread cur (\<lambda>th. th\<lparr>child_list := remove1 c (child_list th)\<rparr>) k)))"
    using g by (intro calmI) simp_all
  moreover have "calm k0 (push (WaitChild c) k)" by (rule calm_push [OF g r(2)]) simp
  ultimately show ?thesis using w' calm_yield [of "push (WaitChild c) k" k' k0] r by auto
qed

section \<open>Every step keeps the invariant\<close>

lemma locks_frame:
  assumes k: "locks_ok k0" "kwf k0" and p: "popped k0 [f] fs k" and kw: "kwf k"
    and x: "exec_frame f k = Some k'" and ni: "\<not> idle_frame f"
    and c: "\<And>t fn. f = CreateRest t fn \<Longrightarrow> off_lists k t \<and> t \<noteq> idle_thread k \<and> not_embryo k t"
  shows "locks_ok k'"
proof -
  note nz = kwf_nz [OF kw]
  have ys: "[f] = [] \<or> [f] = [f]" by simp
  have sn: "sane (f # fs)" by (rule popped_sane [OF k(1) p])
  have e0: "ext k k [] (lock_vals k0) (lock_holder k0)" by (rule popped_ext [OF p])
  have c0: "calm k k" by (rule popped_calm [OF p])
  have bal: "int (lock_vals k0 l) + held (lock_holder k0 l) + lock_balance l (f # fs) \<le> 1" for l
    using lock_token_at(1) [OF k(1) [unfolded locks_ok_def], of l "running k0"] p by (simp add: popped_def)
  have fs0: "0 \<le> lock_balance l fs" for l using sn by (simp add: sane_balance)
  have calm: "calm k k' \<Longrightarrow> (\<And>l. lock_weight l f = 0) \<Longrightarrow> locks_ok k'"
    by (rule locks_step_calm [OF k p ys]) simp_all
  show ?thesis
  proof (cases f)
    case (SetLevel l)
    then show ?thesis using x calm calm_set_level [OF _ c0] by simp
  next
    case (KernelThread fn)
    obtain k1 where i: "intr_enable k = Some k1"
      and e: "k' = (case fn of IdleFn s \<Rightarrow> push (IdleInit s) k1 | StartProcess ok \<Rightarrow> push (Loaded ok) k1 | KernelFn \<Rightarrow> k1)"
      using x KernelThread by (auto simp: kernel_thread_def bind_eq_Some_conv)
    note q = intr_enable_fields [OF i]
    have e1: "ext k k1 [] (lock_vals k0) (lock_holder k0)" by (rule ext_same [OF e0]) (use q in simp_all)
    show ?thesis
    proof (cases fn)
      case (StartProcess ok)
      have bt: "ext k k' ([] @ [Loaded ok]) (lock_vals k0) (lock_holder k0)"
        unfolding e StartProcess using ext_push [OF e1, of "Loaded ok"] q by simp
      show ?thesis
        by (rule locks_step_bottom [OF k p ys bt]) (use sn KernelThread in simp_all)
    next
      case KernelFn
      have "calm k k1" by (rule calm_same [OF c0]) (use q in simp_all)
      then show ?thesis using calm e KernelFn KernelThread by simp
    qed (use ni KernelThread in simp)
  next
    case (SemaDownLoop s)
    show ?thesis
    proof (cases "lock_sema s")
      case True
      then obtain l where s: "s = LockSema l" by (auto simp: lock_sema_def)
      have d: "sema_down_loop (LockSema l) k = Some k'" using x SemaDownLoop s by simp
      have e: "if lock_vals k0 l = 0 then ext k k' [SemaDownLoop (LockSema l)] (lock_vals k0) (lock_holder k0)
          else ext k k' [] ((lock_vals k0)(l := lock_vals k0 l - 1)) (lock_holder k0)"
        by (rule ext_lock_down_loop [OF d e0]) (use nz in simp_all)
      show ?thesis
      proof (cases "lock_vals k0 l = 0")
        case True
        then have "ext k k' [SemaDownLoop (LockSema l)] (lock_vals k0) (lock_holder k0)" using e by simp
        then show ?thesis
          by (rule locks_step [OF k p]) (use SemaDownLoop s sn in simp_all)
      next
        case False
        then have "ext k k' [] ((lock_vals k0)(l := lock_vals k0 l - 1)) (lock_holder k0)" using e by simp
        then show ?thesis
        proof (rule locks_step [OF k p])
          show "int (((lock_vals k0)(l := lock_vals k0 l - 1)) m) + held (lock_holder k0 m) + lock_balance m [] =
              int (lock_vals k0 m) + held (lock_holder k0 m) + lock_balance m [f]" for m
            using False SemaDownLoop s by (cases "l = m") (simp_all add: of_nat_diff)
        qed (use sn in simp_all)
      qed
    next
      case False
      then show ?thesis
        using x SemaDownLoop nz calm calm_down_loop [of s k k' k] c0 by (auto simp: lock_sema_def)
    qed
  next
    case (LockAcquired l)
    have "k' = k\<lparr>lock_holder := (lock_holder k)(l := running k)\<rparr>"
      using x LockAcquired by (auto simp: lock_acquired_def thread_current_eq bind_eq_Some_conv split: if_splits)
    then have "stacks k' = stacks k" "lock_vals k' = lock_vals k" "threads k' = threads k"
      "lock_holder k' = (lock_holder k)(l := running k)"
      by (auto simp: stacks_def lock_vals_def)
    then have e: "ext k k' [] (lock_vals k0) ((lock_holder k0)(l := running k))"
      using e0 by (simp add: ext_def)
    have "lock_balance l (f # fs) = 1 + lock_balance l fs" using LockAcquired by simp
    then have h: "held (lock_holder k0 l) = 0"
      using bal [of l] fs0 [of l] held_ge(1) [of "lock_holder k0 l"] by linarith
    show ?thesis
    proof (rule locks_step [OF k p e])
      show "int (lock_vals k0 m) + held (((lock_holder k0)(l := running k)) m) + lock_balance m [] =
          int (lock_vals k0 m) + held (lock_holder k0 m) + lock_balance m [f]" for m
        using LockAcquired nz h by (cases "l = m") simp_all
    qed (use sn in simp_all)
  next
    case (LockReleaseUp l)
    have u: "sema_up (LockSema l) k = Some k'" using x LockReleaseUp by simp
    have "lock_balance l (f # fs) = 1 + lock_balance l fs" using LockReleaseUp by simp
    then have v0: "lock_vals k0 l = 0"
      using bal [of l] fs0 [of l] held_ge(1) [of "lock_holder k0 l"] by linarith
    obtain a b where "ext k k' (SetLevel a # SetLevel b # [])
        ((lock_vals k0)(l := (lock_vals k0 l + 1) mod 2 ^ 32)) (lock_holder k0)"
      using ext_lock_up [OF u e0 nz] by auto
    then have e: "ext k k' [SetLevel a, SetLevel b] ((lock_vals k0)(l := 1)) (lock_holder k0)" by (simp add: v0)
    show ?thesis
    proof (rule locks_step [OF k p e])
      show "int (((lock_vals k0)(l := 1)) m) + held (lock_holder k0 m) + lock_balance m [SetLevel a, SetLevel b] =
          int (lock_vals k0 m) + held (lock_holder k0 m) + lock_balance m [f]" for m
        using LockReleaseUp v0 by (cases "l = m") simp_all
      show "sane ([SetLevel a, SetLevel b] @ fs)" using sn fs0 by simp
    qed simp
  next
    case CondWaitDown
    then obtain t where "sema_down (CondWaiter t) k = Some k'" using x by (auto simp: cond_wait_down_def bind_eq_Some_conv)
    then have "calm k k'" by (rule calm_down [OF _ c0]) (use nz in simp_all)
    then show ?thesis using calm CondWaitDown by simp
  next
    case (CondWaitLock l)
    then have a: "lock_acquire l k = Some k'" using x by simp
    obtain lv where lv: "if lock_vals k0 l = 0
      then ext k k' (SemaDownLoop (LockSema l) # SetLevel lv # LockAcquired l # []) (lock_vals k0) (lock_holder k0)
      else ext k k' (SetLevel lv # LockAcquired l # []) ((lock_vals k0)(l := lock_vals k0 l - 1)) (lock_holder k0)"
      using ext_lock_acquire [OF a e0 nz refl] by blast
    show ?thesis by (rule locks_step_acquire [OF k p ys lv]) (simp_all add: CondWaitLock)
  next
    case (CondBroadcast cv l)
    have "cond_broadcast cv l k = Some k'" using x CondBroadcast by simp
    then have "calm k k'" by (rule calm_cond_broadcast [OF _ c0 nz refl])
    then show ?thesis using calm CondBroadcast by simp
  next
    case TidBump
    let ?k = "ret (next_tid k) (k\<lparr>next_tid := wrap32 (next_tid k + 1)\<rparr>)"
    have l: "lock_release tid_lock ?k = Some k'" using x TidBump by (simp add: tid_bump_def)
    have e1: "ext k ?k [] (lock_vals k0) (lock_holder k0)"
      by (intro ext_ret ext_same [OF e0]) simp_all
    have "running ?k = running k" by simp
    note q = ext_lock_release [OF l e1 this]
    show ?thesis
      by (rule locks_step_release [OF k p ys q(1)]) (use q(2) p TidBump in \<open>simp_all add: popped_def\<close>)
  next
    case (CreateRest t fn)
    then show ?thesis using locks_create_rest [OF k _ kw] p x c [OF CreateRest] by simp
  next
    case (StartRest s)
    then obtain k1 where i: "intr_enable k = Some k1" and d: "sema_down s k1 = Some k'"
      using x by (auto simp: start_rest_def bind_eq_Some_conv)
    note q = intr_enable_fields [OF i]
    have "calm k k1" by (rule calm_same [OF c0]) (use q in simp_all)
    then have "calm k k'" by (rule calm_down [OF d]) (use q nz sn StartRest in simp_all)
    then show ?thesis using calm StartRest by simp
  next
    case (ReturnVal v)
    then have "calm k k'" using x calm_ret [OF c0] by auto
    then show ?thesis using calm ReturnVal by simp
  next
    case ThreadExit
    have t: "thread_exit k = Some k'" using x ThreadExit by simp
    show ?thesis
      by (rule locks_thread_exit [OF k p ys _ _ t e0 refl]) (use sn ThreadExit in simp_all)
  next
    case ExitWait
    then consider "k' = push ExitTail k" | "thread_yield (push ExitWait k) = Some k'"
      using x by (auto simp: exit_wait_def bind_eq_Some_conv split: if_splits)
    then show ?thesis
    proof cases
      case 1
      have bt: "ext k k' ([] @ [ExitTail]) (lock_vals k0) (lock_holder k0)"
        unfolding 1 using ext_push [OF e0 refl] by simp
      show ?thesis by (rule locks_step_bottom [OF k p ys bt]) (use sn ExitWait in simp_all)
    next
      case 2
      have bt: "ext k k' ([SetLevel (intr_level_of (push ExitWait k))] @ [ExitWait]) (lock_vals k0) (lock_holder k0)"
        using ext_yield [OF 2 ext_push [OF e0 refl]] nz by simp
      show ?thesis by (rule locks_step_bottom [OF k p ys bt]) (use sn ExitWait in simp_all)
    qed
  next
    case ExitTail
    then show ?thesis using locks_exit_tail [OF k _ kw] p x by simp
  next
    case (Loaded ok)
    have "loaded ok k = Some k'" using x Loaded by simp
    then obtain th where "cur_thread k = Some th" and l: "(if \<not> ok then thread_exit (upd_thread (parent th) (\<lambda>p. p\<lparr>load_finish := True\<rparr>)
              (upd_thread (parent th) (\<lambda>p. p\<lparr>child_load_success := False\<rparr>) k))
             else Some (upd_thread (parent th) (\<lambda>p. p\<lparr>load_finish := True\<rparr>) k)) = Some k'"
      by (cases ok) (auto simp: loaded_def Let_def bind_eq_Some_conv)
    show ?thesis
    proof (cases ok)
      case True
      have "calm k (upd_thread (parent th) (\<lambda>p. p\<lparr>load_finish := True\<rparr>) k)" by (intro calmI c0) simp
      then show ?thesis using l calm Loaded True by simp
    next
      case False
      then have t: "thread_exit (upd_thread (parent th) (\<lambda>p. p\<lparr>load_finish := True\<rparr>)
              (upd_thread (parent th) (\<lambda>p. p\<lparr>child_load_success := False\<rparr>) k)) = Some k'" using l by simp
      show ?thesis
        by (rule locks_thread_exit [OF k p ys _ _ t])
          (use sn Loaded in \<open>auto intro!: ext_upd e0\<close>)
    qed
  next
    case ExecCreated
    then obtain v where v: "k' = push (ExecWaitLoad v) k" using x by (auto simp: exec_created_def bind_eq_Some_conv)
    have "calm k k'" unfolding v by (rule calm_push [OF c0]) simp_all
    then show ?thesis using calm ExecCreated by simp
  next
    case (ExecWaitLoad t)
    then consider "k' = ret t k" | "thread_yield (push (ExecWaitLoad t) k) = Some k'"
      using x by (auto simp: exec_wait_load_def bind_eq_Some_conv split: if_splits)
    then have "calm k k'"
    proof cases
      case 1
      then show ?thesis using calm_ret [OF c0] by simp
    next
      case 2
      show ?thesis by (rule calm_yield [OF 2 calm_push [OF c0 refl]]) (simp_all add: nz)
    qed
    then show ?thesis using calm ExecWaitLoad by simp
  next
    case ExecResult
    then have "k' = k \<or> k' = ret (- 1) k" using x by (auto simp: exec_result_def bind_eq_Some_conv split: if_splits)
    then have "calm k k'" using c0 calm_ret by auto
    then show ?thesis using calm ExecResult by simp
  next
    case (WaitChild ch)
    then have "calm k k'" using x calm_wait_child [OF _ c0 nz refl] by simp
    then show ?thesis using calm WaitChild by simp
  qed (use ni in simp_all)
qed

lemma locks_idle_frame:
  assumes k: "locks_ok k0" "kwf k0" "stack_ok k0" and r: "running k0 = idle_thread k0"
    and p: "popped k0 [f] fs k" and kw: "kwf k" and x: "exec_frame f k = Some k'"
  shows "locks_ok k'"
proof -
  have c0: "calm k k" by (rule popped_calm [OF p])
  have ids: "idle_stack (f # fs)"
    using k(3) p r by (auto simp: stack_ok_def popped_def stacks_def fr_def)
  have calm: "calm k k' \<Longrightarrow> (\<And>l. lock_weight l f = 0) \<Longrightarrow> locks_ok k'"
    by (rule locks_step_calm [OF k(1,2) p, of f]) simp_all
  show ?thesis
  proof (cases f)
    case (SetLevel l)
    then show ?thesis using x calm calm_set_level [OF _ c0] by simp
  next
    case IdleLoop
    have b: "thread_block (push IdleSti (intr_disable k)) = Some k'" using x IdleLoop by (simp add: idle_loop_def)
    have "calm k k'" by (rule calm_block [OF b]) (use kwf_nz [OF kw] c0 in \<open>auto intro!: calmI\<close>)
    then show ?thesis using calm IdleLoop by simp
  next
    case IdleSti
    obtain k2 where i: "intr_enable k = Some k2" and k': "k' = push IdleHalted k2"
      using x IdleSti by (auto simp: bind_eq_Some_conv)
    have "calm k k2" by (rule calm_same [OF c0]) (use intr_enable_fields [OF i] in simp_all)
    then have "calm k k'" unfolding k' by (rule calm_push) (use intr_enable_fields [OF i] in simp_all)
    then show ?thesis using calm IdleSti by simp
  next
    case IdleHalted
    then have "calm k k'" using x calm_push [OF c0 refl, of IdleLoop] by simp
    then show ?thesis using calm IdleHalted by simp
  qed (use ids in simp_all)
qed

lemma locks_call:
  assumes k: "locks_ok k" "safe k" and o: "in_own_code k" and p: "call_pre c k" and x: "call_fn c k = Some k'"
  shows "locks_ok k'"
proof -
  have kw: "kwf k" using k(2) by (simp add: safe_def)
  note nz = kwf_nz [OF kw]
  have pp: "popped k [] (stacks k (running k)) k" by (rule popped_none [OF kw])
  have fs: "set (stacks k (running k)) \<subseteq> {ThreadExit}"
    using o by (auto simp: in_own_code_def stacks_def split: option.splits)
  have e0: "ext k k [] (lock_vals k) (lock_holder k)" by (rule popped_ext [OF pp])
  have c0: "calm k k" by (rule popped_calm [OF pp])
  have ys: "[] = [] \<or> [] = [ThreadExit]" by simp
  have calm: "calm k k' \<Longrightarrow> locks_ok k'"
    by (rule locks_step_calm [OF k(1) kw pp ys]) simp_all
  show ?thesis
  proof (cases c)
    case (SemaDown s)
    then show ?thesis using x calm calm_down [OF _ c0 _ nz refl, of "Sema s"] by simp
  next
    case (SemaUp s)
    then show ?thesis using x calm calm_up [OF _ c0 _ nz refl, of "Sema s"] by simp
  next
    case (LockAcquire l)
    then have a: "lock_acquire l k = Some k'" using x by simp
    obtain lv where lv: "if lock_vals k l = 0
      then ext k k' (SemaDownLoop (LockSema l) # SetLevel lv # LockAcquired l # []) (lock_vals k) (lock_holder k)
      else ext k k' (SetLevel lv # LockAcquired l # []) ((lock_vals k)(l := lock_vals k l - 1)) (lock_holder k)"
      using ext_lock_acquire [OF a e0 nz refl] by blast
    show ?thesis by (rule locks_step_acquire [OF k(1) kw pp ys lv]) simp_all
  next
    case (LockRelease l)
    then have a: "lock_release l k = Some k'" using x by simp
    note q = ext_lock_release [OF a e0 refl]
    show ?thesis by (rule locks_step_release [OF k(1) kw pp ys q]) simp_all
  next
    case (CondWait cv l)
    then obtain ts k1 where k1: "k1 = set_cond cv ts (sema_init (CondWaiter (running k)) 0 k)"
      and l: "lock_release l (push CondWaitDown (push (CondWaitLock l) k1)) = Some k'"
      using x by (auto simp: cond_wait_def Let_def thread_current_eq bind_eq_Some_conv split: if_splits)
    have "ext k (sema_init (CondWaiter (running k)) 0 k) [] (lock_vals k) (lock_holder k)"
      unfolding sema_init_def by (rule ext_sema_same [OF e0]) simp
    then have e1: "ext k k1 [] (lock_vals k) (lock_holder k)"
      by (rule ext_same) (simp_all add: k1 set_cond_def)
    have r1: "running k1 = running k" by (simp add: k1 sema_init_def)
    have e2: "ext k (push CondWaitDown (push (CondWaitLock l) k1)) [CondWaitDown, CondWaitLock l]
        (lock_vals k) (lock_holder k)"
      by (intro ext_push e1) (simp_all add: r1)
    have "running (push CondWaitDown (push (CondWaitLock l) k1)) = running k" by (simp add: r1)
    note q = ext_lock_release [OF l e2 this]
    show ?thesis by (rule locks_step_release [OF k(1) kw pp ys q]) simp_all
  next
    case (CondSignal cv l)
    then show ?thesis using x calm calm_cond_signal [OF _ c0 nz refl] by simp
  next
    case (CondBcast cv l)
    then show ?thesis using x calm calm_cond_broadcast [OF _ c0 nz refl] by simp
  next
    case Yield
    then show ?thesis using x calm calm_yield [OF _ c0 nz refl] by simp
  next
    case (SetPriority q)
    then show ?thesis using x calm calm_set_priority [OF _ c0 nz refl] by simp
  next
    case (SetNice n)
    then show ?thesis using x calm calm_set_nice [OF _ c0 nz refl] by simp
  next
    case (Sleep n)
    then show ?thesis using x calm calm_timer_sleep [OF _ c0 nz refl] by simp
  next
    case (Create page name pri)
    have t: "\<And>t. page = Some t \<Longrightarrow> threads k t = None" using p Create by auto
    have c: "thread_create page name pri KernelFn k = Some k'" using x Create by simp
    show ?thesis by (rule locks_step_create [OF k(1) kw pp c e0 refl t]) simp_all
  next
    case (Exec page name ok)
    let ?k = "push ExecCreated (push ExecResult k)"
    have c: "thread_create page name PRI_DEFAULT (StartProcess ok) ?k = Some k'"
      using x Exec by (simp add: process_execute_def)
    have none: "threads (push g y) t = None" if "threads y t = None" for g y t
      using that by (cases "t = running y") (simp_all add: push_def)
    have t: "\<And>t. page = Some t \<Longrightarrow> threads ?k t = None" using p Exec none by auto
    have e: "ext k ?k [ExecCreated, ExecResult] (lock_vals k) (lock_holder k)" by (intro ext_push e0) simp_all
    show ?thesis by (rule locks_step_create [OF k(1) kw pp c e _ t]) simp_all
  next
    case (Wait t)
    then obtain y where "k' = ret (- 1) k \<or> k' = push (WaitChild y) k"
      using x by (auto simp: process_wait_def bind_eq_Some_conv split: option.splits)
    then have "calm k k'" using calm_ret [OF c0] calm_push [OF c0 refl, of "WaitChild y"] by auto
    then show ?thesis by (rule calm)
  next
    case (Exit v)
    let ?k = "upd_thread (running k) (\<lambda>th. th\<lparr>exit_status := v\<rparr>) k"
    have t: "thread_exit ?k = Some k'" using x Exit kwf_current [OF kw] by simp
    have e: "ext k ?k [] (lock_vals k) (lock_holder k)" by (rule ext_upd [OF e0]) simp
    show ?thesis by (rule locks_thread_exit [OF k(1) kw pp ys _ fs t e]) simp_all
  qed
qed

lemma kstep_locks:
  assumes s: "safe k" "locks_ok k" and st: "kstep k k'"
  shows "locks_ok k'"
  using st
proof cases
  case (step_frame f k1)
  have k: "kwf k" "stack_ok k" using s(1) by (simp_all add: safe_def)
  obtain fs where p: "popped k [f] fs k1" using step_frame(1) by (rule popped_frame)
  note q = pop_kwf [OF k(1) step_frame(1)]
  show ?thesis
  proof (cases "running k = idle_thread k")
    case True
    show ?thesis by (rule locks_idle_frame [OF s(2) k True p q(1) step_frame(2)])
  next
    case False
    show ?thesis
      by (rule locks_frame [OF s(2) k(1) p q(1) step_frame(2) pop_grow(2) [OF k(2) step_frame(1) False] q(5)])
  qed
next
  case (step_call c)
  then show ?thesis using locks_call [OF s(2,1)] by blast
next
  case step_tick
  have k: "kwf k" "prio_ok k" using s(1) by (simp_all add: safe_def)
  have "calm k k'" by (rule calm_timer_irq [OF step_tick(2) k])
  then show ?thesis by (intro locks_step_calm [OF s(2) k(1) popped_none [OF k(1)]]) simp_all
qed

lemma kreach_locks:
  "kreach k k' \<Longrightarrow> safe k \<Longrightarrow> locks_ok k \<Longrightarrow> safe k' \<and> locks_ok k'"
  by (induction rule: kreach.induct) (auto intro: kstep_safe kstep_locks)

section \<open>Mutual exclusion\<close>

text \<open>A thread owns a lock from the moment in which sema_down gives it the value until sema_up
  gives the value back.\<close>

definition owns :: "kstate \<Rightarrow> tptr \<Rightarrow> nat \<Rightarrow> bool" where
  "owns k t l \<longleftrightarrow> t \<noteq> 0 \<and> lock_holder k l = t \<or> 0 < lock_balance l (stacks k t)"

text \<open>The booted kernel satisfies the invariant.\<close>

lemma booted_locks: "locks_ok booted"
proof -
  have s: "stacks booted t = (if t = 8192 then [IdleSti, ThreadExit]
      else if t = 12288 then [KernelThread KernelFn, ThreadExit]
      else if t = 16384 then [SetLevel INTR_ON, ThreadExit] else [])" for t
    by (simp add: stacks_def)
  have "lock_balance l (stacks booted t) = 0" for l t by (simp add: s)
  then show ?thesis
    by (auto simp: locks_ok_def lock_ok_def lock_token_def lock_vals_def s)
qed

text \<open>C2: locks give mutual exclusion.  In every state that the kernel reaches, whatever its
  threads call and whenever the timer interrupts them, the semaphore of a lock is 0 or 1; when
  it is 1 nobody owns the lock; when it is 0 the lock has an owner and no two threads own it;
  and a thread that is about to record itself as the holder finds no holder.\<close>

theorem lock_mutual_exclusion:
  assumes "safe k" "locks_ok k" "kreach k k'"
  shows "sem_value (semas k' (LockSema l)) \<le> 1 \<and>
    (sem_value (semas k' (LockSema l)) = 1 \<longrightarrow> (\<forall>t. \<not> owns k' t l)) \<and>
    (sem_value (semas k' (LockSema l)) = 0 \<longrightarrow> (\<exists>!t. owns k' t l)) \<and>
    (\<forall>t fs. stacks k' t = LockAcquired l # fs \<longrightarrow>
       lock_holder k' l = 0 \<and> sem_value (semas k' (LockSema l)) = 0)"
proof -
  have k: "locks_ok k'" using kreach_locks [OF assms(3,1,2)] by simp
  note L = k [unfolded locks_ok_def]
  have v: "sem_value (semas k' (LockSema l)) = lock_vals k' l" by (simp add: lock_vals_def)
  let ?B = "\<lambda>t. lock_balance l (stacks k' t)" and ?h = "held (lock_holder k' l)" and ?v = "lock_vals k' l"
  have p: "0 \<le> ?B t" for t by (rule locks_okD(2) [OF k])
  have h: "0 \<le> ?h" by simp
  have le: "int ?v + ?h + ?B t \<le> 1" for t by (rule lock_token_at(1) [OF L])
  have two: "t \<noteq> u \<Longrightarrow> int ?v + ?h + ?B t + ?B u \<le> 1" for t u by (rule lock_token_at(3) [OF L])
  obtain t0 where t0: "int ?v + ?h + ?B t0 = 1" using lock_okD(2) [OF L, of l] by (auto simp: lock_token_def)
  have "?v \<le> 1" using le [of 0] p [of 0] h by linarith
  moreover have "\<not> owns k' t l" if "?v = 1" for t
    using le [of t] p [of t] that h by (auto simp: owns_def held_def split: if_splits)
  moreover have "\<exists>!t. owns k' t l" if z: "?v = 0"
  proof (cases "lock_holder k' l = 0")
    case True
    show ?thesis
    proof (rule ex1I)
      show "owns k' t0 l" using t0 z True by (simp add: owns_def)
      show "u = t0" if "owns k' u l" for u
        using that two [of u t0] t0 z True by (cases "u = t0") (auto simp: owns_def)
    qed
  next
    case False
    then have b: "?B t = 0" for t using le [of t] p [of t] z by simp
    show ?thesis using False by (auto simp: owns_def b)
  qed
  moreover have "lock_holder k' l = 0 \<and> ?v = 0" if s: "stacks k' t = LockAcquired l # fs" for t fs
  proof -
    have "0 \<le> lock_balance l fs" using locks_okD(1) [OF k, of t] s by (simp add: sane_balance)
    then have "1 \<le> ?B t" by (simp add: s)
    then have "?h = 0 \<and> ?v = 0" using le [of t] h by linarith
    then show ?thesis by (simp add: held_def split: if_splits)
  qed
  ultimately show ?thesis unfolding v by blast
qed

theorem lock_mutual_exclusion_witness:
  "\<exists>k'. kstep booted k' \<and> sem_value (semas k' (LockSema 3)) = 0 \<and> (\<exists>!t. owns k' t 3)"
proof -
  have "\<exists>k'. lock_acquire 3 booted = Some k' \<and> sem_value (semas k' (LockSema 3)) = 0"
    by (simp add: lock_acquire_def lock_held_by_current_thread_def thread_current_def sema_down_def
        sema_down_loop_def Let_def)
  then obtain k' where a: "lock_acquire 3 booted = Some k'" "sem_value (semas k' (LockSema 3)) = 0" by blast
  have s: "kstep booted k'"
    by (rule step_call [where c = "LockAcquire 3"]) (simp_all add: in_own_code_def a)
  have "kreach booted k'" by (rule kreach_step [OF kreach_refl s])
  from lock_mutual_exclusion [OF booted_safe booted_locks this, of 3] s a show ?thesis by blast
qed

end
