(* ===== verification/Stdio.thy ===== *)
theory Stdio
  imports KStdlib
begin

text \<open>
  Formatted output: lib/stdio.c.  A format is the list of its bytes up to the null byte, and a
  pointer into it is the rest of the list; the empty rest points to the null byte, and nothing
  lies behind it.  Variable arguments are the 32-bit slots of the caller's stack; a 64-bit
  argument takes two of them, the low half first.  The output function is called once for every
  byte, so that __vprintf is modelled by the bytes that it outputs, in order, and vsnprintf
  by feeding them to its helper.  None stands for an access outside an object.
\<close>

abbreviation (input) asc :: "char \<Rightarrow> byte" where "asc c \<equiv> of_char c"

definition bytes :: "string \<Rightarrow> byte list" where
  "bytes s = map of_char s"

section \<open>Conversion specifications\<close>

datatype flag = MINUS | PLUS | SPACE | POUND | ZERO | GROUP

datatype int_type = CHAR_T | SHORT_T | INT_T | INTMAX_T | LONG_T | LONGLONG_T | PTRDIFFT_T | SIZET_T

record printf_conversion =
  flags :: "flag set"
  width :: int
  precision :: int
  ctype :: int_type

text \<open>What the pointer into the format points to.\<close>

definition deref :: "byte list \<Rightarrow> byte" where
  "deref f = (case f of [] \<Rightarrow> 0 | c # _ \<Rightarrow> c)"

definition flag_of :: "byte \<Rightarrow> flag option" where
  "flag_of c =
     (if c = asc CHR ''-'' then Some MINUS
      else if c = asc CHR ''+'' then Some PLUS
      else if c = asc CHR '' '' then Some SPACE
      else if c = asc CHR ''#'' then Some POUND
      else if c = asc CHR ''0'' then Some ZERO
      else if c = 39 then Some GROUP
      else None)"

fun parse_flags :: "byte list \<Rightarrow> flag set \<Rightarrow> byte list \<times> flag set" where
  "parse_flags [] fl = ([], fl)"
| "parse_flags (c # f) fl =
     (case flag_of c of None \<Rightarrow> (c # f, fl) | Some x \<Rightarrow> parse_flags f (insert x fl))"

fun parse_number :: "byte list \<Rightarrow> int \<Rightarrow> byte list \<times> int" where
  "parse_number [] v = ([], v)"
| "parse_number (c # f) v =
     (if isdigit (sint c) then parse_number f (wrap32 (v * 10 + sint c - 48)) else (c # f, v))"

definition va_int :: "32 word list \<Rightarrow> (32 word \<times> 32 word list) option" where
  "va_int args = (case args of [] \<Rightarrow> None | a # as \<Rightarrow> Some (a, as))"

definition va_int64 :: "32 word list \<Rightarrow> (64 word \<times> 32 word list) option" where
  "va_int64 args = (case args of lo # hi # as \<Rightarrow> Some (word_of_int (uint lo + uint hi * 2 ^ 32), as) | _ \<Rightarrow> None)"

text \<open>A number, or the next argument for a star.\<close>

definition parse_width :: "byte list \<Rightarrow> 32 word list \<Rightarrow> (byte list \<times> int \<times> 32 word list) option" where
  "parse_width f args =
     (if deref f = asc CHR ''*'' then do { (a, args) \<leftarrow> va_int args; Some (tl f, sint a, args) }
      else (let (f, v) = parse_number f 0 in Some (f, v, args)))"

definition parse_precision :: "byte list \<Rightarrow> 32 word list \<Rightarrow> (byte list \<times> int \<times> 32 word list) option" where
  "parse_precision f args =
     (if deref f = asc CHR ''.'' then do {
        (f, p, args) \<leftarrow> parse_width (tl f) args;
        Some (f, if p < 0 then - 1 else p, args)
      }
      else Some (f, - 1, args))"

definition parse_type :: "byte list \<Rightarrow> byte list \<times> int_type" where
  "parse_type f =
     (let c = deref f; f' = tl f in
      if c = asc CHR ''h'' then (if deref f' = asc CHR ''h'' then (tl f', CHAR_T) else (f', SHORT_T))
      else if c = asc CHR ''j'' then (f', INTMAX_T)
      else if c = asc CHR ''l'' then (if deref f' = asc CHR ''l'' then (tl f', LONGLONG_T) else (f', LONG_T))
      else if c = asc CHR ''t'' then (f', PTRDIFFT_T)
      else if c = asc CHR ''z'' then (f', SIZET_T)
      else (f, INT_T))"

definition parse_conversion ::
    "byte list \<Rightarrow> 32 word list \<Rightarrow> (byte list \<times> printf_conversion \<times> 32 word list) option" where
  "parse_conversion f args = do {
     let (f, fl) = parse_flags f {};
     let fl = (if MINUS \<in> fl then fl - {ZERO} else fl);
     let fl = (if PLUS \<in> fl then fl - {SPACE} else fl);
     (f, w, args) \<leftarrow> parse_width f args;
     let fl = (if w < 0 then insert MINUS fl else fl);
     let w = (if w < 0 then wrap32 (- w) else w);
     (f, p, args) \<leftarrow> parse_precision f args;
     let fl = (if p \<ge> 0 then fl - {ZERO} else fl);
     let (f, ty) = parse_type f;
     Some (f, \<lparr>flags = fl, width = w, precision = p, ctype = ty\<rparr>, args)
   }"

section \<open>Integers\<close>

record integer_base =
  base :: nat
  digits :: "byte list"
  xchar :: byte
  group :: nat

definition base_d :: integer_base where
  "base_d = \<lparr>base = 10, digits = bytes ''0123456789'', xchar = 0, group = 3\<rparr>"
definition base_o :: integer_base where
  "base_o = \<lparr>base = 8, digits = bytes ''01234567'', xchar = 0, group = 3\<rparr>"
definition base_x :: integer_base where
  "base_x = \<lparr>base = 16, digits = bytes ''0123456789abcdef'', xchar = asc CHR ''x'', group = 4\<rparr>"
definition base_X :: integer_base where
  "base_X = \<lparr>base = 16, digits = bytes ''0123456789ABCDEF'', xchar = asc CHR ''X'', group = 4\<rparr>"

text \<open>The 64 bytes of buf: cp is the length of the list, and a store past the end is None.\<close>

definition buf_put :: "byte list \<Rightarrow> byte \<Rightarrow> byte list option" where
  "buf_put buf c = (if length buf < 64 then Some (buf @ [c]) else None)"

text \<open>The digits, the last one first.\<close>

partial_function (option) digits_loop ::
    "integer_base \<Rightarrow> bool \<Rightarrow> nat \<Rightarrow> nat \<Rightarrow> byte list \<Rightarrow> byte list option" where
  "digits_loop b grp value cnt buf =
     (if value > 0 then do {
        buf \<leftarrow> (if grp \<and> cnt > 0 \<and> cnt mod group b = 0 then buf_put buf (asc CHR '','') else Some buf);
        buf \<leftarrow> buf_put buf (digits b ! (value mod base b));
        digits_loop b grp (value div base b) (cnt + 1) buf
      }
      else Some buf)"

declare digits_loop.simps [code]

partial_function (option) pad_precision :: "int \<Rightarrow> byte list \<Rightarrow> byte list option" where
  "pad_precision p buf =
     (if int (length buf) < p \<and> length buf < 63 then do {
        buf \<leftarrow> buf_put buf (asc CHR ''0'');
        pad_precision p buf
      }
      else Some buf)"

declare pad_precision.simps [code]

fun output_dup :: "byte \<Rightarrow> nat \<Rightarrow> byte list" where
  "output_dup c 0 = []"
| "output_dup c (Suc n) = c # output_dup c n"

definition sign_char :: "bool \<Rightarrow> bool \<Rightarrow> flag set \<Rightarrow> byte" where
  "sign_char is_signed negative fl =
     (if is_signed
      then if PLUS \<in> fl then (if negative then asc CHR ''-'' else asc CHR ''+'')
           else if SPACE \<in> fl then (if negative then asc CHR ''-'' else asc CHR '' '')
           else if negative then asc CHR ''-'' else 0
      else 0)"

definition format_integer ::
    "nat \<Rightarrow> bool \<Rightarrow> bool \<Rightarrow> integer_base \<Rightarrow> printf_conversion \<Rightarrow> byte list option" where
  "format_integer value is_signed negative b c = do {
     let sign = sign_char is_signed negative (flags c);
     let x = (if POUND \<in> flags c \<and> value \<noteq> 0 then xchar b else 0);
     buf \<leftarrow> digits_loop b (GROUP \<in> flags c) value 0 [];
     let precision = (if precision c < 0 then 1 else precision c);
     buf \<leftarrow> pad_precision precision buf;
     buf \<leftarrow> (if POUND \<in> flags c \<and> base b = 8 \<and> (buf = [] \<or> List.last buf \<noteq> asc CHR ''0'')
            then buf_put buf (asc CHR ''0'') else Some buf);
     let pad_cnt = wrap32 (width c - int (length buf) - (if x \<noteq> 0 then 2 else 0) - (if sign \<noteq> 0 then 1 else 0));
     let pad_cnt = (if pad_cnt < 0 then 0 else pad_cnt);
     Some ((if flags c \<inter> {MINUS, ZERO} = {} then output_dup (asc CHR '' '') (nat pad_cnt) else []) @
           (if sign \<noteq> 0 then [sign] else []) @
           (if x \<noteq> 0 then [asc CHR ''0'', x] else []) @
           (if ZERO \<in> flags c then output_dup (asc CHR ''0'') (nat pad_cnt) else []) @
           rev buf @
           (if MINUS \<in> flags c then output_dup (asc CHR '' '') (nat pad_cnt) else []))
   }"

section \<open>Strings\<close>

text \<open>The loop over the characters of the string, which \<open>rd\<close> reads.\<close>

fun string_loop :: "(nat \<Rightarrow> byte option) \<Rightarrow> nat \<Rightarrow> nat \<Rightarrow> byte list option" where
  "string_loop rd i 0 = Some []"
| "string_loop rd i (Suc n) = do { c \<leftarrow> rd i; out \<leftarrow> string_loop rd (i + 1) n; Some (c # out) }"

definition format_string :: "(nat \<Rightarrow> byte option) \<Rightarrow> int \<Rightarrow> printf_conversion \<Rightarrow> byte list option" where
  "format_string rd len c = do {
     body \<leftarrow> string_loop rd 0 (nat len);
     Some ((if width c > len \<and> MINUS \<notin> flags c then output_dup (asc CHR '' '') (nat (width c - len)) else []) @
           body @
           (if width c > len \<and> MINUS \<in> flags c then output_dup (asc CHR '' '') (nat (width c - len)) else []))
   }"

text \<open>A string literal in a memory of its own, at address 1.\<close>

definition literal :: "string \<Rightarrow> mem" where
  "literal s a = (if 1 \<le> a \<and> a \<le> length s + 1 then Some ((bytes s @ [0]) ! (a - 1)) else None)"

definition conv_string :: "mem \<Rightarrow> nat \<Rightarrow> printf_conversion \<Rightarrow> byte list option" where
  "conv_string m s c = do {
     let (m, s) = (if s = 0 then (literal ''(null)'', 1) else (m, s));
     n \<leftarrow> strnlen m s (nat (precision c mod 2 ^ 32));
     format_string (\<lambda>i. m (s + i)) (wrap32 (int n)) c
   }"

section \<open>The conversions\<close>

text \<open>The value of a signed conversion (an intmax_t) and of an unsigned one (a uintmax_t).\<close>

definition signed_arg :: "int_type \<Rightarrow> 32 word list \<Rightarrow> (int \<times> 32 word list) option" where
  "signed_arg ty args =
     (case ty of
        CHAR_T \<Rightarrow> map_option (\<lambda>(a, as). (signed_take_bit 7 (uint a), as)) (va_int args)
      | SHORT_T \<Rightarrow> map_option (\<lambda>(a, as). (signed_take_bit 15 (uint a), as)) (va_int args)
      | INTMAX_T \<Rightarrow> map_option (\<lambda>(a, as). (sint a, as)) (va_int64 args)
      | LONGLONG_T \<Rightarrow> map_option (\<lambda>(a, as). (sint a, as)) (va_int64 args)
      | SIZET_T \<Rightarrow> map_option (\<lambda>(a, as). (if uint a > (2 ^ 32 - 1) div 2 then uint a - (2 ^ 32 - 1) - 1 else uint a, as))
                   (va_int args)
      | _ \<Rightarrow> map_option (\<lambda>(a, as). (sint a, as)) (va_int args))"

definition unsigned_arg :: "int_type \<Rightarrow> 32 word list \<Rightarrow> (nat \<times> 32 word list) option" where
  "unsigned_arg ty args =
     (case ty of
        CHAR_T \<Rightarrow> map_option (\<lambda>(a, as). (unat a mod 2 ^ 8, as)) (va_int args)
      | SHORT_T \<Rightarrow> map_option (\<lambda>(a, as). (unat a mod 2 ^ 16, as)) (va_int args)
      | INTMAX_T \<Rightarrow> map_option (\<lambda>(a, as). (unat a, as)) (va_int64 args)
      | LONGLONG_T \<Rightarrow> map_option (\<lambda>(a, as). (unat a, as)) (va_int64 args)
      | PTRDIFFT_T \<Rightarrow> map_option (\<lambda>(a, as). (nat (sint a mod 2 ^ 64) mod 2 ^ 32, as)) (va_int args)
      | _ \<Rightarrow> map_option (\<lambda>(a, as). (unat a, as)) (va_int args))"

text \<open>The cases of __vprintf's switch: the output and the arguments that are left.  The two
  messages are what __printf makes of their formats (lemma \<open>no_conversion_text\<close>).\<close>

definition convert :: "mem \<Rightarrow> byte \<Rightarrow> printf_conversion \<Rightarrow> 32 word list \<Rightarrow> (byte list \<times> 32 word list) option" where
  "convert m f c args =
     (if f = asc CHR ''d'' \<or> f = asc CHR ''i'' then do {
        (v, args) \<leftarrow> signed_arg (ctype c) args;
        out \<leftarrow> format_integer (nat ((if v < 0 then - v else v) mod 2 ^ 64)) True (v < 0) base_d c;
        Some (out, args)
      }
      else if f \<in> {asc CHR ''o'', asc CHR ''u'', asc CHR ''x'', asc CHR ''X''} then do {
        (v, args) \<leftarrow> unsigned_arg (ctype c) args;
        let b = (if f = asc CHR ''o'' then base_o else if f = asc CHR ''u'' then base_d
                 else if f = asc CHR ''x'' then base_x else base_X);
        out \<leftarrow> format_integer v False False b c;
        Some (out, args)
      }
      else if f = asc CHR ''c'' then do {
        (a, args) \<leftarrow> va_int args;
        out \<leftarrow> format_string (\<lambda>i. if i = 0 then Some (ucast a) else None) 1 c;
        Some (out, args)
      }
      else if f = asc CHR ''s'' then do {
        (a, args) \<leftarrow> va_int args;
        out \<leftarrow> conv_string m (unat a) c;
        Some (out, args)
      }
      else if f = asc CHR ''p'' then do {
        (a, args) \<leftarrow> va_int args;
        out \<leftarrow> format_integer (unat a) False False base_x (c\<lparr>flags := {POUND}\<rparr>);
        Some (out, args)
      }
      else if f \<in> {asc CHR ''f'', asc CHR ''e'', asc CHR ''E'', asc CHR ''g'', asc CHR ''G'', asc CHR ''n''}
      then Some (bytes ''<<no %'' @ [f] @ bytes '' in kernel>>'', args)
      else Some (bytes ''<<no %'' @ [f] @ bytes '' conversion>>'', args))"

lemma parse_flags_length: "parse_flags f fl = (f', fl') \<Longrightarrow> length f' \<le> length f"
  by (induction f fl rule: parse_flags.induct) (auto split: option.splits dest: le_SucI)

lemma parse_number_length: "parse_number f v = (f', v') \<Longrightarrow> length f' \<le> length f"
  by (induction f v rule: parse_number.induct) (auto split: if_splits dest: le_SucI)

lemma parse_width_length: "parse_width f args = Some (f', w, args') \<Longrightarrow> length f' \<le> length f"
  by (auto simp: parse_width_def bind_eq_Some_conv split: if_splits prod.splits dest: parse_number_length)

lemma parse_precision_length: "parse_precision f args = Some (f', w, args') \<Longrightarrow> length f' \<le> length f"
  by (auto simp: parse_precision_def bind_eq_Some_conv split: if_splits prod.splits dest!: parse_width_length)

lemma parse_type_length: "parse_type f = (f', ty) \<Longrightarrow> length f' \<le> length f"
  by (auto simp: parse_type_def Let_def split: if_splits)

lemma parse_conversion_length:
  assumes "parse_conversion f args = Some (f', c, args')"
  shows "length f' \<le> length f"
proof -
  obtain f1 fl where 1: "parse_flags f {} = (f1, fl)" by force
  obtain f2 w a2 f3 p a3 where 2: "parse_width f1 args = Some (f2, w, a2)" "parse_precision f2 a2 = Some (f3, p, a3)"
    using assms by (auto simp: parse_conversion_def 1 Let_def bind_eq_Some_conv)
  obtain ty where "parse_type f3 = (f', ty)"
    using assms by (cases "parse_type f3") (auto simp: parse_conversion_def 1 2 Let_def)
  then show ?thesis
    using parse_flags_length [OF 1] parse_width_length [OF 2(1)] parse_precision_length [OF 2(2)]
      parse_type_length by fastforce
qed

text \<open>The loop of __vprintf.  After a conversion the format is stepped over its last character;
  when that is the null byte the next read is behind the format.\<close>

function vprintf :: "mem \<Rightarrow> byte list \<Rightarrow> 32 word list \<Rightarrow> byte list option" where
  "vprintf m f args =
     (case f of
        [] \<Rightarrow> Some []
      | c # f1 \<Rightarrow>
          if c \<noteq> asc CHR ''%'' then map_option ((#) c) (vprintf m f1 args)
          else if deref f1 = asc CHR ''%'' then map_option ((#) (asc CHR ''%'')) (vprintf m (tl f1) args)
          else (case parse_conversion f1 args of
                  None \<Rightarrow> None
                | Some (f2, cv, args) \<Rightarrow>
                    (case convert m (deref f2) cv args of
                       None \<Rightarrow> None
                     | Some (out, args) \<Rightarrow>
                         (if f2 = [] then None else map_option ((@) out) (vprintf m (tl f2) args)))))"
  by pat_completeness auto
termination
proof (relation "measure (\<lambda>(m, f, args). length f)", goal_cases)
  case (4 m f args c f1 x f2 y cv args1 z out args2)
  then show ?case using parse_conversion_length [of f1 args f2 cv args1] by auto
qed auto

declare vprintf.simps [simp del]

section \<open>Into a buffer\<close>

record vsnprintf_aux =
  auxp :: nat
  auxlen :: int
  auxmax :: int

definition vsnprintf_helper :: "byte \<Rightarrow> mem \<times> vsnprintf_aux \<Rightarrow> (mem \<times> vsnprintf_aux) option" where
  "vsnprintf_helper c s = (case s of (m, aux) \<Rightarrow>
     (if auxlen aux < auxmax aux
      then do { m \<leftarrow> wr m (auxp aux) c; Some (m, aux\<lparr>auxlen := wrap32 (auxlen aux + 1), auxp := auxp aux + 1\<rparr>) }
      else Some (m, aux\<lparr>auxlen := wrap32 (auxlen aux + 1)\<rparr>)))"

fun output_all :: "byte list \<Rightarrow> mem \<times> vsnprintf_aux \<Rightarrow> (mem \<times> vsnprintf_aux) option" where
  "output_all [] s = Some s"
| "output_all (c # cs) s = do { s \<leftarrow> vsnprintf_helper c s; output_all cs s }"

text \<open>The result: the returned length and the memory.  The arguments are read before the output
  is stored: the strings must not lie in the buffer.\<close>

definition vsnprintf :: "mem \<Rightarrow> nat \<Rightarrow> nat \<Rightarrow> byte list \<Rightarrow> 32 word list \<Rightarrow> (int \<times> mem) option" where
  "vsnprintf m buffer buf_size f args = do {
     out \<leftarrow> vprintf m f args;
     (m, aux) \<leftarrow> output_all out (m, \<lparr>auxp = buffer, auxlen = 0,
        auxmax = (if buf_size > 0 then wrap32 (int buf_size - 1) else 0)\<rparr>);
     m \<leftarrow> (if buf_size > 0 then wr m (auxp aux) 0 else Some m);
     Some (auxlen aux, m)
   }"

definition snprintf :: "mem \<Rightarrow> nat \<Rightarrow> nat \<Rightarrow> byte list \<Rightarrow> 32 word list \<Rightarrow> (int \<times> mem) option" where
  "snprintf m buffer buf_size f args = vsnprintf m buffer buf_size f args"

section \<open>Dumps and sizes\<close>

text \<open>printf's output to the console is the list of its bytes.\<close>

definition arg64 :: "64 word \<Rightarrow> 32 word list" where
  "arg64 v = [ucast v, ucast (drop_bit 32 v)]"

fun print_all :: "(string \<times> 32 word list) list \<Rightarrow> byte list option" where
  "print_all [] = Some []"
| "print_all ((f, args) # ps) = do {
     out \<leftarrow> vprintf (\<lambda>_. None) (bytes f) args;
     rest \<leftarrow> print_all ps;
     Some (out @ rest)
   }"

text \<open>One line of hex_dump: \<open>start\<close> and \<open>fin\<close> (the source's end) bound the columns used.\<close>

definition hex_line :: "32 word \<Rightarrow> byte list \<Rightarrow> nat \<Rightarrow> nat \<Rightarrow> bool \<Rightarrow> byte list option" where
  "hex_line ofs buf start fin ascii = print_all (
     [(''%08jx  '', arg64 (ucast (ofs div 16 * 16)))] @
     replicate start (''   '', []) @
     map (\<lambda>i. (''%02hhx%c'', [ucast (buf ! (i - start)), if i = 7 then ucast (asc CHR ''-'') else 32])) [start..<fin] @
     (if ascii then
        replicate (16 - fin) (''   '', []) @
        [(''|'', [])] @
        replicate start ('' '', []) @
        map (\<lambda>i. (''%c'', [if isprint (uint (buf ! (i - start))) then ucast (buf ! (i - start)) else ucast (asc CHR ''.'')]))
          [start..<fin] @
        replicate (16 - fin) ('' '', []) @
        [(''|'', [])]
      else []) @
     [([CHR 0x0A], [])])"

function hex_dump :: "32 word \<Rightarrow> byte list \<Rightarrow> bool \<Rightarrow> byte list option" where
  "hex_dump ofs buf ascii =
     (if buf = [] then Some []
      else do {
        let start = unat (ofs mod 16);
        let fin = (if 16 - start > length buf then start + length buf else 16);
        line \<leftarrow> hex_line ofs buf start fin ascii;
        rest \<leftarrow> hex_dump (ofs + of_nat (fin - start)) (drop (fin - start) buf) ascii;
        Some (line @ rest)
      })"
  by pat_completeness auto
termination
proof (relation "measure (\<lambda>(ofs, buf, ascii). length buf)", goal_cases)
  case (2 ofs buf ascii start fin line)
  have "unat (ofs mod 16) < 16" by (simp add: unat_mod)
  then show ?case using 2 by auto
qed simp

declare hex_dump.simps [simp del]

definition factors :: "string list" where
  "factors = [''bytes'', ''kB'', ''MB'', ''GB'', ''TB'']"

fun size_loop :: "64 word \<Rightarrow> string list \<Rightarrow> 64 word \<times> string" where
  "size_loop sz [] = (sz, [])"
| "size_loop sz [fp] = (sz, fp)"
| "size_loop sz (fp # fq # fps) = (if sz \<ge> 1024 then size_loop (sz div 1024) (fq # fps) else (sz, fp))"

definition print_human_readable_size :: "64 word \<Rightarrow> byte list option" where
  "print_human_readable_size sz =
     (if sz = 1 then vprintf (\<lambda>_. None) (bytes ''1 byte'') []
      else (let (n, fp) = size_loop sz factors in
        vprintf (literal fp) (bytes ''%llu %s'') (arg64 n @ [1])))"

section \<open>Integers: no overflow of the buffer\<close>

definition base_ok :: "integer_base \<Rightarrow> bool" where
  "base_ok b \<longleftrightarrow> b \<in> {base_d, base_o, base_x, base_X}"

lemma base_ok_ge: "base_ok b \<Longrightarrow> 8 \<le> base b"
  by (auto simp: base_ok_def base_d_def base_o_def base_x_def base_X_def)

lemma digits_loop_total:
  "8 \<le> base b \<Longrightarrow> v < 8 ^ k \<Longrightarrow> length buf + 2 * k \<le> 63 \<Longrightarrow>
   \<exists>ds. digits_loop b g v cnt buf = Some (buf @ ds) \<and> length ds \<le> 2 * k \<and> (v > 0 \<longrightarrow> ds \<noteq> [])"
proof (induction k arbitrary: v cnt buf)
  case 0
  then show ?case by (subst digits_loop.simps) simp
next
  case (Suc k)
  show ?case
  proof (cases "v > 0")
    case False
    then show ?thesis by (subst digits_loop.simps) simp
  next
    case True
    define sep where "sep = (if g \<and> cnt > 0 \<and> cnt mod group b = 0 then [asc CHR '','' :: byte] else [])"
    define d where "d = digits b ! (v mod base b)"
    have ls: "length sep \<le> 1" by (simp add: sep_def)
    have "v div base b \<le> v div 8" using Suc.prems(1) by (simp add: div_le_mono2)
    also have "\<dots> < 8 ^ k" using Suc.prems(2) by (simp add: less_mult_imp_div_less mult.commute)
    finally have v: "v div base b < 8 ^ k" .
    have l: "length (buf @ sep @ [d]) + 2 * k \<le> 63" using Suc.prems(3) ls by simp
    obtain ds where ds: "digits_loop b g (v div base b) (cnt + 1) (buf @ sep @ [d]) = Some ((buf @ sep @ [d]) @ ds)"
      "length ds \<le> 2 * k"
      using Suc.IH [OF Suc.prems(1) v l, of "cnt + 1"] by blast
    have "digits_loop b g v cnt buf = digits_loop b g (v div base b) (cnt + 1) (buf @ sep @ [d])"
      using True Suc.prems(3) by (subst digits_loop.simps) (simp add: buf_put_def sep_def d_def)
    then show ?thesis using ds ls by (intro exI [of _ "sep @ [d] @ ds"]) simp
  qed
qed

lemma pad_precision_total:
  "length buf + k = 63 \<Longrightarrow> \<exists>buf'. pad_precision p buf = Some buf' \<and> length buf' \<le> 63"
proof (induction k arbitrary: buf)
  case 0
  then show ?case by (subst pad_precision.simps) simp
next
  case (Suc k)
  show ?case
  proof (cases "int (length buf) < p")
    case True
    have "\<exists>buf'. pad_precision p (buf @ [asc CHR ''0'']) = Some buf' \<and> length buf' \<le> 63"
      by (rule Suc.IH) (use Suc.prems in simp)
    then show ?thesis using True Suc.prems by (subst pad_precision.simps) (simp add: buf_put_def)
  next
    case False
    then show ?thesis using Suc.prems by (subst pad_precision.simps) simp
  qed
qed

lemma format_integer_total:
  assumes "base_ok b" "v < 2 ^ 64"
  shows "\<exists>out. format_integer v s n b c = Some out"
proof -
  have "v < 8 ^ 22" using assms(2) by simp
  then obtain ds where ds: "digits_loop b (GROUP \<in> flags c) v 0 [] = Some ds" "length ds \<le> 44"
    using digits_loop_total [OF base_ok_ge [OF assms(1)], of v 22 "[]" "GROUP \<in> flags c" 0] by auto
  define p where "p = (if precision c < 0 then 1 else precision c)"
  obtain buf where "pad_precision p ds = Some buf" "length buf \<le> 63"
    using pad_precision_total [of ds "63 - length ds" p] ds(2) by auto
  then show ?thesis by (simp add: format_integer_def ds(1) Let_def buf_put_def flip: p_def)
qed

section \<open>Decimal numbers\<close>

lemma byte_digit: "d < 10 \<Longrightarrow> sint (bytes ''0123456789'' ! d) - 48 = int d \<and> digit (bytes ''0123456789'' ! d)"
proof -
  assume "d < 10"
  then have "d \<in> {0,1,2,3,4,5,6,7,8,9}" by auto
  then show ?thesis by (auto simp: bytes_def digit_def isdigit_def)
qed

lemma digits_loop_decimal:
  "v < 10 ^ k \<Longrightarrow> length buf + k \<le> 63 \<Longrightarrow>
   \<exists>ds. digits_loop base_d False v cnt buf = Some (buf @ ds) \<and> (\<forall>c \<in> set ds. digit c) \<and>
     decimal (rev ds) = int v \<and> (v > 0 \<longrightarrow> ds \<noteq> []) \<and> length ds \<le> k"
proof (induction k arbitrary: v cnt buf)
  case 0
  then show ?case by (subst digits_loop.simps) simp
next
  case (Suc k)
  show ?case
  proof (cases "v > 0")
    case False
    then show ?thesis by (subst digits_loop.simps) simp
  next
    case True
    define d where "d = bytes ''0123456789'' ! (v mod 10)"
    have d: "sint d - 48 = int (v mod 10)" "digit d" using byte_digit [of "v mod 10"] by (simp_all add: d_def)
    have v: "v div 10 < 10 ^ k" using Suc.prems(1) by (simp add: less_mult_imp_div_less mult.commute)
    obtain ds where ds: "digits_loop base_d False (v div 10) (cnt + 1) (buf @ [d]) = Some ((buf @ [d]) @ ds)"
      "\<forall>c \<in> set ds. digit c" "decimal (rev ds) = int (v div 10)" "length ds \<le> k"
      using Suc.IH [OF v, of "buf @ [d]" "cnt + 1"] Suc.prems(2) by auto
    have "digits_loop base_d False v cnt buf = digits_loop base_d False (v div 10) (cnt + 1) (buf @ [d])"
      using True Suc.prems(2) by (subst digits_loop.simps) (simp add: buf_put_def d_def base_d_def)
    then have "digits_loop base_d False v cnt buf = Some (buf @ (d # ds))" using ds(1) by simp
    moreover have "decimal (rev (d # ds)) = int v"
    proof -
      have "decimal (rev (d # ds)) = int (v div 10) * 10 + int (v mod 10)" using ds(3) d(1) by simp
      also have "\<dots> = int (v div 10 * 10 + v mod 10)" by (simp only: of_nat_add of_nat_mult of_nat_numeral)
      finally show ?thesis by simp
    qed
    ultimately show ?thesis using ds d(2) by (intro exI [of _ "d # ds"]) auto
  qed
qed

section \<open>The buffer of vsnprintf\<close>

lemma output_all_full:
  "M \<le> L \<Longrightarrow> 0 \<le> L \<Longrightarrow> L + int (length out) < 2 ^ 31 \<Longrightarrow>
   output_all out (m, \<lparr>auxp = q, auxlen = L, auxmax = M\<rparr>) =
     Some (m, \<lparr>auxp = q, auxlen = L + int (length out), auxmax = M\<rparr>)"
proof (induction out arbitrary: L)
  case (Cons c cs)
  have "wrap32 (L + 1) = L + 1" using Cons.prems by (intro wrap32_id) auto
  then show ?case using Cons.prems Cons.IH [of "L + 1"] by (simp add: vsnprintf_helper_def)
qed simp

lemma output_all_ok:
  "int L \<le> M \<Longrightarrow> M < 2 ^ 31 \<Longrightarrow> int L + int (length out) < 2 ^ 31 \<Longrightarrow> writable m q (nat M - L) \<Longrightarrow>
   output_all out (m, \<lparr>auxp = q, auxlen = int L, auxmax = M\<rparr>) =
     Some (put m q (take (nat M - L) out),
       \<lparr>auxp = q + length (take (nat M - L) out), auxlen = int L + int (length out), auxmax = M\<rparr>)"
proof (induction out arbitrary: L m q)
  case (Cons c cs)
  show ?case
  proof (cases "int L = M")
    case True
    then show ?thesis using output_all_full [of M "int L" "c # cs" m q] Cons.prems by simp
  next
    case False
    then have lt: "int L < M" using Cons.prems(1) by simp
    then obtain j where j: "nat M - L = Suc j" by (metis Suc_diff_Suc nat_int zless_nat_conj zless_nat_eq_int_zless)
    have w: "wrap32 (int L + 1) = int (Suc L)" using Cons.prems lt by (subst wrap32_id) auto
    have q: "m q \<noteq> None" "writable m (Suc q) j" using Cons.prems(4) j by simp_all
    have "output_all cs (m(q \<mapsto> c), \<lparr>auxp = Suc q, auxlen = int (Suc L), auxmax = M\<rparr>) =
       Some (put (m(q \<mapsto> c)) (Suc q) (take (nat M - Suc L) cs),
         \<lparr>auxp = Suc q + length (take (nat M - Suc L) cs), auxlen = int (Suc L) + int (length cs), auxmax = M\<rparr>)"
    proof (rule Cons.IH)
      have "nat M - Suc L = j" using j by simp
      then show "writable (m(q \<mapsto> c)) (Suc q) (nat M - Suc L)" using writable_upd [OF q(2)] by simp
    qed (use Cons.prems lt in simp_all)
    moreover have "nat M - Suc L = j" using j by simp
    moreover have "vsnprintf_helper c (m, \<lparr>auxp = q, auxlen = int L, auxmax = M\<rparr>) =
        Some (m(q \<mapsto> c), \<lparr>auxp = Suc q, auxlen = int (Suc L), auxmax = M\<rparr>)"
      using lt q(1) w by (simp add: vsnprintf_helper_def wr_ok)
    ultimately show ?thesis using j by (simp del: of_nat_Suc)
  qed
qed simp

lemma vsnprintf_ok:
  assumes f: "vprintf m f args = Some out" and l: "length out < 2 ^ 31" "n < 2 ^ 31 - 1"
    and w: "writable m p (Suc n)"
  shows "vsnprintf m p (Suc n) f args = Some (int (length out), put m p (take n out @ [0]))"
proof -
  have M: "wrap32 (int n) = int n" using l by (subst wrap32_id) auto
  have w1: "writable m p (nat (int n) - 0)" by (rule writable_mono [OF w]) simp_all
  have o: "output_all out (m, \<lparr>auxp = p, auxlen = 0, auxmax = int n\<rparr>) =
    Some (put m p (take n out), \<lparr>auxp = p + length (take n out), auxlen = int (length out), auxmax = int n\<rparr>)"
    using output_all_ok [of 0 "int n" out m p] w1 l by simp
  have "put m p (take n out) (p + length (take n out)) \<noteq> None"
    using w by (auto simp: writable_def put_nth)
  then show ?thesis by (simp add: vsnprintf_def f M o wr_ok put_append)
qed

lemma vsnprintf_size_0:
  "vprintf m f args = Some out \<Longrightarrow> length out < 2 ^ 31 \<Longrightarrow> vsnprintf m p 0 f args = Some (int (length out), m)"
  using output_all_full [of 0 0 out m p] by (simp add: vsnprintf_def)

section \<open>Printing a decimal number\<close>

lemma format_decimal:
  assumes "v < 2 ^ 64"
  obtains ds where "\<forall>c \<in> set ds. digit c" "ds \<noteq> []" "decimal ds = int v" "length ds \<le> 20"
    "format_integer v True neg base_d \<lparr>flags = {}, width = 0, precision = - 1, ctype = ty\<rparr> =
       Some ((if neg then [45] else []) @ ds)"
proof -
  have "v < 10 ^ 20" using assms by simp
  then obtain ds where ds: "digits_loop base_d False v 0 [] = Some ds" "\<forall>c \<in> set ds. digit c"
      "decimal (rev ds) = int v" "v > 0 \<longrightarrow> ds \<noteq> []" "length ds \<le> 20"
    using digits_loop_decimal [of v 20 "[]" 0] by auto
  define es where "es = (if ds = [] then [48] else ds)"
  have es: "(ds \<noteq> [] \<and> es = ds) \<or> (ds = [] \<and> es = [48])" by (simp add: es_def)
  have pp: "pad_precision 1 ds = Some es"
  proof (cases ds)
    case Nil
    then show ?thesis
      unfolding es_def by (subst pad_precision.simps, simp add: buf_put_def, subst pad_precision.simps, simp)
  next
    case (Cons a list)
    then show ?thesis unfolding es_def by (subst pad_precision.simps) simp
  qed
  have pad: "wrap32 (- int (length es) - 1) < 0" "wrap32 (- int (length es)) < 0"
    using es ds(5) by (auto simp: wrap32_id)
  have "format_integer v True neg base_d \<lparr>flags = {}, width = 0, precision = - 1, ctype = ty\<rparr> =
      Some ((if neg then [45] else []) @ rev es)"
    using pad ds(1) by (simp add: format_integer_def sign_char_def Let_def pp)
  then show thesis
  proof (rule that [of "rev es", rotated -1])
    show "\<forall>c \<in> set (rev es). digit c" using es ds(2) by (auto simp: digit_def isdigit_def)
    show "decimal (rev es) = int v"
      using es ds(3,4) by (auto simp: decimal_def)
    show "length (rev es) \<le> 20" "rev es \<noteq> []" using es ds(5) by auto
  qed
qed

lemma vprintf_d:
  assumes "signed_arg INT_T [w] = Some (v, [])" "v = sint w"
  shows "vprintf m (bytes ''%d'') [w] =
    format_integer (nat \<bar>sint w\<bar>) True (sint w < 0) base_d \<lparr>flags = {}, width = 0, precision = - 1, ctype = INT_T\<rparr>"
proof -
  have b: "bytes ''%d'' = [37, 100]" by (simp add: bytes_def)
  have p: "parse_conversion [100] [w] =
      Some ([100], \<lparr>flags = {}, width = 0, precision = - 1, ctype = INT_T\<rparr>, [w])"
    by (simp add: parse_conversion_def parse_width_def parse_precision_def parse_type_def deref_def
        flag_of_def isdigit_def Let_def)
  have r: "- (2 ^ 31) \<le> sint w" "sint w < 2 ^ 31"
    using sint_greater_eq [of w] sint_less [of w] by simp_all
  have a: "nat ((if sint w < 0 then - sint w else sint w) mod 2 ^ 64) = nat \<bar>sint w\<bar>"
    using r by (auto simp: zmod_trivial_iff)
  have c: "convert m 100 \<lparr>flags = {}, width = 0, precision = - 1, ctype = INT_T\<rparr> [w] =
      map_option (\<lambda>out. (out, [])) (format_integer (nat \<bar>sint w\<bar>) True (sint w < 0) base_d
        \<lparr>flags = {}, width = 0, precision = - 1, ctype = INT_T\<rparr>)"
    unfolding convert_def a [symmetric] by (simp add: signed_arg_def va_int_def map_conv_bind_option o_def)
  show ?thesis
    unfolding b
    by (subst vprintf.simps) (simp add: deref_def p c vprintf.simps [of m "[]"] split: option.splits)
qed

lemma vprintf_Nil [simp]: "vprintf m [] args = Some []"
  by (subst vprintf.simps) simp

lemma vprintf_text: "37 \<notin> set ls \<Longrightarrow> vprintf m (ls @ f) args = map_option ((@) ls) (vprintf m f args)"
proof (induction ls)
  case (Cons c ls)
  then show ?case by (simp add: vprintf.simps [of m "c # ls @ f"] option.map_comp o_def)
next
  case Nil
  show ?case by (cases "vprintf m f args") simp_all
qed

lemma vprintf_conv:
  "deref f \<noteq> 37 \<Longrightarrow> parse_conversion f args = Some (f', c, args') \<Longrightarrow> f' \<noteq> [] \<Longrightarrow>
   convert m (deref f') c args' = Some (out, as) \<Longrightarrow>
   vprintf m (37 # f) args = map_option ((@) out) (vprintf m (tl f') as)"
  by (subst vprintf.simps) simp

text \<open>The messages for conversions that the kernel does not have.\<close>

lemma parse_plain_conversion:
  assumes "c = 99 \<or> c = 100 \<or> c = 115"
  shows "parse_conversion (c # r) args =
      Some (c # r, \<lparr>flags = {}, width = 0, precision = - 1, ctype = INT_T\<rparr>, args)"
proof -
  have 1: "parse_flags (c # r) {} = (c # r, {})" using assms by (auto simp: flag_of_def)
  have 2: "parse_width (c # r) args = Some (c # r, 0, args)"
    using assms by (auto simp: parse_width_def deref_def isdigit_def)
  have 3: "parse_precision (c # r) args = Some (c # r, - 1, args)"
    using assms by (auto simp: parse_precision_def deref_def)
  have 4: "parse_type (c # r) = (c # r, INT_T)"
    using assms by (auto simp: parse_type_def deref_def Let_def)
  show ?thesis by (simp add: parse_conversion_def 1 2 3 4 del: parse_flags.simps)
qed

lemma no_conversion_text:
  "vprintf m (bytes ''<<no %%%c in kernel>>'') [ucast f] = Some (bytes ''<<no %'' @ [f] @ bytes '' in kernel>>'')"
  "vprintf m (bytes ''<<no %%%c conversion>>'') [ucast f] = Some (bytes ''<<no %'' @ [f] @ bytes '' conversion>>'')"
proof -
  have c: "convert m 99 \<lparr>flags = {}, width = 0, precision = - 1, ctype = INT_T\<rparr> [ucast f] = Some ([f], [])"
    by (simp add: convert_def va_int_def format_string_def ucast_down_ucast_id is_down)
  have s: "vprintf m (bytes ''<<no '' @ 37 # 37 # 37 # 99 # rest) [ucast f] =
      Some (bytes ''<<no %'' @ [f] @ rest)" if "37 \<notin> set rest" for rest
  proof -
    have "vprintf m (37 # 99 # rest) [ucast f] = map_option ((@) [f]) (vprintf m (tl (99 # rest)) [])"
      by (rule vprintf_conv [OF _ parse_plain_conversion]) (simp_all add: deref_def c)
    also have "vprintf m (tl (99 # rest)) [] = Some rest" using vprintf_text [OF that, of m "[]" "[]"] by simp
    finally have "vprintf m (37 # 37 # 37 # 99 # rest) [ucast f] = Some (37 # f # rest)"
      by (subst vprintf.simps) (simp add: deref_def)
    then show ?thesis by (subst vprintf_text) (simp_all add: bytes_def)
  qed
  show "vprintf m (bytes ''<<no %%%c in kernel>>'') [ucast f] = Some (bytes ''<<no %'' @ [f] @ bytes '' in kernel>>'')"
    using s [of "bytes '' in kernel>>''"] by (simp add: bytes_def)
  show "vprintf m (bytes ''<<no %%%c conversion>>'') [ucast f] = Some (bytes ''<<no %'' @ [f] @ bytes '' conversion>>'')"
    using s [of "bytes '' conversion>>''"] by (simp add: bytes_def)
qed

text \<open>A negative width from a star sets MINUS after ZERO has been looked at: the number is padded
  twice.\<close>

lemma star_width_pads_twice:
  "vprintf m (bytes ''%0*d|'') [- 6, 42] = Some (bytes ''000042    |'')"
  by code_simp

section \<open>Properties\<close>

text \<open>C39: vsnprintf never writes past the buffer of the given size, always terminates what it
  stores, stores as much of the output as fits, and returns the length of the whole output;
  with size 0 it writes nothing.\<close>

theorem vsnprintf_bounded:
  assumes "vprintf m f args = Some out" "length out < 2 ^ 31" "n < 2 ^ 31 - 1" "writable m p (Suc n)"
  shows "(\<exists>m'. vsnprintf m p (Suc n) f args = Some (int (length out), m') \<and>
      blk m' p (take n out @ [0]) \<and> (\<forall>a. a < p \<or> p + Suc n \<le> a \<longrightarrow> m' a = m a)) \<and>
    vsnprintf m p 0 f args = Some (int (length out), m)"
proof
  have "put m p (take n out @ [0]) a = m a" if "a < p \<or> p + Suc n \<le> a" for a
    using that by (auto simp: put_nth simp del: put_append)
  then show "\<exists>m'. vsnprintf m p (Suc n) f args = Some (int (length out), m') \<and>
      blk m' p (take n out @ [0]) \<and> (\<forall>a. a < p \<or> p + Suc n \<le> a \<longrightarrow> m' a = m a)"
    using vsnprintf_ok [OF assms] blk_put [of m p "take n out @ [0]"] by blast
  show "vsnprintf m p 0 f args = Some (int (length out), m)" by (rule vsnprintf_size_0 [OF assms(1,2)])
qed

theorem vsnprintf_bounded_witness:
  "vprintf (\<lambda>a. if a < 200 then Some 0 else None) (bytes ''n=%d'') [5] = Some (bytes ''n=5'') \<and>
   (\<exists>m'. vsnprintf (\<lambda>a. if a < 200 then Some 0 else None) 100 (Suc 2) (bytes ''n=%d'') [5] = Some (3, m') \<and>
      blk m' 100 (bytes ''n='' @ [0]))"
proof -
  let ?m = "\<lambda>a::nat. if a < 200 then Some (0::byte) else None"
  have c: "vprintf (\<lambda>_. None) (bytes ''n=%d'') [5] = Some (bytes ''n=5'')" by code_simp
  have v: "vprintf ?m (bytes ''n=%d'') [5] = Some (bytes ''n=5'')"
  proof -
    have a: "signed_arg INT_T [5] = Some (sint (5 :: 32 word), [])" by (simp add: signed_arg_def va_int_def)
    have d: "vprintf m (bytes ''%d'') [5] = vprintf (\<lambda>_. None) (bytes ''%d'') [5]" for m
      by (simp only: vprintf_d [OF a refl])
    have t: "vprintf m (bytes ''n=%d'') [5] = map_option ((@) (bytes ''n='')) (vprintf m (bytes ''%d'') [5])" for m
      using vprintf_text [of "bytes ''n=''" m "bytes ''%d''" "[5]"] by (simp add: bytes_def)
    show ?thesis using c unfolding t [of ?m] t [of "\<lambda>_. None"] d [of ?m] .
  qed
  have "writable ?m 100 (Suc 2)" by (auto simp: writable_def)
  from vsnprintf_bounded [OF v _ _ this] obtain m' where
    "vsnprintf ?m 100 (Suc 2) (bytes ''n=%d'') [5] = Some (int (length (bytes ''n=5'')), m')"
    "blk m' 100 (take 2 (bytes ''n=5'') @ [0])"
    by (auto simp: bytes_def)
  then show ?thesis using v by (intro conjI exI [of _ m']) (simp_all add: bytes_def)
qed

text \<open>C38: printing an int with the format for decimal numbers into a buffer and reading the
  buffer with atoi gives the number back, for every int.\<close>

theorem snprintf_atoi:
  assumes "p \<noteq> 0" "writable m p (Suc n)" "22 \<le> n" "n < 2 ^ 31 - 1"
  shows "\<exists>len m'. snprintf m p (Suc n) (bytes ''%d'') [w] = Some (len, m') \<and> atoi m' p = Some (sint w)"
proof -
  have r: "- (2 ^ 31) \<le> sint w" "sint w < 2 ^ 31"
    using sint_greater_eq [of w] sint_less [of w] by simp_all
  have "nat \<bar>sint w\<bar> < 2 ^ 64" using r by simp
  then obtain ds where ds: "\<forall>c \<in> set ds. digit c" "ds \<noteq> []" "decimal ds = int (nat \<bar>sint w\<bar>)" "length ds \<le> 20"
    "format_integer (nat \<bar>sint w\<bar>) True (sint w < 0) base_d \<lparr>flags = {}, width = 0, precision = - 1, ctype = INT_T\<rparr> =
       Some ((if sint w < 0 then [45] else []) @ ds)"
    by (rule format_decimal)
  let ?sg = "if sint w < 0 then [45] else [] :: byte list"
  have "vprintf m (bytes ''%d'') [w] = Some (?sg @ ds)"
    using vprintf_d [of w "sint w" m] ds(5) by (simp add: signed_arg_def va_int_def)
  then have v: "vsnprintf m p (Suc n) (bytes ''%d'') [w] =
      Some (int (length (?sg @ ds)), put m p (take n (?sg @ ds) @ [0]))"
    by (rule vsnprintf_ok) (use ds(4) assms in auto)
  have "length (?sg @ ds) \<le> n" using ds(4) assms(3) by auto
  then have t: "take n (?sg @ ds) = ?sg @ ds" by (rule take_all)
  have b: "blk (put m p (?sg @ ds @ [0])) p ([] @ ?sg @ ds @ [0])"
    using blk_put [of m p "?sg @ ds @ [0]"] by simp
  have "atoi (put m p (?sg @ ds @ [0])) p = Some (if ?sg = [45] then - decimal ds else decimal ds)"
    by (rule atoi_ok [OF b assms(1)]) (use ds r in \<open>auto simp: digit_def isdigit_def\<close>)
  then have "atoi (put m p (take n (?sg @ ds) @ [0])) p = Some (sint w)"
    unfolding t using ds(3) by (simp split: if_splits)
  then show ?thesis using v by (auto simp: snprintf_def)
qed

theorem snprintf_atoi_witness:
  "\<exists>len m'. snprintf (\<lambda>a. if a < 200 then Some 0 else None) 100 (Suc 31) (bytes ''%d'') [- 2147483648] = Some (len, m') \<and>
     atoi m' 100 = Some (- 2147483648)"
proof -
  have "writable (\<lambda>a::nat. if a < 200 then Some (0::byte) else None) 100 (Suc 31)" by (auto simp: writable_def)
  from snprintf_atoi [OF _ this, of "- 2147483648"] show ?thesis by simp
qed

text \<open>C40: every integer, pointer and character conversion returns, whatever its flags, width,
  precision and type: the digit loop ends, and the 64 bytes of the digit buffer are never
  overrun, neither by the digits and their separators, nor by the zeros of the precision, nor by
  the leading zero of an octal number (every store into the buffer is checked by \<open>buf_put\<close>).\<close>

theorem conversions_return:
  assumes "2 \<le> length args"
    "f \<in> {asc CHR ''d'', asc CHR ''i'', asc CHR ''o'', asc CHR ''u'', asc CHR ''x'', asc CHR ''X'',
      asc CHR ''c'', asc CHR ''p''}"
  shows "\<exists>out rest. convert m f c args = Some (out, rest)"
proof -
  obtain a b as where args: "args = a # b # as" using assms(1) by (cases args; cases "tl args") auto
  obtain v r where sv: "signed_arg (ctype c) args = Some (v, r)"
    by (cases "ctype c") (auto simp: signed_arg_def va_int_def va_int64_def args)
  obtain u r' where uv: "unsigned_arg (ctype c) args = Some (u, r')" "u < 2 ^ 64"
  proof -
    have "unat x < 2 ^ 64" for x :: "64 word" using unsigned_less [of x, where 'a = nat] by simp
    moreover have "unat x < 2 ^ 64" for x :: "32 word" using unsigned_less [of x, where 'a = nat] by simp
    moreover have "x mod 2 ^ 8 < 2 ^ 64" "x mod 2 ^ 16 < 2 ^ 64" "x mod 2 ^ 32 < 2 ^ 64" for x :: nat
      using mod_less_divisor [of "2 ^ 8" x] mod_less_divisor [of "2 ^ 16" x] mod_less_divisor [of "2 ^ 32" x]
      by simp_all
    ultimately show thesis
      using that by (cases "ctype c") (simp_all add: unsigned_arg_def va_int_def va_int64_def args)
  qed
  have s: "nat (x mod 2 ^ 64) < 2 ^ 64" for x :: int by (simp add: nat_less_iff)
  have pu: "unat a < 2 ^ 64" using unsigned_less [of a, where 'a = nat] by simp
  have d: "\<exists>out. format_integer (nat (x mod 2 ^ 64)) t n base_d c = Some out" for x t n
    by (rule format_integer_total [OF _ s]) (simp add: base_ok_def)
  have q: "\<exists>out. format_integer u t n y c = Some out" if "base_ok y" for t n y
    by (rule format_integer_total [OF that uv(2)])
  have p: "\<exists>out. format_integer (unat a) t n base_x y = Some out" for t n y
    by (rule format_integer_total [OF _ pu]) (simp add: base_ok_def)
  have ok: "base_ok base_d" "base_ok base_o" "base_ok base_x" "base_ok base_X" by (simp_all add: base_ok_def)
  consider "f \<in> {100, 105}" | "f \<in> {111, 117, 120, 88}" | "f = 99" | "f = 112" using assms(2) by auto
  then show ?thesis
  proof cases
    case 1
    then show ?thesis using d [of "if v < 0 then - v else v" True "v < 0"] by (auto simp: convert_def sv)
  next
    case 2
    then show ?thesis
      using q [OF ok(1), of False False] q [OF ok(2), of False False] q [OF ok(3), of False False]
        q [OF ok(4), of False False]
      by (elim exE) (auto simp: convert_def uv(1) Let_def)
  next
    case 3
    then show ?thesis by (auto simp: convert_def va_int_def args format_string_def)
  next
    case 4
    then show ?thesis using p [of False False "c\<lparr>flags := {POUND}\<rparr>"] by (auto simp: convert_def va_int_def args)
  qed
qed

theorem conversions_return_witness:
  "\<exists>out rest. convert (\<lambda>_. None) (asc CHR ''o'')
     \<lparr>flags = {POUND, GROUP}, width = 0, precision = 2147483647, ctype = LONGLONG_T\<rparr> [- 1, - 1] = Some (out, rest)"
  by (rule conversions_return) simp_all

text \<open>A format that ends in the middle of a conversion is read past its terminating null
  byte: the loop of __vprintf steps over it.\<close>

theorem format_ends_in_percent:
  "37 \<notin> set f \<Longrightarrow> vprintf m (f @ [37]) args = None"
  by (subst vprintf_text, simp, subst vprintf.simps)
    (simp add: deref_def parse_conversion_def parse_width_def parse_precision_def parse_type_def Let_def
      convert_def)

theorem format_ends_in_percent_witness:
  "vprintf (\<lambda>_. None) (bytes ''100'' @ [37]) [] = None"
  by (rule format_ends_in_percent) (simp add: bytes_def)

end
