(* ===== verification/Malloc.thy ===== *)
theory Malloc
  imports Palloc
begin

text \<open>
  The kernel's malloc (threads/malloc.c), on the page allocator of Palloc.  The header of an
  arena, which the source keeps in the first 12 bytes of its page, is an entry of the map
  \<open>arenas\<close> from page addresses; a page without an entry holds no valid header, so that the
  ASSERT on its magic number fails.  A descriptor's free list is the list of the addresses of
  its blocks (KListRefine shows that list.c computes these list functions).  So the headers and the
  links, which the source writes into the first bytes of the arenas and of the free blocks, are not
  part of the memory, whose other bytes are those of Palloc: the model says nothing of the content
  of these bytes, and \<open>live_header\<close> and \<open>live_free\<close> show that no block in use has any of them.  Each
  call runs as one step under the lock of its descriptor.  None is a failing ASSERT, an
  access outside the memory, or a block that would be put on a free list twice.
\<close>

section \<open>Descriptors and arenas\<close>

record desc =
  block_size :: nat
  blocks_per_arena :: nat
  free_list :: "nat list"

definition ARENA_MAGIC :: nat where "ARENA_MAGIC = 0x9a548eed"

record arena =
  magic :: nat
  adesc :: "nat option"
  free_cnt :: nat

text \<open>sizeof (struct arena), and the number of descriptors there is room for.\<close>

definition ARENA_SIZE :: nat where "ARENA_SIZE = 12"
definition DESC_MAX :: nat where "DESC_MAX = 10"

record mstate =
  pst :: pstate
  descs :: "desc list"
  arenas :: "nat \<Rightarrow> arena option"

function init_loop :: "nat \<Rightarrow> desc list \<Rightarrow> desc list option" where
  "init_loop bs ds =
     (if bs < PGSIZE div 2 then
        (if length ds + 1 \<le> DESC_MAX
         then init_loop (bs * 2) (ds @ [\<lparr>block_size = bs,
           blocks_per_arena = (PGSIZE - ARENA_SIZE) div bs, free_list = []\<rparr>])
         else None)
      else Some ds)"
  by pat_completeness auto
termination by (relation "measure (\<lambda>(bs, ds). DESC_MAX - length ds)") auto

declare init_loop.simps [simp del]

definition malloc_init :: "mstate \<Rightarrow> mstate option" where
  "malloc_init s = do { ds \<leftarrow> init_loop 16 (descs s); Some (s\<lparr>descs := ds\<rparr>) }"

definition set_desc :: "nat \<Rightarrow> (desc \<Rightarrow> desc) \<Rightarrow> mstate \<Rightarrow> mstate" where
  "set_desc i f s = s\<lparr>descs := (descs s)[i := f (descs s ! i)]\<rparr>"

definition block_to_arena :: "mstate \<Rightarrow> nat \<Rightarrow> nat option" where
  "block_to_arena s b = do {
     let a = pg_round_down b;
     ASSERT (a \<noteq> 0);
     ar \<leftarrow> arenas s a;
     ASSERT (magic ar = ARENA_MAGIC);
     ASSERT (case adesc ar of None \<Rightarrow> True
       | Some i \<Rightarrow> (pg_ofs b + 2 ^ 32 - ARENA_SIZE) mod 2 ^ 32 mod block_size (descs s ! i) = 0);
     ASSERT (adesc ar \<noteq> None \<or> pg_ofs b = ARENA_SIZE);
     Some a
   }"

definition arena_to_block :: "mstate \<Rightarrow> nat \<Rightarrow> nat \<Rightarrow> nat option" where
  "arena_to_block s a idx = do {
     ASSERT (a \<noteq> 0);
     ar \<leftarrow> arenas s a;
     ASSERT (magic ar = ARENA_MAGIC);
     i \<leftarrow> adesc ar;
     ASSERT (idx < blocks_per_arena (descs s ! i));
     Some (a + ARENA_SIZE + idx * block_size (descs s ! i))
   }"

section \<open>Allocation\<close>

text \<open>The index of the smallest descriptor that fits.\<close>

fun find_desc :: "desc list \<Rightarrow> nat \<Rightarrow> nat \<Rightarrow> nat option" where
  "find_desc [] i sz = None"
| "find_desc (d # ds) i sz = (if block_size d \<ge> sz then Some i else find_desc ds (i + 1) sz)"

text \<open>The loop that adds the blocks of a new arena from index \<open>idx\<close> on; \<open>n\<close> are left.\<close>

fun add_blocks :: "nat \<Rightarrow> nat \<Rightarrow> nat \<Rightarrow> nat \<Rightarrow> mstate \<Rightarrow> mstate option" where
  "add_blocks i a idx 0 s = Some s"
| "add_blocks i a idx (Suc n) s = do {
     b \<leftarrow> arena_to_block s a idx;
     add_blocks i a (idx + 1) n (set_desc i (\<lambda>d. d\<lparr>free_list := free_list d @ [b]\<rparr>) s)
   }"

definition upd_arena :: "nat \<Rightarrow> (arena \<Rightarrow> arena) \<Rightarrow> mstate \<Rightarrow> mstate" where
  "upd_arena a f s = s\<lparr>arenas := (arenas s)(a := map_option f (arenas s a))\<rparr>"

text \<open>Taking the first block of the free list.\<close>

definition pop_block :: "nat \<Rightarrow> mstate \<Rightarrow> (nat \<times> mstate) option" where
  "pop_block i s =
     (case free_list (descs s ! i) of
        [] \<Rightarrow> None
      | b # bs \<Rightarrow> do {
          let s = set_desc i (\<lambda>d. d\<lparr>free_list := bs\<rparr>) s;
          a \<leftarrow> block_to_arena s b;
          Some (b, upd_arena a (\<lambda>ar. ar\<lparr>free_cnt := free_cnt ar - 1\<rparr>) s)
        })"

definition malloc_big :: "nat \<Rightarrow> mstate \<Rightarrow> (nat \<times> mstate) option" where
  "malloc_big sz s = do {
     let page_cnt = DIV_ROUND_UP (size_add sz ARENA_SIZE) PGSIZE;
     (a, p) \<leftarrow> palloc_get_multiple 0 page_cnt (pst s);
     let s = s\<lparr>pst := p\<rparr>;
     (if a = 0 then Some (0, s)
      else Some (a + ARENA_SIZE,
        s\<lparr>arenas := (arenas s)(a \<mapsto> \<lparr>magic = ARENA_MAGIC, adesc = None, free_cnt = page_cnt\<rparr>)\<rparr>))
   }"

definition malloc :: "nat \<Rightarrow> mstate \<Rightarrow> (nat \<times> mstate) option" where
  "malloc sz s =
     (if sz = 0 then Some (0, s)
      else
        (case find_desc (descs s) 0 sz of
           None \<Rightarrow> malloc_big sz s
         | Some i \<Rightarrow>
             (if free_list (descs s ! i) \<noteq> [] then pop_block i s
              else do {
                (a, p) \<leftarrow> palloc_get_page 0 (pst s);
                let s = s\<lparr>pst := p\<rparr>;
                (if a = 0 then Some (0, s)
                 else do {
                   let n = blocks_per_arena (descs s ! i);
                   let s = s\<lparr>arenas := (arenas s)(a \<mapsto> \<lparr>magic = ARENA_MAGIC, adesc = Some i, free_cnt = n\<rparr>)\<rparr>;
                   s \<leftarrow> add_blocks i a 0 n s;
                   pop_block i s
                 })
              })))"

definition calloc :: "nat \<Rightarrow> nat \<Rightarrow> mstate \<Rightarrow> (nat \<times> mstate) option" where
  "calloc a b s =
     (let sz = (a * b) mod 2 ^ 32 in
      if sz < a \<or> sz < b then Some (0, s)
      else do {
        (p, s) \<leftarrow> malloc sz s;
        (if p \<noteq> 0 then do {
           (_, m) \<leftarrow> memset (pmem (pst s)) p 0 sz;
           Some (p, s\<lparr>pst := (pst s)\<lparr>pmem := m\<rparr>\<rparr>)
         }
         else Some (p, s))
      })"

section \<open>Release\<close>

definition block_size_of :: "nat \<Rightarrow> mstate \<Rightarrow> nat option" where
  "block_size_of b s = do {
     a \<leftarrow> block_to_arena s b;
     ar \<leftarrow> arenas s a;
     Some (case adesc ar of Some i \<Rightarrow> block_size (descs s ! i) | None \<Rightarrow> PGSIZE * free_cnt ar - pg_ofs b)
   }"

text \<open>The loop that takes the blocks of an unused arena off the free list.\<close>

fun remove_blocks :: "nat \<Rightarrow> nat \<Rightarrow> nat \<Rightarrow> nat \<Rightarrow> mstate \<Rightarrow> mstate option" where
  "remove_blocks i a idx 0 s = Some s"
| "remove_blocks i a idx (Suc n) s = do {
     b \<leftarrow> arena_to_block s a idx;
     ASSERT (b \<in> set (free_list (descs s ! i)));
     remove_blocks i a (idx + 1) n (set_desc i (\<lambda>d. d\<lparr>free_list := remove1 b (free_list d)\<rparr>) s)
   }"

definition release_arena :: "nat \<Rightarrow> nat \<Rightarrow> mstate \<Rightarrow> mstate option" where
  "release_arena i a s = do {
     s \<leftarrow> remove_blocks i a 0 (blocks_per_arena (descs s ! i)) s;
     p \<leftarrow> palloc_free_page a (pst s);
     Some (s\<lparr>pst := p, arenas := (arenas s)(a := None)\<rparr>)
   }"

definition free :: "nat \<Rightarrow> mstate \<Rightarrow> mstate option" where
  "free p s =
     (if p = 0 then Some s
      else do {
        a \<leftarrow> block_to_arena s p;
        ar \<leftarrow> arenas s a;
        (case adesc ar of
           Some i \<Rightarrow> do {
             (_, m) \<leftarrow> memset (pmem (pst s)) p 0xcc (block_size (descs s ! i));
             let s = s\<lparr>pst := (pst s)\<lparr>pmem := m\<rparr>\<rparr>;
             ASSERT (p \<notin> set (free_list (descs s ! i)));
             let s = set_desc i (\<lambda>d. d\<lparr>free_list := p # free_list d\<rparr>) s;
             let s = upd_arena a (\<lambda>ar. ar\<lparr>free_cnt := free_cnt ar + 1\<rparr>) s;
             (if free_cnt ar + 1 \<ge> blocks_per_arena (descs s ! i) then do {
                ASSERT (free_cnt ar + 1 = blocks_per_arena (descs s ! i));
                release_arena i a s
              }
              else Some s)
           }
         | None \<Rightarrow> do {
             p \<leftarrow> palloc_free_multiple a (free_cnt ar) (pst s);
             Some (s\<lparr>pst := p, arenas := (arenas s)(a := None)\<rparr>)
           })
      })"

definition realloc :: "nat \<Rightarrow> nat \<Rightarrow> mstate \<Rightarrow> (nat \<times> mstate) option" where
  "realloc old_block new_size s =
     (if new_size = 0 then do { s \<leftarrow> free old_block s; Some (0, s) }
      else do {
        (new_block, s) \<leftarrow> malloc new_size s;
        (if old_block \<noteq> 0 \<and> new_block \<noteq> 0 then do {
           old_size \<leftarrow> block_size_of old_block s;
           let min_size = (if new_size < old_size then new_size else old_size);
           (_, m) \<leftarrow> memcpy (pmem (pst s)) new_block old_block min_size;
           s \<leftarrow> free old_block (s\<lparr>pst := (pst s)\<lparr>pmem := m\<rparr>\<rparr>);
           Some (new_block, s)
         }
         else Some (new_block, s))
      })"

section \<open>The invariant\<close>

definition blocks :: "desc \<Rightarrow> nat \<Rightarrow> nat set" where
  "blocks d a = (\<lambda>i. a + ARENA_SIZE + i * block_size d) ` {..< blocks_per_arena d}"

definition desc_ok :: "desc \<Rightarrow> bool" where
  "desc_ok d \<longleftrightarrow> 16 \<le> block_size d \<and> block_size d < PGSIZE div 2 \<and> block_size d dvd 2 ^ 32 \<and>
     blocks_per_arena d = (PGSIZE - ARENA_SIZE) div block_size d"

definition arena_pages :: "arena \<Rightarrow> nat" where
  "arena_pages ar = (case adesc ar of None \<Rightarrow> free_cnt ar | Some i \<Rightarrow> 1)"

definition extent :: "nat \<Rightarrow> arena \<Rightarrow> nat set" where
  "extent a ar = {a ..< a + PGSIZE * arena_pages ar}"

definition arena_ok :: "mstate \<Rightarrow> nat \<Rightarrow> arena \<Rightarrow> bool" where
  "arena_ok s a ar \<longleftrightarrow> magic ar = ARENA_MAGIC \<and> 0 < arena_pages ar \<and>
     (\<exists>j. a = page_addr False (pst s) j \<and> j + arena_pages ar \<le> pool_pages False (pst s) \<and>
        {j ..< j + arena_pages ar} \<inter> free_pages False (pst s) = {}) \<and>
     (case adesc ar of None \<Rightarrow> True
      | Some i \<Rightarrow> i < length (descs s) \<and>
          free_cnt ar = card (set (free_list (descs s ! i)) \<inter> blocks (descs s ! i) a))"

text \<open>All arenas but those of \<open>X\<close> have a block in use.\<close>

definition minv :: "nat set \<Rightarrow> mstate \<Rightarrow> bool" where
  "minv X s \<longleftrightarrow> pstate_ok (pst s) \<and> (\<forall>d \<in> set (descs s). desc_ok d) \<and>
     (\<forall>a ar. arenas s a = Some ar \<longrightarrow> arena_ok s a ar) \<and>
     (\<forall>a ar b br. arenas s a = Some ar \<longrightarrow> arenas s b = Some br \<longrightarrow> a \<noteq> b \<longrightarrow> extent a ar \<inter> extent b br = {}) \<and>
     (\<forall>i < length (descs s). distinct (free_list (descs s ! i)) \<and>
        (\<forall>b \<in> set (free_list (descs s ! i)). \<exists>a ar. arenas s a = Some ar \<and> adesc ar = Some i \<and> b \<in> blocks (descs s ! i) a)) \<and>
     (\<forall>a ar i. arenas s a = Some ar \<longrightarrow> adesc ar = Some i \<longrightarrow> a \<notin> X \<longrightarrow>
        free_cnt ar < blocks_per_arena (descs s ! i))"

definition malloc_ok :: "mstate \<Rightarrow> bool" where
  "malloc_ok s \<longleftrightarrow> minv {} s"

text \<open>The blocks in use, and how much of the memory each of them is.\<close>

definition live :: "mstate \<Rightarrow> nat set" where
  "live s = {b. \<exists>a ar. arenas s a = Some ar \<and>
     (case adesc ar of None \<Rightarrow> b = a + ARENA_SIZE
      | Some i \<Rightarrow> b \<in> blocks (descs s ! i) a - set (free_list (descs s ! i)))}"

definition room :: "mstate \<Rightarrow> nat \<Rightarrow> nat" where
  "room s b = (case block_size_of b s of None \<Rightarrow> 0 | Some n \<Rightarrow> n)"

section \<open>Where the blocks lie\<close>

lemma blocks_in_page:
  assumes d: "desc_ok d" and b: "b \<in> blocks d a"
  shows "a + ARENA_SIZE \<le> b" "b + block_size d \<le> a + PGSIZE"
proof -
  obtain i where i: "i < blocks_per_arena d" "b = a + ARENA_SIZE + i * block_size d"
    using b by (auto simp: blocks_def)
  show "a + ARENA_SIZE \<le> b" using i by simp
  have "(i + 1) * block_size d \<le> blocks_per_arena d * block_size d" using i(1) by (intro mult_right_mono) simp_all
  also have "\<dots> \<le> PGSIZE - ARENA_SIZE" using d by (simp add: desc_ok_def)
  finally have "i * block_size d + block_size d \<le> PGSIZE - ARENA_SIZE" by simp
  then show "b + block_size d \<le> a + PGSIZE"
    using i(2) by (simp add: PGSIZE_def ARENA_SIZE_def)
qed

lemma page_of_addr:
  assumes "PGSIZE dvd a" "a \<le> b" "b < a + PGSIZE"
  shows "pg_round_down b = a" "pg_ofs b = b - a"
proof -
  obtain k where k: "a = PGSIZE * k" using assms(1) by (elim dvdE)
  have "b = PGSIZE * k + (b - a)" "b - a < PGSIZE" using assms k by simp_all
  then have "b div PGSIZE = k \<and> b mod PGSIZE = b - a"
    using div_mult_self4 [of PGSIZE k "b - a"] mod_mult_self4 [of PGSIZE k "b - a"] by (metis add.commute add_0 div_less less_nat_zero_code mod_less mult.commute)
  then show "pg_round_down b = a" "pg_ofs b = b - a" by (simp_all add: pg_round_down_def pg_ofs_def k)
qed

lemma blocks_geometry:
  assumes d: "desc_ok d" and b: "b \<in> blocks d a" and a: "PGSIZE dvd a"
  shows "pg_round_down b = a" "(pg_ofs b + 2 ^ 32 - ARENA_SIZE) mod 2 ^ 32 mod block_size d = 0"
proof -
  have bs: "0 < block_size d" using d by (simp add: desc_ok_def)
  have r: "a \<le> b" "b < a + PGSIZE" using blocks_in_page [OF d b] bs by linarith+
  show "pg_round_down b = a" by (rule page_of_addr(1) [OF a r])
  obtain i where i: "b = a + ARENA_SIZE + i * block_size d" using b by (auto simp: blocks_def)
  have o: "pg_ofs b = ARENA_SIZE + i * block_size d" using page_of_addr(2) [OF a r] i by simp
  have "i * block_size d < 2 ^ 32" using r(2) i by (simp add: PGSIZE_def ARENA_SIZE_def)
  moreover have "ARENA_SIZE + i * block_size d + 2 ^ 32 - ARENA_SIZE = i * block_size d + 2 ^ 32" by simp
  ultimately have "(pg_ofs b + 2 ^ 32 - ARENA_SIZE) mod 2 ^ 32 = i * block_size d" unfolding o by simp
  then show "(pg_ofs b + 2 ^ 32 - ARENA_SIZE) mod 2 ^ 32 mod block_size d = 0" by simp
qed

lemma blocks_apart:
  assumes d: "desc_ok d" and b: "b \<in> blocks d a" "c \<in> blocks d a" and lt: "b < c"
  shows "b + block_size d \<le> c"
proof -
  obtain i j where i: "b = a + ARENA_SIZE + i * block_size d" "c = a + ARENA_SIZE + j * block_size d"
    using b by (auto simp: blocks_def)
  then have "i < j" using lt by (metis add_le_cancel_left leD leI mult_le_mono1)
  then have "(i + 1) * block_size d \<le> j * block_size d" by (intro mult_right_mono) simp_all
  then show ?thesis using i by simp
qed

lemma blocks_finite [simp]: "finite (blocks d a)"
  by (simp add: blocks_def)

lemma blocks_card: "desc_ok d \<Longrightarrow> card (blocks d a) = blocks_per_arena d"
  unfolding blocks_def by (subst card_image) (auto simp: inj_on_def desc_ok_def)

lemma blocks_nonempty: "desc_ok d \<Longrightarrow> 0 < blocks_per_arena d"
  unfolding desc_ok_def by (auto simp: PGSIZE_def ARENA_SIZE_def div_greater_zero_iff)

section \<open>Facts of the invariant\<close>

lemma minvD:
  assumes "minv X s"
  shows "pstate_ok (pst s)" "d \<in> set (descs s) \<Longrightarrow> desc_ok d" "arenas s a = Some ar \<Longrightarrow> arena_ok s a ar"
    "arenas s a = Some ar \<Longrightarrow> arenas s b = Some br \<Longrightarrow> a \<noteq> b \<Longrightarrow> extent a ar \<inter> extent b br = {}"
    "i < length (descs s) \<Longrightarrow> distinct (free_list (descs s ! i))"
    "i < length (descs s) \<Longrightarrow> b \<in> set (free_list (descs s ! i)) \<Longrightarrow>
      \<exists>a ar. arenas s a = Some ar \<and> adesc ar = Some i \<and> b \<in> blocks (descs s ! i) a"
    "arenas s a = Some ar \<Longrightarrow> adesc ar = Some i \<Longrightarrow> a \<notin> X \<Longrightarrow> free_cnt ar < blocks_per_arena (descs s ! i)"
    "i < length (descs s) \<Longrightarrow> desc_ok (descs s ! i)"
  using assms unfolding minv_def by (blast, blast, blast, blast, blast, blast, blast, auto)

lemma arena_addr:
  assumes "minv X s" "arenas s a = Some ar"
  shows "PGSIZE dvd a" "a \<noteq> 0" "magic ar = ARENA_MAGIC" "0 < arena_pages ar"
    "a + PGSIZE * arena_pages ar < 2 ^ 32" "writable (pmem (pst s)) a (PGSIZE * arena_pages ar)"
    "adesc ar = Some i \<Longrightarrow> i < length (descs s)"
proof -
  have ok: "arena_ok s a ar" by (rule minvD(3) [OF assms])
  then obtain j where j: "a = page_addr False (pst s) j" "j + arena_pages ar \<le> pool_pages False (pst s)"
    by (auto simp: arena_ok_def)
  note q = page_addr_bounds [OF minvD(1) [OF assms(1)] j(2)]
  show "a \<noteq> 0" "a + PGSIZE * arena_pages ar < 2 ^ 32" using q(1,2) j(1) by simp_all
  show "PGSIZE dvd a" using q(3) j(1) by (auto simp: pg_ofs_def)
  show "magic ar = ARENA_MAGIC" "0 < arena_pages ar" using ok by (simp_all add: arena_ok_def)
  show "writable (pmem (pst s)) a (PGSIZE * arena_pages ar)"
    using pstate_writable [OF minvD(1) [OF assms(1)] j(2)] j(1) by simp
  show "adesc ar = Some i \<Longrightarrow> i < length (descs s)" using ok by (simp add: arena_ok_def)
qed

lemma small_block_to_arena:
  assumes k: "minv X s" and a: "arenas s a = Some ar" "adesc ar = Some i" and b: "b \<in> blocks (descs s ! i) a"
  shows "block_to_arena s b = Some a"
proof -
  note q = arena_addr [OF k a(1)]
  have d: "desc_ok (descs s ! i)" by (rule minvD(8) [OF k q(7) [OF a(2)]])
  note g = blocks_geometry [OF d b q(1)]
  show ?thesis using g q a by (simp add: block_to_arena_def Let_def)
qed

lemma big_block_to_arena:
  assumes k: "minv X s" and a: "arenas s a = Some ar" "adesc ar = None"
  shows "block_to_arena s (a + ARENA_SIZE) = Some a" "pg_ofs (a + ARENA_SIZE) = ARENA_SIZE"
proof -
  note q = arena_addr [OF k a(1)]
  have g: "pg_round_down (a + ARENA_SIZE) = a" "pg_ofs (a + ARENA_SIZE) = ARENA_SIZE"
    using page_of_addr [OF q(1), of "a + ARENA_SIZE"] by (simp_all add: ARENA_SIZE_def PGSIZE_def)
  show "block_to_arena s (a + ARENA_SIZE) = Some a" using g q a by (simp add: block_to_arena_def Let_def)
  show "pg_ofs (a + ARENA_SIZE) = ARENA_SIZE" by (rule g(2))
qed

lemma liveI:
  "arenas s a = Some ar \<Longrightarrow>
   (case adesc ar of None \<Rightarrow> b = a + ARENA_SIZE
      | Some i \<Rightarrow> b \<in> blocks (descs s ! i) a - set (free_list (descs s ! i))) \<Longrightarrow> b \<in> live s"
  unfolding live_def by blast

text \<open>A block in use and its arena.\<close>

lemma liveE:
  assumes k: "minv X s" and p: "p \<in> live s"
  obtains a ar where "arenas s a = Some ar" "block_to_arena s p = Some a" "p \<in> extent a ar"
    "p + room s p \<le> a + PGSIZE * arena_pages ar"
    "adesc ar = None \<longrightarrow> p = a + ARENA_SIZE"
    "\<forall>i. adesc ar = Some i \<longrightarrow> p \<in> blocks (descs s ! i) a - set (free_list (descs s ! i)) \<and> room s p = block_size (descs s ! i)"
proof -
  obtain a ar where a: "arenas s a = Some ar"
    and c: "case adesc ar of None \<Rightarrow> p = a + ARENA_SIZE | Some i \<Rightarrow> p \<in> blocks (descs s ! i) a - set (free_list (descs s ! i))"
    using p by (auto simp: live_def)
  note q = arena_addr [OF k a]
  show thesis
  proof (cases "adesc ar")
    case None
    then have pa: "p = a + ARENA_SIZE" using c by simp
    note g = big_block_to_arena [OF k a None]
    have n: "0 < free_cnt ar" using q(4) None by (simp add: arena_pages_def)
    have "room s p = PGSIZE * free_cnt ar - ARENA_SIZE"
      using g a None by (simp add: room_def block_size_of_def pa)
    moreover have "PGSIZE * 1 \<le> PGSIZE * free_cnt ar" using n by (intro mult_left_mono) simp_all
    then have "ARENA_SIZE < PGSIZE * free_cnt ar" by (simp add: ARENA_SIZE_def PGSIZE_def)
    ultimately show thesis
      using that [OF a g(1) [folded pa]] pa None by (simp add: extent_def arena_pages_def)
  next
    case (Some i)
    then have pb: "p \<in> blocks (descs s ! i) a - set (free_list (descs s ! i))" using c by simp
    have d: "desc_ok (descs s ! i)" by (rule minvD(8) [OF k q(7) [OF Some]])
    have t: "block_to_arena s p = Some a" using small_block_to_arena [OF k a Some] pb by simp
    have r: "room s p = block_size (descs s ! i)" using t a Some by (simp add: room_def block_size_of_def)
    have g: "a + ARENA_SIZE \<le> p" "p + block_size (descs s ! i) \<le> a + PGSIZE"
      using blocks_in_page [OF d] pb by blast+
    have "0 < block_size (descs s ! i)" using d by (simp add: desc_ok_def)
    then show thesis
      using that [OF a t] pb r g Some by (simp add: extent_def arena_pages_def)
  qed
qed

lemma live_apart:
  assumes k: "minv X s" and p: "p \<in> live s" "q \<in> live s" "p \<noteq> q"
  shows "{p ..< p + room s p} \<inter> {q ..< q + room s q} = {}"
proof -
  obtain a ar where a: "arenas s a = Some ar" "block_to_arena s p = Some a" "p \<in> extent a ar"
      "p + room s p \<le> a + PGSIZE * arena_pages ar"
      "adesc ar = None \<longrightarrow> p = a + ARENA_SIZE"
      "\<forall>i. adesc ar = Some i \<longrightarrow> p \<in> blocks (descs s ! i) a - set (free_list (descs s ! i)) \<and> room s p = block_size (descs s ! i)"
    using k p(1) by (rule liveE)
  obtain b br where b: "arenas s b = Some br" "block_to_arena s q = Some b" "q \<in> extent b br"
      "q + room s q \<le> b + PGSIZE * arena_pages br"
      "adesc br = None \<longrightarrow> q = b + ARENA_SIZE"
      "\<forall>i. adesc br = Some i \<longrightarrow> q \<in> blocks (descs s ! i) b - set (free_list (descs s ! i)) \<and> room s q = block_size (descs s ! i)"
    using k p(2) by (rule liveE)
  have pe: "{p ..< p + room s p} \<subseteq> extent a ar" "{q ..< q + room s q} \<subseteq> extent b br"
    using a(3,4) b(3,4) by (auto simp: extent_def)
  show ?thesis
  proof (cases "a = b")
    case False
    then show ?thesis using minvD(4) [OF k a(1) b(1) False] pe by blast
  next
    case True
    then have ar: "br = ar" using a(1) b(1) by simp
    show ?thesis
    proof (cases "adesc ar")
      case None
      then show ?thesis using a(5) b(5) ar True p(3) by simp
    next
      case (Some i)
      have d: "desc_ok (descs s ! i)" by (rule minvD(8) [OF k arena_addr(7) [OF k a(1) Some]])
      have m: "p \<in> blocks (descs s ! i) a" "q \<in> blocks (descs s ! i) a"
          "room s p = block_size (descs s ! i)" "room s q = block_size (descs s ! i)"
        using a(6) b(6) Some ar True by auto
      have "p + room s p \<le> q \<or> q + room s q \<le> p"
        using blocks_apart [OF d m(1,2)] blocks_apart [OF d m(2,1)] m(3,4) p(3) by (cases "p < q") auto
      then show ?thesis by auto
    qed
  qed
qed

text \<open>A block in use has no byte of a header of an arena nor of a free block.\<close>

lemma live_header:
  assumes k: "minv X s" and q: "q \<in> live s" and a: "arenas s a = Some ar"
  shows "{q ..< q + room s q} \<inter> {a ..< a + ARENA_SIZE} = {}"
proof -
  obtain b br where b: "arenas s b = Some br" "q \<in> extent b br"
      "q + room s q \<le> b + PGSIZE * arena_pages br" "adesc br = None \<longrightarrow> q = b + ARENA_SIZE"
      "\<forall>i. adesc br = Some i \<longrightarrow> q \<in> blocks (descs s ! i) b - set (free_list (descs s ! i)) \<and> room s q = block_size (descs s ! i)"
    using k q by (rule liveE)
  show ?thesis
  proof (cases "a = b")
    case True
    have "b + ARENA_SIZE \<le> q"
    proof (cases "adesc br")
      case (Some i)
      have "desc_ok (descs s ! i)" by (rule minvD(8) [OF k arena_addr(7) [OF k b(1) Some]])
      then show ?thesis using blocks_in_page(1) [of "descs s ! i" q b] b(5) Some by simp
    qed (use b(4) in simp)
    then show ?thesis using True by auto
  next
    case False
    have "{q ..< q + room s q} \<subseteq> extent b br" using b(2,3) by (auto simp: extent_def)
    moreover have "ARENA_SIZE \<le> PGSIZE * arena_pages ar"
      using arena_addr(4) [OF k a] by (cases "arena_pages ar") (simp_all add: ARENA_SIZE_def PGSIZE_def)
    then have "{a ..< a + ARENA_SIZE} \<subseteq> extent a ar" by (auto simp: extent_def)
    ultimately show ?thesis using minvD(4) [OF k a b(1) False] by blast
  qed
qed

lemma live_free:
  assumes k: "minv X s" and q: "q \<in> live s" and i: "i < length (descs s)" and c: "c \<in> set (free_list (descs s ! i))"
  shows "{q ..< q + room s q} \<inter> {c ..< c + block_size (descs s ! i)} = {}"
proof -
  obtain a ar where a: "arenas s a = Some ar" "adesc ar = Some i" "c \<in> blocks (descs s ! i) a"
    using minvD(6) [OF k i c] by blast
  have d: "desc_ok (descs s ! i)" by (rule minvD(8) [OF k i])
  obtain b br where b: "arenas s b = Some br" "q \<in> extent b br"
      "q + room s q \<le> b + PGSIZE * arena_pages br" "adesc br = None \<longrightarrow> q = b + ARENA_SIZE"
      "\<forall>i. adesc br = Some i \<longrightarrow> q \<in> blocks (descs s ! i) b - set (free_list (descs s ! i)) \<and> room s q = block_size (descs s ! i)"
    using k q by (rule liveE)
  show ?thesis
  proof (cases "a = b")
    case True
    then have m: "q \<in> blocks (descs s ! i) a" "q \<noteq> c" "room s q = block_size (descs s ! i)"
      using a b c by auto
    have "q + room s q \<le> c \<or> c + block_size (descs s ! i) \<le> q"
      using blocks_apart [OF d m(1) a(3)] blocks_apart [OF d a(3) m(1)] m(2,3) by (cases "q < c") auto
    then show ?thesis by auto
  next
    case False
    have "{q ..< q + room s q} \<subseteq> extent b br" using b(2,3) by (auto simp: extent_def)
    moreover have "{c ..< c + block_size (descs s ! i)} \<subseteq> extent a ar"
      using blocks_in_page [OF d a(3)] a(2) by (auto simp: extent_def arena_pages_def)
    ultimately show ?thesis using minvD(4) [OF k a(1) b(1) False] by blast
  qed
qed

section \<open>Changes that keep the invariant\<close>

lemma set_desc_simps [simp]:
  "descs (set_desc i f s) = (descs s)[i := f (descs s ! i)]" "arenas (set_desc i f s) = arenas s"
  "pst (set_desc i f s) = pst s"
  by (simp_all add: set_desc_def)

lemma blocks_free_list [simp]: "blocks (d\<lparr>free_list := fl\<rparr>) a = blocks d a"
  by (simp add: blocks_def)

lemma desc_ok_free_list [simp]: "desc_ok (d\<lparr>free_list := fl\<rparr>) = desc_ok d"
  by (simp add: desc_ok_def)

lemma blocks_extent:
  assumes "desc_ok d" "adesc ar = Some i" shows "blocks d a \<subseteq> extent a ar"
proof
  fix b assume "b \<in> blocks d a"
  from blocks_in_page [OF assms(1) this] show "b \<in> extent a ar"
    using assms by (auto simp: extent_def arena_pages_def desc_ok_def)
qed

lemma blocks_disjoint:
  assumes k: "minv X s" and a: "arenas s a = Some ar" "adesc ar = Some i"
    and b: "arenas s b = Some br" "adesc br = Some i" "a \<noteq> b"
  shows "blocks (descs s ! i) a \<inter> blocks (descs s ! i) b = {}"
proof -
  have d: "desc_ok (descs s ! i)" by (rule minvD(8) [OF k arena_addr(7) [OF k a]])
  show ?thesis
    using blocks_extent [OF d a(2), of a] blocks_extent [OF d b(2), of b] minvD(4) [OF k a(1) b(1,3)] by blast
qed

text \<open>The free list of a descriptor changes inside one arena.\<close>

definition relist :: "nat \<Rightarrow> nat list \<Rightarrow> nat \<Rightarrow> nat \<Rightarrow> mstate \<Rightarrow> mstate" where
  "relist i fl a n s = s\<lparr>descs := (descs s)[i := (descs s ! i)\<lparr>free_list := fl\<rparr>],
     arenas := (arenas s)(a := map_option (\<lambda>ar. ar\<lparr>free_cnt := n\<rparr>) (arenas s a))\<rparr>"

lemma minv_relist:
  assumes k: "minv X s" and a: "arenas s a = Some ar" "adesc ar = Some i"
    and fl: "distinct fl" "set fl - blocks (descs s ! i) a = set (free_list (descs s ! i)) - blocks (descs s ! i) a"
    and n: "n = card (set fl \<inter> blocks (descs s ! i) a)"
    and Y: "X - {a} \<subseteq> Y" "a \<notin> Y \<Longrightarrow> n < blocks_per_arena (descs s ! i)"
  shows "minv Y (relist i fl a n s)"
    "live (relist i fl a n s) = (live s - blocks (descs s ! i) a) \<union> (blocks (descs s ! i) a - set fl)"
proof -
  let ?d = "descs s ! i" and ?s = "relist i fl a n s"
  have i: "i < length (descs s)" by (rule arena_addr(7) [OF k a])
  have d: "desc_ok ?d" by (rule minvD(8) [OF k i])
  have ar: "arenas ?s b = (if b = a then Some (ar\<lparr>free_cnt := n\<rparr>) else arenas s b)" for b
    by (simp add: relist_def a)
  have ds: "descs ?s ! j = (if j = i then ?d\<lparr>free_list := fl\<rparr> else descs s ! j)" if "j < length (descs s)" for j
    using that by (simp add: relist_def)
  have len: "length (descs ?s) = length (descs s)" "pst ?s = pst s" by (simp_all add: relist_def)
  have bl: "blocks (descs ?s ! j) b = blocks (descs s ! j) b" if "j < length (descs s)" for j b
    using ds [OF that] by simp
  have oth: "set fl \<inter> blocks ?d b = set (free_list ?d) \<inter> blocks ?d b"
    if "arenas s b = Some br" "adesc br = Some i" "b \<noteq> a" for b br
    using blocks_disjoint [OF k a that(1,2)] that(3) fl(2) by blast
  have ap: "arena_pages (ar\<lparr>free_cnt := n\<rparr>) = arena_pages ar" using a(2) by (simp add: arena_pages_def)
  have ex: "extent b br = extent b cr" if "arenas ?s b = Some br" "arenas s b = Some cr" for b br cr
    using that a(1) ap by (auto simp: ar extent_def split: if_splits)
  have some: "\<exists>cr. arenas s b = Some cr \<and> adesc cr = adesc br \<and> extent b cr = extent b br \<and> (b \<noteq> a \<longrightarrow> cr = br)"
    if "arenas ?s b = Some br" for b br
    using that a(1) ap by (auto simp: ar extent_def split: if_splits)
  have di: "\<And>b br j. arenas s b = Some br \<Longrightarrow> adesc br = Some j \<Longrightarrow> j < length (descs s)"
    using arena_addr(7) [OF k] by blast
  show "minv Y ?s"
    unfolding minv_def
  proof (intro conjI allI impI ballI)
    show "pstate_ok (pst ?s)" using minvD(1) [OF k] by (simp add: len)
    show "desc_ok e" if "e \<in> set (descs ?s)" for e
    proof -
      have "e \<in> insert (?d\<lparr>free_list := fl\<rparr>) (set (descs s))"
        using that set_update_subset_insert [of "descs s" i "?d\<lparr>free_list := fl\<rparr>"] by (auto simp: relist_def)
      then show ?thesis using d minvD(2) [OF k] by auto
    qed
    show "arena_ok ?s b br" if b: "arenas ?s b = Some br" for b br
    proof (cases "b = a")
      case True
      have ok: "arena_ok s a ar" by (rule minvD(3) [OF k a(1)])
      have br: "br = ar\<lparr>free_cnt := n\<rparr>" using b True by (simp add: ar)
      have c: "free_cnt br = card (set (free_list (descs ?s ! i)) \<inter> blocks (descs ?s ! i) a)"
        unfolding ds [OF i] br using n by simp
      show ?thesis
        unfolding arena_ok_def len True
        using ok c a(2) i by (simp add: arena_ok_def br ap)
    next
      case False
      then have b': "arenas s b = Some br" using b by (simp add: ar)
      then have ok: "arena_ok s b br" by (rule minvD(3) [OF k])
      show ?thesis
      proof (cases "adesc br")
        case None
        then show ?thesis using ok by (simp add: arena_ok_def len)
      next
        case (Some j)
        then show ?thesis using ok ds [OF di [OF b' Some]] bl [OF di [OF b' Some]] oth [OF b' _ False]
          by (auto simp: arena_ok_def len)
      qed
    qed
    show "extent b br \<inter> extent c cr = {}"
      if "arenas ?s b = Some br" "arenas ?s c = Some cr" "b \<noteq> c" for b br c cr
      using some [OF that(1)] some [OF that(2)] minvD(4) [OF k] that(3) by metis
    show "distinct (free_list (descs ?s ! j))" if "j < length (descs ?s)" for j
      using that fl(1) minvD(5) [OF k] ds by (simp add: len)
    show "\<exists>c cr. arenas ?s c = Some cr \<and> adesc cr = Some j \<and> b \<in> blocks (descs ?s ! j) c"
      if j: "j < length (descs ?s)" and b: "b \<in> set (free_list (descs ?s ! j))" for j b
    proof -
      have j': "j < length (descs s)" using j by (simp add: len)
      show ?thesis
      proof (cases "j = i \<and> b \<in> blocks ?d a")
        case True
        then show ?thesis using a bl [OF j'] by (intro exI [of _ a]) (simp add: ar)
      next
        case False
        then have "b \<in> set (free_list (descs s ! j))" using b ds [OF j'] fl(2) by (auto split: if_splits)
        then obtain c cr where c: "arenas s c = Some cr" "adesc cr = Some j" "b \<in> blocks (descs s ! j) c"
          using minvD(6) [OF k j'] by blast
        then show ?thesis
          using a bl [OF j'] by (intro exI [of _ c]) (auto simp: ar)
      qed
    qed
    show "free_cnt br < blocks_per_arena (descs ?s ! j)"
      if b: "arenas ?s b = Some br" "adesc br = Some j" "b \<notin> Y" for b br j
    proof (cases "b = a")
      case True
      then have "j = i" "free_cnt br = n" using b a(2) by (auto simp: ar)
      then show ?thesis using Y(2) b(3) True ds [OF i] by simp
    next
      case False
      then have b': "arenas s b = Some br" using b(1) by (simp add: ar)
      have "b \<notin> X" using b(3) Y(1) False by blast
      then show ?thesis using minvD(7) [OF k b' b(2)] ds [OF di [OF b' b(2)]] by (cases "j = i") simp_all
    qed
  qed
  show "live ?s = (live s - blocks ?d a) \<union> (blocks ?d a - set fl)"
  proof (intro set_eqI iffI)
    fix x assume "x \<in> live ?s"
    then obtain b br where b: "arenas ?s b = Some br"
      and x: "case adesc br of None \<Rightarrow> x = b + ARENA_SIZE | Some j \<Rightarrow> x \<in> blocks (descs ?s ! j) b - set (free_list (descs ?s ! j))"
      by (auto simp: live_def)
    show "x \<in> (live s - blocks ?d a) \<union> (blocks ?d a - set fl)"
    proof (cases "b = a")
      case True
      then show ?thesis using b x a(2) ds [OF i] by (auto simp: ar)
    next
      case False
      then have b': "arenas s b = Some br" using b by (simp add: ar)
      show ?thesis
      proof (cases "adesc br")
        case None
        have "x \<in> extent b br"
          using x None arena_addr(4) [OF k b'] None by (auto simp: extent_def arena_pages_def PGSIZE_def ARENA_SIZE_def)
        then have "x \<notin> blocks ?d a" using minvD(4) [OF k a(1) b'] False blocks_extent [OF d a(2), of a] by blast
        moreover have "x \<in> live s" by (rule liveI [OF b']) (use x None in simp)
        ultimately show ?thesis by simp
      next
        case (Some j)
        have j: "j < length (descs s)" by (rule di [OF b' Some])
        have xb: "x \<in> blocks (descs s ! j) b" using x Some bl [OF j] by simp
        then have "x \<in> extent b br" using blocks_extent [OF minvD(8) [OF k j] Some] by blast
        then have na: "x \<notin> blocks ?d a" using minvD(4) [OF k a(1) b'] False blocks_extent [OF d a(2), of a] by blast
        have "x \<notin> set (free_list (descs s ! j))" using x Some ds [OF j] fl(2) na by (auto split: if_splits)
        then have "x \<in> live s" by (intro liveI [OF b']) (use Some xb in simp)
        then show ?thesis using na by simp
      qed
    qed
  next
    fix x assume x: "x \<in> (live s - blocks ?d a) \<union> (blocks ?d a - set fl)"
    show "x \<in> live ?s"
    proof (cases "x \<in> blocks ?d a - set fl")
      case True
      then show ?thesis
        by (intro liveI [of ?s a "ar\<lparr>free_cnt := n\<rparr>"]) (use a(2) ds [OF i] in \<open>simp_all add: ar\<close>)
    next
      case False
      then have x: "x \<in> live s" "x \<notin> blocks ?d a" using x by auto
      then obtain b br where b: "arenas s b = Some br"
        and c: "case adesc br of None \<Rightarrow> x = b + ARENA_SIZE | Some j \<Rightarrow> x \<in> blocks (descs s ! j) b - set (free_list (descs s ! j))"
        by (auto simp: live_def)
      have ba: "b \<noteq> a" using c x(2) b a by (auto split: option.splits)
      show ?thesis
      proof (cases "adesc br")
        case None
        then show ?thesis by (intro liveI [of ?s b br]) (use b c ba in \<open>simp_all add: ar\<close>)
      next
        case (Some j)
        have j: "j < length (descs s)" by (rule di [OF b Some])
        have "x \<notin> set (free_list (descs ?s ! j))" using c Some ds [OF j] fl(2) x(2) by (auto split: if_splits)
        then show ?thesis by (intro liveI [of ?s b br]) (use b c ba Some bl [OF j] in \<open>simp_all add: ar\<close>)
      qed
    qed
  qed
qed

text \<open>Pages and addresses.\<close>

lemma extents_iff:
  assumes "a = page_addr False P j" "b = page_addr False P l" "0 < n" "0 < m"
  shows "{a ..< a + PGSIZE * n} \<inter> {b ..< b + PGSIZE * m} = {} \<longleftrightarrow> {j ..< j + n} \<inter> {l ..< l + m} = {}"
proof -
  have p: "0 < PGSIZE" by (simp add: PGSIZE_def)
  have ab: "a = base (kernel_pool P) + PGSIZE * j" "b = base (kernel_pool P) + PGSIZE * l"
    using assms(1,2) by (simp_all add: page_addr_def get_pool_def)
  have le: "a + PGSIZE * n \<le> b \<longleftrightarrow> j + n \<le> l" "b + PGSIZE * m \<le> a \<longleftrightarrow> l + m \<le> j"
    using p by (simp_all add: ab flip: distrib_left)
  have iv: "{x ..< x + k} \<inter> {y ..< y + i} = {} \<longleftrightarrow> x + k \<le> y \<or> y + i \<le> x" if "0 < k" "0 < i" for x y k i :: nat
    using that by (auto simp: ivl_disj_un_two)
  show ?thesis
    using iv [of "PGSIZE * n" "PGSIZE * m" a b] iv [of n m j l] assms(3,4) p le by simp
qed

text \<open>A new arena: no block of it is free yet.\<close>

lemma minv_add:
  assumes k: "minv X s" and p: "pstate_ok p" "\<And>u. base (get_pool u p) = base (get_pool u (pst s))"
      "\<And>u. pool_pages u p = pool_pages u (pst s)"
    and j: "j + n \<le> pool_pages False (pst s)" "{j ..< j + n} \<subseteq> free_pages False (pst s)"
      "free_pages False p = free_pages False (pst s) - {j ..< j + n}" "0 < n"
    and a: "a = page_addr False (pst s) j"
    and ar: "magic ar = ARENA_MAGIC" "arena_pages ar = n"
      "\<And>i. adesc ar = Some i \<Longrightarrow> i < length (descs s) \<and> free_cnt ar = 0"
  shows "minv X (s\<lparr>pst := p, arenas := (arenas s)(a \<mapsto> ar)\<rparr>)" (is "minv X ?s")
    "live (s\<lparr>pst := p, arenas := (arenas s)(a \<mapsto> ar)\<rparr>) =
      live s \<union> (case adesc ar of None \<Rightarrow> {a + ARENA_SIZE} | Some i \<Rightarrow> blocks (descs s ! i) a)"
    "arenas s a = None"
proof -
  have pa: "page_addr False p = page_addr False (pst s)" by (rule ext) (simp add: page_addr_def p)
  have dis: "extent a ar \<inter> extent b br = {}" if b: "arenas s b = Some br" for b br
  proof -
    have "arena_ok s b br" by (rule minvD(3) [OF k b])
    then obtain l where l: "b = page_addr False (pst s) l" "0 < arena_pages br"
        "{l ..< l + arena_pages br} \<inter> free_pages False (pst s) = {}"
      by (auto simp: arena_ok_def)
    have "{j ..< j + n} \<inter> {l ..< l + arena_pages br} = {}" using j(2) l(3) by blast
    then show ?thesis
      unfolding extent_def ar(2) using extents_iff [OF a l(1) j(4) l(2)] by simp
  qed
  have ane: "a \<in> extent a ar" using j(4) by (simp add: extent_def ar PGSIZE_def)
  show fresh: "arenas s a = None"
  proof (rule ccontr)
    assume "arenas s a \<noteq> None"
    then obtain br where b: "arenas s a = Some br" by blast
    have "a \<in> extent a br" using arena_addr(4) [OF k b] by (simp add: extent_def PGSIZE_def)
    then show False using dis [OF b] ane by blast
  qed
  have nofree: "set (free_list (descs s ! i)) \<inter> blocks (descs s ! i) a = {}" if i: "adesc ar = Some i" for i
  proof (rule ccontr)
    have il: "i < length (descs s)" using ar(3) [OF i] by simp
    assume "set (free_list (descs s ! i)) \<inter> blocks (descs s ! i) a \<noteq> {}"
    then obtain x where x: "x \<in> set (free_list (descs s ! i))" "x \<in> blocks (descs s ! i) a" by blast
    obtain b br where b: "arenas s b = Some br" "adesc br = Some i" "x \<in> blocks (descs s ! i) b"
      using minvD(6) [OF k il x(1)] by blast
    have "x \<in> extent a ar" "x \<in> extent b br"
      using blocks_extent [OF minvD(8) [OF k il] i] blocks_extent [OF minvD(8) [OF k il] b(2)] x(2) b(3) by blast+
    then show False using dis [OF b(1)] by blast
  qed
  have ok: "arena_ok ?s a ar"
    unfolding arena_ok_def using ar j a nofree
    by (auto simp: pa p intro!: exI [of _ j] split: option.splits)
  have old: "arena_ok ?s b br" if "arenas s b = Some br" for b br
  proof -
    have "arena_ok s b br" by (rule minvD(3) [OF k that])
    moreover have "X \<inter> (free_pages False (pst s) - {j ..< j + n}) = {}" if "X \<inter> free_pages False (pst s) = {}" for X
      using that by blast
    ultimately show ?thesis unfolding arena_ok_def by (auto simp: pa p j(3) split: option.splits)
  qed
  have blk: "\<exists>c cr. arenas ?s c = Some cr \<and> adesc cr = Some i \<and> b \<in> blocks (descs s ! i) c"
    if "i < length (descs s)" "b \<in> set (free_list (descs s ! i))" for i b
    using minvD(6) [OF k that] fresh by (metis (no_types, lifting) fun_upd_other mstate.select_convs(3) mstate.surjective mstate.update_convs(1,3) option.distinct(1))
  have cnt: "free_cnt br < blocks_per_arena (descs s ! i)"
    if b: "arenas ?s b = Some br" "adesc br = Some i" "b \<notin> X" for b br i
  proof (cases "b = a")
    case True
    then show ?thesis using b ar(3) blocks_nonempty minvD(8) [OF k] by auto
  next
    case False
    then show ?thesis using b minvD(7) [OF k] by simp
  qed
  have ext: "extent b br \<inter> extent c cr = {}"
    if "arenas ?s b = Some br" "arenas ?s c = Some cr" "b \<noteq> c" for b br c cr
    using that dis minvD(4) [OF k] by (cases "b = a"; cases "c = a") (auto simp: Int_commute)
  show "minv X ?s"
    unfolding minv_def
    using p(1) minvD(2,5) [OF k] blk cnt ext ok old by (auto split: if_splits)
  show "live ?s = live s \<union> (case adesc ar of None \<Rightarrow> {a + ARENA_SIZE} | Some i \<Rightarrow> blocks (descs s ! i) a)"
  proof (intro set_eqI iffI)
    fix x assume "x \<in> live ?s"
    then obtain b br where b: "arenas ?s b = Some br"
      and x: "case adesc br of None \<Rightarrow> x = b + ARENA_SIZE | Some i \<Rightarrow> x \<in> blocks (descs s ! i) b - set (free_list (descs s ! i))"
      by (auto simp: live_def simp del: fun_upd_apply cong: option.case_cong)
    show "x \<in> live s \<union> (case adesc ar of None \<Rightarrow> {a + ARENA_SIZE} | Some i \<Rightarrow> blocks (descs s ! i) a)"
    proof (cases "b = a")
      case True
      then show ?thesis using b x by (auto split: option.splits)
    next
      case False
      then have "x \<in> live s" using b x by (intro liveI [of s b br]) simp_all
      then show ?thesis by simp
    qed
  next
    fix x assume x: "x \<in> live s \<union> (case adesc ar of None \<Rightarrow> {a + ARENA_SIZE} | Some i \<Rightarrow> blocks (descs s ! i) a)"
    show "x \<in> live ?s"
    proof (cases "x \<in> live s")
      case True
      then obtain b br where b: "arenas s b = Some br"
        "case adesc br of None \<Rightarrow> x = b + ARENA_SIZE | Some i \<Rightarrow> x \<in> blocks (descs s ! i) b - set (free_list (descs s ! i))"
        by (auto simp: live_def)
      then show ?thesis using fresh by (intro liveI [of ?s b br]) (auto cong: option.case_cong)
    next
      case False
      then show ?thesis using x nofree by (intro liveI [of ?s a ar]) (auto split: option.splits)
    qed
  qed
qed

text \<open>An arena that goes away: none of its blocks is on a free list.\<close>

lemma minv_drop:
  assumes k: "minv X s" and a: "arenas s a = Some ar"
    and p: "pstate_ok p" "\<And>u. base (get_pool u p) = base (get_pool u (pst s))"
      "\<And>u. pool_pages u p = pool_pages u (pst s)"
    and j: "a = page_addr False (pst s) j"
      "free_pages False p = free_pages False (pst s) \<union> {j ..< j + arena_pages ar}"
    and nf: "\<And>i. adesc ar = Some i \<Longrightarrow> set (free_list (descs s ! i)) \<inter> blocks (descs s ! i) a = {}"
    and Y: "X - {a} \<subseteq> Y"
  shows "minv Y (s\<lparr>pst := p, arenas := (arenas s)(a := None)\<rparr>)" (is "minv Y ?s")
    "live (s\<lparr>pst := p, arenas := (arenas s)(a := None)\<rparr>) =
      live s - (case adesc ar of None \<Rightarrow> {a + ARENA_SIZE} | Some i \<Rightarrow> blocks (descs s ! i) a)"
proof -
  have pa: "page_addr False p = page_addr False (pst s)" by (rule ext) (simp add: page_addr_def p)
  have old: "arena_ok ?s b br" if b: "arenas s b = Some br" "b \<noteq> a" for b br
  proof -
    have ok: "arena_ok s b br" by (rule minvD(3) [OF k b(1)])
    then obtain l where l: "b = page_addr False (pst s) l" "0 < arena_pages br"
        "l + arena_pages br \<le> pool_pages False (pst s)" "{l ..< l + arena_pages br} \<inter> free_pages False (pst s) = {}"
      by (auto simp: arena_ok_def)
    have "extent a ar \<inter> extent b br = {}" by (rule minvD(4) [OF k a b(1)]) (use b(2) in simp)
    then have "{j ..< j + arena_pages ar} \<inter> {l ..< l + arena_pages br} = {}"
      unfolding extent_def using extents_iff [OF j(1) l(1) arena_addr(4) [OF k a] l(2)] by simp
    then have "{l ..< l + arena_pages br} \<inter> free_pages False p = {}" using l(4) j(2) by blast
    then show ?thesis
      using ok l unfolding arena_ok_def by (auto simp: pa p split: option.splits)
  qed
  have blk: "\<exists>c cr. arenas ?s c = Some cr \<and> adesc cr = Some i \<and> b \<in> blocks (descs s ! i) c"
    if i: "i < length (descs s)" "b \<in> set (free_list (descs s ! i))" for i b
  proof -
    obtain c cr where c: "arenas s c = Some cr" "adesc cr = Some i" "b \<in> blocks (descs s ! i) c"
      using minvD(6) [OF k i] by blast
    moreover have "c \<noteq> a" using c nf [of i] a i(2) by auto
    ultimately show ?thesis by auto
  qed
  have cnt: "free_cnt br < blocks_per_arena (descs s ! i)"
    if b: "arenas s b = Some br" "b \<noteq> a" "adesc br = Some i" "b \<notin> Y" for b br i
    by (rule minvD(7) [OF k b(1,3)]) (use b(2,4) Y in blast)
  show "minv Y ?s"
    unfolding minv_def
    using p(1) minvD(2,4,5) [OF k] blk old cnt by (auto split: if_splits)
  show "live ?s = live s - (case adesc ar of None \<Rightarrow> {a + ARENA_SIZE} | Some i \<Rightarrow> blocks (descs s ! i) a)"
  proof (intro set_eqI iffI)
    fix x assume "x \<in> live ?s"
    then obtain b br where b: "arenas s b = Some br" "b \<noteq> a"
      and x: "case adesc br of None \<Rightarrow> x = b + ARENA_SIZE | Some i \<Rightarrow> x \<in> blocks (descs s ! i) b - set (free_list (descs s ! i))"
      by (auto simp: live_def split: if_splits cong: option.case_cong)
    have lx: "x \<in> live s" by (rule liveI [OF b(1) x])
    have xb: "x \<in> extent b br"
    proof (cases "adesc br")
      case None
      then show ?thesis using x arena_addr(4) [OF k b(1)] None
        by (auto simp: extent_def arena_pages_def PGSIZE_def ARENA_SIZE_def)
    next
      case (Some i)
      then show ?thesis using x blocks_extent [OF minvD(8) [OF k arena_addr(7) [OF k b(1) Some]] Some] by auto
    qed
    have "extent a ar \<inter> extent b br = {}" by (rule minvD(4) [OF k a b(1)]) (use b(2) in simp)
    moreover have "(case adesc ar of None \<Rightarrow> {a + ARENA_SIZE} | Some i \<Rightarrow> blocks (descs s ! i) a) \<subseteq> extent a ar"
    proof (cases "adesc ar")
      case None
      then show ?thesis using arena_addr(4) [OF k a] None
        by (auto simp: extent_def arena_pages_def PGSIZE_def ARENA_SIZE_def)
    next
      case (Some i)
      then show ?thesis using blocks_extent [OF minvD(8) [OF k arena_addr(7) [OF k a Some]] Some] by simp
    qed
    ultimately show "x \<in> live s - (case adesc ar of None \<Rightarrow> {a + ARENA_SIZE} | Some i \<Rightarrow> blocks (descs s ! i) a)"
      using lx xb by blast
  next
    fix x assume x: "x \<in> live s - (case adesc ar of None \<Rightarrow> {a + ARENA_SIZE} | Some i \<Rightarrow> blocks (descs s ! i) a)"
    then obtain b br where b: "arenas s b = Some br"
      "case adesc br of None \<Rightarrow> x = b + ARENA_SIZE | Some i \<Rightarrow> x \<in> blocks (descs s ! i) b - set (free_list (descs s ! i))"
      by (auto simp: live_def)
    have "b \<noteq> a" using x b a by (auto split: option.splits)
    then show "x \<in> live ?s" using b by (intro liveI [of ?s b br]) (simp_all cong: option.case_cong)
  qed
qed

section \<open>Allocating\<close>

text \<open>What stays the same about the arenas that stay.\<close>

definition shape :: "mstate \<Rightarrow> mstate \<Rightarrow> bool" where
  "shape s s' \<longleftrightarrow> length (descs s') = length (descs s) \<and>
     (\<forall>i < length (descs s). block_size (descs s' ! i) = block_size (descs s ! i)) \<and>
     (\<forall>a ar ar'. arenas s a = Some ar \<longrightarrow> arenas s' a = Some ar' \<longrightarrow>
        adesc ar' = adesc ar \<and> (adesc ar = None \<longrightarrow> free_cnt ar' = free_cnt ar))"

lemma block_to_arena_addr: "block_to_arena s b = Some a \<Longrightarrow> a = pg_round_down b"
  by (auto simp: block_to_arena_def Let_def bind_eq_Some_conv split: if_splits)

lemma room_shape:
  assumes k: "minv X s" "q \<in> live s" and k': "minv Y s'" "q \<in> live s'" and sh: "shape s s'"
  shows "room s' q = room s q"
proof -
  obtain a ar where a: "arenas s a = Some ar" "block_to_arena s q = Some a"
      "\<forall>i. adesc ar = Some i \<longrightarrow> q \<in> blocks (descs s ! i) a - set (free_list (descs s ! i)) \<and> room s q = block_size (descs s ! i)"
    using k by (rule liveE)
  obtain b br where b: "arenas s' b = Some br" "block_to_arena s' q = Some b"
      "\<forall>i. adesc br = Some i \<longrightarrow> q \<in> blocks (descs s' ! i) b - set (free_list (descs s' ! i)) \<and> room s' q = block_size (descs s' ! i)"
    using k' by (rule liveE)
  have ba: "b = a" using block_to_arena_addr [OF a(2)] block_to_arena_addr [OF b(2)] by simp
  have e: "adesc br = adesc ar" "adesc ar = None \<longrightarrow> free_cnt br = free_cnt ar"
    using sh a(1) b(1) ba by (auto simp: shape_def)
  show ?thesis
  proof (cases "adesc ar")
    case None
    then show ?thesis using a b e ba by (simp add: room_def block_size_of_def)
  next
    case (Some i)
    have "i < length (descs s)" by (rule arena_addr(7) [OF k(1) a(1) Some])
    then show ?thesis using a(3) b(3) e Some sh by (auto simp: shape_def)
  qed
qed

lemma room_writable:
  assumes "minv X s" "q \<in> live s"
  shows "writable (pmem (pst s)) q (room s q)" "q \<noteq> 0"
proof -
  obtain a ar where a: "arenas s a = Some ar" "q \<in> extent a ar" "q + room s q \<le> a + PGSIZE * arena_pages ar"
    using assms by (rule liveE)
  note w = arena_addr(2,6) [OF assms(1) a(1)]
  show "writable (pmem (pst s)) q (room s q)"
    by (rule writable_mono [OF w(2)]) (use a(2,3) in \<open>auto simp: extent_def\<close>)
  show "q \<noteq> 0" using w(1) a(2) by (auto simp: extent_def)
qed

lemma shape_relist: "minv X s \<Longrightarrow> shape s (relist i fl a n s) \<or> (\<exists>ar. arenas s a = Some ar \<and> adesc ar = None)"
  unfolding shape_def relist_def
  by (cases "i < length (descs s)") (auto simp: nth_list_update split: if_splits)

lemma live_split:
  assumes k: "minv X s" and a: "arenas s a = Some ar" "adesc ar = Some i"
  shows "live s = (live s - blocks (descs s ! i) a) \<union> (blocks (descs s ! i) a - set (free_list (descs s ! i)))"
proof -
  have i: "i < length (descs s)" by (rule arena_addr(7) [OF k a])
  have n: "free_cnt ar = card (set (free_list (descs s ! i)) \<inter> blocks (descs s ! i) a)"
    using minvD(3) [OF k a(1)] a(2) by (simp add: arena_ok_def)
  then have same: "relist i (free_list (descs s ! i)) a (free_cnt ar) s = s"
    using a by (simp add: relist_def fun_upd_idem)
  show ?thesis
    using minv_relist(2) [OF k a minvD(5) [OF k i] refl n, of "insert a X"] unfolding same by auto
qed

lemma free_le: "minv X s \<Longrightarrow> arenas s a = Some ar \<Longrightarrow> adesc ar = Some i \<Longrightarrow>
    free_cnt ar \<le> blocks_per_arena (descs s ! i)"
proof -
  assume k: "minv X s" and a: "arenas s a = Some ar" "adesc ar = Some i"
  have "free_cnt ar = card (set (free_list (descs s ! i)) \<inter> blocks (descs s ! i) a)"
    using minvD(3) [OF k a(1)] a(2) by (simp add: arena_ok_def)
  also have "\<dots> \<le> card (blocks (descs s ! i) a)" by (intro card_mono) simp_all
  also have "\<dots> = blocks_per_arena (descs s ! i)" by (rule blocks_card [OF minvD(8) [OF k arena_addr(7) [OF k a]]])
  finally show ?thesis .
qed

lemma pop_block_ok:
  assumes k: "minv X s" and i: "i < length (descs s)" and fl: "free_list (descs s ! i) = b # bs"
    and X: "\<And>a. a \<in> X \<Longrightarrow> b \<in> blocks (descs s ! i) a \<and> (\<exists>ar. arenas s a = Some ar \<and> adesc ar = Some i)"
  shows "\<exists>s'. pop_block i s = Some (b, s') \<and> minv {} s' \<and> live s' = insert b (live s) \<and> b \<notin> live s \<and>
     pst s' = pst s \<and> shape s s' \<and> room s' b = block_size (descs s ! i)"
proof -
  have bm: "b \<in> set (free_list (descs s ! i))" by (simp add: fl)
  obtain a ar where a: "arenas s a = Some ar" "adesc ar = Some i" "b \<in> blocks (descs s ! i) a"
    using minvD(6) [OF k i bm] by blast
  let ?B = "blocks (descs s ! i) a" and ?n = "free_cnt ar - 1"
  let ?s = "relist i bs a ?n s"
  have dst: "distinct (b # bs)" using minvD(5) [OF k i] by (simp add: fl)
  have cnt: "free_cnt ar = card (insert b (set bs \<inter> ?B))"
    using minvD(3) [OF k a(1)] a(2,3) fl by (simp add: arena_ok_def Int_insert_left)
  have n: "?n = card (set bs \<inter> ?B)" using cnt dst by simp
  have Xa: "X - {a} \<subseteq> {}"
  proof
    fix c assume c: "c \<in> X - {a}"
    then obtain cr where "arenas s c = Some cr" "adesc cr = Some i" "b \<in> blocks (descs s ! i) c" using X by blast
    then show "c \<in> {}" using blocks_disjoint [OF k a(1,2)] a(3) c by blast
  qed
  have lt: "?n < blocks_per_arena (descs s ! i)"
    using free_le [OF k a(1,2)] cnt dst by simp
  have fl': "set bs - ?B = set (free_list (descs s ! i)) - ?B" using a(3) by (auto simp: fl)
  note r = minv_relist [OF k a(1,2) _ fl' n Xa lt]
  have m: "minv {} ?s" "live ?s = (live s - ?B) \<union> (?B - set bs)" using r dst by simp_all
  have ls: "live s = (live s - ?B) \<union> (?B - insert b (set bs))"
    using live_split [OF k a(1,2)] by (simp add: fl)
  have lb: "live ?s = insert b (live s)" "b \<notin> live s" using m(2) ls a(3) dst by auto
  have t: "block_to_arena s b = Some a" by (rule small_block_to_arena [OF k a])
  have "block_to_arena (set_desc i (\<lambda>d. d\<lparr>free_list := bs\<rparr>) s) b = Some a"
    using t i by (auto simp: block_to_arena_def Let_def bind_eq_Some_conv nth_list_update split: if_splits option.splits)
  then have "pop_block i s = Some (b, ?s)"
    by (simp add: pop_block_def fl Let_def upd_arena_def set_desc_def relist_def a)
  moreover have "shape s ?s" using shape_relist [OF k, of i bs a ?n] a by auto
  moreover have "room ?s b = block_size (descs s ! i)"
  proof -
    have bl: "b \<in> live ?s" using lb by simp
    obtain c cr where c: "arenas ?s c = Some cr" "block_to_arena ?s b = Some c"
      "\<forall>j. adesc cr = Some j \<longrightarrow> b \<in> blocks (descs ?s ! j) c - set (free_list (descs ?s ! j)) \<and> room ?s b = block_size (descs ?s ! j)"
      using m(1) bl by (rule liveE)
    have "c = a" using block_to_arena_addr [OF c(2)] block_to_arena_addr [OF t] by simp
    then have "adesc cr = Some i" using c(1) a by (auto simp: relist_def)
    then show ?thesis using c(3) i by (auto simp: relist_def)
  qed
  ultimately show ?thesis using m(1) lb by (intro exI [of _ ?s]) (simp add: relist_def)
qed

lemma add_blocks_ok:
  "arenas s a = Some ar \<Longrightarrow> magic ar = ARENA_MAGIC \<Longrightarrow> adesc ar = Some i \<Longrightarrow> a \<noteq> 0 \<Longrightarrow> i < length (descs s) \<Longrightarrow>
   idx + n \<le> blocks_per_arena (descs s ! i) \<Longrightarrow>
   add_blocks i a idx n s = Some (set_desc i (\<lambda>d. d\<lparr>free_list := free_list d @
     map (\<lambda>k. a + ARENA_SIZE + k * block_size (descs s ! i)) [idx ..< idx + n]\<rparr>) s)"
proof (induction n arbitrary: idx s)
  case 0
  then show ?case by (simp add: set_desc_def)
next
  case (Suc n)
  let ?b = "a + ARENA_SIZE + idx * block_size (descs s ! i)"
  let ?s = "set_desc i (\<lambda>d. d\<lparr>free_list := free_list d @ [?b]\<rparr>) s"
  have b: "arena_to_block s a idx = Some ?b" using Suc.prems by (simp add: arena_to_block_def)
  have "add_blocks i a (idx + 1) n ?s = Some (set_desc i (\<lambda>d. d\<lparr>free_list := free_list d @
     map (\<lambda>k. a + ARENA_SIZE + k * block_size (descs ?s ! i)) [idx + 1 ..< (idx + 1) + n]\<rparr>) ?s)"
    by (rule Suc.IH) (use Suc.prems in simp_all)
  moreover have "[idx ..< idx + Suc n] = idx # [idx + 1 ..< (idx + 1) + n]" by (simp add: upt_rec)
  ultimately show ?case using b Suc.prems(5) by (simp add: set_desc_def)
qed

lemma find_desc_some:
  "find_desc ds i sz = Some k \<Longrightarrow> i \<le> k \<and> k < i + length ds \<and> sz \<le> block_size (ds ! (k - i))"
proof (induction ds arbitrary: i)
  case (Cons d ds)
  show ?case
  proof (cases "block_size d \<ge> sz")
    case False
    then have f: "find_desc ds (i + 1) sz = Some k" using Cons.prems by simp
    have "k - i = Suc (k - (i + 1))" using Cons.IH [OF f] by arith
    then show ?thesis using Cons.IH [OF f] by auto
  qed (use Cons.prems in auto)
qed simp

lemma shape_trans: "shape s t \<Longrightarrow> shape t u \<Longrightarrow> (\<And>a. arenas s a \<noteq> None \<Longrightarrow> arenas t a \<noteq> None) \<Longrightarrow> shape s u"
  unfolding shape_def by (metis not_Some_eq)

text \<open>What malloc promises.\<close>

definition mallocs :: "nat \<Rightarrow> mstate \<Rightarrow> nat \<Rightarrow> mstate \<Rightarrow> bool" where
  "mallocs sz s p s' \<longleftrightarrow> malloc_ok s' \<and> pmem (pst s') = pmem (pst s) \<and>
     (if p = 0
      then live s' = live s \<and> (\<forall>a. \<not> {a ..< a + (sz + ARENA_SIZE + PGSIZE - 1) div PGSIZE} \<subseteq> free_pages False (pst s))
      else p \<notin> live s \<and> live s' = insert p (live s) \<and> sz \<le> room s' p) \<and>
     (\<forall>q \<in> live s. room s' q = room s q)"

lemma flags_0: "(0 :: nat) AND PAL_USER = 0" "(0 :: nat) AND PAL_ASSERT = 0" "(0 :: nat) AND PAL_ZERO = 0"
  by simp_all

lemma mallocs_none:
  assumes k: "malloc_ok s"
    and n: "\<forall>a. \<not> {a ..< a + (sz + ARENA_SIZE + PGSIZE - 1) div PGSIZE} \<subseteq> free_pages False (pst s)"
  shows "mallocs sz s 0 s"
  using assms by (simp add: mallocs_def)

lemma live_page:
  assumes k: "minv X s" and q: "q \<in> live s"
  shows "arenas s (pg_round_down q) \<noteq> None"
proof -
  obtain a ar where a: "arenas s a = Some ar" "block_to_arena s q = Some a"
    using k q by (rule liveE)
  then show ?thesis using block_to_arena_addr [OF a(2)] by simp
qed

lemma shape_refl: "shape s s"
  by (simp add: shape_def)

text \<open>Adding a block to those in use.\<close>

lemma mallocs_some:
  assumes k: "malloc_ok s" and k': "malloc_ok s'" and l: "p \<notin> live s" "live s' = insert p (live s)"
    and sh: "shape s s'" and r: "sz \<le> room s' p" and m: "pmem (pst s') = pmem (pst s)"
  shows "mallocs sz s p s'"
proof -
  have "p \<noteq> 0" using room_writable(2) [of "{}" s' p] k' l(2) by (simp add: malloc_ok_def)
  moreover have "room s' q = room s q" if "q \<in> live s" for q
    using room_shape [OF k [unfolded malloc_ok_def] that k' [unfolded malloc_ok_def] _ sh] l(2) that by simp
  ultimately show ?thesis using k' l r m by (simp add: mallocs_def)
qed

text \<open>What the page allocator hands out to malloc.\<close>

lemma get_kernel_pages:
  assumes ok: "pstate_ok P" and n: "n \<noteq> 0" and b: "{b ..< b + n} \<subseteq> free_pages False P"
  shows "\<exists>j p. palloc_get_multiple 0 n P = Some (page_addr False P j, p) \<and> {j ..< j + n} \<subseteq> free_pages False P \<and>
    j + n \<le> pool_pages False P \<and> free_pages False p = free_pages False P - {j ..< j + n} \<and> pstate_ok p \<and>
    (\<forall>u. base (get_pool u p) = base (get_pool u P)) \<and> (\<forall>u. pool_pages u p = pool_pages u P) \<and> pmem p = pmem P"
  using palloc_get_ok(2) [OF ok n, where flags = 0 and a = b] b by (simp del: atLeastLessThan_singleton) blast

lemma malloc_big_ok:
  assumes k: "malloc_ok s" and sz: "0 < sz" "sz + 4107 < 2 ^ 32"
  shows "\<exists>p s'. malloc_big sz s = Some (p, s') \<and> mallocs sz s p s'"
proof -
  have kk: "minv {} s" using k by (simp add: malloc_ok_def)
  note pok = minvD(1) [OF kk]
  define n where "n = (sz + ARENA_SIZE + PGSIZE - 1) div PGSIZE"
  have cnt: "DIV_ROUND_UP (size_add sz ARENA_SIZE) PGSIZE = n"
    using sz by (simp add: DIV_ROUND_UP_def size_add_def ARENA_SIZE_def PGSIZE_def n_def)
  have n0: "n \<noteq> 0" by (simp add: n_def ARENA_SIZE_def PGSIZE_def div_greater_zero_iff)
  have cover: "sz + ARENA_SIZE \<le> PGSIZE * n" unfolding n_def PGSIZE_def by linarith
  show ?thesis
  proof (cases "\<exists>b. {b ..< b + n} \<subseteq> free_pages False (pst s)")
    case False
    then have none: "\<forall>b. \<not> {b ..< b + n} \<subseteq> free_pages False (pst s)" by blast
    have g: "palloc_get_multiple 0 n (pst s) = Some (0, pst s)"
      using palloc_get_ok(1) [OF pok n0, of 0] none by simp
    have "malloc_big sz s = Some (0, s)" by (simp add: malloc_big_def cnt g)
    then show ?thesis using mallocs_none [OF k] none unfolding n_def by blast
  next
    case True
    then obtain b where "{b ..< b + n} \<subseteq> free_pages False (pst s)" by blast
    then obtain j p where g: "palloc_get_multiple 0 n (pst s) = Some (page_addr False (pst s) j, p)"
        and j: "{j ..< j + n} \<subseteq> free_pages False (pst s)" "j + n \<le> pool_pages False (pst s)"
          "free_pages False p = free_pages False (pst s) - {j ..< j + n}"
        and p: "pstate_ok p" "\<And>u. base (get_pool u p) = base (get_pool u (pst s))"
          "\<And>u. pool_pages u p = pool_pages u (pst s)" "pmem p = pmem (pst s)"
      using get_kernel_pages [OF pok n0] by blast
    let ?a = "page_addr False (pst s) j" and ?ar = "\<lparr>magic = ARENA_MAGIC, adesc = None, free_cnt = n\<rparr>"
    let ?s = "s\<lparr>pst := p, arenas := (arenas s)(?a \<mapsto> ?ar)\<rparr>"
    have a0: "?a \<noteq> 0" using page_addr_bounds(1) [OF pok j(2)] .
    have add: "minv {} ?s" "live ?s = live s \<union> {?a + ARENA_SIZE}" "arenas s ?a = None"
      using minv_add [OF kk p(1-3) j(2,1,3) _ refl, of ?ar] n0 by (simp_all add: arena_pages_def)
    have at: "arenas ?s ?a = Some ?ar" by simp
    note bb = big_block_to_arena [OF add(1) at]
    have nl: "?a + ARENA_SIZE \<notin> live s"
      using live_page [OF kk, of "?a + ARENA_SIZE"] block_to_arena_addr [OF bb(1)] add(3) by auto
    have "room ?s (?a + ARENA_SIZE) = PGSIZE * n - ARENA_SIZE"
      using bb by (simp add: room_def block_size_of_def)
    then have r: "sz \<le> room ?s (?a + ARENA_SIZE)" using cover by simp
    have sh: "shape s ?s" using add(3) by (auto simp: shape_def)
    have "malloc_big sz s = Some (?a + ARENA_SIZE, ?s)" using a0 by (simp add: malloc_big_def cnt g)
    moreover have "mallocs sz s (?a + ARENA_SIZE) ?s"
      by (rule mallocs_some [OF k _ nl _ sh r]) (use add p(4) in \<open>simp_all add: malloc_ok_def\<close>)
    ultimately show ?thesis by blast
  qed
qed

text \<open>A new arena for a descriptor with no free block.\<close>

lemma new_arena_ok:
  assumes k: "malloc_ok s" and i: "i < length (descs s)" and fl: "free_list (descs s ! i) = []"
    and j: "j + 1 \<le> pool_pages False (pst s)" "{j ..< j + 1} \<subseteq> free_pages False (pst s)"
      "free_pages False p = free_pages False (pst s) - {j ..< j + 1}"
    and p: "pstate_ok p" "\<And>u. base (get_pool u p) = base (get_pool u (pst s))"
      "\<And>u. pool_pages u p = pool_pages u (pst s)"
  defines "a \<equiv> page_addr False (pst s) j" and "n \<equiv> blocks_per_arena (descs s ! i)"
  shows "\<exists>s' b. add_blocks i a 0 n (s\<lparr>pst := p, arenas := (arenas s)(a \<mapsto> \<lparr>magic = ARENA_MAGIC, adesc = Some i, free_cnt = n\<rparr>)\<rparr>) = Some s' \<and>
    pop_block i s' = Some b \<and> malloc_ok (snd b) \<and> live (snd b) = insert (fst b) (live s) \<and> fst b \<notin> live s \<and>
    shape s (snd b) \<and> room (snd b) (fst b) = block_size (descs s ! i) \<and> pst (snd b) = p"
proof -
  have kk: "minv {} s" using k by (simp add: malloc_ok_def)
  let ?d = "descs s ! i" and ?ar = "\<lparr>magic = ARENA_MAGIC, adesc = Some i, free_cnt = 0\<rparr>"
  have d: "desc_ok ?d" by (rule minvD(8) [OF kk i])
  let ?t = "s\<lparr>pst := p, arenas := (arenas s)(a \<mapsto> ?ar)\<rparr>"
  have aa: "a = page_addr False (pst s) j" by (simp add: a_def)
  have t: "minv {} ?t" "live ?t = live s \<union> blocks ?d a" "arenas s a = None"
    using minv_add [OF kk p(1-3) j(1-3) _ aa, of ?ar] i by (simp_all add: arena_pages_def)
  define bl where "bl = map (\<lambda>k. a + ARENA_SIZE + k * block_size ?d) [0 ..< n]"
  have bl: "set bl = blocks ?d a" "distinct bl"
    using d by (auto simp: bl_def blocks_def n_def distinct_map inj_on_def desc_ok_def)
  have n: "n = card (set bl \<inter> blocks (descs ?t ! i) a)" using blocks_card [OF d] bl by (simp add: n_def)
  let ?u = "relist i bl a n ?t"
  have fb: "set bl - blocks (descs ?t ! i) a = set (free_list (descs ?t ! i)) - blocks (descs ?t ! i) a"
    by (simp add: bl fl)
  have u: "minv {a} ?u" "live ?u = live ?t - blocks ?d a"
    using minv_relist [OF t(1) _ _ bl(2) fb n, of ?ar "{a}"] bl(1) by simp_all
  have sep: "live s \<inter> blocks ?d a = {}"
  proof -
    have "q \<notin> blocks ?d a" if q: "q \<in> live s" for q
    proof
      assume qb: "q \<in> blocks ?d a"
      have "PGSIZE dvd a" using arena_addr(1) [OF t(1), of a ?ar] by simp
      from blocks_geometry(1) [OF d qb this] show False using live_page [OF kk q] t(3) by simp
    qed
    then show ?thesis by blast
  qed
  have lu: "live ?u = live s" using u(2) t(2) sep by auto
  have a0: "a \<noteq> 0" using page_addr_bounds(1) [OF minvD(1) [OF kk] j(1)] by (simp add: a_def)
  let ?v = "s\<lparr>pst := p, arenas := (arenas s)(a \<mapsto> \<lparr>magic = ARENA_MAGIC, adesc = Some i, free_cnt = n\<rparr>)\<rparr>"
  have ad: "add_blocks i a 0 n ?v = Some ?u"
  proof -
    have "add_blocks i a 0 n ?v = Some (set_desc i (\<lambda>d. d\<lparr>free_list := free_list d @
        map (\<lambda>k. a + ARENA_SIZE + k * block_size (descs ?v ! i)) [0 ..< 0 + n]\<rparr>) ?v)"
      by (rule add_blocks_ok [where ar = "\<lparr>magic = ARENA_MAGIC, adesc = Some i, free_cnt = n\<rparr>"])
        (use a0 i in \<open>simp_all add: n_def\<close>)
    then show ?thesis by (simp add: set_desc_def relist_def bl_def fl)
  qed
  have n0: "bl \<noteq> []" using blocks_nonempty [OF d] by (simp add: bl_def n_def)
  then obtain b bs where bbs: "bl = b # bs" by (cases bl) auto
  have iu: "i < length (descs ?u)" using i by (simp add: relist_def)
  have flu: "free_list (descs ?u ! i) = b # bs" using i by (simp add: relist_def bbs)
  have Xu: "\<And>c. c \<in> {a} \<Longrightarrow> b \<in> blocks (descs ?u ! i) c \<and> (\<exists>ar. arenas ?u c = Some ar \<and> adesc ar = Some i)"
    using bl(1) bbs i by (auto simp: relist_def)
  obtain s' where s': "pop_block i ?u = Some (b, s')" "minv {} s'" "live s' = insert b (live ?u)" "b \<notin> live ?u"
      "pst s' = pst ?u" "shape ?u s'" "room s' b = block_size (descs ?u ! i)"
    using pop_block_ok [OF u(1) iu flu Xu] by blast
  have su: "shape s ?u" using t(3) i by (auto simp: shape_def relist_def nth_list_update)
  have sh: "shape s s'" by (rule shape_trans [OF su s'(6)]) (auto simp: relist_def)
  show ?thesis
    by (intro exI [of _ ?u] exI [of _ "(b, s')"])
      (use ad s' sh lu i in \<open>simp add: malloc_ok_def relist_def\<close>)
qed

lemma malloc_small_ok:
  assumes k: "malloc_ok s" and f: "find_desc (descs s) 0 sz = Some i" and sz: "0 < sz"
  shows "\<exists>p s'. malloc sz s = Some (p, s') \<and> mallocs sz s p s'"
proof -
  have kk: "minv {} s" using k by (simp add: malloc_ok_def)
  note pok = minvD(1) [OF kk]
  have i: "i < length (descs s)" "sz \<le> block_size (descs s ! i)" using find_desc_some [OF f] by simp_all
  have d: "desc_ok (descs s ! i)" by (rule minvD(8) [OF kk i(1)])
  show ?thesis
  proof (cases "free_list (descs s ! i)")
    case (Cons b bs)
    obtain s' where s': "pop_block i s = Some (b, s')" "minv {} s'" "live s' = insert b (live s)" "b \<notin> live s"
        "pst s' = pst s" "shape s s'" "room s' b = block_size (descs s ! i)"
      using pop_block_ok [OF kk i(1) Cons] by blast
    have "malloc sz s = Some (b, s')" using f sz s'(1) Cons by (simp add: malloc_def)
    moreover have "mallocs sz s b s'"
      by (rule mallocs_some [OF k _ s'(4,3,6)]) (use s' i in \<open>simp_all add: malloc_ok_def\<close>)
    ultimately show ?thesis by blast
  next
    case Nil
    have one: "(sz + ARENA_SIZE + PGSIZE - 1) div PGSIZE = 1"
    proof -
      have "sz + ARENA_SIZE + PGSIZE - 1 < 2 * PGSIZE" "PGSIZE \<le> sz + ARENA_SIZE + PGSIZE - 1"
        using i(2) d sz by (simp_all add: desc_ok_def PGSIZE_def ARENA_SIZE_def)
      then show ?thesis by (simp add: PGSIZE_def)
    qed
    show ?thesis
    proof (cases "\<exists>b. {b ..< b + 1} \<subseteq> free_pages False (pst s)")
      case False
      then have none: "\<forall>b. \<not> {b ..< b + 1} \<subseteq> free_pages False (pst s)" by blast
      have g: "palloc_get_page 0 (pst s) = Some (0, pst s)"
        using palloc_get_ok(1) [OF pok, of 1 0] none by (simp add: palloc_get_page_def)
      have "malloc sz s = Some (0, s)" using f sz by (simp add: malloc_def Nil g)
      then show ?thesis using mallocs_none [OF k, of sz, unfolded one] none by blast
    next
      case True
      then obtain b where b: "{b ..< b + 1} \<subseteq> free_pages False (pst s)" by blast
      obtain j p where g: "palloc_get_multiple 0 1 (pst s) = Some (page_addr False (pst s) j, p)"
        and j: "{j ..< j + 1} \<subseteq> free_pages False (pst s)" "j + 1 \<le> pool_pages False (pst s)"
          "free_pages False p = free_pages False (pst s) - {j ..< j + 1}"
        and p: "pstate_ok p" "\<And>u. base (get_pool u p) = base (get_pool u (pst s))"
          "\<And>u. pool_pages u p = pool_pages u (pst s)" "pmem p = pmem (pst s)"
        using get_kernel_pages [OF pok one_neq_zero b] by blast
      have a0: "page_addr False (pst s) j \<noteq> 0" using page_addr_bounds(1) [OF pok j(2)] .
      obtain s1 b s' where r: "add_blocks i (page_addr False (pst s) j) 0 (blocks_per_arena (descs s ! i))
          (s\<lparr>pst := p, arenas := (arenas s)(page_addr False (pst s) j \<mapsto>
            \<lparr>magic = ARENA_MAGIC, adesc = Some i, free_cnt = blocks_per_arena (descs s ! i)\<rparr>)\<rparr>) = Some s1"
        "pop_block i s1 = Some (b, s')" "malloc_ok s'" "live s' = insert b (live s)" "b \<notin> live s" "shape s s'"
        "room s' b = block_size (descs s ! i)" "pst s' = p"
        using new_arena_ok [OF k i(1) Nil j(2,1,3) p(1-3)] by auto
      have "malloc sz s = Some (b, s')"
        using f sz a0 r(1,2) g by (simp add: malloc_def Nil palloc_get_page_def)
      moreover have "mallocs sz s b s'"
        by (rule mallocs_some [OF k r(3,5,4,6)]) (use r p i in simp_all)
      ultimately show ?thesis by blast
    qed
  qed
qed

lemma malloc_total:
  assumes k: "malloc_ok s" and sz: "0 < sz" "sz + 4107 < 2 ^ 32"
  shows "\<exists>p s'. malloc sz s = Some (p, s') \<and> mallocs sz s p s'"
proof (cases "find_desc (descs s) 0 sz")
  case None
  then show ?thesis using malloc_big_ok [OF k sz] sz by (simp add: malloc_def)
next
  case (Some i)
  then show ?thesis using malloc_small_ok [OF k _ sz(1)] by simp
qed

text \<open>When malloc fails: no block is spare and no run of pages is long enough.\<close>

definition spare :: "nat \<Rightarrow> mstate \<Rightarrow> bool" where
  "spare sz s \<longleftrightarrow> (case find_desc (descs s) 0 sz of None \<Rightarrow> False | Some i \<Rightarrow> free_list (descs s ! i) \<noteq> [])"

lemma malloc_fails:
  assumes k: "malloc_ok s" and sz: "0 < sz" "sz + 4107 < 2 ^ 32" and sp: "\<not> spare sz s"
    and none: "\<forall>j. \<not> {j ..< j + (sz + ARENA_SIZE + PGSIZE - 1) div PGSIZE} \<subseteq> free_pages False (pst s)"
  shows "malloc sz s = Some (0, s)"
proof -
  have kk: "minv {} s" using k by (simp add: malloc_ok_def)
  define n where "n = (sz + ARENA_SIZE + PGSIZE - 1) div PGSIZE"
  have n0: "n \<noteq> 0" by (simp add: n_def ARENA_SIZE_def PGSIZE_def div_greater_zero_iff)
  have g: "palloc_get_multiple 0 n (pst s) = Some (0, pst s)"
    using palloc_get_ok(1) [OF minvD(1) [OF kk] n0, of 0] none by (simp add: n_def)
  show ?thesis
  proof (cases "find_desc (descs s) 0 sz")
    case None
    have "DIV_ROUND_UP (size_add sz ARENA_SIZE) PGSIZE = n"
      using sz by (simp add: DIV_ROUND_UP_def size_add_def ARENA_SIZE_def PGSIZE_def n_def)
    then show ?thesis using None sz(1) g by (simp add: malloc_def malloc_big_def)
  next
    case (Some i)
    have i: "i < length (descs s)" "sz \<le> block_size (descs s ! i)" using find_desc_some [OF Some] by simp_all
    have d: "desc_ok (descs s ! i)" by (rule minvD(8) [OF kk i(1)])
    have "n = 1"
    proof -
      have "sz + ARENA_SIZE + PGSIZE - 1 < 2 * PGSIZE" "PGSIZE \<le> sz + ARENA_SIZE + PGSIZE - 1"
        using i(2) d sz by (simp_all add: desc_ok_def PGSIZE_def ARENA_SIZE_def)
      then show ?thesis by (simp add: PGSIZE_def n_def)
    qed
    then show ?thesis using Some sp sz(1) g by (simp add: malloc_def spare_def palloc_get_page_def)
  qed
qed

lemma malloc_spare:
  assumes k: "malloc_ok s" and sz: "0 < sz" and sp: "spare sz s" and m: "malloc sz s = Some (p, s')"
  shows "p \<noteq> 0"
proof -
  have kk: "minv {} s" using k by (simp add: malloc_ok_def)
  obtain i b bs where f: "find_desc (descs s) 0 sz = Some i" "free_list (descs s ! i) = b # bs"
    using sp by (auto simp: spare_def neq_Nil_conv split: option.splits)
  have i: "i < length (descs s)" using find_desc_some [OF f(1)] by simp
  obtain t where t: "pop_block i s = Some (b, t)" "minv {} t" "live t = insert b (live s)"
    using pop_block_ok [OF kk i f(2)] by blast
  have "p = b" using m f sz t(1) by (simp add: malloc_def)
  then show ?thesis using room_writable(2) [of "{}" t b] t(2,3) by simp
qed

section \<open>Releasing\<close>

lemma live_other:
  assumes k: "minv X s" and q: "q \<in> live s" and a: "arenas s a = Some ar"
    and n: "case adesc ar of None \<Rightarrow> q \<noteq> a + ARENA_SIZE | Some i \<Rightarrow> q \<notin> blocks (descs s ! i) a"
  shows "{q ..< q + room s q} \<inter> extent a ar = {}"
proof -
  obtain b br where b: "arenas s b = Some br" "q \<in> extent b br"
      "q + room s q \<le> b + PGSIZE * arena_pages br" "adesc br = None \<longrightarrow> q = b + ARENA_SIZE"
      "\<forall>i. adesc br = Some i \<longrightarrow> q \<in> blocks (descs s ! i) b - set (free_list (descs s ! i)) \<and> room s q = block_size (descs s ! i)"
    using k q by (rule liveE)
  have "b \<noteq> a" using b(1,4,5) a n by (cases "adesc ar") auto
  then have "extent b br \<inter> extent a ar = {}" by (rule minvD(4) [OF k b(1) a])
  moreover have "{q ..< q + room s q} \<subseteq> extent b br" using b(2,3) by (auto simp: extent_def)
  ultimately show ?thesis by blast
qed

text \<open>Writing to memory leaves the allocator as it is.\<close>

definition with_mem :: "mem \<Rightarrow> mstate \<Rightarrow> mstate" where
  "with_mem m s = s\<lparr>pst := (pst s)\<lparr>pmem := m\<rparr>\<rparr>"

lemma with_mem_simps [simp]:
  "descs (with_mem m s) = descs s" "arenas (with_mem m s) = arenas s"
  "pst (with_mem m s) = (pst s)\<lparr>pmem := m\<rparr>" "live (with_mem m s) = live s" "room (with_mem m s) q = room s q"
  by (simp_all add: with_mem_def live_def room_def block_size_of_def block_to_arena_def cong: option.case_cong)

lemma minv_with_mem:
  assumes "minv X s" shows "minv X (with_mem (put (pmem (pst s)) p bs) s)"
proof -
  have "arena_ok (with_mem m s) a ar = arena_ok s a ar" for m a ar
    by (simp add: arena_ok_def page_addr_def pool_pages_def cong: option.case_cong)
  then show ?thesis
    using assms pmem_ok [OF minvD(1) [OF assms], of p bs] by (simp add: minv_def)
qed

lemma remove_blocks_ok:
  "arenas s a = Some ar \<Longrightarrow> magic ar = ARENA_MAGIC \<Longrightarrow> adesc ar = Some i \<Longrightarrow> a \<noteq> 0 \<Longrightarrow> i < length (descs s) \<Longrightarrow>
   idx + n \<le> blocks_per_arena (descs s ! i) \<Longrightarrow> 0 < block_size (descs s ! i) \<Longrightarrow> distinct (free_list (descs s ! i)) \<Longrightarrow>
   (\<forall>k \<in> {idx ..< idx + n}. a + ARENA_SIZE + k * block_size (descs s ! i) \<in> set (free_list (descs s ! i))) \<Longrightarrow>
   remove_blocks i a idx n s = Some (set_desc i (\<lambda>d. d\<lparr>free_list :=
     filter (\<lambda>b. b \<notin> (\<lambda>k. a + ARENA_SIZE + k * block_size (descs s ! i)) ` {idx ..< idx + n}) (free_list d)\<rparr>) s)"
proof (induction n arbitrary: idx s)
  case 0
  then show ?case by (simp add: set_desc_def)
next
  case (Suc n)
  let ?f = "\<lambda>k. a + ARENA_SIZE + k * block_size (descs s ! i)"
  let ?s = "set_desc i (\<lambda>d. d\<lparr>free_list := remove1 (?f idx) (free_list d)\<rparr>) s"
  have b: "arena_to_block s a idx = Some (?f idx)" using Suc.prems by (simp add: arena_to_block_def)
  have ne: "?f idx \<noteq> ?f k" if "idx < k" for k using that Suc.prems(7) by simp
  have rm: "remove1 (?f idx) (free_list (descs s ! i)) = filter (\<lambda>b. b \<noteq> ?f idx) (free_list (descs s ! i))"
    by (rule distinct_remove1_removeAll [OF Suc.prems(8), unfolded removeAll_filter_not_eq, THEN trans]) (simp add: eq_commute)
  have "remove_blocks i a (idx + 1) n ?s = Some (set_desc i (\<lambda>d. d\<lparr>free_list :=
     filter (\<lambda>b. b \<notin> (\<lambda>k. a + ARENA_SIZE + k * block_size (descs ?s ! i)) ` {idx + 1 ..< (idx + 1) + n}) (free_list d)\<rparr>) ?s)"
    by (rule Suc.IH) (use Suc.prems ne in \<open>auto simp: rm\<close>)
  moreover have "?f idx \<in> set (free_list (descs s ! i))" using Suc.prems(9) by simp
  moreover have "{idx ..< idx + Suc n} = insert idx {idx + 1 ..< (idx + 1) + n}" by auto
  ultimately show ?case
    using b Suc.prems(5) by (simp add: set_desc_def rm conj_commute)
qed

lemma relist_with_mem: "relist i fl a n (with_mem m s) = with_mem m (relist i fl a n s)"
  by (simp add: relist_def with_mem_def)

text \<open>A block goes back to the free list of its descriptor.\<close>

lemma push_block_ok:
  assumes k: "malloc_ok s" and a: "arenas s a = Some ar" "adesc ar = Some i"
    and p: "p \<in> blocks (descs s ! i) a - set (free_list (descs s ! i))"
  defines "t \<equiv> relist i (p # free_list (descs s ! i)) a (free_cnt ar + 1) s"
  shows "minv {a} t" "live t = live s - {p}" "shape s t"
    "free_cnt ar + 1 < blocks_per_arena (descs s ! i) \<Longrightarrow> minv {} t"
    "free_cnt ar + 1 \<le> blocks_per_arena (descs s ! i)"
    "free_cnt ar + 1 = blocks_per_arena (descs s ! i) \<Longrightarrow> blocks (descs s ! i) a \<subseteq> set (p # free_list (descs s ! i))"
proof -
  have kk: "minv {} s" using k by (simp add: malloc_ok_def)
  let ?d = "descs s ! i" and ?fl = "p # free_list (descs s ! i)"
  have i: "i < length (descs s)" by (rule arena_addr(7) [OF kk a])
  have d: "desc_ok ?d" by (rule minvD(8) [OF kk i])
  have cnt: "free_cnt ar = card (set (free_list ?d) \<inter> blocks ?d a)"
    using minvD(3) [OF kk a(1)] a(2) by (simp add: arena_ok_def)
  have n: "free_cnt ar + 1 = card (set ?fl \<inter> blocks ?d a)"
    using p by (simp add: Int_insert_left cnt)
  have dst: "distinct ?fl" using p minvD(5) [OF kk i] by simp
  have fb: "set ?fl - blocks ?d a = set (free_list ?d) - blocks ?d a" using p by auto
  show "minv {a} t" unfolding t_def by (rule minv_relist(1) [OF kk a dst fb n]) simp_all
  show "free_cnt ar + 1 < blocks_per_arena ?d \<Longrightarrow> minv {} t"
    unfolding t_def by (rule minv_relist(1) [OF kk a dst fb n]) simp_all
  have "live t = (live s - blocks ?d a) \<union> (blocks ?d a - set ?fl)"
    unfolding t_def by (rule minv_relist(2) [OF kk a dst fb n, of "{a}"]) simp_all
  then show "live t = live s - {p}" using live_split [OF kk a] p by auto
  show "shape s t"
    using shape_relist [OF kk, of i ?fl a "free_cnt ar + 1"] a unfolding t_def by auto
  have le: "card (set ?fl \<inter> blocks ?d a) \<le> card (blocks ?d a)" by (intro card_mono) simp_all
  then show "free_cnt ar + 1 \<le> blocks_per_arena ?d" using n blocks_card [OF d, of a] by simp
  assume "free_cnt ar + 1 = blocks_per_arena ?d"
  then have "card (set ?fl \<inter> blocks ?d a) = card (blocks ?d a)" using n blocks_card [OF d, of a] by simp
  from card_subset_eq [OF blocks_finite Int_lower2 this] show "blocks ?d a \<subseteq> set ?fl" by blast
qed

text \<open>An arena whose blocks are all free goes back to the page allocator.\<close>

lemma release_arena_ok:
  assumes k: "minv {a} s" and a: "arenas s a = Some ar" "adesc ar = Some i"
    and all: "blocks (descs s ! i) a \<subseteq> set (free_list (descs s ! i))"
  shows "\<exists>s'. release_arena i a s = Some s' \<and> malloc_ok s' \<and> live s' = live s \<and> shape s s' \<and>
    pmem (pst s') = put (pmem (pst s)) a (replicate PGSIZE 0xcc)"
proof -
  let ?d = "descs s ! i" and ?n = "blocks_per_arena (descs s ! i)"
  let ?fl = "filter (\<lambda>b. b \<notin> blocks ?d a) (free_list ?d)"
  have i: "i < length (descs s)" by (rule arena_addr(7) [OF k a])
  have d: "desc_ok ?d" by (rule minvD(8) [OF k i])
  have bl: "blocks ?d a = (\<lambda>k. a + ARENA_SIZE + k * block_size ?d) ` {0 ..< 0 + ?n}"
    by (auto simp: blocks_def)
  have rm: "remove_blocks i a 0 ?n s = Some (set_desc i (\<lambda>d. d\<lparr>free_list :=
      filter (\<lambda>b. b \<notin> (\<lambda>k. a + ARENA_SIZE + k * block_size ?d) ` {0 ..< 0 + ?n}) (free_list d)\<rparr>) s)"
    by (rule remove_blocks_ok [OF a(1) arena_addr(3) [OF k a(1)] a(2) arena_addr(2) [OF k a(1)] i])
      (use d minvD(5) [OF k i] all in \<open>auto simp: desc_ok_def bl\<close>)
  let ?t = "relist i ?fl a 0 s"
  have dst: "distinct ?fl" using minvD(5) [OF k i] by simp
  have fb: "set ?fl - blocks ?d a = set (free_list ?d) - blocks ?d a" by auto
  have n0: "0 = card (set ?fl \<inter> blocks ?d a)" 
  proof -
    have "set ?fl \<inter> blocks ?d a = {}" by auto
    then show ?thesis by simp
  qed
  have t: "minv {} ?t" "live ?t = (live s - blocks ?d a) \<union> blocks ?d a"
    using minv_relist [OF k a dst fb n0, of "{}"] blocks_nonempty [OF d] by (auto simp: Diff_triv)
  have ls: "live s \<inter> blocks ?d a = {}" using live_split [OF k a] all by blast
  have ta: "arenas ?t a = Some (ar\<lparr>free_cnt := 0\<rparr>)" by (simp add: relist_def a)
  have td: "blocks (descs ?t ! i) a = blocks ?d a" "free_list (descs ?t ! i) = ?fl" using i by (simp_all add: relist_def)
  obtain j where j: "a = page_addr False (pst s) j" "j + 1 \<le> pool_pages False (pst s)"
      "{j ..< j + 1} \<inter> free_pages False (pst s) = {}"
    using minvD(3) [OF k a(1)] a(2) by (auto simp: arena_ok_def arena_pages_def)
  obtain p where p: "palloc_free_multiple (page_addr False (pst s) j) 1 (pst s) = Some p"
      "free_pages False p = free_pages False (pst s) \<union> {j ..< j + 1}" "pstate_ok p"
      "pmem p = put (pmem (pst s)) (page_addr False (pst s) j) (replicate (PGSIZE * 1) 0xcc)"
      "\<forall>u. base (get_pool u p) = base (get_pool u (pst s)) \<and> pool_pages u p = pool_pages u (pst s)"
    using palloc_free_ok [OF minvD(1) [OF k] j(2) one_neq_zero j(3)] by blast
  let ?u = "?t\<lparr>pst := p, arenas := (arenas ?t)(a := None)\<rparr>"
  have pt: "pst ?t = pst s" by (simp add: relist_def)
  have u: "minv {} ?u" "live ?u = live ?t - blocks ?d a"
  proof -
    have bs: "base (get_pool v p) = base (get_pool v (pst ?t))" "pool_pages v p = pool_pages v (pst ?t)" for v
      using p(5) unfolding pt by simp_all
    have jj: "a = page_addr False (pst ?t) j"
        "free_pages False p = free_pages False (pst ?t) \<union> {j ..< j + arena_pages (ar\<lparr>free_cnt := 0\<rparr>)}"
      using j(1) p(2) a(2) unfolding pt by (simp_all add: arena_pages_def)
    have nf: "set (free_list (descs ?t ! l)) \<inter> blocks (descs ?t ! l) a = {}"
      if "adesc (ar\<lparr>free_cnt := 0\<rparr>) = Some l" for l
      using that a(2) td by auto
    show "minv {} ?u" by (rule minv_drop(1) [OF t(1) ta p(3) bs jj nf]) simp_all
    have "live ?u = live ?t - (case adesc (ar\<lparr>free_cnt := 0\<rparr>) of None \<Rightarrow> {a + ARENA_SIZE}
        | Some l \<Rightarrow> blocks (descs ?t ! l) a)"
      by (rule minv_drop(2) [OF t(1) ta p(3) bs jj nf, of "{}"]) simp_all
    then show "live ?u = live ?t - blocks ?d a" using a(2) td by simp
  qed
  have "release_arena i a s = Some ?u"
    using rm p(1) j(1) bl by (simp add: release_arena_def palloc_free_page_def set_desc_def relist_def)
  moreover have "shape s ?u" using i by (auto simp: shape_def relist_def nth_list_update split: if_splits)
  moreover have "live ?u = live s" using u(2) t(2) ls by blast
  ultimately show ?thesis using u(1) p(4) j(1) by (intro exI [of _ ?u]) (simp add: malloc_ok_def)
qed

text \<open>What free promises for a block in use.\<close>

definition frees :: "mstate \<Rightarrow> nat \<Rightarrow> mstate \<Rightarrow> bool" where
  "frees s p s' \<longleftrightarrow> malloc_ok s' \<and> live s' = live s - {p} \<and>
     (\<forall>q \<in> live s - {p}. room s' q = room s q \<and>
        (\<forall>x. q \<le> x \<and> x < q + room s q \<longrightarrow> pmem (pst s') x = pmem (pst s) x))"

lemma freesI:
  assumes k: "malloc_ok s" and k': "malloc_ok s'" and l: "live s' = live s - {p}" and sh: "shape s s'"
    and m: "\<And>q x. q \<in> live s \<Longrightarrow> q \<noteq> p \<Longrightarrow> x \<in> {q ..< q + room s q} \<Longrightarrow> pmem (pst s') x = pmem (pst s) x"
  shows "frees s p s'"
proof -
  have "room s' q = room s q" if "q \<in> live s - {p}" for q
    using room_shape [OF k [unfolded malloc_ok_def] _ k' [unfolded malloc_ok_def] _ sh] l that by simp
  then show ?thesis using k' l m by (auto simp: frees_def)
qed

lemma free_big_ok:
  assumes k: "malloc_ok s" and a: "arenas s a = Some ar" "adesc ar = None"
  shows "\<exists>s'. free (a + ARENA_SIZE) s = Some s' \<and> frees s (a + ARENA_SIZE) s'"
proof -
  have kk: "minv {} s" using k by (simp add: malloc_ok_def)
  note bb = big_block_to_arena [OF kk a]
  let ?n = "free_cnt ar"
  have n0: "?n \<noteq> 0" using arena_addr(4) [OF kk a(1)] a(2) by (simp add: arena_pages_def)
  obtain j where j: "a = page_addr False (pst s) j" "j + ?n \<le> pool_pages False (pst s)"
      "{j ..< j + ?n} \<inter> free_pages False (pst s) = {}"
    using minvD(3) [OF kk a(1)] a(2) by (auto simp: arena_ok_def arena_pages_def)
  obtain p where p: "palloc_free_multiple (page_addr False (pst s) j) ?n (pst s) = Some p"
      "free_pages False p = free_pages False (pst s) \<union> {j ..< j + ?n}" "pstate_ok p"
      "pmem p = put (pmem (pst s)) (page_addr False (pst s) j) (replicate (PGSIZE * ?n) 0xcc)"
      "\<forall>u. base (get_pool u p) = base (get_pool u (pst s)) \<and> pool_pages u p = pool_pages u (pst s)"
    using palloc_free_ok [OF minvD(1) [OF kk] j(2) n0 j(3)] by blast
  let ?s = "s\<lparr>pst := p, arenas := (arenas s)(a := None)\<rparr>"
  have u: "minv {} ?s" "live ?s = live s - {a + ARENA_SIZE}"
    using minv_drop [OF kk a(1), of p j "{}"] p j(1) a(2) by (auto simp: arena_pages_def)
  have "free (a + ARENA_SIZE) s = Some ?s" using bb(1) a p(1) j(1) by (simp add: free_def ARENA_SIZE_def)
  moreover have "frees s (a + ARENA_SIZE) ?s"
  proof (rule freesI [OF k])
    show "pmem (pst ?s) x = pmem (pst s) x"
      if q: "q \<in> live s" "q \<noteq> a + ARENA_SIZE" "x \<in> {q ..< q + room s q}" for q x
    proof -
      have "x \<notin> extent a ar" using live_other [OF kk q(1) a(1)] a(2) q(2,3) by auto
      then show ?thesis using p(4) j(1) a(2) by (auto simp: put_nth extent_def arena_pages_def)
    qed
  qed (use u in \<open>auto simp: malloc_ok_def shape_def split: if_splits\<close>)
  ultimately show ?thesis by blast
qed

lemma free_small_ok:
  assumes k: "malloc_ok s" and a: "arenas s a = Some ar" "adesc ar = Some i"
    and p: "p \<in> blocks (descs s ! i) a - set (free_list (descs s ! i))"
  shows "\<exists>s'. free p s = Some s' \<and> frees s p s'"
proof -
  have kk: "minv {} s" using k by (simp add: malloc_ok_def)
  let ?d = "descs s ! i"
  have i: "i < length (descs s)" by (rule arena_addr(7) [OF kk a])
  have t: "block_to_arena s p = Some a" using small_block_to_arena [OF kk a] p by simp
  have pl: "p \<in> live s" by (rule liveI [OF a(1)]) (use a(2) p in simp)
  have rp: "room s p = block_size ?d" using t a by (simp add: room_def block_size_of_def)
  note w = room_writable [OF kk pl]
  define m where "m = put (pmem (pst s)) p (replicate (block_size ?d) 0xcc)"
  have mem: "memset (pmem (pst s)) p 0xcc (block_size ?d) = Some (p, m)"
    using w by (simp add: memset_def memset_loop_ok m_def rp)
  let ?s = "with_mem m s"
  have k1: "malloc_ok ?s" using minv_with_mem [OF kk] by (simp add: malloc_ok_def m_def)
  let ?t = "relist i (p # free_list ?d) a (free_cnt ar + 1) ?s"
  have a1: "arenas ?s a = Some ar" "p \<in> blocks (descs ?s ! i) a - set (free_list (descs ?s ! i))"
    using a p by simp_all
  note pb = push_block_ok [OF k1 a1(1) a(2) a1(2), unfolded with_mem_simps]
  have lt: "live ?t = live s - {p}" "shape s ?t" using pb(2,3) by (simp_all add: shape_def)
  have own: "m x = pmem (pst s) x" if q: "q \<in> live s" "q \<noteq> p" "x \<in> {q ..< q + room s q}" for q x
    using live_apart [OF kk q(1) pl q(2)] q(3) by (auto simp: m_def put_nth rp)
  have free: "free p s = (if free_cnt ar + 1 \<ge> blocks_per_arena ?d then release_arena i a ?t else Some ?t)"
  proof -
    have "upd_arena a (\<lambda>ar. ar\<lparr>free_cnt := free_cnt ar + 1\<rparr>)
        (set_desc i (\<lambda>d. d\<lparr>free_list := p # free_list d\<rparr>) (s\<lparr>pst := (pst s)\<lparr>pmem := m\<rparr>\<rparr>)) = ?t"
      using a by (simp add: upd_arena_def set_desc_def relist_def with_mem_def)
    moreover have "blocks_per_arena (descs ?t ! i) = blocks_per_arena ?d" using i by (simp add: relist_def)
    ultimately show ?thesis using w(2) t a mem p pb(5) by (auto simp: free_def Let_def)
  qed
  show ?thesis
  proof (cases "free_cnt ar + 1 \<ge> blocks_per_arena ?d")
    case False
    have "frees s p ?t"
      by (rule freesI [OF k _ lt]) (use pb(4) False own in \<open>auto simp: malloc_ok_def relist_def\<close>)
    then show ?thesis using free False by simp
  next
    case True
    then have eq: "free_cnt ar + 1 = blocks_per_arena ?d" using pb(5) by simp
    have ta: "arenas ?t a = Some (ar\<lparr>free_cnt := free_cnt ar + 1\<rparr>)" "adesc (ar\<lparr>free_cnt := free_cnt ar + 1\<rparr>) = Some i"
      using a by (simp_all add: relist_def)
    have bt: "blocks (descs ?t ! i) a \<subseteq> set (free_list (descs ?t ! i))"
      using pb(6) eq i by (simp add: relist_def)
    obtain s' where s': "release_arena i a ?t = Some s'" "malloc_ok s'" "live s' = live ?t" "shape ?t s'"
        "pmem (pst s') = put (pmem (pst ?t)) a (replicate PGSIZE 0xcc)"
      using release_arena_ok [OF _ ta bt] pb(1) by auto
    have sh: "shape s s'" by (rule shape_trans [OF lt(2) s'(4)]) (auto simp: relist_def)
    have "frees s p s'"
    proof (rule freesI [OF k s'(2) _ sh])
      show "live s' = live s - {p}" using s'(3) lt(1) by simp
      show "pmem (pst s') x = pmem (pst s) x"
        if q: "q \<in> live s" "q \<noteq> p" "x \<in> {q ..< q + room s q}" for q x
      proof -
        have "q \<in> live ?t" using q lt(1) by simp
        then have "q \<notin> blocks ?d a"
          using live_split [OF _ ta] pb(1) bt i by (auto simp: relist_def)
        then have "x \<notin> extent a ar" using live_other [OF kk q(1) a(1)] a(2) q(3) by auto
        then show ?thesis
          using own [OF q] a(2) by (auto simp: s'(5) put_nth extent_def arena_pages_def relist_def)
      qed
    qed
    then show ?thesis using free True s'(1) by simp
  qed
qed

lemma free_total:
  assumes k: "malloc_ok s" and p: "p \<in> live s"
  shows "\<exists>s'. free p s = Some s' \<and> frees s p s'"
proof -
  obtain a ar where a: "arenas s a = Some ar"
    and c: "case adesc ar of None \<Rightarrow> p = a + ARENA_SIZE | Some i \<Rightarrow> p \<in> blocks (descs s ! i) a - set (free_list (descs s ! i))"
    using p by (auto simp: live_def)
  show ?thesis
    using free_big_ok [OF k a] free_small_ok [OF k a] c by (cases "adesc ar") auto
qed

section \<open>Properties\<close>

lemma block_size_of_live: "minv X s \<Longrightarrow> q \<in> live s \<Longrightarrow> block_size_of q s = Some (room s q)"
proof -
  assume k: "minv X s" and q: "q \<in> live s"
  obtain a ar where a: "arenas s a = Some ar" "block_to_arena s q = Some a"
    using k q by (rule liveE)
  then show ?thesis by (simp add: room_def block_size_of_def)
qed

lemma init_descs:
  "init_loop 16 [] = Some (map (\<lambda>n. \<lparr>block_size = n, blocks_per_arena = (PGSIZE - ARENA_SIZE) div n, free_list = []\<rparr>)
     [16, 32, 64, 128, 256, 512, 1024])"
  by (subst init_loop.simps, simp add: PGSIZE_def DESC_MAX_def)+

lemma malloc_init_ok:
  assumes "pstate_ok p"
  shows "\<exists>s. malloc_init \<lparr>pst = p, descs = [], arenas = \<lambda>_. None\<rparr> = Some s \<and> malloc_ok s \<and> live s = {} \<and>
    pst s = p \<and> map block_size (descs s) = [16, 32, 64, 128, 256, 512, 1024]"
proof -
  have "dvds": "(16 :: nat) dvd 2 ^ 32" "(32 :: nat) dvd 2 ^ 32" "(64 :: nat) dvd 2 ^ 32" "(128 :: nat) dvd 2 ^ 32"
      "(256 :: nat) dvd 2 ^ 32" "(512 :: nat) dvd 2 ^ 32" "(1024 :: nat) dvd 2 ^ 32"
    by simp_all
  have fl: "free_list (map (\<lambda>n. \<lparr>block_size = n, blocks_per_arena = f n, free_list = []\<rparr>) ns ! i) = []"
    if "i < length ns" for ns :: "nat list" and f i using that by simp
  let ?ds = "map (\<lambda>n. \<lparr>block_size = n, blocks_per_arena = (PGSIZE - ARENA_SIZE) div n, free_list = []\<rparr>)
     [16, 32, 64, 128, 256, 512, 1024]"
  have "\<forall>d \<in> set ?ds. desc_ok d" using dvds by (simp add: desc_ok_def PGSIZE_def)
  then have "malloc_ok \<lparr>pst = p, descs = ?ds, arenas = \<lambda>_. None\<rparr>"
    using assms fl [of _ "[16, 32, 64, 128, 256, 512, 1024]"] by (simp add: malloc_ok_def minv_def)
  then show ?thesis by (simp add: malloc_init_def init_descs live_def)
qed

lemma memory_blk: "writable m p n \<Longrightarrow> \<exists>bs. length bs = n \<and> blk m p bs"
  by (rule exI [of _ "map (\<lambda>i. the (m (p + i))) [0 ..< n]"]) (auto simp: blk_nth writable_def)

text \<open>A call of calloc that gets a block.\<close>

lemma calloc_some:
  assumes k: "malloc_ok s" and sz: "sz = (a * b) mod 2 ^ 32" "a \<le> sz" "b \<le> sz" "0 < sz" "sz + 4107 < 2 ^ 32"
  shows "\<exists>p s'. malloc sz s = Some (p, s') \<and> mallocs sz s p s' \<and>
    calloc a b s = Some (p, if p = 0 then s' else with_mem (put (pmem (pst s')) p (replicate sz 0)) s')"
proof -
  obtain p s' where m: "malloc sz s = Some (p, s')" "mallocs sz s p s'"
    using malloc_total [OF k sz(4,5)] by blast
  have "memset (pmem (pst s')) p 0 sz = Some (p, put (pmem (pst s')) p (replicate sz 0))" if "p \<noteq> 0"
  proof -
    have "minv {} s'" "p \<in> live s'" "sz \<le> room s' p" using m(2) that by (simp_all add: mallocs_def malloc_ok_def)
    then have "writable (pmem (pst s')) p sz" using room_writable(1) [of "{}" s' p] writable_mono by auto
    then show ?thesis using that by (simp add: memset_def memset_loop_ok)
  qed
  then have "calloc a b s = Some (p, if p = 0 then s' else with_mem (put (pmem (pst s')) p (replicate sz 0)) s')"
    using m(1) sz(2,3) unfolding calloc_def Let_def sz(1) [symmetric] by (simp add: with_mem_def)
  then show ?thesis using m by blast
qed

lemma live_small: "minv {} s \<Longrightarrow> q \<in> live s \<Longrightarrow> q + room s q < 2 ^ 32"
proof -
  assume k: "minv {} s" and q: "q \<in> live s"
  obtain a ar where a: "arenas s a = Some ar" "q + room s q \<le> a + PGSIZE * arena_pages ar"
    using k q by (rule liveE)
  show ?thesis using arena_addr(5) [OF k a(1)] a(2) by simp
qed

lemma realloc_some:
  assumes k: "malloc_ok s" and old: "old \<in> live s" and n: "0 < n" "n + 4107 < 2 ^ 32"
  shows "\<exists>p s1. mallocs n s p s1 \<and> (if p = 0 then realloc old n s = Some (0, s1)
    else \<exists>bs s'. length bs = min n (room s old) \<and> blk (pmem (pst s)) old bs \<and> realloc old n s = Some (p, s') \<and>
      frees (with_mem (put (pmem (pst s)) p bs) s1) old s')"
proof -
  obtain p s1 where m: "malloc n s = Some (p, s1)" "mallocs n s p s1"
    using malloc_total [OF k n] by blast
  show ?thesis
  proof (cases "p = 0")
    case True
    then show ?thesis using m n by (intro exI [of _ p] exI [of _ s1]) (simp add: realloc_def)
  next
    case False
    then have p: "malloc_ok s1" "p \<notin> live s" "live s1 = insert p (live s)" "n \<le> room s1 p"
        "pmem (pst s1) = pmem (pst s)" "\<forall>q \<in> live s. room s1 q = room s q"
      using m(2) by (simp_all add: mallocs_def)
    have k0: "minv {} s" and k1: "minv {} s1" using k p(1) by (simp_all add: malloc_ok_def)
    have old1: "old \<in> live s1" "p \<in> live s1" "room s1 old = room s old" "p \<noteq> old" using p(2,3,6) old by auto
    let ?n = "min n (room s old)"
    have w: "writable (pmem (pst s)) old ?n" "old \<noteq> 0"
      using room_writable [OF k0 old] by (auto intro: writable_mono)
    obtain bs where bs: "length bs = ?n" "blk (pmem (pst s)) old bs" using memory_blk [OF w(1)] by blast
    have wp: "writable (pmem (pst s1)) p ?n"
      using room_writable(1) [OF k1 old1(2)] p(4) by (auto intro: writable_mono)
    have apart: "p \<le> old \<or> old + ?n \<le> p"
    proof -
      have "p \<in> {p ..< p + room s1 p}" using p(4) n(1) by simp
      then have "p \<notin> {old ..< old + room s1 old}" using live_apart [OF k1 old1(2,1,4)] by blast
      then show ?thesis by (auto simp: old1(3))
    qed
    have cp: "memcpy (pmem (pst s1)) p old ?n = Some (p, put (pmem (pst s)) p bs)"
      using memcpy_ok [of "pmem (pst s1)" old bs p] bs wp apart w(2) False p(5) by simp
    let ?s2 = "with_mem (put (pmem (pst s)) p bs) s1"
    have k2: "malloc_ok ?s2" using minv_with_mem [OF k1] p(5) by (simp add: malloc_ok_def)
    have "old \<in> live ?s2" using old1(1) by simp
    from free_total [OF k2 this] obtain s' where s': "free old ?s2 = Some s'" "frees ?s2 old s'" by blast
    have mn: "(if n < room s old then n else room s old) = ?n" by (simp add: min_def)
    have "realloc old n s = Some (p, s')"
      using m(1) n(1) False w(2) block_size_of_live [OF k1 old1(1)] old1(3) cp s'(1)
      by (simp add: realloc_def Let_def with_mem_def mn)
    then show ?thesis using m(2) False bs s'(2) by (intro exI [of _ p] exI [of _ s1]) auto
  qed
qed

lemma demo_malloc:
  "\<exists>s. malloc_init \<lparr>pst = demo_pages, descs = [], arenas = \<lambda>_. None\<rparr> = Some s \<and> malloc_ok s \<and> live s = {} \<and>
     free_pages False (pst s) = {1, 2}"
  using malloc_init_ok [OF demo_pages_ok] demo_pages_free by metis

lemma demo_first:
  "\<exists>s p s1. malloc_init \<lparr>pst = demo_pages, descs = [], arenas = \<lambda>_. None\<rparr> = Some s \<and>
     malloc 100 s = Some (p, s1) \<and> p \<noteq> 0 \<and> malloc_ok s1 \<and> live s1 = {p}"
proof -
  obtain s where s: "malloc_init \<lparr>pst = demo_pages, descs = [], arenas = \<lambda>_. None\<rparr> = Some s" "malloc_ok s" "live s = {}"
      "free_pages False (pst s) = {1, 2}"
    using demo_malloc by blast
  have one: "(100 + ARENA_SIZE + PGSIZE - 1) div PGSIZE = 1" by (simp add: ARENA_SIZE_def PGSIZE_def)
  have fit: "{1 ..< 1 + 1} \<subseteq> free_pages False (pst s)" by (simp add: s(4))
  obtain p s1 where m: "malloc 100 s = Some (p, s1)" "mallocs 100 s p s1"
    using malloc_total [OF s(2), of 100] by auto
  have "p \<noteq> 0" using m(2) fit unfolding mallocs_def one by metis
  then show ?thesis using s m by (auto simp: mallocs_def)
qed

text \<open>C29: malloc always returns for a size from 1 on whose arena header still fits into a
  size_t.  It returns null exactly when the descriptor for the size has no free block (or the size has no
  descriptor) and no run of free kernel pages is long enough, and then nothing has changed; otherwise it
  returns a block that was not in use, of at least the size asked for, all of it memory.  It keeps the
  allocator in order and the blocks in use with their sizes.  Afterwards no two blocks in use
  overlap, and none of them overlaps the header of an arena or a free block, which are the places
  where the allocator keeps its own data.\<close>

theorem malloc_correct:
  assumes ok: "malloc_ok s" and n: "0 < n" "n + 4107 < 2 ^ 32"
  shows "\<exists>p s'. malloc n s = Some (p, s') \<and> malloc_ok s' \<and>
    (p = 0 \<longleftrightarrow> (\<forall>i. find_desc (descs s) 0 n = Some i \<longrightarrow> free_list (descs s ! i) = []) \<and>
       (\<forall>j. \<not> {j ..< j + (n + ARENA_SIZE + PGSIZE - 1) div PGSIZE} \<subseteq> free_pages False (pst s))) \<and>
    (if p = 0 then s' = s
     else p \<notin> live s \<and> live s' = insert p (live s) \<and> n \<le> room s' p \<and>
       writable (pmem (pst s')) p (room s' p) \<and> (\<forall>q \<in> live s. room s' q = room s q)) \<and>
    (\<forall>q \<in> live s'.
       (\<forall>r \<in> live s'. q \<noteq> r \<longrightarrow> {q ..< q + room s' q} \<inter> {r ..< r + room s' r} = {}) \<and>
       (\<forall>a. arenas s' a \<noteq> None \<longrightarrow> {q ..< q + room s' q} \<inter> {a ..< a + ARENA_SIZE} = {}) \<and>
       (\<forall>i < length (descs s'). \<forall>b \<in> set (free_list (descs s' ! i)).
          {q ..< q + room s' q} \<inter> {b ..< b + block_size (descs s' ! i)} = {}))"
proof -
  obtain p s' where m: "malloc n s = Some (p, s')" "mallocs n s p s'"
    using malloc_total [OF ok n] by blast
  have k: "minv {} s'" using m(2) by (simp add: mallocs_def malloc_ok_def)
  let ?run = "\<forall>j. \<not> {j ..< j + (n + ARENA_SIZE + PGSIZE - 1) div PGSIZE} \<subseteq> free_pages False (pst s)"
  have sp: "\<not> spare n s \<longleftrightarrow> (\<forall>i. find_desc (descs s) 0 n = Some i \<longrightarrow> free_list (descs s ! i) = [])"
    by (auto simp: spare_def split: option.splits)
  have null: "p = 0 \<and> s' = s" if "\<not> spare n s" "?run" using malloc_fails [OF ok n that] m(1) by simp
  have some: "\<not> spare n s \<and> ?run" if "p = 0"
    using malloc_spare [OF ok n(1) _ m(1)] m(2) that by (auto simp: mallocs_def)
  have iff: "p = 0 \<longleftrightarrow> \<not> spare n s \<and> ?run" using null some by blast
  have blk: "if p = 0 then s' = s
     else p \<notin> live s \<and> live s' = insert p (live s) \<and> n \<le> room s' p \<and>
       writable (pmem (pst s')) p (room s' p) \<and> (\<forall>q \<in> live s. room s' q = room s q)"
    using null some room_writable(1) [OF k, of p] m(2) by (auto simp: mallocs_def)
  have apart: "\<forall>q \<in> live s'.
       (\<forall>r \<in> live s'. q \<noteq> r \<longrightarrow> {q ..< q + room s' q} \<inter> {r ..< r + room s' r} = {}) \<and>
       (\<forall>a. arenas s' a \<noteq> None \<longrightarrow> {q ..< q + room s' q} \<inter> {a ..< a + ARENA_SIZE} = {}) \<and>
       (\<forall>i < length (descs s'). \<forall>b \<in> set (free_list (descs s' ! i)).
          {q ..< q + room s' q} \<inter> {b ..< b + block_size (descs s' ! i)} = {})"
    using live_apart [OF k] live_header [OF k] live_free [OF k] by (intro ballI conjI allI impI) blast+
  show ?thesis
    by (intro exI [of _ p] exI [of _ s'] conjI m(1) blk apart iff [unfolded sp]) (simp add: malloc_ok_def k)
qed

theorem malloc_correct_witness:
  "\<exists>s p q s1 s2. malloc_init \<lparr>pst = demo_pages, descs = [], arenas = \<lambda>_. None\<rparr> = Some s \<and>
     malloc 100 s = Some (p, s1) \<and> p \<noteq> 0 \<and> malloc 5000 s1 = Some (q, s2) \<and>
     (if q = 0 then s2 = s1 else live s2 = {q, p})"
proof -
  obtain s p s1 where s: "malloc_init \<lparr>pst = demo_pages, descs = [], arenas = \<lambda>_. None\<rparr> = Some s"
      and p: "malloc 100 s = Some (p, s1)" "p \<noteq> 0" "malloc_ok s1" "live s1 = {p}"
    using demo_first by blast
  obtain q s2 where "malloc 5000 s1 = Some (q, s2)" "if q = 0 then s2 = s1 else live s2 = {q, p}"
    using malloc_correct [OF p(3), of 5000] p(4) by (auto split: if_splits)
  then show ?thesis using s p(1,2) by blast
qed

text \<open>C30: free of a block in use always returns; afterwards exactly this block is not in use
  any more, the allocator is in order, and every other block in use has its size and its
  content.  This covers the blocks of one page with several pages, and the release of an
  arena whose last block is freed.\<close>

theorem free_correct:
  assumes ok: "malloc_ok s" and p: "p \<in> live s"
  shows "\<exists>s'. free p s = Some s' \<and> malloc_ok s' \<and> live s' = live s - {p} \<and>
    (\<forall>q \<in> live s - {p}. room s' q = room s q \<and>
       (\<forall>x. q \<le> x \<and> x < q + room s q \<longrightarrow> pmem (pst s') x = pmem (pst s) x))"
  using free_total [OF ok p] by (auto simp: frees_def)

theorem free_correct_witness:
  "\<exists>s p s1 s2. malloc_init \<lparr>pst = demo_pages, descs = [], arenas = \<lambda>_. None\<rparr> = Some s \<and>
     malloc 100 s = Some (p, s1) \<and> p \<noteq> 0 \<and> free p s1 = Some s2 \<and> live s2 = {}"
proof -
  obtain s p s1 where s: "malloc_init \<lparr>pst = demo_pages, descs = [], arenas = \<lambda>_. None\<rparr> = Some s"
      and p: "malloc 100 s = Some (p, s1)" "p \<noteq> 0" "malloc_ok s1" "live s1 = {p}"
    using demo_first by blast
  obtain s2 where "free p s1 = Some s2" "live s2 = {}"
    using free_correct [OF p(3), of p] p(4) by auto
  then show ?thesis using s p(1,2) by blast
qed

text \<open>C31: realloc to a size other than 0 of a block in use always returns.  If no memory is left
  it returns null and the old block stays in use with its content; otherwise the new block,
  of at least the new size, replaces the old one, begins with the old content up to the
  smaller of the new size and the old block's size, and every other block keeps its content.\<close>

theorem realloc_correct:
  assumes ok: "malloc_ok s" and old: "old \<in> live s" and n: "0 < n" "n + 4107 < 2 ^ 32"
  shows "\<exists>p s'. realloc old n s = Some (p, s') \<and> malloc_ok s' \<and>
    (if p = 0 then live s' = live s \<and> pmem (pst s') = pmem (pst s)
     else p \<notin> live s \<and> live s' = insert p (live s - {old}) \<and> n \<le> room s' p \<and>
       (\<forall>i < min n (room s old). pmem (pst s') (p + i) = pmem (pst s) (old + i)) \<and>
       (\<forall>q \<in> live s - {old}. \<forall>x. q \<le> x \<and> x < q + room s q \<longrightarrow> pmem (pst s') x = pmem (pst s) x))"
proof -
  obtain p s1 where m: "mallocs n s p s1"
    and r: "if p = 0 then realloc old n s = Some (0, s1)
    else \<exists>bs s'. length bs = min n (room s old) \<and> blk (pmem (pst s)) old bs \<and> realloc old n s = Some (p, s') \<and>
      frees (with_mem (put (pmem (pst s)) p bs) s1) old s'"
    using realloc_some [OF ok old n] by blast
  show ?thesis
  proof (cases "p = 0")
    case True
    then show ?thesis using m r by (auto simp: mallocs_def)
  next
    case False
    then obtain bs s' where b: "length bs = min n (room s old)" "blk (pmem (pst s)) old bs"
        "realloc old n s = Some (p, s')" and f: "frees (with_mem (put (pmem (pst s)) p bs) s1) old s'"
      using r by auto
    have p: "malloc_ok s1" "p \<notin> live s" "live s1 = insert p (live s)" "n \<le> room s1 p"
        "pmem (pst s1) = pmem (pst s)" "\<forall>q \<in> live s. room s1 q = room s q"
      using m False by (simp_all add: mallocs_def)
    have k1: "minv {} s1" using p(1) by (simp add: malloc_ok_def)
    have po: "p \<noteq> old" using p(2) old by auto
    have f': "malloc_ok s'" "live s' = insert p (live s) - {old}"
        "\<And>q. q \<in> insert p (live s) - {old} \<Longrightarrow> room s' q = room s1 q"
        "\<And>q x. q \<in> insert p (live s) - {old} \<Longrightarrow> q \<le> x \<and> x < q + room s1 q \<Longrightarrow>
          pmem (pst s') x = put (pmem (pst s)) p bs x"
      using f p(3) by (auto simp: frees_def)
    have rp: "room s' p = room s1 p" by (rule f'(3)) (use po in simp)
    have new: "pmem (pst s') (p + i) = pmem (pst s) (old + i)" if "i < min n (room s old)" for i
    proof -
      have "pmem (pst s') (p + i) = put (pmem (pst s)) p bs (p + i)"
        by (rule f'(4) [of p]) (use that po p(4) in auto)
      then show ?thesis using that b(1,2) by (simp add: put_nth blk_nth)
    qed
    have oth: "pmem (pst s') x = pmem (pst s) x" if q: "q \<in> live s - {old}" "q \<le> x \<and> x < q + room s q" for q x
    proof -
      have "q \<in> live s1" "p \<in> live s1" "q \<noteq> p" "room s1 q = room s q" using q p(2,3,6) by auto
      then have "x \<notin> {p ..< p + room s1 p}" using live_apart [OF k1, of q p] q(2) by auto
      then have "put (pmem (pst s)) p bs x = pmem (pst s) x" using b(1) p(4) by (auto simp: put_nth)
      moreover have "pmem (pst s') x = put (pmem (pst s)) p bs x"
        by (rule f'(4) [of q]) (use q p(6) in auto)
      ultimately show ?thesis by simp
    qed
    show ?thesis
      by (intro exI [of _ p] exI [of _ s']) (use False b(3) f'(1,2) p(2,4) rp po new oth in auto)
  qed
qed

theorem realloc_correct_witness:
  "\<exists>s p q s1 s2. malloc_init \<lparr>pst = demo_pages, descs = [], arenas = \<lambda>_. None\<rparr> = Some s \<and>
     malloc 100 s = Some (p, s1) \<and> p \<noteq> 0 \<and> realloc p 3000 s1 = Some (q, s2) \<and>
     live s2 = (if q = 0 then {p} else {q})"
proof -
  obtain s p s1 where s: "malloc_init \<lparr>pst = demo_pages, descs = [], arenas = \<lambda>_. None\<rparr> = Some s"
      and p: "malloc 100 s = Some (p, s1)" "p \<noteq> 0" "malloc_ok s1" "live s1 = {p}"
    using demo_first by blast
  obtain q s2 where "realloc p 3000 s1 = Some (q, s2)" "live s2 = (if q = 0 then {p} else {q})"
    using realloc_correct [OF p(3), of p 3000] p(4) by (auto split: if_splits)
  then show ?thesis using s p(1,2) by blast
qed

text \<open>C32: calloc multiplies modulo 2 ^ 32.  A product smaller than a factor is refused with
  null and changes nothing; every other product, also one that has wrapped, is allocated: the
  block has the size of the wrapped product and is zero in all of it, and the blocks in use keep
  their content.  The check misses overflows: 65537 elements of 65537 bytes get a block of
  131073 bytes.\<close>

theorem calloc_correct:
  assumes ok: "malloc_ok s"
  shows "let n = (a * b) mod 2 ^ 32 in
    (n < a \<or> n < b \<longrightarrow> calloc a b s = Some (0, s)) \<and>
    (a \<le> n \<and> b \<le> n \<and> 0 < n \<and> n + 4107 < 2 ^ 32 \<longrightarrow>
      (\<exists>p s'. calloc a b s = Some (p, s') \<and> malloc_ok s' \<and>
        (if p = 0 then live s' = live s \<and> pmem (pst s') = pmem (pst s)
         else p \<notin> live s \<and> live s' = insert p (live s) \<and> n \<le> room s' p \<and>
           (\<forall>i < n. pmem (pst s') (p + i) = Some 0) \<and>
           (\<forall>q \<in> live s. \<forall>x. q \<le> x \<and> x < q + room s q \<longrightarrow> pmem (pst s') x = pmem (pst s) x)))) \<and>
    calloc 65537 65537 s = calloc 1 131073 s"
proof -
  define n where "n = (a * b) mod 2 ^ 32"
  have "calloc a b s = Some (0, s)" if "n < a \<or> n < b"
    using that unfolding calloc_def Let_def n_def [symmetric] by simp
  moreover have "calloc 65537 65537 s = calloc 1 131073 s" by (simp add: calloc_def)
  moreover have "\<exists>p s'. calloc a b s = Some (p, s') \<and> malloc_ok s' \<and>
        (if p = 0 then live s' = live s \<and> pmem (pst s') = pmem (pst s)
         else p \<notin> live s \<and> live s' = insert p (live s) \<and> n \<le> room s' p \<and>
           (\<forall>i < n. pmem (pst s') (p + i) = Some 0) \<and>
           (\<forall>q \<in> live s. \<forall>x. q \<le> x \<and> x < q + room s q \<longrightarrow> pmem (pst s') x = pmem (pst s) x))"
    if h: "a \<le> n" "b \<le> n" "0 < n" "n + 4107 < 2 ^ 32"
  proof -
    obtain p s1 where m: "mallocs n s p s1"
      and c: "calloc a b s = Some (p, if p = 0 then s1 else with_mem (put (pmem (pst s1)) p (replicate n 0)) s1)"
      using calloc_some [OF ok n_def h] by blast
    show ?thesis
    proof (cases "p = 0")
      case True
      then show ?thesis using m c by (intro exI [of _ 0] exI [of _ s1]) (simp add: mallocs_def)
    next
      case False
      let ?s = "with_mem (put (pmem (pst s1)) p (replicate n 0)) s1"
      have p: "malloc_ok s1" "p \<notin> live s" "live s1 = insert p (live s)" "n \<le> room s1 p"
          "pmem (pst s1) = pmem (pst s)" "\<forall>q \<in> live s. room s1 q = room s q"
        using m False by (simp_all add: mallocs_def)
      have k1: "minv {} s1" using p(1) by (simp add: malloc_ok_def)
      have "malloc_ok ?s" using minv_with_mem [OF k1] by (simp add: malloc_ok_def)
      moreover have "pmem (pst ?s) x = pmem (pst s) x" if q: "q \<in> live s" "q \<le> x \<and> x < q + room s q" for q x
      proof -
        have "q \<in> live s1" "p \<in> live s1" "q \<noteq> p" "room s1 q = room s q" using q p(2,3,6) by auto
        then have "x \<notin> {p ..< p + room s1 p}" using live_apart [OF k1, of q p] q(2) by auto
        then show ?thesis using p(4,5) by (auto simp: put_nth)
      qed
      ultimately show ?thesis
        using c False p(2,3,4) by (intro exI [of _ p] exI [of _ ?s]) (simp add: put_nth)
    qed
  qed
  ultimately show ?thesis unfolding Let_def n_def [symmetric] by blast
qed

theorem calloc_correct_witness:
  "\<exists>s p s1. malloc_init \<lparr>pst = demo_pages, descs = [], arenas = \<lambda>_. None\<rparr> = Some s \<and>
     calloc 65536 65536 s = Some (0, s) \<and> calloc 3 7 s = Some (p, s1) \<and>
     (p = 0 \<or> (\<forall>i < 21. pmem (pst s1) (p + i) = Some 0))"
proof -
  obtain s where s: "malloc_init \<lparr>pst = demo_pages, descs = [], arenas = \<lambda>_. None\<rparr> = Some s" "malloc_ok s"
    using demo_malloc by blast
  have "calloc 65536 65536 s = Some (0, s)" using calloc_correct [OF s(2), of 65536 65536] by simp
  moreover obtain p s1 where "calloc 3 7 s = Some (p, s1)" "p = 0 \<or> (\<forall>i < 21. pmem (pst s1) (p + i) = Some 0)"
    using calloc_correct [OF s(2), of 3 7] by (auto simp: Let_def split: if_splits)
  ultimately show ?thesis using s(1) by blast
qed

text \<open>The size of the arena header wraps as well: a request of nearly 4 GB gets a single page.\<close>

lemma malloc_big_wraps: "malloc_big (2 ^ 32 - 8) s = malloc_big 100 s"
  by (simp add: malloc_big_def size_add_def DIV_ROUND_UP_def ARENA_SIZE_def PGSIZE_def)

end
