(* ===== verification/UserNames.thy ===== *)
theory UserNames
  imports MemWords DirProps
begin

text \<open>
  The file system calls of filesys/filesys.c on a name in the memory of the calling process:
  create, remove and open pass on the address, and the name is read where filesys/directory.c
  reads it.  lookup compares it with the names in use, byte by byte up to the first
  difference, and dir_add measures it first.  A byte that is not mapped is a page fault; what
  was done before the fault stays.  The last section relates these to the functions of
  Directory, which take the bytes of the name, and says when an open faults.
\<close>

section \<open>Reading the memory of a process\<close>

definition peek :: "mem \<Rightarrow> nat \<Rightarrow> nat \<Rightarrow> byte list option" where
  "peek m p n = those (map (\<lambda>i. m (p + i)) [0 ..< n])"

text \<open>A string, as strlen finds its end: None if one of its bytes is not mapped.\<close>

definition user_string :: "mem \<Rightarrow> nat \<Rightarrow> byte list option" where
  "user_string m p = do { n \<leftarrow> strlen_loop m p p; peek m p n }"

text \<open>strcmp of the string at p with a string of the kernel; None is a page fault.\<close>

fun user_strcmp :: "mem \<Rightarrow> nat \<Rightarrow> byte list \<Rightarrow> int option" where
  "user_strcmp m p [] = do { x \<leftarrow> m p; Some (if x = 0 then 0 else 1) }"
| "user_strcmp m p (y # ys) = do {
     x \<leftarrow> m p;
     (if x \<noteq> 0 \<and> x = y then user_strcmp m (p + 1) ys
      else Some (if x < y then - 1 else if x > y then 1 else 0))
   }"

section \<open>Directories and the calls\<close>

text \<open>A call ends with its result, or at a page fault; either way with the file system as it is
  then.  As before, None is a panic.\<close>

datatype 'a access = Done 'a fs | Fault fs

primrec left :: "'a access \<Rightarrow> fs" where
  "left (Done r s) = s"
| "left (Fault s) = s"

partial_function (option) user_lookup_loop ::
  "mem \<Rightarrow> nat \<Rightarrow> inode \<Rightarrow> int \<Rightarrow> fs \<Rightarrow> (dir_entry \<times> int) option access option" where
  "user_lookup_loop m p i ofs s = do {
     r \<leftarrow> inode_read_at i sizeof_dir_entry ofs s;
     (if length (fst r) \<noteq> 20 then Some (Done None (snd r))
      else do {
        let e = decode_entry (fst r);
        c \<leftarrow> (if in_use e \<noteq> 0
             then do {
               ASSERT (0 \<in> set (name e));
               Some (user_strcmp m p (takeWhile (\<lambda>c. c \<noteq> 0) (name e)))
             }
             else Some (Some 1));
        (if c = None then Some (Fault (snd r))
         else if c = Some 0 then Some (Done (Some (e, ofs)) (snd r))
         else user_lookup_loop m p i (ofs + sizeof_dir_entry) (snd r))
      })
   }"

definition user_lookup :: "mem \<Rightarrow> nat \<Rightarrow> nat \<Rightarrow> fs \<Rightarrow> (dir_entry \<times> int) option access option" where
  "user_lookup m p d s = do {
     ASSERT (p \<noteq> 0);
     dr \<leftarrow> dirs s d;
     i \<leftarrow> inodes s (dir_inode dr);
     user_lookup_loop m p i 0 s
   }"

definition user_dir_lookup :: "mem \<Rightarrow> nat \<Rightarrow> nat \<Rightarrow> fs \<Rightarrow> nat access option" where
  "user_dir_lookup m p d s = do {
     r \<leftarrow> user_lookup m p d s;
     (case r of
        Fault s \<Rightarrow> Some (Fault s)
      | Done None s \<Rightarrow> Some (Done 0 s)
      | Done (Some (e, _)) s \<Rightarrow> do { (q, s) \<leftarrow> inode_open (inode_sector e) s; Some (Done q s) })
   }"

text \<open>dir_add takes the length of the name first, so that all of it is mapped from then on.\<close>

definition user_dir_add :: "byte list \<Rightarrow> mem \<Rightarrow> nat \<Rightarrow> nat \<Rightarrow> nat \<Rightarrow> fs \<Rightarrow> bool access option" where
  "user_dir_add junk m p d sec s = do {
     ASSERT (p \<noteq> 0);
     (case user_string m p of
        None \<Rightarrow> Some (Fault s)
      | Some nm \<Rightarrow> do { (ok, s) \<leftarrow> dir_add junk d nm sec s; Some (Done ok s) })
   }"

definition user_dir_remove :: "mem \<Rightarrow> nat \<Rightarrow> nat \<Rightarrow> fs \<Rightarrow> bool access option" where
  "user_dir_remove m p d s = do {
     r \<leftarrow> user_lookup m p d s;
     (case r of
        Fault s \<Rightarrow> Some (Fault s)
      | Done None s \<Rightarrow> Some (Done False s)
      | Done (Some (e, ofs)) s \<Rightarrow> do {
          (q, s) \<leftarrow> inode_open (inode_sector e) s;
          (if q = 0 then Some (Done False s)
           else do {
             dr \<leftarrow> dirs s d;
             i \<leftarrow> inodes s (dir_inode dr);
             (n, s) \<leftarrow> inode_write_at i (encode_entry (e\<lparr>in_use := 0\<rparr>)) sizeof_dir_entry ofs s;
             (if n \<noteq> sizeof_dir_entry then do { s \<leftarrow> inode_close q s; Some (Done False s) }
              else do {
                s \<leftarrow> inode_remove q s;
                s \<leftarrow> inode_close q s;
                Some (Done True s)
              })
           })
        })
   }"

definition user_filesys_create :: "byte list \<Rightarrow> mem \<Rightarrow> nat \<Rightarrow> int \<Rightarrow> fs \<Rightarrow> bool access option" where
  "user_filesys_create junk m p initial_size s = do {
     (d, s) \<leftarrow> dir_open_root s;
     (sec, r) \<leftarrow>
       (if d = 0 then Some (0, Done False s)
        else do {
          (r, s) \<leftarrow> free_map_allocate 1 s;
          (case r of
             None \<Rightarrow> Some (0, Done False s)
           | Some sec \<Rightarrow> do {
               (ok, s) \<leftarrow> inode_create sec initial_size s;
               (if \<not> ok then Some (sec, Done False s)
                else do { r \<leftarrow> user_dir_add junk m p d sec s; Some (sec, r) })
             })
        });
     (case r of
        Fault s \<Rightarrow> Some (Fault s)
      | Done success s \<Rightarrow> do {
          s \<leftarrow> (if \<not> success \<and> sec \<noteq> 0 then free_map_release sec 1 s else Some s);
          s \<leftarrow> dir_close d s;
          Some (Done success s)
        })
   }"

definition user_filesys_open :: "mem \<Rightarrow> nat \<Rightarrow> fs \<Rightarrow> nat access option" where
  "user_filesys_open m p s = do {
     (d, s) \<leftarrow> dir_open_root s;
     r \<leftarrow> (if d \<noteq> 0 then user_dir_lookup m p d s else Some (Done 0 s));
     (case r of
        Fault s \<Rightarrow> Some (Fault s)
      | Done q s \<Rightarrow> do {
          s \<leftarrow> dir_close d s;
          (f, s) \<leftarrow> file_open q s;
          Some (Done f s)
        })
   }"

definition user_filesys_remove :: "mem \<Rightarrow> nat \<Rightarrow> fs \<Rightarrow> bool access option" where
  "user_filesys_remove m p s = do {
     (d, s) \<leftarrow> dir_open_root s;
     r \<leftarrow> (if d \<noteq> 0 then user_dir_remove m p d s else Some (Done False s));
     (case r of
        Fault s \<Rightarrow> Some (Fault s)
      | Done success s \<Rightarrow> do { s \<leftarrow> dir_close d s; Some (Done success s) })
   }"

section \<open>Mapped names\<close>

text \<open>The comparison is the strcmp of KString, if the other string is in memory as well.\<close>

lemma user_strcmp_strcmp: "blk m b (ys @ [0]) \<Longrightarrow> 0 \<notin> set ys \<Longrightarrow> strcmp_loop m p b = user_strcmp m p ys"
proof (induction ys arbitrary: b p)
  case Nil
  then show ?case
    by (subst strcmp_loop.simps) (cases "m p"; auto simp: word_gt_0)
next
  case (Cons y ys)
  have "strcmp_loop m (p + 1) (b + 1) = user_strcmp m (p + 1) ys" by (rule Cons.IH) (use Cons.prems in simp_all)
  then show ?case using Cons.prems
    by (subst strcmp_loop.simps) (cases "m p"; auto)
qed

lemma strlen_loop_blk:
  "strlen_loop m st p = Some n \<Longrightarrow> \<exists>cs. blk m p (cs @ [0]) \<and> 0 \<notin> set cs \<and> n = p + length cs - st"
  apply (erule strlen_loop.raw_induct [where P = "\<lambda>m st p n. \<exists>cs. blk m p (cs @ [0]) \<and> 0 \<notin> set cs \<and> n = p + length cs - st", rotated])
  subgoal premises prems for loop m st p n
  proof -
    obtain x where x: "m p = Some x" "(if x \<noteq> 0 then loop m st (p + 1) else Some (p - st)) = Some n"
      using prems(2) by (auto simp: bind_eq_Some_conv)
    show ?thesis
    proof (cases "x = 0")
      case True
      then show ?thesis using x by (intro exI [of _ "[]"]) simp
    next
      case False
      then obtain cs where "blk m (p + 1) (cs @ [0])" "0 \<notin> set cs" "n = p + 1 + length cs - st"
        using prems(1) [of m st "p + 1" n] x(2) by auto
      then show ?thesis using x(1) False by (intro exI [of _ "x # cs"]) simp
    qed
  qed
  done

lemma peek_blk: "blk m p cs \<Longrightarrow> peek m p (length cs) = Some cs"
proof -
  assume b: "blk m p cs"
  have "map (\<lambda>i. m (p + i)) [0 ..< length cs] = map Some cs"
    by (rule nth_equalityI) (use b in \<open>auto simp: blk_nth\<close>)
  moreover have "those (map Some cs) = Some cs" by (induction cs) simp_all
  ultimately show ?thesis by (simp add: peek_def)
qed

lemma user_string_blk: "user_string m p = Some nm \<Longrightarrow> blk m p (nm @ [0]) \<and> 0 \<notin> set nm"
proof -
  assume u: "user_string m p = Some nm"
  then obtain n where n: "strlen_loop m p p = Some n" "peek m p n = Some nm"
    by (auto simp: user_string_def bind_eq_Some_conv)
  from strlen_loop_blk [OF n(1)] obtain cs where c: "blk m p (cs @ [0])" "0 \<notin> set cs" "n = length cs" by auto
  then have "peek m p n = Some cs" by (simp add: peek_blk)
  then show ?thesis using n c by simp
qed

lemma user_strcmp_blk: "blk m p (nm @ [0]) \<Longrightarrow> 0 \<notin> set nm \<Longrightarrow> 0 \<notin> set ys \<Longrightarrow> user_strcmp m p ys = Some (cmp_bytes nm ys)"
  by (induction nm ys arbitrary: p rule: cmp_bytes.induct) (auto simp: word_gt_0)

lemma user_strcmp_Some: "blk m p (nm @ [0]) \<Longrightarrow> user_strcmp m p ys \<noteq> None"
proof (induction ys arbitrary: p nm)
  case Nil
  then show ?case by (cases nm) auto
next
  case (Cons y ys)
  then show ?case by (cases nm) auto
qed

lemma bindE':
  assumes "Option.bind m f = Some y"
  obtains a b where "m = Some (a, b)" "f (a, b) = Some y"
  using assms by (auto simp: bind_eq_Some_conv)

lemma user_lookup_loop_mapped:
  assumes b: "blk m p (nm @ [0])" "0 \<notin> set nm"
  shows "lookup_loop i nm ofs s = Some y \<Longrightarrow> user_lookup_loop m p i ofs s = Some (Done (fst y) (snd y))"
  apply (erule lookup_loop.raw_induct [where P = "\<lambda>i x ofs s y. x = nm \<longrightarrow> user_lookup_loop m p i ofs s = Some (Done (fst y) (snd y))",
      rotated, THEN mp])
   prefer 2
   apply (rule refl)
  subgoal premises prems for loop i x ofs s y
  proof
    assume x: "x = nm"
    have c: "user_strcmp m p (takeWhile (\<lambda>c. c \<noteq> 0) xs) = Some (cmp_bytes nm (takeWhile (\<lambda>c. c \<noteq> 0) xs))" for xs
      by (rule user_strcmp_blk [OF b]) (auto dest: set_takeWhileD)
    obtain bs t where r: "inode_read_at i sizeof_dir_entry ofs s = Some (bs, t)"
      "(if length bs \<noteq> 20 then Some (None, t)
        else (let e = decode_entry bs
              in Option.bind (if in_use e \<noteq> 0 then name_matches nm e else Some False)
                (\<lambda>m. if m then Some (Some (e, ofs), t) else loop i nm (ofs + sizeof_dir_entry) t))) = Some y"
      using prems(2) unfolding x by (elim bindE', unfold fst_conv snd_conv) blast
    have go: "user_lookup_loop m p i (ofs + sizeof_dir_entry) t = Some (Done (fst y) (snd y))"
      if "loop i nm (ofs + sizeof_dir_entry) t = Some y"
      using prems(1) [OF that] by simp
    show "user_lookup_loop m p i ofs s = Some (Done (fst y) (snd y))"
      using r(2) go
      by (subst user_lookup_loop.simps)
        (auto simp: r(1) Let_def name_matches_def c split: if_splits)
  qed
  done

lemma user_dir_lookup_mapped:
  assumes "user_string m p = Some nm" and "p \<noteq> 0" and "dir_lookup d nm s = Some (q, s')"
  shows "user_dir_lookup m p d s = Some (Done q s')"
proof -
  note b = user_string_blk [OF assms(1)]
  obtain r t where l: "lookup d nm s = Some (r, t)"
      "(case r of Some (e, _) \<Rightarrow> inode_open (inode_sector e) t | None \<Rightarrow> Some (0, t)) = Some (q, s')"
    using assms(3) by (auto simp: dir_lookup_def bind_eq_Some_conv)
  have "user_lookup m p d s = Some (Done r t)"
    using l(1) assms(2) user_lookup_loop_mapped [of m p nm] b
    by (fastforce simp: lookup_def user_lookup_def bind_eq_Some_conv)
  then show ?thesis using l(2) by (auto simp: user_dir_lookup_def split: option.splits)
qed

lemma user_filesys_open_mapped:
  assumes "user_string m p = Some nm" and "p \<noteq> 0" and "filesys_open nm s = Some (f, s')"
  shows "user_filesys_open m p s = Some (Done f s')"
proof -
  obtain d s1 q s2 s3 where r: "dir_open_root s = Some (d, s1)"
      "(if d \<noteq> 0 then dir_lookup d nm s1 else Some (0, s1)) = Some (q, s2)" "dir_close d s2 = Some s3"
      "file_open q s3 = Some (f, s')"
    using assms(3) by (auto simp: filesys_open_def bind_eq_Some_conv)
  then show ?thesis
    using user_dir_lookup_mapped [OF assms(1,2), of d s1]
    by (auto simp: user_filesys_open_def split: if_splits)
qed

section \<open>Names that are not mapped\<close>

text \<open>In a directory without a name in use the search never touches the name; in all others a
  name whose first byte is not mapped makes it fault.\<close>

lemma user_lookup_loop_unmapped:
  "data_ok (fs_device s) (idata i) \<Longrightarrow> allocs s = [] \<Longrightarrow> m p = None
     \<Longrightarrow> \<forall>e \<in> set (drop k (entries (fs_device s) (idata i))). terminated e
     \<Longrightarrow> \<exists>s'. user_lookup_loop m p i (int (20 * k)) s
           = Some (if \<exists>e \<in> set (drop k (entries (fs_device s) (idata i))). in_use e \<noteq> 0 then Fault s' else Done None s')
         \<and> quiet s s' \<and> allocs s' = []"
proof (induction "nat (dlength (idata i)) div 20 - k" arbitrary: k s)
  case 0
  let ?bs = "take 20 (drop (20 * k) (file_bytes (fs_device s) (idata i)))"
  obtain s' where r: "inode_read_at i 20 (int (20 * k)) s = Some (?bs, s')" "quiet s s'" "allocs s' = []"
    using read_entry [OF 0(2,3)] by blast
  have "length ?bs \<noteq> 20" unfolding entry_in_range using 0(1) by simp
  with r 0(1) show ?case
    by (subst user_lookup_loop.simps) (simp add: sizeof_dir_entry_def)
next
  case (Suc n)
  let ?bs = "take 20 (drop (20 * k) (file_bytes (fs_device s) (idata i)))"
  have k: "k < nat (dlength (idata i)) div 20" using Suc(2) by simp
  obtain s1 where r: "inode_read_at i 20 (int (20 * k)) s = Some (?bs, s1)" "quiet s s1" "allocs s1 = []"
    using read_entry [OF Suc(3,4)] by blast
  have len: "length ?bs = 20" unfolding entry_in_range by (rule k)
  define e where "e = decode_entry ?bs"
  note dr = entries_drop [OF k, of "fs_device s", folded e_def]
  have t: "in_use e \<noteq> 0 \<Longrightarrow> 0 \<in> set (name e)" using Suc(6) dr by (simp add: terminated_def)
  have c: "user_strcmp m p ys = None" for ys using Suc(5) by (cases ys) simp_all
  have step: "user_lookup_loop m p i (int (20 * k)) s =
      (if in_use e \<noteq> 0 then Some (Fault s1) else user_lookup_loop m p i (int (20 * Suc k)) s1)"
    using r(1) len t c
    by (subst user_lookup_loop.simps) (simp add: sizeof_dir_entry_def Let_def e_def [symmetric] add.commute)
  show ?case
  proof (cases "in_use e \<noteq> 0")
    case True
    with step dr r show ?thesis by auto
  next
    case False
    have "n = nat (dlength (idata i)) div 20 - Suc k" using Suc(2) by simp
    moreover have "data_ok (fs_device s1) (idata i)" using data_ok_quiet [OF r(2)] Suc(3) by simp
    moreover have "\<forall>e \<in> set (drop (Suc k) (entries (fs_device s1) (idata i))). terminated e"
      using Suc(6) dr entries_quiet [OF r(2)] by simp
    ultimately obtain s' where "user_lookup_loop m p i (int (20 * Suc k)) s1 =
        Some (if \<exists>e \<in> set (drop (Suc k) (entries (fs_device s1) (idata i))). in_use e \<noteq> 0 then Fault s' else Done None s')"
        "quiet s1 s'" "allocs s' = []"
      using Suc(1) [of "Suc k" s1] r(3) Suc(5) by blast
    with step False dr quiet_trans [OF r(2)] entries_quiet [OF r(2)] show ?thesis by auto
  qed
qed

lemma user_filesys_open_unmapped:
  assumes o: "dir_open_root s = Some (d, s1)" "d \<noteq> 0" and d: "dir_ok s1 d i" and p: "p \<noteq> 0" "m p = None"
  shows "if \<exists>e \<in> set (dir_entries s1 i). in_use e \<noteq> 0 then \<exists>s'. user_filesys_open m p s = Some (Fault s')
    else \<not> removed i \<longrightarrow> (\<exists>s'. user_filesys_open m p s = Some (Done 0 s'))"
proof -
  obtain dr where dr: "dirs s1 d = Some dr" "inodes s1 (dir_inode dr) = Some i" using d by (auto simp: dir_ok_def)
  have k: "data_ok (fs_device s1) (idata i)" "allocs s1 = []" "\<forall>e \<in> set (drop 0 (dir_entries s1 i)). terminated e"
    using d by (simp_all add: dir_ok_def)
  obtain s2 where l: "user_lookup_loop m p i 0 s1 =
      Some (if \<exists>e \<in> set (dir_entries s1 i). in_use e \<noteq> 0 then Fault s2 else Done None s2)" "quiet s1 s2" "allocs s2 = []"
    using user_lookup_loop_unmapped [of s1 i m p 0] k p(2) by auto
  show ?thesis
  proof (cases "\<exists>e \<in> set (dir_entries s1 i). in_use e \<noteq> 0")
    case True
    then show ?thesis
      using o p dr l by (simp add: user_filesys_open_def user_dir_lookup_def user_lookup_def)
  next
    case False
    have "dirs s2 = dirs s1" "inodes s2 = inodes s1" using l(2) by (auto simp: quiet_def)
    then have "\<exists>s'. user_filesys_open m p s = Some (Done 0 s')" if "\<not> removed i"
      using False o p dr l that
      by (auto simp: user_filesys_open_def user_dir_lookup_def user_lookup_def dir_close_def inode_close_def
          file_open_def Let_def split: prod.splits)
    then show ?thesis using False by simp
  qed
qed

end
