(* ===== verification/Syscall.thy ===== *)
theory Syscall
  imports ArgPass UserNames
begin

text \<open>
  The system calls of userprog/syscall.c, on the file system of Directory and UserNames and
  the memory that is mapped while the calling process runs.  A state is that of the calling
  process: the descriptor table of its struct thread, its memory (all of it taken to be
  writable), the file system, the value of the semaphore mutex, the keys that were typed and
  the bytes that were put on the console.  A page fault in a system call runs the handler of
  userprog/exception.c, which calls exit(-1); a fault in the middle of a transfer is taken to
  come before it, with the file system as it was before the transfer.  None is a kernel panic.
  The outcome Stray is none: the call has left the array or block it works on, or stores to
  kernel memory, and goes on with what it finds there.  A call runs as one step; fd_wait is
  down only between the two assignments to the table and is left out.
\<close>

section \<open>The state and what a call ends in\<close>

record ustate =
  umem :: mem
  ufs :: fs
  fd_files :: "nat list"
  fd_used :: "bool list"
  current_file :: nat
  pname :: "byte list"
  mutex :: nat
  eax :: nat
  keys :: "byte list"
  console :: "byte list"

text \<open>\<open>Blocked\<close> is a call that waits for the mutex or a key; exec and wait go on in
  process_execute and process_wait (theory Lifecycle).  \<open>Stray\<close> is a call that has reached an
  access outside of the object it is meant for: files[fd] and fd_used[fd] with fd not in 0 to
  129, the blocks of fibonacci and get_command, or a store of read at or above PHYS_BASE.  Its
  state is that before the access; nothing is said about the state after it.\<close>

datatype outcome =
    Return ustate
  | Exited int ustate
  | PowerOff ustate
  | Blocked ustate
  | Stray ustate
  | ProcessExecute nat ustate
  | ProcessWait int ustate

definition FD_MAX :: nat where "FD_MAX = 130"

definition to_int :: "nat \<Rightarrow> int" where "to_int w = wrap32 (int w)"

definition to_reg :: "int \<Rightarrow> nat" where "to_reg i = nat (i mod 2 ^ 32)"

definition ret_eax :: "int \<Rightarrow> ustate \<Rightarrow> outcome option" where
  "ret_eax v s = Some (Return (s\<lparr>eax := to_reg v\<rparr>))"

section \<open>exit\<close>

fun close_all :: "nat \<Rightarrow> nat \<Rightarrow> ustate \<Rightarrow> ustate option" where
  "close_all i 0 s = Some s"
| "close_all i (Suc n) s =
     (if \<not> fd_used s ! i then close_all (i + 1) n s
      else do {
        fs \<leftarrow> file_close (fd_files s ! i) (ufs s);
        close_all (i + 1) n (s\<lparr>ufs := fs, fd_used := (fd_used s)[i := False], fd_files := (fd_files s)[i := 0]\<rparr>)
      })"

definition sys_exit :: "int \<Rightarrow> ustate \<Rightarrow> outcome option" where
  "sys_exit st s = do { s \<leftarrow> close_all 2 (FD_MAX - 2) s; Some (Exited st s) }"

text \<open>The page fault handler, for a fault in the kernel.\<close>

definition page_fault :: "ustate \<Rightarrow> outcome option" where
  "page_fault s = sys_exit (- 1) s"

definition check_address :: "nat \<Rightarrow> bool" where
  "check_address addr \<longleftrightarrow> addr < PHYS_BASE"

section \<open>Files\<close>

text \<open>The member files[fd] of the running thread; the array has the indices 0 to 129, and none of
  filesize, seek, tell and close tests the descriptor.\<close>

definition in_table :: "int \<Rightarrow> bool" where
  "in_table fd \<longleftrightarrow> 0 \<le> fd \<and> fd < int FD_MAX"

definition file_at :: "int \<Rightarrow> ustate \<Rightarrow> nat" where
  "file_at fd s = fd_files s ! nat fd"

definition sys_create :: "byte list \<Rightarrow> nat \<Rightarrow> nat \<Rightarrow> ustate \<Rightarrow> outcome option" where
  "sys_create junk file initial_size s =
     (if file = 0 then sys_exit (- 1) s
      else do {
        r \<leftarrow> user_filesys_create junk (umem s) file (to_int initial_size) (ufs s);
        (case r of
           Fault fs \<Rightarrow> page_fault (s\<lparr>ufs := fs\<rparr>)
         | Done ok fs \<Rightarrow> ret_eax (if ok then 1 else 0) (s\<lparr>ufs := fs\<rparr>))
      })"

text \<open>A null name reaches the ASSERT of lookup.\<close>

definition sys_remove :: "nat \<Rightarrow> ustate \<Rightarrow> outcome option" where
  "sys_remove file s = do {
     r \<leftarrow> user_filesys_remove (umem s) file (ufs s);
     (case r of
        Fault fs \<Rightarrow> page_fault (s\<lparr>ufs := fs\<rparr>)
      | Done ok fs \<Rightarrow> ret_eax (if ok then 1 else 0) (s\<lparr>ufs := fs\<rparr>))
   }"

fun free_fd :: "nat \<Rightarrow> nat \<Rightarrow> bool list \<Rightarrow> nat option" where
  "free_fd i 0 us = None"
| "free_fd i (Suc n) us = (if us ! i = False then Some i else free_fd (i + 1) n us)"

definition install_fd :: "nat \<Rightarrow> ustate \<Rightarrow> int \<times> ustate" where
  "install_fd new_file s =
     (case free_fd 2 (FD_MAX - 2) (fd_used s) of
        None \<Rightarrow> (- 1, s)
      | Some i \<Rightarrow> (int i, s\<lparr>fd_files := (fd_files s)[i := new_file], fd_used := (fd_used s)[i := True]\<rparr>))"

text \<open>The end of open, read and write: sema_up and the result.\<close>

definition finish :: "int \<Rightarrow> ustate \<Rightarrow> outcome option" where
  "finish res s = ret_eax res (s\<lparr>mutex := mutex s + 1\<rparr>)"

definition sys_open :: "nat \<Rightarrow> ustate \<Rightarrow> outcome option" where
  "sys_open file s =
     (if file = 0 then ret_eax (- 1) s
      else if mutex s = 0 then Some (Blocked s)
      else do {
        let s = s\<lparr>mutex := mutex s - 1\<rparr>;
        r \<leftarrow> user_filesys_open (umem s) file (ufs s);
        (case r of
           Fault fs \<Rightarrow> page_fault (s\<lparr>ufs := fs\<rparr>)
         | Done new_file fs \<Rightarrow>
             (let s = s\<lparr>ufs := fs\<rparr>
              in if new_file = 0 then finish (- 1) s
                 else
                   (let (res, s) = install_fd new_file s
                    in case user_strcmp (umem s) file (pname s) of
                         None \<Rightarrow> page_fault s
                       | Some c \<Rightarrow> finish res (if c = 0 then s\<lparr>current_file := new_file\<rparr> else s))))
      })"

definition sys_filesize :: "int \<Rightarrow> ustate \<Rightarrow> outcome option" where
  "sys_filesize fd s =
     (if \<not> in_table fd then Some (Stray s)
      else do {
        n \<leftarrow> file_length (file_at fd s) (ufs s);
        ret_eax n s
      })"

datatype key_loop = KeysRead ustate | KeyMissing ustate | KeyFault ustate | KeyStray ustate

fun read_keys :: "nat \<Rightarrow> nat \<Rightarrow> ustate \<Rightarrow> key_loop" where
  "read_keys buffer 0 s = KeysRead s"
| "read_keys buffer (Suc n) s =
     (case keys s of
        [] \<Rightarrow> KeyMissing s
      | c # cs \<Rightarrow>
          (if PHYS_BASE \<le> buffer then KeyStray (s\<lparr>keys := cs\<rparr>)
           else
             (case wr (umem s) buffer c of
                None \<Rightarrow> KeyFault (s\<lparr>keys := cs\<rparr>)
              | Some m \<Rightarrow> read_keys (buffer + 1) n (s\<lparr>keys := cs, umem := m\<rparr>))))"

text \<open>The bytes of a file are stored from the lowest address on.\<close>

definition read_file :: "nat \<Rightarrow> nat \<Rightarrow> nat \<Rightarrow> ustate \<Rightarrow> outcome option" where
  "read_file f buffer sz s =
     (if f = 0 then finish (- 1) s
      else do {
        (d, fs) \<leftarrow> file_read f (to_int sz) (ufs s);
        let n = min (length d) (PHYS_BASE - buffer);
        (if \<not> writable (umem s) buffer n then page_fault s
         else if n < length d then Some (Stray s)
         else finish (int (length d)) (s\<lparr>ufs := fs, umem := put (umem s) buffer d\<rparr>))
      })"

definition sys_read :: "int \<Rightarrow> nat \<Rightarrow> nat \<Rightarrow> ustate \<Rightarrow> outcome option" where
  "sys_read fd buffer sz s =
     (if \<not> check_address buffer then sys_exit (- 1) s
      else if mutex s = 0 then Some (Blocked s)
      else
        (let s = s\<lparr>mutex := mutex s - 1\<rparr>
         in if fd = 0
            then (case read_keys buffer sz s of
                    KeysRead s \<Rightarrow> finish (to_int sz) s
                  | KeyMissing s \<Rightarrow> Some (Blocked s)
                  | KeyFault s \<Rightarrow> page_fault s
                  | KeyStray s \<Rightarrow> Some (Stray s))
            else if 2 \<le> fd \<and> fd < int FD_MAX then read_file (file_at fd s) buffer sz s
            else finish (- 1) s))"

text \<open>How many bytes inode_write_at takes from its buffer: none if writing is denied, and none
  beyond the end of the file.\<close>

definition write_span :: "nat \<Rightarrow> int \<Rightarrow> fs \<Rightarrow> nat option" where
  "write_span f sz s = do {
     fl \<leftarrow> files s f;
     i \<leftarrow> inodes s (file_inode fl);
     Some (if deny_write_cnt i \<noteq> 0 then 0 else nat (min sz (inode_length i - pos fl)))
   }"

definition write_file :: "nat \<Rightarrow> nat \<Rightarrow> nat \<Rightarrow> ustate \<Rightarrow> outcome option" where
  "write_file f buffer sz s =
     (if f = 0 then finish (- 1) s
      else do {
        fs \<leftarrow> (if current_file s = f then file_deny_write f (ufs s) else Some (ufs s));
        let s = s\<lparr>ufs := fs\<rparr>;
        n \<leftarrow> write_span f (to_int sz) (ufs s);
        (case peek (umem s) buffer n of
           None \<Rightarrow> page_fault s
         | Some bs \<Rightarrow> do {
             (written, fs) \<leftarrow> file_write f bs (to_int sz) (ufs s);
             finish written (s\<lparr>ufs := fs\<rparr>)
           })
      })"

definition sys_write :: "int \<Rightarrow> nat \<Rightarrow> nat \<Rightarrow> ustate \<Rightarrow> outcome option" where
  "sys_write fd buffer sz s =
     (if \<not> check_address buffer then sys_exit (- 1) s
      else if mutex s = 0 then Some (Blocked s)
      else
        (let s = s\<lparr>mutex := mutex s - 1\<rparr>
         in if fd = 1
            then (case peek (umem s) buffer sz of
                    None \<Rightarrow> page_fault s
                  | Some bs \<Rightarrow> finish (to_int sz) (s\<lparr>console := console s @ bs\<rparr>))
            else if 2 \<le> fd \<and> fd < int FD_MAX then write_file (file_at fd s) buffer sz s
            else finish (- 1) s))"

definition sys_seek :: "int \<Rightarrow> nat \<Rightarrow> ustate \<Rightarrow> outcome option" where
  "sys_seek fd position s =
     (if \<not> in_table fd then Some (Stray s)
      else do {
        fs \<leftarrow> file_seek (file_at fd s) (to_int position) (ufs s);
        Some (Return (s\<lparr>ufs := fs\<rparr>))
      })"

definition sys_tell :: "int \<Rightarrow> ustate \<Rightarrow> outcome option" where
  "sys_tell fd s =
     (if \<not> in_table fd then Some (Stray s)
      else do {
        n \<leftarrow> file_tell (file_at fd s) (ufs s);
        ret_eax n s
      })"

definition sys_close :: "int \<Rightarrow> ustate \<Rightarrow> outcome option" where
  "sys_close fd s =
     (if \<not> in_table fd then Some (Stray s)
      else do {
        fs \<leftarrow> file_close (file_at fd s) (ufs s);
        Some (Return (s\<lparr>ufs := fs, fd_used := (fd_used s)[nat fd := False], fd_files := (fd_files s)[nat fd := 0]\<rparr>))
      })"

section \<open>Processes and numbers\<close>

text \<open>What get_command copies into its block, which has room for n more bytes.\<close>

datatype command = Command "byte list" | Unmapped | TooLong

fun command_name :: "mem \<Rightarrow> nat \<Rightarrow> nat \<Rightarrow> command" where
  "command_name m p 0 = (case m p of None \<Rightarrow> Unmapped | Some c \<Rightarrow> TooLong)"
| "command_name m p (Suc n) =
     (case m p of
        None \<Rightarrow> Unmapped
      | Some c \<Rightarrow>
          (if c \<noteq> 10 \<and> c \<noteq> 32 \<and> c \<noteq> 0
           then (case command_name m (p + 1) n of Command nm \<Rightarrow> Command (c # nm) | r \<Rightarrow> r)
           else Command []))"

text \<open>The file of the command is opened to see that it is there and stays open.  When malloc
  returns null, the first store of get_command is a page fault.\<close>

definition sys_exec :: "nat \<Rightarrow> ustate \<Rightarrow> outcome option" where
  "sys_exec filename s =
     (let (b, fs) = malloc_ok (ufs s);
          s = s\<lparr>ufs := fs\<rparr>
      in if \<not> b then page_fault s
         else
           (case command_name (umem s) filename 128 of
              Unmapped \<Rightarrow> page_fault s
            | TooLong \<Rightarrow> Some (Stray s)
            | Command nm \<Rightarrow> do {
                (f, fs) \<leftarrow> filesys_open nm (ufs s);
                let s = s\<lparr>ufs := fs\<rparr>;
                (if f \<noteq> 0 then Some (ProcessExecute filename s) else ret_eax (- 1) s)
              }))"

text \<open>The array is the block that malloc returns, of \<open>cap\<close> ints (none if malloc returns null).
  It is written in order, so that it is the list of the ints written.  None is an access
  outside of the block.\<close>

fun fib_loop :: "nat \<Rightarrow> nat \<Rightarrow> nat \<Rightarrow> int list \<Rightarrow> int list option" where
  "fib_loop cap i 0 fib = Some fib"
| "fib_loop cap i (Suc n) fib = do {
     ASSERT (i < cap);
     fib_loop cap (i + 1) n (fib @ [wrap32 (fib ! (i - 1) + fib ! (i - 2))])
   }"

definition fibonacci :: "nat \<Rightarrow> int \<Rightarrow> int option" where
  "fibonacci cap n = do {
     ASSERT (2 \<le> cap \<and> 0 \<le> n);
     fib \<leftarrow> fib_loop cap 2 (nat n - 1) [0, 1];
     Some (fib ! nat n)
   }"

definition max_of_four_int :: "int \<Rightarrow> int \<Rightarrow> int \<Rightarrow> int \<Rightarrow> int" where
  "max_of_four_int a b c d =
     (let m1 = (if a > b then a else b);
          m2 = (if c > d then c else d)
      in if m1 > m2 then m1 else m2)"

section \<open>The handler\<close>

text \<open>The words of the call: all addresses are checked before the first one is read.\<close>

definition with_args :: "nat \<Rightarrow> nat \<Rightarrow> (nat list \<Rightarrow> outcome option) \<Rightarrow> ustate \<Rightarrow> outcome option" where
  "with_args n esp k s =
     (if \<exists>i \<in> {1 .. n}. \<not> check_address (size_add esp (4 * i)) then sys_exit (- 1) s
      else
        (case those (map (\<lambda>i. ld32 (umem s) (size_add esp (4 * i))) [1 ..< n + 1]) of
           None \<Rightarrow> page_fault s
         | Some ws \<Rightarrow> k ws))"

definition syscall_handler :: "byte list \<Rightarrow> nat option \<Rightarrow> nat \<Rightarrow> ustate \<Rightarrow> outcome option" where
  "syscall_handler junk block esp s =
     (if \<not> check_address esp then sys_exit (- 1) s
      else
        (case ld32 (umem s) esp of
           None \<Rightarrow> page_fault s
         | Some syscall \<Rightarrow>
             (if syscall = 0 then Some (PowerOff s)
              else if syscall = 1 then with_args 1 esp (\<lambda>a. sys_exit (to_int (a ! 0)) s) s
              else if syscall = 2 then with_args 1 esp (\<lambda>a. sys_exec (a ! 0) s) s
              else if syscall = 3 then with_args 1 esp (\<lambda>a. Some (ProcessWait (to_int (a ! 0)) s)) s
              else if syscall = 4 then with_args 2 esp (\<lambda>a. sys_create junk (a ! 0) (a ! 1) s) s
              else if syscall = 5 then with_args 1 esp (\<lambda>a. sys_remove (a ! 0) s) s
              else if syscall = 6 then with_args 1 esp (\<lambda>a. sys_open (a ! 0) s) s
              else if syscall = 7 then with_args 1 esp (\<lambda>a. sys_filesize (to_int (a ! 0)) s) s
              else if syscall = 8 then with_args 3 esp (\<lambda>a. sys_read (to_int (a ! 0)) (a ! 1) (a ! 2) s) s
              else if syscall = 9 then with_args 3 esp (\<lambda>a. sys_write (to_int (a ! 0)) (a ! 1) (a ! 2) s) s
              else if syscall = 10 then with_args 2 esp (\<lambda>a. sys_seek (to_int (a ! 0)) (a ! 1) s) s
              else if syscall = 11 then with_args 1 esp (\<lambda>a. sys_tell (to_int (a ! 0)) s) s
              else if syscall = 12 then with_args 1 esp (\<lambda>a. sys_close (to_int (a ! 0)) s) s
              else if syscall = 13 then with_args 1 esp (\<lambda>a.
                (case block of
                   None \<Rightarrow> page_fault s
                 | Some cap \<Rightarrow>
                     (case fibonacci cap (to_int (a ! 0)) of
                        None \<Rightarrow> Some (Stray s)
                      | Some v \<Rightarrow> ret_eax v s))) s
              else if syscall = 14 then with_args 4 esp (\<lambda>a.
                ret_eax (max_of_four_int (to_int (a ! 0)) (to_int (a ! 1)) (to_int (a ! 2)) (to_int (a ! 3))) s) s
              else Some (Return s))))"

section \<open>What the file system leaves of the open files\<close>

text \<open>Only file_open and file_close change the set of open files.\<close>

definition fkeep :: "fs \<Rightarrow> fs \<Rightarrow> bool" where
  "fkeep s s' \<longleftrightarrow> files s' = files s \<and> brk s \<le> brk s'"

lemma fkeep_refl [simp]: "fkeep s s"
  by (simp add: fkeep_def)

lemma fkeep_trans [trans]: "fkeep s t \<Longrightarrow> fkeep t u \<Longrightarrow> fkeep s u"
  by (simp add: fkeep_def)

lemma fkeep_upd [simp]:
  "fkeep s (s\<lparr>inodes := x\<rparr>)" "fkeep s (s\<lparr>open_inodes := y\<rparr>)" "fkeep s (s\<lparr>dirs := z\<rparr>)"
  "fkeep s (s\<lparr>free_map := u\<rparr>)" "fkeep s (s\<lparr>fs_device := v\<rparr>)" "fkeep s (s\<lparr>allocs := w\<rparr>)"
  by (simp_all add: fkeep_def)

lemma fkeep_right [simp]:
  "fkeep s (t\<lparr>inodes := x\<rparr>) = fkeep s t" "fkeep s (t\<lparr>open_inodes := y\<rparr>) = fkeep s t"
  "fkeep s (t\<lparr>dirs := z\<rparr>) = fkeep s t" "fkeep s (t\<lparr>free_map := u\<rparr>) = fkeep s t"
  "fkeep s (t\<lparr>fs_device := v\<rparr>) = fkeep s t" "fkeep s (t\<lparr>allocs := w\<rparr>) = fkeep s t"
  by (simp_all add: fkeep_def)

lemma fkeep_left [simp]:
  "fkeep (s\<lparr>inodes := x\<rparr>) t = fkeep s t" "fkeep (s\<lparr>open_inodes := y\<rparr>) t = fkeep s t"
  "fkeep (s\<lparr>dirs := z\<rparr>) t = fkeep s t" "fkeep (s\<lparr>free_map := u\<rparr>) t = fkeep s t"
  "fkeep (s\<lparr>fs_device := v\<rparr>) t = fkeep s t" "fkeep (s\<lparr>allocs := w\<rparr>) t = fkeep s t"
  by (simp_all add: fkeep_def)

named_theorems keeps "operations that leave the open files"

lemma malloc_keeps [keeps]: "malloc_ok s = (r, s') \<Longrightarrow> fkeep s s'"
  by (auto simp: malloc_ok_def split: list.splits)

lemma new_ptr_keeps [keeps]: "new_ptr s = (r, s') \<Longrightarrow> fkeep s s'"
  by (auto simp: new_ptr_def malloc_ok_def fkeep_def split: list.splits prod.splits if_splits)

lemma dev_read_keeps [keeps]: "dev_read s a = Some (r, s') \<Longrightarrow> fkeep s s'"
  by (auto simp: dev_read_def bind_eq_Some_conv)

lemma dev_write_keeps [keeps]: "dev_write s a b = Some s' \<Longrightarrow> fkeep s s'"
  by (auto simp: dev_write_def bind_eq_Some_conv)

lemma inode_read_loop_keeps: "inode_read_loop i sz ofs bounce buf s = Some (r, s') \<Longrightarrow> fkeep s s'"
proof (induction "nat sz" arbitrary: sz ofs bounce buf s rule: less_induct)
  case less
  have IH: "fkeep s s'" if "0 < sz" "\<not> c \<le> 0" "inode_read_loop i (sz - c) o' b' f' t = Some (r, s')" "fkeep s t" for c o' b' f' t
    using less.hyps [OF _ that(3)] that(1,2,4) by (auto intro: fkeep_trans)
  show ?case
    using less.prems
    by (subst (asm) inode_read_loop.simps)
      (auto simp: Let_def bind_eq_Some_conv split: if_splits prod.splits
        dest!: dev_read_keeps malloc_keeps intro: IH fkeep_trans)
qed

lemma inode_read_at_keeps [keeps]: "inode_read_at i sz ofs s = Some (r, s') \<Longrightarrow> fkeep s s'"
  unfolding inode_read_at_def by (rule inode_read_loop_keeps)

lemma inode_write_loop_keeps: "inode_write_loop i buf sz ofs bounce n s = Some (r, s') \<Longrightarrow> fkeep s s'"
proof (induction "nat sz" arbitrary: sz ofs bounce n s rule: less_induct)
  case less
  have IH: "fkeep s s'" if "0 < sz" "\<not> c \<le> 0" "inode_write_loop i buf (sz - c) o' b' f' t = Some (r, s')" "fkeep s t" for c o' b' f' t
    using less.hyps [OF _ that(3)] that(1,2,4) by (auto intro: fkeep_trans)
  show ?case
    using less.prems
    by (subst (asm) inode_write_loop.simps)
      (auto simp: Let_def bind_eq_Some_conv split: if_splits prod.splits
        dest!: dev_read_keeps dev_write_keeps malloc_keeps intro: IH fkeep_trans)
qed

lemma inode_write_at_keeps [keeps]: "inode_write_at i buf sz ofs s = Some (r, s') \<Longrightarrow> fkeep s s'"
  by (auto simp: inode_write_at_def split: if_splits dest: inode_write_loop_keeps)

lemma file_write_at_keeps [keeps]: "file_write_at f buf sz ofs s = Some (r, s') \<Longrightarrow> fkeep s s'"
  by (auto simp: file_write_at_def bind_eq_Some_conv dest: inode_write_at_keeps)

lemma bitmap_write_keeps [keeps]: "bitmap_write b f s = Some (r, s') \<Longrightarrow> fkeep s s'"
  by (auto simp: bitmap_write_def bind_eq_Some_conv Let_def dest!: file_write_at_keeps)

lemma free_map_allocate_keeps [keeps]: "free_map_allocate n s = Some (r, s') \<Longrightarrow> fkeep s s'"
  by (auto simp: free_map_allocate_def bind_eq_Some_conv Let_def split: if_splits prod.splits option.splits
      dest!: bitmap_write_keeps) (metis fkeep_right(4) fkeep_upd(4))+

lemma free_map_release_keeps [keeps]: "free_map_release a n s = Some s' \<Longrightarrow> fkeep s s'"
  by (auto simp: free_map_release_def bind_eq_Some_conv Let_def split: if_splits prod.splits dest!: bitmap_write_keeps)

lemma zero_sectors_keeps [keeps]: "zero_sectors a n s = Some s' \<Longrightarrow> fkeep s s'"
proof (induction n arbitrary: a s)
  case (Suc n)
  then show ?case by (auto simp: bind_eq_Some_conv dest!: dev_write_keeps Suc.IH intro: fkeep_trans)
qed simp

lemma inode_create_keeps [keeps]: "inode_create a n s = Some (r, s') \<Longrightarrow> fkeep s s'"
  by (auto simp: inode_create_def bind_eq_Some_conv Let_def split: if_splits prod.splits option.splits
      dest!: keeps intro: fkeep_trans)

lemma inode_reopen_keeps [keeps]: "inode_reopen a s = Some (r, s') \<Longrightarrow> fkeep s s'"
  by (auto simp: inode_reopen_def bind_eq_Some_conv split: if_splits)

lemma inode_open_keeps [keeps]: "inode_open a s = Some (r, s') \<Longrightarrow> fkeep s s'"
  by (auto simp: inode_open_def bind_eq_Some_conv Let_def split: if_splits prod.splits option.splits
      dest!: keeps intro: fkeep_trans)

lemma inode_close_keeps [keeps]: "inode_close a s = Some s' \<Longrightarrow> fkeep s s'"
  by (auto simp: inode_close_def bind_eq_Some_conv Let_def split: if_splits prod.splits option.splits
      dest!: keeps intro: fkeep_trans)

lemma inode_remove_keeps [keeps]: "inode_remove a s = Some s' \<Longrightarrow> fkeep s s'"
  by (auto simp: inode_remove_def bind_eq_Some_conv)

lemma dir_open_keeps [keeps]: "dir_open p s = Some (r, s') \<Longrightarrow> fkeep s s'"
  by (cases "new_ptr s") (auto simp: dir_open_def bind_eq_Some_conv split: if_splits dest!: keeps intro: fkeep_trans)

lemma dir_open_root_keeps [keeps]: "dir_open_root s = Some (r, s') \<Longrightarrow> fkeep s s'"
  by (auto simp: dir_open_root_def bind_eq_Some_conv dest!: keeps intro: fkeep_trans)

lemma dir_close_keeps [keeps]: "dir_close d s = Some s' \<Longrightarrow> fkeep s s'"
  by (auto simp: dir_close_def bind_eq_Some_conv split: if_splits dest!: keeps)

lemma lookup_loop_keeps: "lookup_loop i nm ofs s = Some y \<Longrightarrow> fkeep s (snd y)"
  apply (erule lookup_loop.raw_induct [where P = "\<lambda>i nm ofs s y. fkeep s (snd y)", rotated])
  subgoal premises prems for loop i nm ofs s y
    using prems(2)
    by (auto simp: bind_eq_Some_conv Let_def split: if_splits dest!: keeps prems(1) intro: fkeep_trans)
  done

lemma lookup_keeps [keeps]: "lookup d nm s = Some (r, s') \<Longrightarrow> fkeep s s'"
  by (auto simp: lookup_def bind_eq_Some_conv dest: lookup_loop_keeps)

lemma free_slot_loop_keeps: "free_slot_loop i e ofs s = Some y \<Longrightarrow> fkeep s (snd (snd y))"
  apply (erule free_slot_loop.raw_induct [where P = "\<lambda>i e ofs s y. fkeep s (snd (snd y))", rotated])
  subgoal premises prems for loop i e ofs s y
    using prems(2)
    by (auto simp: bind_eq_Some_conv Let_def split: if_splits dest!: keeps prems(1) intro: fkeep_trans)
  done

lemma free_slot_keeps [keeps]: "free_slot_loop i e ofs s = Some (e', o', s') \<Longrightarrow> fkeep s s'"
  using free_slot_loop_keeps by fastforce

lemma dir_lookup_keeps [keeps]: "dir_lookup d nm s = Some (r, s') \<Longrightarrow> fkeep s s'"
  by (auto simp: dir_lookup_def bind_eq_Some_conv split: option.splits dest!: keeps intro: fkeep_trans)

lemma dir_add_keeps [keeps]: "dir_add junk d nm a s = Some (r, s') \<Longrightarrow> fkeep s s'"
  by (auto simp: dir_add_def bind_eq_Some_conv Let_def split: if_splits dest!: keeps intro: fkeep_trans)

lemma dir_remove_keeps [keeps]: "dir_remove d nm s = Some (r, s') \<Longrightarrow> fkeep s s'"
  by (auto simp: dir_remove_def bind_eq_Some_conv split: if_splits option.splits dest!: keeps intro: fkeep_trans)
    (simp_all add: fkeep_def)

lemma bindE:
  assumes "Option.bind m f = Some y"
  obtains a where "m = Some a" "f a = Some y"
  using assms by (auto simp: bind_eq_Some_conv)

lemma user_lookup_loop_keeps: "user_lookup_loop m p i ofs s = Some y \<Longrightarrow> fkeep s (left y)"
  apply (erule user_lookup_loop.raw_induct [where P = "\<lambda>m p i ofs s y. fkeep s (left y)", rotated])
  subgoal premises prems for loop m p i ofs s y
    using prems(2)
    by (auto simp: bind_eq_Some_conv Let_def split: if_splits dest!: keeps prems(1) intro: fkeep_trans)
  done

lemma user_lookup_keeps: "user_lookup m p d s = Some y \<Longrightarrow> fkeep s (left y)"
  by (auto simp: user_lookup_def bind_eq_Some_conv split: if_splits dest: user_lookup_loop_keeps)

lemma user_dir_lookup_keeps: "user_dir_lookup m p d s = Some y \<Longrightarrow> fkeep s (left y)"
  unfolding user_dir_lookup_def
  by (erule bindE, drule user_lookup_keeps)
    (auto simp: bind_eq_Some_conv split: access.splits option.splits dest!: keeps; simp add: fkeep_def)

lemma user_dir_add_keeps: "user_dir_add junk m p d a s = Some y \<Longrightarrow> fkeep s (left y)"
  by (auto simp: user_dir_add_def bind_eq_Some_conv split: option.splits if_splits dest!: keeps)

lemma user_dir_remove_keeps: "user_dir_remove m p d s = Some y \<Longrightarrow> fkeep s (left y)"
  unfolding user_dir_remove_def
  by (erule bindE, drule user_lookup_keeps)
    (auto simp: bind_eq_Some_conv split: access.splits option.splits if_splits dest!: keeps intro: fkeep_trans;
     simp add: fkeep_def)

lemma filesys_create_keeps: "user_filesys_create junk m p n s = Some y \<Longrightarrow> fkeep s (left y)"
  unfolding user_filesys_create_def
  apply (erule bindE, clarsimp)
  apply (erule bindE, clarsimp)
  subgoal premises prems for d s1 sec r
  proof -
    have "fkeep s1 (left r)"
      using prems(2) by (auto simp: bind_eq_Some_conv split: if_splits option.splits
          dest!: keeps user_dir_add_keeps intro: fkeep_trans) (simp_all add: fkeep_def)
    moreover have "fkeep (left r) (left y)"
      using prems(3) by (auto simp: bind_eq_Some_conv split: access.splits if_splits dest!: keeps intro: fkeep_trans)
    moreover have "fkeep s s1" using prems(1) by (auto dest: keeps)
    ultimately show ?thesis by (auto simp: fkeep_def)
  qed
  done

lemma filesys_remove_keeps: "user_filesys_remove m p s = Some y \<Longrightarrow> fkeep s (left y)"
proof -
  assume "user_filesys_remove m p s = Some y"
  then obtain d s1 r where r: "dir_open_root s = Some (d, s1)"
      "(if d \<noteq> 0 then user_dir_remove m p d s1 else Some (Done False s1)) = Some r"
      "(case r of Fault s \<Rightarrow> Some (Fault s) | Done ok s \<Rightarrow> do { s \<leftarrow> dir_close d s; Some (Done ok s) }) = Some y"
    by (auto simp: user_filesys_remove_def bind_eq_Some_conv)
  have "fkeep s1 (left r)" using r(2) by (auto split: if_splits dest: user_dir_remove_keeps)
  moreover have "fkeep (left r) (left y)"
    using r(3) by (auto simp: bind_eq_Some_conv split: access.splits dest!: keeps)
  ultimately show ?thesis using r(1) by (auto dest!: keeps intro: fkeep_trans)
qed

lemma file_deny_write_keeps:
  "file_deny_write f s = Some s' \<Longrightarrow> brk s \<le> brk s' \<and> (\<forall>g. (files s' g = None) = (files s g = None))"
  by (auto simp: file_deny_write_def inode_deny_write_def bind_eq_Some_conv split: if_splits)

lemma file_read_keeps:
  "file_read f n s = Some (r, s') \<Longrightarrow> brk s \<le> brk s' \<and> (\<forall>g. (files s' g = None) = (files s g = None))"
  by (auto simp: file_read_def bind_eq_Some_conv fkeep_def split: if_splits dest!: inode_read_at_keeps)

lemma file_write_keeps:
  "file_write f bs n s = Some (r, s') \<Longrightarrow> brk s \<le> brk s' \<and> (\<forall>g. (files s' g = None) = (files s g = None))"
  by (auto simp: file_write_def bind_eq_Some_conv fkeep_def split: if_splits dest!: inode_write_at_keeps)

lemma file_seek_keeps:
  "file_seek f n s = Some s' \<Longrightarrow> brk s \<le> brk s' \<and> (\<forall>g. (files s' g = None) = (files s g = None))"
  by (auto simp: file_seek_def bind_eq_Some_conv split: if_splits)

text \<open>A new file is at a pointer that no file had.\<close>

lemma new_ptr_brk: "new_ptr s = (p, s') \<Longrightarrow> files s' = files s \<and> (p \<noteq> 0 \<longrightarrow> p = brk s \<and> brk s' = brk s + 1) \<and> brk s \<le> brk s'"
  by (auto simp: new_ptr_def malloc_ok_def split: list.splits prod.splits if_splits)

lemma file_open_new:
  "file_open p s = Some (f, s') \<Longrightarrow> (if f = 0 then fkeep s s'
     else f = brk s \<and> brk s < brk s' \<and> (\<exists>fl. files s' = (files s)(f \<mapsto> fl)))"
  by (auto simp: file_open_def bind_eq_Some_conv Let_def fkeep_def split: if_splits prod.split_asm
      dest!: new_ptr_brk inode_close_keeps)

lemma filesys_open_new:
  assumes "filesys_open nm s = Some (f, s')"
  shows "if f = 0 then fkeep s s' else brk s \<le> f \<and> f < brk s' \<and> (\<exists>fl. files s' = (files s)(f \<mapsto> fl))"
proof -
  obtain d s1 p s2 s3 where r: "dir_open_root s = Some (d, s1)"
      "(if d \<noteq> 0 then dir_lookup d nm s1 else Some (0, s1)) = Some (p, s2)" "dir_close d s2 = Some s3"
      "file_open p s3 = Some (f, s')"
    using assms by (auto simp: filesys_open_def bind_eq_Some_conv)
  have "fkeep s s3"
    using r(1-3) by (auto split: if_splits dest!: keeps intro: fkeep_trans)
  then show ?thesis using file_open_new [OF r(4)] by (auto simp: fkeep_def split: if_splits)
qed

lemma user_filesys_open_new:
  assumes "user_filesys_open m p s = Some r"
  shows "case r of Fault s' \<Rightarrow> fkeep s s'
    | Done f s' \<Rightarrow> if f = 0 then fkeep s s' else brk s \<le> f \<and> f < brk s' \<and> (\<exists>fl. files s' = (files s)(f \<mapsto> fl))"
proof -
  obtain d s1 r1 where r: "dir_open_root s = Some (d, s1)"
      "(if d \<noteq> 0 then user_dir_lookup m p d s1 else Some (Done 0 s1)) = Some r1"
      "(case r1 of Fault s \<Rightarrow> Some (Fault s)
        | Done q s \<Rightarrow> do { s \<leftarrow> dir_close d s; (f, s) \<leftarrow> file_open q s; Some (Done f s) }) = Some r"
    using assms by (auto simp: user_filesys_open_def bind_eq_Some_conv)
  have k: "fkeep s (left r1)"
    using r(1,2) by (auto split: if_splits dest!: user_dir_lookup_keeps keeps intro: fkeep_trans)
  show ?thesis
  proof (cases r1)
    case (Fault t)
    then show ?thesis using r(3) k by (cases r) auto
  next
    case (Done q t)
    then obtain s3 f s' where q: "dir_close d t = Some s3" "file_open q s3 = Some (f, s')" "r = Done f s'"
      using r(3) by (auto simp: bind_eq_Some_conv)
    have "fkeep s s3" using k Done q(1) by (auto dest!: keeps intro: fkeep_trans)
    then show ?thesis using file_open_new [OF q(2)] q(3) by (auto simp: fkeep_def split: if_splits)
  qed
qed

lemma file_close_gone:
  assumes "file_close f s = Some s'" "f \<noteq> 0"
  shows "brk s \<le> brk s' \<and> files s' f = None \<and> (\<forall>g. g \<noteq> f \<longrightarrow> (files s' g = None) = (files s g = None))"
  using assms
  by (auto simp: file_close_def file_allow_write_def inode_allow_write_def bind_eq_Some_conv fkeep_def
      split: if_splits dest!: inode_close_keeps)

section \<open>The descriptor table\<close>

text \<open>Descriptors in use hold open files, each of them another one; 0 and 1 are never in use.\<close>

definition fd_ok :: "ustate \<Rightarrow> bool" where
  "fd_ok s \<longleftrightarrow> length (fd_files s) = FD_MAX \<and> length (fd_used s) = FD_MAX \<and>
     \<not> fd_used s ! 0 \<and> \<not> fd_used s ! 1 \<and> 0 < brk (ufs s) \<and>
     (\<forall>f. files (ufs s) f \<noteq> None \<longrightarrow> f < brk (ufs s)) \<and>
     (\<forall>i < FD_MAX. fd_used s ! i \<longleftrightarrow> fd_files s ! i \<noteq> 0) \<and>
     (\<forall>i < FD_MAX. fd_used s ! i \<longrightarrow> files (ufs s) (fd_files s ! i) \<noteq> None) \<and>
     (\<forall>i < FD_MAX. \<forall>j < FD_MAX. fd_used s ! i \<longrightarrow> fd_used s ! j \<longrightarrow> i \<noteq> j \<longrightarrow> fd_files s ! i \<noteq> fd_files s ! j)"

primrec after :: "outcome \<Rightarrow> ustate" where
  "after (Return s) = s"
| "after (Exited st s) = s"
| "after (PowerOff s) = s"
| "after (Blocked s) = s"
| "after (Stray s) = s"
| "after (ProcessExecute f s) = s"
| "after (ProcessWait t s) = s"

lemma fd_okD:
  assumes "fd_ok s"
  shows "length (fd_files s) = FD_MAX" "length (fd_used s) = FD_MAX" "\<not> fd_used s ! 0" "\<not> fd_used s ! 1" "0 < brk (ufs s)"
    "files (ufs s) f \<noteq> None \<Longrightarrow> f < brk (ufs s)" "i < FD_MAX \<Longrightarrow> fd_used s ! i \<longleftrightarrow> fd_files s ! i \<noteq> 0"
    "i < FD_MAX \<Longrightarrow> fd_used s ! i \<Longrightarrow> files (ufs s) (fd_files s ! i) \<noteq> None"
    "i < FD_MAX \<Longrightarrow> j < FD_MAX \<Longrightarrow> fd_used s ! i \<Longrightarrow> fd_used s ! j \<Longrightarrow> i \<noteq> j \<Longrightarrow> fd_files s ! i \<noteq> fd_files s ! j"
  using assms unfolding fd_ok_def by (blast, blast, blast, blast, blast, blast, blast, blast, blast)

text \<open>A change at one place of the table.\<close>

lemma fd_ok_update:
  assumes k: "fd_ok s" and i: "i < FD_MAX" "u \<longrightarrow> 2 \<le> i" "u \<longleftrightarrow> f \<noteq> 0" "u \<longrightarrow> files fs f \<noteq> None"
    and b: "brk (ufs s) \<le> brk fs" "\<And>g. files fs g \<noteq> None \<Longrightarrow> g < brk fs"
    and o: "\<And>j. j < FD_MAX \<Longrightarrow> fd_used s ! j \<Longrightarrow> j \<noteq> i \<Longrightarrow> files fs (fd_files s ! j) \<noteq> None \<and> (u \<longrightarrow> fd_files s ! j \<noteq> f)"
  shows "fd_ok (s\<lparr>ufs := fs, fd_used := (fd_used s)[i := u], fd_files := (fd_files s)[i := f]\<rparr>)"
proof -
  let ?u = "(fd_used s)[i := u]" and ?f = "(fd_files s)[i := f]"
  note d = fd_okD [OF k]
  have nth: "?u ! j = (if j = i then u else fd_used s ! j)" "?f ! j = (if j = i then f else fd_files s ! j)"
    if "j < FD_MAX" for j
    using that d(1,2) by (simp_all add: nth_list_update)
  have "\<not> ?u ! 0" "\<not> ?u ! 1" using nth(1) [of 0] nth(1) [of 1] d(3,4) i by (auto simp: FD_MAX_def)
  moreover have "?u ! j \<longleftrightarrow> ?f ! j \<noteq> 0" if "j < FD_MAX" for j using nth [OF that] d(7) [OF that] i(3) by auto
  moreover have "files fs (?f ! j) \<noteq> None" if "j < FD_MAX" "?u ! j" for j
    using nth [OF that(1)] o [OF that(1)] that i(4) by (cases "j = i") auto
  moreover have "?f ! j \<noteq> ?f ! l" if "j < FD_MAX" "l < FD_MAX" "?u ! j" "?u ! l" "j \<noteq> l" for j l
    using nth [OF that(1)] nth [OF that(2)] o [OF that(1)] o [OF that(2)] d(9) [OF that(1,2)] that(3-5)
    by (auto split: if_splits)
  moreover have "0 < brk fs" using d(5) b(1) by simp
  ultimately show ?thesis using d(1,2) b(2) unfolding fd_ok_def by simp
qed

lemma fd_ok_other [simp]:
  "fd_ok (s\<lparr>umem := a\<rparr>) = fd_ok s" "fd_ok (s\<lparr>mutex := b\<rparr>) = fd_ok s" "fd_ok (s\<lparr>eax := c\<rparr>) = fd_ok s"
  "fd_ok (s\<lparr>keys := d\<rparr>) = fd_ok s" "fd_ok (s\<lparr>console := e\<rparr>) = fd_ok s" "fd_ok (s\<lparr>current_file := f\<rparr>) = fd_ok s"
  by (simp_all add: fd_ok_def)

lemma fd_ok_other_fs [simp]:
  "fd_ok (s\<lparr>umem := a, ufs := fs\<rparr>) = fd_ok (s\<lparr>ufs := fs\<rparr>)" "fd_ok (s\<lparr>ufs := fs, umem := a\<rparr>) = fd_ok (s\<lparr>ufs := fs\<rparr>)"
  "fd_ok (s\<lparr>mutex := b, ufs := fs\<rparr>) = fd_ok (s\<lparr>ufs := fs\<rparr>)"
  by (simp_all add: fd_ok_def)

lemma fd_ok_fs:
  "fd_ok s \<Longrightarrow> brk (ufs s) \<le> brk fs \<Longrightarrow> (\<forall>g. (files fs g = None) = (files (ufs s) g = None)) \<Longrightarrow> fd_ok (s\<lparr>ufs := fs\<rparr>)"
  by (auto simp: fd_ok_def intro: less_le_trans)

lemma fd_ok_fkeep: "fd_ok s \<Longrightarrow> fkeep (ufs s) fs \<Longrightarrow> fd_ok (s\<lparr>ufs := fs\<rparr>)"
  by (rule fd_ok_fs) (simp_all add: fkeep_def)

lemma fd_ok_clear:
  assumes k: "fd_ok s" and i: "i < FD_MAX" and c: "file_close (fd_files s ! i) (ufs s) = Some fs"
  shows "fd_ok (s\<lparr>ufs := fs, fd_used := (fd_used s)[i := False], fd_files := (fd_files s)[i := 0]\<rparr>)"
proof -
  note d = fd_okD [OF k]
  show ?thesis
  proof (cases "fd_files s ! i = 0")
    case True
    then have "fs = ufs s" using c by (simp add: file_close_def)
    then show ?thesis by (intro fd_ok_update [OF k i]) (use d(6,8) in auto)
  next
    case False
    note g = file_close_gone [OF c False]
    have "fd_used s ! i" using d(7) [OF i] False by simp
    then have o: "files fs (fd_files s ! j) \<noteq> None" if "j < FD_MAX" "fd_used s ! j" "j \<noteq> i" for j
      using d(9) [OF that(1) i that(2)] d(8) [OF that(1,2)] that(3) g by simp
    have "h < brk fs" if "files fs h \<noteq> None" for h
      using g d(6) [of h] that by (cases "h = fd_files s ! i") auto
    then show ?thesis by (intro fd_ok_update [OF k i]) (use o g in auto)
  qed
qed

lemma close_all_ok:
  "close_all i n s = Some s' \<Longrightarrow> fd_ok s \<Longrightarrow> i + n \<le> FD_MAX \<Longrightarrow>
     fd_ok s' \<and> (\<forall>j. i \<le> j \<and> j < i + n \<longrightarrow> \<not> fd_used s' ! j) \<and> (\<forall>j. j < i \<or> i + n \<le> j \<longrightarrow> fd_used s' ! j = fd_used s ! j)
     \<and> mutex s' = mutex s"
proof (induction n arbitrary: i s)
  case (Suc n)
  show ?case
  proof (cases "fd_used s ! i")
    case False
    then have "close_all (i + 1) n s = Some s'" using Suc.prems(1) by simp
    note r = Suc.IH [OF this Suc.prems(2)]
    have "\<not> fd_used s' ! j" if "i \<le> j" "j < i + Suc n" for j
      using r Suc.prems(3) that False by (cases "j = i") auto
    then show ?thesis using r Suc.prems(3) by simp
  next
    case True
    then obtain fs where fs: "file_close (fd_files s ! i) (ufs s) = Some fs"
      "close_all (i + 1) n (s\<lparr>ufs := fs, fd_used := (fd_used s)[i := False], fd_files := (fd_files s)[i := 0]\<rparr>) = Some s'"
      using Suc.prems(1) by (auto simp: bind_eq_Some_conv)
    have i: "i < FD_MAX" "i < length (fd_used s)" using Suc.prems(2,3) by (simp_all add: fd_ok_def)
    note r = Suc.IH [OF fs(2) fd_ok_clear [OF Suc.prems(2) i(1) fs(1)]]
    have "\<not> fd_used s' ! j" if "i \<le> j" "j < i + Suc n" for j
      using r Suc.prems(3) that i by (cases "j = i") auto
    moreover have "fd_used s' ! j = fd_used s ! j" if "j < i \<or> i + Suc n \<le> j" for j
      using r Suc.prems(3) that i by auto
    ultimately show ?thesis using r Suc.prems(3) by simp
  qed
qed auto

lemma close_all_frame:
  "close_all i n s = Some s' \<Longrightarrow> umem s' = umem s \<and> keys s' = keys s \<and> console s' = console s \<and> mutex s' = mutex s"
  by (induction n arbitrary: i s) (auto simp: bind_eq_Some_conv split: if_splits)

lemma sys_exit_ok:
  assumes "sys_exit st s = Some r" "fd_ok s"
  shows "fd_ok (after r) \<and> (\<forall>i < FD_MAX. \<not> fd_used (after r) ! i) \<and> (\<exists>s'. r = Exited st s') \<and> mutex (after r) = mutex s"
proof -
  obtain s' where c: "close_all 2 (FD_MAX - 2) s = Some s'" "r = Exited st s'"
    using assms(1) by (auto simp: sys_exit_def bind_eq_Some_conv)
  have le: "2 + (FD_MAX - 2) = FD_MAX" by (simp add: FD_MAX_def)
  note q = close_all_ok [OF c(1) assms(2)]
  have "\<not> fd_used s' ! i" if "i < FD_MAX" for i
  proof (cases "i < 2")
    case True
    then have "i = 0 \<or> i = 1" by auto
    then show ?thesis using q assms(2) le by (auto simp: fd_ok_def)
  next
    case False
    then show ?thesis using q that le by simp
  qed
  then show ?thesis using c(2) q le by simp
qed

lemma free_fd_some:
  "free_fd i n us = Some k \<Longrightarrow> i \<le> k \<and> k < i + n \<and> \<not> us ! k \<and> (\<forall>j. i \<le> j \<and> j < k \<longrightarrow> us ! j)"
proof (induction i n us rule: free_fd.induct)
  case (2 i n us)
  show ?case
  proof (cases "us ! i")
    case True
    then have r: "i + 1 \<le> k \<and> k < i + 1 + n \<and> \<not> us ! k \<and> (\<forall>j. i + 1 \<le> j \<and> j < k \<longrightarrow> us ! j)" using 2 by simp
    have "us ! j" if "i \<le> j" "j < k" for j using r True that by (cases "j = i") auto
    then show ?thesis using r by auto
  qed (use 2 in auto)
qed simp

lemma free_fd_none: "free_fd i n us = None \<Longrightarrow> \<forall>j. i \<le> j \<and> j < i + n \<longrightarrow> us ! j"
proof (induction i n us rule: free_fd.induct)
  case (2 i n us)
  then have r: "us ! i" "\<forall>j. i + 1 \<le> j \<and> j < i + 1 + n \<longrightarrow> us ! j" by (auto split: if_splits)
  have "us ! j" if "i \<le> j" "j < i + Suc n" for j using r that by (cases "j = i") auto
  then show ?case by auto
qed auto

text \<open>A new file in the table.\<close>

lemma fd_ok_new:
  assumes k: "fd_ok s" and f: "brk (ufs s) \<le> f" "f < brk fs" "files fs = (files (ufs s))(f \<mapsto> fl)"
  shows "fd_ok (s\<lparr>ufs := fs\<rparr>)"
proof -
  note d = fd_okD [OF k]
  have "fd_ok (s\<lparr>ufs := fs, fd_used := (fd_used s)[0 := fd_used s ! 0], fd_files := (fd_files s)[0 := fd_files s ! 0]\<rparr>)"
  proof (intro fd_ok_update [OF k])
    show "h < brk fs" if "files fs h \<noteq> None" for h using that f d(6) [of h] by (auto split: if_splits)
    show "brk (ufs s) \<le> brk fs" using f by simp
  qed (use d(3) d(7) [of 0] d(8) f(3) in \<open>auto simp: FD_MAX_def\<close>)
  then show ?thesis by simp
qed

lemma install_ok:
  assumes k: "fd_ok s" and f: "brk (ufs s) \<le> f" "f < brk fs" "files fs = (files (ufs s))(f \<mapsto> fl)"
  shows "fd_ok (snd (install_fd f (s\<lparr>ufs := fs\<rparr>)))"
proof -
  note d = fd_okD [OF k]
  have new: "files (ufs s) f = None" "f \<noteq> 0" using d(5) d(6) [of f] f(1) by (cases "files (ufs s) f"; simp)+
  have lt: "g < brk fs" if "files fs g \<noteq> None" for g
    using that d(6) [of g] f by (auto split: if_splits)
  have keep: "files fs (fd_files s ! j) \<noteq> None" "fd_files s ! j \<noteq> f" if "j < FD_MAX" "fd_used s ! j" for j
    using d(8) [OF that] new(1) by (auto simp: f(3))
  show ?thesis
  proof (cases "free_fd 2 (FD_MAX - 2) (fd_used s)")
    case None
    have "fd_ok (s\<lparr>ufs := fs\<rparr>)" by (rule fd_ok_new [OF k f])
    then show ?thesis using None by (simp add: install_fd_def)
  next
    case (Some i)
    from free_fd_some [OF Some] have i: "2 \<le> i" "i < FD_MAX" "\<not> fd_used s ! i" by (simp_all add: FD_MAX_def)
    have "fd_ok (s\<lparr>ufs := fs, fd_used := (fd_used s)[i := True], fd_files := (fd_files s)[i := f]\<rparr>)"
    proof (intro fd_ok_update [OF k i(2)])
      show "brk (ufs s) \<le> brk fs" using f(1,2) by simp
    qed (use i f(3) lt keep new in auto)
    then show ?thesis using Some by (simp add: install_fd_def fd_ok_def)
  qed
qed

section \<open>Every call keeps the table\<close>

text \<open>Unless the call strays, the table is in order after it, and the mutex is as before unless
  the call waits or ends the process.\<close>

definition call_ok :: "ustate \<Rightarrow> outcome \<Rightarrow> bool" where
  "call_ok s r \<longleftrightarrow> (\<exists>s'. r = Stray s') \<or> fd_ok (after r) \<and> (\<forall>s'. r = Return s' \<longrightarrow> mutex s' = mutex s) \<and>
     (\<forall>st s'. r = Exited st s' \<longrightarrow> (\<forall>i < FD_MAX. \<not> fd_used s' ! i))"

lemma exit_call_ok: "sys_exit st s = Some r \<Longrightarrow> fd_ok s \<Longrightarrow> call_ok t r"
proof -
  assume "sys_exit st s = Some r" "fd_ok s"
  from sys_exit_ok [OF this] show ?thesis by (auto simp: call_ok_def)
qed

lemma fault_call_ok: "page_fault s = Some r \<Longrightarrow> fd_ok s \<Longrightarrow> call_ok t r"
  unfolding page_fault_def by (rule exit_call_ok)

lemma ret_call_ok: "ret_eax v s = Some r \<Longrightarrow> fd_ok s \<Longrightarrow> mutex s = mutex t \<Longrightarrow> call_ok t r"
  by (auto simp: ret_eax_def call_ok_def)

lemma finish_call_ok: "finish v s = Some r \<Longrightarrow> fd_ok s \<Longrightarrow> mutex s + 1 = mutex t \<Longrightarrow> call_ok t r"
  unfolding finish_def by (erule ret_call_ok) simp_all

lemma blocked_call_ok: "Some (Blocked s) = Some r \<Longrightarrow> fd_ok s \<Longrightarrow> call_ok t r"
  by (auto simp: call_ok_def)

lemma stray_call_ok: "Some (Stray s) = Some r \<Longrightarrow> call_ok t r"
  by (auto simp: call_ok_def)

lemma access_call_ok:
  assumes "(case y of Fault fs \<Rightarrow> page_fault (s\<lparr>ufs := fs\<rparr>) | Done ok fs \<Rightarrow> ret_eax (v ok) (s\<lparr>ufs := fs\<rparr>)) = Some r"
    and "fd_ok s" and "fkeep (ufs s) (left y)"
  shows "call_ok s r"
  using assms by (cases y) (auto elim!: fault_call_ok ret_call_ok intro: fd_ok_fkeep)

lemma create_call_ok: "sys_create junk f n s = Some r \<Longrightarrow> fd_ok s \<Longrightarrow> call_ok s r"
  by (auto simp: sys_create_def bind_eq_Some_conv split: if_splits
      intro: exit_call_ok elim!: access_call_ok dest: filesys_create_keeps)

lemma remove_call_ok: "sys_remove f s = Some r \<Longrightarrow> fd_ok s \<Longrightarrow> call_ok s r"
  by (auto simp: sys_remove_def bind_eq_Some_conv elim!: access_call_ok dest: filesys_remove_keeps)

lemma exec_call_ok: "sys_exec f s = Some r \<Longrightarrow> fd_ok s \<Longrightarrow> call_ok s r"
proof -
  assume r: "sys_exec f s = Some r" and k0: "fd_ok s"
  obtain b fs0 where b: "malloc_ok (ufs s) = (b, fs0)" by fastforce
  let ?s = "s\<lparr>ufs := fs0\<rparr>"
  have k: "fd_ok ?s" by (rule fd_ok_fkeep [OF k0 malloc_keeps [OF b]])
  consider "\<not> b \<or> command_name (umem s) f 128 = Unmapped" | "b" "command_name (umem s) f 128 = TooLong"
    | nm where "b" "command_name (umem s) f 128 = Command nm"
    by (cases "command_name (umem s) f 128") auto
  then show ?thesis
  proof cases
    case 1
    then show ?thesis using r b k by (auto simp: sys_exec_def Let_def split: if_splits elim!: fault_call_ok)
  next
    case 2
    then show ?thesis using r b by (auto simp: sys_exec_def call_ok_def)
  next
    case (3 nm)
    then obtain g fs where g: "filesys_open nm fs0 = Some (g, fs)"
      "(if g \<noteq> 0 then Some (ProcessExecute f (s\<lparr>ufs := fs\<rparr>)) else ret_eax (- 1) (s\<lparr>ufs := fs\<rparr>)) = Some r"
      using r b by (auto simp: sys_exec_def bind_eq_Some_conv Let_def split: if_splits)
    have "fd_ok (?s\<lparr>ufs := fs\<rparr>)"
    proof (cases "g = 0")
      case True
      then show ?thesis by (intro fd_ok_fkeep [OF k]) (use filesys_open_new [OF g(1)] in simp)
    next
      case False
      obtain fl where o: "brk (ufs ?s) \<le> g" "g < brk fs" "files fs = (files (ufs ?s))(g \<mapsto> fl)"
        using filesys_open_new [OF g(1)] False by auto
      show ?thesis by (rule fd_ok_new [OF k o])
    qed
    moreover have "r = ProcessExecute f (s\<lparr>ufs := fs\<rparr>)" if "g \<noteq> 0" using g(2) that by simp
    ultimately show ?thesis using g(2) by (cases "g = 0") (auto simp: call_ok_def [of s "ProcessExecute f s'" for f s'] elim!: ret_call_ok)
  qed
qed

lemma filesize_call_ok: "sys_filesize fd s = Some r \<Longrightarrow> fd_ok s \<Longrightarrow> call_ok s r"
  by (auto simp: sys_filesize_def bind_eq_Some_conv split: if_splits intro: stray_call_ok elim!: ret_call_ok)

lemma tell_call_ok: "sys_tell fd s = Some r \<Longrightarrow> fd_ok s \<Longrightarrow> call_ok s r"
  by (auto simp: sys_tell_def bind_eq_Some_conv split: if_splits intro: stray_call_ok elim!: ret_call_ok)

lemma seek_call_ok: "sys_seek fd n s = Some r \<Longrightarrow> fd_ok s \<Longrightarrow> call_ok s r"
  by (auto simp: sys_seek_def bind_eq_Some_conv call_ok_def split: if_splits dest!: file_seek_keeps intro: fd_ok_fs)

lemma close_call_ok: "sys_close fd s = Some r \<Longrightarrow> fd_ok s \<Longrightarrow> call_ok s r"
  using fd_ok_clear
  by (auto simp: sys_close_def file_at_def in_table_def bind_eq_Some_conv call_ok_def split: if_splits)

lemma install_mutex: "mutex (snd (install_fd f s)) = mutex s"
  by (auto simp: install_fd_def split: option.splits)

lemma open_call_ok: "sys_open p s = Some r \<Longrightarrow> fd_ok s \<Longrightarrow> call_ok s r"
proof -
  assume r: "sys_open p s = Some r" and k: "fd_ok s"
  let ?s = "s\<lparr>mutex := mutex s - 1\<rparr>"
  show ?thesis
  proof (cases "p = 0 \<or> mutex s = 0")
    case True
    then show ?thesis using r k by (auto simp: sys_open_def split: if_splits elim!: ret_call_ok intro: blocked_call_ok)
  next
    case False
    then obtain y where y: "user_filesys_open (umem s) p (ufs s) = Some y"
      using r by (auto simp: sys_open_def Let_def bind_eq_Some_conv)
    note n = user_filesys_open_new [OF y]
    have m: "mutex s - 1 + 1 = mutex s" using False by simp
    consider fs where "y = Fault fs" | fs where "y = Done 0 fs" | f fs where "y = Done f fs" "f \<noteq> 0" by (cases y) auto
    then show ?thesis
    proof cases
      case (1 fs)
      have "fd_ok (?s\<lparr>ufs := fs\<rparr>)" using n 1 k by (intro fd_ok_fkeep) simp_all
      then show ?thesis using r False y 1 by (auto simp: sys_open_def Let_def elim!: fault_call_ok)
    next
      case (2 fs)
      have "fd_ok (?s\<lparr>ufs := fs\<rparr>)" using n 2 k by (intro fd_ok_fkeep) simp_all
      then show ?thesis using r False y 2 m by (auto simp: sys_open_def Let_def elim!: finish_call_ok)
    next
      case (3 f fs)
      let ?t = "?s\<lparr>ufs := fs\<rparr>"
      obtain fl where o: "brk (ufs ?s) \<le> f" "f < brk fs" "files fs = (files (ufs ?s))(f \<mapsto> fl)"
        using n 3 by auto
      have i: "fd_ok (snd (install_fd f ?t))" by (rule install_ok [OF _ o]) (use k in simp)
      have im: "mutex (snd (install_fd f ?t)) + 1 = mutex s" using m by (simp add: install_mutex)
      show ?thesis
        using r False y 3 i im
        by (cases "install_fd f ?t")
          (auto simp: sys_open_def Let_def split: option.splits elim!: finish_call_ok fault_call_ok)
    qed
  qed
qed

lemma read_keys_ok:
  "fd_ok s \<Longrightarrow> (case read_keys b n s of KeysRead t \<Rightarrow> fd_ok t \<and> mutex t = mutex s
     | KeyMissing t \<Rightarrow> fd_ok t \<and> mutex t = mutex s | KeyFault t \<Rightarrow> fd_ok t \<and> mutex t = mutex s
     | KeyStray t \<Rightarrow> True)"
proof (induction b n s rule: read_keys.induct)
  case (2 b n s)
  show ?case
  proof (cases "keys s")
    case (Cons c cs)
    show ?thesis
    proof (cases "b < PHYS_BASE \<and> (\<exists>m. wr (umem s) b c = Some m)")
      case False
      then show ?thesis using Cons 2(2) by (auto split: option.split)
    next
      case True
      then obtain m where m: "wr (umem s) b c = Some m" "\<not> PHYS_BASE \<le> b" by auto
      have "fd_ok (s\<lparr>keys := cs, umem := m\<rparr>)" using 2(2) by simp
      from 2(1) [OF Cons m(2,1) this] show ?thesis using Cons m by (simp split: key_loop.splits)
    qed
  qed (use 2 in simp)
qed simp

lemma read_file_call_ok:
  assumes r: "read_file f b n s = Some r" and k: "fd_ok s" and m: "mutex s + 1 = mutex t"
  shows "call_ok t r"
proof (cases "f = 0")
  case True
  then show ?thesis using r k m by (auto simp: read_file_def elim!: finish_call_ok)
next
  case False
  then obtain d fs where g: "file_read f (to_int n) (ufs s) = Some (d, fs)"
    "(let l = min (length d) (PHYS_BASE - b)
      in if \<not> writable (umem s) b l then page_fault s
         else if l < length d then Some (Stray s)
         else finish (int (length d)) (s\<lparr>ufs := fs, umem := put (umem s) b d\<rparr>)) = Some r"
    using r by (auto simp: read_file_def bind_eq_Some_conv)
  have "fd_ok (s\<lparr>ufs := fs\<rparr>)" by (rule fd_ok_fs [OF k]) (use file_read_keeps [OF g(1)] in simp_all)
  then show ?thesis using g(2) k m
    by (auto simp: Let_def split: if_splits intro: stray_call_ok elim!: finish_call_ok fault_call_ok)
qed

lemma write_file_call_ok:
  assumes r: "write_file f b n s = Some r" and k: "fd_ok s" and m: "mutex s + 1 = mutex t"
  shows "call_ok t r"
proof (cases "f = 0")
  case True
  then show ?thesis using r k m by (auto simp: write_file_def elim!: finish_call_ok)
next
  case False
  then obtain fs l where g: "(if current_file s = f then file_deny_write f (ufs s) else Some (ufs s)) = Some fs"
    "(case peek (umem s) b l of None \<Rightarrow> page_fault (s\<lparr>ufs := fs\<rparr>)
      | Some bs \<Rightarrow> do { (w, fs2) \<leftarrow> file_write f bs (to_int n) fs; finish w (s\<lparr>ufs := fs2\<rparr>) }) = Some r"
    using r unfolding write_file_def by (auto simp: bind_eq_Some_conv Let_def cong: option.case_cong)
  have k1: "fd_ok (s\<lparr>ufs := fs\<rparr>)" using g(1) k by (auto split: if_splits dest!: file_deny_write_keeps intro: fd_ok_fs)
  show ?thesis
  proof (cases "peek (umem s) b l")
    case None
    then show ?thesis using g(2) k1 by (auto elim!: fault_call_ok)
  next
    case (Some bs)
    then obtain w fs2 where w: "file_write f bs (to_int n) fs = Some (w, fs2)" "finish w (s\<lparr>ufs := fs2\<rparr>) = Some r"
      using g(2) by (auto simp: bind_eq_Some_conv)
    have "fd_ok ((s\<lparr>ufs := fs\<rparr>)\<lparr>ufs := fs2\<rparr>)"
      by (rule fd_ok_fs [OF k1]) (use file_write_keeps [OF w(1)] in simp_all)
    then show ?thesis using w(2) m by (auto elim!: finish_call_ok)
  qed
qed

lemma read_call_ok: "sys_read fd b n s = Some r \<Longrightarrow> fd_ok s \<Longrightarrow> call_ok s r"
  using read_keys_ok [of "s\<lparr>mutex := mutex s - 1\<rparr>" b n]
  by (auto simp: sys_read_def Let_def bind_eq_Some_conv split: if_splits key_loop.splits
      elim!: exit_call_ok fault_call_ok finish_call_ok read_file_call_ok intro: blocked_call_ok stray_call_ok)

lemma write_call_ok: "sys_write fd b n s = Some r \<Longrightarrow> fd_ok s \<Longrightarrow> call_ok s r"
  by (auto simp: sys_write_def Let_def bind_eq_Some_conv split: if_splits option.splits
      elim!: exit_call_ok fault_call_ok finish_call_ok write_file_call_ok intro: blocked_call_ok)

lemma with_args_ok:
  assumes "with_args n esp k s = Some r" and s: "fd_ok s" and k: "\<And>ws r. k ws = Some r \<Longrightarrow> call_ok s r"
  shows "call_ok s r"
  using assms(1) s k
  by (auto simp: with_args_def split: if_splits option.splits elim!: exit_call_ok fault_call_ok)

lemma wait_call_ok: "Some (ProcessWait t s) = Some r \<Longrightarrow> fd_ok s \<Longrightarrow> call_ok s r"
  by (auto simp: call_ok_def)

lemmas calls_ok = exit_call_ok exec_call_ok wait_call_ok create_call_ok remove_call_ok open_call_ok
  filesize_call_ok read_call_ok write_call_ok seek_call_ok tell_call_ok close_call_ok
  ret_call_ok [OF _ _ refl]

lemma fib_call_ok:
  "(case block of None \<Rightarrow> page_fault s
     | Some cap \<Rightarrow> (case fibonacci cap n of None \<Rightarrow> Some (Stray s) | Some v \<Rightarrow> ret_eax v s)) = Some r \<Longrightarrow> fd_ok s \<Longrightarrow> call_ok s r"
  by (auto split: option.splits intro: stray_call_ok elim!: fault_call_ok ret_call_ok)

lemma handler_call_ok:
  assumes r: "syscall_handler junk block esp s = Some r" and s: "fd_ok s"
  shows "call_ok s r"
proof -
  have po: "call_ok s (PowerOff s)" "call_ok s (Return s)" using s by (simp_all add: call_ok_def)
  show ?thesis
    using r unfolding syscall_handler_def
    by (auto split: if_splits option.splits elim!: exit_call_ok [OF _ s] fault_call_ok [OF _ s] with_args_ok [OF _ s]
        intro: calls_ok [OF _ s] fib_call_ok [OF _ s] po)
qed

section \<open>Which calls stray\<close>

text \<open>The i-th word above the system call number.\<close>

definition arg :: "ustate \<Rightarrow> nat \<Rightarrow> nat \<Rightarrow> nat option" where
  "arg s esp i = ld32 (umem s) (size_add esp (4 * i))"

text \<open>The accesses outside of their object: a descriptor that is not in the table, a command of
  128 bytes or more, a number of Fibonacci beyond the block, bytes read to PHYS_BASE or above.\<close>

definition strays :: "nat option \<Rightarrow> nat \<Rightarrow> nat \<Rightarrow> ustate \<Rightarrow> bool" where
  "strays block nr esp s \<longleftrightarrow>
     nr \<in> {7, 10, 11, 12} \<and> (\<exists>a. arg s esp 1 = Some a \<and> (to_int a < 0 \<or> 130 \<le> to_int a)) \<or>
     nr = 2 \<and> (\<exists>a. arg s esp 1 = Some a \<and> command_name (umem s) a 128 = TooLong) \<or>
     nr = 13 \<and> (\<exists>a cap. arg s esp 1 = Some a \<and> block = Some cap \<and> fibonacci cap (to_int a) = None) \<or>
     nr = 8 \<and> (\<exists>fd b n. arg s esp 1 = Some fd \<and> arg s esp 2 = Some b \<and> arg s esp 3 = Some n \<and>
       (if to_int fd = 0 then PHYS_BASE < b + n
        else \<exists>d fs. file_read (file_at (to_int fd) s) (to_int n) (ufs s) = Some (d, fs) \<and> PHYS_BASE < b + length d))"

lemma exit_stays [simp]: "sys_exit st s \<noteq> Some (Stray t)" "page_fault s \<noteq> Some (Stray t)" "ret_eax v s \<noteq> Some (Stray t)"
    "finish v s \<noteq> Some (Stray t)"
  by (simp_all add: sys_exit_def page_fault_def ret_eax_def finish_def bind_eq_Some_conv)

lemma calls_stay [simp]: "sys_create junk f n s \<noteq> Some (Stray t)" "sys_remove f s \<noteq> Some (Stray t)"
    "sys_open f s \<noteq> Some (Stray t)" "write_file f b n s \<noteq> Some (Stray t)" "sys_write fd b n s \<noteq> Some (Stray t)"
  by (auto simp: sys_create_def sys_remove_def sys_open_def write_file_def sys_write_def bind_eq_Some_conv Let_def
      split: access.splits option.splits prod.splits if_splits)

lemma read_keys_stray: "read_keys b n s = KeyStray t \<Longrightarrow> PHYS_BASE < b + n"
  by (induction b n s rule: read_keys.induct) (auto split: list.splits if_splits option.splits)

lemma sys_read_stray:
  assumes "sys_read fd b n s = Some (Stray t)"
  shows "if fd = 0 then PHYS_BASE < b + n
    else \<exists>d fs. file_read (file_at fd s) (to_int n) (ufs s) = Some (d, fs) \<and> PHYS_BASE < b + length d"
  using assms read_keys_stray
  by (fastforce simp: sys_read_def read_file_def file_at_def Let_def bind_eq_Some_conv split: if_splits key_loop.splits)

lemma with_args_stray:
  assumes "with_args n esp k s = Some (Stray t)"
  obtains ws where "length ws = n" "\<forall>i < n. arg s esp (i + 1) = Some (ws ! i)" "k ws = Some (Stray t)"
proof -
  obtain ws where ws: "those (map (\<lambda>i. ld32 (umem s) (size_add esp (4 * i))) [1 ..< n + 1]) = Some ws" "k ws = Some (Stray t)"
    using assms by (auto simp: with_args_def split: if_splits option.splits)
  have those: "those xs = Some ys \<Longrightarrow> xs = map Some ys" for xs :: "nat option list" and ys
    by (induction xs arbitrary: ys) (auto split: option.splits)
  have m: "map (arg s esp) [1 ..< n + 1] = map Some ws" using those [OF ws(1)] by (simp add: arg_def [abs_def])
  have l: "length ws = n" using arg_cong [OF m, of length] by (simp del: upt_Suc)
  have "arg s esp (i + 1) = Some (ws ! i)" if "i < n" for i
    using arg_cong [OF m, of "\<lambda>l. l ! i"] that l by (simp del: upt_Suc)
  then show ?thesis using that l ws(2) by blast
qed

lemma table_stray:
  "sys_filesize fd s = Some (Stray t) \<Longrightarrow> \<not> in_table fd" "sys_seek fd n s = Some (Stray t) \<Longrightarrow> \<not> in_table fd"
  "sys_tell fd s = Some (Stray t) \<Longrightarrow> \<not> in_table fd" "sys_close fd s = Some (Stray t) \<Longrightarrow> \<not> in_table fd"
  by (auto simp: sys_filesize_def sys_seek_def sys_tell_def sys_close_def bind_eq_Some_conv split: if_splits)

lemma exec_stray: "sys_exec f s = Some (Stray t) \<Longrightarrow> command_name (umem s) f 128 = TooLong"
  by (auto simp: sys_exec_def Let_def bind_eq_Some_conv split: prod.splits if_splits command.splits)

lemma handler_strays:
  assumes "syscall_handler junk block esp s = Some (Stray t)"
  shows "\<exists>nr. ld32 (umem s) esp = Some nr \<and> strays block nr esp s"
proof -
  obtain nr where nr: "ld32 (umem s) esp = Some nr"
    using assms by (auto simp: syscall_handler_def split: if_splits option.splits)
  have "strays block nr esp s"
    using assms nr unfolding syscall_handler_def
    by (simp split: if_split_asm)
      (erule with_args_stray; auto simp: strays_def in_table_def FD_MAX_def numeral_3_eq_3 numeral_2_eq_2 All_less_Suc
        split: option.splits dest!: table_stray exec_stray sys_read_stray)+
  then show ?thesis using nr by blast
qed

section \<open>Properties\<close>

definition demo_proc :: ustate where
  "demo_proc = \<lparr>umem = (\<lambda>a. if 100 \<le> a \<and> a < 200 then Some 0 else None), ufs = demo_fs\<lparr>files := \<lambda>_. None, brk := 1\<rparr>,
     fd_files = replicate 130 0, fd_used = replicate 130 False, current_file = 0, pname = [],
     mutex = 1, eax = 0, keys = [65, 66], console = []\<rparr>"

lemma demo_proc_ok: "fd_ok demo_proc"
  by (simp add: fd_ok_def demo_proc_def FD_MAX_def)

lemma demo_close_all:
  "(\<forall>j. i \<le> j \<and> j < i + n \<longrightarrow> \<not> fd_used s ! j) \<Longrightarrow> close_all i n s = Some s"
  by (induction n arbitrary: i) auto

text \<open>C34: open gives the lowest free descriptor from 2 on and leaves all others as they were;
  when none is free it returns -1, although the file stays open; when the file cannot be opened
  it returns -1.  Closing the new descriptor gives the old table back.\<close>

theorem open_lowest_then_close:
  assumes k: "fd_ok s" and m: "mutex s \<noteq> 0" and p: "p \<noteq> 0" "user_string (umem s) p = Some nm"
    and f: "filesys_open nm (ufs s) = Some (f, fs)"
  shows "\<exists>s'. sys_open p s = Some (Return s') \<and>
    (if f = 0 then eax s' = 2 ^ 32 - 1 \<and> fd_files s' = fd_files s \<and> fd_used s' = fd_used s
     else if \<forall>i. 2 \<le> i \<and> i < FD_MAX \<longrightarrow> fd_used s ! i
     then eax s' = 2 ^ 32 - 1 \<and> fd_files s' = fd_files s \<and> fd_used s' = fd_used s \<and> files (ufs s') f \<noteq> None
     else \<exists>i. 2 \<le> i \<and> i < FD_MAX \<and> \<not> fd_used s ! i \<and> (\<forall>j. 2 \<le> j \<and> j < i \<longrightarrow> fd_used s ! j) \<and> eax s' = i \<and>
       fd_files s' = (fd_files s)[i := f] \<and> fd_used s' = (fd_used s)[i := True] \<and> files (ufs s') f \<noteq> None \<and>
       (\<forall>s''. sys_close (int i) s' = Some (Return s'') \<longrightarrow> fd_files s'' = fd_files s \<and> fd_used s'' = fd_used s))"
proof -
  note d = fd_okD [OF k]
  note u = user_filesys_open_mapped [OF p(2,1) f]
  obtain c where c: "user_strcmp (umem s) p (pname s) = Some c"
    using user_strcmp_Some [of "umem s" p nm "pname s"] user_string_blk [OF p(2)] by auto
  have neg: "to_reg (- 1) = 2 ^ 32 - 1" by (simp add: to_reg_def)
  show ?thesis
  proof (cases "f = 0")
    case True
    then show ?thesis using m u by (simp add: sys_open_def p(1) Let_def finish_def ret_eax_def neg)
  next
    case False
    then have op: "files fs f \<noteq> None" using filesys_open_new [OF f] by auto
    show ?thesis
    proof (cases "free_fd 2 (FD_MAX - 2) (fd_used s)")
      case None
      from free_fd_none [OF None] have "\<forall>i. 2 \<le> i \<and> i < FD_MAX \<longrightarrow> fd_used s ! i" by (simp add: FD_MAX_def)
      then show ?thesis
        using m u c False None op by (simp add: sys_open_def p(1) Let_def finish_def ret_eax_def install_fd_def neg)
    next
      case (Some i)
      from free_fd_some [OF Some] have i: "2 \<le> i" "i < FD_MAX" "\<not> fd_used s ! i" "\<forall>j. 2 \<le> j \<and> j < i \<longrightarrow> fd_used s ! j"
        by (auto simp: FD_MAX_def)
      have nall: "\<not> (\<forall>i. 2 \<le> i \<and> i < FD_MAX \<longrightarrow> fd_used s ! i)" using i by blast
      have reg: "to_reg (int i) = i" using i(2) by (simp add: to_reg_def FD_MAX_def nat_mod_as_int)
      have old: "(fd_files s)[i := 0] = fd_files s" "(fd_used s)[i := False] = fd_used s"
        using d(7) [OF i(2)] i(3) by (auto simp: list_update_same_conv d(1,2) i(2))
      obtain s' where s': "sys_open p s = Some (Return s')" "eax s' = i" "fd_files s' = (fd_files s)[i := f]"
          "fd_used s' = (fd_used s)[i := True]" "ufs s' = fs"
        using m u c False Some reg
        by (auto simp: sys_open_def p(1) Let_def finish_def ret_eax_def install_fd_def)
      have "fd_files s'' = fd_files s \<and> fd_used s'' = fd_used s" if "sys_close (int i) s' = Some (Return s'')" for s''
        using that s' i(2) old by (auto simp: sys_close_def bind_eq_Some_conv split: if_splits)
      then show ?thesis using s' i nall op False by (intro exI [of _ s']) auto
    qed
  qed
qed

text \<open>A disk whose root directory holds one file, ab, and a process that has this name at 100.\<close>

definition demo_sectors :: "nat \<Rightarrow> byte list" where
  "demo_sectors sec = (if sec = 1 then [2, 0, 0, 0, 20, 0, 0, 0] @ replicate 504 0
     else if sec = 2 then [3, 0, 0, 0, 97, 98, 0, 0, 0, 0, 0, 0, 0, 0, 0, 0, 0, 0, 0, 1] @ replicate 492 0
     else if sec = 3 then [4, 0, 0, 0, 10, 0, 0, 0] @ replicate 504 0
     else replicate 512 0)"

definition demo_open_fs :: fs where
  "demo_open_fs = demo_fs\<lparr>fs_device := demo_dev\<lparr>contents := demo_sectors\<rparr>, inodes := Map.empty, open_inodes := [], brk := 1\<rparr>"

definition demo_open_proc :: ustate where
  "demo_open_proc = demo_proc\<lparr>umem := [100 \<mapsto> 97, 101 \<mapsto> 98, 102 \<mapsto> 0], ufs := demo_open_fs\<rparr>"

lemma demo_opens: "\<exists>s. filesys_open [97, 98] demo_open_fs = Some (4, s)"
  by (simp add: filesys_open_def dir_open_root_def dir_open_def inode_open_def new_ptr_def malloc_ok_def dev_read_def
      block_read_def demo_open_fs_def demo_fs_def demo_dev_def ROOT_DIR_SECTOR_def decode_inode_def demo_sectors_def
      rd32_def check_sector_def dir_lookup_def lookup_def lookup_loop.simps inode_read_at_def inode_read_loop.simps
      sizeof_dir_entry_def BLOCK_SECTOR_SIZE_def byte_to_sector_def chunk_size_def inode_length_def wrap32_def Let_def
      decode_entry_def name_matches_def dir_close_def file_open_def inode_close_def)

theorem open_lowest_then_close_witness:
  "\<exists>s'. sys_open 100 demo_open_proc = Some (Return s') \<and> eax s' = 2 \<and> fd_used s' = (replicate 130 False)[2 := True]"
proof -
  have k: "fd_ok demo_open_proc"
    by (simp add: fd_ok_def demo_open_proc_def demo_open_fs_def demo_proc_def demo_fs_def FD_MAX_def)
  have str: "user_string (umem demo_open_proc) 100 = Some [97, 98]"
    by (simp add: user_string_def demo_open_proc_def strlen_loop.simps peek_def upt_rec)
  obtain fs where fs: "filesys_open [97, 98] (ufs demo_open_proc) = Some (4, fs)"
    using demo_opens by (auto simp: demo_open_proc_def)
  have un: "fd_used demo_open_proc = replicate 130 False" "mutex demo_open_proc \<noteq> 0"
    by (simp_all add: demo_open_proc_def demo_proc_def)
  have free: "\<not> fd_used demo_open_proc ! 2" by (simp add: un)
  have nall: "\<not> (\<forall>i. 2 \<le> i \<and> i < FD_MAX \<longrightarrow> fd_used demo_open_proc ! i)"
    using free by (auto simp: FD_MAX_def intro!: exI [of _ 2])
  have "\<exists>s' i. sys_open 100 demo_open_proc = Some (Return s') \<and> 2 \<le> i \<and> i < FD_MAX \<and>
      (\<forall>j. 2 \<le> j \<and> j < i \<longrightarrow> fd_used demo_open_proc ! j) \<and> eax s' = i \<and> fd_used s' = (fd_used demo_open_proc)[i := True]"
    using open_lowest_then_close [OF k un(2) _ str fs] by (simp add: nall) blast
  then obtain s' i where s': "sys_open 100 demo_open_proc = Some (Return s')" "2 \<le> i" "i < FD_MAX"
      "\<forall>j. 2 \<le> j \<and> j < i \<longrightarrow> fd_used demo_open_proc ! j" "eax s' = i" "fd_used s' = (replicate 130 False)[i := True]"
    unfolding un(1) by blast
  have "i = 2"
  proof (rule ccontr)
    assume "i \<noteq> 2"
    then have "fd_used demo_open_proc ! 2" using s'(2,4) by simp
    then show False using free by simp
  qed
  then show ?thesis using s' by blast
qed

text \<open>C33: whatever system call a process makes, with any arguments and any memory: if the call
  neither strays nor panics the kernel, the descriptor table is well-formed afterwards, that is, the used descriptors
  are exactly those with a file, 0 and 1 are never among them, each holds an open file of its
  own; a call that returns leaves the mutex as it was, and a process that exits has no
  descriptor in use.  The calls that stray are those of filesize, seek, tell and close with a
  descriptor that is not in 0 to 129, which the kernel does not test, exec of a first word of
  128 bytes or more, fibonacci of a number whose block is too small, and a read that stores to
  PHYS_BASE or above; the theorem says nothing about the table after these.\<close>

theorem syscall_keeps_table:
  assumes "fd_ok s" and "syscall_handler junk block esp s = Some r"
  shows "if \<exists>s'. r = Stray s' then \<exists>nr. ld32 (umem s) esp = Some nr \<and> strays block nr esp s
    else fd_ok (after r) \<and> (\<forall>s'. r = Return s' \<longrightarrow> mutex s' = mutex s) \<and>
      (\<forall>st s'. r = Exited st s' \<longrightarrow> (\<forall>i < FD_MAX. \<not> fd_used s' ! i \<and> fd_files s' ! i = 0))"
proof (cases "\<exists>s'. r = Stray s'")
  case True
  then show ?thesis using handler_strays assms(2) by auto
next
  case False
  then have c: "fd_ok (after r) \<and> (\<forall>s'. r = Return s' \<longrightarrow> mutex s' = mutex s) \<and>
      (\<forall>st s'. r = Exited st s' \<longrightarrow> (\<forall>i < FD_MAX. \<not> fd_used s' ! i))"
    using handler_call_ok [OF assms(2,1)] by (auto simp: call_ok_def)
  then have "fd_files s' ! i = 0" if "r = Exited st s'" "i < FD_MAX" for st s' i
    using fd_okD(7) [of s' i] that by auto
  then show ?thesis using c False by auto
qed

text \<open>The process above calls open of ab: its stack is at 200.\<close>

definition demo_call :: ustate where
  "demo_call = demo_open_proc\<lparr>umem := \<lambda>a. if a = 100 then Some 97 else if a = 101 then Some 98
     else if a = 200 then Some 6 else if a = 204 then Some 100 else if 100 \<le> a \<and> a < 220 then Some 0 else None\<rparr>"

lemma demo_call_ok: "fd_ok demo_call"
  by (simp add: fd_ok_def demo_call_def demo_open_proc_def demo_open_fs_def demo_proc_def demo_fs_def FD_MAX_def)

theorem syscall_keeps_table_witness:
  "\<exists>s'. syscall_handler [] None 200 demo_call = Some (Return s') \<and> fd_used s' = (replicate 130 False)[2 := True] \<and>
     fd_ok s' \<and> mutex s' = 1"
proof -
  obtain fs where fs: "filesys_open [97, 98] (ufs demo_call) = Some (4, fs)"
    using demo_opens by (auto simp: demo_call_def demo_open_proc_def)
  have str: "user_string (umem demo_call) 100 = Some [97, 98]"
    by (simp add: user_string_def demo_call_def strlen_loop.simps peek_def upt_rec)
  have u: "user_filesys_open (umem demo_call) 100 (ufs demo_call) = Some (Done 4 fs)"
    by (rule user_filesys_open_mapped [OF str _ fs]) simp
  have c: "user_strcmp (umem demo_call) 100 (pname demo_call) = Some 1" "mutex demo_call = 1"
      "fd_used demo_call = replicate 130 False"
    by (simp_all add: demo_call_def demo_open_proc_def demo_proc_def)
  have f: "free_fd 2 (FD_MAX - 2) (replicate 130 False) = Some 2"
    using free_fd.simps(2) [of 2 127] by (simp add: FD_MAX_def)
  obtain s' where o: "sys_open 100 demo_call = Some (Return s')" "fd_used s' = (replicate 130 False)[2 := True]" "mutex s' = 1"
    using u c f by (simp add: sys_open_def Let_def install_fd_def finish_def ret_eax_def)
  have w: "ld32 (umem demo_call) 200 = Some 6" "ld32 (umem demo_call) 204 = Some 100"
    by (simp_all add: ld32_def demo_call_def rd32_def)
  have h: "syscall_handler [] None 200 demo_call = Some (Return s')"
    using w o(1) by (simp add: syscall_handler_def with_args_def check_address_def PHYS_BASE_def size_add_def)
  show ?thesis using h o syscall_keeps_table [OF demo_call_ok h] by simp
qed

text \<open>C35: open reads the name of the file only to compare it with the names in the root
  directory.  If there is one and the first byte of the name is not mapped, the process ends while it holds the
  mutex of the file system: afterwards the value is 0, and every later open, read or write of a
  process with a good address waits for it, for ever as far as this process goes.  If the
  directory is empty, the same call returns -1 and gives the mutex back.\<close>

theorem open_fault_holds_mutex:
  assumes "fd_ok s" and "mutex s = 1" and p: "p \<noteq> 0" "umem s p = None"
    and d: "dir_open_root (ufs s) = Some (d, fs)" "d \<noteq> 0" "dir_ok fs d i" "\<not> removed i"
  shows "if \<exists>e \<in> set (dir_entries fs i). in_use e \<noteq> 0
    then (\<exists>fs'. sys_open p s = sys_exit (- 1) (s\<lparr>mutex := 0, ufs := fs'\<rparr>)) \<and>
      (\<forall>r. sys_open p s = Some r \<longrightarrow> (\<exists>s'. r = Exited (- 1) s' \<and> mutex s' = 0 \<and>
        (\<forall>u q fd b n. mutex u = mutex s' \<longrightarrow> (q \<noteq> 0 \<longrightarrow> sys_open q u = Some (Blocked u)) \<and>
          (check_address b \<longrightarrow> sys_read fd b n u = Some (Blocked u) \<and> sys_write fd b n u = Some (Blocked u)))))
    else \<exists>s'. sys_open p s = Some (Return s') \<and> eax s' = 2 ^ 32 - 1 \<and> mutex s' = 1 \<and>
      fd_files s' = fd_files s \<and> fd_used s' = fd_used s"
proof (cases "\<exists>e \<in> set (dir_entries fs i). in_use e \<noteq> 0")
  case True
  then obtain fs' where f: "user_filesys_open (umem s) p (ufs s) = Some (Fault fs')"
    using user_filesys_open_unmapped [OF d(1-3), of p "umem s"] p by auto
  let ?t = "s\<lparr>mutex := 0, ufs := fs'\<rparr>"
  have o: "sys_open p s = sys_exit (- 1) ?t"
    using f assms(2) p(1) by (simp add: sys_open_def page_fault_def)
  have "fd_ok ((s\<lparr>mutex := 0\<rparr>)\<lparr>ufs := fs'\<rparr>)"
    using user_filesys_open_new [OF f] assms(1) by (intro fd_ok_fkeep) simp_all
  then have "\<exists>s'. r = Exited (- 1) s' \<and> mutex s' = 0" if "sys_open p s = Some r" for r
    using sys_exit_ok [of "- 1" ?t r] that o by (auto simp: sys_exit_def bind_eq_Some_conv)
  then show ?thesis using True o by (fastforce simp: sys_open_def sys_read_def sys_write_def)
next
  case False
  then obtain fs' where "user_filesys_open (umem s) p (ufs s) = Some (Done 0 fs')"
    using user_filesys_open_unmapped [OF d(1-3), of p "umem s"] p d(4) by auto
  then show ?thesis
    using False assms(2) p(1) by (simp add: sys_open_def Let_def finish_def ret_eax_def to_reg_def)
qed

lemma demo_root_open:
  "\<exists>fs i. dir_open_root demo_open_fs = Some (2, fs) \<and> dirs fs 2 = Some \<lparr>dir_inode = 1, dir_pos = 0\<rparr> \<and> inodes fs 1 = Some i \<and>
     contents (fs_device fs) = demo_sectors \<and> dev_ok (fs_device fs) \<and> block_size (fs_device fs) = block_size demo_dev \<and>
     allocs fs = [] \<and> deny_write_cnt i = 0 \<and> \<not> removed i \<and> start (idata i) = 2 \<and> dlength (idata i) = 20"
  by (simp add: dir_open_root_def dir_open_def inode_open_def new_ptr_def malloc_ok_def dev_read_def
      block_read_def demo_open_fs_def demo_fs_def demo_dev_def ROOT_DIR_SECTOR_def decode_inode_def demo_sectors_def
      rd32_def check_sector_def Let_def wrap32_def dev_ok_def)

lemma demo_root_dir:
  "\<exists>fs i e. dir_open_root demo_open_fs = Some (2, fs) \<and> dir_ok fs 2 i \<and> \<not> removed i \<and> dir_entries fs i = [e] \<and> in_use e = 1"
proof -
  obtain fs i where o: "dir_open_root demo_open_fs = Some (2, fs)" "dirs fs 2 = Some \<lparr>dir_inode = 1, dir_pos = 0\<rparr>"
    "inodes fs 1 = Some i" "contents (fs_device fs) = demo_sectors" "dev_ok (fs_device fs)"
    "block_size (fs_device fs) = block_size demo_dev" "allocs fs = []" "deny_write_cnt i = 0" "\<not> removed i"
    "start (idata i) = 2" "dlength (idata i) = 20"
    using demo_root_open by blast
  let ?e = "decode_entry (take 20 (demo_sectors 2))"
  have "file_bytes (fs_device fs) (idata i) = take 20 (demo_sectors 2)"
  proof (rule nth_equalityI)
    have l: "length (demo_sectors 2) = 512" by (simp add: demo_sectors_def)
    then show "length (file_bytes (fs_device fs) (idata i)) = length (take 20 (demo_sectors 2))" by (simp add: o)
    show "file_bytes (fs_device fs) (idata i) ! k = take 20 (demo_sectors 2) ! k"
      if "k < length (file_bytes (fs_device fs) (idata i))" for k
      using that by (simp add: o file_bytes_nth fbyte_def)
  qed
  then have e: "dir_entries fs i = [?e]" by (simp add: entries_def o upt_rec)
  have u: "in_use ?e = 1" "0 \<in> set (name ?e)" by (simp_all add: decode_entry_def demo_sectors_def)
  have "dir_ok fs 2 i"
    using u unfolding dir_ok_def e by (simp add: o o(3) [simplified] data_ok_def bytes_to_sectors_nat demo_dev_def terminated_def)
  then show ?thesis using o(1,9) e u by blast
qed

theorem open_fault_holds_mutex_witness:
  "\<exists>s'. sys_open 42 demo_open_proc = Some (Exited (- 1) s') \<and> sys_open 100 s' = Some (Blocked s')"
proof -
  obtain fs i e where r: "dir_open_root (ufs demo_open_proc) = Some (2, fs)" "dir_ok fs 2 i" "\<not> removed i"
    "dir_entries fs i = [e]" "in_use e = 1"
    using demo_root_dir by (auto simp: demo_open_proc_def)
  have p: "umem demo_open_proc 42 = None" "mutex demo_open_proc = 1" "fd_used demo_open_proc = replicate 130 False"
    by (simp_all add: demo_open_proc_def demo_proc_def)
  have k: "fd_ok demo_open_proc"
    by (simp add: fd_ok_def demo_open_proc_def demo_open_fs_def demo_proc_def demo_fs_def FD_MAX_def)
  have t: "(\<exists>fs'. sys_open 42 demo_open_proc = sys_exit (- 1) (demo_open_proc\<lparr>mutex := 0, ufs := fs'\<rparr>)) \<and>
      (\<forall>r. sys_open 42 demo_open_proc = Some r \<longrightarrow> (\<exists>s'. r = Exited (- 1) s' \<and> mutex s' = 0 \<and>
        (\<forall>u q fd b n. mutex u = mutex s' \<longrightarrow> (q \<noteq> 0 \<longrightarrow> sys_open q u = Some (Blocked u)) \<and>
          (check_address b \<longrightarrow> sys_read fd b n u = Some (Blocked u) \<and> sys_write fd b n u = Some (Blocked u)))))"
    using open_fault_holds_mutex [OF k p(2) _ p(1) r(1) _ r(2,3)] r(4,5) by simp
  then obtain fs' where o: "sys_open 42 demo_open_proc = sys_exit (- 1) (demo_open_proc\<lparr>mutex := 0, ufs := fs'\<rparr>)" by blast
  have "close_all 2 (FD_MAX - 2) (demo_open_proc\<lparr>mutex := 0, ufs := fs'\<rparr>) = Some (demo_open_proc\<lparr>mutex := 0, ufs := fs'\<rparr>)"
    by (rule demo_close_all) (simp add: p FD_MAX_def)
  then have "sys_open 42 demo_open_proc = Some (Exited (- 1) (demo_open_proc\<lparr>mutex := 0, ufs := fs'\<rparr>))"
    using o by (simp add: sys_exit_def)
  then show ?thesis using t by fastforce
qed

text \<open>How many words each call takes.\<close>

definition arg_count :: "nat \<Rightarrow> nat" where
  "arg_count nr =
     (if nr \<in> {1, 2, 3, 5, 6, 7, 11, 12, 13} then 1 else if nr \<in> {4, 10} then 2
      else if nr \<in> {8, 9} then 3 else if nr = 14 then 4 else 0)"

text \<open>A stack pointer, an argument or a buffer that the process may not use.\<close>

definition bad_call :: "nat \<Rightarrow> ustate \<Rightarrow> bool" where
  "bad_call esp s \<longleftrightarrow> PHYS_BASE \<le> esp \<or> ld32 (umem s) esp = None \<or>
     (\<exists>nr i. ld32 (umem s) esp = Some nr \<and> 1 \<le> i \<and> i \<le> arg_count nr \<and>
        (PHYS_BASE \<le> size_add esp (4 * i) \<or> arg s esp i = None)) \<or>
     (\<exists>nr b. ld32 (umem s) esp = Some nr \<and> nr \<in> {8, 9} \<and> arg s esp 2 = Some b \<and> PHYS_BASE \<le> b)"

lemma with_args_bad:
  assumes "1 \<le> i" "i \<le> n" "PHYS_BASE \<le> size_add esp (4 * i) \<or> arg s esp i = None"
  shows "with_args n esp k s = sys_exit (- 1) s"
proof (cases "\<exists>i \<in> {1 .. n}. \<not> check_address (size_add esp (4 * i))")
  case True
  then show ?thesis by (simp add: with_args_def)
next
  case False
  then have "check_address (size_add esp (4 * i))" using assms(1,2) by fastforce
  then have "arg s esp i = None" using assms(3) by (simp add: check_address_def)
  moreover have "i \<in> set [1 ..< n + 1]" using assms by auto
  moreover have "x \<in> set xs \<Longrightarrow> f x = None \<Longrightarrow> those (map f xs) = None" for f :: "nat \<Rightarrow> nat option" and x xs
    by (induction xs) (auto split: option.splits)
  ultimately have "those (map (arg s esp) [1 ..< n + 1]) = None" by blast
  then show ?thesis using False by (simp add: with_args_def arg_def [abs_def] page_fault_def del: upt_Suc)
qed

lemma with_args_buffer:
  assumes "\<And>a. a ! 1 = b \<Longrightarrow> k a = sys_exit (- 1) s" and "arg s esp 2 = Some b"
  shows "with_args 3 esp k s = sys_exit (- 1) s"
proof (cases "those (map (arg s esp) [1 ..< 3 + 1])")
  case None
  then show ?thesis by (simp add: with_args_def arg_def [abs_def] page_fault_def del: upt_Suc)
next
  case (Some ws)
  have "ws ! 1 = b" using Some assms(2) by (auto simp: upt_rec numeral_eq_Suc split: option.splits)
  then show ?thesis using Some assms(1) by (simp add: with_args_def arg_def [abs_def] del: upt_Suc)
qed

text \<open>C36: when the stack pointer, any of the words of the call, from the first to the last, or
  the buffer of read or write is at or above PHYS_BASE, or a word is not mapped, the process
  exits with -1 before anything of the call is done: its memory, the mutex, the keys and the
  console are as before, and its descriptors are closed.\<close>

theorem bad_address_exits:
  assumes "bad_call esp s" and "fd_ok s"
  shows "syscall_handler junk block esp s = sys_exit (- 1) s \<and>
    (\<forall>r. syscall_handler junk block esp s = Some r \<longrightarrow> (\<exists>s'. r = Exited (- 1) s' \<and> umem s' = umem s \<and>
       mutex s' = mutex s \<and> keys s' = keys s \<and> console s' = console s \<and> (\<forall>i < FD_MAX. \<not> fd_used s' ! i)))"
proof -
  have h: "syscall_handler junk block esp s = sys_exit (- 1) s"
  proof (cases "PHYS_BASE \<le> esp \<or> ld32 (umem s) esp = None")
    case True
    then show ?thesis by (auto simp: syscall_handler_def check_address_def page_fault_def)
  next
    case False
    then obtain nr where nr: "check_address esp" "ld32 (umem s) esp = Some nr" by (auto simp: check_address_def)
    consider i where "1 \<le> i" "i \<le> arg_count nr" "PHYS_BASE \<le> size_add esp (4 * i) \<or> arg s esp i = None"
      | b where "nr \<in> {8, 9}" "arg s esp 2 = Some b" "PHYS_BASE \<le> b"
      using assms(1) False nr(2) unfolding bad_call_def by auto
    then show ?thesis
    proof cases
      case (1 i)
      note w = with_args_bad [OF 1(1) _ 1(3)]
      from 1(1,2) have "0 < arg_count nr" by simp
      then have "nr \<in> {1, 2, 3, 4, 5, 6, 7, 8, 9, 10, 11, 12, 13, 14}" by (auto simp: arg_count_def split: if_splits)
      then show ?thesis using 1(2) nr by (elim insertE emptyE) (simp_all add: syscall_handler_def arg_count_def w)
    next
      case (2 b)
      have "sys_read fd b n s = sys_exit (- 1) s" "sys_write fd b n s = sys_exit (- 1) s" for fd n
        using 2(3) by (simp_all add: sys_read_def sys_write_def check_address_def)
      then have "with_args 3 esp (\<lambda>a. sys_read (to_int (a ! 0)) (a ! 1) (a ! 2) s) s = sys_exit (- 1) s"
          "with_args 3 esp (\<lambda>a. sys_write (to_int (a ! 0)) (a ! 1) (a ! 2) s) s = sys_exit (- 1) s"
        by (simp_all only: with_args_buffer [OF _ 2(2)])
      then show ?thesis using 2(1) nr by (elim insertE emptyE) (simp_all add: syscall_handler_def)
    qed
  qed
  have "\<exists>s'. r = Exited (- 1) s' \<and> umem s' = umem s \<and> mutex s' = mutex s \<and> keys s' = keys s \<and> console s' = console s \<and>
      (\<forall>i < FD_MAX. \<not> fd_used s' ! i)" if "sys_exit (- 1) s = Some r" for r
    using sys_exit_ok [OF that assms(2)] that by (auto simp: sys_exit_def bind_eq_Some_conv dest: close_all_frame)
  then show ?thesis using h by simp
qed

text \<open>A process that calls read with its stack pointer 12 bytes below PHYS_BASE: the third
  argument is at PHYS_BASE.\<close>

definition demo_top :: ustate where
  "demo_top = demo_proc\<lparr>umem := \<lambda>a. if a = PHYS_BASE - 12 then Some 8 else Some 0\<rparr>"

theorem bad_address_exits_witness:
  "syscall_handler [] None (PHYS_BASE - 12) demo_top = Some (Exited (- 1) demo_top) \<and> check_address (PHYS_BASE - 12 + 8)"
proof -
  have "close_all 2 128 demo_top = Some demo_top"
    by (rule demo_close_all) (simp add: demo_top_def demo_proc_def)
  then have e: "sys_exit (- 1) demo_top = Some (Exited (- 1) demo_top)" by (simp add: sys_exit_def FD_MAX_def)
  have k: "fd_ok demo_top" using demo_proc_ok by (simp add: demo_top_def)
  have n: "ld32 (umem demo_top) (PHYS_BASE - 12) = Some 8"
    by (simp add: ld32_def demo_top_def PHYS_BASE_def rd32_def)
  have "PHYS_BASE \<le> size_add (PHYS_BASE - 12) (4 * 3)" "3 \<le> arg_count 8"
    by (simp_all add: PHYS_BASE_def size_add_def arg_count_def)
  then have "bad_call (PHYS_BASE - 12) demo_top"
    unfolding bad_call_def using n by (metis one_le_numeral)
  from bad_address_exits [OF this k] e show ?thesis by (simp add: check_address_def PHYS_BASE_def)
qed

text \<open>The numbers of Fibonacci.\<close>

fun fib_number :: "nat \<Rightarrow> int" where
  "fib_number 0 = 0"
| "fib_number (Suc 0) = 1"
| "fib_number (Suc (Suc n)) = fib_number (Suc n) + fib_number n"

lemma wrap32_add: "wrap32 (wrap32 a + wrap32 b) = wrap32 (a + b)"
  unfolding wrap32_def by (rule signed_take_bit_add)

lemma fib_loop_ok:
  "2 \<le> i \<Longrightarrow> i + n \<le> cap \<Longrightarrow> fib_loop cap i n (map (\<lambda>k. wrap32 (fib_number k)) [0 ..< i]) =
     Some (map (\<lambda>k. wrap32 (fib_number k)) [0 ..< i + n])"
proof (induction n arbitrary: i)
  case (Suc n)
  let ?f = "\<lambda>k. wrap32 (fib_number k)"
  obtain j where j: "i = Suc (Suc j)" using Suc.prems(1) by (metis add_2_eq_Suc le_Suc_ex)
  have "wrap32 (map ?f [0 ..< i] ! (i - 1) + map ?f [0 ..< i] ! (i - 2)) = wrap32 (?f (Suc j) + ?f j)"
    using j by (simp del: upt_Suc)
  also have "\<dots> = ?f i" unfolding j fib_number.simps by (rule wrap32_add)
  finally have "fib_loop cap i (Suc n) (map ?f [0 ..< i]) = fib_loop cap (i + 1) n (map ?f [0 ..< i + 1])"
    using Suc.prems(2) by simp
  also have "\<dots> = Some (map ?f [0 ..< i + 1 + n])" by (rule Suc.IH) (use Suc.prems in simp_all)
  finally show ?case by simp
qed simp

lemma fib_loop_short: "2 \<le> i \<Longrightarrow> cap < i + n \<Longrightarrow> i \<le> cap \<Longrightarrow> fib_loop cap i n xs = None"
  by (induction n arbitrary: i xs) auto

text \<open>Fibonacci returns the n-th number of Fibonacci modulo 2 ^ 32, as an int, when its
  block has room for n + 1 ints; in a smaller block, which a wrapped size gives, it writes
  past the end.  max_of_four_int returns the greatest of its arguments.\<close>

theorem fibonacci_correct:
  "(\<forall>n cap. 2 \<le> cap \<longrightarrow> int n < int cap \<longrightarrow> fibonacci cap (int n) = Some (wrap32 (fib_number n))) \<and>
   (\<forall>n cap. 2 \<le> cap \<longrightarrow> cap \<le> n \<longrightarrow> fibonacci cap (int n) = None) \<and>
   (\<forall>a b c d. max_of_four_int a b c d = Max {a, b, c, d})"
proof (intro conjI allI impI)
  fix n cap :: nat
  assume c: "2 \<le> cap"
  let ?f = "\<lambda>k. wrap32 (fib_number k)"
  have start: "[0, 1] = map ?f [0 ..< 2]" by (simp add: wrap32_def upt_rec numeral_2_eq_2)
  show "fibonacci cap (int n) = Some (?f n)" if n: "int n < int cap"
  proof -
    have "fib_loop cap 2 (n - 1) [0, 1] = Some (map ?f [0 ..< 2 + (n - 1)])"
      unfolding start by (rule fib_loop_ok) (use n c in simp_all)
    then show ?thesis using c by (simp add: fibonacci_def del: upt_Suc)
  qed
  show "fibonacci cap (int n) = None" if "cap \<le> n"
    using fib_loop_short [of 2 cap "n - 1" "[0, 1]"] that c by (simp add: fibonacci_def)
next
  fix a b c d :: int
  show "max_of_four_int a b c d = Max {a, b, c, d}"
    by (simp add: max_of_four_int_def Let_def max_def)
qed

theorem fibonacci_correct_witness: "fibonacci 11 10 = Some 55 \<and> max_of_four_int 3 (- 7) 5 4 = 5"
proof -
  have n: "int 10 < int 11" "2 \<le> (11 :: nat)" by simp_all
  have "fibonacci 11 (int 10) = Some (wrap32 (fib_number 10))" using fibonacci_correct n by blast
  moreover have "wrap32 (fib_number 10) = 55" by code_simp
  moreover have "max_of_four_int 3 (- 7) 5 4 = Max {3, - 7, 5, 4}" using fibonacci_correct by blast
  ultimately show ?thesis by simp
qed

end
