(* ===== verification/SleepLive.thy ===== *)
theory SleepLive
  imports KernelProps
begin

text \<open>
  A sleeping thread does not oversleep: while a thread stays on the sleep list, whatever steps the
  kernel takes, its wake-up time stays as it is and the clock does not reach it.  So the tick
  that reaches the wake-up time takes the thread off the list.  The relation \<open>nap\<close> says that a
  part of a step changes nothing about the sleepers; every operation but thread_sleep and the
  tick is shown to be such.
\<close>

section \<open>What leaves the sleepers alone\<close>

definition nap_ok :: "kstate \<Rightarrow> bool" where
  "nap_ok k \<longleftrightarrow> (\<forall>t \<in> set (sleep_list k). st k t \<noteq> None \<and> st k t \<noteq> Some THREAD_DYING)"

definition nap :: "kstate \<Rightarrow> kstate \<Rightarrow> bool" where
  "nap k k' \<longleftrightarrow> (nap_ok k \<longrightarrow> nap_ok k' \<and> sleep_list k' = sleep_list k \<and> ticks k' = ticks k \<and>
     (\<forall>t \<in> set (sleep_list k). alarm k' t = alarm k t))"

lemma nap_refl [simp]: "nap k k"
  by (simp add: nap_def)

lemma nap_trans: "nap k1 k2 \<Longrightarrow> nap k2 k3 \<Longrightarrow> nap k1 k3"
  by (simp add: nap_def)

lemma nap_cong:
  assumes "st k2 = st k1" "alarm k2 = alarm k1" "sleep_list k2 = sleep_list k1" "ticks k2 = ticks k1"
  shows "nap k k2 = nap k k1" "nap k2 k = nap k1 k"
  using assms by (simp_all add: nap_def nap_ok_def)

lemma ticks_simps [simp]:
  "ticks (push f k) = ticks k" "ticks (ret r k) = ticks k" "ticks (set_status s t k) = ticks k"
  "ticks (intr_disable k) = ticks k" "ticks (set_sema sm w k) = ticks k" "ticks (set_cond c ts k) = ticks k"
  "ticks (sema_init sm n k) = ticks k"
  by (simp_all add: push_def ret_def set_status_def intr_disable_def set_sema_def set_cond_def sema_init_def)

lemma nap_other [simp]:
  "nap k (push f k1) = nap k k1" "nap k (ret v k1) = nap k k1" "nap k (intr_disable k1) = nap k k1"
  by (rule nap_cong; simp add: view)+

lemma nap_fields [simp]:
  "nap k (k1\<lparr>running := a\<rparr>) = nap k k1" "nap k (k1\<lparr>ready_list := b\<rparr>) = nap k k1"
  "nap k (k1\<lparr>all_list := c\<rparr>) = nap k k1" "nap k (k1\<lparr>idle_thread := d\<rparr>) = nap k k1"
  "nap k (k1\<lparr>thread_ticks := e\<rparr>) = nap k k1" "nap k (k1\<lparr>semas := f\<rparr>) = nap k k1"
  "nap k (k1\<lparr>lock_holder := g\<rparr>) = nap k k1" "nap k (k1\<lparr>cond_waiters := h\<rparr>) = nap k k1"
  "nap k (k1\<lparr>next_tid := i\<rparr>) = nap k k1" "nap k (k1\<lparr>load_avg := j\<rparr>) = nap k k1"
  "nap k (k1\<lparr>yield_on_return := l\<rparr>) = nap k k1" "nap k (k1\<lparr>intr_level_of := m\<rparr>) = nap k k1"
  "nap k (k1\<lparr>in_external_intr := n\<rparr>) = nap k k1" "nap k (k1\<lparr>idle_ticks := p\<rparr>) = nap k k1"
  "nap k (k1\<lparr>kernel_ticks := q\<rparr>) = nap k k1" "nap k (k1\<lparr>user_ticks := r\<rparr>) = nap k k1"
  by (simp_all add: nap_def nap_ok_def st_def alarm_def)

lemma nap_semas [simp]:
  "nap k (set_sema s v k1) = nap k k1" "nap k (sema_init s n k1) = nap k k1" "nap k (set_cond c ts k1) = nap k k1"
  by (simp_all add: set_sema_def sema_init_def set_cond_def)

lemma nap_upd [simp]:
  "(\<And>th. status (f th) = status th) \<Longrightarrow> (\<And>th. alarm_ticks (f th) = alarm_ticks th) \<Longrightarrow>
   nap k (upd_thread t f k1) = nap k k1"
  by (rule nap_cong) (simp_all add: view)

lemma nap_set_status: "s \<noteq> THREAD_DYING \<Longrightarrow> nap k k1 \<Longrightarrow> nap k (set_status s t k1)"
  by (auto simp: nap_def nap_ok_def view)

named_theorems napping "parts of steps that leave the sleepers alone"

lemma nap_tail [napping]: "thread_schedule_tail prev k1 = Some k' \<Longrightarrow> nap k k1 \<Longrightarrow> nap k k'"
proof -
  assume r: "thread_schedule_tail prev k1 = Some k'" and n: "nap k k1"
  let ?k = "(set_status THREAD_RUNNING (running k1) k1)\<lparr>thread_ticks := 0\<rparr>"
  have n2: "nap k ?k" using n by (simp add: nap_set_status)
  have free: "nap k (?k\<lparr>threads := (threads ?k)(prev := None)\<rparr>)" (is "nap k ?f") if d: "st ?k prev = Some THREAD_DYING"
    unfolding nap_def
  proof
    assume "nap_ok k"
    then have q: "nap_ok ?k" "sleep_list ?k = sleep_list k" "ticks ?k = ticks k" "\<forall>t \<in> set (sleep_list k). alarm ?k t = alarm k t"
      using n2 unfolding nap_def by blast+
    have np: "t \<noteq> prev" if "t \<in> set (sleep_list ?k)" for t using q(1) d that unfolding nap_ok_def by metis
    have same: "st ?f t = st ?k t" "alarm ?f t = alarm ?k t" if "t \<noteq> prev" for t
      using that by (simp_all add: st_def alarm_def)
    have lists: "sleep_list ?f = sleep_list ?k" "ticks ?f = ticks ?k" by simp_all
    show "nap_ok ?f \<and> sleep_list ?f = sleep_list k \<and> ticks ?f = ticks k \<and> (\<forall>t \<in> set (sleep_list k). alarm ?f t = alarm k t)"
      using q np same unfolding nap_ok_def lists by metis
  qed
  show ?thesis
    using r n2 free
    by (auto simp: thread_schedule_tail_def Let_def st_def bind_eq_Some_conv split: if_splits option.splits)
qed

lemma nap_schedule [napping]: "schedule k1 = Some k' \<Longrightarrow> nap k k1 \<Longrightarrow> nap k k'"
  by (auto simp: schedule_def next_thread_to_run_def bind_eq_Some_conv Let_def split: list.splits if_splits
      elim!: nap_tail)

lemma nap_block [napping]: "thread_block k1 = Some k' \<Longrightarrow> nap k k1 \<Longrightarrow> nap k k'"
  by (auto simp: thread_block_def bind_eq_Some_conv elim!: nap_schedule intro: nap_set_status split: if_splits)

lemma nap_unblock [napping]: "thread_unblock t k1 = Some k' \<Longrightarrow> nap k k1 \<Longrightarrow> nap k k'"
  by (auto simp: thread_unblock_def bind_eq_Some_conv Let_def intro: nap_set_status split: if_splits)

lemma nap_yield [napping]: "thread_yield k1 = Some k' \<Longrightarrow> nap k k1 \<Longrightarrow> nap k k'"
  by (auto simp: thread_yield_def bind_eq_Some_conv Let_def elim!: nap_schedule intro!: nap_set_status split: if_splits)

lemma nap_sema_down_loop [napping]: "sema_down_loop s k1 = Some k' \<Longrightarrow> nap k k1 \<Longrightarrow> nap k k'"
  by (auto simp: sema_down_loop_def bind_eq_Some_conv Let_def elim!: nap_block split: if_splits)

lemma nap_sema_down [napping]: "sema_down s k1 = Some k' \<Longrightarrow> nap k k1 \<Longrightarrow> nap k k'"
  by (auto simp: sema_down_def bind_eq_Some_conv Let_def elim!: nap_sema_down_loop split: if_splits)

lemma nap_sema_up [napping]: "sema_up s k1 = Some k' \<Longrightarrow> nap k k1 \<Longrightarrow> nap k k'"
  by (auto simp: sema_up_def bind_eq_Some_conv Let_def elim!: nap_yield dest!: nap_unblock [of _ _ _ k] split: list.splits)

lemma nap_lock_acquire [napping]: "lock_acquire l k1 = Some k' \<Longrightarrow> nap k k1 \<Longrightarrow> nap k k'"
  by (auto simp: lock_acquire_def bind_eq_Some_conv elim!: nap_sema_down split: if_splits)

lemma nap_lock_acquired [napping]: "lock_acquired l k1 = Some k' \<Longrightarrow> nap k k1 \<Longrightarrow> nap k k'"
  by (auto simp: lock_acquired_def bind_eq_Some_conv)

lemma nap_lock_release [napping]: "lock_release l k1 = Some k' \<Longrightarrow> nap k k1 \<Longrightarrow> nap k k'"
  by (auto simp: lock_release_def bind_eq_Some_conv split: if_splits)

lemma nap_cond_wait [napping]: "cond_wait c l k1 = Some k' \<Longrightarrow> nap k k1 \<Longrightarrow> nap k k'"
  by (auto simp: cond_wait_def bind_eq_Some_conv Let_def elim!: nap_lock_release split: if_splits)

lemma nap_cond_wait_down [napping]: "cond_wait_down k1 = Some k' \<Longrightarrow> nap k k1 \<Longrightarrow> nap k k'"
  by (auto simp: cond_wait_down_def bind_eq_Some_conv elim!: nap_sema_down)

lemma nap_cond_signal [napping]: "cond_signal c l k1 = Some k' \<Longrightarrow> nap k k1 \<Longrightarrow> nap k k'"
  by (auto simp: cond_signal_def bind_eq_Some_conv elim!: nap_sema_up split: if_splits list.splits)

lemma nap_cond_broadcast [napping]: "cond_broadcast c l k1 = Some k' \<Longrightarrow> nap k k1 \<Longrightarrow> nap k k'"
  by (auto simp: cond_broadcast_def elim!: nap_cond_signal split: if_splits)

lemma nap_intr [napping]:
  "intr_enable k1 = Some k' \<Longrightarrow> nap k k1 \<Longrightarrow> nap k k'"
  "intr_set_level lvl k1 = Some k' \<Longrightarrow> nap k k1 \<Longrightarrow> nap k k'"
  "intr_yield_on_return k1 = Some k' \<Longrightarrow> nap k k1 \<Longrightarrow> nap k k'"
  by (auto simp: intr_enable_def intr_set_level_def intr_yield_on_return_def split: if_splits)

lemma nap_set_priority [napping]: "thread_set_priority p k1 = Some k' \<Longrightarrow> nap k k1 \<Longrightarrow> nap k k'"
  by (auto simp: thread_set_priority_def bind_eq_Some_conv Let_def elim!: nap_yield split: if_splits)

lemma nap_set_nice [napping]: "thread_set_nice p k1 = Some k' \<Longrightarrow> nap k k1 \<Longrightarrow> nap k k'"
  by (auto simp: thread_set_nice_def bind_eq_Some_conv Let_def elim!: nap_yield split: if_splits)

lemma nap_exit_tail:
  assumes r: "exit_tail k1 = Some k'" and n: "nap k k1" and c: "running k1 \<notin> set (sleep_list k1)"
  shows "nap k k'"
proof -
  let ?k = "(intr_disable (if userprog k1 then upd_thread (running k1) (\<lambda>th. th\<lparr>pagedir := 0\<rparr>) k1 else k1))
    \<lparr>all_list := remove1 (running k1) (all_list k1)\<rparr>"
  have s: "schedule (set_status THREAD_DYING (running k1) ?k) = Some k'"
    using r by (auto simp: exit_tail_def bind_eq_Some_conv Let_def thread_current_def split: if_splits)
  have n2: "nap k ?k" using n by simp
  have c2: "running k1 \<notin> set (sleep_list ?k)" using c by simp
  have "nap k (set_status THREAD_DYING (running k1) ?k)"
    using n2 c2 by (auto simp: nap_def nap_ok_def view split: if_splits)
  then show ?thesis by (rule nap_schedule [OF s])
qed

lemma nap_thread_exit [napping]: "thread_exit k1 = Some k' \<Longrightarrow> nap k k1 \<Longrightarrow> nap k k'"
  by (auto simp: thread_exit_def bind_eq_Some_conv split: if_splits)

lemma nap_exit_wait [napping]: "exit_wait k1 = Some k' \<Longrightarrow> nap k k1 \<Longrightarrow> nap k k'"
  by (auto simp: exit_wait_def bind_eq_Some_conv elim!: nap_yield split: if_splits)

lemma nap_loaded [napping]: "loaded ok k1 = Some k' \<Longrightarrow> nap k k1 \<Longrightarrow> nap k k'"
  by (auto simp: loaded_def bind_eq_Some_conv Let_def elim!: nap_thread_exit split: if_splits)

lemma nap_exec_created [napping]: "exec_created k1 = Some k' \<Longrightarrow> nap k k1 \<Longrightarrow> nap k k'"
  by (auto simp: exec_created_def bind_eq_Some_conv)

lemma nap_exec_wait_load [napping]: "exec_wait_load t k1 = Some k' \<Longrightarrow> nap k k1 \<Longrightarrow> nap k k'"
  by (auto simp: exec_wait_load_def bind_eq_Some_conv elim!: nap_yield split: if_splits)

lemma nap_exec_result [napping]: "exec_result k1 = Some k' \<Longrightarrow> nap k k1 \<Longrightarrow> nap k k'"
  by (auto simp: exec_result_def bind_eq_Some_conv)

lemma nap_process_wait [napping]: "process_wait t k1 = Some k' \<Longrightarrow> nap k k1 \<Longrightarrow> nap k k'"
  by (auto simp: process_wait_def bind_eq_Some_conv split: option.splits)

lemma nap_wait_child [napping]: "wait_child c k1 = Some k' \<Longrightarrow> nap k k1 \<Longrightarrow> nap k k'"
  by (auto simp: wait_child_def bind_eq_Some_conv Let_def elim!: nap_yield split: if_splits)

lemma nap_tid_bump [napping]: "tid_bump k1 = Some k' \<Longrightarrow> nap k k1 \<Longrightarrow> nap k k'"
  by (auto simp: tid_bump_def elim!: nap_lock_release)

lemma nap_set_members [simp]: "nap k (set_members t fn cur k1) = nap k k1"
  by (simp add: set_members_def inherit_mlfqs_def user_init_def Let_def)

lemma nap_create_rest [napping]: "create_rest t fn k1 = Some k' \<Longrightarrow> nap k k1 \<Longrightarrow> nap k k'"
  by (auto simp: create_rest_def bind_eq_Some_conv elim!: nap_yield nap_unblock)

lemma nap_start_rest [napping]: "start_rest s k1 = Some k' \<Longrightarrow> nap k k1 \<Longrightarrow> nap k k'"
  by (auto simp: start_rest_def bind_eq_Some_conv elim!: nap_sema_down nap_intr)

lemma nap_kernel_thread [napping]: "kernel_thread fn k1 = Some k' \<Longrightarrow> nap k k1 \<Longrightarrow> nap k k'"
  by (cases fn) (auto simp: kernel_thread_def bind_eq_Some_conv elim!: nap_intr)

lemma nap_idle [napping]:
  "idle_init s k1 = Some k' \<Longrightarrow> nap k k1 \<Longrightarrow> nap k k'"
  "idle_loop k1 = Some k' \<Longrightarrow> nap k k1 \<Longrightarrow> nap k k'"
  by (auto simp: idle_init_def idle_loop_def bind_eq_Some_conv Let_def elim!: nap_sema_up nap_block)

lemma nap_create:
  assumes r: "thread_create page name pri fn k1 = Some k'" and n: "nap k k1"
    and new: "\<And>t. page = Some t \<Longrightarrow> t \<notin> set (sleep_list k1)"
  shows "nap k k'"
proof (cases page)
  case None
  then show ?thesis using r n by (auto simp: thread_create_def)
next
  case (Some t)
  then obtain k2 where k2: "init_thread t name pri k1 = Some k2" "allocate_tid (push (CreateRest t fn) k2) = Some k'"
    using r by (auto simp: thread_create_def bind_eq_Some_conv)
  have other: "st k2 u = st k1 u" "alarm k2 u = alarm k1 u" if "u \<noteq> t" for u
    using k2(1) that by (auto simp: init_thread_def bind_eq_Some_conv st_def alarm_def Let_def split: if_splits)
  have lists: "sleep_list k2 = sleep_list k1" "ticks k2 = ticks k1"
    using k2(1) by (auto simp: init_thread_def bind_eq_Some_conv Let_def split: if_splits)
  have nt: "u \<noteq> t" if "u \<in> set (sleep_list k1)" for u using new [OF Some] that by blast
  have "nap k k2"
    using n other nt unfolding nap_def nap_ok_def lists by metis
  then show ?thesis using k2(2) by (auto simp: allocate_tid_def elim!: nap_lock_acquire)
qed

lemma nap_frame:
  assumes "exec_frame f k1 = Some k'" "nap k k1" "running k1 \<notin> set (sleep_list k1)"
  shows "nap k k'"
proof (cases "f = ExitTail")
  case True
  then show ?thesis using assms nap_exit_tail by simp
next
  case False
  then show ?thesis
    using assms(1,2) by (cases f) (auto elim!: napping simp: bind_eq_Some_conv)
qed

section \<open>Falling asleep and the tick\<close>

text \<open>thread_sleep adds the running thread to the sleepers and leaves the others alone.\<close>

lemma sleep_keeps:
  assumes r: "thread_sleep at k1 = Some k'" and n: "nap k k1" and ok: "nap_ok k"
    and c: "running k1 \<notin> set (sleep_list k)"
  shows "ticks k' = ticks k \<and> (\<forall>t \<in> set (sleep_list k). alarm k' t = alarm k t)"
proof -
  let ?k = "upd_thread (running k1) (\<lambda>th. th\<lparr>alarm_ticks := wrap32 at\<rparr>) k1"
  let ?s = "?k\<lparr>sleep_list := insert_ordered (alarm_ticks_comp ?k) (running k1) (sleep_list ?k)\<rparr>"
  have cur: "st k1 (running k1) = Some THREAD_RUNNING" and b: "thread_block ?s = Some k'"
    using r by (auto simp: thread_sleep_def bind_eq_Some_conv Let_def thread_current_def st_def split: if_splits)
  have q: "nap_ok k1" "sleep_list k1 = sleep_list k" "ticks k1 = ticks k" "\<forall>t \<in> set (sleep_list k). alarm k1 t = alarm k t"
    using n ok unfolding nap_def by blast+
  have st: "st ?s = st k1" by (rule ext) (simp add: st_def option.map_comp o_def)
  have al: "alarm ?s t = alarm k1 t" if "t \<noteq> running k1" for t using that by (simp add: alarm_def)
  have sl: "set (sleep_list ?s) = insert (running k1) (set (sleep_list k))" by (simp add: q(2))
  have "nap_ok ?s" using q(1,2) cur sl unfolding nap_ok_def st by auto
  moreover have "nap ?s k'" by (rule nap_block [OF b]) simp
  ultimately have "ticks k' = ticks ?s" "\<forall>t \<in> set (sleep_list ?s). alarm k' t = alarm ?s t"
    unfolding nap_def by blast+
  then have e: "ticks k' = ticks k1" "\<And>t. t \<in> set (sleep_list k) \<Longrightarrow> alarm k' t = alarm ?s t"
    unfolding sl by simp_all
  have "alarm k' t = alarm k t" if "t \<in> set (sleep_list k)" for t
  proof -
    have "t \<noteq> running k1" using that c by blast
    then show ?thesis using e(2) [OF that] al [of t] q(4) that by simp
  qed
  then show ?thesis using e(1) q(3) by simp
qed

lemma alarm_loop_keeps:
  "alarm_loop ts now k = Some k' \<Longrightarrow> sleep_list k = ts \<Longrightarrow> sorted_wrt (\<lambda>a b. alarm k a \<le> alarm k b) ts \<Longrightarrow> nap_ok k \<Longrightarrow>
   nap_ok k' \<and> sleep_list k' = filter (\<lambda>t. alarm k t > now) ts \<and> alarm k' = alarm k \<and> ticks k' = ticks k"
proof (induction ts arbitrary: k)
  case (Cons t ts)
  show ?case
  proof (cases "alarm k t > now")
    case True
    then have "\<forall>u \<in> set (t # ts). alarm k u > now" using Cons.prems(3) by auto
    moreover from this have "filter (\<lambda>t. alarm k t > now) (t # ts) = t # ts" by (simp add: filter_id_conv)
    ultimately show ?thesis using True Cons.prems by auto
  next
    case False
    then obtain k1 where u: "thread_unblock t (k\<lparr>sleep_list := ts\<rparr>) = Some k1" "alarm_loop ts now k1 = Some k'"
      using Cons.prems(1) by (auto simp: bind_eq_Some_conv)
    have "nap (k\<lparr>sleep_list := ts\<rparr>) k1" by (rule nap_unblock [OF u(1)]) simp
    moreover have "nap_ok (k\<lparr>sleep_list := ts\<rparr>)" using Cons.prems(2,4) by (auto simp: nap_ok_def st_def)
    ultimately have k1: "nap_ok k1" "sleep_list k1 = ts" "ticks k1 = ticks k" by (auto simp: nap_def)
    have al: "alarm k1 = alarm k" using alarm_unblock [OF u(1)] by (simp add: alarm_def fun_eq_iff)
    have "sorted_wrt (\<lambda>a b. alarm k1 a \<le> alarm k1 b) ts" using Cons.prems(3) al by simp
    from Cons.IH [OF u(2) k1(2) this k1(1)] show ?thesis using al k1(3) False by simp
  qed
qed simp

lemma nap_thread_tick [napping]: "thread_tick k1 = Some k' \<Longrightarrow> nap k k1 \<Longrightarrow> nap k k'"
  by (auto simp: thread_tick_def bind_eq_Some_conv Let_def count_tick_def elim!: nap_intr split: if_splits)

lemma nap_preempted [napping]: "yield_if_preempted k1 = Some k' \<Longrightarrow> nap k k1 \<Longrightarrow> nap k k'"
  by (auto simp: yield_if_preempted_def bind_eq_Some_conv elim!: nap_intr split: if_splits)

lemma nap_aging_loop: "nap k (aging_loop ts k1) = nap k k1"
  by (induction ts arbitrary: k1) simp_all

lemma nap_aging [napping]: "thread_priority_aging k1 = Some k' \<Longrightarrow> nap k k1 \<Longrightarrow> nap k k'"
  unfolding thread_priority_aging_def by (erule nap_preempted) (simp add: nap_aging_loop)

lemma nap_priority_loop: "priority_loop ts k1 = Some k' \<Longrightarrow> nap k k1 \<Longrightarrow> nap k k'"
  by (induction ts arbitrary: k1) (auto simp: bind_eq_Some_conv)

lemma nap_recent_cpu_loop: "recent_cpu_loop ts k1 = Some k' \<Longrightarrow> nap k k1 \<Longrightarrow> nap k k'"
  by (induction ts arbitrary: k1) (auto simp: bind_eq_Some_conv split: if_splits)

lemma nap_update_priority [napping]: "update_priority k1 = Some k' \<Longrightarrow> nap k k1 \<Longrightarrow> nap k k'"
  by (auto simp: update_priority_def bind_eq_Some_conv Let_def elim!: nap_preempted dest!: nap_priority_loop [of _ _ _ k])

lemma nap_mlfqs [napping]:
  assumes "mlfqs_updates k1 = Some k'" "nap k k1" shows "nap k k'"
proof -
  obtain a b where r: "update_periodic_recent_cpu k1 = Some a"
    "(if ticks a smod TIMER_FREQ = 0 then do { k \<leftarrow> update_load_avg a; update_recent_cpu k } else Some a) = Some b"
    "(if ticks b smod 4 = 0 then update_priority b else Some b) = Some k'"
    using assms(1) by (auto simp: mlfqs_updates_def bind_eq_Some_conv)
  have "nap k a" using r(1) assms(2) by (auto simp: update_periodic_recent_cpu_def bind_eq_Some_conv split: if_splits)
  then have "nap k b"
    using r(2) by (auto simp: update_load_avg_def update_recent_cpu_def bind_eq_Some_conv split: if_splits
        elim!: nap_recent_cpu_loop)
  then show ?thesis using r(3) by (auto split: if_splits elim: nap_update_priority)
qed

text \<open>The tick wakes every sleeper whose time has come.\<close>

lemma tick_wakes:
  assumes k: "kwf k" and r: "timer_irq k = Some k'"
  shows "ticks k' = wrap64 (ticks k + 1)"
    "t \<in> set (sleep_list k') \<Longrightarrow> t \<in> set (sleep_list k) \<and> alarm k' t = alarm k t \<and> ticks k' < alarm k t"
proof -
  define a where "a = (intr_disable (push (SetLevel INTR_ON) k))\<lparr>in_external_intr := True, yield_on_return := False,
    ticks := wrap64 (ticks k + 1)\<rparr>"
  obtain g where g: "timer_interrupt (intr_disable (push (SetLevel INTR_ON) k)\<lparr>in_external_intr := True, yield_on_return := False\<rparr>) = Some g"
    and y': "(if yield_on_return g then thread_yield (g\<lparr>in_external_intr := False\<rparr>) else Some (g\<lparr>in_external_intr := False\<rparr>)) = Some k'"
    using r by (auto simp: timer_irq_def intr_handler_timer_def bind_eq_Some_conv Let_def split: if_splits)
  have y: "nap g k'" using y' by (auto split: if_splits elim: nap_yield)
  obtain b d e f where b: "thread_tick a = Some b" and al: "thread_alarm (ticks (intr_disable b)) (intr_disable b) = Some d"
    and e: "(if thread_prior_aging d then thread_priority_aging d else Some d) = Some e"
    and f: "(if thread_mlfqs e then mlfqs_updates e else Some e) = Some f"
    and lv: "intr_set_level (intr_level_of b) f = Some g"
    using g unfolding timer_interrupt_def a_def by (auto simp: bind_eq_Some_conv Let_def)
  obtain c where c: "alarm_loop (sleep_list b) (ticks b) (intr_disable b) = Some c"
    and d: "intr_yield_on_return c = Some d"
    using al by (auto simp: thread_alarm_def bind_eq_Some_conv)
  have K: "kinv k" by (rule kwf_running(1) [OF k])
  have ok: "nap_ok k" using kinv_off_status [OF K, of _ PSleep] by (simp add: nap_ok_def)
  have a: "nap_ok a" "sleep_list a = sleep_list k" "alarm a = alarm k" "ticks a = wrap64 (ticks k + 1)"
  proof -
    have thr: "threads a = threads (push (SetLevel INTR_ON) k)" by (simp add: a_def)
    show al: "alarm a = alarm k" using threads_views(3) [OF thr] by (simp add: view)
    have st: "st a = st k" using threads_views(1) [OF thr] by (simp add: view)
    show sl: "sleep_list a = sleep_list k" "ticks a = wrap64 (ticks k + 1)" by (simp_all add: a_def)
    show "nap_ok a" using ok unfolding nap_ok_def st sl .
  qed
  have nb: "nap a b" using b by (auto elim: nap_thread_tick)
  have b': "nap_ok b" "sleep_list b = sleep_list k" "ticks b = wrap64 (ticks k + 1)" "\<forall>t \<in> set (sleep_list k). alarm b t = alarm k t"
    using nb a unfolding nap_def by metis+
  have "sorted_wrt (\<lambda>x y. alarm k x \<le> alarm k y) (sleep_list k)" using kinv_sorted [OF K] by (simp add: sorted_ok_def)
  then have srt: "sorted_wrt (\<lambda>x y. alarm b x \<le> alarm b y) (sleep_list b)"
    using b'(2,4) sorted_wrt_alarm_cong [of "sleep_list k" "alarm b" "alarm k"] by simp
  have c': "nap_ok c" "sleep_list c = filter (\<lambda>t. alarm b t > ticks b) (sleep_list b)" "alarm c = alarm b" "ticks c = ticks b"
    using alarm_loop_keeps [OF c] srt b'(1) by (simp_all add: view nap_ok_def)
  have "nap c k'"
  proof -
    have "nap c d" using d by (auto elim: nap_intr)
    then have "nap c e" using e by (auto split: if_splits elim: nap_aging)
    then have "nap c f" using f by (auto split: if_splits elim: nap_mlfqs)
    then have "nap c g" using lv by (auto elim: nap_intr)
    then show ?thesis using y by (rule nap_trans)
  qed
  then have k': "sleep_list k' = sleep_list c" "ticks k' = ticks c" "\<forall>t \<in> set (sleep_list c). alarm k' t = alarm c t"
    using c'(1) unfolding nap_def by blast+
  show "ticks k' = wrap64 (ticks k + 1)" using k'(2) c'(4) b'(3) by simp
  show "t \<in> set (sleep_list k) \<and> alarm k' t = alarm k t \<and> ticks k' < alarm k t" if "t \<in> set (sleep_list k')"
    using that k' c' b' by auto
qed

section \<open>Calls, steps and runs\<close>

lemma nap_call:
  assumes k: "kwf k" and p: "call_pre c k" and e: "call_fn c k = Some k'"
  shows "ticks k' = ticks k \<and> (\<forall>t \<in> set (sleep_list k). alarm k' t = alarm k t)"
proof -
  have K: "kinv k" by (rule kwf_running(1) [OF k])
  have ok: "nap_ok k" using kinv_off_status [OF K, of _ PSleep] by (simp add: nap_ok_def)
  have run: "running k \<notin> set (sleep_list k)"
    using kwf_running(2) [OF k] kinv_off_status [OF K, of "running k" PSleep] by auto
  have fresh: "t \<notin> set (sleep_list k)" if "threads k t = None" for t
    using ok that by (auto simp: nap_ok_def st_def)
  have new: "nap k k'" if "\<And>n. c \<noteq> Sleep n"
  proof (cases c)
    case (Create page name pri)
    have "\<And>t. page = Some t \<Longrightarrow> t \<notin> set (sleep_list k)" using p Create fresh by auto
    then show ?thesis using e Create nap_create [of page name pri KernelFn k k' k] by simp
  next
    case (Exec page name ok)
    have "\<And>t. page = Some t \<Longrightarrow> t \<notin> set (sleep_list k)" using p Exec fresh by auto
    then show ?thesis
      using e Exec nap_create [of page name PRI_DEFAULT "StartProcess ok" "push ExecCreated (push ExecResult k)" k' k]
      by (simp add: process_execute_def)
  qed (use e that in \<open>auto simp: bind_eq_Some_conv elim!: napping\<close>)
  show ?thesis
  proof (cases "\<exists>n. c = Sleep n")
    case True
    then obtain n where "timer_sleep n k = Some k'" using e by auto
    then have "thread_sleep (wrap64 (timer_ticks k + n)) (intr_disable (push (SetLevel (intr_level_of k)) k)) = Some k'"
      by (auto simp: timer_sleep_def Let_def split: if_splits)
    then show ?thesis by (rule sleep_keeps [OF _ _ ok]) (use run in simp_all)
  next
    case False
    then show ?thesis using new ok by (auto simp: nap_def)
  qed
qed

lemma nap_pop:
  assumes k: "kwf k" and p: "pop_frame k = Some (f, k1)" and e: "exec_frame f k1 = Some k'"
  shows "nap k k'"
proof (rule nap_frame [OF e])
  obtain fs where k1: "k1 = upd_thread (running k) (\<lambda>th. th\<lparr>frames := fs\<rparr>) k"
    using p by (auto elim: pop_frameE)
  show "nap k k1" unfolding k1 by simp
  have "running k \<notin> set (sleep_list k)"
    using kwf_running(2) [OF k] kinv_off_status [OF kwf_running(1) [OF k], of "running k" PSleep] by auto
  then show "running k1 \<notin> set (sleep_list k1)" by (simp add: k1)
qed

lemma kstep_naps:
  assumes k: "kwf k" and s: "kstep k k'" and t: "t \<in> set (sleep_list k)" "t \<in> set (sleep_list k')"
  shows "alarm k' t = alarm k t"
  using s
proof cases
  case (step_frame f k1)
  have "nap_ok k" using kinv_off_status [OF kwf_running(1) [OF k], of _ PSleep] by (simp add: nap_ok_def)
  then show ?thesis using nap_pop [OF k step_frame] t(1) by (simp add: nap_def)
next
  case (step_call c)
  then show ?thesis using nap_call [OF k step_call(3,4)] t(1) by blast
next
  case step_tick
  then show ?thesis using tick_wakes(2) [OF k _ t(2)] by blast
qed

text \<open>The runs from k on in which t sleeps all the time, with the number of their ticks.\<close>

inductive sleeps_through :: "tptr \<Rightarrow> kstate \<Rightarrow> nat \<Rightarrow> kstate \<Rightarrow> bool" for t k where
  asleep: "t \<in> set (sleep_list k) \<Longrightarrow> sleeps_through t k 0 k"
| asleep_step: "sleeps_through t k n k1 \<Longrightarrow> kstep k1 k2 \<Longrightarrow> ticks k2 = ticks k1 \<Longrightarrow>
    t \<in> set (sleep_list k2) \<Longrightarrow> sleeps_through t k n k2"
| asleep_tick: "sleeps_through t k n k1 \<Longrightarrow> intr_level_of k1 = INTR_ON \<Longrightarrow> timer_irq k1 = Some k2 \<Longrightarrow>
    t \<in> set (sleep_list k2) \<Longrightarrow> sleeps_through t k (Suc n) k2"

lemma sleeps_through_keeps:
  assumes r: "sleeps_through t k n k'" and s: "safe k"
    and b: "- (2 ^ 63) \<le> ticks k" "ticks k < 2 ^ 63 - 1" "alarm k t < 2 ^ 63"
  shows "safe k' \<and> t \<in> set (sleep_list k') \<and> alarm k' t = alarm k t \<and> ticks k' = ticks k + int n \<and>
    (n = 0 \<or> ticks k' < alarm k t)"
  using r
proof induction
  case asleep
  then show ?case using s by simp
next
  case (asleep_step n k1 k2)
  have "kwf k1" using asleep_step.IH by (simp add: safe_def)
  then show ?case using asleep_step kstep_safe kstep_naps by auto
next
  case (asleep_tick n k1 k2)
  have k1: "kwf k1" "safe k1" using asleep_tick.IH by (simp_all add: safe_def)
  have lt: "ticks k1 < 2 ^ 63 - 1" and ge: "- (2 ^ 63) \<le> ticks k1" using asleep_tick.IH b by auto
  then have w: "wrap64 (ticks k1 + 1) = ticks k1 + 1" by (simp add: wrap64_id)
  have "kstep k1 k2" by (rule step_tick [OF asleep_tick.hyps(2,3)])
  then have "safe k2" by (rule kstep_safe [OF k1(2)])
  then show ?case
    using asleep_tick.IH asleep_tick.hyps(4) tick_wakes(1) [OF k1(1) asleep_tick.hyps(3)] tick_wakes(2) [OF k1(1) asleep_tick.hyps(3), of t] w by simp
qed

text \<open>C11: a sleeping thread is woken in time: in a kernel that satisfies the invariant, a thread that
  sleeps until tick a sleeps through no run, whatever the threads call in it and wherever the timer
  interrupts them, whose ticks reach a; its wake-up time stays as it is all the while.  So in every run
  with enough timer ticks the thread leaves the sleep list, at the latest with the tick that reaches its
  wake-up time (the bounds say that the clock does not wrap around).\<close>

theorem sleeper_wakes_in_time:
  assumes "safe k" "sleeps_through t k n k'"
    and "- (2 ^ 63) \<le> ticks k" "ticks k < 2 ^ 63 - 1" "alarm k t < 2 ^ 63"
  shows "(n = 0 \<or> ticks k + int n < alarm k t) \<and> alarm k' t = alarm k t \<and> ticks k' = ticks k + int n"
  using sleeps_through_keeps [OF assms(2,1,3-5)] by auto

lemma alarm_booted: "alarm booted t = (if t = 16384 then 7 else 0)"
  by (simp add: alarm_def)

lemma booted_tick: "\<exists>k'. timer_irq booted = Some k' \<and> sleep_list k' = [16384]"
  by (simp add: timer_irq_def intr_handler_timer_def timer_interrupt_def thread_tick_def thread_current_def count_tick_def
      thread_alarm_def intr_yield_on_return_def intr_set_level_def alarm_def Let_def push_def intr_disable_def upd_thread_def
      wrap64_def booted_def TIME_SLICE_def thread_yield_def priority_comp_def prio_def set_status_def schedule_def
      next_thread_to_run_def thread_schedule_tail_def demo_thread_def zero_thread_def)

theorem sleeper_wakes_in_time_witness:
  "\<exists>k'. sleeps_through 16384 booted 1 k' \<and> ticks booted + 1 < alarm booted 16384 \<and> alarm k' 16384 = 7"
proof -
  obtain k' where k': "timer_irq booted = Some k'" "sleep_list k' = [16384]" using booted_tick by blast
  have "sleeps_through 16384 booted 0 booted" by (rule asleep) simp
  then have "sleeps_through 16384 booted (Suc 0) k'" by (rule asleep_tick) (simp_all add: k')
  then have r: "sleeps_through 16384 booted 1 k'" by simp
  show ?thesis using r sleeper_wakes_in_time [OF booted_safe r] by (auto simp: alarm_booted)
qed

end
