(* ===== verification/Spec2Isabelle.thy ===== *)
theory Spec2Isabelle
  imports KernelProps KListMore Arith64 DirProps ArgPass KStdlib Loader KHash LockExcl Stdio Malloc Syscall SleepLive
begin

text \<open>
  A verification development for the Pintos kernel in 20161211_pintos_prj3/src.  File names
  below are relative to that directory; prj0_2 is the exercise 20161211_pintos_prj0_2, an
  earlier user-space use of the same data structures.

  \<^bold>\<open>Conventions.\<close>  A C function becomes a definition with its name, which takes the state it
  reads and returns the state it leaves.  None is a kernel panic or a fault: a failing ASSERT,
  an access outside of every object, a null pointer, a trapping division.  A function that
  reports failure to its caller returns the value the source returns (null, false, -1 or an
  error code), so that a panic and a reported failure are different results.  In a system call a
  page fault ends the process, and an access outside of the descriptor table or of a block is the
  outcome Stray, after which nothing is known.  int and off_t
  values are integers with \<open>wrap32\<close>/\<open>wrap64\<close> where a C operation can overflow; size_t and
  unsigned arithmetic is taken modulo 2 ^ 32; bit operations are on \<open>32 word\<close> and \<open>64 word\<close>.
  A loop whose end depends on the contents of memory or of a list is a \<open>partial_function (option)\<close>,
  so that a loop that does not end is None as well; the theorems about such functions say that
  they return.  The other loops are recursive functions with their termination proofs; no
  fuel is used.  Prelude holds these notions and the lemmas that the components share.

  \<^bold>\<open>Threads.\<close>  Kernel is the state of threads/thread.c, threads/interrupt.c and the scheduler;
  Synch is threads/synch.c, Timer is devices/timer.c, and Lifecycle is the creation and the end
  of threads with the parent and child protocol of userprog/process.c.  A function that may
  block pushes the frames of its remainder on its thread's stack, so that between two steps of
  the relation \<open>kstep\<close> any other thread may run; a step is one frame, one call that a thread makes
  from its own code, or one timer interrupt, and \<open>kreach\<close> is reachability.  FixedPoint is
  threads/fixed_point.h with the formulas of the feedback queue.
  KernelInv, KernelOps, KernelSteps and KernelLife show that every operation keeps the invariant
  \<open>kwf\<close> of the scheduler lists; KernelSafety adds priorities and the shapes of the stacks and
  concludes about all reachable states, in which thread_set_priority may have been given every int but
  INT_MAX; KernelProps holds the properties of the single
  operations; LockExcl counts, for each lock, the semaphore value, the recorded holder and the
  frames that own the lock, which gives mutual exclusion in all reachable states; SleepLive shows
  that no thread sleeps longer than it asked for, in any run whose timer ticks reach its wake-up time.

  \<^bold>\<open>Lists and tables.\<close>  KList is lib/kernel/list.c on prev and next pointers; KListRefine,
  KListSort and KListMore show that each operation computes the HOL list function that the other
  theories use in its place (the relation is \<open>dll\<close>), the natural merge sort included.  The locale
  \<open>list_less\<close> is the contract of a comparison function of list.h; it is interpreted for the orders
  of the ready list and the sleep list.  KHash is lib/kernel/hash.c, an array of such lists; it is a
  refinement of a finite map, for every hash function and order with the laws of the locale
  \<open>element_hash\<close>, which the functions of prj0_2 are shown to have.  Bitmap is
  lib/kernel/bitmap.c on its 32-bit elements.

  \<^bold>\<open>Library.\<close>  KString (lib/string.c) and KStdlib (lib/stdlib.c, lib/ctype.h) work on a flat memory of
  bytes in which addresses outside of objects have no value.  The locale \<open>comparator\<close> is the
  contract of a comparison of lib/stdlib.h, interpreted for byte strings.  Arith64 is
  lib/arithmetic.c, and Stdio is the formatted output of lib/stdio.c, as the bytes that it
  outputs.

  \<^bold>\<open>Memory.\<close>  Allocator states, as the locale \<open>run_allocator\<close>, what an allocator of runs of numbered
  units promises; BitmapAlloc has the facts about bitmaps behind its two implementations:
  Palloc (threads/palloc.c, threads/vaddr.h) and the free map of the file system.  Malloc is
  threads/malloc.c on Palloc: its blocks in use never overlap, and free and realloc keep the
  contents of the others.  The headers of its arenas and the links of its free lists are a map and lists
  beside the bytes of memory; the blocks in use are shown to be apart from the places where the source
  keeps them.  PageDir (userprog/pagedir.c, threads/pte.h) keeps page directories and
  page tables as words (MemWords) in the pages of Palloc.

  \<^bold>\<open>Programs.\<close>  Loader is the part of userprog/process.c that reads an ELF file into pages; ArgPass
  is the part that splits the command line and lays it out on the user stack.  Syscall is
  userprog/syscall.c on the file system and the process's memory, with the exit of
  userprog/exception.c's page_fault: the descriptor table, the counting of the mutex and the checks of
  addresses.  UserNames is open, create and remove of the file system on a name in the process's memory,
  which is read where filesys/directory.c reads it, and may fault there.  Each call is one step; exec and wait only decode their arguments there and are steps of
  Lifecycle.

  \<^bold>\<open>File system.\<close>  Block is devices/block.c with disks as their contents; Inode and InodeRW are
  reading and writing of filesys/inode.c; FreeMap has filesys/file.c, filesys/free-map.c and the
  life of an inode; Directory has filesys/directory.c and filesys/filesys.c.  FSBytes gives the
  byte images of inodes, directory entries and maps with their round trips, and FSProps and
  DirProps hold the properties.  Open inodes, files and directories live in maps from pointers,
  so that two openers of an inode share it as the source's do.

  \<^bold>\<open>Parameters.\<close>  What the modelled code gets from outside is an argument of the definitions: the
  outcome of allocations where malloc's own state does not matter (a page or none, a list of
  booleans), comparison and hash functions with their auxiliary data, the contents of
  uninitialised buffers, and the page that palloc hands to thread_create.

  \<^bold>\<open>Between the components.\<close>  The kernel state uses lists as sequences, on the strength of the
  refinement of list.c.  palloc, malloc and the file system run as single steps under their
  locks; LockExcl shows that these locks exclude.  So the interleaving of threads is modelled for
  the scheduler, the synchronisation and the parent and child protocol, and not inside the memory
  and file system calls.

  \<^bold>\<open>Not modelled.\<close>  The boot code, the switch of kernel stacks and the interrupt entry are
  assembly; threads/init.c, the descriptor tables (userprog/gdt.c, tss.c), the interrupt controller and
  the drivers (devices/ide.c, kbd.c, serial.c, vga.c, pit.c, rtc.c, shutdown.c) are port input and
  output.  The rest of
  userprog/exception.c prints and kills.  lib/kernel/console.c, debug.c and the
  functions that print statistics only output.  filesys/fsutil.c, lib/ustar.c, the programs under examples,
  lib/user and tests are not part of the kernel; prj0_2/main.c is a command interpreter, and the kernels
  of prj1 and prj2 are earlier versions of this one.
\<close>

end
